(* ===== verification/Prelude.thy ===== *)
theory Prelude
  imports Main "HOL-Library.Word" "HOL-Library.Multiset"
begin

text \<open>
  Shared ground of the development: names for the C integer types, the wrap-around
  comparison of 64-bit keys (\<open>DN_KEY_LT\<close>, \<open>DN_KEY_LEQ\<close> of
  \<open>sys/netinet/ipfw/dn_heap.h\<close>) with the conditions under which it is a linear order,
  and the lemmas on arrays (functions from indices) and multisets that the components share.
\<close>

unbundle bit_operations_syntax

type_synonym u8 = "8 word"
type_synonym u16 = "16 word"
type_synonym u32 = "32 word"
type_synonym u64 = "64 word"

named_theorems dn_defs \<open>definitions unfolded together in component proofs\<close>

section \<open>Wrap-around key comparison\<close>

text \<open>\<open>DN_KEY_LT(a,b)\<close> is \<open>(int64_t)(a - b) < 0\<close>, and \<open>DN_KEY_LEQ\<close> the same with \<open>\<le>\<close>.\<close>

definition DN_KEY_LT :: "u64 \<Rightarrow> u64 \<Rightarrow> bool" where
  "DN_KEY_LT a b \<longleftrightarrow> sint (a - b) < 0"

definition DN_KEY_LEQ :: "u64 \<Rightarrow> u64 \<Rightarrow> bool" where
  "DN_KEY_LEQ a b \<longleftrightarrow> sint (a - b) \<le> 0"

text \<open>
  The comparison is a linear order only on keys that fit in half the number circle. The
  offset of a key from a base, and the window of keys less than \<open>2 ^ 63\<close> after the base.
\<close>

definition koff :: "u64 \<Rightarrow> u64 \<Rightarrow> nat" where
  "koff b k = unat (k - b)"

definition in_window :: "u64 \<Rightarrow> u64 \<Rightarrow> bool" where
  "in_window b k \<longleftrightarrow> koff b k < 2 ^ 63"

lemma sint_u64: "sint (w :: u64) = (if unat w < 2 ^ 63 then int (unat w) else int (unat w) - 2 ^ 64)"
proof -
  have b: "0 \<le> uint w" "uint w < 2 ^ 64"
    using uint_bounded [of w] by simp_all
  have m: "(uint w + 2 ^ 63) mod 2 ^ 64 = (if uint w < 2 ^ 63 then uint w + 2 ^ 63 else uint w - 2 ^ 63)"
  proof (cases "uint w < 2 ^ 63")
    case True
    with b show ?thesis by (simp add: mod_pos_pos_trivial)
  next
    case False
    then have "(uint w + 2 ^ 63) mod 2 ^ 64 = (uint w + 2 ^ 63 - 2 ^ 64) mod 2 ^ 64"
      by (intro mod_pos_geq) simp_all
    with False b show ?thesis by (simp add: mod_pos_pos_trivial)
  qed
  have "sint w = take_bit 64 (uint w + 2 ^ 63) - 2 ^ 63"
    by (simp add: sint_uint signed_take_bit_eq_take_bit_shift)
  also have "\<dots> = (if uint w < 2 ^ 63 then uint w else uint w - 2 ^ 64)"
    unfolding take_bit_eq_mod m by simp
  finally have s: "sint w = (if uint w < 2 ^ 63 then uint w else uint w - 2 ^ 64)" .
  have "unat w < 2 ^ 63 \<longleftrightarrow> uint w < 2 ^ 63"
    by (simp only: unat_eq_nat_uint nat_less_iff [OF b(1)]) simp
  with s show ?thesis by simp
qed

lemma koff_lt: "koff b k < 2 ^ 64"
  using unsigned_less [of "k - b", where 'a = nat] by (simp add: koff_def)

lemma unat_diff_koff:
  "unat (k1 - k2) = (if koff b k2 \<le> koff b k1 then koff b k1 - koff b k2
     else koff b k1 + 2 ^ 64 - koff b k2)"
proof -
  have "unat (x - y) = (if unat y \<le> unat x then unat x - unat y else unat x + 2 ^ 64 - unat y)"
    for x y :: u64
    by (simp add: unat_sub_if')
  from this [of "k1 - b" "k2 - b"] show ?thesis
    unfolding koff_def by (simp only: diff_diff_eq2 diff_add_cancel)
qed

text \<open>Within a window the comparison is the order of the offsets.\<close>

lemma DN_KEY_LT_window:
  assumes "in_window b k1" "in_window b k2"
  shows "DN_KEY_LT k1 k2 \<longleftrightarrow> koff b k1 < koff b k2"
  using assms koff_lt [of b k1] koff_lt [of b k2]
  unfolding DN_KEY_LT_def sint_u64 in_window_def unat_diff_koff [of k1 k2 b] by auto

lemma DN_KEY_LEQ_window:
  assumes "in_window b k1" "in_window b k2"
  shows "DN_KEY_LEQ k1 k2 \<longleftrightarrow> koff b k1 \<le> koff b k2"
  using assms koff_lt [of b k1] koff_lt [of b k2]
  unfolding DN_KEY_LEQ_def sint_u64 in_window_def unat_diff_koff [of k1 k2 b] by auto

lemma koff_inj: "koff b k1 = koff b k2 \<longleftrightarrow> k1 = k2"
  unfolding koff_def by (simp only: unsigned_word_eqI word_unat_eq_iff [symmetric]) simp

lemma koff_self [simp]: "koff b b = 0"
  by (simp add: koff_def)

section \<open>Arrays and multisets\<close>

lemma map_fun_upd_upt: "i < n \<Longrightarrow> map (p(i := x)) [0..<n] = (map p [0..<n])[i := x]"
  by (rule nth_equalityI) (auto simp: nth_list_update)

lemma mset_swap_upt:
  assumes "i < n" "j < n"
  shows "mset (map (p(i := p j, j := p i)) [0..<n]) = mset (map p [0..<n])"
proof -
  have "map (p(i := p j, j := p i)) [0..<n] = (map p [0..<n])[i := map p [0..<n] ! j, j := map p [0..<n] ! i]"
    using assms by (simp add: map_fun_upd_upt)
  then show ?thesis
    using assms by (simp only: mset_swap length_map length_upt diff_zero)
qed

lemma mset_upd_upt:
  "i < n \<Longrightarrow> mset (map (p(i := x)) [0..<n]) = add_mset x (mset (map p [0..<n]) - {#p i#})"
  by (simp add: map_fun_upd_upt mset_update)

section \<open>Rounding to all ones\<close>

text \<open>
  The shift-and-or cascade of \<open>heap_resize\<close> (and of \<open>dn_ht_init\<close>): it copies the top
  set bit into every lower position, so the result is the next power of two minus one.
\<close>

definition ones_below :: "u32 \<Rightarrow> u32" where
  "ones_below n =
     (let n = n OR drop_bit 1 n; n = n OR drop_bit 2 n; n = n OR drop_bit 4 n;
          n = n OR drop_bit 8 n
      in n OR drop_bit 16 n)"

definition spread :: "nat \<Rightarrow> u32 \<Rightarrow> u32 \<Rightarrow> bool" where
  "spread d n m \<longleftrightarrow> (\<forall>i. bit m i \<longleftrightarrow> (\<exists>e<d. bit n (i + e)))"

lemma spread_double:
  assumes "spread d n m"
  shows "spread (2 * d) n (m OR drop_bit d m)"
  unfolding spread_def
proof
  fix i
  have "bit (m OR drop_bit d m) i \<longleftrightarrow> bit m i \<or> bit m (i + d)"
    by (simp add: bit_or_iff bit_drop_bit_eq add.commute)
  also have "\<dots> \<longleftrightarrow> (\<exists>e<d. bit n (i + e)) \<or> (\<exists>e<d. bit n (i + (d + e)))"
    using assms by (simp add: spread_def add.assoc)
  also have "\<dots> \<longleftrightarrow> (\<exists>e<2 * d. bit n (i + e))"
  proof
    assume "\<exists>e<2 * d. bit n (i + e)"
    then obtain e where e: "e < 2 * d" "bit n (i + e)" by auto
    show "(\<exists>e<d. bit n (i + e)) \<or> (\<exists>e<d. bit n (i + (d + e)))"
    proof (cases "e < d")
      case True
      with e show ?thesis by auto
    next
      case False
      with e have "e - d < d" "bit n (i + (d + (e - d)))" by auto
      then show ?thesis by blast
    qed
  next
    assume "(\<exists>e<d. bit n (i + e)) \<or> (\<exists>e<d. bit n (i + (d + e)))"
    then show "\<exists>e<2 * d. bit n (i + e)"
    proof
      assume "\<exists>e<d. bit n (i + e)"
      then obtain e where "e < d" "bit n (i + e)" by auto
      then show ?thesis by (intro exI [of _ e]) auto
    next
      assume "\<exists>e<d. bit n (i + (d + e))"
      then obtain e where "e < d" "bit n (i + (d + e))" by auto
      then show ?thesis by (intro exI [of _ "d + e"]) auto
    qed
  qed
  finally show "bit (m OR drop_bit d m) i \<longleftrightarrow> (\<exists>e<2 * d. bit n (i + e))" .
qed

lemma bit_ones_below: "bit (ones_below n) i \<longleftrightarrow> (\<exists>j\<ge>i. bit n j)"
proof -
  have "spread 1 n n" by (simp add: spread_def)
  note s1 = spread_double [OF this, simplified]
  note s2 = spread_double [OF s1, simplified]
  note s4 = spread_double [OF s2, simplified]
  note s8 = spread_double [OF s4, simplified]
  have "spread 32 n (ones_below n)"
    using spread_double [OF s8] by (simp add: ones_below_def Let_def)
  then have "bit (ones_below n) i \<longleftrightarrow> (\<exists>e<32. bit n (i + e))"
    by (simp add: spread_def)
  also have "\<dots> \<longleftrightarrow> (\<exists>j\<ge>i. bit n j)"
  proof
    assume "\<exists>j\<ge>i. bit n j"
    then obtain j where "i \<le> j" "bit n j" by auto
    moreover from this have "j < 32" using bit_imp_le_length [of n j] by simp
    ultimately show "\<exists>e<32. bit n (i + e)"
      by (intro exI [of _ "j - i"]) auto
  qed (use le_add1 in blast)
  finally show ?thesis .
qed

lemma unat_mask32: "m < 32 \<Longrightarrow> unat (mask (Suc m) :: u32) = 2 ^ Suc m - 1"
proof -
  assume "m < 32"
  then have "unat (mask (Suc m) :: u32) = mask (Suc m)"
    by (intro bit_eqI) (auto simp: bit_unsigned_iff bit_mask_iff)
  then show ?thesis by (simp only: mask_eq_exp_minus_1)
qed

lemma ones_below_mask:
  assumes "n \<noteq> 0"
  obtains m where "m < 32" "ones_below n = mask (Suc m)" "2 ^ m \<le> unat n" "unat n < 2 ^ Suc m"
proof -
  define m where "m = Max {j. bit n j}"
  have fin: "finite {j. bit n j}"
    by (rule finite_subset [of _ "{..<32}"]) (auto dest: bit_imp_le_length)
  have ne: "{j. bit n j} \<noteq> {}"
    using assms by (auto simp: bit_eq_iff)
  have bm: "bit n m" and mx: "bit n j \<Longrightarrow> j \<le> m" for j
    using Max_in [OF fin ne] Max_ge [OF fin] by (auto simp: m_def)
  have m32: "m < 32" using bit_imp_le_length [OF bm] by simp
  have "ones_below n = mask (Suc m)"
    by (rule bit_word_eqI) (use bm mx m32 in \<open>auto simp: bit_ones_below bit_mask_iff less_Suc_eq_le intro: order_trans\<close>)
  moreover have "2 ^ m \<le> unat n"
  proof (rule ccontr)
    assume "\<not> 2 ^ m \<le> unat n"
    then have "drop_bit m (unat n) = 0" by (simp add: drop_bit_eq_div)
    then have "\<not> bit (unat n) m" by (simp add: bit_iff_odd_drop_bit)
    with bm show False by (simp add: bit_unsigned_iff)
  qed
  moreover have "unat n < 2 ^ Suc m"
  proof -
    have "take_bit (Suc m) (unat n) = unat n"
      by (rule bit_eqI) (use mx in \<open>auto simp: bit_take_bit_iff bit_unsigned_iff less_Suc_eq_le\<close>)
    then show ?thesis by (metis take_bit_nat_less_exp)
  qed
  ultimately show thesis using m32 that by blast
qed

lemma ones_below_bounds:
  assumes "n \<noteq> 0"
  shows "unat n \<le> unat (ones_below n)" "unat (ones_below n) < 2 * unat n"
    "\<exists>m. unat (ones_below n) + 1 = 2 ^ m"
proof -
  obtain m where m: "m < 32" "ones_below n = mask (Suc m)" "2 ^ m \<le> unat n" "unat n < 2 ^ Suc m"
    using ones_below_mask [OF assms] .
  have u: "unat (ones_below n) = 2 ^ Suc m - 1"
    by (simp only: m(2) unat_mask32 [OF m(1)])
  show "unat n \<le> unat (ones_below n)" "unat (ones_below n) < 2 * unat n"
    using m(3,4) by (simp_all add: u)
  show "\<exists>m. unat (ones_below n) + 1 = 2 ^ m"
    by (rule exI [of _ "Suc m"]) (simp add: u)
qed

lemma ones_below_lt_pow2:
  assumes "unat n < 2 ^ k" "k \<le> 32"
  shows "unat (ones_below n) < 2 ^ k"
proof (cases "n = 0")
  case True
  then show ?thesis by (simp add: ones_below_def)
next
  case False
  then obtain m where m: "m < 32" "ones_below n = mask (Suc m)" "2 ^ m \<le> unat n"
    using ones_below_mask by metis
  have "(2::nat) ^ m < 2 ^ k" using m(3) assms(1) by (rule order_le_less_trans)
  then have "Suc m \<le> k" by (simp add: Suc_le_eq)
  then have "(2::nat) ^ Suc m \<le> 2 ^ k" by (rule power_increasing) simp
  moreover have "unat (ones_below n) = 2 ^ Suc m - 1"
    by (simp only: m(2) unat_mask32 [OF m(1)])
  moreover have "(0::nat) < 2 ^ Suc m" by simp
  ultimately show ?thesis by linarith
qed

lemma distinct_mset_subset:
  assumes "mset xs \<subseteq># mset ys" "distinct ys"
  shows "distinct xs"
proof -
  have "count (mset xs) a \<le> 1" for a
    using mset_subset_eq_count [OF assms(1), of a] assms(2)
    by (cases "a \<in> set ys") (simp_all add: distinct_count_atmost_1 count_list_0_iff count_mset)
  then have "count (mset xs) a = (if a \<in> set xs then 1 else 0)" for a
    by (metis One_nat_def Suc_leI antisym count_greater_zero_iff count_inI in_multiset_in_set not_gr_zero set_mset_mset)
  then show ?thesis by (simp add: distinct_count_atmost_1)
qed

lemma less_two: "i < (2::nat) \<longleftrightarrow> i = 0 \<or> i = 1"
  by auto

lemma interval_two: "{0..<2::nat} = {0, 1}"
  by auto

section \<open>C integers\<close>

text \<open>Conversion to \<open>int\<close> and \<open>int64_t\<close> (with wrap-around), and C division of these.\<close>

definition s32 :: "int \<Rightarrow> int" where "s32 x = sint (word_of_int x :: u32)"

definition s64 :: "int \<Rightarrow> int" where "s64 x = sint (word_of_int x :: u64)"

definition cdiv :: "int \<Rightarrow> int \<Rightarrow> int" where
  "cdiv a b = sgn a * sgn b * (\<bar>a\<bar> div \<bar>b\<bar>)"

text \<open>\<open>div64\<close>: both operands become \<open>int64_t\<close>.\<close>

definition div64 :: "int \<Rightarrow> int \<Rightarrow> int" where
  "div64 a b = s64 (cdiv (s64 a) (s64 b))"

lemma s32_id: "- (2 ^ 31) \<le> x \<Longrightarrow> x < 2 ^ 31 \<Longrightarrow> s32 x = x"
  unfolding s32_def by (simp add: signed_take_bit_int_eq_self sint_sbintrunc')

lemma s64_id: "- (2 ^ 63) \<le> x \<Longrightarrow> x < 2 ^ 63 \<Longrightarrow> s64 x = x"
  unfolding s64_def by (simp add: signed_take_bit_int_eq_self sint_sbintrunc')

lemma cdiv_nonneg: "0 \<le> a \<Longrightarrow> 0 < b \<Longrightarrow> cdiv a b = a div b"
  by (simp add: cdiv_def sgn_if)

section \<open>Sums and counts over a finite set when one element changes\<close>

lemma sum_change:
  fixes f g :: "'a \<Rightarrow> 'b::ab_group_add"
  assumes "finite A" "a \<in> A" "\<And>x. x \<in> A \<Longrightarrow> x \<noteq> a \<Longrightarrow> g x = f x"
  shows "sum g A = sum f A + g a - f a"
proof -
  have "sum g (A - {a}) = sum f (A - {a})" using assms(3) by (intro sum.cong) auto
  then show ?thesis using assms(1,2) by (simp add: sum.remove [of A a g] sum.remove [of A a f])
qed

lemma card_change:
  assumes "finite A" "a \<in> A" "\<And>x. x \<in> A \<Longrightarrow> x \<noteq> a \<Longrightarrow> P' x = P x"
  shows "int (card {x\<in>A. P' x}) = int (card {x\<in>A. P x}) + of_bool (P' a) - of_bool (P a)"
proof -
  have c: "int (card {x\<in>A. R x}) = (\<Sum>x\<in>A. of_bool (R x))" for R
    using assms(1) by (simp add: sum.inter_filter [symmetric] of_bool_def)
  show ?thesis unfolding c by (rule sum_change [OF assms(1,2)]) (simp add: assms(3))
qed

lemma uint_of_nat32: "n < 2 ^ 32 \<Longrightarrow> uint (of_nat n :: u32) = int n"
  by (simp add: unsigned_of_nat take_bit_nat_eq_self)

lemma uint_of_int32: "0 \<le> k \<Longrightarrow> k < 2 ^ 32 \<Longrightarrow> uint (word_of_int k :: u32) = k"
  by (simp add: unsigned_of_int take_bit_int_eq_self)

section \<open>Circular lists\<close>

text \<open>
  \<open>chain nxt a xs\<close>: following the links from \<open>a\<close> visits \<open>xs\<close>. A bucket with tail
  \<open>t\<close> represents \<open>xs\<close> when the links lead from \<open>t\<close> through \<open>xs\<close> back to \<open>t\<close>.
\<close>

fun chain :: "('o \<Rightarrow> 'o) \<Rightarrow> 'o \<Rightarrow> 'o list \<Rightarrow> bool" where
  "chain nxt a [] = True"
| "chain nxt a (x # xs) = (nxt a = x \<and> chain nxt x xs)"

definition circ :: "('o \<Rightarrow> 'o) \<Rightarrow> 'o \<Rightarrow> 'o list \<Rightarrow> bool" where
  "circ nxt t xs \<longleftrightarrow> xs \<noteq> [] \<and> last xs = t \<and> distinct xs \<and> chain nxt t xs"

lemma chain_append: "chain nxt a (xs @ ys) \<longleftrightarrow> chain nxt a xs \<and> chain nxt (last (a # xs)) ys"
  by (induction xs arbitrary: a) auto

lemma chain_upd: "u \<notin> set (butlast (a # xs)) \<Longrightarrow> chain (nxt(u := v)) a xs \<longleftrightarrow> chain nxt a xs"
proof (induction xs arbitrary: a)
  case (Cons x xs)
  then show ?case by (cases xs) auto
qed simp

lemma circ_upd: "u \<notin> set xs \<Longrightarrow> circ (nxt(u := v)) t xs \<longleftrightarrow> circ nxt t xs"
proof (cases "xs \<noteq> [] \<and> last xs = t")
  case True
  assume u: "u \<notin> set xs"
  with True have "u \<noteq> t" using last_in_set [of xs] by auto
  with u True have "u \<notin> set (butlast (t # xs))" by (auto dest: in_set_butlastD)
  from chain_upd [OF this] show ?thesis by (simp only: circ_def)
qed (auto simp: circ_def)

lemma circ_rotate:
  assumes "circ nxt t (xs @ ys)" "xs \<noteq> []" "ys \<noteq> []"
  shows "circ nxt (last xs) (ys @ xs)"
  using assms by (auto simp: circ_def chain_append)

lemma last_notin_butlast: "distinct xs \<Longrightarrow> xs \<noteq> [] \<Longrightarrow> last xs \<notin> set (butlast xs)"
  by (metis append_butlast_last_id distinct_append list.set_intros(1) disjoint_iff)

text \<open>Unlinking \<open>p\<close> after \<open>pp\<close>.\<close>

lemma circ_unlink:
  assumes c: "circ nxt t (ys @ p # zs)" and pp: "pp = last (t # ys)" and ne: "ys @ zs \<noteq> []"
  shows "pp \<noteq> p" "circ (nxt(pp := nxt p)) (if p = t then pp else t) (ys @ zs)"
proof -
  have d: "distinct (ys @ p # zs)" and l: "last (ys @ p # zs) = t" and ch: "chain nxt t (ys @ p # zs)"
    using c by (auto simp: circ_def)
  have chs: "chain nxt t ys" "nxt pp = p" "chain nxt p zs"
    using ch by (auto simp: chain_append pp)
  show npp: "pp \<noteq> p"
    using d ne l pp by (cases "ys = []") (auto split: if_splits)
  show "circ (nxt(pp := nxt p)) (if p = t then pp else t) (ys @ zs)"
  proof (cases "zs = []")
    case True
    then have t: "p = t" and ys: "ys \<noteq> []" using l ne by auto
    then obtain y ys' where y: "ys = y # ys'" by (cases ys) auto
    have "nxt p = y" using chs(1) y t by simp
    moreover have "pp = last ys" using pp ys by simp
    moreover have "chain (nxt(pp := nxt p)) y ys' \<longleftrightarrow> chain nxt y ys'"
      using d last_notin_butlast [of ys] by (intro chain_upd) (simp add: y \<open>pp = last ys\<close>)
    ultimately show ?thesis using True t chs(1) d by (simp add: circ_def y)
  next
    case False
    then obtain z zs' where z: "zs = z # zs'" by (cases zs) auto
    have t: "t = last zs" "p \<noteq> t" using l d False by auto
    have "chain (nxt(pp := nxt p)) t ys"
    proof (cases "ys = []")
      case ys: False
      have "pp = last ys" "last ys \<in> set ys" "t \<in> set zs"
        using pp ys t False by auto
      then have "pp \<notin> set (butlast (t # ys))"
        using d last_notin_butlast [of ys] ys by (auto simp: disjoint_iff)
      from chain_upd [OF this] chs(1) show ?thesis by simp
    qed simp
    moreover have "chain (nxt(pp := nxt p)) z zs' \<longleftrightarrow> chain nxt z zs'"
    proof (rule chain_upd)
      show "pp \<notin> set (butlast (z # zs'))"
      proof (cases "ys = []")
        case True
        then have "pp = last zs" using pp t by simp
        then show ?thesis using d last_notin_butlast [of zs] by (simp add: z)
      next
        case ys: False
        then have "pp \<in> set ys" using pp by simp
        then show ?thesis using d by (auto simp: z dest: in_set_butlastD split: if_splits)
      qed
    qed
    ultimately show ?thesis
      using chs(3) d t pp by (simp add: circ_def chain_append z)
  qed
qed

lemma circ_link:
  assumes "circ nxt t xs" "q \<notin> set xs"
  shows "circ (nxt(q := nxt t, t := q)) t (q # xs)"
proof -
  obtain x xs' where x: "xs = x # xs'" using assms by (cases xs) (auto simp: circ_def)
  have "t \<notin> set (butlast (x # xs'))"
    using assms(1) last_notin_butlast [of xs] by (simp add: circ_def x)
  moreover have "q \<notin> set (butlast (x # xs'))"
    using assms(2) unfolding x by (blast dest: in_set_butlastD)
  ultimately have "chain (nxt(q := nxt t, t := q)) x xs' \<longleftrightarrow> chain nxt x xs'"
    by (simp add: chain_upd)
  moreover have "t \<in> set xs" using assms(1) by (auto simp: circ_def)
  then have "q \<noteq> t" using assms(2) by auto
  ultimately show ?thesis
    using assms by (simp add: circ_def x)
qed

lemma uint_of_int64: "0 \<le> k \<Longrightarrow> k < 2 ^ 64 \<Longrightarrow> uint (word_of_int k :: u64) = k"
  by (simp add: unsigned_of_int take_bit_int_eq_self)

lemma u64_of_int_less:
  "0 \<le> a \<Longrightarrow> a < 2 ^ 64 \<Longrightarrow> 0 \<le> b \<Longrightarrow> b < 2 ^ 64 \<Longrightarrow> (word_of_int a :: u64) < word_of_int b \<longleftrightarrow> a < b"
  unfolding word_less_def by (simp only: uint_of_int64)

lemma sint_of_int64: "- (2 ^ 63) \<le> k \<Longrightarrow> k < 2 ^ 63 \<Longrightarrow> sint (word_of_int k :: u64) = k"
  using s64_id [of k] by (simp only: s64_def)

end
