(* ===== verification/DnHeap.thy ===== *)
theory DnHeap
  imports Prelude
begin

text \<open>
  The binary heap of \<open>sys/netinet/ipfw/dn_heap.c\<close>: an array of (key, object) entries with
  the smallest key on top, and extraction from the middle through an index that each object
  stores at offset \<open>ofs\<close>. The array is a function from indices; the int32 index fields of
  the objects are a separate map, since several heaps may share one field (the three heaps of
  \<open>dn_sched_wf2q.c\<close> do).
\<close>

section \<open>Data\<close>

record 'o dn_heap_entry =
  he_key :: u64
  he_object :: 'o

record 'o dn_heap =
  h_size :: nat
  h_elements :: nat
  h_ofs :: int
  h_p :: "nat \<Rightarrow> 'o dn_heap_entry"

text \<open>A heap with the index fields of the objects.\<close>

type_synonym 'o hst = "'o dn_heap \<times> ('o \<Rightarrow> int)"

definition HEAP_SCAN_DEL :: nat where "HEAP_SCAN_DEL = 1"
definition HEAP_SCAN_END :: nat where "HEAP_SCAN_END = 2"

definition HEAP_FATHER :: "nat \<Rightarrow> nat" where
  "HEAP_FATHER x = (x - 1) div 2"

definition HEAP_LEFT :: "nat \<Rightarrow> nat" where
  "HEAP_LEFT x = x + x + 1"

definition HEAP_TOP :: "'o dn_heap \<Rightarrow> 'o dn_heap_entry" where
  "HEAP_TOP h = h_p h 0"

section \<open>Operations\<close>

text \<open>
  \<open>heap_resize\<close>: the new size is rounded up to all ones below its top bit. Whether
  \<open>malloc\<close> succeeds is the argument \<open>mok\<close>; \<open>None\<close> is the error return, which
  leaves the heap as it was. The old entries are copied; those past the old size are
  uninitialised memory and never read.
\<close>

definition heap_resize :: "bool \<Rightarrow> 'o dn_heap \<Rightarrow> u32 \<Rightarrow> 'o dn_heap option" where
  "heap_resize mok h new_size =
     (if unat new_size \<le> h_size h then Some h
      else if mok then Some (h\<lparr>h_size := unat (ones_below new_size)\<rparr>)
      else None)"

definition heap_init :: "bool \<Rightarrow> 'o dn_heap \<Rightarrow> u32 \<Rightarrow> int \<Rightarrow> 'o dn_heap option" where
  "heap_init mok h sz ofs =
     (case heap_resize mok h sz of
        None \<Rightarrow> None
      | Some h' \<Rightarrow> Some (h'\<lparr>h_elements := 0, h_ofs := ofs\<rparr>))"

definition SET_OFFSET :: "'o dn_heap \<Rightarrow> nat \<Rightarrow> ('o \<Rightarrow> int) \<Rightarrow> ('o \<Rightarrow> int)" where
  "SET_OFFSET h i pos = (if 0 < h_ofs h then pos(he_object (h_p h i) := int i) else pos)"

definition RESET_OFFSET :: "'o dn_heap \<Rightarrow> nat \<Rightarrow> ('o \<Rightarrow> int) \<Rightarrow> ('o \<Rightarrow> int)" where
  "RESET_OFFSET h i pos = (if 0 < h_ofs h then pos(he_object (h_p h i) := - 16) else pos)"

text \<open>The loop of \<open>heap_insert\<close>: swap with the father until it is smaller.\<close>

function bubble_up :: "'o hst \<Rightarrow> nat \<Rightarrow> 'o hst" where
  "bubble_up (h, pos) son =
     (if 0 < son then
        let father = HEAP_FATHER son in
        if DN_KEY_LT (he_key (h_p h father)) (he_key (h_p h son))
        then (h, SET_OFFSET h son pos)
        else
          let h' = h\<lparr>h_p := (h_p h)(son := h_p h father, father := h_p h son)\<rparr>
          in bubble_up (h', SET_OFFSET h' son pos) father
      else (h, SET_OFFSET h son pos))"
  by pat_completeness auto
termination
  by (relation "measure snd") (auto simp: HEAP_FATHER_def)

declare bubble_up.simps [simp del]

text \<open>
  \<open>heap_insert\<close>: \<open>Some p\<close> puts a new entry at the end and bubbles it up; \<open>None\<close>
  (\<open>p == NULL\<close>) means the entry is in place at position \<open>key1\<close>.
\<close>

definition heap_insert :: "bool \<Rightarrow> 'o hst \<Rightarrow> u64 \<Rightarrow> 'o option \<Rightarrow> 'o hst option" where
  "heap_insert mok st key1 p =
     (let (h, pos) = st in
      case p of
        None \<Rightarrow> Some (bubble_up (h, pos) (unat key1))
      | Some obj \<Rightarrow>
          let son = h_elements h in
          (case (if son = h_size h then heap_resize mok h (word_of_nat (h_elements h + 16))
                 else Some h) of
             None \<Rightarrow> None
           | Some h1 \<Rightarrow>
               let h2 = h1\<lparr>h_p := (h_p h1)(son := \<lparr>he_key = key1, he_object = obj\<rparr>),
                           h_elements := h_elements h1 + 1\<rparr>
               in Some (bubble_up (h2, pos) son)))"

text \<open>The loop of \<open>heap_extract\<close>: the hole moves down along the smaller children.\<close>

definition smaller_child :: "'o dn_heap \<Rightarrow> nat \<Rightarrow> nat \<Rightarrow> nat" where
  "smaller_child h mx father =
     (let child = HEAP_LEFT father in
      if child \<noteq> mx \<and> DN_KEY_LT (he_key (h_p h (child + 1))) (he_key (h_p h child))
      then child + 1 else child)"

function move_hole :: "nat \<Rightarrow> 'o hst \<Rightarrow> nat \<Rightarrow> 'o hst \<times> nat" where
  "move_hole mx (h, pos) father =
     (if HEAP_LEFT father \<le> mx then
        let child = smaller_child h mx father;
            h' = h\<lparr>h_p := (h_p h)(father := h_p h child)\<rparr>
        in move_hole mx (h', SET_OFFSET h' father pos) child
      else ((h, pos), father))"
  by pat_completeness auto
termination
  by (relation "measure (\<lambda>(mx, st, father). mx - father)")
     (auto simp: smaller_child_def HEAP_LEFT_def Let_def)

declare move_hole.simps [simp del]

text \<open>
  \<open>heap_extract\<close> removes the top (\<open>obj = None\<close>) or the given object. An empty heap
  is left alone; \<open>None\<close> is one of the two \<open>panic\<close>s (no index field, or an index out
  of bounds).
\<close>

definition heap_extract :: "'o hst \<Rightarrow> 'o option \<Rightarrow> 'o hst option" where
  "heap_extract st obj =
     (let (h, pos) = st in
      if h_elements h = 0 then Some st
      else
        let mx = h_elements h - 1 in
        case (case obj of
                None \<Rightarrow> Some 0
              | Some ob \<Rightarrow>
                  if h_ofs h \<le> 0 then None
                  else if pos ob < 0 \<or> int (h_elements h) \<le> pos ob then None
                  else Some (nat (pos ob))) of
          None \<Rightarrow> None
        | Some start \<Rightarrow>
            let ((h1, pos1), father) = move_hole mx (h, RESET_OFFSET h start pos) start;
                h2 = h1\<lparr>h_elements := h_elements h1 - 1\<rparr>
            in if father \<noteq> mx
               then heap_insert True (h2\<lparr>h_p := (h_p h2)(father := h_p h2 mx)\<rparr>, pos1)
                      (word_of_nat father) None
               else Some (h2, pos1))"

text \<open>
  \<open>heapify\<close> bubbles every position up in turn; \<open>heap_scan\<close> runs a callback on the
  entries, removes those it marks (the last entry fills the gap) and restores the order.
  The callback threads a state of its own.
\<close>

definition heapify :: "'o hst \<Rightarrow> 'o hst" where
  "heapify st = fold (\<lambda>i st. bubble_up st i) [0..<h_elements (fst st)] st"

function scan_loop ::
  "('o \<Rightarrow> 's \<Rightarrow> nat \<times> 's) \<Rightarrow> 'o dn_heap \<Rightarrow> nat \<Rightarrow> nat \<Rightarrow> 's \<Rightarrow> 'o dn_heap \<times> nat \<times> 's" where
  "scan_loop fn h i found s =
     (if i < h_elements h then
        let (ret, s') = fn (he_object (h_p h i)) s;
            del = (ret AND HEAP_SCAN_DEL \<noteq> 0);
            h' = (if del then
                    let n = h_elements h - 1
                    in h\<lparr>h_elements := n, h_p := (h_p h)(i := h_p h n)\<rparr>
                  else h);
            found' = (if del then found + 1 else found);
            i' = (if del then i else i + 1)
        in if ret AND HEAP_SCAN_END \<noteq> 0 then (h', found', s')
           else scan_loop fn h' i' found' s'
      else (h, found, s))"
  by pat_completeness auto
termination
  by (relation "measure (\<lambda>(fn, h, i, found, s). h_elements h - i)") (auto simp: Let_def split: if_splits)

declare scan_loop.simps [simp del]

definition heap_scan ::
  "('o \<Rightarrow> 's \<Rightarrow> nat \<times> 's) \<Rightarrow> 'o hst \<Rightarrow> 's \<Rightarrow> 'o hst \<times> nat \<times> 's" where
  "heap_scan fn st s =
     (let (h, pos) = st;
          (h', found, s') = scan_loop fn h 0 0 s
      in ((if 0 < found then heapify (h', pos) else (h', pos)), found, s'))"

text \<open>\<open>heap_free\<close> releases the array and clears the descriptor.\<close>

definition heap_free :: "'o dn_heap \<Rightarrow> 'o dn_heap" where
  "heap_free h = h\<lparr>h_size := 0, h_elements := 0, h_ofs := 0\<rparr>"

section \<open>Invariants\<close>

text \<open>
  The entries in use as a multiset, the order of the array (each entry at least its father,
  measured as an offset from a base \<open>b\<close>), and the agreement of the index fields with
  the array. Everything is stated for the first \<open>n\<close> entries, so that it can be used
  inside the loops too.
\<close>

definition heap_entries :: "'o dn_heap \<Rightarrow> 'o dn_heap_entry multiset" where
  "heap_entries h = image_mset (h_p h) (mset_set {0..<h_elements h})"

definition heap_objects :: "'o dn_heap \<Rightarrow> 'o set" where
  "heap_objects h = (\<lambda>i. he_object (h_p h i)) ` {0..<h_elements h}"

definition hkey :: "u64 \<Rightarrow> 'o dn_heap \<Rightarrow> nat \<Rightarrow> nat" where
  "hkey b h i = koff b (he_key (h_p h i))"

definition keys_in_window :: "u64 \<Rightarrow> 'o dn_heap \<Rightarrow> bool" where
  "keys_in_window b h \<longleftrightarrow> (\<forall>i<h_elements h. in_window b (he_key (h_p h i)))"

definition heap_ordered :: "u64 \<Rightarrow> 'o dn_heap \<Rightarrow> bool" where
  "heap_ordered b h \<longleftrightarrow> (\<forall>i<h_elements h. 0 < i \<longrightarrow> hkey b h (HEAP_FATHER i) \<le> hkey b h i)"

definition index_ok :: "'o hst \<Rightarrow> nat set \<Rightarrow> bool" where
  "index_ok st E \<longleftrightarrow> 0 < h_ofs (fst st) \<longrightarrow>
     (\<forall>i<h_elements (fst st). i \<notin> E \<longrightarrow> snd st (he_object (h_p (fst st) i)) = int i)"

definition objects_distinct :: "'o dn_heap \<Rightarrow> nat set \<Rightarrow> bool" where
  "objects_distinct h E \<longleftrightarrow> 0 < h_ofs h \<longrightarrow>
     inj_on (\<lambda>i. he_object (h_p h i)) ({0..<h_elements h} - E)"

definition heap_inv :: "u64 \<Rightarrow> 'o hst \<Rightarrow> bool" where
  "heap_inv b st \<longleftrightarrow> h_elements (fst st) \<le> h_size (fst st) \<and> h_size (fst st) < 2 ^ 31 \<and>
     keys_in_window b (fst st) \<and> heap_ordered b (fst st) \<and>
     objects_distinct (fst st) {} \<and> index_ok st {}"

text \<open>The order but for one position that may be smaller than its ancestors.\<close>

definition heap_ordered_up :: "u64 \<Rightarrow> 'o dn_heap \<Rightarrow> nat \<Rightarrow> bool" where
  "heap_ordered_up b h s \<longleftrightarrow>
     (\<forall>i<h_elements h. 0 < i \<longrightarrow> i \<noteq> s \<longrightarrow> hkey b h (HEAP_FATHER i) \<le> hkey b h i) \<and>
     (\<forall>i<h_elements h. 0 < i \<longrightarrow> 0 < s \<longrightarrow> HEAP_FATHER i = s \<longrightarrow>
        hkey b h (HEAP_FATHER s) \<le> hkey b h i)"

text \<open>The order but for a hole, whose entry does not count.\<close>

definition heap_ordered_hole :: "u64 \<Rightarrow> 'o dn_heap \<Rightarrow> nat \<Rightarrow> bool" where
  "heap_ordered_hole b h f \<longleftrightarrow>
     (\<forall>i<h_elements h. 0 < i \<longrightarrow> i \<noteq> f \<longrightarrow> HEAP_FATHER i \<noteq> f \<longrightarrow>
        hkey b h (HEAP_FATHER i) \<le> hkey b h i) \<and>
     (\<forall>i<h_elements h. 0 < i \<longrightarrow> 0 < f \<longrightarrow> HEAP_FATHER i = f \<longrightarrow>
        hkey b h (HEAP_FATHER f) \<le> hkey b h i)"

lemma HEAP_FATHER_less [simp]: "0 < i \<Longrightarrow> HEAP_FATHER i < i"
  by (simp add: HEAP_FATHER_def)

lemma HEAP_FATHER_neq [simp]: "0 < i \<Longrightarrow> HEAP_FATHER i \<noteq> i"
  using HEAP_FATHER_less by (metis less_irrefl)

lemma HEAP_FATHER_children:
  "0 < i \<Longrightarrow> HEAP_FATHER i = f \<longleftrightarrow> i = HEAP_LEFT f \<or> i = HEAP_LEFT f + 1"
  unfolding HEAP_FATHER_def HEAP_LEFT_def by presburger

lemma HEAP_FATHER_bound: "i < n \<Longrightarrow> HEAP_FATHER i < n"
  by (simp add: HEAP_FATHER_def)

lemma heap_objects_entries: "heap_objects h = he_object ` set_mset (heap_entries h)"
  by (simp add: heap_objects_def heap_entries_def image_image)

lemma objects_distinct_mset:
  "objects_distinct h {} \<longleftrightarrow>
     (0 < h_ofs h \<longrightarrow> distinct (map (\<lambda>i. he_object (h_p h i)) [0..<h_elements h]))"
  by (simp add: objects_distinct_def distinct_map)

lemma objects_distinct_cong:
  assumes "heap_entries h' = heap_entries h" "h_ofs h' = h_ofs h"
  shows "objects_distinct h' {} \<longleftrightarrow> objects_distinct h {}"
proof -
  have m: "mset (map (\<lambda>i. he_object (h_p k i)) [0..<h_elements k]) = image_mset he_object (heap_entries k)"
    for k :: "'a dn_heap"
    by (simp add: heap_entries_def image_mset.compositionality comp_def)
  show ?thesis
    unfolding objects_distinct_mset assms(2) using m [of h'] m [of h] assms(1)
    by (metis mset_eq_imp_distinct_iff)
qed

lemma key_LT_hkey:
  "keys_in_window b h \<Longrightarrow> i < h_elements h \<Longrightarrow> j < h_elements h \<Longrightarrow>
   DN_KEY_LT (he_key (h_p h i)) (he_key (h_p h j)) \<longleftrightarrow> hkey b h i < hkey b h j"
  by (simp add: keys_in_window_def hkey_def DN_KEY_LT_window)

section \<open>The upward loop\<close>

lemma swap_ordered_up:
  assumes up: "heap_ordered_up b h s" and s: "0 < s" "s < h_elements h"
    and le: "hkey b h s \<le> hkey b h (HEAP_FATHER s)"
    and h': "h' = h\<lparr>h_p := (h_p h)(s := h_p h (HEAP_FATHER s), HEAP_FATHER s := h_p h s)\<rparr>"
  shows "heap_ordered_up b h' (HEAP_FATHER s)"
proof -
  define f where "f = HEAP_FATHER s"
  have fs: "f < s" "f < h_elements h" using s HEAP_FATHER_less [of s] unfolding f_def by linarith+
  have k: "hkey b h' i = (if i = f then hkey b h s else if i = s then hkey b h f else hkey b h i)" for i
    using fs by (auto simp: h' hkey_def f_def)
  have A: "hkey b h (HEAP_FATHER i) \<le> hkey b h i" if "i < h_elements h" "0 < i" "i \<noteq> s" for i
    using up that by (auto simp: heap_ordered_up_def)
  have B: "hkey b h f \<le> hkey b h i" if "i < h_elements h" "0 < i" "HEAP_FATHER i = s" for i
    using up that s by (auto simp: heap_ordered_up_def f_def)
  have n: "h_elements h' = h_elements h" by (simp add: h')
  show ?thesis
    unfolding heap_ordered_up_def n f_def [symmetric]
  proof (intro conjI allI impI)
    fix i assume i: "i < h_elements h" "0 < i" "i \<noteq> f"
    then show "hkey b h' (HEAP_FATHER i) \<le> hkey b h' i"
      using A [of i] B [of i] le fs HEAP_FATHER_less [of i] HEAP_FATHER_neq [of i]
      by (auto simp: k f_def)
  next
    fix i assume i: "i < h_elements h" "0 < i" "0 < f" "HEAP_FATHER i = f"
    have gf: "HEAP_FATHER f < f" using i by simp
    have "hkey b h (HEAP_FATHER f) \<le> hkey b h f" using A [of f] fs i by auto
    moreover have "i \<noteq> s \<Longrightarrow> hkey b h f \<le> hkey b h i" using A [of i] i by auto
    moreover have "i \<noteq> f" using i HEAP_FATHER_neq [of i] by metis
    ultimately show "hkey b h' (HEAP_FATHER f) \<le> hkey b h' i"
      using gf fs by (auto simp: k)
  qed
qed

text \<open>What the swap keeps of entries, windows, distinctness and index fields.\<close>

lemma swap_frame:
  assumes s: "0 < s" "s < h_elements h"
    and h': "h' = h\<lparr>h_p := (h_p h)(s := h_p h (HEAP_FATHER s), HEAP_FATHER s := h_p h s)\<rparr>"
  shows "heap_entries h' = heap_entries h" "heap_objects h' = heap_objects h"
    "keys_in_window b h \<Longrightarrow> keys_in_window b h'"
    "objects_distinct h {} \<Longrightarrow> objects_distinct h' {}"
    "objects_distinct h {} \<Longrightarrow> index_ok (h, pos) {s} \<Longrightarrow>
       index_ok (h', SET_OFFSET h' s pos) {HEAP_FATHER s}"
proof -
  define f where "f = HEAP_FATHER s"
  have fs: "f < s" "f < h_elements h" "f \<noteq> s" using s HEAP_FATHER_less [of s] unfolding f_def by linarith+
  have n: "h_elements h' = h_elements h" "h_ofs h' = h_ofs h" by (simp_all add: h')
  have p: "h_p h' i = (if i = f then h_p h s else if i = s then h_p h f else h_p h i)" for i
    using fs by (auto simp: h' f_def)
  show "heap_entries h' = heap_entries h"
    using mset_swap_upt [of s "h_elements h" f "h_p h"] fs s
    by (simp add: heap_entries_def n h' f_def)
  show "heap_objects h' = heap_objects h"
    by (simp add: heap_objects_entries \<open>heap_entries h' = heap_entries h\<close>)
  show "keys_in_window b h \<Longrightarrow> keys_in_window b h'"
    using fs s by (auto simp: keys_in_window_def n p)
  show d': "objects_distinct h {} \<Longrightarrow> objects_distinct h' {}"
    using objects_distinct_cong [OF \<open>heap_entries h' = heap_entries h\<close> n(2)] by simp
  assume d: "objects_distinct h {}" and ix: "index_ok (h, pos) {s}"
  show "index_ok (h', SET_OFFSET h' s pos) {HEAP_FATHER s}"
  proof (cases "0 < h_ofs h")
    case True
    then have inj: "he_object (h_p h i) = he_object (h_p h j) \<longleftrightarrow> i = j"
      if "i < h_elements h" "j < h_elements h" for i j
      using d that by (auto simp: objects_distinct_def inj_on_def)
    show ?thesis
      using True ix fs s inj [of _ f] by (auto simp: index_ok_def SET_OFFSET_def n p f_def [symmetric])
  qed (simp add: index_ok_def n)
qed

text \<open>The loop restores the order and keeps entries, sizes and the other objects' fields.\<close>

definition same_shape :: "'o dn_heap \<Rightarrow> 'o dn_heap \<Rightarrow> bool" where
  "same_shape h' h \<longleftrightarrow> h_elements h' = h_elements h \<and> h_size h' = h_size h \<and> h_ofs h' = h_ofs h"

lemma bubble_up_spec:
  assumes "bubble_up (h, pos) s = (h', pos')"
    and "s < h_elements h" and "keys_in_window b h" and "heap_ordered_up b h s"
    and "objects_distinct h {}" and "index_ok (h, pos) {s}"
  shows "same_shape h' h \<and> heap_entries h' = heap_entries h \<and> heap_objects h' = heap_objects h \<and>
    keys_in_window b h' \<and> heap_ordered b h' \<and> objects_distinct h' {} \<and>
    index_ok (h', pos') {} \<and> (\<forall>x. x \<notin> heap_objects h \<longrightarrow> pos' x = pos x)"
  using assms
proof (induction "(h, pos)" s arbitrary: h pos rule: bubble_up.induct)
  case (1 h pos s)
  note loop = "1.prems"(1) and s = "1.prems"(2) and win = "1.prems"(3) and up = "1.prems"(4)
    and dist = "1.prems"(5) and ix = "1.prems"(6)
  define f where "f = HEAP_FATHER s"
  define g where "g = h\<lparr>h_p := (h_p h)(s := h_p h f, f := h_p h s)\<rparr>"
  have at_s: "he_object (h_p h s) \<in> heap_objects h"
    using s by (auto simp: heap_objects_def)
  show ?case
  proof (cases "0 < s \<and> \<not> DN_KEY_LT (he_key (h_p h f)) (he_key (h_p h s))")
    case True
    then have s0: "0 < s" and nlt: "\<not> DN_KEY_LT (he_key (h_p h f)) (he_key (h_p h s))"
      by auto
    have fn: "f < h_elements h" using s by (simp add: f_def HEAP_FATHER_bound)
    have le: "hkey b h s \<le> hkey b h f"
      using nlt key_LT_hkey [OF win fn s] by simp
    note fr = swap_frame [OF s0 s, folded f_def, OF g_def]
    have upg: "heap_ordered_up b g f"
      using swap_ordered_up [OF up s0 s, folded f_def, OF le g_def] .
    have step: "bubble_up (g, SET_OFFSET g s pos) f = (h', pos')"
      using loop s0 nlt by (subst (asm) bubble_up.simps) (simp add: Let_def f_def g_def)
    have gn: "h_elements g = h_elements h" "h_size g = h_size h" "h_ofs g = h_ofs h"
      by (simp_all add: g_def)
    have ih: "same_shape h' g \<and> heap_entries h' = heap_entries g \<and> heap_objects h' = heap_objects g \<and>
      keys_in_window b h' \<and> heap_ordered b h' \<and> objects_distinct h' {} \<and>
      index_ok (h', pos') {} \<and> (\<forall>x. x \<notin> heap_objects g \<longrightarrow> pos' x = SET_OFFSET g s pos x)"
      using "1.hyps" [OF s0 f_def _ g_def] nlt step fn fr(3) [OF win] upg fr(4) [OF dist]
        fr(5) [OF dist ix] by (simp add: gn)
    have "he_object (h_p g s) \<in> heap_objects h"
      using s by (metis atLeast0LessThan fr(2) gn(1) heap_objects_def imageI lessThan_iff)
    then have "SET_OFFSET g s pos x = pos x" if "x \<notin> heap_objects h" for x
      using that by (auto simp: SET_OFFSET_def)
    with ih show ?thesis
      by (simp add: fr same_shape_def gn)
  next
    case False
    have eq: "h' = h" "pos' = SET_OFFSET h s pos"
      using loop False by (subst (asm) bubble_up.simps, auto simp: Let_def f_def split: if_splits)+
    have f_s: "hkey b h f < hkey b h s" if "0 < s"
      using False that key_LT_hkey [OF win _ s, of f] s by (simp add: f_def HEAP_FATHER_bound)
    have "heap_ordered b h"
      unfolding heap_ordered_def
    proof (intro allI impI)
      fix i assume "i < h_elements h" "0 < i"
      then show "hkey b h (HEAP_FATHER i) \<le> hkey b h i"
        using up f_s by (cases "i = s") (auto simp: heap_ordered_up_def f_def)
    qed
    moreover have "index_ok (h, SET_OFFSET h s pos) {}"
      using ix dist s by (auto simp: index_ok_def SET_OFFSET_def objects_distinct_def inj_on_def)
    ultimately show ?thesis
      using win dist at_s by (auto simp: eq same_shape_def SET_OFFSET_def)
  qed
qed

section \<open>Insertion\<close>

lemma heap_resize_spec:
  assumes "heap_resize mok h n = Some h'" "h_size h < 2 ^ 31" "unat n < 2 ^ 31"
  shows "h_p h' = h_p h" "h_elements h' = h_elements h" "h_ofs h' = h_ofs h"
    "h_size h \<le> h_size h'" "unat n \<le> h_size h'" "h_size h' < 2 ^ 31"
proof -
  show "h_p h' = h_p h" "h_elements h' = h_elements h" "h_ofs h' = h_ofs h"
    using assms(1) by (auto simp: heap_resize_def split: if_splits)
  have "h' = h \<or> h' = h\<lparr>h_size := unat (ones_below n)\<rparr> \<and> h_size h < unat n"
    using assms(1) by (auto simp: heap_resize_def split: if_splits)
  moreover have "h' = h \<Longrightarrow> unat n \<le> h_size h"
    using assms(1) by (auto simp: heap_resize_def split: if_splits dest: arg_cong [of _ _ h_size])
      (metis dn_heap.select_convs(1) dn_heap.surjective dn_heap.update_convs(1) le_cases ones_below_bounds(1) unat_0 zero_le)
  moreover have "unat n \<le> unat (ones_below n)"
    using ones_below_bounds(1) [of n] by (cases "n = 0") auto
  ultimately show "h_size h \<le> h_size h'" "unat n \<le> h_size h'" "h_size h' < 2 ^ 31"
    using assms(2,3) ones_below_lt_pow2 [of n 31] by auto
qed

lemma heap_entries_snoc:
  "heap_entries (h\<lparr>h_p := (h_p h)(h_elements h := e), h_elements := h_elements h + 1\<rparr>)
     = add_mset e (heap_entries h)"
proof -
  have "image_mset ((h_p h)(h_elements h := e)) (mset_set {0..<h_elements h})
      = image_mset (h_p h) (mset_set {0..<h_elements h})"
    by (rule image_mset_cong) auto
  then show ?thesis
    by (simp add: heap_entries_def atLeast0_lessThan_Suc)
qed

lemma heap_insert_grows:
  assumes sz: "h_elements h \<le> h_size h" "h_size h < 2 ^ 31" and room: "h_elements h < 2 ^ 31 - 16"
    and ins: "heap_insert mok (h, pos) k (Some obj) = Some (h', pos')"
  shows "\<exists>h1. h_p h1 = h_p h \<and> h_elements h1 = h_elements h \<and> h_ofs h1 = h_ofs h \<and> h_elements h < h_size h1 \<and>
    h_size h1 < 2 ^ 31 \<and> bubble_up (h1\<lparr>h_p := (h_p h1)(h_elements h := \<lparr>he_key = k, he_object = obj\<rparr>),
      h_elements := h_elements h1 + 1\<rparr>, pos) (h_elements h) = (h', pos')"
proof -
  define n where "n = h_elements h"
  obtain h1 where h1: "(if n = h_size h then heap_resize mok h (word_of_nat (n + 16)) else Some h) = Some h1"
    and bu: "bubble_up (h1\<lparr>h_p := (h_p h1)(n := \<lparr>he_key = k, he_object = obj\<rparr>),
                           h_elements := h_elements h1 + 1\<rparr>, pos) n = (h', pos')"
    using ins by (auto simp: heap_insert_def n_def Let_def split: option.splits if_splits)
  have un: "unat (word_of_nat (n + 16) :: u32) = n + 16"
    using room unfolding n_def by (simp only: unat_of_nat) simp
  consider "n = h_size h" "heap_resize mok h (word_of_nat (n + 16)) = Some h1" | "n \<noteq> h_size h" "h1 = h"
    using h1 by (auto split: if_splits)
  then have "h_p h1 = h_p h \<and> h_elements h1 = n \<and> h_ofs h1 = h_ofs h \<and> n < h_size h1 \<and> h_size h1 < 2 ^ 31"
  proof cases
    case 1
    have "n + 16 < 2 ^ 31" using room by (simp add: n_def)
    then show ?thesis
      using heap_resize_spec [OF 1(2) sz(2), unfolded un] by (simp add: n_def)
  next
    case 2
    with sz show ?thesis by (simp add: n_def)
  qed
  with bu show ?thesis unfolding n_def by blast
qed

lemma heap_insert_spec:
  assumes inv: "heap_inv b (h, pos)" and new: "0 < h_ofs h \<Longrightarrow> obj \<notin> heap_objects h"
    and win: "in_window b k" and room: "h_elements h < 2 ^ 31 - 16"
    and ins: "heap_insert mok (h, pos) k (Some obj) = Some (h', pos')"
  shows "heap_inv b (h', pos')"
    "heap_entries h' = add_mset \<lparr>he_key = k, he_object = obj\<rparr> (heap_entries h)"
    "h_elements h' = h_elements h + 1" "h_ofs h' = h_ofs h"
    "\<And>x. x \<noteq> obj \<Longrightarrow> x \<notin> heap_objects h \<Longrightarrow> pos' x = pos x"
proof -
  define n where "n = h_elements h"
  have sz: "h_elements h \<le> h_size h" "h_size h < 2 ^ 31" using inv by (auto simp: heap_inv_def)
  obtain h1 where s1: "h_p h1 = h_p h" "h_elements h1 = n" "h_ofs h1 = h_ofs h" "n < h_size h1" "h_size h1 < 2 ^ 31"
    and bu: "bubble_up (h1\<lparr>h_p := (h_p h1)(n := \<lparr>he_key = k, he_object = obj\<rparr>),
                           h_elements := h_elements h1 + 1\<rparr>, pos) n = (h', pos')"
    using heap_insert_grows [OF sz room ins] unfolding n_def by blast
  define e where "e = \<lparr>he_key = k, he_object = obj\<rparr>"
  define g where "g = h1\<lparr>h_p := (h_p h1)(n := e), h_elements := h_elements h1 + 1\<rparr>"
  have g: "h_p g = (h_p h)(n := e)" "h_elements g = n + 1" "h_ofs g = h_ofs h" "h_size g = h_size h1"
    by (simp_all add: g_def s1)
  have "heap_entries g = heap_entries (h\<lparr>h_p := (h_p h)(h_elements h := e), h_elements := h_elements h + 1\<rparr>)"
    by (simp add: heap_entries_def g n_def)
  then have ent: "heap_entries g = add_mset e (heap_entries h)"
    by (simp only: heap_entries_snoc)
  have obs: "heap_objects g = insert obj (heap_objects h)"
    by (simp add: heap_objects_entries ent e_def)
  have w: "keys_in_window b g"
    using inv win by (auto simp: heap_inv_def keys_in_window_def g e_def n_def less_Suc_eq)
  have hk: "i < n \<Longrightarrow> hkey b g i = hkey b h i" for i
    by (simp add: hkey_def g)
  have up: "heap_ordered_up b g n"
    unfolding heap_ordered_up_def g(2)
  proof (intro conjI allI impI)
    fix i assume i: "i < n + 1" "0 < i" "i \<noteq> n"
    then have "i < n" by simp
    then show "hkey b g (HEAP_FATHER i) \<le> hkey b g i"
      using inv i hk by (simp add: heap_inv_def heap_ordered_def HEAP_FATHER_bound n_def)
  next
    fix i assume "i < n + 1" "0 < i" "HEAP_FATHER i = n"
    then show "hkey b g (HEAP_FATHER n) \<le> hkey b g i"
      using HEAP_FATHER_less [of i] by linarith
  qed
  have d: "objects_distinct g {}"
    using inv new by (auto simp: heap_inv_def objects_distinct_def inj_on_def g e_def heap_objects_def n_def less_Suc_eq)
  have ix: "index_ok (g, pos) {n}"
    using inv by (auto simp: heap_inv_def index_ok_def g e_def n_def less_Suc_eq)
  have spec: "same_shape h' g" "heap_entries h' = heap_entries g" "keys_in_window b h'"
    "heap_ordered b h'" "objects_distinct h' {}" "index_ok (h', pos') {}"
    "\<And>x. x \<notin> heap_objects g \<Longrightarrow> pos' x = pos x"
    using bubble_up_spec [OF bu [folded e_def, folded g_def] _ w up d ix] by (auto simp: g(2))
  show "heap_inv b (h', pos')"
    using spec s1 by (simp add: heap_inv_def same_shape_def g)
  show "heap_entries h' = add_mset \<lparr>he_key = k, he_object = obj\<rparr> (heap_entries h)"
    by (simp add: spec ent e_def)
  show "h_elements h' = h_elements h + 1" "h_ofs h' = h_ofs h"
    using spec(1) by (simp_all add: same_shape_def g n_def)
  show "x \<noteq> obj \<Longrightarrow> x \<notin> heap_objects h \<Longrightarrow> pos' x = pos x" for x
    using spec(7) [of x] by (simp add: obs)
qed

text \<open>Only a failing allocation makes the insertion fail, and only when the array is full.\<close>

lemma heap_insert_None_iff:
  "heap_insert mok (h, pos) k (Some obj) = None \<longleftrightarrow>
     h_elements h = h_size h \<and> heap_resize mok h (word_of_nat (h_elements h + 16)) = None"
  by (auto simp: heap_insert_def Let_def split: option.splits)

lemma heap_insert_ok: "heap_insert True (h, pos) k (Some obj) \<noteq> None"
  by (simp add: heap_insert_None_iff heap_resize_def)

text \<open>With room in the array, nothing is allocated and the insertion succeeds.\<close>

lemma bubble_up_size: "bubble_up (h, pos) n = (h', pos') \<Longrightarrow> h_size h' = h_size h"
proof (induction "(h, pos)" n arbitrary: h pos rule: bubble_up.induct)
  case (1 h pos son)
  then show ?case by (subst (asm) (2) bubble_up.simps) (auto simp: Let_def split: if_splits)
qed

lemma heap_insert_room:
  assumes "h_elements h < h_size h"
  shows "\<exists>h' pos'. heap_insert mok (h, pos) k (Some obj) = Some (h', pos') \<and> h_size h' = h_size h"
proof -
  define g where "g = h\<lparr>h_p := (h_p h)(h_elements h := \<lparr>he_key = k, he_object = obj\<rparr>), h_elements := h_elements h + 1\<rparr>"
  obtain h' pos' where b: "bubble_up (g, pos) (h_elements h) = (h', pos')" by fastforce
  have "heap_insert mok (h, pos) k (Some obj) = Some (h', pos')"
    using assms b by (simp add: heap_insert_def Let_def g_def)
  moreover have "h_size h' = h_size h" using bubble_up_size [OF b] by (simp add: g_def)
  ultimately show ?thesis by blast
qed

section \<open>Extraction\<close>

text \<open>The entries but for position \<open>f\<close>.\<close>

definition entries_but :: "nat \<Rightarrow> 'o dn_heap \<Rightarrow> 'o dn_heap_entry multiset" where
  "entries_but f h = image_mset (h_p h) (mset_set ({0..<h_elements h} - {f}))"

lemma heap_entries_but:
  "f < h_elements h \<Longrightarrow> heap_entries h = add_mset (h_p h f) (entries_but f h)"
  by (simp add: heap_entries_def entries_but_def mset_set.remove [of _ f])

lemma smaller_child_pos:
  assumes "HEAP_LEFT f \<le> mx" and c: "c = smaller_child h mx f"
  shows "c \<le> mx" "0 < c" "HEAP_FATHER c = f" "f < c"
    "c = HEAP_LEFT f \<or> c = HEAP_LEFT f + 1 \<and> HEAP_LEFT f \<noteq> mx"
proof -
  show "c = HEAP_LEFT f \<or> c = HEAP_LEFT f + 1 \<and> HEAP_LEFT f \<noteq> mx"
    by (auto simp: c smaller_child_def Let_def)
  then show "c \<le> mx" "0 < c" "HEAP_FATHER c = f" "f < c"
    using assms(1) by (auto simp: HEAP_LEFT_def HEAP_FATHER_def)
qed

lemma smaller_child_spec:
  assumes win: "keys_in_window b h" and mx: "mx = h_elements h - 1" "0 < h_elements h"
    and left: "HEAP_LEFT f \<le> mx" and c: "c = smaller_child h mx f"
    and i: "i < h_elements h" "0 < i" "HEAP_FATHER i = f"
  shows "hkey b h c \<le> hkey b h i"
proof -
  note cases = smaller_child_pos(5) [OF left c]
  have ic: "i = HEAP_LEFT f \<or> i = HEAP_LEFT f + 1"
    using HEAP_FATHER_children i by metis
  have LT: "DN_KEY_LT (he_key (h_p h (HEAP_LEFT f + 1))) (he_key (h_p h (HEAP_LEFT f))) \<longleftrightarrow>
      hkey b h (HEAP_LEFT f + 1) < hkey b h (HEAP_LEFT f)" if "HEAP_LEFT f \<noteq> mx"
    using key_LT_hkey [OF win] left mx that by simp
  show ?thesis
  proof (cases "HEAP_LEFT f = mx")
    case True
    then have "i = HEAP_LEFT f" "c = HEAP_LEFT f" using ic i(1) mx cases by auto
    then show ?thesis by simp
  next
    case False
    then show ?thesis
      using LT [OF False] ic by (auto simp: c smaller_child_def Let_def)
  qed
qed

text \<open>One step of the hole: what holds whatever the keys are, and the order.\<close>

lemma hole_step_shape:
  assumes mx: "mx = h_elements h - 1" "0 < h_elements h" and left: "HEAP_LEFT f \<le> mx"
    and c: "c = smaller_child h mx f" and h': "h' = h\<lparr>h_p := (h_p h)(f := h_p h c)\<rparr>"
  shows "entries_but c h' = entries_but f h"
    "objects_distinct h {f} \<Longrightarrow> objects_distinct h' {c}"
    "objects_distinct h {f} \<Longrightarrow> index_ok (h, pos) {f} \<Longrightarrow> index_ok (h', SET_OFFSET h' f pos) {c}"
    "he_object (h_p h' f) \<in> he_object ` set_mset (entries_but f h)"
proof -
  note sc = smaller_child_pos [OF left c]
  define n where "n = h_elements h"
  have n': "h_elements h' = n" "h_ofs h' = h_ofs h" by (simp_all add: h' n_def)
  have cn: "c < n" "f < n" "c \<noteq> f" using sc(1,4) mx by (auto simp: n_def)
  have p: "h_p h' i = (if i = f then h_p h c else h_p h i)" for i by (simp add: h')
  have S: "{0..<n} - {f} = insert c ({0..<n} - {f, c})" "{0..<n} - {c} = insert f ({0..<n} - {f, c})"
    using cn by auto
  have "image_mset (h_p h') (mset_set ({0..<n} - {f, c})) = image_mset (h_p h) (mset_set ({0..<n} - {f, c}))"
    by (rule image_mset_cong) (simp add: p)
  then show e: "entries_but c h' = entries_but f h"
    unfolding entries_but_def n' n_def [symmetric] S by (simp add: p)
  show "he_object (h_p h' f) \<in> he_object ` set_mset (entries_but f h)"
    using cn by (auto simp: entries_but_def p n_def)
  show "objects_distinct h {f} \<Longrightarrow> objects_distinct h' {c}"
    unfolding objects_distinct_def n' n_def [symmetric]
  proof
    assume d: "0 < h_ofs h \<longrightarrow> inj_on (\<lambda>i. he_object (h_p h i)) ({0..<n} - {f})" and o: "0 < h_ofs h"
    define r where "r i = (if i = f then c else i)" for i
    show "inj_on (\<lambda>i. he_object (h_p h' i)) ({0..<n} - {c})"
    proof (rule inj_onI)
      fix i j assume ij: "i \<in> {0..<n} - {c}" "j \<in> {0..<n} - {c}"
        and eq: "he_object (h_p h' i) = he_object (h_p h' j)"
      have "r i = r j"
        using eq ij cn by (intro inj_onD [OF d [rule_format, OF o]]) (auto simp: r_def p)
      with ij show "i = j" by (auto simp: r_def split: if_splits)
    qed
  qed
  assume d: "objects_distinct h {f}" and ix: "index_ok (h, pos) {f}"
  have inj: "he_object (h_p h i) = he_object (h_p h c) \<longleftrightarrow> i = c" if "0 < h_ofs h" "i < n" "i \<noteq> f" for i
  proof -
    have "inj_on (\<lambda>i. he_object (h_p h i)) ({0..<n} - {f})"
      using d that(1) by (simp add: objects_distinct_def n_def)
    from inj_on_eq_iff [OF this, of i c] show ?thesis using that cn by simp
  qed
  show "index_ok (h', SET_OFFSET h' f pos) {c}"
    using ix inj cn by (auto simp: index_ok_def SET_OFFSET_def n' p n_def)
qed

lemma hole_step:
  assumes hole: "heap_ordered_hole b h f" and win: "keys_in_window b h"
    and mx: "mx = h_elements h - 1" "0 < h_elements h" and left: "HEAP_LEFT f \<le> mx"
    and c: "c = smaller_child h mx f" and h': "h' = h\<lparr>h_p := (h_p h)(f := h_p h c)\<rparr>"
  shows "heap_ordered_hole b h' c" "keys_in_window b h'"
proof -
  note sc = smaller_child_pos [OF left c]
  define n where "n = h_elements h"
  have n': "h_elements h' = n" "h_ofs h' = h_ofs h" by (simp_all add: h' n_def)
  have cn: "c < n" "f < n" "c \<noteq> f" using sc(1,4) mx by (auto simp: n_def)
  have p: "h_p h' i = (if i = f then h_p h c else h_p h i)" for i by (simp add: h')
  have k: "hkey b h' i = (if i = f then hkey b h c else hkey b h i)" for i by (simp add: hkey_def p)
  have A: "hkey b h (HEAP_FATHER i) \<le> hkey b h i"
    if "i < n" "0 < i" "i \<noteq> f" "HEAP_FATHER i \<noteq> f" for i
    using hole that by (auto simp: heap_ordered_hole_def n_def)
  have B: "hkey b h (HEAP_FATHER f) \<le> hkey b h i" if "i < n" "0 < i" "0 < f" "HEAP_FATHER i = f" for i
    using hole that by (auto simp: heap_ordered_hole_def n_def)
  show "heap_ordered_hole b h' c"
    unfolding heap_ordered_hole_def n'
  proof (intro conjI allI impI)
    fix i assume i: "i < n" "0 < i" "i \<noteq> c" "HEAP_FATHER i \<noteq> c"
    consider "i = f" | "i \<noteq> f" "HEAP_FATHER i = f" | "i \<noteq> f" "HEAP_FATHER i \<noteq> f" by blast
    then show "hkey b h' (HEAP_FATHER i) \<le> hkey b h' i"
    proof cases
      case 1
      then show ?thesis using B [of c] sc(2,3) cn i HEAP_FATHER_neq [of i] by (simp add: k)
    next
      case 2
      then show ?thesis using smaller_child_spec [OF win mx left c, of i] i by (simp add: k n_def)
    next
      case 3
      then show ?thesis using A [of i] i by (simp add: k)
    qed
  next
    fix i assume i: "i < n" "0 < i" "0 < c" "HEAP_FATHER i = c"
    then have "c < i" using HEAP_FATHER_less [of i] by simp
    then have "i \<noteq> f" "HEAP_FATHER i \<noteq> f" using sc(4) i cn by auto
    then have "hkey b h c \<le> hkey b h i" using A [of i] i by simp
    then show "hkey b h' (HEAP_FATHER c) \<le> hkey b h' i"
      using \<open>i \<noteq> f\<close> sc(3) by (simp add: k)
  qed
  show "keys_in_window b h'"
    using win cn by (auto simp: keys_in_window_def n' p n_def)
qed

lemma move_hole_spec:
  assumes "move_hole mx (h, pos) f = ((h', pos'), f')" "mx = h_elements h - 1" "f < h_elements h"
    "heap_ordered_hole b h f" "keys_in_window b h" "objects_distinct h {f}" "index_ok (h, pos) {f}"
  shows "same_shape h' h \<and> f' < h_elements h \<and> mx < HEAP_LEFT f' \<and> heap_ordered_hole b h' f' \<and>
    keys_in_window b h' \<and> entries_but f' h' = entries_but f h \<and> objects_distinct h' {f'} \<and>
    index_ok (h', pos') {f'} \<and>
    (\<forall>x. x \<notin> he_object ` set_mset (entries_but f h) \<longrightarrow> pos' x = pos x)"
  using assms
proof (induction mx "(h, pos)" f arbitrary: h pos rule: move_hole.induct)
  case (1 mx h pos f)
  show ?case
  proof (cases "HEAP_LEFT f \<le> mx")
    case True
    define c where "c = smaller_child h mx f"
    define g where "g = h\<lparr>h_p := (h_p h)(f := h_p h c)\<rparr>"
    have n0: "0 < h_elements h" using "1.prems"(3) by simp
    note st = hole_step [OF "1.prems"(4,5,2) n0 True c_def g_def] hole_step_shape [OF "1.prems"(2) n0 True c_def g_def]
    have gn: "h_elements g = h_elements h" "h_size g = h_size h" "h_ofs g = h_ofs h"
      by (simp_all add: g_def)
    have cn: "c < h_elements h"
      using smaller_child_pos(1) [OF True c_def] "1.prems"(2) n0 by linarith
    have step: "move_hole mx (g, SET_OFFSET g f pos) c = ((h', pos'), f')"
      using "1.prems"(1) True by (subst (asm) move_hole.simps) (simp add: Let_def c_def g_def)
    have ih: "same_shape h' g \<and> f' < h_elements g \<and> mx < HEAP_LEFT f' \<and> heap_ordered_hole b h' f' \<and>
      keys_in_window b h' \<and> entries_but f' h' = entries_but c g \<and> objects_distinct h' {f'} \<and>
      index_ok (h', pos') {f'} \<and>
      (\<forall>x. x \<notin> he_object ` set_mset (entries_but c g) \<longrightarrow> pos' x = SET_OFFSET g f pos x)"
      using "1.hyps" [OF True c_def g_def] step st "1.prems"(2,6,7) cn by (simp add: gn)
    have "SET_OFFSET g f pos x = pos x" if "x \<notin> he_object ` set_mset (entries_but f h)" for x
      using st(6) that by (auto simp: SET_OFFSET_def)
    with ih show ?thesis
      by (simp add: same_shape_def gn st)
  next
    case False
    then have "h' = h" "pos' = pos" "f' = f"
      using "1.prems"(1) by (subst (asm) move_hole.simps, simp)+
    with "1.prems" False show ?thesis by (auto simp: same_shape_def)
  qed
qed

section \<open>Extraction, whole\<close>

lemma heap_entries_cut:
  assumes "h_elements h = Suc mx" "f \<le> mx" "f \<noteq> mx"
  shows "heap_entries (h\<lparr>h_elements := mx, h_p := (h_p h)(f := h_p h mx)\<rparr>) = entries_but f h"
proof -
  have "image_mset ((h_p h)(f := h_p h mx)) (mset_set ({0..<mx} - {f}))
      = image_mset (h_p h) (mset_set ({0..<mx} - {f}))"
    by (rule image_mset_cong) auto
  moreover have "{0..<Suc mx} - {f} = insert mx ({0..<mx} - {f})"
    using assms by auto
  moreover have "mset_set {0..<mx} = add_mset f (mset_set ({0..<mx} - {f}))"
    using assms by (simp add: mset_set.remove)
  ultimately show ?thesis
    using assms by (simp add: heap_entries_def entries_but_def)
qed

lemma heap_entries_cut_last:
  "h_elements h = Suc mx \<Longrightarrow> heap_entries (h\<lparr>h_elements := mx\<rparr>) = entries_but mx h"
proof -
  assume n: "h_elements h = Suc mx"
  have "{0..<Suc mx} - {mx} = {0..<mx}" by auto
  with n show ?thesis by (simp add: heap_entries_def entries_but_def)
qed

text \<open>
  The core of the extraction at a valid position \<open>start\<close>: exactly that entry goes, the
  invariant holds again, and only index fields of objects in the heap change.
\<close>

definition extract_at :: "'o hst \<Rightarrow> nat \<Rightarrow> 'o hst option" where
  "extract_at st start =
     (let (h, pos) = st; mx = h_elements h - 1;
          ((h1, pos1), father) = move_hole mx (h, RESET_OFFSET h start pos) start;
          h2 = h1\<lparr>h_elements := h_elements h1 - 1\<rparr>
      in if father \<noteq> mx
         then heap_insert True (h2\<lparr>h_p := (h_p h2)(father := h_p h2 mx)\<rparr>, pos1)
                (word_of_nat father) None
         else Some (h2, pos1))"

lemma heap_extract_top: "0 < h_elements h \<Longrightarrow> heap_extract (h, pos) None = extract_at (h, pos) 0"
  by (simp add: heap_extract_def extract_at_def Let_def)

lemma heap_extract_obj:
  "0 < h_elements h \<Longrightarrow> 0 < h_ofs h \<Longrightarrow> pos ob = int i \<Longrightarrow> i < h_elements h \<Longrightarrow>
   heap_extract (h, pos) (Some ob) = extract_at (h, pos) i"
  by (simp add: heap_extract_def extract_at_def Let_def)

lemma reset_index_ok:
  assumes ob: "objects_distinct h {}" "index_ok (h, pos) {}" and st: "start < h_elements h"
  shows "objects_distinct h {start}" "index_ok (h, RESET_OFFSET h start pos) {start}"
proof -
  show "objects_distinct h {start}"
    using ob by (auto simp: objects_distinct_def intro: inj_on_subset)
  show "index_ok (h, RESET_OFFSET h start pos) {start}"
    unfolding index_ok_def fst_conv snd_conv
  proof (intro impI allI)
    fix i assume i: "0 < h_ofs h" "i < h_elements h" "i \<notin> {start}"
    have "inj_on (\<lambda>i. he_object (h_p h i)) {0..<h_elements h}"
      using ob(1) i by (simp add: objects_distinct_def)
    from inj_on_eq_iff [OF this, of i start]
    have "he_object (h_p h i) \<noteq> he_object (h_p h start)" using i st by simp
    then show "RESET_OFFSET h start pos (he_object (h_p h i)) = int i"
      using ob(2) i by (simp add: RESET_OFFSET_def index_ok_def)
  qed
qed

lemma hole_start:
  assumes inv: "heap_inv b (h, pos)" and st: "start < h_elements h"
  shows "heap_ordered_hole b h start" "keys_in_window b h" "objects_distinct h {start}"
    "index_ok (h, RESET_OFFSET h start pos) {start}"
proof -
  have A: "hkey b h (HEAP_FATHER i) \<le> hkey b h i" if "i < h_elements h" "0 < i" for i
    using inv that by (simp add: heap_inv_def heap_ordered_def)
  have "hkey b h (HEAP_FATHER start) \<le> hkey b h i"
    if "i < h_elements h" "0 < i" "0 < start" "HEAP_FATHER i = start" for i
    using A [of i] A [of start] that st by auto
  with A show "heap_ordered_hole b h start" by (auto simp: heap_ordered_hole_def)
  show "keys_in_window b h" using inv by (simp add: heap_inv_def)
  show "objects_distinct h {start}" "index_ok (h, RESET_OFFSET h start pos) {start}"
    using reset_index_ok [of h pos, OF _ _ st] inv by (auto simp: heap_inv_def)
qed

text \<open>A hole at a leaf is closed by dropping the last position or moving its entry there.\<close>

definition hole_at_leaf :: "u64 \<Rightarrow> 'o hst \<Rightarrow> nat \<Rightarrow> nat \<Rightarrow> bool" where
  "hole_at_leaf b st mx f \<longleftrightarrow> h_elements (fst st) = Suc mx \<and> f \<le> mx \<and> mx < HEAP_LEFT f \<and>
     mx \<le> h_size (fst st) \<and> h_size (fst st) < 2 ^ 31 \<and> heap_ordered_hole b (fst st) f \<and>
     keys_in_window b (fst st) \<and> objects_distinct (fst st) {f} \<and> index_ok st {f}"

lemma fill_last:
  assumes "hole_at_leaf b (h, pos) mx mx"
  shows "heap_inv b (h\<lparr>h_elements := mx\<rparr>, pos)"
proof -
  have n: "h_elements h = Suc mx" and leaf: "mx < HEAP_LEFT mx" and o: "heap_ordered_hole b h mx"
    and w: "keys_in_window b h" and d: "objects_distinct h {mx}" and ix: "index_ok (h, pos) {mx}"
    and sz: "mx \<le> h_size h" "h_size h < 2 ^ 31"
    using assms by (auto simp: hole_at_leaf_def)
  have "HEAP_FATHER i \<noteq> mx" if "i < Suc mx" "0 < i" for i
    using leaf that HEAP_FATHER_children [of i mx] by auto
  then have "heap_ordered b (h\<lparr>h_elements := mx\<rparr>)"
    using o by (auto simp: heap_ordered_def heap_ordered_hole_def hkey_def n)
  moreover have "objects_distinct (h\<lparr>h_elements := mx\<rparr>) {}"
    using d by (auto simp: objects_distinct_def n intro: inj_on_subset)
  ultimately show ?thesis
    using w ix sz by (simp add: heap_inv_def keys_in_window_def index_ok_def n)
qed

lemma fill_objects:
  assumes n: "h_elements h = Suc mx" and fm: "f < mx" and d: "objects_distinct h {f}"
    and ix: "index_ok (h, pos) {f}" and g: "g = h\<lparr>h_elements := mx, h_p := (h_p h)(f := h_p h mx)\<rparr>"
  shows "objects_distinct g {}" "index_ok (g, pos) {f}"
proof -
  show "index_ok (g, pos) {f}" using ix fm by (auto simp: index_ok_def g n)
  show "objects_distinct g {}"
    unfolding objects_distinct_def
  proof
    assume "0 < h_ofs g"
    then have inj: "inj_on (\<lambda>i. he_object (h_p h i)) ({0..<Suc mx} - {f})"
      using d by (simp add: objects_distinct_def n g)
    show "inj_on (\<lambda>i. he_object (h_p g i)) ({0..<h_elements g} - {})"
    proof (rule inj_onI)
      fix i j assume ij: "i \<in> {0..<h_elements g} - {}" "j \<in> {0..<h_elements g} - {}"
        and eq: "he_object (h_p g i) = he_object (h_p g j)"
      have "(if i = f then mx else i) = (if j = f then mx else j)"
        by (rule inj_onD [OF inj]) (use eq ij fm in \<open>auto simp: g split: if_splits\<close>)
      with ij show "i = j" by (auto simp: g split: if_splits)
    qed
  qed
qed

lemma fill_inner:
  assumes leaf: "hole_at_leaf b (h, pos) mx f" and fm: "f < mx"
    and g: "g = h\<lparr>h_elements := mx, h_p := (h_p h)(f := h_p h mx)\<rparr>"
  shows "heap_ordered_up b g f" "keys_in_window b g" "objects_distinct g {}" "index_ok (g, pos) {f}"
proof -
  have n: "h_elements h = Suc mx" and lf: "mx < HEAP_LEFT f" and o: "heap_ordered_hole b h f"
    and w: "keys_in_window b h" and d: "objects_distinct h {f}" and ix: "index_ok (h, pos) {f}"
    using leaf by (auto simp: hole_at_leaf_def)
  have "HEAP_FATHER i \<noteq> f" if "i < Suc mx" "0 < i" for i
    using lf that HEAP_FATHER_children [of i f] by auto
  then show "heap_ordered_up b g f"
    using o by (auto simp: heap_ordered_up_def heap_ordered_hole_def g hkey_def n)
  show "keys_in_window b g" using w fm by (auto simp: keys_in_window_def g n)
  show "objects_distinct g {}" "index_ok (g, pos) {f}" using fill_objects [OF n fm d ix g] .
qed

text \<open>After the hole has reached a leaf, both ways of closing it restore the heap.\<close>

lemma close_hole:
  assumes leaf: "hole_at_leaf b (h, pos) mx f"
    and res: "res = (if f \<noteq> mx then heap_insert True (h\<lparr>h_elements := mx, h_p := (h_p h)(f := h_p h mx)\<rparr>, pos)
                (word_of_nat f) None else Some (h\<lparr>h_elements := mx\<rparr>, pos))"
  obtains h' pos' where "res = Some (h', pos')" "heap_inv b (h', pos')"
    "heap_entries h' = entries_but f h" "h_elements h' = mx" "h_ofs h' = h_ofs h" "h_size h' = h_size h"
    "\<And>x. x \<notin> he_object ` set_mset (entries_but f h) \<Longrightarrow> pos' x = pos x"
proof (cases "f = mx")
  case True
  have "h_elements h = Suc mx" using leaf by (simp add: hole_at_leaf_def)
  from heap_entries_cut_last [OF this] fill_last [of b h pos mx] leaf True res
  show ?thesis by (intro that [of "h\<lparr>h_elements := mx\<rparr>" pos]) simp_all
next
  case False
  have n: "h_elements h = Suc mx" and fm: "f < mx" and sz: "mx \<le> h_size h" "h_size h < 2 ^ 31"
    using leaf False by (auto simp: hole_at_leaf_def)
  define g where "g = h\<lparr>h_elements := mx, h_p := (h_p h)(f := h_p h mx)\<rparr>"
  have gp: "h_elements g = mx" "h_ofs g = h_ofs h" "h_size g = h_size h" by (simp_all add: g_def)
  have "f < 2 ^ 64" using fm sz by simp
  then have uf: "unat (word_of_nat f :: u64) = f" by (simp only: unat_of_nat) simp
  obtain h' pos' where bu: "bubble_up (g, pos) f = (h', pos')" by (metis surj_pair)
  have r: "res = Some (h', pos')" using res False bu uf by (simp add: heap_insert_def g_def)
  have ge: "heap_entries g = entries_but f h"
    using heap_entries_cut [OF n _ False] fm by (simp add: g_def)
  note fi = fill_inner [OF leaf fm g_def]
  have sp: "same_shape h' g" "heap_entries h' = heap_entries g" "keys_in_window b h'"
    "heap_ordered b h'" "objects_distinct h' {}" "index_ok (h', pos') {}"
    "\<And>x. x \<notin> heap_objects g \<Longrightarrow> pos' x = pos x"
    using bubble_up_spec [OF bu _ fi(2,1,3,4)] fm by (auto simp: gp)
  have inv: "heap_inv b (h', pos')" using sp sz by (simp add: heap_inv_def same_shape_def gp)
  show ?thesis
    by (rule that [OF r inv]) (use sp ge in \<open>auto simp: same_shape_def gp heap_objects_entries\<close>)
qed

lemma extract_at_spec:
  assumes inv: "heap_inv b (h, pos)" and st: "start < h_elements h"
  obtains h' pos' where "extract_at (h, pos) start = Some (h', pos')"
    "heap_inv b (h', pos')" "heap_entries h = add_mset (h_p h start) (heap_entries h')"
    "h_elements h' = h_elements h - 1" "h_ofs h' = h_ofs h" "h_size h' = h_size h"
    "\<And>x. x \<notin> heap_objects h \<Longrightarrow> pos' x = pos x"
proof -
  define mx where "mx = h_elements h - 1"
  have n: "h_elements h = Suc mx" using st by (simp add: mx_def)
  obtain h1 pos1 f where mv: "move_hole mx (h, RESET_OFFSET h start pos) start = ((h1, pos1), f)"
    by (metis surj_pair)
  note hs = hole_start [OF inv st]
  have m: "same_shape h1 h" "f < h_elements h" "mx < HEAP_LEFT f" "heap_ordered_hole b h1 f"
    "keys_in_window b h1" "entries_but f h1 = entries_but start h" "objects_distinct h1 {f}"
    "index_ok (h1, pos1) {f}"
    "\<And>x. x \<notin> he_object ` set_mset (entries_but start h) \<Longrightarrow> pos1 x = RESET_OFFSET h start pos x"
    using move_hole_spec [OF mv mx_def st hs] by auto
  have n1: "h_elements h1 = Suc mx" "h_ofs h1 = h_ofs h" "h_size h1 = h_size h"
    using m(1) n by (simp_all add: same_shape_def)
  have leaf: "hole_at_leaf b (h1, pos1) mx f"
    using m inv n by (simp add: hole_at_leaf_def n1 heap_inv_def)
  have ent: "heap_entries h = add_mset (h_p h start) (entries_but f h1)"
    using heap_entries_but [OF st] m(6) by simp
  have frame: "pos1 x = pos x" if "x \<notin> heap_objects h" for x
    using that heap_entries_but [OF st] m(9) [of x]
    by (auto simp: heap_objects_entries RESET_OFFSET_def)
  obtain h' pos' where c: "extract_at (h, pos) start = Some (h', pos')" "heap_inv b (h', pos')"
    "heap_entries h' = entries_but f h1" "h_elements h' = mx" "h_ofs h' = h_ofs h1" "h_size h' = h_size h1"
    "\<And>x. x \<notin> he_object ` set_mset (entries_but f h1) \<Longrightarrow> pos' x = pos1 x"
    by (rule close_hole [OF leaf, of "extract_at (h, pos) start"])
       (use mv n1 in \<open>auto simp: extract_at_def n\<close>)
  have "pos' x = pos x" if "x \<notin> heap_objects h" for x
    using c(7) [of x] frame [OF that] that ent by (simp add: heap_objects_entries)
  then show thesis
    using that [OF c(1,2)] c ent n n1 by simp
qed

section \<open>What holds for any keys\<close>

text \<open>
  The order of the entries needs keys within half of the number circle; the structure does
  not: array bounds, index fields, distinctness and the multiset of entries are kept whatever
  the comparison of the keys says.
\<close>

definition heap_shape :: "'o hst \<Rightarrow> bool" where
  "heap_shape st \<longleftrightarrow> h_elements (fst st) \<le> h_size (fst st) \<and> h_size (fst st) < 2 ^ 31 \<and>
     objects_distinct (fst st) {} \<and> index_ok st {}"

lemma heap_inv_shape: "heap_inv b st \<Longrightarrow> heap_shape st"
  by (simp add: heap_inv_def heap_shape_def)

lemma bubble_up_shape:
  assumes "bubble_up (h, pos) s = (h', pos')" "s < h_elements h" "objects_distinct h {}" "index_ok (h, pos) {s}"
  shows "same_shape h' h \<and> heap_entries h' = heap_entries h \<and> objects_distinct h' {} \<and>
    index_ok (h', pos') {} \<and> (\<forall>x. x \<notin> heap_objects h \<longrightarrow> pos' x = pos x)"
  using assms
proof (induction "(h, pos)" s arbitrary: h pos rule: bubble_up.induct)
  case (1 h pos s)
  note s = "1.prems"(2) and dist = "1.prems"(3) and ix = "1.prems"(4)
  define f where "f = HEAP_FATHER s"
  define g where "g = h\<lparr>h_p := (h_p h)(s := h_p h f, f := h_p h s)\<rparr>"
  have at_s: "he_object (h_p h s) \<in> heap_objects h" using s by (auto simp: heap_objects_def)
  show ?case
  proof (cases "0 < s \<and> \<not> DN_KEY_LT (he_key (h_p h f)) (he_key (h_p h s))")
    case True
    then have s0: "0 < s" and nlt: "\<not> DN_KEY_LT (he_key (h_p h f)) (he_key (h_p h s))" by auto
    have fn: "f < h_elements h" using s by (simp add: f_def HEAP_FATHER_bound)
    note fr = swap_frame [OF s0 s, folded f_def, OF g_def]
    have step: "bubble_up (g, SET_OFFSET g s pos) f = (h', pos')"
      using "1.prems"(1) s0 nlt by (subst (asm) bubble_up.simps) (simp add: Let_def f_def g_def)
    have gn: "h_elements g = h_elements h" "h_size g = h_size h" "h_ofs g = h_ofs h" by (simp_all add: g_def)
    have ih: "same_shape h' g \<and> heap_entries h' = heap_entries g \<and> objects_distinct h' {} \<and>
      index_ok (h', pos') {} \<and> (\<forall>x. x \<notin> heap_objects g \<longrightarrow> pos' x = SET_OFFSET g s pos x)"
      using "1.hyps" [OF s0 f_def _ g_def] nlt step fn fr(4) [OF dist] fr(5) [OF dist ix] by (simp add: gn)
    have "he_object (h_p g s) \<in> heap_objects h"
      using s by (metis atLeast0LessThan fr(2) gn(1) heap_objects_def imageI lessThan_iff)
    then have "SET_OFFSET g s pos x = pos x" if "x \<notin> heap_objects h" for x
      using that by (auto simp: SET_OFFSET_def)
    with ih show ?thesis by (simp add: fr same_shape_def gn)
  next
    case False
    have eq: "h' = h" "pos' = SET_OFFSET h s pos"
      using "1.prems"(1) False by (subst (asm) bubble_up.simps, auto simp: Let_def f_def split: if_splits)+
    have "index_ok (h, SET_OFFSET h s pos) {}"
      using ix dist s by (auto simp: index_ok_def SET_OFFSET_def objects_distinct_def inj_on_def)
    then show ?thesis using dist at_s by (auto simp: eq same_shape_def SET_OFFSET_def)
  qed
qed

lemma heap_insert_shape:
  assumes inv: "heap_shape (h, pos)" and new: "0 < h_ofs h \<Longrightarrow> obj \<notin> heap_objects h"
    and room: "h_elements h < 2 ^ 31 - 16"
    and ins: "heap_insert mok (h, pos) k (Some obj) = Some (h', pos')"
  shows "heap_shape (h', pos')"
    "heap_entries h' = add_mset \<lparr>he_key = k, he_object = obj\<rparr> (heap_entries h)"
    "h_elements h' = h_elements h + 1" "h_ofs h' = h_ofs h"
    "\<And>x. x \<noteq> obj \<Longrightarrow> x \<notin> heap_objects h \<Longrightarrow> pos' x = pos x"
proof -
  obtain h1 where h1: "h_p h1 = h_p h" "h_elements h1 = h_elements h" "h_ofs h1 = h_ofs h"
      "h_elements h < h_size h1" "h_size h1 < 2 ^ 31"
    and bu: "bubble_up (h1\<lparr>h_p := (h_p h1)(h_elements h := \<lparr>he_key = k, he_object = obj\<rparr>),
                           h_elements := h_elements h1 + 1\<rparr>, pos) (h_elements h) = (h', pos')"
    using heap_insert_grows [OF _ _ room ins] inv by (auto simp: heap_shape_def)
  define e where "e = \<lparr>he_key = k, he_object = obj\<rparr>"
  define n where "n = h_elements h"
  define g where "g = h1\<lparr>h_p := (h_p h1)(n := e), h_elements := h_elements h1 + 1\<rparr>"
  have g: "h_p g = (h_p h)(n := e)" "h_elements g = n + 1" "h_ofs g = h_ofs h" "h_size g = h_size h1"
    by (simp_all add: g_def h1 n_def)
  have "heap_entries g = heap_entries (h\<lparr>h_p := (h_p h)(h_elements h := e), h_elements := h_elements h + 1\<rparr>)"
    by (simp add: heap_entries_def g n_def)
  then have ent: "heap_entries g = add_mset e (heap_entries h)" by (simp only: heap_entries_snoc)
  have obs: "heap_objects g = insert obj (heap_objects h)" by (simp add: heap_objects_entries ent e_def)
  have d: "objects_distinct g {}"
    using inv new by (auto simp: heap_shape_def objects_distinct_def inj_on_def g e_def heap_objects_def n_def less_Suc_eq)
  have ix: "index_ok (g, pos) {n}"
    using inv by (auto simp: heap_shape_def index_ok_def g e_def n_def less_Suc_eq)
  have spec: "same_shape h' g" "heap_entries h' = heap_entries g" "objects_distinct h' {}"
    "index_ok (h', pos') {}" "\<And>x. x \<notin> heap_objects g \<Longrightarrow> pos' x = pos x"
    using bubble_up_shape [OF bu [folded n_def e_def, folded g_def] _ d ix] by (auto simp: g(2))
  show "heap_shape (h', pos')" using spec h1 by (simp add: heap_shape_def same_shape_def g n_def)
  show "heap_entries h' = add_mset \<lparr>he_key = k, he_object = obj\<rparr> (heap_entries h)"
    by (simp add: spec ent e_def)
  show "h_elements h' = h_elements h + 1" "h_ofs h' = h_ofs h"
    using spec(1) by (simp_all add: same_shape_def g n_def)
  show "x \<noteq> obj \<Longrightarrow> x \<notin> heap_objects h \<Longrightarrow> pos' x = pos x" for x
    using spec(5) [of x] by (simp add: obs)
qed

lemma move_hole_shape:
  assumes "move_hole mx (h, pos) f = ((h', pos'), f')" "mx = h_elements h - 1" "f < h_elements h"
    "objects_distinct h {f}" "index_ok (h, pos) {f}"
  shows "same_shape h' h \<and> f' < h_elements h \<and> entries_but f' h' = entries_but f h \<and> objects_distinct h' {f'} \<and>
    index_ok (h', pos') {f'} \<and>
    (\<forall>x. x \<notin> he_object ` set_mset (entries_but f h) \<longrightarrow> pos' x = pos x)"
  using assms
proof (induction mx "(h, pos)" f arbitrary: h pos rule: move_hole.induct)
  case (1 mx h pos f)
  show ?case
  proof (cases "HEAP_LEFT f \<le> mx")
    case True
    define c where "c = smaller_child h mx f"
    define g where "g = h\<lparr>h_p := (h_p h)(f := h_p h c)\<rparr>"
    have n0: "0 < h_elements h" using "1.prems"(3) by simp
    note st = hole_step_shape [OF "1.prems"(2) n0 True c_def g_def]
    have gn: "h_elements g = h_elements h" "h_size g = h_size h" "h_ofs g = h_ofs h" by (simp_all add: g_def)
    have cn: "c < h_elements h" using smaller_child_pos(1) [OF True c_def] "1.prems"(2) n0 by linarith
    have step: "move_hole mx (g, SET_OFFSET g f pos) c = ((h', pos'), f')"
      using "1.prems"(1) True by (subst (asm) move_hole.simps) (simp add: Let_def c_def g_def)
    have ih: "same_shape h' g \<and> f' < h_elements g \<and> entries_but f' h' = entries_but c g \<and> objects_distinct h' {f'} \<and>
      index_ok (h', pos') {f'} \<and> (\<forall>x. x \<notin> he_object ` set_mset (entries_but c g) \<longrightarrow> pos' x = SET_OFFSET g f pos x)"
      using "1.hyps" [OF True c_def g_def] step st "1.prems"(2,4,5) cn by (simp add: gn)
    have "SET_OFFSET g f pos x = pos x" if "x \<notin> he_object ` set_mset (entries_but f h)" for x
      using st(4) that by (auto simp: SET_OFFSET_def)
    with ih show ?thesis by (simp add: same_shape_def gn st)
  next
    case False
    then have "h' = h" "pos' = pos" "f' = f"
      using "1.prems"(1) by (subst (asm) move_hole.simps, simp)+
    with "1.prems" show ?thesis by (auto simp: same_shape_def)
  qed
qed

lemma extract_at_shape:
  assumes inv: "heap_shape (h, pos)" and st: "start < h_elements h"
  obtains h' pos' where "extract_at (h, pos) start = Some (h', pos')"
    "heap_shape (h', pos')" "heap_entries h = add_mset (h_p h start) (heap_entries h')"
    "h_elements h' = h_elements h - 1" "h_ofs h' = h_ofs h" "h_size h' = h_size h"
    "\<And>x. x \<notin> heap_objects h \<Longrightarrow> pos' x = pos x"
proof -
  obtain mx where n: "h_elements h = Suc mx" using st by (cases "h_elements h") auto
  have ob: "objects_distinct h {}" "index_ok (h, pos) {}" and sz: "mx < h_size h" "h_size h < 2 ^ 31"
    using inv n by (auto simp: heap_shape_def)
  obtain h1 pos1 f where mv: "move_hole mx (h, RESET_OFFSET h start pos) start = ((h1, pos1), f)"
    by (metis surj_pair)
  have m: "same_shape h1 h" "f < h_elements h" "entries_but f h1 = entries_but start h" "objects_distinct h1 {f}"
    "index_ok (h1, pos1) {f}"
    "\<And>x. x \<notin> he_object ` set_mset (entries_but start h) \<Longrightarrow> pos1 x = RESET_OFFSET h start pos x"
    using move_hole_shape [OF mv _ st] reset_index_ok [OF ob st] n by auto
  have n1: "h_elements h1 = Suc mx" "h_ofs h1 = h_ofs h" "h_size h1 = h_size h"
    using m(1) n by (simp_all add: same_shape_def)
  have ent: "heap_entries h = add_mset (h_p h start) (entries_but f h1)"
    using heap_entries_but [OF st] m(3) by simp
  have frame: "pos1 x = pos x" if "x \<notin> heap_objects h" for x
    using that heap_entries_but [OF st] m(6) [of x] by (auto simp: heap_objects_entries RESET_OFFSET_def)
  show thesis
  proof (cases "f = mx")
    case True
    have "objects_distinct (h1\<lparr>h_elements := mx\<rparr>) {}" "index_ok (h1\<lparr>h_elements := mx\<rparr>, pos1) {}"
      using m(4,5) True by (auto simp: objects_distinct_def index_ok_def n1 intro: inj_on_subset)
    moreover have "extract_at (h, pos) start = Some (h1\<lparr>h_elements := mx\<rparr>, pos1)"
      using mv True by (simp add: extract_at_def n n1 Let_def)
    ultimately show thesis
      using heap_entries_cut_last [OF n1(1)] True ent sz n n1 frame
      by (intro that [of "h1\<lparr>h_elements := mx\<rparr>" pos1]) (auto simp: heap_shape_def)
  next
    case False
    have fm: "f < mx" using False m(2) n by simp
    define g where "g = h1\<lparr>h_elements := mx, h_p := (h_p h1)(f := h_p h1 mx)\<rparr>"
    have g: "h_elements g = mx" "h_ofs g = h_ofs h" "h_size g = h_size h" by (simp_all add: g_def n1)
    obtain h' pos' where bu: "bubble_up (g, pos1) f = (h', pos')" by (metis surj_pair)
    have "unat (word_of_nat f :: u64) = f"
      using fm sz by (subst unat_of_nat) simp
    then have ex: "extract_at (h, pos) start = Some (h', pos')"
      using mv False bu by (simp add: extract_at_def n n1 Let_def heap_insert_def g_def)
    note fi = fill_objects [OF n1(1) fm m(4,5) g_def]
    note sp = bubble_up_shape [OF bu _ fi]
    have ge: "heap_entries g = entries_but f h1"
      using heap_entries_cut [OF n1(1) _ False] fm by (simp add: g_def)
    show thesis
      by (rule that [OF ex]) (use sp fm ge ent frame sz n in
        \<open>auto simp: heap_shape_def same_shape_def g heap_objects_entries\<close>)
  qed
qed

section \<open>Restoring the order after a scan\<close>

lemma bubble_up_elements:
  "bubble_up (h\<lparr>h_elements := m\<rparr>, pos) s =
     (let (h', pos') = bubble_up (h, pos) s in (h'\<lparr>h_elements := m\<rparr>, pos'))"
proof (induction "(h, pos)" s arbitrary: h pos rule: bubble_up.induct)
  case (1 h pos s)
  define f where "f = HEAP_FATHER s"
  define g where "g = h\<lparr>h_p := (h_p h)(s := h_p h f, f := h_p h s)\<rparr>"
  have g': "h\<lparr>h_elements := m, h_p := (h_p h)(s := h_p h f, f := h_p h s)\<rparr> = g\<lparr>h_elements := m\<rparr>"
    by (simp add: g_def)
  have so: "SET_OFFSET (k\<lparr>h_elements := m\<rparr>) i = SET_OFFSET k i" for k :: "'a dn_heap" and i
    by (simp add: SET_OFFSET_def fun_eq_iff)
  show ?case
  proof (cases "0 < s \<and> \<not> DN_KEY_LT (he_key (h_p h f)) (he_key (h_p h s))")
    case True
    have "bubble_up (h, pos) s = bubble_up (g, SET_OFFSET g s pos) f"
      using True by (subst bubble_up.simps) (simp add: Let_def f_def g_def)
    moreover have "bubble_up (h\<lparr>h_elements := m\<rparr>, pos) s = bubble_up (g\<lparr>h_elements := m\<rparr>, SET_OFFSET g s pos) f"
      using True by (subst bubble_up.simps) (simp add: Let_def f_def [symmetric] g' so)
    ultimately show ?thesis
      using "1.hyps" [OF _ f_def _ g_def] True by simp
  next
    case False
    then show ?thesis
      by (subst (1 2) bubble_up.simps) (auto simp: Let_def f_def so)
  qed
qed

lemma bubble_up_above:
  "bubble_up (h, pos) s = (h', pos') \<Longrightarrow> s < i \<Longrightarrow> h_p h' i = h_p h i"
proof (induction "(h, pos)" s arbitrary: h pos rule: bubble_up.induct)
  case (1 h pos s)
  define f where "f = HEAP_FATHER s"
  define g where "g = h\<lparr>h_p := (h_p h)(s := h_p h f, f := h_p h s)\<rparr>"
  show ?case
  proof (cases "0 < s \<and> \<not> DN_KEY_LT (he_key (h_p h f)) (he_key (h_p h s))")
    case True
    have "bubble_up (g, SET_OFFSET g s pos) f = (h', pos')"
      using True "1.prems"(1) by (subst (asm) bubble_up.simps) (simp add: Let_def f_def g_def)
    moreover have fi: "f < i" using True "1.prems"(2) HEAP_FATHER_bound [of s i] by (simp add: f_def)
    ultimately have "h_p h' i = h_p g i"
      using "1.hyps" [OF _ f_def _ g_def] True by simp
    then show ?thesis using "1.prems"(2) fi by (simp add: g_def)
  next
    case False
    then have "h' = h" using "1.prems"(1) by (subst (asm) bubble_up.simps, auto simp: Let_def f_def split: if_splits)
    then show ?thesis by simp
  qed
qed

lemma heap_entries_split:
  "m \<le> h_elements h \<Longrightarrow>
   heap_entries h = heap_entries (h\<lparr>h_elements := m\<rparr>) + image_mset (h_p h) (mset_set {m..<h_elements h})"
proof -
  assume "m \<le> h_elements h"
  then have "{0..<h_elements h} = {0..<m} \<union> {m..<h_elements h}" by auto
  then show ?thesis
    by (simp add: heap_entries_def mset_set_Union)
qed

text \<open>One round of \<open>heapify\<close>: the ordered prefix grows by one.\<close>

definition prefix_ok :: "u64 \<Rightarrow> 'o hst \<Rightarrow> nat \<Rightarrow> bool" where
  "prefix_ok b st k \<longleftrightarrow> heap_ordered b ((fst st)\<lparr>h_elements := k\<rparr>) \<and>
     index_ok ((fst st)\<lparr>h_elements := k\<rparr>, snd st) {}"

lemma heapify_round:
  assumes k: "k < h_elements h" and win: "keys_in_window b h" and dist: "objects_distinct h {}"
    and pre: "prefix_ok b (h, pos) k" and bu: "bubble_up (h, pos) k = (h', pos')"
  shows "prefix_ok b (h', pos') (Suc k)" "same_shape h' h" "heap_entries h' = heap_entries h"
    "keys_in_window b h'" "objects_distinct h' {}" "\<And>x. x \<notin> heap_objects h \<Longrightarrow> pos' x = pos x"
proof -
  define g where "g = h\<lparr>h_elements := Suc k\<rparr>"
  have bg: "bubble_up (g, pos) k = (h'\<lparr>h_elements := Suc k\<rparr>, pos')"
    by (simp add: g_def bubble_up_elements bu)
  have up: "heap_ordered_up b g k"
    unfolding heap_ordered_up_def
  proof (intro conjI allI impI)
    fix i assume "i < h_elements g" "0 < i" "i \<noteq> k"
    then show "hkey b g (HEAP_FATHER i) \<le> hkey b g i"
      using pre by (simp add: prefix_ok_def heap_ordered_def g_def hkey_def less_Suc_eq)
  next
    fix i assume "i < h_elements g" "0 < i" "HEAP_FATHER i = k"
    then show "hkey b g (HEAP_FATHER k) \<le> hkey b g i"
      using HEAP_FATHER_less [of i] by (simp add: g_def)
  qed
  have w: "keys_in_window b g" using win k by (simp add: keys_in_window_def g_def)
  have d: "objects_distinct g {}"
    using dist k by (auto simp: objects_distinct_def g_def intro: inj_on_subset)
  have ix: "index_ok (g, pos) {k}"
    using pre by (auto simp: prefix_ok_def index_ok_def g_def less_Suc_eq)
  have s: "same_shape (h'\<lparr>h_elements := Suc k\<rparr>) g" "heap_entries (h'\<lparr>h_elements := Suc k\<rparr>) = heap_entries g"
    "heap_ordered b (h'\<lparr>h_elements := Suc k\<rparr>)" "index_ok (h'\<lparr>h_elements := Suc k\<rparr>, pos') {}"
    "\<And>x. x \<notin> heap_objects g \<Longrightarrow> pos' x = pos x"
    using bubble_up_spec [OF bg _ w up d ix] by (auto simp: g_def)
  show "prefix_ok b (h', pos') (Suc k)" using s by (simp add: prefix_ok_def)
  have n: "h_elements h' = h_elements h"
    using bubble_up_elements [of "h_elements h" h pos k] bu by (metis (no_types, lifting) case_prod_conv dn_heap.select_convs(2) dn_heap.surjective dn_heap.update_convs(2) prod.inject)
  show sh: "same_shape h' h" using s(1) n by (simp add: same_shape_def g_def)
  have "image_mset (h_p h') (mset_set {Suc k..<h_elements h}) = image_mset (h_p h) (mset_set {Suc k..<h_elements h})"
    by (rule image_mset_cong) (use bubble_up_above [OF bu] in auto)
  then show e: "heap_entries h' = heap_entries h"
    using heap_entries_split [of "Suc k" h] heap_entries_split [of "Suc k" h'] k s(2) n by (simp add: g_def)
  have "\<forall>e \<in># heap_entries h. in_window b (he_key e)"
    using win by (auto simp: keys_in_window_def heap_entries_def)
  then show "keys_in_window b h'"
    unfolding e [symmetric] by (auto simp: keys_in_window_def heap_entries_def)
  show "objects_distinct h' {}"
    using objects_distinct_cong [OF e] sh dist by (simp add: same_shape_def)
  show "pos' x = pos x" if "x \<notin> heap_objects h" for x
    using that k by (intro s(5)) (auto simp: heap_objects_def g_def)
qed

lemma heapify_spec:
  assumes hp: "heapify (h, pos) = (h', pos')" and win: "keys_in_window b h"
    and dist: "objects_distinct h {}" and sz: "h_elements h \<le> h_size h" "h_size h < 2 ^ 31"
  shows "heap_inv b (h', pos')" "heap_entries h' = heap_entries h" "same_shape h' h"
    "\<And>x. x \<notin> heap_objects h \<Longrightarrow> pos' x = pos x"
proof -
  define it where "it k = fold (\<lambda>i st. bubble_up st i) [0..<k] (h, pos)" for k
  have inv: "k \<le> h_elements h \<Longrightarrow> prefix_ok b (it k) k \<and> same_shape (fst (it k)) h \<and>
      heap_entries (fst (it k)) = heap_entries h \<and> keys_in_window b (fst (it k)) \<and>
      objects_distinct (fst (it k)) {} \<and> (\<forall>x. x \<notin> heap_objects h \<longrightarrow> snd (it k) x = pos x)" for k
  proof (induction k)
    case 0
    show ?case
      using win dist by (simp add: it_def prefix_ok_def heap_ordered_def index_ok_def same_shape_def)
  next
    case (Suc k)
    obtain h1 pos1 where i1: "it k = (h1, pos1)" by (metis surj_pair)
    obtain h2 pos2 where i2: "bubble_up (h1, pos1) k = (h2, pos2)" by (metis surj_pair)
    have s: "it (Suc k) = (h2, pos2)" using i1 i2 by (simp add: it_def)
    have kn: "k < h_elements h1" using Suc i1 by (simp add: same_shape_def)
    have ih: "prefix_ok b (h1, pos1) k" "same_shape h1 h" "heap_entries h1 = heap_entries h"
      "keys_in_window b h1" "objects_distinct h1 {}" "\<forall>x. x \<notin> heap_objects h \<longrightarrow> pos1 x = pos x"
      using Suc i1 by auto
    have "heap_objects h1 = heap_objects h" using ih(3) by (simp add: heap_objects_entries)
    with heapify_round [OF kn ih(4,5,1) i2] ih show ?case
      by (simp add: s same_shape_def)
  qed
  have e: "it (h_elements h) = (h', pos')" using hp by (simp add: it_def heapify_def)
  have "h'\<lparr>h_elements := h_elements h\<rparr> = h'"
    using inv [of "h_elements h"] e by (simp add: same_shape_def)
  then show "heap_inv b (h', pos')" "heap_entries h' = heap_entries h" "same_shape h' h"
    "\<And>x. x \<notin> heap_objects h \<Longrightarrow> pos' x = pos x"
    using inv [of "h_elements h"] e sz
    by (simp_all add: heap_inv_def prefix_ok_def same_shape_def)
qed

text \<open>Removing the entry at \<open>i\<close> by putting the last one in its place.\<close>

lemma heap_entries_replace_last:
  assumes "i < h_elements h"
  shows "heap_entries h = add_mset (h_p h i)
    (heap_entries (h\<lparr>h_elements := h_elements h - 1, h_p := (h_p h)(i := h_p h (h_elements h - 1))\<rparr>))"
proof -
  obtain mx where n: "h_elements h = Suc mx" using assms by (cases "h_elements h") auto
  show ?thesis
  proof (cases "i = mx")
    case True
    have "(h_p h)(mx := h_p h mx) = h_p h" by auto
    with heap_entries_cut_last [OF n] heap_entries_but [OF assms] True n show ?thesis by simp
  next
    case False
    with heap_entries_cut [OF n _ False] heap_entries_but [OF assms] assms n show ?thesis by simp
  qed
qed

text \<open>The scan removes as many entries as it counts and invents none.\<close>

lemma scan_loop_spec:
  assumes "scan_loop fn h i found s = (h', found', s')"
  shows "found \<le> found' \<and> heap_entries h' \<subseteq># heap_entries h \<and> h_ofs h' = h_ofs h \<and> h_size h' = h_size h \<and>
    h_elements h' + found' = h_elements h + found \<and> (found' = found \<longrightarrow> h' = h)"
  using assms
proof (induction fn h i found s rule: scan_loop.induct)
  case (1 fn h i found s)
  show ?case
  proof (cases "i < h_elements h")
    case True
    obtain ret t where fn: "fn (he_object (h_p h i)) s = (ret, t)" by (metis surj_pair)
    define g where "g = h\<lparr>h_elements := h_elements h - 1, h_p := (h_p h)(i := h_p h (h_elements h - 1))\<rparr>"
    have g: "heap_entries g \<subseteq># heap_entries h" "h_ofs g = h_ofs h" "h_size g = h_size h"
      "h_elements g = h_elements h - 1"
      using heap_entries_replace_last [OF True] by (simp_all add: g_def)
    show ?thesis
    proof (cases "ret AND HEAP_SCAN_DEL = 0"; cases "ret AND HEAP_SCAN_END = 0")
      assume d: "ret AND HEAP_SCAN_DEL = 0" and e: "ret AND HEAP_SCAN_END = 0"
      show ?thesis
        using "1.prems" True "1.IH" [OF True fn [symmetric] refl refl refl refl refl] d e
        by (subst (asm) scan_loop.simps) (simp add: fn Let_def)
    next
      assume d: "ret AND HEAP_SCAN_DEL = 0" and e: "ret AND HEAP_SCAN_END \<noteq> 0"
      show ?thesis
        using "1.prems" True d e by (subst (asm) scan_loop.simps) (simp add: fn Let_def)
    next
      assume d: "ret AND HEAP_SCAN_DEL \<noteq> 0" and e: "ret AND HEAP_SCAN_END = 0"
      have "scan_loop fn g i (found + 1) t = (h', found', s')"
        using "1.prems" True d e by (subst (asm) scan_loop.simps) (simp add: fn Let_def g_def)
      then have "found + 1 \<le> found' \<and> heap_entries h' \<subseteq># heap_entries g \<and> h_ofs h' = h_ofs g \<and> h_size h' = h_size g \<and>
        h_elements h' + found' = h_elements g + (found + 1)"
        using "1.IH" [OF True fn [symmetric] refl refl refl refl] d e by (simp add: Let_def g_def)
      then show ?thesis using g True by (auto intro: subset_mset.trans)
    next
      assume d: "ret AND HEAP_SCAN_DEL \<noteq> 0" and e: "ret AND HEAP_SCAN_END \<noteq> 0"
      have "h' = g" "found' = found + 1"
        using "1.prems" True d e by (subst (asm) scan_loop.simps, simp add: fn Let_def g_def)+
      then show ?thesis using g True by auto
    qed
  next
    case False
    then show ?thesis using "1.prems" by (subst (asm) scan_loop.simps) simp
  qed
qed

lemma heap_scan_spec:
  assumes inv: "heap_inv b (h, pos)" and sc: "heap_scan fn (h, pos) s = ((h', pos'), found, s')"
  shows "heap_inv b (h', pos')" "heap_entries h' \<subseteq># heap_entries h"
    "h_elements h' + found = h_elements h"
proof -
  obtain g f t where l: "scan_loop fn h 0 0 s = (g, f, t)" by (metis surj_pair)
  have r: "(if 0 < f then heapify (g, pos) else (g, pos)) = (h', pos')" "found = f"
    using sc l by (auto simp: heap_scan_def)
  note sp = scan_loop_spec [OF l]
  have sub: "heap_entries g \<subseteq># heap_entries h" using sp by simp
  have w: "keys_in_window b g"
  proof -
    have "\<forall>e \<in># heap_entries h. in_window b (he_key e)"
      using inv by (auto simp: heap_inv_def keys_in_window_def heap_entries_def)
    then have "\<forall>e \<in># heap_entries g. in_window b (he_key e)"
      using sub by (meson mset_subset_eqD)
    then show ?thesis by (auto simp: keys_in_window_def heap_entries_def)
  qed
  have d: "objects_distinct g {}"
  proof -
    have m: "mset (map (\<lambda>i. he_object (h_p k i)) [0..<h_elements k]) = image_mset he_object (heap_entries k)"
      for k :: "'a dn_heap"
      by (simp add: heap_entries_def image_mset.compositionality comp_def)
    show ?thesis
      unfolding objects_distinct_mset
    proof
      assume "0 < h_ofs g"
      then have "distinct (map (\<lambda>i. he_object (h_p h i)) [0..<h_elements h])"
        using inv sp by (simp add: heap_inv_def objects_distinct_mset)
      then show "distinct (map (\<lambda>i. he_object (h_p g i)) [0..<h_elements g])"
        by (rule distinct_mset_subset [rotated]) (simp only: m image_mset_subseteq_mono [OF sub])
    qed
  qed
  have sz: "h_elements g \<le> h_size g" "h_size g < 2 ^ 31"
    using sp inv by (auto simp: heap_inv_def)
  show "heap_inv b (h', pos')" "heap_entries h' \<subseteq># heap_entries h" "h_elements h' + found = h_elements h"
    using r sp inv heapify_spec [of g pos h' pos' b, OF _ w d sz]
    by (auto simp: same_shape_def split: if_splits)
qed

section \<open>The interface the schedulers and the event loop use\<close>

text \<open>
  What a client of the heap relies on: the top is a least entry, extracting it removes just
  it, inserting adds just the new entry. \<open>drain\<close> is the client loop of the event handler
  and of the eligibility step of WF2Q+: extract while the top is due.
\<close>

fun drain :: "('h \<Rightarrow> bool) \<Rightarrow> ('h \<Rightarrow> 'e) \<Rightarrow> ('h \<Rightarrow> 'h option) \<Rightarrow> ('e \<Rightarrow> bool) \<Rightarrow> nat \<Rightarrow> 'h \<Rightarrow> 'e list \<times> 'h" where
  "drain nonempty topmost pop due 0 h = ([], h)"
| "drain nonempty topmost pop due (Suc n) h =
     (if nonempty h \<and> due (topmost h) then
        case pop h of
          None \<Rightarrow> ([], h)
        | Some h1 \<Rightarrow> let (es, h2) = drain nonempty topmost pop due n h1 in (topmost h # es, h2)
      else ([], h))"

locale prio_heap =
  fixes inv :: "'h \<Rightarrow> bool"
    and entries :: "'h \<Rightarrow> 'e multiset"
    and nonempty :: "'h \<Rightarrow> bool"
    and prio :: "'e \<Rightarrow> nat"
    and topmost :: "'h \<Rightarrow> 'e"
    and pop :: "'h \<Rightarrow> 'h option"
    and push :: "'h \<Rightarrow> 'e \<Rightarrow> 'h option"
    and ok :: "'h \<Rightarrow> 'e \<Rightarrow> bool"
  assumes nonempty_iff: "inv h \<Longrightarrow> nonempty h \<longleftrightarrow> entries h \<noteq> {#}"
    and top_min: "inv h \<Longrightarrow> e \<in># entries h \<Longrightarrow> prio (topmost h) \<le> prio e"
    and pop_some: "inv h \<Longrightarrow> entries h \<noteq> {#} \<Longrightarrow>
      \<exists>h'. pop h = Some h' \<and> inv h' \<and> entries h = add_mset (topmost h) (entries h')"
    and push_some: "inv h \<Longrightarrow> ok h e \<Longrightarrow>
      \<exists>h'. push h e = Some h' \<and> inv h' \<and> entries h' = add_mset e (entries h)"
begin

lemma pop_size: "inv h \<Longrightarrow> pop h = Some h' \<Longrightarrow> entries h \<noteq> {#} \<Longrightarrow> size (entries h) = Suc (size (entries h'))"
  using pop_some by fastforce

lemma push_then_top:
  assumes "inv h" "ok h e" "push h e = Some h'"
  shows "prio (topmost h') \<le> prio e"
  using push_some [OF assms(1,2)] assms(3) top_min by fastforce

text \<open>With enough rounds the loop takes out exactly the due entries, in key order.\<close>

lemma drain_complete:
  assumes "inv h" "size (entries h) \<le> n"
    and due: "\<And>x y. due y \<Longrightarrow> prio x \<le> prio y \<Longrightarrow> due x"
    and "drain nonempty topmost pop due n h = (es, h')"
  shows "inv h' \<and> entries h = mset es + entries h' \<and> (\<forall>e\<in>set es. due e) \<and>
    (\<forall>e\<in>#entries h'. \<not> due e) \<and> sorted (map prio es)"
  using assms(1,2,4)
proof (induction n arbitrary: h es)
  case 0
  then show ?case by auto
next
  case (Suc n)
  show ?case
  proof (cases "entries h \<noteq> {#} \<and> due (topmost h)")
    case True
    obtain h1 where h1: "pop h = Some h1" "inv h1" "entries h = add_mset (topmost h) (entries h1)"
      using pop_some [OF Suc.prems(1)] True by auto
    obtain es1 where d: "drain nonempty topmost pop due n h1 = (es1, h')" "es = topmost h # es1"
      using Suc.prems True nonempty_iff h1(1) by (auto split: prod.splits)
    have ih: "inv h' \<and> entries h1 = mset es1 + entries h' \<and> (\<forall>e\<in>set es1. due e) \<and>
      (\<forall>e\<in>#entries h'. \<not> due e) \<and> sorted (map prio es1)"
      using Suc.IH [OF h1(2) _ d(1)] Suc.prems(2) h1(3) by simp
    moreover have "\<forall>e\<in>set es1. prio (topmost h) \<le> prio e"
      using top_min [OF Suc.prems(1)] h1(3) ih by auto
    ultimately show ?thesis using d(2) h1(3) True by simp
  next
    case False
    then have e: "es = []" "h' = h" using Suc.prems nonempty_iff by auto
    have "\<not> due x" if "x \<in># entries h" for x
      using False that due [of x "topmost h"] top_min [OF Suc.prems(1) that] by auto
    with e Suc.prems(1) show ?thesis by simp
  qed
qed

end

lemma heap_inv_empty_iff: "0 < h_elements h \<longleftrightarrow> heap_entries h \<noteq> {#}"
  by (simp add: heap_entries_def mset_set_empty_iff)

lemma HEAP_TOP_min:
  assumes "heap_inv b (h, pos)" "i < h_elements h"
  shows "koff b (he_key (HEAP_TOP h)) \<le> hkey b h i"
  using assms(2)
proof (induction i rule: less_induct)
  case (less i)
  show ?case
  proof (cases "i = 0")
    case True
    then show ?thesis by (simp add: HEAP_TOP_def hkey_def)
  next
    case False
    then have "koff b (he_key (HEAP_TOP h)) \<le> hkey b h (HEAP_FATHER i)"
      using less by (simp add: HEAP_FATHER_bound)
    also have "\<dots> \<le> hkey b h i"
      using assms(1) less.prems False by (simp add: heap_inv_def heap_ordered_def)
    finally show ?thesis .
  qed
qed

lemma heap_top_least:
  assumes "heap_inv b (h, pos)" "0 < h_elements h" "x \<in># heap_entries h"
  shows "DN_KEY_LEQ (he_key (HEAP_TOP h)) (he_key x) \<and> HEAP_TOP h \<in># heap_entries h"
proof -
  obtain i where i: "i < h_elements h" "x = h_p h i" using assms(3) by (auto simp: heap_entries_def)
  have "in_window b (he_key x)" "in_window b (he_key (HEAP_TOP h))"
    using assms i by (auto simp: heap_inv_def keys_in_window_def HEAP_TOP_def)
  moreover have "HEAP_TOP h \<in># heap_entries h" using assms(2) by (auto simp: heap_entries_def HEAP_TOP_def)
  ultimately show ?thesis using HEAP_TOP_min [OF assms(1) i(1)] by (simp add: DN_KEY_LEQ_window hkey_def i(2))
qed

definition push_ok :: "u64 \<Rightarrow> 'o hst \<Rightarrow> 'o dn_heap_entry \<Rightarrow> bool" where
  "push_ok b st e \<longleftrightarrow> (0 < h_ofs (fst st) \<longrightarrow> he_object e \<notin> heap_objects (fst st)) \<and>
     in_window b (he_key e) \<and> h_elements (fst st) < 2 ^ 31 - 16"

definition hp_push :: "'o hst \<Rightarrow> 'o dn_heap_entry \<Rightarrow> 'o hst option" where
  "hp_push st e = heap_insert True st (he_key e) (Some (he_object e))"

definition hp_pop :: "'o hst \<Rightarrow> 'o hst option" where
  "hp_pop st = heap_extract st None"

interpretation dnh: prio_heap "heap_inv b" "\<lambda>st. heap_entries (fst st)" "\<lambda>st. 0 < h_elements (fst st)"
  "\<lambda>e. koff b (he_key e)" "\<lambda>st. HEAP_TOP (fst st)" hp_pop hp_push "push_ok b" for b :: u64
proof (unfold_locales, goal_cases)
  case (1 st)
  show ?case by (rule heap_inv_empty_iff)
next
  case (2 st e)
  obtain h pos where st: "st = (h, pos)" by (metis surj_pair)
  from 2(2) obtain i where "i < h_elements h" "e = h_p h i"
    by (auto simp: st heap_entries_def)
  with HEAP_TOP_min [of b h pos i] 2(1) show ?case by (simp add: st hkey_def)
next
  case (3 st)
  obtain h pos where st: "st = (h, pos)" by (metis surj_pair)
  have n: "0 < h_elements h" using 3(2) heap_inv_empty_iff by (auto simp: st)
  from extract_at_spec [OF 3(1) [unfolded st] n]
  obtain h' pos' where "extract_at (h, pos) 0 = Some (h', pos')" "heap_inv b (h', pos')"
    "heap_entries h = add_mset (h_p h 0) (heap_entries h')" by metis
  then show ?case using heap_extract_top [OF n] by (simp add: st hp_pop_def HEAP_TOP_def)
next
  case (4 st e)
  obtain h pos where st: "st = (h, pos)" by (metis surj_pair)
  obtain h' pos' where i: "heap_insert True (h, pos) (he_key e) (Some (he_object e)) = Some (h', pos')"
    using heap_insert_ok [of h pos] by (metis not_None_eq surj_pair)
  have "heap_inv b (h', pos') \<and> heap_entries h' = add_mset e (heap_entries h)"
    using heap_insert_spec [OF 4(1) [unfolded st] _ _ _ i] 4(2) by (simp add: st push_ok_def)
  with i show ?case by (simp add: st hp_push_def)
qed

section \<open>Properties\<close>

text \<open>C25: \<open>heap_insert\<close> of a new object with a key in the window keeps the heap order, the array
  bounds, the distinctness and the index fields, adds exactly the new entry to the heap, and
  touches no index field outside the heap; it can fail only when the allocation does.\<close>

theorem heap_insert_correct:
  assumes "heap_inv b (h, pos)" "obj \<notin> heap_objects h" "in_window b k" "h_elements h < 2 ^ 31 - 16"
  shows "case heap_insert mok (h, pos) k (Some obj) of
      None \<Rightarrow> \<not> mok \<and> h_elements h = h_size h
    | Some (h', pos') \<Rightarrow> heap_inv b (h', pos') \<and>
        heap_entries h' = add_mset \<lparr>he_key = k, he_object = obj\<rparr> (heap_entries h) \<and>
        (\<forall>x. x \<noteq> obj \<longrightarrow> x \<notin> heap_objects h \<longrightarrow> pos' x = pos x)"
proof (cases "heap_insert mok (h, pos) k (Some obj)")
  case None
  then have "\<not> mok \<and> h_elements h = h_size h"
    by (auto simp: heap_insert_None_iff heap_resize_def split: if_splits)
  with None show ?thesis by simp
next
  case (Some st)
  obtain h' pos' where st: "st = (h', pos')" by (metis surj_pair)
  show ?thesis
    using heap_insert_spec [OF assms(1) _ assms(3,4) Some [unfolded st]] assms(2) Some st by simp
qed

definition heap0 :: "nat dn_heap" where
  "heap0 = \<lparr>h_size = 0, h_elements = 0, h_ofs = 8, h_p = (\<lambda>_. \<lparr>he_key = 0, he_object = 0\<rparr>)\<rparr>"

lemma heap0_inv: "heap_inv b (heap0, pos)"
  by (simp add: heap0_def heap_inv_def keys_in_window_def heap_ordered_def objects_distinct_def index_ok_def)

theorem heap_insert_correct_witness:
  "case heap_insert True (heap0, \<lambda>_. -1) 7 (Some 3) of
      None \<Rightarrow> \<not> True \<and> h_elements heap0 = h_size heap0
    | Some (h', pos') \<Rightarrow> heap_inv 0 (h', pos') \<and>
        heap_entries h' = add_mset \<lparr>he_key = 7, he_object = 3\<rparr> (heap_entries heap0) \<and>
        (\<forall>x. x \<noteq> 3 \<longrightarrow> x \<notin> heap_objects heap0 \<longrightarrow> pos' x = -1)"
  by (rule heap_insert_correct) (simp_all add: heap0_inv, simp_all add: heap0_def heap_objects_def in_window_def koff_def)

definition heap2 :: "nat hst" where
  "heap2 = the (Option.bind (heap_insert True (heap0, \<lambda>_. -1) 7 (Some 3))
      (\<lambda>st. heap_insert True st 5 (Some 4)))"

lemma heap2_val: "heap2 = (\<lparr>h_size = 31, h_elements = 2, h_ofs = 8,
    h_p = ((\<lambda>_. \<lparr>he_key = 0, he_object = 0\<rparr>)(0 := \<lparr>he_key = 7, he_object = 3\<rparr>,
      1 := \<lparr>he_key = 5, he_object = 4\<rparr>))(1 := \<lparr>he_key = 7, he_object = 3\<rparr>, 0 := \<lparr>he_key = 5, he_object = 4\<rparr>)\<rparr>,
    ((\<lambda>_. -1)(3 := 0))(3 := 1, 4 := 0))"
  by (simp add: heap2_def heap_insert_def heap0_def heap_resize_def ones_below_def bubble_up.simps
      HEAP_FATHER_def SET_OFFSET_def DN_KEY_LT_def Let_def fun_eq_iff)

lemma heap2_inv: "heap_inv 0 heap2"
  by (simp add: heap2_val heap_inv_def keys_in_window_def heap_ordered_def objects_distinct_def
      index_ok_def in_window_def koff_def hkey_def HEAP_FATHER_def less_two interval_two
      inj_on_def)

text \<open>C10: \<open>heap_extract\<close> of the top (no object given) succeeds on a non-empty heap, the
  entry it removes has a least key, nothing else is removed, and the invariant holds again.\<close>

theorem heap_extract_top_correct:
  assumes "heap_inv b (h, pos)" "0 < h_elements h"
  shows "\<exists>h' pos'. heap_extract (h, pos) None = Some (h', pos') \<and> heap_inv b (h', pos') \<and>
    heap_entries h = add_mset (HEAP_TOP h) (heap_entries h') \<and>
    (\<forall>e\<in>#heap_entries h. DN_KEY_LEQ (he_key (HEAP_TOP h)) (he_key e))"
proof -
  obtain h' pos' where e: "extract_at (h, pos) 0 = Some (h', pos')" "heap_inv b (h', pos')"
    "heap_entries h = add_mset (h_p h 0) (heap_entries h')"
    using extract_at_spec [OF assms] by metis
  have "DN_KEY_LEQ (he_key (HEAP_TOP h)) (he_key x)" if x: "x \<in># heap_entries h" for x
    using heap_top_least [OF assms x] by simp
  with e heap_extract_top [OF assms(2)] show ?thesis by (auto simp: HEAP_TOP_def)
qed

theorem heap_extract_top_correct_witness:
  "\<exists>h' pos'. heap_extract (fst heap2, snd heap2) None = Some (h', pos') \<and> heap_inv 0 (h', pos') \<and>
    heap_entries (fst heap2) = add_mset (HEAP_TOP (fst heap2)) (heap_entries h') \<and>
    (\<forall>e\<in>#heap_entries (fst heap2). DN_KEY_LEQ (he_key (HEAP_TOP (fst heap2))) (he_key e))"
  by (rule heap_extract_top_correct) (simp_all add: heap2_inv, simp add: heap2_val)

text \<open>C26: \<open>heap_extract\<close> of an object that is in the heap, through the index it stores,
  removes exactly the entry of that object, wherever it is, and keeps the invariant.\<close>

theorem heap_extract_middle_correct:
  assumes "heap_inv b (h, pos)" "0 < h_ofs h" "obj \<in> heap_objects h"
  shows "\<exists>h' pos' k. heap_extract (h, pos) (Some obj) = Some (h', pos') \<and> heap_inv b (h', pos') \<and>
    heap_entries h = add_mset \<lparr>he_key = k, he_object = obj\<rparr> (heap_entries h') \<and>
    obj \<notin> heap_objects h'"
proof -
  obtain i where i: "i < h_elements h" "he_object (h_p h i) = obj"
    using assms(3) by (auto simp: heap_objects_def)
  have p: "pos obj = int i"
    using assms(1,2) i by (auto simp: heap_inv_def index_ok_def)
  obtain h' pos' where e: "extract_at (h, pos) i = Some (h', pos')" "heap_inv b (h', pos')"
    "heap_entries h = add_mset (h_p h i) (heap_entries h')"
    using extract_at_spec [OF assms(1) i(1)] by metis
  have m: "mset (map (\<lambda>i. he_object (h_p h i)) [0..<h_elements h]) = image_mset he_object (heap_entries h)"
    by (simp add: heap_entries_def image_mset.compositionality comp_def)
  have "distinct (map (\<lambda>i. he_object (h_p h i)) [0..<h_elements h])"
    using assms(1,2) by (simp add: heap_inv_def objects_distinct_mset)
  then have "count (image_mset he_object (heap_entries h)) obj \<le> 1"
    unfolding m [symmetric] by (simp add: distinct_count_atmost_1)
  then have "obj \<notin> heap_objects h'"
    using e(3) i(2) by (simp add: heap_objects_entries flip: set_image_mset not_in_iff)
  moreover have "h_p h i = \<lparr>he_key = he_key (h_p h i), he_object = obj\<rparr>" using i(2) by simp
  moreover have "heap_extract (h, pos) (Some obj) = Some (h', pos')"
    using heap_extract_obj [of h pos obj i] i p assms(2) e(1) by simp
  ultimately show ?thesis using e(2,3) by metis
qed

theorem heap_extract_middle_correct_witness:
  "\<exists>h' pos' k. heap_extract (fst heap2, snd heap2) (Some 3) = Some (h', pos') \<and> heap_inv 0 (h', pos') \<and>
    heap_entries (fst heap2) = add_mset \<lparr>he_key = k, he_object = 3\<rparr> (heap_entries h') \<and>
    3 \<notin> heap_objects h'"
  by (rule heap_extract_middle_correct)
     (simp_all add: heap2_inv, simp_all add: heap2_val heap_objects_def interval_two)

text \<open>Extracting from the heap until it is empty yields all its entries in order of their
  keys: the heap sorts.\<close>

theorem heap_drain_sorted:
  assumes "heap_inv b st" "h_elements (fst st) \<le> n"
    "drain (\<lambda>st. 0 < h_elements (fst st)) (\<lambda>st. HEAP_TOP (fst st)) hp_pop (\<lambda>_. True) n st = (es, st')"
  shows "mset es = heap_entries (fst st) \<and> sorted (map (\<lambda>e. koff b (he_key e)) es) \<and> h_elements (fst st') = 0"
proof -
  have "size (heap_entries (fst st)) \<le> n" using assms(2) by (simp add: heap_entries_def)
  from dnh.drain_complete [OF assms(1) this _ assms(3)]
  have d: "heap_inv b st'" "heap_entries (fst st) = mset es + heap_entries (fst st')"
    "\<forall>e\<in>#heap_entries (fst st'). \<not> True" "sorted (map (\<lambda>e. koff b (he_key e)) es)" by auto
  then have "heap_entries (fst st') = {#}" by auto
  with d heap_inv_empty_iff [of "fst st'"] show ?thesis by simp
qed

theorem heap_drain_sorted_witness:
  "\<exists>es st'. drain (\<lambda>st. 0 < h_elements (fst st)) (\<lambda>st. HEAP_TOP (fst st)) hp_pop (\<lambda>_. True) 2 heap2 = (es, st') \<and>
     mset es = heap_entries (fst heap2) \<and> sorted (map (\<lambda>e. koff 0 (he_key e)) es) \<and> h_elements (fst st') = 0"
proof -
  obtain es st' where d: "drain (\<lambda>st. 0 < h_elements (fst st)) (\<lambda>st. HEAP_TOP (fst st)) hp_pop (\<lambda>_. True) 2 heap2 = (es, st')"
    by (metis surj_pair)
  have "h_elements (fst heap2) \<le> 2" by (simp add: heap2_val)
  from heap_drain_sorted [OF heap2_inv this d] d show ?thesis by blast
qed

text \<open>\<open>heap_scan\<close> with any callback removes as many entries as it returns, adds none,
  and leaves a well-formed heap: \<open>heapify\<close> repairs whatever order the removals left.\<close>

theorem heap_scan_correct:
  assumes "heap_inv b (h, pos)" "heap_scan fn (h, pos) s = ((h', pos'), found, s')"
  shows "heap_inv b (h', pos') \<and> heap_entries h' \<subseteq># heap_entries h \<and> h_elements h' + found = h_elements h"
  using heap_scan_spec [OF assms] by simp

theorem heap_scan_correct_witness:
  "\<exists>h' pos' found s'. heap_scan (\<lambda>obj s. (if obj = 4 then 1 else 0, s + 1)) (fst heap2, snd heap2) (0::nat) = ((h', pos'), found, s') \<and>
     heap_inv 0 (h', pos') \<and> heap_entries h' \<subseteq># heap_entries (fst heap2) \<and> h_elements h' + found = h_elements (fst heap2)"
proof -
  obtain h' pos' found s' where r: "heap_scan (\<lambda>obj s. (if obj = 4 then 1 else 0, s + 1)) (fst heap2, snd heap2) (0::nat) = ((h', pos'), found, s')"
    by (metis surj_pair)
  have "heap_inv 0 (fst heap2, snd heap2)" by (simp add: heap2_inv)
  from heap_scan_correct [OF this r] r show ?thesis by blast
qed

end
