(* ===== verification/DnHash.thy ===== *)
theory DnHash
  imports Prelude
begin

text \<open>
  The hash table of \<open>sys/netinet/ipfw/dn_heap.c\<close>: buckets are circular lists threaded
  through a link field of the objects, each bucket pointer being the tail of its list. The
  links are a map, so every pointer assignment of the C code is a map update; the loops may
  diverge on ill-formed lists, so their result is an option. \<open>'o\<close> are object addresses,
  \<open>'k\<close> the keys (\<open>uintptr_t\<close>), \<open>'s\<close> the memory the callbacks read and write.
\<close>

section \<open>Data\<close>

definition DNHT_SCAN_DEL :: nat where "DNHT_SCAN_DEL = 1"
definition DNHT_SCAN_END :: nat where "DNHT_SCAN_END = 2"
definition DNHT_KEY_IS_OBJ :: nat where "DNHT_KEY_IS_OBJ = 4"
definition DNHT_MATCH_PTR :: nat where "DNHT_MATCH_PTR = 8"
definition DNHT_INSERT :: nat where "DNHT_INSERT = 16"
definition DNHT_UNIQUE :: nat where "DNHT_UNIQUE = 32"
definition DNHT_REMOVE :: nat where "DNHT_REMOVE = 64"

lemmas DNHT_flags = DNHT_SCAN_DEL_def DNHT_SCAN_END_def DNHT_KEY_IS_OBJ_def DNHT_MATCH_PTR_def
  DNHT_INSERT_def DNHT_UNIQUE_def DNHT_REMOVE_def

record ('o, 'k, 's) dn_ht =
  ht_buckets :: nat
  ht_entries :: int
  ht_hash :: "'k \<Rightarrow> nat \<Rightarrow> 's \<Rightarrow> u32"
  ht_match :: "'o \<Rightarrow> 'k \<Rightarrow> nat \<Rightarrow> 's \<Rightarrow> bool"
  ht_newh :: "('k \<Rightarrow> nat \<Rightarrow> 's \<Rightarrow> 'o option \<times> 's) option"
  ht_ht :: "nat \<Rightarrow> 'o option"
  ht_next :: "'o \<Rightarrow> 'o"

section \<open>Creation\<close>

text \<open>
  The number of buckets (minus one, to be used as a mask): the nearest power of two, the
  greater one when the request exceeds 4/3 of the lower mask.
\<close>

definition round_buckets :: "u32 \<Rightarrow> u32" where
  "round_buckets b =
     (let b_max = ones_below b; b_min = drop_bit 1 b_max
      in if unat b_min * 4000 div 3000 < unat b then b_max else b_min)"

text \<open>
  \<open>dn_ht_init\<close>: an old record with enough buckets is recycled as it is (its entries and
  bucket pointers are not cleared), otherwise a zeroed one is allocated (\<open>mok\<close> says
  whether that works); \<open>None\<close> is the NULL result. The hash and match callbacks cannot
  be NULL in the model, so that check has no branch here.
\<close>

definition dn_ht_init ::
  "bool \<Rightarrow> ('o, 'k, 's) dn_ht option \<Rightarrow> int \<Rightarrow> ('k \<Rightarrow> nat \<Rightarrow> 's \<Rightarrow> u32) \<Rightarrow>
   ('o \<Rightarrow> 'k \<Rightarrow> nat \<Rightarrow> 's \<Rightarrow> bool) \<Rightarrow> ('k \<Rightarrow> nat \<Rightarrow> 's \<Rightarrow> 'o option \<times> 's) option \<Rightarrow>
   ('o \<Rightarrow> 'o) \<Rightarrow> ('o, 'k, 's) dn_ht option" where
  "dn_ht_init mok old buckets h match newh links =
     (if buckets < 1 \<or> 65536 < buckets then None
      else
        let n = unat (round_buckets (word_of_int buckets));
            reuse = (case old of None \<Rightarrow> None | Some t \<Rightarrow> if n \<le> ht_buckets t then Some t else None)
        in case reuse of
             Some t \<Rightarrow> Some (t\<lparr>ht_buckets := n, ht_hash := h, ht_match := match, ht_newh := newh\<rparr>)
           | None \<Rightarrow>
               if mok then
                 Some \<lparr>ht_buckets = n, ht_entries = 0, ht_hash = h, ht_match = match,
                       ht_newh = newh, ht_ht = (\<lambda>_. None), ht_next = links\<rparr>
               else None)"

definition dn_ht_entries :: "('o, 'k, 's) dn_ht option \<Rightarrow> int" where
  "dn_ht_entries ht = (case ht of None \<Rightarrow> 0 | Some t \<Rightarrow> ht_entries t)"

section \<open>Scanning\<close>

text \<open>
  The do-while loop of \<open>dn_ht_scan_body\<close> on bucket \<open>i\<close> with the original tail. It
  returns the table, the count of removed elements, the callback's state and whether the
  callback asked to end the scan (in which case the bucket number is not advanced).
\<close>

partial_function (option) scan_body_loop ::
  "('o \<Rightarrow> 's \<Rightarrow> nat \<times> 's) \<Rightarrow> nat \<Rightarrow> 'o \<Rightarrow> 'o \<Rightarrow> ('o, 'k, 't) dn_ht \<Rightarrow> nat \<Rightarrow> 's \<Rightarrow>
   (('o, 'k, 't) dn_ht \<times> nat \<times> 's \<times> bool) option" where
  "scan_body_loop fn i tail pp ht found s =
     (let p = ht_next ht pp;
          nextp = ht_next ht p;
          (ret, s') = fn p s;
          del = (ret AND DNHT_SCAN_DEL \<noteq> 0);
          pp' = (if del then pp else p);
          found' = (if del then found + 1 else found);
          ht1 = (if del then ht\<lparr>ht_entries := ht_entries ht - 1\<rparr> else ht);
          ht2 = (if del \<and> pp \<noteq> p then ht1\<lparr>ht_next := (ht_next ht1)(pp := nextp)\<rparr> else ht1);
          ht3 = (if del \<and> p = tail
                 then ht2\<lparr>ht_ht := (ht_ht ht2)(i := if pp \<noteq> p then Some pp else None)\<rparr> else ht2)
      in if ret AND DNHT_SCAN_END \<noteq> 0 then
           Some (ht3\<lparr>ht_ht := (ht_ht ht3)(i := if ht_ht ht3 i = None then None else Some pp')\<rparr>,
                 found', s', True)
         else if p \<noteq> tail then scan_body_loop fn i tail pp' ht3 found' s'
         else Some (ht3, found', s', False))"

text \<open>\<open>dn_ht_scan_body\<close>, for a non-empty bucket; also returns the new bucket number.\<close>

definition dn_ht_scan_body ::
  "('o, 'k, 't) dn_ht \<Rightarrow> nat \<Rightarrow> ('o \<Rightarrow> 's \<Rightarrow> nat \<times> 's) \<Rightarrow> 's \<Rightarrow>
   (('o, 'k, 't) dn_ht \<times> nat \<times> nat \<times> 's) option" where
  "dn_ht_scan_body ht bucket fn s =
     (case ht_ht ht bucket of
        None \<Rightarrow> None
      | Some tail \<Rightarrow>
          (case scan_body_loop fn bucket tail tail ht 0 s of
             None \<Rightarrow> None
           | Some (ht', found, s', ended) \<Rightarrow>
               Some (ht', (if ended then bucket else bucket + 1), found, s')))"

text \<open>\<open>dn_ht_scan\<close>: all the buckets, with an early exit when one did not advance.\<close>

fun scan_buckets ::
  "nat list \<Rightarrow> ('o, 'k, 't) dn_ht \<Rightarrow> ('o \<Rightarrow> 's \<Rightarrow> nat \<times> 's) \<Rightarrow> nat \<Rightarrow> 's \<Rightarrow>
   (('o, 'k, 't) dn_ht \<times> nat \<times> 's) option" where
  "scan_buckets [] ht fn found s = Some (ht, found, s)"
| "scan_buckets (i # is) ht fn found s =
     (if ht_ht ht i = None then scan_buckets is ht fn found s
      else case dn_ht_scan_body ht i fn s of
             None \<Rightarrow> None
           | Some (ht', bucket, n, s') \<Rightarrow>
               if bucket = i then Some (ht', found + n, s')
               else scan_buckets is ht' fn (found + n) s')"

definition dn_ht_scan ::
  "('o, 'k, 't) dn_ht \<Rightarrow> ('o \<Rightarrow> 's \<Rightarrow> nat \<times> 's) \<Rightarrow> 's \<Rightarrow>
   (('o, 'k, 't) dn_ht \<times> nat \<times> 's) option" where
  "dn_ht_scan ht fn s = scan_buckets [0..<ht_buckets ht + 1] ht fn 0 s"

text \<open>\<open>dn_ht_scan_bucket\<close>: one bucket; an invalid number means bucket 0.\<close>

definition dn_ht_scan_bucket ::
  "('o, 'k, 't) dn_ht \<Rightarrow> int \<Rightarrow> ('o \<Rightarrow> 's \<Rightarrow> nat \<times> 's) \<Rightarrow> 's \<Rightarrow>
   (('o, 'k, 't) dn_ht \<times> nat \<times> nat \<times> 's) option" where
  "dn_ht_scan_bucket ht bucket fn s =
     (let b = (if int (ht_buckets ht) < bucket \<or> bucket < 0 then 0 else nat bucket)
      in if ht_ht ht b = None then Some (ht, b + 1, 0, s)
         else dn_ht_scan_body ht b fn s)"

text \<open>
  \<open>dn_ht_free\<close> with \<open>DNHT_REMOVE\<close> unlinks every element; without it the table is
  released (the result is then no table).
\<close>

definition do_del :: "'o \<Rightarrow> unit \<Rightarrow> nat \<times> unit" where
  "do_del obj arg = (DNHT_SCAN_DEL, ())"

definition dn_ht_free :: "('o, 'k, 't) dn_ht option \<Rightarrow> nat \<Rightarrow> ('o, 'k, 't) dn_ht option option" where
  "dn_ht_free ht flags =
     (case ht of
        None \<Rightarrow> Some None
      | Some t \<Rightarrow>
          if flags AND DNHT_REMOVE \<noteq> 0
          then map_option (\<lambda>(t', _, _). Some t') (dn_ht_scan t do_del ())
          else Some None)"

section \<open>Lookup, insertion and removal\<close>

text \<open>The lookup loop: \<open>Some (pp, p)\<close> inside for a match \<open>p\<close> after \<open>pp\<close>.\<close>

partial_function (option) find_loop ::
  "('o \<Rightarrow> bool) \<Rightarrow> ('o \<Rightarrow> 'o) \<Rightarrow> 'o \<Rightarrow> 'o \<Rightarrow> ('o \<times> 'o) option option" where
  "find_loop found nxt tail pp =
     (let p = nxt pp
      in if found p then Some (Some (pp, p))
         else if p \<noteq> tail then find_loop found nxt tail p
         else Some None)"

definition ht_bucket :: "('o, 'k, 's) dn_ht \<Rightarrow> 'k \<Rightarrow> nat \<Rightarrow> 's \<Rightarrow> nat" where
  "ht_bucket ht key flags s =
     (if ht_buckets ht = 1 then 0
      else unat (ht_hash ht key flags s AND word_of_nat (ht_buckets ht)))"

definition ht_found :: "('k \<Rightarrow> 'o) \<Rightarrow> ('o, 'k, 's) dn_ht \<Rightarrow> 'k \<Rightarrow> nat \<Rightarrow> 's \<Rightarrow> 'o \<Rightarrow> bool" where
  "ht_found cast ht key flags s p =
     (if flags AND DNHT_MATCH_PTR \<noteq> 0 then cast key = p else ht_match ht p key flags s)"

definition ht_unlink :: "('o, 'k, 's) dn_ht \<Rightarrow> nat \<Rightarrow> 'o \<Rightarrow> 'o \<Rightarrow> 'o \<Rightarrow> ('o, 'k, 's) dn_ht" where
  "ht_unlink ht i tail pp p =
     (let ht1 = ht\<lparr>ht_entries := ht_entries ht - 1\<rparr>;
          ht2 = (if p \<noteq> pp then ht1\<lparr>ht_next := (ht_next ht1)(pp := ht_next ht1 p)\<rparr> else ht1)
      in if p = tail then ht2\<lparr>ht_ht := (ht_ht ht2)(i := if pp \<noteq> p then Some pp else None)\<rparr> else ht2)"

definition ht_link :: "('o, 'k, 's) dn_ht \<Rightarrow> nat \<Rightarrow> 'o \<Rightarrow> ('o, 'k, 's) dn_ht" where
  "ht_link ht i p =
     (let ht1 = ht\<lparr>ht_entries := ht_entries ht + 1\<rparr>
      in case ht_ht ht i of
           None \<Rightarrow> ht1\<lparr>ht_next := (ht_next ht1)(p := p), ht_ht := (ht_ht ht1)(i := Some p)\<rparr>
         | Some tail \<Rightarrow>
             let nxt = (ht_next ht1)(p := ht_next ht1 tail)
             in ht1\<lparr>ht_next := nxt(tail := p)\<rparr>)"

text \<open>
  \<open>dn_ht_find\<close> on a table: the found (or new) object, the table and the memory after the
  callbacks. \<open>cast\<close> is the C cast from a key to an object address. A null table, in which nothing is found, is
  the case \<open>None\<close> of the tables of the callers (\<open>fshash\<close>, \<open>schedhash\<close>, \<open>NoObj\<close>).
\<close>

definition dn_ht_find ::
  "('k \<Rightarrow> 'o) \<Rightarrow> ('o, 'k, 's) dn_ht \<Rightarrow> 'k \<Rightarrow> nat \<Rightarrow> 's \<Rightarrow>
   ('o option \<times> ('o, 'k, 's) dn_ht \<times> 's) option" where
  "dn_ht_find cast ht key flags s =
     (let i = ht_bucket ht key flags s;
          look = (case ht_ht ht i of
                    None \<Rightarrow> Some None
                  | Some tail \<Rightarrow> find_loop (ht_found cast ht key flags s) (ht_next ht) tail tail)
      in case look of
           None \<Rightarrow> None
         | Some (Some (pp, p)) \<Rightarrow>
             Some (Some p,
                   (if flags AND DNHT_REMOVE \<noteq> 0 then ht_unlink ht i (the (ht_ht ht i)) pp p else ht),
                   s)
         | Some None \<Rightarrow>
             if flags AND DNHT_INSERT = 0 then Some (None, ht, s)
             else
               let (p, s') = (case ht_newh ht of
                                None \<Rightarrow> (Some (cast key), s)
                              | Some newh \<Rightarrow> newh key flags s)
               in case p of
                    None \<Rightarrow> Some (None, ht, s')
                  | Some q \<Rightarrow> Some (Some q, ht_link ht i q, s'))"

section \<open>Buckets as lists\<close>

definition bucket_rep :: "('o, 'k, 's) dn_ht \<Rightarrow> nat \<Rightarrow> 'o list \<Rightarrow> bool" where
  "bucket_rep ht i xs \<longleftrightarrow>
     (case ht_ht ht i of None \<Rightarrow> xs = [] | Some t \<Rightarrow> circ (ht_next ht) t xs)"

text \<open>A whole table: one list per bucket, no object in two buckets, an exact count.\<close>

definition ht_rep :: "('o, 'k, 's) dn_ht \<Rightarrow> (nat \<Rightarrow> 'o list) \<Rightarrow> bool" where
  "ht_rep ht L \<longleftrightarrow> (\<forall>i\<le>ht_buckets ht. bucket_rep ht i (L i)) \<and>
     (\<forall>i\<le>ht_buckets ht. \<forall>j\<le>ht_buckets ht. i \<noteq> j \<longrightarrow> set (L i) \<inter> set (L j) = {}) \<and>
     ht_entries ht = (\<Sum>i\<le>ht_buckets ht. int (length (L i)))"

lemma bucket_rep_distinct: "bucket_rep ht i xs \<Longrightarrow> distinct xs"
  by (auto simp: bucket_rep_def circ_def split: option.splits)

lemma bucket_rep_Some:
  "ht_ht ht i = Some t \<Longrightarrow> bucket_rep ht i xs \<longleftrightarrow> circ (ht_next ht) t xs"
  by (simp add: bucket_rep_def)

lemma bucket_rep_frame:
  assumes "ht_ht ht' j = ht_ht ht j" "\<And>x. x \<in> set ys \<Longrightarrow> ht_next ht' x = ht_next ht x"
  shows "bucket_rep ht' j ys \<longleftrightarrow> bucket_rep ht j ys"
proof -
  have "chain (ht_next ht') a zs = chain (ht_next ht) a zs" if "set (butlast (a # zs)) \<subseteq> set ys" for a zs
    using that
  proof (induction zs arbitrary: a)
    case (Cons z zs)
    have "a \<in> set ys" using Cons.prems by auto
    then have "ht_next ht' a = ht_next ht a" by (rule assms(2))
    moreover have "set (butlast (z # zs)) \<subseteq> set ys" using Cons.prems by (auto split: if_splits)
    ultimately show ?case using Cons.IH by auto
  qed simp
  moreover have "set (butlast (last ys # ys)) \<subseteq> set ys" if "ys \<noteq> []"
    using that by (auto dest: in_set_butlastD)
  ultimately show ?thesis
    by (auto simp: bucket_rep_def circ_def assms(1) split: option.splits)
qed

text \<open>What unlinking and linking do to the bucket's list and to the rest of the table.\<close>

lemma ht_unlink_rep:
  assumes b: "bucket_rep ht i (ys @ p # zs)" and t: "ht_ht ht i = Some t" and pp: "pp = last (t # ys)"
    and u: "ht' = ht_unlink ht i t pp p"
  shows "bucket_rep ht' i (ys @ zs)" "ht_entries ht' = ht_entries ht - 1"
    "\<And>j. j \<noteq> i \<Longrightarrow> ht_ht ht' j = ht_ht ht j"
    "\<And>x. x \<notin> set (ys @ p # zs) \<Longrightarrow> ht_next ht' x = ht_next ht x"
    "ht_buckets ht' = ht_buckets ht" "ht_hash ht' = ht_hash ht" "ht_match ht' = ht_match ht"
    "ht_newh ht' = ht_newh ht"
    "ht_ht ht' i = (if p = t then if ys @ zs = [] then None else Some pp else Some t)"
proof -
  have c: "circ (ht_next ht) t (ys @ p # zs)" using b t by (simp add: bucket_rep_def)
  have tin: "t \<in> set (ys @ p # zs)" using c last_in_set [of "ys @ p # zs"] by (simp add: circ_def)
  have ppin: "pp \<in> set (ys @ p # zs)" using tin pp by (cases "ys = []") auto
  have single: "ys @ zs = [] \<Longrightarrow> pp = p \<and> p = t"
    using c pp by (auto simp: circ_def)
  show "bucket_rep ht' i (ys @ zs)"
  proof (cases "ys @ zs = []")
    case True
    with single show ?thesis by (simp add: u ht_unlink_def bucket_rep_def)
  next
    case False
    from circ_unlink [OF c pp this] t show ?thesis
      by (auto simp: u ht_unlink_def bucket_rep_def Let_def)
  qed
  show "ht_ht ht' i = (if p = t then if ys @ zs = [] then None else Some pp else Some t)"
    using circ_unlink(1) [OF c pp] single t by (auto simp: u ht_unlink_def Let_def)
  show "ht_entries ht' = ht_entries ht - 1" "\<And>j. j \<noteq> i \<Longrightarrow> ht_ht ht' j = ht_ht ht j"
    "\<And>x. x \<notin> set (ys @ p # zs) \<Longrightarrow> ht_next ht' x = ht_next ht x"
    "ht_buckets ht' = ht_buckets ht" "ht_hash ht' = ht_hash ht" "ht_match ht' = ht_match ht"
    "ht_newh ht' = ht_newh ht"
    using ppin by (auto simp: u ht_unlink_def Let_def)
qed

lemma ht_link_rep:
  assumes b: "bucket_rep ht i xs" and q: "q \<notin> set xs" and l: "ht' = ht_link ht i q"
  shows "bucket_rep ht' i (q # xs)" "ht_entries ht' = ht_entries ht + 1"
    "\<And>j. j \<noteq> i \<Longrightarrow> ht_ht ht' j = ht_ht ht j"
    "\<And>x. x \<notin> set (q # xs) \<Longrightarrow> ht_next ht' x = ht_next ht x"
    "ht_buckets ht' = ht_buckets ht" "ht_hash ht' = ht_hash ht" "ht_match ht' = ht_match ht"
    "ht_newh ht' = ht_newh ht"
proof -
  show "bucket_rep ht' i (q # xs)"
  proof (cases "ht_ht ht i")
    case None
    with b show ?thesis by (simp add: l ht_link_def bucket_rep_def circ_def)
  next
    case (Some t)
    with b have "circ (ht_next ht) t xs" by (simp add: bucket_rep_def)
    from circ_link [OF this q] Some show ?thesis by (simp add: l ht_link_def bucket_rep_def)
  qed
  have "t \<in> set xs" if "ht_ht ht i = Some t" for t
    using b that last_in_set [of xs] by (auto simp: bucket_rep_def circ_def)
  then show "\<And>x. x \<notin> set (q # xs) \<Longrightarrow> ht_next ht' x = ht_next ht x"
    by (auto simp: l ht_link_def Let_def split: option.splits)
  show "ht_entries ht' = ht_entries ht + 1" "\<And>j. j \<noteq> i \<Longrightarrow> ht_ht ht' j = ht_ht ht j"
    "ht_buckets ht' = ht_buckets ht" "ht_hash ht' = ht_hash ht" "ht_match ht' = ht_match ht"
    "ht_newh ht' = ht_newh ht"
    by (auto simp: l ht_link_def Let_def split: option.splits)
qed

text \<open>Replacing one bucket's list in a represented table.\<close>

lemma ht_rep_update:
  assumes rep: "ht_rep ht L" and i: "i \<le> ht_buckets ht" and b: "bucket_rep ht' i ys"
    and nb: "ht_buckets ht' = ht_buckets ht"
    and hd: "\<And>j. j \<noteq> i \<Longrightarrow> ht_ht ht' j = ht_ht ht j"
    and nx: "\<And>x. x \<notin> set (L i) \<union> set ys \<Longrightarrow> ht_next ht' x = ht_next ht x"
    and fresh: "\<And>x j. x \<in> set ys \<Longrightarrow> x \<notin> set (L i) \<Longrightarrow> j \<le> ht_buckets ht \<Longrightarrow> x \<notin> set (L j)"
    and cnt: "ht_entries ht' = ht_entries ht + int (length ys) - int (length (L i))"
  shows "ht_rep ht' (L(i := ys))"
  unfolding ht_rep_def nb
proof (intro conjI allI impI)
  have dj: "set (L j) \<inter> set (L k) = {}" if "j \<le> ht_buckets ht" "k \<le> ht_buckets ht" "j \<noteq> k" for j k
    using rep that by (simp add: ht_rep_def)
  have dy: "set (L j) \<inter> set ys = {}" if "j \<le> ht_buckets ht" "j \<noteq> i" for j
    using dj [OF that(1) i that(2)] fresh that(1) by blast
  fix j assume j: "j \<le> ht_buckets ht"
  show "bucket_rep ht' j ((L(i := ys)) j)"
  proof (cases "j = i")
    case False
    have "bucket_rep ht' j (L j) \<longleftrightarrow> bucket_rep ht j (L j)"
      using hd [OF False] nx dj [OF j i False] dy [OF j False] by (intro bucket_rep_frame) blast+
    then show ?thesis using rep j False by (simp add: ht_rep_def)
  qed (simp add: b)
  fix k assume "k \<le> ht_buckets ht" "j \<noteq> k"
  then show "set ((L(i := ys)) j) \<inter> set ((L(i := ys)) k) = {}"
    using j dj [of j k] dy [of j] dy [of k] by auto
next
  have "(\<Sum>j\<le>ht_buckets ht. int (length ((L(i := ys)) j))) =
      int (length ys) + (\<Sum>j\<in>{..ht_buckets ht} - {i}. int (length (L j)))"
    using i by (subst sum.remove [of _ i]) (auto intro!: sum.cong)
  moreover have "(\<Sum>j\<le>ht_buckets ht. int (length (L j))) =
      int (length (L i)) + (\<Sum>j\<in>{..ht_buckets ht} - {i}. int (length (L j)))"
    using i by (subst sum.remove [of _ i]) auto
  ultimately show "ht_entries ht' = (\<Sum>j\<le>ht_buckets ht. int (length ((L(i := ys)) j)))"
    using rep cnt by (simp add: ht_rep_def)
qed

section \<open>Lookup on the represented lists\<close>

fun find_in :: "('o \<Rightarrow> bool) \<Rightarrow> 'o \<Rightarrow> 'o list \<Rightarrow> ('o \<times> 'o) option" where
  "find_in found pp [] = None"
| "find_in found pp (p # xs) = (if found p then Some (pp, p) else find_in found p xs)"

lemma find_loop_chain:
  assumes "chain nxt pp xs" "xs \<noteq> []" "last xs = tail" "distinct xs"
  shows "find_loop found nxt tail pp = Some (find_in found pp xs)"
  using assms
proof (induction xs arbitrary: pp)
  case (Cons x xs)
  show ?case
  proof (cases "xs = []")
    case True
    with Cons.prems show ?thesis by (simp add: find_loop.simps [of found nxt tail pp])
  next
    case False
    then have "x \<noteq> tail" using Cons.prems by auto
    with False Cons show ?thesis by (simp add: find_loop.simps [of found nxt tail pp])
  qed
qed simp

lemma find_in_Some:
  "find_in found pp xs = Some (a, p) \<Longrightarrow>
   \<exists>ys zs. xs = ys @ p # zs \<and> (\<forall>y\<in>set ys. \<not> found y) \<and> found p \<and> a = last (pp # ys)"
proof (induction xs arbitrary: pp)
  case (Cons x xs)
  show ?case
  proof (cases "found x")
    case True
    with Cons.prems show ?thesis by (intro exI [of _ "[]"] exI [of _ xs]) auto
  next
    case False
    with Cons obtain ys zs where "xs = ys @ p # zs" "\<forall>y\<in>set ys. \<not> found y" "found p" "a = last (x # ys)"
      by fastforce
    with False show ?thesis by (intro exI [of _ "x # ys"] exI [of _ zs]) auto
  qed
qed simp

lemma find_in_None_find: "find_in found pp xs = None \<longleftrightarrow> find found xs = None"
  by (induction xs arbitrary: pp) auto

lemma find_split:
  "(\<forall>y\<in>set ys. \<not> found y) \<Longrightarrow> found p \<Longrightarrow> find found (ys @ p # zs) = Some p"
  by (induction ys) auto

text \<open>
  The abstract operation on the list of the key's bucket: the first match, which
  \<open>DNHT_REMOVE\<close> takes out; otherwise, with \<open>DNHT_INSERT\<close>, the new object at the head.
\<close>

definition list_find ::
  "('o \<Rightarrow> bool) \<Rightarrow> nat \<Rightarrow> 'o option \<Rightarrow> 'o list \<Rightarrow> 'o option \<times> 'o list" where
  "list_find found flags new xs =
     (case find found xs of
        Some p \<Rightarrow> (Some p, if flags AND DNHT_REMOVE \<noteq> 0 then remove1 p xs else xs)
      | None \<Rightarrow>
          if flags AND DNHT_INSERT = 0 then (None, xs)
          else case new of None \<Rightarrow> (None, xs) | Some q \<Rightarrow> (Some q, q # xs))"

definition ht_new :: "('k \<Rightarrow> 'o) \<Rightarrow> ('o, 'k, 's) dn_ht \<Rightarrow> 'k \<Rightarrow> nat \<Rightarrow> 's \<Rightarrow> 'o option \<times> 's" where
  "ht_new cast ht key flags s =
     (case ht_newh ht of None \<Rightarrow> (Some (cast key), s) | Some newh \<Rightarrow> newh key flags s)"

text \<open>The bucket number is always inside the table (the mask of the hash).\<close>

lemma ht_bucket_le: "ht_bucket ht key flags s \<le> ht_buckets ht"
proof (cases "ht_buckets ht = 1")
  case False
  have "unat (ht_hash ht key flags s AND word_of_nat (ht_buckets ht)) \<le>
      unat (word_of_nat (ht_buckets ht) :: u32)"
    by (simp add: unsigned_and_eq and_nat_def zle_int [symmetric] AND_upper2)
  also have "\<dots> \<le> ht_buckets ht"
    by (simp add: unsigned_of_nat take_bit_nat_less_eq_self)
  finally show ?thesis by (simp add: ht_bucket_def)
qed (simp add: ht_bucket_def)

lemma ht_look:
  assumes b: "bucket_rep ht i xs"
  shows "(case ht_ht ht i of None \<Rightarrow> Some None
          | Some tail \<Rightarrow> find_loop found (ht_next ht) tail tail) =
         Some (case ht_ht ht i of None \<Rightarrow> None | Some tail \<Rightarrow> find_in found tail xs)"
proof (cases "ht_ht ht i")
  case (Some t)
  with b have "circ (ht_next ht) t xs" by (simp add: bucket_rep_def)
  then show ?thesis using Some by (auto simp: circ_def intro: find_loop_chain)
qed simp

lemma remove1_split: "distinct (ys @ p # zs) \<Longrightarrow> remove1 p (ys @ p # zs) = ys @ zs"
  by (simp add: remove1_append)

definition ht_conf :: "('o, 'k, 's) dn_ht \<Rightarrow> nat \<times> ('k \<Rightarrow> nat \<Rightarrow> 's \<Rightarrow> u32) \<times>
    ('o \<Rightarrow> 'k \<Rightarrow> nat \<Rightarrow> 's \<Rightarrow> bool) \<times> ('k \<Rightarrow> nat \<Rightarrow> 's \<Rightarrow> 'o option \<times> 's) option" where
  "ht_conf ht = (ht_buckets ht, ht_hash ht, ht_match ht, ht_newh ht)"

lemma ht_unlink_table:
  assumes rep: "ht_rep ht L" and i: "i \<le> ht_buckets ht" and L: "L i = ys @ p # zs"
    and t: "ht_ht ht i = Some t" and pp: "pp = last (t # ys)"
  shows "ht_rep (ht_unlink ht i t pp p) (L(i := ys @ zs))"
    "ht_conf (ht_unlink ht i t pp p) = ht_conf ht"
proof -
  have b: "bucket_rep ht i (ys @ p # zs)" using rep i L by (auto simp: ht_rep_def)
  note u = ht_unlink_rep [OF b t pp refl]
  show "ht_rep (ht_unlink ht i t pp p) (L(i := ys @ zs))"
    by (rule ht_rep_update [OF rep i u(1,5,3)]) (auto simp: u(2,4) L)
  show "ht_conf (ht_unlink ht i t pp p) = ht_conf ht"
    using u(5-8) by (simp add: ht_conf_def)
qed

lemma ht_link_table:
  assumes rep: "ht_rep ht L" and i: "i \<le> ht_buckets ht"
    and fresh: "\<And>j. j \<le> ht_buckets ht \<Longrightarrow> q \<notin> set (L j)"
  shows "ht_rep (ht_link ht i q) (L(i := q # L i))" "ht_conf (ht_link ht i q) = ht_conf ht"
proof -
  have b: "bucket_rep ht i (L i)" using rep i by (auto simp: ht_rep_def)
  note l = ht_link_rep [OF b fresh [OF i] refl]
  show "ht_rep (ht_link ht i q) (L(i := q # L i))"
    by (rule ht_rep_update [OF rep i l(1,5,3)]) (auto simp: l(2,4) fresh)
  show "ht_conf (ht_link ht i q) = ht_conf ht"
    using l(5-8) by (simp add: ht_conf_def)
qed

lemma dn_ht_find_hit:
  assumes rep: "ht_rep ht L" and i: "i = ht_bucket ht key flags s"
    and f: "find (ht_found cast ht key flags s) (L i) = Some p"
  shows "\<exists>ht'. dn_ht_find cast ht key flags s = Some (Some p, ht', s) \<and> ht_conf ht' = ht_conf ht \<and>
    ht_rep ht' (L(i := if flags AND DNHT_REMOVE \<noteq> 0 then remove1 p (L i) else L i))"
proof -
  let ?f = "ht_found cast ht key flags s"
  have ile: "i \<le> ht_buckets ht" unfolding i by (rule ht_bucket_le)
  then have b: "bucket_rep ht i (L i)" using rep by (simp add: ht_rep_def)
  with f obtain t where t: "ht_ht ht i = Some t"
    by (cases "ht_ht ht i") (auto simp: bucket_rep_def)
  have "find_in ?f t (L i) \<noteq> None"
    using f by (simp add: find_in_None_find)
  then obtain a x where x: "find_in ?f t (L i) = Some (a, x)" by auto
  then obtain ys zs where s: "L i = ys @ x # zs" "\<forall>y\<in>set ys. \<not> ?f y" "?f x" "a = last (t # ys)"
    using find_in_Some by metis
  then have xp: "x = p" using f find_split [of ys ?f x zs] by simp
  have e: "dn_ht_find cast ht key flags s =
      Some (Some p, (if flags AND DNHT_REMOVE \<noteq> 0 then ht_unlink ht i t a p else ht), s)"
    using ht_look [OF b, of ?f] x t by (simp add: dn_ht_find_def i [symmetric] xp)
  have "remove1 p (L i) = ys @ zs"
    using bucket_rep_distinct [OF b] s(1) by (simp only: xp remove1_split)
  then show ?thesis
    using ht_unlink_table [OF rep ile, of ys p zs] s t rep by (simp add: e xp fun_upd_idem)
qed

lemma dn_ht_find_miss:
  assumes rep: "ht_rep ht L" and i: "i = ht_bucket ht key flags s"
    and f: "find (ht_found cast ht key flags s) (L i) = None"
  shows "dn_ht_find cast ht key flags s =
    (if flags AND DNHT_INSERT = 0 then Some (None, ht, s)
     else case ht_new cast ht key flags s of
            (None, s') \<Rightarrow> Some (None, ht, s')
          | (Some q, s') \<Rightarrow> Some (Some q, ht_link ht i q, s'))"
proof -
  let ?f = "ht_found cast ht key flags s"
  have ile: "i \<le> ht_buckets ht" unfolding i by (rule ht_bucket_le)
  then have b: "bucket_rep ht i (L i)" using rep by (simp add: ht_rep_def)
  have "find_in ?f t (L i) = None" for t
    using f by (simp add: find_in_None_find)
  then have "(case ht_ht ht i of None \<Rightarrow> None | Some tail \<Rightarrow> find_in ?f tail (L i)) = None"
    by (simp split: option.splits)
  with ht_look [OF b, of ?f]
  have "(case ht_ht ht i of None \<Rightarrow> Some None
      | Some tail \<Rightarrow> find_loop ?f (ht_next ht) tail tail) = Some None" by simp
  then show ?thesis
    by (simp add: dn_ht_find_def i [symmetric] ht_new_def Let_def split: option.splits prod.splits)
qed

lemma dn_ht_find_spec:
  fixes ht :: "('o, 'k, 's) dn_ht"
  assumes rep: "ht_rep ht L" and i: "i = ht_bucket ht key flags s"
    and fresh: "\<And>q j. fst (ht_new cast ht key flags s) = Some q \<Longrightarrow> flags AND DNHT_INSERT \<noteq> 0 \<Longrightarrow>
      find (ht_found cast ht key flags s) (L i) = None \<Longrightarrow> j \<le> ht_buckets ht \<Longrightarrow> q \<notin> set (L j)"
    and r: "list_find (ht_found cast ht key flags s) flags (fst (ht_new cast ht key flags s)) (L i) =
      (p, xs)"
  shows "\<exists>ht' s'. dn_ht_find cast ht key flags s = Some (p, ht', s') \<and> ht_rep ht' (L(i := xs)) \<and>
    ht_conf ht' = ht_conf ht \<and>
    s' = (if find (ht_found cast ht key flags s) (L i) = None \<and> flags AND DNHT_INSERT \<noteq> 0
          then snd (ht_new cast ht key flags s) else s)"
proof (cases "find (ht_found cast ht key flags s) (L i)")
  case None
  note m = dn_ht_find_miss [OF rep i None]
  have ile: "i \<le> ht_buckets ht" unfolding i by (rule ht_bucket_le)
  show ?thesis
    using r rep ht_link_table [OF rep ile fresh] None
    by (cases "ht_new cast ht key flags s")
      (auto simp: m list_find_def split: option.splits if_splits)
next
  case (Some x)
  then show ?thesis
    using dn_ht_find_hit [OF rep i Some] r by (auto simp: list_find_def split: if_splits)
qed

section \<open>The table as a finite map\<close>

text \<open>
  What the clients rely on: a lookup, an insertion that creates an object only when there is
  none, and a removal, each acting on one key. \<open>fl\<close> runs a sequence of operations.
\<close>

datatype 'k table_op = Find 'k | Put 'k | Del 'k

locale keyed_table =
  fixes inv :: "'t \<Rightarrow> bool" and look :: "'t \<Rightarrow> 'k \<Rightarrow> 'o option"
    and put :: "'t \<Rightarrow> 'k \<Rightarrow> 't" and del :: "'t \<Rightarrow> 'k \<Rightarrow> 't" and kof :: "'o \<Rightarrow> 'k"
  assumes inv_put: "inv t \<Longrightarrow> inv (put t k)" and inv_del: "inv t \<Longrightarrow> inv (del t k)"
    and look_key: "inv t \<Longrightarrow> look t k = Some p \<Longrightarrow> kof p = k"
    and look_put: "inv t \<Longrightarrow> look t k \<noteq> None \<Longrightarrow> look (put t k) k = look t k"
    and look_put_other: "inv t \<Longrightarrow> k' \<noteq> k \<Longrightarrow> look (put t k) k' = look t k'"
    and look_del: "inv t \<Longrightarrow> look (del t k) = (look t)(k := None)"
begin

definition step :: "'k table_op \<Rightarrow> 't \<Rightarrow> 't" where
  "step c t = (case c of Find k \<Rightarrow> t | Put k \<Rightarrow> put t k | Del k \<Rightarrow> del t k)"

lemma inv_step: "inv t \<Longrightarrow> inv (step c t)"
  by (simp add: step_def inv_put inv_del split: table_op.split)

lemma inv_run: "inv t \<Longrightarrow> inv (fold step cs t)"
  by (induction cs arbitrary: t) (auto intro: inv_step)

lemma step_stable: "inv t \<Longrightarrow> look t k = Some p \<Longrightarrow> c \<noteq> Del k \<Longrightarrow> look (step c t) k = Some p"
  by (cases c) (auto simp: step_def look_del, metis look_put look_put_other option.distinct(1))

text \<open>Once a key has an object it keeps it until the key is removed.\<close>

lemma run_stable:
  "inv t \<Longrightarrow> look t k = Some p \<Longrightarrow> Del k \<notin> set cs \<Longrightarrow> look (fold step cs t) k = Some p"
proof (induction cs arbitrary: t)
  case (Cons c cs)
  then have "look (step c t) k = Some p" by (auto intro: step_stable)
  with Cons inv_step show ?case by simp
qed simp

text \<open>A removed key has no object until it is inserted again.\<close>

lemma run_removed:
  "inv t \<Longrightarrow> look t k = None \<Longrightarrow> Put k \<notin> set cs \<Longrightarrow> look (fold step cs t) k = None"
proof (induction cs arbitrary: t)
  case (Cons c cs)
  have "look (step c t) k = None"
    using Cons.prems by (cases c) (auto simp: step_def look_del look_put_other)
  then show ?case using Cons inv_step by simp
qed simp

lemma look_inj: "inv t \<Longrightarrow> look t k = Some p \<Longrightarrow> look t k' = Some p \<Longrightarrow> k = k'"
  using look_key by blast

end

text \<open>
  The hash table under its usual discipline: the match callback compares the key stored in the
  object (\<open>kof\<close>), the hash depends on the key alone, and new objects carry the key they are
  created for.
\<close>

definition ht_keyed :: "('o \<Rightarrow> 'k) \<Rightarrow> ('k \<Rightarrow> 'o) \<Rightarrow> ('o, 'k, 's) dn_ht \<Rightarrow> bool" where
  "ht_keyed kof cast ht \<longleftrightarrow>
     (\<forall>p k f s. ht_match ht p k f s = (kof p = k)) \<and>
     (\<forall>k f s f' s'. ht_hash ht k f s = ht_hash ht k f' s') \<and>
     (\<forall>k f s q. fst (ht_new cast ht k f s) = Some q \<longrightarrow> kof q = k)"

definition placed :: "('o \<Rightarrow> 'k) \<Rightarrow> ('o, 'k, 's) dn_ht \<Rightarrow> (nat \<Rightarrow> 'o list) \<Rightarrow> 's \<Rightarrow> bool" where
  "placed kof ht L s \<longleftrightarrow> (\<forall>j\<le>ht_buckets ht. distinct (map kof (L j)) \<and>
     (\<forall>p\<in>set (L j). ht_bucket ht (kof p) 0 s = j))"

definition ht_good :: "('o \<Rightarrow> 'k) \<Rightarrow> ('k \<Rightarrow> 'o) \<Rightarrow> ('o, 'k, 's) dn_ht \<times> 's \<Rightarrow> bool" where
  "ht_good kof cast t \<longleftrightarrow> ht_keyed kof cast (fst t) \<and>
     (\<exists>L. ht_rep (fst t) L \<and> placed kof (fst t) L (snd t))"

definition ht_look :: "('k \<Rightarrow> 'o) \<Rightarrow> ('o, 'k, 's) dn_ht \<times> 's \<Rightarrow> 'k \<Rightarrow> 'o option" where
  "ht_look cast t k = (case dn_ht_find cast (fst t) k 0 (snd t) of None \<Rightarrow> None | Some (p, _) \<Rightarrow> p)"

definition ht_do :: "nat \<Rightarrow> ('k \<Rightarrow> 'o) \<Rightarrow> ('o, 'k, 's) dn_ht \<times> 's \<Rightarrow> 'k \<Rightarrow> ('o, 'k, 's) dn_ht \<times> 's" where
  "ht_do flags cast t k =
     (case dn_ht_find cast (fst t) k flags (snd t) of None \<Rightarrow> t | Some (_, t') \<Rightarrow> t')"

lemma ht_keyed_bucket:
  "ht_keyed kof cast ht \<Longrightarrow> ht_bucket ht k f s = ht_bucket ht k f' s'"
  unfolding ht_keyed_def ht_bucket_def by metis

lemma ht_keyed_found:
  "ht_keyed kof cast ht \<Longrightarrow> f AND DNHT_MATCH_PTR = 0 \<Longrightarrow>
   ht_found cast ht k f s = (\<lambda>p. kof p = k)"
  by (auto simp: ht_keyed_def ht_found_def)

lemma ht_conf_bucket: "ht_conf ht' = ht_conf ht \<Longrightarrow> ht_bucket ht' = ht_bucket ht"
  by (intro ext) (simp add: ht_conf_def ht_bucket_def)

lemma ht_conf_keyed: "ht_conf ht' = ht_conf ht \<Longrightarrow> ht_keyed kof cast ht' = ht_keyed kof cast ht"
  by (simp add: ht_conf_def ht_keyed_def ht_new_def)

lemma list_find_placed:
  assumes r: "list_find (\<lambda>p. kof p = k) flags q xs = (p, ys)"
    and d: "distinct (map kof xs)" "\<And>x. x \<in> set xs \<Longrightarrow> h (kof x) = i"
    and q: "\<And>x. q = Some x \<Longrightarrow> kof x = k" "h k = i"
  shows "distinct (map kof ys) \<and> (\<forall>x\<in>set ys. h (kof x) = i)"
proof (cases "find (\<lambda>p. kof p = k) xs")
  case None
  then have "k \<notin> kof ` set xs" by (auto simp: find_None_iff)
  with None r d q show ?thesis by (auto simp: list_find_def split: if_splits option.splits)
next
  case (Some x)
  have "distinct (map kof (remove1 x xs))"
    using d(1) by (auto simp: distinct_map distinct_remove1 intro: inj_on_subset dest: notin_set_remove1)
  with Some r d show ?thesis
    by (auto simp: list_find_def split: if_splits dest: notin_set_remove1)
qed

text \<open>One operation on a well-formed table, seen through the lists of its buckets.\<close>

lemma ht_good_step:
  assumes good: "ht_keyed kof cast ht" "ht_rep ht L" "placed kof ht L s"
    and fl: "flags AND DNHT_MATCH_PTR = 0" and i: "i = ht_bucket ht k 0 s"
  shows "\<exists>p ht' s' L'. dn_ht_find cast ht k flags s = Some (p, ht', s') \<and>
    ht_conf ht' = ht_conf ht \<and> ht_rep ht' L' \<and> placed kof ht' L' s' \<and>
    (p, L') = (case list_find (\<lambda>p. kof p = k) flags (fst (ht_new cast ht k flags s)) (L i) of
                 (p, xs) \<Rightarrow> (p, L(i := xs)))"
proof -
  let ?q = "fst (ht_new cast ht k flags s)"
  obtain p xs where r: "list_find (\<lambda>p. kof p = k) flags ?q (L i) = (p, xs)" by fastforce
  have i': "i = ht_bucket ht k flags s" unfolding i by (rule ht_keyed_bucket [OF good(1)])
  have ile: "i \<le> ht_buckets ht" unfolding i by (rule ht_bucket_le)
  note fnd = ht_keyed_found [OF good(1) fl]
  have qk: "?q = Some q \<Longrightarrow> kof q = k" for q using good(1) by (simp add: ht_keyed_def)
  have fresh: "q \<notin> set (L j)"
    if "?q = Some q" "find (\<lambda>p. kof p = k) (L i) = None" "j \<le> ht_buckets ht" for q j
  proof
    assume "q \<in> set (L j)"
    with good(3) that(3) have "ht_bucket ht (kof q) 0 s = j" by (simp add: placed_def)
    with qk [OF that(1)] i have "j = i" by simp
    with \<open>q \<in> set (L j)\<close> that(2) qk [OF that(1)] show False by (simp add: find_None_iff)
  qed
  have "\<exists>ht' s'. dn_ht_find cast ht k flags s = Some (p, ht', s') \<and> ht_rep ht' (L(i := xs)) \<and>
      ht_conf ht' = ht_conf ht"
    using dn_ht_find_spec [OF good(2) i', where cast = cast and p = p and xs = xs] fresh r
    by (simp only: fnd) blast
  then obtain ht' s' where h: "dn_ht_find cast ht k flags s = Some (p, ht', s')"
      "ht_rep ht' (L(i := xs))" "ht_conf ht' = ht_conf ht" by blast
  have "distinct (map kof xs) \<and> (\<forall>x\<in>set xs. ht_bucket ht (kof x) 0 s = i)"
    by (rule list_find_placed [OF r]) (use good(3) ile qk i in \<open>auto simp: placed_def\<close>)
  moreover have "ht_buckets ht' = ht_buckets ht" using h(3) by (simp add: ht_conf_def)
  moreover have "ht_bucket ht' y 0 s' = ht_bucket ht y 0 s" for y
    using ht_conf_bucket [OF h(3)] ht_keyed_bucket [OF good(1)] by simp
  ultimately have "placed kof ht' (L(i := xs)) s'"
    using good(3) by (simp add: placed_def)
  with h r show ?thesis by simp
qed

lemma ht_flags_simps [simp]:
  "(0::nat) AND x = 0" "DNHT_INSERT AND DNHT_MATCH_PTR = 0" "DNHT_REMOVE AND DNHT_MATCH_PTR = 0"
  "DNHT_INSERT AND DNHT_REMOVE = 0" "DNHT_REMOVE AND DNHT_INSERT = 0"
  "0 < DNHT_INSERT" "0 < DNHT_REMOVE"
  by (simp_all add: DNHT_flags)

lemma ht_look_rep:
  assumes good: "ht_keyed kof cast ht" "ht_rep ht L" "placed kof ht L s"
  shows "ht_look cast (ht, s) k = find (\<lambda>p. kof p = k) (L (ht_bucket ht k 0 s))"
proof -
  have "(0::nat) AND DNHT_MATCH_PTR = 0" by simp
  from ht_good_step [OF good this refl, of k] show ?thesis
    by (auto simp: ht_look_def list_find_def split: option.splits)
qed

lemma ht_do_rep:
  assumes good: "ht_good kof cast (ht, s)" and fl: "flags AND DNHT_MATCH_PTR = 0"
  shows "\<exists>L ht' s' L' p xs. ht_do flags cast (ht, s) k = (ht', s') \<and> ht_good kof cast (ht', s') \<and>
    (\<forall>k. ht_look cast (ht, s) k = find (\<lambda>p. kof p = k) (L (ht_bucket ht k 0 s))) \<and>
    (\<forall>k. ht_look cast (ht', s') k = find (\<lambda>p. kof p = k) (L' (ht_bucket ht k 0 s))) \<and>
    (\<forall>j\<le>ht_buckets ht. distinct (map kof (L j))) \<and>
    list_find (\<lambda>p. kof p = k) flags (fst (ht_new cast ht k flags s)) (L (ht_bucket ht k 0 s)) = (p, xs) \<and>
    (\<forall>q. fst (ht_new cast ht k flags s) = Some q \<longrightarrow> kof q = k) \<and>
    L' = L(ht_bucket ht k 0 s := xs)"
proof -
  from good obtain L where L: "ht_keyed kof cast ht" "ht_rep ht L" "placed kof ht L s"
    by (auto simp: ht_good_def)
  obtain p xs where r: "list_find (\<lambda>p. kof p = k) flags (fst (ht_new cast ht k flags s))
      (L (ht_bucket ht k 0 s)) = (p, xs)" by fastforce
  obtain ht' s' L' where h: "dn_ht_find cast ht k flags s = Some (p, ht', s')"
      "ht_conf ht' = ht_conf ht" "ht_rep ht' L'" "placed kof ht' L' s'"
      "L' = L(ht_bucket ht k 0 s := xs)"
    using ht_good_step [OF L fl refl, of k] r by auto
  have k': "ht_keyed kof cast ht'" using L(1) by (simp add: ht_conf_keyed [OF h(2)])
  have "ht_bucket ht' y 0 s' = ht_bucket ht y 0 s" for y
    using ht_conf_bucket [OF h(2)] ht_keyed_bucket [OF L(1)] by simp
  then have "ht_look cast (ht', s') y = find (\<lambda>p. kof p = y) (L' (ht_bucket ht y 0 s))" for y
    using ht_look_rep [OF k' h(3,4)] by simp
  moreover have "ht_do flags cast (ht, s) k = (ht', s')" by (simp add: ht_do_def h(1))
  moreover have "ht_good kof cast (ht', s')" using k' h(3,4) by (auto simp: ht_good_def)
  moreover have "\<forall>j\<le>ht_buckets ht. distinct (map kof (L j))" using L(3) by (simp add: placed_def)
  moreover have "\<forall>q. fst (ht_new cast ht k flags s) = Some q \<longrightarrow> kof q = k"
    using L(1) by (simp add: ht_keyed_def)
  moreover note ht_look_rep [OF L]
  moreover note r h(5)
  ultimately show ?thesis by blast
qed

lemma find_key_remove1:
  assumes "distinct (map kof xs)" "find (\<lambda>p. kof p = k) xs = Some x"
  shows "find (\<lambda>p. kof p = y) (remove1 x xs) = (if y = k then None else find (\<lambda>p. kof p = y) xs)"
  using assms
proof (induction xs)
  case (Cons a xs)
  show ?case
  proof (cases "kof a = k")
    case True
    have "k \<notin> kof ` set xs" using Cons.prems(1) True by auto
    then have "find (\<lambda>p. kof p = k) xs = None" by (fastforce simp: find_None_iff)
    with True Cons.prems(2) show ?thesis by auto
  next
    case False
    moreover from this Cons.prems have "find (\<lambda>p. kof p = k) xs = Some x" by simp
    moreover from this have "kof x = k" by (auto simp: find_Some_iff)
    ultimately show ?thesis using Cons by auto
  qed
qed simp

interpretation kt: keyed_table "ht_good kof cast" "ht_look cast" "ht_do DNHT_INSERT cast"
    "ht_do DNHT_REMOVE cast" kof
  for kof :: "'o \<Rightarrow> 'k" and cast :: "'k \<Rightarrow> 'o"
proof
  fix t :: "('o, 'k, 's) dn_ht \<times> 's" and k k' :: 'k and p :: 'o
  assume good: "ht_good kof cast t"
  obtain ht s where t: "t = (ht, s)" by fastforce
  have i: "DNHT_INSERT AND DNHT_MATCH_PTR = 0" and r: "DNHT_REMOVE AND DNHT_MATCH_PTR = 0" by simp_all
  note ins = ht_do_rep [OF good [unfolded t] i] and rem = ht_do_rep [OF good [unfolded t] r]
  show "ht_good kof cast (ht_do DNHT_INSERT cast t k)" using ins [of k] by (auto simp: t)
  show "ht_good kof cast (ht_do DNHT_REMOVE cast t k)" using rem [of k] by (auto simp: t)
  show "kof p = k" if "ht_look cast t k = Some p"
    using that ins [of k] by (auto simp: t find_Some_iff)
  show "ht_look cast (ht_do DNHT_INSERT cast t k) k = ht_look cast t k" if "ht_look cast t k \<noteq> None"
    using that ins [of k] by (auto simp: t list_find_def split: if_splits)
  show "ht_look cast (ht_do DNHT_INSERT cast t k) k' = ht_look cast t k'" if "k' \<noteq> k"
    using that ins [of k]
    by (cases "ht_bucket ht k' 0 s = ht_bucket ht k 0 s")
      (auto simp: t list_find_def split: if_splits option.splits)
  show "ht_look cast (ht_do DNHT_REMOVE cast t k) = (ht_look cast t)(k := None)"
  proof
    fix y
    show "ht_look cast (ht_do DNHT_REMOVE cast t k) y = ((ht_look cast t)(k := None)) y"
      using rem [of k]
      by (cases "ht_bucket ht y 0 s = ht_bucket ht k 0 s")
        (auto simp: t list_find_def find_key_remove1 ht_bucket_le split: if_splits option.splits)
  qed
qed

section \<open>Scanning on the represented lists\<close>

text \<open>
  What a scan does to one list: the elements kept so far, those not visited because the
  callback asked to end, the number removed, the callback's state, and whether it ended early.
\<close>

fun list_scan :: "('o \<Rightarrow> 's \<Rightarrow> nat \<times> 's) \<Rightarrow> 's \<Rightarrow> 'o list \<Rightarrow> 'o list \<times> 'o list \<times> nat \<times> 's \<times> bool" where
  "list_scan fn s [] = ([], [], 0, s, False)"
| "list_scan fn s (x # xs) =
     (let (ret, s') = fn x s;
          keep = (if ret AND DNHT_SCAN_DEL \<noteq> 0 then [] else [x]);
          n = (if ret AND DNHT_SCAN_DEL \<noteq> 0 then 1 else 0)
      in if ret AND DNHT_SCAN_END \<noteq> 0 then (keep, xs, n, s', True)
         else case list_scan fn s' xs of
                (kept, rest, m, s'', e) \<Rightarrow> (keep @ kept, rest, n + m, s'', e))"

text \<open>One iteration: with the removal it is exactly \<open>ht_unlink\<close>.\<close>

lemma scan_body_loop_step:
  assumes b: "bucket_rep ht i (kept @ p # rest)" and t: "ht_ht ht i = Some tail"
    and pp: "pp = last (tail # kept)" and r: "fn p s = (ret, s')"
    and h: "hx = (if ret AND DNHT_SCAN_DEL \<noteq> 0 then ht_unlink ht i tail pp p else ht)"
    and d: "pp' = (if ret AND DNHT_SCAN_DEL \<noteq> 0 then pp else p)"
    and n: "n = (if ret AND DNHT_SCAN_DEL \<noteq> 0 then 1 else 0)"
  shows "scan_body_loop fn i tail pp ht found s =
    (if ret AND DNHT_SCAN_END \<noteq> 0 then
       Some (hx\<lparr>ht_ht := (ht_ht hx)(i := if ht_ht hx i = None then None else Some pp')\<rparr>,
             found + n, s', True)
     else if p \<noteq> tail then scan_body_loop fn i tail pp' hx (found + n) s'
     else Some (hx, found + n, s', False))"
proof -
  have "circ (ht_next ht) tail (kept @ p # rest)" using b t by (simp add: bucket_rep_def)
  then have "ht_next ht pp = p" by (auto simp: circ_def chain_append pp)
  then show ?thesis
    by (subst scan_body_loop.simps) (auto simp: Let_def r h d n ht_unlink_def)
qed

text \<open>Ending a scan makes the last element visited and kept the tail: the list is rotated.\<close>

lemma ht_retail:
  assumes rep: "ht_rep ht L" and i: "i \<le> ht_buckets ht" and L: "L i = ks @ xs"
    and pp: "pp = last (tail # ks)" and t: "ks = [] \<Longrightarrow> xs \<noteq> [] \<Longrightarrow> ht_ht ht i = Some tail"
  shows "ht_rep (ht\<lparr>ht_ht := (ht_ht ht)(i := if ht_ht ht i = None then None else Some pp)\<rparr>)
    (L(i := xs @ ks))" (is "ht_rep ?ht _")
proof -
  have b: "bucket_rep ht i (ks @ xs)" using rep i L by (auto simp: ht_rep_def)
  have "bucket_rep ?ht i (xs @ ks)"
  proof (cases "ht_ht ht i")
    case None
    with b show ?thesis by (simp add: bucket_rep_def)
  next
    case (Some u)
    then have c: "circ (ht_next ht) u (ks @ xs)" using b by (simp add: bucket_rep_def)
    show ?thesis
    proof (cases "ks = [] \<or> xs = []")
      case True
      with c t pp Some have "pp = u" by (auto simp: circ_def)
      with c True Some show ?thesis by (auto simp: bucket_rep_def)
    next
      case False
      with circ_rotate [OF c] Some pp show ?thesis by (simp add: bucket_rep_def)
    qed
  qed
  from ht_rep_update [OF rep i this] show ?thesis by (simp add: L)
qed

lemma scan_body_loop_list:
  assumes "ht_rep ht L" "i \<le> ht_buckets ht" "L i = kept @ xs" "xs \<noteq> []" "last xs = tail"
    "ht_ht ht i = Some tail" "pp = last (tail # kept)" "list_scan fn s xs = (ks, rest, n, s', e)"
  shows "\<exists>ht'. scan_body_loop fn i tail pp ht found s = Some (ht', found + n, s', e) \<and>
    ht_rep ht' (L(i := rest @ kept @ ks)) \<and> ht_conf ht' = ht_conf ht"
  using assms
proof (induction xs arbitrary: ht L kept pp found s ks rest n s' e)
  case (Cons p xs)
  obtain ret s1 where r: "fn p s = (ret, s1)" by fastforce
  let ?del = "ret AND DNHT_SCAN_DEL \<noteq> 0"
  let ?keep = "if ?del then [] else [p]" and ?pp = "if ?del then pp else p"
  let ?ht = "if ?del then ht_unlink ht i tail pp p else ht" and ?n = "if ?del then 1 else (0::nat)"
  let ?L = "L(i := (kept @ ?keep) @ xs)"
  have b: "bucket_rep ht i (kept @ p # xs)" using Cons.prems(1-3) by (auto simp: ht_rep_def)
  note step = scan_body_loop_step [where fn = fn and p = p and s = s and hx = ?ht and pp' = ?pp and n = ?n
      and found = found, OF b Cons.prems(6,7) r refl refl refl]
  note u = ht_unlink_rep [OF b Cons.prems(6,7) refl]
  have h: "ht_rep ?ht ?L" "ht_conf ?ht = ht_conf ht"
    using ht_unlink_table [OF Cons.prems(1-3,6,7)] Cons.prems(1,3) by (auto simp: fun_upd_idem)
  have i': "i \<le> ht_buckets ?ht" using Cons.prems(2) u(5) by simp
  have tail: "ht_ht ?ht i = Some tail" if "xs \<noteq> []"
    using that u(9) Cons.prems(5,6) bucket_rep_distinct [OF b] by auto
  have pp': "?pp = last (tail # kept @ ?keep)" using Cons.prems(7) by simp
  show ?case
  proof (cases "ret AND DNHT_SCAN_END \<noteq> 0")
    case True
    let ?e = "?ht\<lparr>ht_ht := (ht_ht ?ht)(i := if ht_ht ?ht i = None then None else Some ?pp)\<rparr>"
    have v: "ks = ?keep" "rest = xs" "n = ?n" "s' = s1" "e = True"
      using Cons.prems(8) True r by auto
    have "ht_rep ?e (?L(i := xs @ kept @ ?keep))"
      by (rule ht_retail [OF h(1) i' _ pp' tail]) simp_all
    then have "ht_rep ?e (L(i := rest @ kept @ ks))" by (simp only: v fun_upd_upd)
    moreover have "ht_conf ?e = ht_conf ht" using h(2) by (simp add: ht_conf_def)
    moreover have "scan_body_loop fn i tail pp ht found s = Some (?e, found + n, s', e)"
      using step by (simp only: True not_False_eq_True if_True v)
    ultimately show ?thesis by blast
  next
    case end_: False
    obtain ks2 m where l: "list_scan fn s1 xs = (ks2, rest, m, s', e)" "ks = ?keep @ ks2" "n = ?n + m"
      using Cons.prems(8) end_ r by (auto split: prod.splits)
    show ?thesis
    proof (cases "xs = []")
      case True
      then have v: "rest = []" "ks = ?keep" "n = ?n" "s' = s1" "e = False" using l by auto
      have "scan_body_loop fn i tail pp ht found s = Some (?ht, found + n, s', e)"
        using step end_ True Cons.prems(5) by (simp only: v if_False not_True_eq_False) simp
      moreover have "ht_rep ?ht (L(i := rest @ kept @ ks))"
        using h(1) by (simp only: v True append_Nil append_Nil2)
      ultimately show ?thesis using h(2) by blast
    next
      case False
      then have "p \<noteq> tail" using Cons.prems(5) bucket_rep_distinct [OF b] by auto
      moreover have "last xs = tail" using False Cons.prems(5) by simp
      moreover have "?L i = (kept @ ?keep) @ xs" by simp
      note Cons.IH [OF h(1) i' this False \<open>last xs = tail\<close> tail [OF False] pp' l(1), of "found + ?n"]
      ultimately obtain ht' where h': "p \<noteq> tail"
        "scan_body_loop fn i tail ?pp ?ht (found + ?n) s1 = Some (ht', found + ?n + m, s', e)"
        "ht_rep ht' (?L(i := rest @ (kept @ ?keep) @ ks2))" "ht_conf ht' = ht_conf ?ht" by blast
      have "ht_rep ht' (L(i := rest @ kept @ ks))"
        using h'(3) by (simp only: l(2) fun_upd_upd append_assoc)
      moreover have "scan_body_loop fn i tail pp ht found s = Some (ht', found + n, s', e)"
        using step end_ h'(1,2) by (simp only: l(3) add.assoc if_False if_True not_False_eq_True)
      moreover have "ht_conf ht' = ht_conf ht" using h'(4) h(2) by (rule trans)
      ultimately show ?thesis by blast
    qed
  qed
qed simp

text \<open>The scan of a whole table, bucket by bucket.\<close>

fun lists_scan ::
  "nat list \<Rightarrow> (nat \<Rightarrow> 'o list) \<Rightarrow> ('o \<Rightarrow> 's \<Rightarrow> nat \<times> 's) \<Rightarrow> nat \<Rightarrow> 's \<Rightarrow> (nat \<Rightarrow> 'o list) \<times> nat \<times> 's"
  where
  "lists_scan [] L fn found s = (L, found, s)"
| "lists_scan (i # bs) L fn found s =
     (case list_scan fn s (L i) of
        (ks, rest, n, s', e) \<Rightarrow>
          let L' = L(i := rest @ ks)
          in if e then (L', found + n, s') else lists_scan bs L' fn (found + n) s')"

lemma dn_ht_scan_body_list:
  assumes rep: "ht_rep ht L" and i: "i \<le> ht_buckets ht" and ne: "L i \<noteq> []"
    and l: "list_scan fn s (L i) = (ks, rest, n, s', e)"
  shows "\<exists>ht'. dn_ht_scan_body ht i fn s = Some (ht', if e then i else i + 1, n, s') \<and>
    ht_rep ht' (L(i := rest @ ks)) \<and> ht_conf ht' = ht_conf ht"
proof -
  have b: "bucket_rep ht i (L i)" using rep i by (simp add: ht_rep_def)
  with ne obtain t where t: "ht_ht ht i = Some t" by (cases "ht_ht ht i") (auto simp: bucket_rep_def)
  with b have "last (L i) = t" by (simp add: bucket_rep_def circ_def)
  from scan_body_loop_list [OF rep i _ ne this t _ l, of "[]" t 0] t show ?thesis
    by (auto simp: dn_ht_scan_body_def)
qed

lemma scan_buckets_list:
  assumes "ht_rep ht L" "\<forall>i\<in>set bs. i \<le> ht_buckets ht" "lists_scan bs L fn found s = (L', n, s')"
  shows "\<exists>ht'. scan_buckets bs ht fn found s = Some (ht', n, s') \<and> ht_rep ht' L' \<and>
    ht_conf ht' = ht_conf ht"
  using assms
proof (induction bs arbitrary: ht L found s)
  case (Cons i bs)
  obtain ks rest m s1 e where l: "list_scan fn s (L i) = (ks, rest, m, s1, e)"
    by (metis prod_cases5)
  have i: "i \<le> ht_buckets ht" using Cons.prems(2) by simp
  show ?case
  proof (cases "L i = []")
    case True
    then have "ht_ht ht i = None"
      using Cons.prems(1) i by (auto simp: ht_rep_def bucket_rep_def circ_def split: option.splits)
    with True l Cons show ?thesis by (auto simp: fun_upd_idem)
  next
    case False
    from dn_ht_scan_body_list [OF Cons.prems(1) i this l] obtain ht' where
      h: "dn_ht_scan_body ht i fn s = Some (ht', if e then i else i + 1, m, s1)"
        "ht_rep ht' (L(i := rest @ ks))" "ht_conf ht' = ht_conf ht" by blast
    have "bucket_rep ht i (L i)" using Cons.prems(1) i by (simp add: ht_rep_def)
    then have ne: "ht_ht ht i \<noteq> None" using False by (auto simp: bucket_rep_def split: option.splits)
    have nb: "ht_buckets ht' = ht_buckets ht" using h(3) by (simp add: ht_conf_def)
    show ?thesis
    proof (cases e)
      case True
      with h ne l Cons.prems(3) show ?thesis by auto
    next
      case False
      with Cons.prems(3) l have "lists_scan bs (L(i := rest @ ks)) fn (found + m) s1 = (L', n, s')"
        by simp
      from Cons.IH [OF h(2) _ this] Cons.prems(2) nb h ne False show ?thesis by auto
    qed
  qed
qed simp

lemma dn_ht_scan_spec:
  assumes "ht_rep ht L" "lists_scan [0..<ht_buckets ht + 1] L fn 0 s = (L', n, s')"
  shows "\<exists>ht'. dn_ht_scan ht fn s = Some (ht', n, s') \<and> ht_rep ht' L' \<and> ht_conf ht' = ht_conf ht"
  unfolding dn_ht_scan_def by (rule scan_buckets_list [OF assms(1) _ assms(2)]) auto

text \<open>Without early ends, a scan keeps what the callback keeps, in order.\<close>

lemma list_scan_do_del: "list_scan do_del u xs = ([], [], length xs, (), False)"
  by (induction xs arbitrary: u) (auto simp: do_del_def DNHT_flags)

lemma lists_scan_do_del:
  "fst (lists_scan bs L do_del found u) = (\<lambda>i. if i \<in> set bs then [] else L i)"
  by (induction bs arbitrary: L found u) (auto simp: list_scan_do_del)

lemma list_scan_count:
  "list_scan fn s xs = (ks, rest, n, s', e) \<Longrightarrow>
   length ks + length rest + n = length xs \<and> set ks \<union> set rest \<subseteq> set xs"
proof (induction xs arbitrary: s ks rest n s' e)
  case (Cons x xs)
  obtain ret s1 where r: "fn x s = (ret, s1)" by fastforce
  obtain ks2 rest2 n2 s2 e2 where l: "list_scan fn s1 xs = (ks2, rest2, n2, s2, e2)"
    by (metis prod_cases5)
  from Cons.IH [OF l] Cons.prems show ?case by (auto simp: r l Let_def split: if_splits)
qed simp

lemma sum_length_upd:
  fixes L :: "nat \<Rightarrow> 'a list"
  assumes "i \<le> N"
  shows "(\<Sum>j\<le>N. length ((L(i := ys)) j)) + length (L i) = (\<Sum>j\<le>N. length (L j)) + length ys"
proof -
  have "(\<Sum>j\<le>N. length ((L(i := ys)) j)) = length ys + (\<Sum>j\<in>{..N} - {i}. length (L j))"
    using assms by (subst sum.remove [of _ i]) (auto intro!: sum.cong)
  moreover have "(\<Sum>j\<le>N. length (L j)) = length (L i) + (\<Sum>j\<in>{..N} - {i}. length (L j))"
    using assms by (subst sum.remove [of _ i]) auto
  ultimately show ?thesis by simp
qed

lemma lists_scan_count:
  assumes "lists_scan bs L fn found s = (L', n, s')" "set bs \<subseteq> {..N}"
  shows "n + (\<Sum>j\<le>N. length (L' j)) = found + (\<Sum>j\<le>N. length (L j)) \<and>
    (\<forall>j. set (L' j) \<subseteq> set (L j))"
  using assms
proof (induction bs arbitrary: L found s)
  case (Cons i bs)
  obtain ks rest m s1 e where l: "list_scan fn s (L i) = (ks, rest, m, s1, e)"
    by (metis prod_cases5)
  let ?L = "L(i := rest @ ks)"
  note c = list_scan_count [OF l]
  have len: "(\<Sum>j\<le>N. length (?L j)) + m = (\<Sum>j\<le>N. length (L j))"
    using sum_length_upd [of i N L "rest @ ks"] c Cons.prems by simp
  have sub: "set (?L j) \<subseteq> set (L j)" for j using c by auto
  show ?case
  proof (cases e)
    case True
    with l Cons.prems have "L' = ?L" "n = found + m" by auto
    with len sub show ?thesis by simp
  next
    case False
    with l Cons.prems have "lists_scan bs ?L fn (found + m) s1 = (L', n, s')" by simp
    from Cons.IH [OF this] Cons.prems(2) len
    have "n + (\<Sum>j\<le>N. length (L' j)) = found + (\<Sum>j\<le>N. length (L j))"
      "\<forall>j. set (L' j) \<subseteq> set (?L j)" by auto
    with sub show ?thesis by blast
  qed
qed simp

section \<open>Properties\<close>

text \<open>Concrete tables for the witnesses: keys are the objects themselves.\<close>

definition wht :: "(nat, nat, unit) dn_ht" where
  "wht = the (dn_ht_init True None 4 (\<lambda>k _ _. word_of_nat k) (\<lambda>o1 k _ _. o1 = k) None id)"

lemma round_buckets_4: "round_buckets 4 = 3"
  by (simp add: round_buckets_def ones_below_def Let_def)

lemma wht_fields: "ht_buckets wht = 3" "ht_entries wht = 0" "ht_ht wht = (\<lambda>_. None)" "ht_newh wht = None"
  "ht_next wht = id" "ht_hash wht = (\<lambda>k _ _. word_of_nat k)" "ht_match wht = (\<lambda>o1 k _ _. o1 = k)"
  by (simp_all add: wht_def dn_ht_init_def round_buckets_4)

lemma wht_rep: "ht_rep wht (\<lambda>_. [])"
  by (simp add: ht_rep_def bucket_rep_def wht_fields)

lemma wht_good: "ht_good id id (wht, ())"
  unfolding ht_good_def fst_conv snd_conv
  by (rule conjI) (auto simp: ht_keyed_def ht_new_def wht_fields placed_def intro: exI [of _ "\<lambda>_. []"] wht_rep)

text \<open>C11: \<open>dn_ht_find\<close> on a well-formed table always returns, and does to the list of the
  key's bucket what \<open>list_find\<close> says: it returns the first match and takes it out when asked
  to remove, inserts a new object at the head when there is none and it is asked to insert, and
  leaves the table well formed with an exact element count and all other buckets as they were.\<close>

theorem dn_ht_find_refines:
  fixes ht :: "('o, 'k, 's) dn_ht"
  assumes "ht_rep ht L" "i = ht_bucket ht key flags s"
    and "\<And>q j. fst (ht_new cast ht key flags s) = Some q \<Longrightarrow> flags AND DNHT_INSERT \<noteq> 0 \<Longrightarrow>
      find (ht_found cast ht key flags s) (L i) = None \<Longrightarrow> j \<le> ht_buckets ht \<Longrightarrow> q \<notin> set (L j)"
    and "list_find (ht_found cast ht key flags s) flags (fst (ht_new cast ht key flags s)) (L i) =
      (p, xs)"
  shows "\<exists>ht' s'. dn_ht_find cast ht key flags s = Some (p, ht', s') \<and> ht_rep ht' (L(i := xs)) \<and>
    ht_conf ht' = ht_conf ht \<and>
    s' = (if find (ht_found cast ht key flags s) (L i) = None \<and> flags AND DNHT_INSERT \<noteq> 0
          then snd (ht_new cast ht key flags s) else s)"
  by (rule dn_ht_find_spec [OF assms])

lemma dn_ht_find_refines_witness:
  "\<exists>ht' s'. dn_ht_find id wht 7 DNHT_INSERT () = Some (Some 7, ht', s') \<and>
     ht_rep ht' ((\<lambda>_. [])(3 := [7])) \<and> ht_conf ht' = ht_conf wht"
proof -
  have "3 = ht_bucket wht 7 DNHT_INSERT ()"
    by (simp add: ht_bucket_def wht_fields)
  from dn_ht_find_refines [OF wht_rep this, where cast = id and p = "Some 7" and xs = "[7]"]
  show ?thesis by (auto simp: list_find_def ht_new_def wht_fields DNHT_flags)
qed

text \<open>Running a sequence of lookups, insertions and removals.\<close>

definition ht_step :: "('k \<Rightarrow> 'o) \<Rightarrow> 'k table_op \<Rightarrow> ('o, 'k, 's) dn_ht \<times> 's \<Rightarrow> ('o, 'k, 's) dn_ht \<times> 's" where
  "ht_step cast c t =
     (case c of Find k \<Rightarrow> t | Put k \<Rightarrow> ht_do DNHT_INSERT cast t k | Del k \<Rightarrow> ht_do DNHT_REMOVE cast t k)"

lemma ht_step_kt: "ht_step cast = kt.step cast"
  by (intro ext) (simp add: ht_step_def kt.step_def)

lemma dn_ht_find_insert_look:
  assumes good: "ht_good kof cast (ht, s)"
    and f: "dn_ht_find cast ht k DNHT_INSERT s = Some (Some p, ht', s')"
  shows "ht_look cast (ht', s') k = Some p \<and> ht_good kof cast (ht', s')"
proof -
  have fl: "DNHT_INSERT AND DNHT_MATCH_PTR = 0" by simp
  from good obtain L where L: "ht_keyed kof cast ht" "ht_rep ht L" "placed kof ht L s"
    by (auto simp: ht_good_def)
  define i where "i = ht_bucket ht k 0 s"
  obtain L' xs where h: "ht_conf ht' = ht_conf ht" "ht_rep ht' L'" "placed kof ht' L' s'"
    "list_find (\<lambda>p. kof p = k) DNHT_INSERT (fst (ht_new cast ht k DNHT_INSERT s)) (L i) = (Some p, xs)"
    "L' = L(i := xs)"
    using ht_good_step [OF L fl refl, of k] f by (auto simp: i_def split: prod.splits)
  have k': "ht_keyed kof cast ht'" using L(1) by (simp add: ht_conf_keyed [OF h(1)])
  have "ht_bucket ht' k 0 s' = i"
    using ht_conf_bucket [OF h(1)] ht_keyed_bucket [OF L(1)] by (simp add: i_def)
  with ht_look_rep [OF k' h(2,3)] h(5) have "ht_look cast (ht', s') k = find (\<lambda>p. kof p = k) xs" by simp
  moreover have "fst (ht_new cast ht k DNHT_INSERT s) = Some q \<Longrightarrow> kof q = k" for q
    using L(1) by (simp add: ht_keyed_def)
  with h(4) have "find (\<lambda>p. kof p = k) xs = Some p"
    by (auto simp: list_find_def split: option.splits if_splits)
  ultimately show ?thesis using k' h(2,3) by (auto simp: ht_good_def)
qed

text \<open>C28: an object returned for a key by an inserting \<open>dn_ht_find\<close> carries that key, and after
  any further insertions, lookups and removals of other keys a plain lookup of the key still
  returns this very object.\<close>

theorem dn_ht_insert_stable:
  assumes "ht_good kof cast (ht, s)" "dn_ht_find cast ht k DNHT_INSERT s = Some (Some p, ht', s')"
    "Del k \<notin> set ops"
  shows "ht_look cast (fold (ht_step cast) ops (ht', s')) k = Some p \<and> kof p = k"
  using kt.run_stable [OF _ _ assms(3)] kt.look_key dn_ht_find_insert_look [OF assms(1,2)]
  by (metis ht_step_kt)

lemma dn_ht_insert_stable_witness:
  "ht_look id (fold (ht_step id) [Put 9, Del 9, Put 1] (the (map_option snd (dn_ht_find id wht 5 DNHT_INSERT ())))) 5
    = Some 5"
proof -
  have "dn_ht_find id wht 5 DNHT_INSERT () = Some (Some 5, ht_link wht 1 5, ())"
    by (simp add: dn_ht_find_def ht_bucket_def wht_fields DNHT_flags)
  from dn_ht_insert_stable [OF wht_good this, of "[Put 9, Del 9, Put 1]"] this show ?thesis by simp
qed

text \<open>scanning a well-formed table with any callback always returns, reports exactly the number
  of elements it took out, keeps only elements that were there, and leaves the table well formed:
  each bucket holds what \<open>list_scan\<close> computes for its list.\<close>

theorem dn_ht_scan_correct:
  assumes "ht_rep ht L" "lists_scan [0..<ht_buckets ht + 1] L fn 0 s = (L', n, s')"
  shows "\<exists>ht'. dn_ht_scan ht fn s = Some (ht', n, s') \<and> ht_rep ht' L' \<and> ht_conf ht' = ht_conf ht \<and>
    ht_entries ht' + int n = ht_entries ht \<and> (\<forall>j. set (L' j) \<subseteq> set (L j))"
proof -
  obtain ht' where h: "dn_ht_scan ht fn s = Some (ht', n, s')" "ht_rep ht' L'" "ht_conf ht' = ht_conf ht"
    using dn_ht_scan_spec [OF assms] by blast
  have "n + (\<Sum>j\<le>ht_buckets ht. length (L' j)) = (\<Sum>j\<le>ht_buckets ht. length (L j))"
    "\<forall>j. set (L' j) \<subseteq> set (L j)"
    using lists_scan_count [OF assms(2), of "ht_buckets ht"] by (auto simp: subset_iff)
  moreover from this(1) have "int n + (\<Sum>j\<le>ht_buckets ht. int (length (L' j))) =
      (\<Sum>j\<le>ht_buckets ht. int (length (L j)))"
    by (simp only: int_sum [symmetric] of_nat_add [symmetric])
  moreover have "ht_buckets ht' = ht_buckets ht" using h(3) by (simp add: ht_conf_def)
  ultimately show ?thesis
    using h assms(1) by (auto simp: ht_rep_def intro!: exI [of _ ht'])
qed

lemma wht_link_rep: "ht_rep (ht_link wht 1 5) ((\<lambda>_. [])(1 := [5]))"
  using ht_link_table(1) [OF wht_rep, of 1 5] by (simp add: wht_fields)

lemma wht_link_fields: "ht_buckets (ht_link wht 1 5) = 3" "ht_entries (ht_link wht 1 5) = 1"
  by (simp_all add: ht_link_def wht_fields)

lemma dn_ht_scan_correct_witness:
  "\<exists>ht'. dn_ht_scan (ht_link wht 1 5) do_del () = Some (ht', 1, ()) \<and> ht_entries ht' = 0"
proof -
  have u: "[0..<ht_buckets (ht_link wht 1 5) + 1] = [0, 1, 2, 3]"
    by (simp only: wht_link_fields) (simp add: upt_rec)
  have "lists_scan [0..<ht_buckets (ht_link wht 1 5) + 1] ((\<lambda>_. [])(1 := [5 :: nat])) do_del 0 () =
      ((\<lambda>_. [])(1 := [5], 0 := [], 1 := [], 2 := [], 3 := []), 1, ())"
    unfolding u by (simp add: list_scan_do_del del: list_scan.simps)
  from dn_ht_scan_correct [OF wht_link_rep this] show ?thesis
    using wht_link_fields(2) by (auto simp del: One_nat_def)
qed

text \<open>\<open>dn_ht_free\<close> with \<open>DNHT_REMOVE\<close> on a well-formed table empties every bucket and brings
  the count to zero.\<close>

theorem dn_ht_free_empties:
  assumes "ht_rep ht L" "flags AND DNHT_REMOVE \<noteq> 0"
  shows "\<exists>ht'. dn_ht_free (Some ht) flags = Some (Some ht') \<and> ht_entries ht' = 0 \<and>
    (\<forall>i\<le>ht_buckets ht'. ht_ht ht' i = None)"
proof -
  obtain L' n s' where l: "lists_scan [0..<ht_buckets ht + 1] L do_del 0 () = (L', n, s')"
    by (metis prod_cases3)
  then have L': "L' = (\<lambda>i. if i \<in> {0..<ht_buckets ht + 1} then [] else L i)"
    using lists_scan_do_del [of "[0..<ht_buckets ht + 1]" L 0 "()"] by (simp only: fst_conv set_upt)
  obtain ht' where h: "dn_ht_scan ht do_del () = Some (ht', n, s')" "ht_rep ht' L'" "ht_conf ht' = ht_conf ht"
    using dn_ht_scan_spec [OF assms(1) l] by blast
  have "ht_buckets ht' = ht_buckets ht" using h(3) by (simp add: ht_conf_def)
  then have "L' i = []" "bucket_rep ht' i (L' i)" if "i \<le> ht_buckets ht'" for i
    using that h(2) by (simp_all add: L' ht_rep_def)
  moreover from this(1) have "ht_entries ht' = 0" using h(2) by (simp add: ht_rep_def)
  ultimately show ?thesis
    using h(1) assms(2) by (fastforce simp: dn_ht_free_def bucket_rep_def circ_def split: option.splits)
qed

lemma dn_ht_free_empties_witness:
  "\<exists>ht'. dn_ht_free (Some (ht_link wht 1 5)) DNHT_REMOVE = Some (Some ht') \<and> ht_entries ht' = 0"
proof -
  have "DNHT_REMOVE AND DNHT_REMOVE \<noteq> 0" by (simp add: DNHT_flags)
  from dn_ht_free_empties [OF wht_link_rep this] show ?thesis by auto
qed

end
