(* ===== verification/DnTypes.thy ===== *)
theory DnTypes
  imports Prelude
begin

text \<open>
  The data of dummynet: the kernel-userland objects of \<open>sys/netinet/ip_dummynet.h\<close>, the flow
  identifier of \<open>sys/netinet/ip_fw.h\<close>, the kernel objects of
  \<open>sys/netinet/ipfw/ip_dn_private.h\<close> and the packets. Pointers between objects are numbers
  (\<open>type_synonym\<close>s below), NULL is \<open>None\<close>; a packet list (\<open>struct mq\<close>) is a list.
  Counters whose overflow no code relies on are \<open>int\<close> or \<open>nat\<close>; values that wrap in the
  code have their width.
\<close>

type_synonym qid = nat
type_synonym fsid = nat
type_synonym siid = nat
type_synonym schid = nat
type_synonym algid = nat

section \<open>Flow identifiers\<close>

record in6_addr =
  u6_0 :: u32
  u6_1 :: u32
  u6_2 :: u32
  u6_3 :: u32

record ipfw_flow_id =
  dst_ip :: u32
  src_ip :: u32
  dst_port :: u16
  src_port :: u16
  fib :: u8
  proto :: u8
  fl_flags :: u8
  addr_type :: u8
  dst_ip6 :: in6_addr
  src_ip6 :: in6_addr
  flow_id6 :: u32
  extra :: u32

definition IS_IP6_FLOW_ID :: "ipfw_flow_id \<Rightarrow> bool" where
  "IS_IP6_FLOW_ID i \<longleftrightarrow> addr_type i = 6"

section \<open>Packets\<close>

text \<open>The rule reference carried across dummynet (\<open>struct ipfw_rule_ref\<close>).\<close>

record ipfw_rule_ref =
  rr_slot :: u32
  rr_rulenum :: u32
  rr_rule_id :: u32
  rr_chain_id :: u32
  rr_info :: u32

definition IPFW_INFO_MASK :: u32 where "IPFW_INFO_MASK = 0x0000ffff"
definition IPFW_IS_PIPE :: u32 where "IPFW_IS_PIPE = 0x08000000"
definition IPFW_ONEPASS :: u32 where "IPFW_ONEPASS = 0x40000000"

record dn_pkt_tag =
  pt_rule :: ipfw_rule_ref
  dn_dir :: nat
  output_time :: u64
  pt_ifp :: "nat option"

datatype tag_kind = PACKET_TAG_DUMMYNET | MTAG_IPFW_RULE | OtherTag nat

record m_tag =
  tag_kind :: tag_kind
  tag_dn :: dn_pkt_tag

text \<open>A packet: its identity (address), \<open>m_pkthdr.len\<close> and its chain of tags.\<close>

record mbuf =
  m_id :: nat
  m_len :: int
  m_tags :: "m_tag list"

section \<open>Objects visible from userland\<close>

record dn_id =
  id_len :: u16
  id_type :: u8
  id_subtype :: u8
  id_id :: u32

definition DN_LINK :: u8 where "DN_LINK = 1"
definition DN_FS :: u8 where "DN_FS = 2"
definition DN_SCH :: u8 where "DN_SCH = 3"
definition DN_SCH_I :: u8 where "DN_SCH_I = 4"
definition DN_QUEUE :: u8 where "DN_QUEUE = 5"
definition DN_DELAY_LINE :: u8 where "DN_DELAY_LINE = 6"
definition DN_PROFILE :: u8 where "DN_PROFILE = 7"
definition DN_FLOW :: u8 where "DN_FLOW = 8"
definition DN_TEXT :: u8 where "DN_TEXT = 9"

definition DN_SCHED_FIFO :: u32 where "DN_SCHED_FIFO = 1"
definition DN_SCHED_WF2QP :: u32 where "DN_SCHED_WF2QP = 2"

definition DN_HAVE_MASK :: u32 where "DN_HAVE_MASK = 0x0001"
definition DN_NOERROR :: u32 where "DN_NOERROR = 0x0002"
definition DN_QHT_HASH :: u32 where "DN_QHT_HASH = 0x0004"
definition DN_QSIZE_BYTES :: u32 where "DN_QSIZE_BYTES = 0x0008"
definition DN_HAS_PROFILE :: u32 where "DN_HAS_PROFILE = 0x0010"
definition DN_IS_RED :: u32 where "DN_IS_RED = 0x0020"
definition DN_IS_GENTLE_RED :: u32 where "DN_IS_GENTLE_RED = 0x0040"
definition DN_PIPE_CMD :: u32 where "DN_PIPE_CMD = 0x1000"

definition DN_MAX_ID :: nat where "DN_MAX_ID = 0x10000"

lemmas dn_flag_defs = DN_HAVE_MASK_def DN_NOERROR_def DN_QHT_HASH_def DN_QSIZE_BYTES_def
  DN_HAS_PROFILE_def DN_IS_RED_def DN_IS_GENTLE_RED_def DN_PIPE_CMD_def

definition set_oid :: "u8 \<Rightarrow> u16 \<Rightarrow> dn_id \<Rightarrow> dn_id" where
  "set_oid type len oid = oid\<lparr>id_type := type, id_len := len, id_subtype := 0\<rparr>"

text \<open>The sizes of the objects exchanged with userland, on a 64-bit machine.\<close>

definition sizeof_dn_id :: nat where "sizeof_dn_id = 8"
definition sizeof_dn_link :: nat where "sizeof_dn_link = 32"
definition sizeof_dn_fs :: nat where "sizeof_dn_fs = 120"
definition sizeof_dn_sch :: nat where "sizeof_dn_sch = 92"
definition sizeof_dn_profile :: nat where "sizeof_dn_profile = 56"
definition sizeof_dn_flow :: nat where "sizeof_dn_flow = 96"
definition sizeof_dn_queue :: nat where "sizeof_dn_queue = 160"
definition sizeof_uintptr :: nat where "sizeof_uintptr = 8"

lemmas sizeof_defs = sizeof_dn_id_def sizeof_dn_link_def sizeof_dn_fs_def sizeof_dn_sch_def
  sizeof_dn_profile_def sizeof_dn_flow_def sizeof_dn_queue_def sizeof_uintptr_def

text \<open>A link; bandwidth and delay are in bits and ticks once configured.\<close>

record dn_link =
  link_oid :: dn_id
  link_nr :: int
  bandwidth :: int
  delay :: int
  burst :: u64

text \<open>A flowset.\<close>

record dn_fs =
  fs_oid :: dn_id
  fs_nr :: nat
  fs_flags :: u32
  qsize :: int
  plr :: int
  fs_buckets :: nat
  flow_mask :: ipfw_flow_id
  fs_sched_nr :: nat
  fs_par :: "nat \<Rightarrow> int"
  fs_w_q :: int
  fs_max_th :: int
  fs_min_th :: int
  fs_max_p :: int

text \<open>Flow identifier and statistics of a queue or a scheduler instance.\<close>

record dn_flow =
  fl_oid :: dn_id
  fid :: ipfw_flow_id
  tot_pkts :: u64
  tot_bytes :: u64
  fl_length :: u32
  len_bytes :: u32
  drops :: u32

text \<open>A scheduler template.\<close>

record dn_sch =
  sch_oid :: dn_id
  sch_nr :: nat
  sch_buckets :: nat
  sch_flags :: u32
  sch_name :: string
  sched_mask :: ipfw_flow_id

text \<open>A delay profile. The length of the object in its header, not \<open>samples_no\<close>, says how many samples there are.\<close>

record dn_profile =
  pf_oid :: dn_id
  pf_name :: string
  pf_link_nr :: int
  loss_level :: int
  pf_bandwidth :: int
  samples_no :: int
  samples :: "int list"

section \<open>Kernel objects\<close>

text \<open>
  The list form of the hash tables of theory \<open>DnHash\<close>: the bucket mask and one list of object
  addresses per bucket. \<open>DnHash\<close> shows that the pointer structure implements it.
\<close>

record htab =
  hb_mask :: nat
  hb_list :: "nat \<Rightarrow> nat list"

text \<open>The queues of a flowset or the instances of a scheduler: one object or a table.\<close>

datatype objs = NoObj | OneObj nat | Table htab

record dn_fsk =
  fsk_fs :: dn_fs
  fsk_mask :: ipfw_flow_id
  qht :: objs
  fsk_sched :: "schid option"
  fsk_drain_bucket :: int
  w_q :: int
  max_th :: int
  min_th :: int
  max_p :: int
  c_1 :: u32
  c_2 :: u32
  c_3 :: u32
  c_4 :: u32
  w_q_lookup :: "nat \<Rightarrow> u32"
  lookup_depth :: u32
  lookup_step :: int
  lookup_weight :: int
  avg_pkt_size :: int
  max_pkt_size :: int

record dn_queue =
  q_ni :: dn_flow
  q_mq :: "mbuf list"
  q_si :: "siid option"
  q_fs :: "fsid option"
  q_avg :: int
  q_count :: int
  q_random :: int
  q_time :: u64

record dn_sch_inst =
  si_ni :: dn_flow
  si_dline :: "mbuf list"
  dline_in_heap :: bool
  si_sched :: schid
  si_kflags :: u32
  si_credit :: int
  sched_time :: u64
  idle_time :: u64
  si_q_count :: int

record dn_schk =
  sk_sch :: dn_sch
  sk_fp :: "algid option"
  sk_link :: dn_link
  sk_profile :: "dn_profile option"
  sk_cfg :: "nat option"
  fsk_list :: "fsid list"
  sk_fs :: "fsid option"
  sk_drain_bucket :: int
  siht :: objs

definition DN_ACTIVE :: u32 where "DN_ACTIVE = 0x0020"

section \<open>The environment of the schedulers\<close>

text \<open>
  The memory the scheduling algorithms and the queue functions work on: the objects by address
  and the counters of \<open>dn_cfg\<close> and \<open>ip_dn_io.c\<close> they update. \<open>rand\<close> is the sequence of
  values \<open>random()\<close> is going to return; \<open>freed\<close> collects the packets given to \<open>FREE_PKT\<close>.
\<close>

record dn_env =
  qs :: "qid \<Rightarrow> dn_queue"
  fsks :: "fsid \<Rightarrow> dn_fsk"
  sis :: "siid \<Rightarrow> dn_sch_inst"
  schks :: "schid \<Rightarrow> dn_schk"
  idle_queue :: int
  idle_si :: int
  curr_time :: u64
  io_pkt_drop :: nat
  rand :: "nat \<Rightarrow> int"
  freed :: "mbuf list"

definition get_random :: "('x) dn_env_scheme \<Rightarrow> int \<times> 'x dn_env_scheme" where
  "get_random e = (rand e 0, e\<lparr>rand := \<lambda>n. rand e (Suc n)\<rparr>)"

definition FREE_PKT :: "mbuf \<Rightarrow> 'x dn_env_scheme \<Rightarrow> 'x dn_env_scheme" where
  "FREE_PKT m e = e\<lparr>freed := freed e @ [m]\<rparr>"

definition upd_q :: "qid \<Rightarrow> (dn_queue \<Rightarrow> dn_queue) \<Rightarrow> 'x dn_env_scheme \<Rightarrow> 'x dn_env_scheme" where
  "upd_q q f e = e\<lparr>qs := (qs e)(q := f (qs e q))\<rparr>"

definition upd_si :: "siid \<Rightarrow> (dn_sch_inst \<Rightarrow> dn_sch_inst) \<Rightarrow> 'x dn_env_scheme \<Rightarrow> 'x dn_env_scheme" where
  "upd_si i f e = e\<lparr>sis := (sis e)(i := f (sis e i))\<rparr>"

definition upd_fsk :: "fsid \<Rightarrow> (dn_fsk \<Rightarrow> dn_fsk) \<Rightarrow> 'x dn_env_scheme \<Rightarrow> 'x dn_env_scheme" where
  "upd_fsk i f e = e\<lparr>fsks := (fsks e)(i := f (fsks e i))\<rparr>"

abbreviation mq :: "'x dn_env_scheme \<Rightarrow> qid \<Rightarrow> mbuf list" where
  "mq e q \<equiv> q_mq (qs e q)"

text \<open>Reading and writing the fields of an updated environment.\<close>

lemma upd_q_simps [simp]:
  "qs (upd_q q f e) = (qs e)(q := f (qs e q))" "fsks (upd_q q f e) = fsks e" "sis (upd_q q f e) = sis e"
  "schks (upd_q q f e) = schks e" "idle_queue (upd_q q f e) = idle_queue e"
  "idle_si (upd_q q f e) = idle_si e" "dn_env.more (upd_q q f e) = dn_env.more e" "curr_time (upd_q q f e) = curr_time e"
  "io_pkt_drop (upd_q q f e) = io_pkt_drop e" "rand (upd_q q f e) = rand e" "freed (upd_q q f e) = freed e"
  by (simp_all add: upd_q_def)

lemma upd_si_simps [simp]:
  "sis (upd_si i f e) = (sis e)(i := f (sis e i))" "fsks (upd_si i f e) = fsks e" "qs (upd_si i f e) = qs e"
  "schks (upd_si i f e) = schks e" "idle_queue (upd_si i f e) = idle_queue e"
  "idle_si (upd_si i f e) = idle_si e" "dn_env.more (upd_si i f e) = dn_env.more e" "curr_time (upd_si i f e) = curr_time e"
  "io_pkt_drop (upd_si i f e) = io_pkt_drop e" "rand (upd_si i f e) = rand e" "freed (upd_si i f e) = freed e"
  by (simp_all add: upd_si_def)

lemma upd_fsk_simps [simp]:
  "fsks (upd_fsk i f e) = (fsks e)(i := f (fsks e i))" "sis (upd_fsk i f e) = sis e" "qs (upd_fsk i f e) = qs e"
  "schks (upd_fsk i f e) = schks e" "idle_queue (upd_fsk i f e) = idle_queue e"
  "idle_si (upd_fsk i f e) = idle_si e" "dn_env.more (upd_fsk i f e) = dn_env.more e" "curr_time (upd_fsk i f e) = curr_time e"
  "io_pkt_drop (upd_fsk i f e) = io_pkt_drop e" "rand (upd_fsk i f e) = rand e" "freed (upd_fsk i f e) = freed e"
  by (simp_all add: upd_fsk_def)

lemma FREE_PKT_simps [simp]:
  "freed (FREE_PKT m e) = freed e @ [m]" "qs (FREE_PKT m e) = qs e" "fsks (FREE_PKT m e) = fsks e"
  "sis (FREE_PKT m e) = sis e" "schks (FREE_PKT m e) = schks e" "idle_queue (FREE_PKT m e) = idle_queue e"
  "idle_si (FREE_PKT m e) = idle_si e" "dn_env.more (FREE_PKT m e) = dn_env.more e" "curr_time (FREE_PKT m e) = curr_time e"
  "io_pkt_drop (FREE_PKT m e) = io_pkt_drop e" "rand (FREE_PKT m e) = rand e"
  by (simp_all add: FREE_PKT_def)

section \<open>Zeroed objects\<close>

definition in6_zero :: in6_addr where
  "in6_zero = \<lparr>u6_0 = 0, u6_1 = 0, u6_2 = 0, u6_3 = 0\<rparr>"

definition fid_zero :: ipfw_flow_id where
  "fid_zero = \<lparr>dst_ip = 0, src_ip = 0, dst_port = 0, src_port = 0, fib = 0, proto = 0, fl_flags = 0,
     addr_type = 0, dst_ip6 = in6_zero, src_ip6 = in6_zero, flow_id6 = 0, extra = 0\<rparr>"

definition oid_zero :: dn_id where
  "oid_zero = \<lparr>id_len = 0, id_type = 0, id_subtype = 0, id_id = 0\<rparr>"

definition flow_zero :: dn_flow where
  "flow_zero = \<lparr>fl_oid = oid_zero, fid = fid_zero, tot_pkts = 0, tot_bytes = 0, fl_length = 0,
     len_bytes = 0, drops = 0\<rparr>"

definition queue_zero :: dn_queue where
  "queue_zero = \<lparr>q_ni = flow_zero, q_mq = [], q_si = None, q_fs = None, q_avg = 0, q_count = 0,
     q_random = 0, q_time = 0\<rparr>"

definition fs_zero :: dn_fs where
  "fs_zero = \<lparr>fs_oid = oid_zero, fs_nr = 0, fs_flags = 0, qsize = 0, plr = 0, fs_buckets = 0, flow_mask = fid_zero,
     fs_sched_nr = 0, fs_par = (\<lambda>_. 0), fs_w_q = 0, fs_max_th = 0, fs_min_th = 0, fs_max_p = 0\<rparr>"

definition fsk_zero :: dn_fsk where
  "fsk_zero = \<lparr>fsk_fs = fs_zero, fsk_mask = fid_zero, qht = NoObj, fsk_sched = None,
     fsk_drain_bucket = 0, w_q = 0, max_th = 0, min_th = 0, max_p = 0, c_1 = 0, c_2 = 0, c_3 = 0,
     c_4 = 0, w_q_lookup = (\<lambda>_. 0), lookup_depth = 0, lookup_step = 0, lookup_weight = 0,
     avg_pkt_size = 0, max_pkt_size = 0\<rparr>"

definition link_zero :: dn_link where
  "link_zero = \<lparr>link_oid = oid_zero, link_nr = 0, bandwidth = 0, delay = 0, burst = 0\<rparr>"

definition sch_zero :: dn_sch where
  "sch_zero = \<lparr>sch_oid = oid_zero, sch_nr = 0, sch_buckets = 0, sch_flags = 0, sch_name = [],
     sched_mask = fid_zero\<rparr>"

definition schk_zero :: dn_schk where
  "schk_zero = \<lparr>sk_sch = sch_zero, sk_fp = None, sk_link = link_zero, sk_profile = None, sk_cfg = None, fsk_list = [],
     sk_fs = None, sk_drain_bucket = 0, siht = NoObj\<rparr>"

definition si_zero :: dn_sch_inst where
  "si_zero = \<lparr>si_ni = flow_zero, si_dline = [], dline_in_heap = False, si_sched = 0, si_kflags = 0,
     si_credit = 0, sched_time = 0, idle_time = 0, si_q_count = 0\<rparr>"

definition env_zero :: dn_env where
  "env_zero = \<lparr>qs = (\<lambda>_. queue_zero), fsks = (\<lambda>_. fsk_zero), sis = (\<lambda>_. si_zero),
     schks = (\<lambda>_. schk_zero), idle_queue = 0, idle_si = 0, curr_time = 0, io_pkt_drop = 0,
     rand = (\<lambda>_. 0), freed = []\<rparr>"

lemmas dn_zero_defs = in6_zero_def fid_zero_def oid_zero_def flow_zero_def queue_zero_def fs_zero_def
  fsk_zero_def link_zero_def sch_zero_def schk_zero_def si_zero_def env_zero_def

end
