(* ===== verification/DnQueue.thy ===== *)
theory DnQueue
  imports DnTypes
begin

text \<open>
  Packet queues: the pointer structure \<open>struct mq\<close> and its refinement to lists, the queue
  management of \<open>sys/netinet/ipfw/ip_dn_io.c\<close> (RED, loss, queue limits, statistics) and
  \<open>dn_dequeue\<close> of \<open>sys/netinet/ipfw/dn_sched.h\<close>, with the accounting invariant of the
  counters.
\<close>

section \<open>The pointer structure\<close>

record mq =
  mq_head :: "nat option"
  mq_tail :: "nat option"

text \<open>\<open>mq_append\<close>; the links \<open>m_nextpkt\<close> of all packets are a map.\<close>

definition mq_append :: "mq \<Rightarrow> nat \<Rightarrow> (nat \<Rightarrow> nat option) \<Rightarrow> mq \<times> (nat \<Rightarrow> nat option)" where
  "mq_append q m nxt =
     (let q1 = (if mq_head q = None then q\<lparr>mq_head := Some m\<rparr> else q);
          nxt1 = (if mq_head q = None then nxt else nxt(the (mq_tail q) := Some m))
      in (q1\<lparr>mq_tail := Some m\<rparr>, nxt1(m := None)))"

text \<open>Taking the head, as \<open>dn_dequeue\<close> and the delay line do: the tail pointer is left alone.\<close>

definition mq_pop :: "mq \<Rightarrow> (nat \<Rightarrow> nat option) \<Rightarrow> nat option \<times> mq" where
  "mq_pop q nxt = (case mq_head q of None \<Rightarrow> (None, q) | Some m \<Rightarrow> (Some m, q\<lparr>mq_head := nxt m\<rparr>))"

fun pkt_chain :: "(nat \<Rightarrow> nat option) \<Rightarrow> nat option \<Rightarrow> nat list \<Rightarrow> bool" where
  "pkt_chain nxt p [] = (p = None)"
| "pkt_chain nxt p (x # xs) = (p = Some x \<and> pkt_chain nxt (nxt x) xs)"

definition mq_rep :: "(nat \<Rightarrow> nat option) \<Rightarrow> mq \<Rightarrow> nat list \<Rightarrow> bool" where
  "mq_rep nxt q xs \<longleftrightarrow> pkt_chain nxt (mq_head q) xs \<and> distinct xs \<and> (xs \<noteq> [] \<longrightarrow> mq_tail q = Some (last xs))"

lemma pkt_chain_upd: "u \<notin> set xs \<Longrightarrow> pkt_chain (nxt(u := v)) p xs = pkt_chain nxt p xs"
  by (induction xs arbitrary: p) auto

lemma pkt_chain_snoc:
  assumes "pkt_chain nxt p xs" "xs \<noteq> []" "distinct xs" "m \<notin> set xs"
  shows "pkt_chain (nxt(last xs := Some m, m := None)) p (xs @ [m])"
  using assms
proof (induction xs arbitrary: p)
  case (Cons x xs)
  then show ?case by (cases "xs = []") auto
qed simp

lemma mq_append_rep:
  assumes "mq_rep nxt q xs" "m \<notin> set xs" "mq_append q m nxt = (q', nxt')"
  shows "mq_rep nxt' q' (xs @ [m])" "\<And>p. p \<noteq> m \<Longrightarrow> p \<notin> set xs \<Longrightarrow> nxt' p = nxt p"
proof -
  have h: "mq_head q = None \<longleftrightarrow> xs = []" using assms(1) by (cases xs) (auto simp: mq_rep_def)
  show "mq_rep nxt' q' (xs @ [m])"
    using assms pkt_chain_snoc [of nxt "mq_head q" xs m] h
    by (cases "xs = []") (auto simp: mq_rep_def mq_append_def Let_def)
  have "last xs \<in> set xs" if "xs \<noteq> []" using that by simp
  then show "nxt' p = nxt p" if "p \<noteq> m" "p \<notin> set xs" for p
    using assms that h by (cases "xs = []") (auto simp: mq_rep_def mq_append_def Let_def)
qed

lemma mq_pop_rep:
  assumes "mq_rep nxt q xs" "mq_pop q nxt = (p, q')"
  shows "mq_rep nxt q' (tl xs) \<and> p = (if xs = [] then None else Some (hd xs))"
  using assms by (cases xs) (auto simp: mq_rep_def mq_pop_def)

section \<open>Queue management\<close>

text \<open>
  \<open>dn_free_pkts\<close> releases a chain of packets.
\<close>

primrec dn_free_pkts :: "mbuf list \<Rightarrow> 'x dn_env_scheme \<Rightarrow> 'x dn_env_scheme" where
  "dn_free_pkts [] e = e"
| "dn_free_pkts (m # ms) e = dn_free_pkts ms (FREE_PKT m e)"

text \<open>
  RED: the new average queue size. The first branch is the moving average in fixed point, the
  second the decay over the idle time by table lookup, with the 32-bit unsigned product of the
  code. The two divisors, \<open>lookup_step\<close> here and \<open>max_pkt_size\<close> in \<open>red_p_b\<close>, are not 0 in a flowset configured for RED:
  \<open>config_red\<close> sets both to at least 1 (\<open>DnConfOk.config_red_divisors\<close>) and takes the RED flags away when it fails. Without that
  the code would fault, where the quotient of HOL is 0.
\<close>

definition red_q_size :: "dn_fsk \<Rightarrow> dn_queue \<Rightarrow> u32" where
  "red_q_size fs q = (if fs_flags (fsk_fs fs) AND DN_QSIZE_BYTES \<noteq> 0 then len_bytes (q_ni q)
     else fl_length (q_ni q))"

definition red_avg :: "dn_fsk \<Rightarrow> u64 \<Rightarrow> dn_queue \<Rightarrow> int" where
  "red_avg fs now q =
     (let q_size = red_q_size fs q in
      if q_size \<noteq> 0 then
        let diff = sint (push_bit 16 q_size - word_of_int (q_avg q));
            v = (diff * w_q fs) div 2 ^ 16
        in s32 (q_avg q + s32 v)
      else if q_avg q \<noteq> 0 then
        let t = (word_of_int (div64 (uint (now - q_time q)) (lookup_step fs)) :: u32)
        in if t < lookup_depth fs
           then uint (drop_bit 16 (word_of_int (q_avg q) * w_q_lookup fs (unat t) :: u32))
           else 0
      else q_avg q)"

text \<open>The drop probability above the minimum threshold, scaled.\<close>

definition red_p_b :: "dn_fsk \<Rightarrow> int \<Rightarrow> int \<Rightarrow> int" where
  "red_p_b fs avg len =
     (let p_b = (if max_th fs \<le> avg then (uint (c_3 fs) * avg) div 2 ^ 16 - uint (c_4 fs)
                 else if min_th fs < avg then (uint (c_1 fs) * avg) div 2 ^ 16 - uint (c_2 fs)
                 else 0)
      in if fs_flags (fsk_fs fs) AND DN_QSIZE_BYTES \<noteq> 0 then div64 (p_b * len) (max_pkt_size fs) else p_b)"

text \<open>\<open>red_drops\<close>: whether to drop, and the queue's RED state updated.\<close>

definition red_drops :: "qid \<Rightarrow> fsid \<Rightarrow> int \<Rightarrow> 'x dn_env_scheme \<Rightarrow> bool \<times> 'x dn_env_scheme" where
  "red_drops q f len e =
     (let fs = fsks e f;
          avg = red_avg fs (curr_time e) (qs e q);
          e = upd_q q (\<lambda>r. r\<lparr>q_avg := avg\<rparr>) e
      in if avg < min_th fs then (False, upd_q q (\<lambda>r. r\<lparr>q_count := -1\<rparr>) e)
         else if max_th fs \<le> avg \<and> fs_flags (fsk_fs fs) AND DN_IS_GENTLE_RED = 0
         then (True, upd_q q (\<lambda>r. r\<lparr>q_count := -1\<rparr>) e)
         else
           let p_b = red_p_b fs avg len;
               e = upd_q q (\<lambda>r. r\<lparr>q_count := q_count r + 1\<rparr>) e
           in if q_count (qs e q) = 0 then
                let (r, e) = get_random e
                in (False, upd_q q (\<lambda>u. u\<lparr>q_random := r AND 0xffff\<rparr>) e)
              else if q_random (qs e q) < s64 (p_b * (q_count (qs e q) * 2 ^ 16)) div 2 ^ 16 then
                let e = upd_q q (\<lambda>u. u\<lparr>q_count := 0\<rparr>) e;
                    (r, e) = get_random e
                in (True, upd_q q (\<lambda>u. u\<lparr>q_random := r AND 0xffff\<rparr>) e)
              else (False, e))"

text \<open>The statistics of an arrival, of an accepted packet and of a dropped one.\<close>

definition ni_arrive :: "u64 \<Rightarrow> dn_flow \<Rightarrow> dn_flow" where
  "ni_arrive len n = n\<lparr>tot_bytes := tot_bytes n + len, tot_pkts := tot_pkts n + 1\<rparr>"

definition ni_add :: "u64 \<Rightarrow> dn_flow \<Rightarrow> dn_flow" where
  "ni_add len n = n\<lparr>fl_length := fl_length n + 1, len_bytes := len_bytes n + ucast len\<rparr>"

definition ni_sub :: "int \<Rightarrow> dn_flow \<Rightarrow> dn_flow" where
  "ni_sub len n = n\<lparr>fl_length := fl_length n - 1, len_bytes := len_bytes n - word_of_int len\<rparr>"

definition ni_drop :: "dn_flow \<Rightarrow> dn_flow" where
  "ni_drop n = n\<lparr>drops := drops n + 1\<rparr>"

definition drop_pkt :: "qid \<Rightarrow> siid \<Rightarrow> mbuf \<Rightarrow> 'x dn_env_scheme \<Rightarrow> 'x dn_env_scheme" where
  "drop_pkt q i m e =
     FREE_PKT m (upd_si i (\<lambda>s. s\<lparr>si_ni := ni_drop (si_ni s)\<rparr>)
       (upd_q q (\<lambda>r. r\<lparr>q_ni := ni_drop (q_ni r)\<rparr>) (e\<lparr>io_pkt_drop := io_pkt_drop e + 1\<rparr>)))"

text \<open>The reasons to drop, in the order of the code; \<open>random()\<close> is consulted for the loss rate.\<close>

definition must_drop :: "qid \<Rightarrow> fsid \<Rightarrow> mbuf \<Rightarrow> bool \<Rightarrow> 'x dn_env_scheme \<Rightarrow> bool \<times> 'x dn_env_scheme" where
  "must_drop q f m dr e =
     (let fs = fsk_fs (fsks e f) in
      if dr then (True, e)
      else
        let (lost, e) = (if plr fs \<noteq> 0 then let (r, e) = get_random e in (r < plr fs, e) else (False, e))
        in if lost then (True, e)
           else
             let (red, e) = (if fs_flags fs AND DN_IS_RED \<noteq> 0 then red_drops q f (m_len m) e else (False, e))
             in if red then (True, e)
                else if fs_flags fs AND DN_QSIZE_BYTES \<noteq> 0
                then (word_of_int (qsize fs) < len_bytes (q_ni (qs e q)), e)
                else (word_of_int (qsize fs) \<le> fl_length (q_ni (qs e q)), e))"

text \<open>The statistics update on arrival, and the acceptance of a packet (counters, append).\<close>

definition arrive_pkt :: "qid \<Rightarrow> siid \<Rightarrow> mbuf \<Rightarrow> 'x dn_env_scheme \<Rightarrow> 'x dn_env_scheme" where
  "arrive_pkt q i m e =
     (let len = (word_of_int (m_len m) :: u64)
      in upd_si i (\<lambda>s. s\<lparr>si_ni := ni_arrive len (si_ni s)\<rparr>)
           (upd_q q (\<lambda>r. r\<lparr>q_ni := ni_arrive len (q_ni r)\<rparr>) e))"

definition mark_busy :: "qid \<Rightarrow> siid \<Rightarrow> 'x dn_env_scheme \<Rightarrow> 'x dn_env_scheme" where
  "mark_busy q i e =
     (if fl_length (q_ni (qs e q)) = 0 then
        let e = e\<lparr>idle_queue := idle_queue e - 1\<rparr>
        in if fl_length (si_ni (sis e i)) = 0 then e\<lparr>idle_si := idle_si e - 1\<rparr> else e
      else e)"

definition accept_pkt :: "qid \<Rightarrow> siid \<Rightarrow> mbuf \<Rightarrow> 'x dn_env_scheme \<Rightarrow> 'x dn_env_scheme" where
  "accept_pkt q i m e =
     (let len = (word_of_int (m_len m) :: u64);
          e = upd_q q (\<lambda>r. r\<lparr>q_mq := q_mq r @ [m]\<rparr>) e;
          e = mark_busy q i e;
          e = upd_q q (\<lambda>r. r\<lparr>q_ni := ni_add len (q_ni r)\<rparr>) e
      in upd_si i (\<lambda>s. s\<lparr>si_ni := ni_add len (si_ni s)\<rparr>) e)"

text \<open>\<open>dn_enqueue\<close>: 0 on success, 1 on a drop; the packet is consumed anyway.\<close>

definition dn_enqueue :: "qid \<Rightarrow> mbuf \<Rightarrow> bool \<Rightarrow> 'x dn_env_scheme \<Rightarrow> nat \<times> 'x dn_env_scheme" where
  "dn_enqueue q m dr e =
     (case (q_fs (qs e q), q_si (qs e q)) of
        (Some f, Some i) \<Rightarrow>
          let (d, e) = must_drop q f m dr (arrive_pkt q i m e)
          in if d then (1, drop_pkt q i m e) else (0, accept_pkt q i m e)
      | _ \<Rightarrow> (1, FREE_PKT m e))"

text \<open>\<open>dn_dequeue\<close>: extract the head of a queue and update the statistics.\<close>

definition mark_queue_idle :: "qid \<Rightarrow> 'x dn_env_scheme \<Rightarrow> 'x dn_env_scheme" where
  "mark_queue_idle q e =
     (if fl_length (q_ni (qs e q)) = 0 then
        upd_q q (\<lambda>r. r\<lparr>q_time := curr_time e\<rparr>) (e\<lparr>idle_queue := idle_queue e + 1\<rparr>)
      else e)"

definition si_leave :: "siid \<Rightarrow> mbuf \<Rightarrow> 'x dn_env_scheme \<Rightarrow> 'x dn_env_scheme" where
  "si_leave i m e =
     (let e = upd_si i (\<lambda>s. s\<lparr>si_ni := ni_sub (m_len m) (si_ni s)\<rparr>) e
      in if fl_length (si_ni (sis e i)) = 0 then e\<lparr>idle_si := idle_si e + 1\<rparr> else e)"

definition dn_dequeue :: "qid \<Rightarrow> 'x dn_env_scheme \<Rightarrow> mbuf option \<times> 'x dn_env_scheme" where
  "dn_dequeue q e =
     (case mq e q of
        [] \<Rightarrow> (None, e)
      | m # ms \<Rightarrow>
          let e = upd_q q (\<lambda>r. r\<lparr>q_mq := ms, q_ni := ni_sub (m_len m) (q_ni r)\<rparr>) e;
              e = mark_queue_idle q e
          in (Some m, case q_si (qs e q) of None \<Rightarrow> e | Some i \<Rightarrow> si_leave i m e))"

section \<open>What the operations touch\<close>

text \<open>\<open>red_frame q e e'\<close>: only the RED fields of queue \<open>q\<close> and the random numbers changed.\<close>

definition red_frame :: "qid \<Rightarrow> 'x dn_env_scheme \<Rightarrow> 'x dn_env_scheme \<Rightarrow> bool" where
  "red_frame q e e' \<longleftrightarrow> (\<exists>a c r rn. e' = e\<lparr>qs := (qs e)(q := (qs e q)\<lparr>q_avg := a, q_count := c, q_random := r\<rparr>),
     rand := rn\<rparr>)"

lemma red_frame_refl: "red_frame q e e"
  unfolding red_frame_def
  by (rule exI [of _ "q_avg (qs e q)"], rule exI [of _ "q_count (qs e q)"],
      rule exI [of _ "q_random (qs e q)"], rule exI [of _ "rand e"]) simp

lemma red_frame_trans: "red_frame q e e1 \<Longrightarrow> red_frame q e1 e2 \<Longrightarrow> red_frame q e e2"
  unfolding red_frame_def by (elim exE) (simp, blast)

lemma red_frame_rand: "red_frame q e (e\<lparr>rand := rn\<rparr>)"
  unfolding red_frame_def
  by (rule exI [of _ "q_avg (qs e q)"], rule exI [of _ "q_count (qs e q)"],
      rule exI [of _ "q_random (qs e q)"], rule exI [of _ rn]) simp

lemma red_frame_upd:
  assumes "\<And>u. f u = u\<lparr>q_avg := fa u, q_count := fc u, q_random := fr u\<rparr>"
  shows "red_frame q e (upd_q q f e)"
  unfolding red_frame_def upd_q_def
  by (rule exI [of _ "fa (qs e q)"], rule exI [of _ "fc (qs e q)"],
      rule exI [of _ "fr (qs e q)"], rule exI [of _ "rand e"]) (simp add: assms)

lemma red_frame_steps:
  "red_frame q e (upd_q q (\<lambda>r. r\<lparr>q_avg := a\<rparr>) e)"
  "red_frame q e (upd_q q (\<lambda>r. r\<lparr>q_count := fc r\<rparr>) e)"
  "red_frame q e (upd_q q (\<lambda>r. r\<lparr>q_count := a\<rparr>) e)"
  "red_frame q e (upd_q q (\<lambda>r. r\<lparr>q_random := a\<rparr>) e)"
  by (rule red_frame_upd [where fa = "\<lambda>_. a" and fc = q_count and fr = q_random]
      red_frame_upd [where fa = q_avg and fc = fc and fr = q_random]
      red_frame_upd [where fa = q_avg and fc = "\<lambda>_. a" and fr = q_random]
      red_frame_upd [where fa = q_avg and fc = q_count and fr = "\<lambda>_. a"], simp)+

lemma red_frame_random: "get_random e = (r, e') \<Longrightarrow> red_frame q e e'"
  by (auto simp: get_random_def intro: red_frame_rand)

lemma red_frame_then:
  "red_frame q e e1 \<Longrightarrow> red_frame q e (upd_q q (\<lambda>r. r\<lparr>q_avg := a\<rparr>) e1)"
  "red_frame q e e1 \<Longrightarrow> red_frame q e (upd_q q (\<lambda>r. r\<lparr>q_count := fc r\<rparr>) e1)"
  "red_frame q e e1 \<Longrightarrow> red_frame q e (upd_q q (\<lambda>r. r\<lparr>q_count := a\<rparr>) e1)"
  "red_frame q e e1 \<Longrightarrow> red_frame q e (upd_q q (\<lambda>r. r\<lparr>q_random := a\<rparr>) e1)"
  "get_random e1 = (r, e2) \<Longrightarrow> red_frame q e e1 \<Longrightarrow> red_frame q e e2"
  by (blast intro: red_frame_trans red_frame_steps red_frame_random)+

lemma red_drops_frame: "red_drops q f len e = (d, e') \<Longrightarrow> red_frame q e e'"
  unfolding red_drops_def Let_def
  by (auto split: if_splits prod.splits intro: red_frame_then red_frame_refl)
    (rule red_frame_then, (erule red_frame_then | rule red_frame_then red_frame_refl | assumption)+)+

lemma must_drop_frame: "must_drop q f m dr e = (d, e') \<Longrightarrow> red_frame q e e'"
  unfolding must_drop_def Let_def
  by (auto split: if_splits prod.splits
      intro: red_frame_trans red_frame_random red_drops_frame red_frame_refl)

lemma red_frame_fields:
  assumes "red_frame q e e'"
  shows "fsks e' = fsks e" "sis e' = sis e" "schks e' = schks e" "idle_queue e' = idle_queue e"
    "idle_si e' = idle_si e" "curr_time e' = curr_time e" "io_pkt_drop e' = io_pkt_drop e"
    "freed e' = freed e" "q_mq (qs e' p) = q_mq (qs e p)" "q_ni (qs e' p) = q_ni (qs e p)"
    "q_si (qs e' p) = q_si (qs e p)" "q_fs (qs e' p) = q_fs (qs e p)" "p \<noteq> q \<Longrightarrow> qs e' p = qs e p"
    "dn_env.more e' = dn_env.more e"
  using assms by (auto simp: red_frame_def)

section \<open>The accounting invariant\<close>

text \<open>
  For a set \<open>Q\<close> of queues attached to instances in \<open>I\<close>: the statistics of each queue and
  each instance count exactly the packets that are in the queues, and \<open>idle_queue\<close> and
  \<open>idle_si\<close> are the numbers of empty queues and instances.
\<close>

definition bytes_of :: "mbuf list \<Rightarrow> int" where
  "bytes_of ms = (\<Sum>m\<leftarrow>ms. m_len m)"

definition ni_counts :: "dn_flow \<Rightarrow> nat \<Rightarrow> int \<Rightarrow> bool" where
  "ni_counts n pkts bytes \<longleftrightarrow> fl_length n = of_nat pkts \<and> len_bytes n = of_int bytes"

definition si_pkts :: "qid set \<Rightarrow> 'x dn_env_scheme \<Rightarrow> siid \<Rightarrow> nat" where
  "si_pkts Q e i = (\<Sum>q\<in>Q. if q_si (qs e q) = Some i then length (mq e q) else 0)"

definition si_bytes :: "qid set \<Rightarrow> 'x dn_env_scheme \<Rightarrow> siid \<Rightarrow> int" where
  "si_bytes Q e i = (\<Sum>q\<in>Q. if q_si (qs e q) = Some i then bytes_of (mq e q) else 0)"

definition acct :: "qid set \<Rightarrow> siid set \<Rightarrow> 'x dn_env_scheme \<Rightarrow> bool" where
  "acct Q I e \<longleftrightarrow> finite Q \<and> finite I \<and>
     (\<forall>q\<in>Q. ni_counts (q_ni (qs e q)) (length (mq e q)) (bytes_of (mq e q)) \<and> (\<exists>i\<in>I. q_si (qs e q) = Some i)) \<and>
     (\<forall>i\<in>I. ni_counts (si_ni (sis e i)) (si_pkts Q e i) (si_bytes Q e i)) \<and>
     idle_queue e = int (card {q\<in>Q. mq e q = []}) \<and>
     idle_si e = int (card {i\<in>I. si_pkts Q e i = 0})"

text \<open>Replacing the contents of one queue.\<close>

lemma si_pkts_change:
  assumes "finite Q" "q \<in> Q" "\<And>p. p \<noteq> q \<Longrightarrow> qs e' p = qs e p" "q_si (qs e' q) = q_si (qs e q)"
  shows "int (si_pkts Q e' j) = int (si_pkts Q e j) +
      (if q_si (qs e q) = Some j then int (length (mq e' q)) - int (length (mq e q)) else 0)"
    "si_bytes Q e' j = si_bytes Q e j +
      (if q_si (qs e q) = Some j then bytes_of (mq e' q) - bytes_of (mq e q) else 0)"
proof -
  have c: "int (si_pkts Q x j) = (\<Sum>q\<in>Q. if q_si (qs x q) = Some j then int (length (mq x q)) else 0)"
    for x :: "'x dn_env_scheme"
    by (simp add: si_pkts_def if_distrib [of int] cong: if_cong)
  show "int (si_pkts Q e' j) = int (si_pkts Q e j) +
      (if q_si (qs e q) = Some j then int (length (mq e' q)) - int (length (mq e q)) else 0)"
    unfolding c
    using sum_change [OF assms(1,2), where f = "\<lambda>p. if q_si (qs e p) = Some j then int (length (mq e p)) else 0"
        and g = "\<lambda>p. if q_si (qs e' p) = Some j then int (length (mq e' p)) else 0"] assms(3,4)
    by simp
  show "si_bytes Q e' j = si_bytes Q e j +
      (if q_si (qs e q) = Some j then bytes_of (mq e' q) - bytes_of (mq e q) else 0)"
    unfolding si_bytes_def
    using sum_change [OF assms(1,2), where f = "\<lambda>p. if q_si (qs e p) = Some j then bytes_of (mq e p) else 0"
        and g = "\<lambda>p. if q_si (qs e' p) = Some j then bytes_of (mq e' p) else 0"] assms(3,4)
    by simp
qed

lemma acct_change:
  assumes acct: "acct Q I e" and q: "q \<in> Q" and i: "q_si (qs e q) = Some i"
    and other: "\<And>p. p \<noteq> q \<Longrightarrow> qs e' p = qs e p" "q_si (qs e' q) = q_si (qs e q)"
    and ni: "ni_counts (q_ni (qs e' q)) (length (mq e' q)) (bytes_of (mq e' q))"
    and sni: "ni_counts (si_ni (sis e' i)) (si_pkts Q e' i) (si_bytes Q e' i)"
      "\<And>j. j \<noteq> i \<Longrightarrow> si_ni (sis e' j) = si_ni (sis e j)"
    and idle: "idle_queue e' = idle_queue e + of_bool (mq e' q = []) - of_bool (mq e q = [])"
      "idle_si e' = idle_si e + of_bool (si_pkts Q e' i = 0) - of_bool (si_pkts Q e i = 0)"
  shows "acct Q I e'"
proof -
  have fin: "finite Q" "finite I" and iI: "i \<in> I" using acct q i by (auto simp: acct_def)
  note c = si_pkts_change [OF fin(1) q other]
  have j: "si_pkts Q e' j = si_pkts Q e j" "si_bytes Q e' j = si_bytes Q e j" if "j \<noteq> i" for j
    using c [of j] that i by auto
  have "int (card {q\<in>Q. mq e' q = []}) = int (card {q\<in>Q. mq e q = []}) + of_bool (mq e' q = []) - of_bool (mq e q = [])"
    by (rule card_change [OF fin(1) q]) (simp add: other)
  moreover have "int (card {i\<in>I. si_pkts Q e' i = 0}) = int (card {i\<in>I. si_pkts Q e i = 0}) +
      of_bool (si_pkts Q e' i = 0) - of_bool (si_pkts Q e i = 0)"
    by (rule card_change [OF fin(2) iI]) (simp add: j)
  moreover have "ni_counts (q_ni (qs e' p)) (length (mq e' p)) (bytes_of (mq e' p)) \<and>
      (\<exists>i\<in>I. q_si (qs e' p) = Some i)" if "p \<in> Q" for p
    using that acct ni other by (cases "p = q") (auto simp: acct_def)
  moreover have "ni_counts (si_ni (sis e' j)) (si_pkts Q e' j) (si_bytes Q e' j)" if "j \<in> I" for j
    using that acct sni by (cases "j = i") (auto simp: acct_def j)
  ultimately show ?thesis using acct idle fin by (simp add: acct_def)
qed

text \<open>An environment that differs only in fields the invariant does not mention.\<close>

lemma acct_cong:
  assumes "acct Q I e"
    "\<And>q. mq e' q = mq e q" "\<And>q. q_si (qs e' q) = q_si (qs e q)"
    "\<And>q. fl_length (q_ni (qs e' q)) = fl_length (q_ni (qs e q))"
    "\<And>q. len_bytes (q_ni (qs e' q)) = len_bytes (q_ni (qs e q))"
    "\<And>i. fl_length (si_ni (sis e' i)) = fl_length (si_ni (sis e i))"
    "\<And>i. len_bytes (si_ni (sis e' i)) = len_bytes (si_ni (sis e i))"
    "idle_queue e' = idle_queue e" "idle_si e' = idle_si e"
  shows "acct Q I e'"
proof -
  have "si_pkts Q e' = si_pkts Q e" "si_bytes Q e' = si_bytes Q e"
    by (simp_all add: fun_eq_iff si_pkts_def si_bytes_def assms(2,3) cong: if_cong)
  with assms show ?thesis by (simp add: acct_def ni_counts_def)
qed

lemma of_nat_u32_eq_0: "n < 2 ^ 32 \<Longrightarrow> (of_nat n :: u32) = 0 \<longleftrightarrow> n = 0"
  by (simp add: word_of_nat_eq_0_iff) (use nat_dvd_not_less in blast)

definition total_pkts :: "qid set \<Rightarrow> 'x dn_env_scheme \<Rightarrow> nat" where
  "total_pkts Q e = (\<Sum>q\<in>Q. length (mq e q))"

lemma si_pkts_le: "si_pkts Q e i \<le> total_pkts Q e"
  unfolding si_pkts_def total_pkts_def by (rule sum_mono) simp

lemma queue_le_si: "finite Q \<Longrightarrow> q \<in> Q \<Longrightarrow> q_si (qs e q) = Some i \<Longrightarrow> length (mq e q) \<le> si_pkts Q e i"
  unfolding si_pkts_def
  by (rule order_trans [OF _ member_le_sum [of q Q "\<lambda>q. if q_si (qs e q) = Some i then length (mq e q) else 0"]]) auto

lemma ucast_of_int_len: "ucast (word_of_int x :: u64) = (word_of_int x :: u32)"
  by (rule bit_word_eqI) (simp add: bit_ucast_iff bit_word_of_int_iff)

lemma ni_counts_add:
  "ni_counts n p b \<Longrightarrow> ni_counts (ni_add (word_of_int l) n) (Suc p) (b + l)"
  by (simp add: ni_counts_def ni_add_def ucast_of_int_len)

lemma ni_counts_sub:
  "ni_counts n (Suc p) b \<Longrightarrow> ni_counts (ni_sub l n) p (b - l)"
  by (simp add: ni_counts_def ni_sub_def)

lemma bytes_of_append: "bytes_of (xs @ ys) = bytes_of xs + bytes_of ys"
  by (simp add: bytes_of_def)

text \<open>What the parts of the two operations do to each field.\<close>

lemma mark_busy_simps [simp]:
  "qs (mark_busy q i e) = qs e" "sis (mark_busy q i e) = sis e" "fsks (mark_busy q i e) = fsks e"
  "schks (mark_busy q i e) = schks e" "curr_time (mark_busy q i e) = curr_time e"
  "freed (mark_busy q i e) = freed e" "rand (mark_busy q i e) = rand e"
  "dn_env.more (mark_busy q i e) = dn_env.more e" "io_pkt_drop (mark_busy q i e) = io_pkt_drop e"
  by (simp_all add: mark_busy_def Let_def)

lemma mark_busy_idle:
  "idle_queue (mark_busy q i e) = idle_queue e - of_bool (fl_length (q_ni (qs e q)) = 0)"
  "idle_si (mark_busy q i e) =
     idle_si e - of_bool (fl_length (q_ni (qs e q)) = 0 \<and> fl_length (si_ni (sis e i)) = 0)"
  by (simp_all add: mark_busy_def Let_def)

lemma accept_pkt_simps [simp]:
  "qs (accept_pkt q i m e) = (qs e)(q := (qs e q)\<lparr>q_mq := mq e q @ [m],
     q_ni := ni_add (word_of_int (m_len m)) (q_ni (qs e q))\<rparr>)"
  "sis (accept_pkt q i m e) = (sis e)(i := (sis e i)\<lparr>si_ni := ni_add (word_of_int (m_len m)) (si_ni (sis e i))\<rparr>)"
  "fsks (accept_pkt q i m e) = fsks e" "schks (accept_pkt q i m e) = schks e"
  "curr_time (accept_pkt q i m e) = curr_time e" "freed (accept_pkt q i m e) = freed e"
  "rand (accept_pkt q i m e) = rand e" "dn_env.more (accept_pkt q i m e) = dn_env.more e" "io_pkt_drop (accept_pkt q i m e) = io_pkt_drop e"
  by (simp_all add: accept_pkt_def Let_def)

lemma accept_pkt_idle:
  "idle_queue (accept_pkt q i m e) = idle_queue e - of_bool (fl_length (q_ni (qs e q)) = 0)"
  "idle_si (accept_pkt q i m e) =
     idle_si e - of_bool (fl_length (q_ni (qs e q)) = 0 \<and> fl_length (si_ni (sis e i)) = 0)"
  by (simp_all add: accept_pkt_def Let_def mark_busy_idle)

lemma arrive_pkt_simps [simp]:
  "qs (arrive_pkt q i m e) = (qs e)(q := (qs e q)\<lparr>q_ni := ni_arrive (word_of_int (m_len m)) (q_ni (qs e q))\<rparr>)"
  "sis (arrive_pkt q i m e) =
     (sis e)(i := (sis e i)\<lparr>si_ni := ni_arrive (word_of_int (m_len m)) (si_ni (sis e i))\<rparr>)"
  "fsks (arrive_pkt q i m e) = fsks e" "schks (arrive_pkt q i m e) = schks e"
  "curr_time (arrive_pkt q i m e) = curr_time e" "freed (arrive_pkt q i m e) = freed e"
  "rand (arrive_pkt q i m e) = rand e" "dn_env.more (arrive_pkt q i m e) = dn_env.more e" "io_pkt_drop (arrive_pkt q i m e) = io_pkt_drop e"
  "idle_queue (arrive_pkt q i m e) = idle_queue e" "idle_si (arrive_pkt q i m e) = idle_si e"
  by (simp_all add: arrive_pkt_def Let_def)

lemma drop_pkt_simps [simp]:
  "qs (drop_pkt q i m e) = (qs e)(q := (qs e q)\<lparr>q_ni := ni_drop (q_ni (qs e q))\<rparr>)"
  "sis (drop_pkt q i m e) = (sis e)(i := (sis e i)\<lparr>si_ni := ni_drop (si_ni (sis e i))\<rparr>)"
  "fsks (drop_pkt q i m e) = fsks e" "schks (drop_pkt q i m e) = schks e"
  "curr_time (drop_pkt q i m e) = curr_time e" "freed (drop_pkt q i m e) = freed e @ [m]"
  "rand (drop_pkt q i m e) = rand e" "dn_env.more (drop_pkt q i m e) = dn_env.more e" "io_pkt_drop (drop_pkt q i m e) = io_pkt_drop e + 1"
  "idle_queue (drop_pkt q i m e) = idle_queue e" "idle_si (drop_pkt q i m e) = idle_si e"
  by (simp_all add: drop_pkt_def Let_def)

lemma mark_queue_idle_simps [simp]:
  "fl_length (q_ni (qs (mark_queue_idle q e) p)) = fl_length (q_ni (qs e p))"
  "q_ni (qs (mark_queue_idle q e) p) = q_ni (qs e p)" "mq (mark_queue_idle q e) p = mq e p"
  "q_si (qs (mark_queue_idle q e) p) = q_si (qs e p)" "q_fs (qs (mark_queue_idle q e) p) = q_fs (qs e p)"
  "p \<noteq> q \<Longrightarrow> qs (mark_queue_idle q e) p = qs e p"
  "sis (mark_queue_idle q e) = sis e" "fsks (mark_queue_idle q e) = fsks e"
  "schks (mark_queue_idle q e) = schks e" "curr_time (mark_queue_idle q e) = curr_time e"
  "freed (mark_queue_idle q e) = freed e" "rand (mark_queue_idle q e) = rand e"
  "idle_si (mark_queue_idle q e) = idle_si e" "dn_env.more (mark_queue_idle q e) = dn_env.more e" "io_pkt_drop (mark_queue_idle q e) = io_pkt_drop e"
  "idle_queue (mark_queue_idle q e) = idle_queue e + of_bool (fl_length (q_ni (qs e q)) = 0)"
  by (simp_all add: mark_queue_idle_def)

lemma si_leave_simps [simp]:
  "qs (si_leave i m e) = qs e" "fsks (si_leave i m e) = fsks e" "schks (si_leave i m e) = schks e"
  "curr_time (si_leave i m e) = curr_time e" "freed (si_leave i m e) = freed e"
  "rand (si_leave i m e) = rand e" "idle_queue (si_leave i m e) = idle_queue e"
  "dn_env.more (si_leave i m e) = dn_env.more e" "io_pkt_drop (si_leave i m e) = io_pkt_drop e"
  "sis (si_leave i m e) = (sis e)(i := (sis e i)\<lparr>si_ni := ni_sub (m_len m) (si_ni (sis e i))\<rparr>)"
  "idle_si (si_leave i m e) = idle_si e + of_bool (fl_length (ni_sub (m_len m) (si_ni (sis e i))) = 0)"
  by (simp_all add: si_leave_def Let_def)

text \<open>The invariant across an acceptance and across the removal of a head.\<close>

lemma acct_zero:
  assumes acct: "acct Q I e" and q: "q \<in> Q" and i: "q_si (qs e q) = Some i" and b: "total_pkts Q e < 2 ^ 32"
  shows "fl_length (q_ni (qs e q)) = 0 \<longleftrightarrow> mq e q = []"
    "fl_length (si_ni (sis e i)) = 0 \<longleftrightarrow> si_pkts Q e i = 0" "length (mq e q) \<le> si_pkts Q e i"
proof -
  have fin: "finite Q" and nq: "ni_counts (q_ni (qs e q)) (length (mq e q)) (bytes_of (mq e q))"
    and ni: "ni_counts (si_ni (sis e i)) (si_pkts Q e i) (si_bytes Q e i)"
    using acct q i by (auto simp: acct_def)
  show le: "length (mq e q) \<le> si_pkts Q e i" by (rule queue_le_si [OF fin q i])
  have "si_pkts Q e i < 2 ^ 32" using si_pkts_le b by (rule order_le_less_trans)
  then show "fl_length (q_ni (qs e q)) = 0 \<longleftrightarrow> mq e q = []"
    "fl_length (si_ni (sis e i)) = 0 \<longleftrightarrow> si_pkts Q e i = 0"
    using nq ni le of_nat_u32_eq_0 [of "length (mq e q)"] of_nat_u32_eq_0 [of "si_pkts Q e i"]
    by (simp_all add: ni_counts_def)
qed

lemma acct_accept:
  assumes acct: "acct Q I e" and q: "q \<in> Q" and i: "q_si (qs e q) = Some i"
    and bound: "total_pkts Q e < 2 ^ 32"
  shows "acct Q I (accept_pkt q i m e)"
proof (rule acct_change [OF acct q i])
  let ?e = "accept_pkt q i m e"
  have fin: "finite Q" and nq: "ni_counts (q_ni (qs e q)) (length (mq e q)) (bytes_of (mq e q))"
    and ni: "ni_counts (si_ni (sis e i)) (si_pkts Q e i) (si_bytes Q e i)"
    using acct q i by (auto simp: acct_def)
  note z = acct_zero [OF acct q i bound]
  show o: "qs ?e p = qs e p" if "p \<noteq> q" for p using that by simp
  show o2: "q_si (qs ?e q) = q_si (qs e q)" by simp
  have c: "si_pkts Q ?e i = Suc (si_pkts Q e i)" "si_bytes Q ?e i = si_bytes Q e i + m_len m"
    using si_pkts_change [OF fin q o o2, of i] i by (simp_all add: bytes_of_def)
  show "ni_counts (q_ni (qs ?e q)) (length (mq ?e q)) (bytes_of (mq ?e q))"
    using ni_counts_add [OF nq, of "m_len m"] by (simp add: bytes_of_def)
  show "ni_counts (si_ni (sis ?e i)) (si_pkts Q ?e i) (si_bytes Q ?e i)"
    using ni_counts_add [OF ni, of "m_len m"] by (simp add: c)
  show "si_ni (sis ?e j) = si_ni (sis e j)" if "j \<noteq> i" for j using that by simp
  show "idle_queue ?e = idle_queue e + of_bool (mq ?e q = []) - of_bool (mq e q = [])"
    by (simp add: accept_pkt_idle z(1))
  show "idle_si ?e = idle_si e + of_bool (si_pkts Q ?e i = 0) - of_bool (si_pkts Q e i = 0)"
    unfolding accept_pkt_idle z(1,2) c using z(3) by auto
qed

text \<open>
  What the clients of a queue see. \<open>queue_step q xs fr e e'\<close>: the contents of queue \<open>q\<close>
  became \<open>xs\<close>, the packets \<open>fr\<close> were released, all other queues and all the configuration
  are as before.
\<close>

definition queue_step :: "qid \<Rightarrow> mbuf list \<Rightarrow> mbuf list \<Rightarrow> 'x dn_env_scheme \<Rightarrow> 'x dn_env_scheme \<Rightarrow> bool" where
  "queue_step q xs fr e e' \<longleftrightarrow> mq e' q = xs \<and> freed e' = freed e @ fr \<and>
     (\<forall>p. p \<noteq> q \<longrightarrow> qs e' p = qs e p) \<and> q_si (qs e' q) = q_si (qs e q) \<and> q_fs (qs e' q) = q_fs (qs e q) \<and>
     fsks e' = fsks e \<and> schks e' = schks e \<and> curr_time e' = curr_time e \<and>
     (\<forall>i. si_sched (sis e' i) = si_sched (sis e i) \<and> si_dline (sis e' i) = si_dline (sis e i)) \<and>
     dn_env.more e' = dn_env.more e"

lemma dn_enqueue_eq:
  assumes "q_fs (qs e q) = Some f" "q_si (qs e q) = Some i" "must_drop q f m dr (arrive_pkt q i m e) = (d, e2)"
  shows "dn_enqueue q m dr e = (if d then (1, drop_pkt q i m e2) else (0, accept_pkt q i m e2))"
  using assms by (simp add: dn_enqueue_def)

lemma dn_enqueue_step:
  assumes "dn_enqueue q m dr e = (r, e')"
  shows "r = 0 \<and> queue_step q (mq e q @ [m]) [] e e' \<or> r = 1 \<and> queue_step q (mq e q) [m] e e'"
proof (cases "q_fs (qs e q) = None \<or> q_si (qs e q) = None")
  case True
  with assms show ?thesis by (auto simp: dn_enqueue_def queue_step_def split: option.splits)
next
  case False
  then obtain f i where fi: "q_fs (qs e q) = Some f" "q_si (qs e q) = Some i" by auto
  obtain d e2 where d: "must_drop q f m dr (arrive_pkt q i m e) = (d, e2)" by fastforce
  note fr = red_frame_fields [OF must_drop_frame [OF d]]
  show ?thesis
    using assms dn_enqueue_eq [OF fi d] by (cases d) (auto simp: queue_step_def fr)
qed

lemma dn_enqueue_acct:
  assumes acct: "acct Q I e" and q: "q \<in> Q" and bound: "total_pkts Q e < 2 ^ 32"
    and e: "dn_enqueue q m dr e = (r, e')"
  shows "acct Q I e'"
proof (cases "q_fs (qs e q)")
  case None
  with e have "e' = FREE_PKT m e" by (auto simp: dn_enqueue_def)
  then show ?thesis by (simp add: acct_cong [OF acct])
next
  case (Some f)
  obtain i where i: "q_si (qs e q) = Some i" using acct q by (auto simp: acct_def)
  obtain d e2 where d: "must_drop q f m dr (arrive_pkt q i m e) = (d, e2)" by fastforce
  note fr = red_frame_fields [OF must_drop_frame [OF d]]
  have a2: "acct Q I e2" by (rule acct_cong [OF acct]) (simp_all add: fr ni_arrive_def)
  have m2: "mq e2 p = mq e p" "q_si (qs e2 p) = q_si (qs e p)" for p by (simp_all add: fr)
  have b2: "total_pkts Q e2 < 2 ^ 32" using bound by (simp add: total_pkts_def m2)
  have i2: "q_si (qs e2 q) = Some i" using i by (simp add: m2)
  show ?thesis
  proof (cases d)
    case True
    with e dn_enqueue_eq [OF Some i d] have "e' = drop_pkt q i m e2" by simp
    then show ?thesis by (simp add: acct_cong [OF a2] ni_drop_def)
  next
    case False
    with e dn_enqueue_eq [OF Some i d] have "e' = accept_pkt q i m e2" by simp
    with acct_accept [OF a2 q i2 b2] show ?thesis by simp
  qed
qed

lemma dn_dequeue_step:
  assumes "dn_dequeue q e = (p, e')"
  shows "p = None \<and> mq e q = [] \<and> e' = e \<or>
    (\<exists>m ms. p = Some m \<and> mq e q = m # ms \<and> queue_step q ms [] e e')"
  using assms by (auto simp: dn_dequeue_def queue_step_def Let_def split: list.splits option.splits)

lemma dn_dequeue_acct:
  assumes acct: "acct Q I e" and q: "q \<in> Q" and bound: "total_pkts Q e < 2 ^ 32"
    and e: "dn_dequeue q e = (p, e')"
  shows "acct Q I e'"
proof (cases "mq e q")
  case Nil
  with e acct show ?thesis by (simp add: dn_dequeue_def)
next
  case (Cons m ms)
  obtain i where i: "q_si (qs e q) = Some i" using acct q by (auto simp: acct_def)
  define e1 where "e1 = mark_queue_idle q (upd_q q (\<lambda>r. r\<lparr>q_mq := ms, q_ni := ni_sub (m_len m) (q_ni r)\<rparr>) e)"
  have e': "e' = si_leave i m e1"
    using e i by (simp add: dn_dequeue_def Cons Let_def e1_def)
  have fin: "finite Q" and nq: "ni_counts (q_ni (qs e q)) (Suc (length ms)) (bytes_of (m # ms))"
    and ni: "ni_counts (si_ni (sis e i)) (si_pkts Q e i) (si_bytes Q e i)"
    using acct q i Cons by (auto simp: acct_def)
  have o: "qs e' p = qs e p" if "p \<noteq> q" for p using that by (simp add: e' e1_def)
  have mq': "mq e' q = ms" and o2: "q_si (qs e' q) = q_si (qs e q)" by (simp_all add: e' e1_def)
  have le: "Suc (length ms) \<le> si_pkts Q e i" using queue_le_si [OF fin q i] Cons by simp
  have c: "si_pkts Q e i = Suc (si_pkts Q e' i)" "si_bytes Q e' i = si_bytes Q e i - m_len m"
    using si_pkts_change [OF fin q o o2, of i] i Cons by (simp_all add: mq' bytes_of_def)
  have nq': "ni_counts (ni_sub (m_len m) (q_ni (qs e q))) (length ms) (bytes_of ms)"
    using ni_counts_sub [OF nq, of "m_len m"] by (simp add: bytes_of_def)
  have ni': "ni_counts (ni_sub (m_len m) (si_ni (sis e i))) (si_pkts Q e' i) (si_bytes Q e' i)"
    using ni_counts_sub [of _ "si_pkts Q e' i"] ni by (simp add: c)
  have small: "si_pkts Q e i < 2 ^ 32" using si_pkts_le bound by (rule order_le_less_trans)
  have z: "fl_length (ni_sub (m_len m) (q_ni (qs e q))) = 0 \<longleftrightarrow> ms = []"
    "fl_length (ni_sub (m_len m) (si_ni (sis e i))) = 0 \<longleftrightarrow> si_pkts Q e' i = 0"
    using nq' ni' of_nat_u32_eq_0 [of "length ms"] of_nat_u32_eq_0 [of "si_pkts Q e' i"] le small c(1)
    by (simp_all add: ni_counts_def)
  show ?thesis
  proof (rule acct_change [OF acct q i o o2])
    show "ni_counts (q_ni (qs e' q)) (length (mq e' q)) (bytes_of (mq e' q))"
      using nq' by (simp add: mq') (simp add: e' e1_def)
    show "ni_counts (si_ni (sis e' i)) (si_pkts Q e' i) (si_bytes Q e' i)"
      using ni' by (simp add: e' e1_def)
    show "si_ni (sis e' j) = si_ni (sis e j)" if "j \<noteq> i" for j using that by (simp add: e' e1_def)
    show "idle_queue e' = idle_queue e + of_bool (mq e' q = []) - of_bool (mq e q = [])"
      by (simp add: mq' Cons) (simp add: e' e1_def z)
    show "idle_si e' = idle_si e + of_bool (si_pkts Q e' i = 0) - of_bool (si_pkts Q e i = 0)"
    proof -
      have "idle_si e' = idle_si e1 + of_bool (fl_length (ni_sub (m_len m) (si_ni (sis e i))) = 0)"
        by (simp add: e' e1_def)
      then show ?thesis unfolding z c(1) by (simp add: e1_def)
    qed
  qed
qed

section \<open>RED arithmetic\<close>

lemma sint_u32_diff:
  assumes "0 \<le> a" "a < 2 ^ 31" "0 \<le> b" "b < 2 ^ 31"
  shows "sint (word_of_int a - word_of_int b :: u32) = a - b"
proof -
  have "(word_of_int a - word_of_int b :: u32) = word_of_int (a - b)" by simp
  then have "sint (word_of_int a - word_of_int b :: u32) = s32 (a - b)" by (simp add: s32_def)
  then show ?thesis using assms by (simp add: s32_id)
qed

text \<open>The moving average never leaves the interval between the old average and the sample.\<close>

lemma scaled_step_between:
  fixes d w :: int
  assumes "0 \<le> w" "w \<le> 2 ^ 16"
  shows "0 \<le> d \<Longrightarrow> 0 \<le> d * w div 2 ^ 16 \<and> d * w div 2 ^ 16 \<le> d"
    "d \<le> 0 \<Longrightarrow> d \<le> d * w div 2 ^ 16 \<and> d * w div 2 ^ 16 \<le> 0"
proof -
  assume d: "0 \<le> d"
  then have "d * w \<le> d * 2 ^ 16" using assms by (intro mult_left_mono) auto
  then have "d * w div 2 ^ 16 \<le> d * 2 ^ 16 div 2 ^ 16" by (rule zdiv_mono1) simp
  with d assms show "0 \<le> d * w div 2 ^ 16 \<and> d * w div 2 ^ 16 \<le> d"
    by (simp add: pos_imp_zdiv_nonneg_iff)
next
  assume d: "d \<le> 0"
  then have "d * 2 ^ 16 \<le> d * w" using assms by (intro mult_left_mono_neg) auto
  then have "d * 2 ^ 16 div 2 ^ 16 \<le> d * w div 2 ^ 16" by (rule zdiv_mono1) simp
  moreover have "d * w div 2 ^ 16 \<le> 0 div 2 ^ 16"
    using d assms by (intro zdiv_mono1) (auto simp: mult_nonpos_nonneg)
  ultimately show "d \<le> d * w div 2 ^ 16 \<and> d * w div 2 ^ 16 \<le> 0" by simp
qed

lemma red_avg_busy:
  assumes q: "red_q_size fs q \<noteq> 0" "uint (red_q_size fs q) < 2 ^ 15"
    and a: "0 \<le> q_avg q" "q_avg q < 2 ^ 31" and w: "0 \<le> w_q fs" "w_q fs \<le> 2 ^ 16"
    and s: "s = uint (red_q_size fs q) * 2 ^ 16"
  shows "red_avg fs now q = q_avg q + (s - q_avg q) * w_q fs div 2 ^ 16"
    "min s (q_avg q) \<le> red_avg fs now q" "red_avg fs now q \<le> max s (q_avg q)"
proof -
  let ?d = "s - q_avg q" and ?v = "(s - q_avg q) * w_q fs div 2 ^ 16"
  have s31: "0 \<le> s" "s < 2 ^ 31" using q(2) by (auto simp: s)
  have "push_bit 16 (red_q_size fs q) = word_of_int s"
    by (simp add: s push_bit_eq_mult)
  then have d: "sint (push_bit 16 (red_q_size fs q) - word_of_int (q_avg q)) = ?d"
    by (simp only: sint_u32_diff [OF s31 a])
  have v: "min 0 ?d \<le> ?v" "?v \<le> max 0 ?d"
    using scaled_step_between [OF w, of ?d] by (cases "0 \<le> ?d"; auto)+
  have "s32 ?v = ?v" by (rule s32_id) (use v s31 a in auto)
  moreover have "s32 (q_avg q + ?v) = q_avg q + ?v" by (rule s32_id) (use v s31 a in auto)
  ultimately show r: "red_avg fs now q = q_avg q + ?v"
    by (simp add: red_avg_def Let_def q(1) d)
  show "min s (q_avg q) \<le> red_avg fs now q" "red_avg fs now q \<le> max s (q_avg q)"
    unfolding r using v by auto
qed

text \<open>
  The decay after an idle period is computed with a 32-bit product of two values scaled by
  \<open>2 ^ 16\<close>: whatever the average was, the result is below \<open>2 ^ 16\<close>, that is, below one packet.
\<close>

lemma red_avg_idle_wraps:
  assumes "red_q_size fs q = 0" "q_avg q \<noteq> 0"
  shows "red_avg fs now q < 2 ^ 16"
proof -
  have "uint (drop_bit 16 x) < 2 ^ 16" for x :: u32
  proof -
    have "uint x < 2 ^ 32" using uint_bounded [of x] by simp
    then show ?thesis by (simp add: drop_bit_eq_div uint_div div_less_iff_less_mult)
  qed
  with assms show ?thesis by (simp add: red_avg_def Let_def)
qed

lemma red_avg_idle_example:
  "red_avg (fsk_zero\<lparr>lookup_step := 1, lookup_depth := 256, w_q_lookup := \<lambda>_. 0xfff0\<rparr>) 0
     (queue_zero\<lparr>q_avg := 50 * 2 ^ 16\<rparr>) = 0xfce0"
  by (simp add: red_avg_def red_q_size_def dn_zero_defs div64_def cdiv_def s64_def)

lemma must_drop_accept:
  assumes "must_drop q f m dr e = (False, e')"
  shows "\<not> dr \<and> (if fs_flags (fsk_fs (fsks e f)) AND DN_QSIZE_BYTES \<noteq> 0
      then len_bytes (q_ni (qs e q)) \<le> word_of_int (qsize (fsk_fs (fsks e f)))
      else fl_length (q_ni (qs e q)) < word_of_int (qsize (fsk_fs (fsks e f))))"
proof -
  have rd: "q_ni (qs e2 q) = q_ni (qs e1 q)" if "red_drops q f l e1 = (b, e2)" for e1 e2 l b
    using red_frame_fields(10) [OF red_drops_frame [OF that]] by simp
  show ?thesis
    using assms
    by (auto simp: must_drop_def Let_def get_random_def rd not_less not_le split: if_splits prod.splits)
qed

lemma dn_enqueue_limits:
  assumes f: "q_fs (qs e q) = Some f" and len: "fl_length (q_ni (qs e q)) = of_nat (length (mq e q))"
      "length (mq e q) < 2 ^ 32"
    and e: "dn_enqueue q m dr e = (0, e')" and slots: "fs_flags (fsk_fs (fsks e f)) AND DN_QSIZE_BYTES = 0"
    and qsz: "0 \<le> qsize (fsk_fs (fsks e f))" "qsize (fsk_fs (fsks e f)) < 2 ^ 31"
  shows "int (length (mq e' q)) \<le> qsize (fsk_fs (fsks e f))"
proof -
  obtain i where i: "q_si (qs e q) = Some i"
    using e f by (cases "q_si (qs e q)") (auto simp: dn_enqueue_def)
  obtain d e2 where d: "must_drop q f m dr (arrive_pkt q i m e) = (d, e2)" by fastforce
  with e dn_enqueue_eq [OF f i d] have "d = False" by (cases d) auto
  from must_drop_accept [OF d [unfolded this]] slots
  have "(of_nat (length (mq e q)) :: u32) < word_of_int (qsize (fsk_fs (fsks e f)))"
    by (simp add: ni_arrive_def len)
  then have "int (length (mq e q)) < qsize (fsk_fs (fsks e f))"
    unfolding word_less_def using uint_of_nat32 [OF len(2)] uint_of_int32 [OF qsz(1)] qsz(2) by simp
  moreover have "mq e' q = mq e q @ [m]"
    using dn_enqueue_step [OF e] by (auto simp: queue_step_def)
  ultimately show ?thesis by simp
qed

section \<open>Properties\<close>

text \<open>A queue with one packet, attached to an instance, for the witnesses.\<close>

definition wpkt :: "nat \<Rightarrow> int \<Rightarrow> mbuf" where "wpkt n l = \<lparr>m_id = n, m_len = l, m_tags = []\<rparr>"

definition wenv :: dn_env where
  "wenv = env_zero\<lparr>qs := (\<lambda>_. queue_zero\<lparr>q_fs := Some 0, q_si := Some 0\<rparr>),
     fsks := (\<lambda>_. fsk_zero\<lparr>fsk_fs := fs_zero\<lparr>qsize := 50\<rparr>\<rparr>), idle_queue := 1, idle_si := 1\<rparr>"

lemma wenv_acct: "acct {7} {0} wenv"
  by (simp add: acct_def ni_counts_def si_pkts_def si_bytes_def bytes_of_def wenv_def dn_zero_defs)

lemma wenv_enqueue: "fst (dn_enqueue 7 (wpkt 1 1500) False wenv) = 0"
  by (simp add: dn_enqueue_def must_drop_def Let_def wenv_def dn_zero_defs ni_arrive_def)

text \<open>C12: \<open>dn_enqueue\<close> puts the packet at the tail of the queue, or releases it and reports a
  drop; it touches no other queue; and it keeps the accounting invariant: queue and instance
  statistics count exactly the packets held, \<open>idle_queue\<close> and \<open>idle_si\<close> the empty queues
  and instances.\<close>

theorem dn_enqueue_correct:
  assumes "acct Q I e" "q \<in> Q" "total_pkts Q e < 2 ^ 32" "dn_enqueue q m dr e = (r, e')"
  shows "(r = 0 \<and> queue_step q (mq e q @ [m]) [] e e' \<or> r = 1 \<and> queue_step q (mq e q) [m] e e') \<and> acct Q I e'"
  using dn_enqueue_step [OF assms(4)] dn_enqueue_acct [OF assms] by blast

lemma dn_enqueue_correct_witness:
  "mq (snd (dn_enqueue 7 (wpkt 1 1500) False wenv)) 7 = [wpkt 1 1500] \<and>
   acct {7} {0} (snd (dn_enqueue 7 (wpkt 1 1500) False wenv))"
proof -
  have "dn_enqueue 7 (wpkt 1 1500) False wenv = (0, snd (dn_enqueue 7 (wpkt 1 1500) False wenv))"
    using wenv_enqueue by (simp add: prod_eq_iff)
  from dn_enqueue_correct [OF wenv_acct _ _ this] show ?thesis
    by (simp add: total_pkts_def queue_step_def) (simp add: wenv_def dn_zero_defs)
qed

text \<open>C34: \<open>dn_dequeue\<close> returns the head of the queue and leaves the rest (NULL and no change on an
  empty one), touches no other queue and keeps the accounting invariant.\<close>

theorem dn_dequeue_correct:
  assumes "acct Q I e" "q \<in> Q" "total_pkts Q e < 2 ^ 32" "dn_dequeue q e = (p, e')"
  shows "(p = None \<and> mq e q = [] \<and> e' = e \<or>
    (\<exists>m ms. p = Some m \<and> mq e q = m # ms \<and> queue_step q ms [] e e')) \<and> acct Q I e'"
  using dn_dequeue_step [OF assms(4)] dn_dequeue_acct [OF assms] by blast

lemma dn_dequeue_correct_witness:
  "\<exists>e'. dn_dequeue 7 (snd (dn_enqueue 7 (wpkt 1 1500) False wenv)) = (Some (wpkt 1 1500), e') \<and> acct {7} {0} e'"
proof -
  let ?e = "snd (dn_enqueue 7 (wpkt 1 1500) False wenv)"
  have "dn_enqueue 7 (wpkt 1 1500) False wenv = (0, ?e)"
    using wenv_enqueue by (simp add: prod_eq_iff)
  then have e: "acct {7} {0} ?e" "mq ?e 7 = [wpkt 1 1500]"
    using dn_enqueue_step [of 7 "wpkt 1 1500" False wenv 0 ?e]
      dn_enqueue_acct [OF wenv_acct, of 7 "wpkt 1 1500" False 0 ?e]
    by (auto simp: queue_step_def total_pkts_def wenv_def dn_zero_defs)
  then have b: "total_pkts {7} ?e < 2 ^ 32" by (simp add: total_pkts_def)
  show ?thesis
    using dn_dequeue_correct [OF e(1) _ b, of 7] e(2) by (cases "dn_dequeue 7 ?e") auto
qed

text \<open>With a limit in packets, an accepted packet never brings the queue above its configured
  size.\<close>

theorem dn_enqueue_bounded:
  assumes "q_fs (qs e q) = Some f" "fl_length (q_ni (qs e q)) = of_nat (length (mq e q))"
    "length (mq e q) < 2 ^ 32" "dn_enqueue q m dr e = (0, e')"
    "fs_flags (fsk_fs (fsks e f)) AND DN_QSIZE_BYTES = 0"
    "0 \<le> qsize (fsk_fs (fsks e f))" "qsize (fsk_fs (fsks e f)) < 2 ^ 31"
  shows "int (length (mq e' q)) \<le> qsize (fsk_fs (fsks e f))"
  by (rule dn_enqueue_limits [OF assms])

lemma dn_enqueue_bounded_witness:
  "int (length (mq (snd (dn_enqueue 7 (wpkt 1 1500) False wenv)) 7)) \<le> 50"
proof -
  have "dn_enqueue 7 (wpkt 1 1500) False wenv = (0, snd (dn_enqueue 7 (wpkt 1 1500) False wenv))"
    using wenv_enqueue by (simp add: prod_eq_iff)
  from dn_enqueue_bounded [OF _ _ _ this, of 0] show ?thesis by (simp add: wenv_def dn_zero_defs)
qed

text \<open>While the queue is busy the RED average moves towards the current queue size and never past
  it, and the 32-bit arithmetic does not overflow for queues below \<open>2 ^ 15\<close>.\<close>

theorem red_avg_between:
  assumes "red_q_size fs q \<noteq> 0" "uint (red_q_size fs q) < 2 ^ 15" "0 \<le> q_avg q" "q_avg q < 2 ^ 31"
    "0 \<le> w_q fs" "w_q fs \<le> 2 ^ 16" "s = uint (red_q_size fs q) * 2 ^ 16"
  shows "min s (q_avg q) \<le> red_avg fs now q \<and> red_avg fs now q \<le> max s (q_avg q)"
  using red_avg_busy [OF assms] by blast

lemma red_avg_between_witness:
  "red_avg (fsk_zero\<lparr>w_q := 131\<rparr>) 0 (queue_zero\<lparr>q_ni := flow_zero\<lparr>fl_length := 20\<rparr>, q_avg := 65536\<rparr>) \<le> 20 * 2 ^ 16"
  using red_avg_between [of "fsk_zero\<lparr>w_q := 131\<rparr>" "queue_zero\<lparr>q_ni := flow_zero\<lparr>fl_length := 20\<rparr>, q_avg := 65536\<rparr>"
      "20 * 2 ^ 16" 0]
  by (simp add: red_q_size_def dn_zero_defs)

text \<open>The packet queue on pointers is a first-in first-out list: appending and then taking
  heads returns the packets in the order of arrival, and no other packet's link is changed.\<close>

theorem mq_append_pop:
  assumes "mq_rep nxt q xs" "m \<notin> set xs" "mq_append q m nxt = (q', nxt')" "mq_pop q' nxt' = (p, q'')"
  shows "mq_rep nxt' q' (xs @ [m]) \<and> mq_rep nxt' q'' (tl (xs @ [m])) \<and> p = Some (hd (xs @ [m])) \<and>
    (\<forall>x. x \<noteq> m \<longrightarrow> x \<notin> set xs \<longrightarrow> nxt' x = nxt x)"
  using mq_append_rep [OF assms(1-3)] mq_pop_rep [OF _ assms(4), of "xs @ [m]"] by auto

lemma mq_append_pop_witness:
  "fst (mq_pop (fst (mq_append \<lparr>mq_head = Some 1, mq_tail = Some 1\<rparr> 2 (\<lambda>_. None)))
     (snd (mq_append \<lparr>mq_head = Some 1, mq_tail = Some 1\<rparr> 2 (\<lambda>_. None)))) = Some 1"
  using mq_append_pop [of "\<lambda>_. None" "\<lparr>mq_head = Some 1, mq_tail = Some 1\<rparr>" "[1]" 2]
  by (auto simp: mq_rep_def prod_eq_iff)

end
