(* ===== verification/FlowId.thy ===== *)
theory FlowId
  imports DnTypes
begin

text \<open>
  Masking, hashing and comparing flow identifiers, and the bounding of parameters, from
  \<open>sys/netinet/ipfw/ip_dummynet.c\<close>.
\<close>

section \<open>Operations\<close>

text \<open>\<open>ipdn_bound_var\<close>: the value stored and returned (the printing is left out).\<close>

definition ipdn_bound_var :: "int \<Rightarrow> int \<Rightarrow> int \<Rightarrow> int \<Rightarrow> int" where
  "ipdn_bound_var v dflt lo hi =
     (let dflt = (if dflt < lo then lo else dflt);
          dflt = (if hi < dflt then hi else dflt)
      in if v < lo then dflt else if hi < v then hi else v)"

definition APPLY_MASK :: "in6_addr \<Rightarrow> in6_addr \<Rightarrow> in6_addr" where
  "APPLY_MASK a m = \<lparr>u6_0 = u6_0 a AND u6_0 m, u6_1 = u6_1 a AND u6_1 m,
     u6_2 = u6_2 a AND u6_2 m, u6_3 = u6_3 a AND u6_3 m\<rparr>"

definition flow_id_mask :: "ipfw_flow_id \<Rightarrow> ipfw_flow_id \<Rightarrow> ipfw_flow_id" where
  "flow_id_mask m i =
     (let is_v6 = IS_IP6_FLOW_ID i;
          i = i\<lparr>dst_port := dst_port i AND dst_port m, src_port := src_port i AND src_port m,
                proto := proto i AND proto m, extra := extra i AND extra m\<rparr>
      in if is_v6 then
           i\<lparr>dst_ip6 := APPLY_MASK (dst_ip6 i) (dst_ip6 m), src_ip6 := APPLY_MASK (src_ip6 i) (src_ip6 m),
             flow_id6 := flow_id6 i AND flow_id6 m\<rparr>
         else i\<lparr>dst_ip := dst_ip i AND dst_ip m, src_ip := src_ip i AND src_ip m\<rparr>)"

definition OR_MASK :: "in6_addr \<Rightarrow> in6_addr \<Rightarrow> in6_addr" where
  "OR_MASK d s = \<lparr>u6_0 = u6_0 d OR u6_0 s, u6_1 = u6_1 d OR u6_1 s,
     u6_2 = u6_2 d OR u6_2 s, u6_3 = u6_3 d OR u6_3 s\<rparr>"

definition flow_id_or :: "ipfw_flow_id \<Rightarrow> ipfw_flow_id \<Rightarrow> ipfw_flow_id" where
  "flow_id_or src dst =
     (let is_v6 = IS_IP6_FLOW_ID dst;
          dst = dst\<lparr>dst_port := dst_port dst OR dst_port src, src_port := src_port dst OR src_port src,
                    proto := proto dst OR proto src, extra := extra dst OR extra src\<rparr>
      in if is_v6 then
           dst\<lparr>dst_ip6 := OR_MASK (dst_ip6 dst) (dst_ip6 src), src_ip6 := OR_MASK (src_ip6 dst) (src_ip6 src),
             flow_id6 := flow_id6 dst OR flow_id6 src\<rparr>
         else dst\<lparr>dst_ip := dst_ip dst OR dst_ip src, src_ip := src_ip dst OR src_ip src\<rparr>)"

definition nonzero_mask :: "ipfw_flow_id \<Rightarrow> bool" where
  "nonzero_mask m =
     (if dst_port m \<noteq> 0 \<or> src_port m \<noteq> 0 \<or> proto m \<noteq> 0 \<or> extra m \<noteq> 0 then True
      else if IS_IP6_FLOW_ID m then
        u6_0 (dst_ip6 m) \<noteq> 0 \<or> u6_1 (dst_ip6 m) \<noteq> 0 \<or> u6_2 (dst_ip6 m) \<noteq> 0 \<or> u6_3 (dst_ip6 m) \<noteq> 0 \<or>
        u6_0 (src_ip6 m) \<noteq> 0 \<or> u6_1 (src_ip6 m) \<noteq> 0 \<or> u6_2 (src_ip6 m) \<noteq> 0 \<or> u6_3 (src_ip6 m) \<noteq> 0 \<or>
        flow_id6 m \<noteq> 0
      else dst_ip m \<noteq> 0 \<or> src_ip m \<noteq> 0)"

definition flow_id_hash :: "ipfw_flow_id \<Rightarrow> u32" where
  "flow_id_hash i =
     (if IS_IP6_FLOW_ID i then
        let d = dst_ip6 i; s = src_ip6 i in
        u6_0 d XOR u6_1 d XOR u6_2 d XOR u6_3 d XOR
        drop_bit 15 (u6_0 d) XOR drop_bit 15 (u6_1 d) XOR drop_bit 15 (u6_2 d) XOR drop_bit 15 (u6_3 d) XOR
        push_bit 1 (u6_0 s) XOR push_bit 1 (u6_1 s) XOR push_bit 1 (u6_2 s) XOR push_bit 1 (u6_3 s) XOR
        push_bit 16 (u6_0 s) XOR push_bit 16 (u6_1 s) XOR push_bit 16 (u6_2 s) XOR push_bit 16 (u6_3 s) XOR
        push_bit 1 (ucast (dst_port i)) XOR ucast (src_port i) XOR extra i XOR ucast (proto i) XOR flow_id6 i
      else
        dst_ip i XOR drop_bit 15 (dst_ip i) XOR push_bit 1 (src_ip i) XOR drop_bit 16 (src_ip i) XOR
        extra i XOR push_bit 1 (ucast (dst_port i)) XOR ucast (src_port i) XOR ucast (proto i))"

text \<open>\<open>flow_id_cmp\<close>: 0 when the identifiers match, like \<open>bcmp\<close>.\<close>

definition flow_id_cmp :: "ipfw_flow_id \<Rightarrow> ipfw_flow_id \<Rightarrow> nat" where
  "flow_id_cmp id1 id2 =
     (if \<not> IS_IP6_FLOW_ID id1 then
        if IS_IP6_FLOW_ID id2 then 1
        else if dst_ip id1 = dst_ip id2 \<and> src_ip id1 = src_ip id2 \<and> dst_port id1 = dst_port id2 \<and>
                src_port id1 = src_port id2 \<and> proto id1 = proto id2 \<and> extra id1 = extra id2 then 0 else 1
      else
        if dst_ip6 id1 = dst_ip6 id2 \<and> src_ip6 id1 = src_ip6 id2 \<and> dst_port id1 = dst_port id2 \<and>
           src_port id1 = src_port id2 \<and> proto id1 = proto id2 \<and> extra id1 = extra id2 \<and>
           flow_id6 id1 = flow_id6 id2 then 0 else 1)"

section \<open>Lemmas\<close>

lemmas flow_id_ops = flow_id_mask_def flow_id_or_def flow_id_cmp_def APPLY_MASK_def OR_MASK_def Let_def

text \<open>The fields of masked identifiers, and the match for the two address families.\<close>

lemma flow_id_mask_fields [simp]:
  "dst_port (flow_id_mask m i) = dst_port i AND dst_port m" "src_port (flow_id_mask m i) = src_port i AND src_port m"
  "proto (flow_id_mask m i) = proto i AND proto m" "extra (flow_id_mask m i) = extra i AND extra m"
  "dst_ip (flow_id_mask m i) = (if IS_IP6_FLOW_ID i then dst_ip i else dst_ip i AND dst_ip m)"
  "src_ip (flow_id_mask m i) = (if IS_IP6_FLOW_ID i then src_ip i else src_ip i AND src_ip m)"
  "dst_ip6 (flow_id_mask m i) = (if IS_IP6_FLOW_ID i then APPLY_MASK (dst_ip6 i) (dst_ip6 m) else dst_ip6 i)"
  "src_ip6 (flow_id_mask m i) = (if IS_IP6_FLOW_ID i then APPLY_MASK (src_ip6 i) (src_ip6 m) else src_ip6 i)"
  "flow_id6 (flow_id_mask m i) = (if IS_IP6_FLOW_ID i then flow_id6 i AND flow_id6 m else flow_id6 i)"
  "fib (flow_id_mask m i) = fib i" "fl_flags (flow_id_mask m i) = fl_flags i"
  "addr_type (flow_id_mask m i) = addr_type i" "IS_IP6_FLOW_ID (flow_id_mask m i) = IS_IP6_FLOW_ID i"
  by (simp_all add: flow_id_mask_def Let_def IS_IP6_FLOW_ID_def)

lemma flow_id_or_fields [simp]:
  "dst_port (flow_id_or s d) = dst_port d OR dst_port s" "src_port (flow_id_or s d) = src_port d OR src_port s"
  "proto (flow_id_or s d) = proto d OR proto s" "extra (flow_id_or s d) = extra d OR extra s"
  "dst_ip (flow_id_or s d) = (if IS_IP6_FLOW_ID d then dst_ip d else dst_ip d OR dst_ip s)"
  "src_ip (flow_id_or s d) = (if IS_IP6_FLOW_ID d then src_ip d else src_ip d OR src_ip s)"
  "dst_ip6 (flow_id_or s d) = (if IS_IP6_FLOW_ID d then OR_MASK (dst_ip6 d) (dst_ip6 s) else dst_ip6 d)"
  "src_ip6 (flow_id_or s d) = (if IS_IP6_FLOW_ID d then OR_MASK (src_ip6 d) (src_ip6 s) else src_ip6 d)"
  "flow_id6 (flow_id_or s d) = (if IS_IP6_FLOW_ID d then flow_id6 d OR flow_id6 s else flow_id6 d)"
  "addr_type (flow_id_or s d) = addr_type d" "IS_IP6_FLOW_ID (flow_id_or s d) = IS_IP6_FLOW_ID d"
  by (simp_all add: flow_id_or_def Let_def IS_IP6_FLOW_ID_def)

lemma flow_id_cmp_v6: "IS_IP6_FLOW_ID i \<Longrightarrow> flow_id_cmp i j = 0 \<longleftrightarrow>
  dst_ip6 i = dst_ip6 j \<and> src_ip6 i = src_ip6 j \<and> dst_port i = dst_port j \<and>
  src_port i = src_port j \<and> proto i = proto j \<and> extra i = extra j \<and> flow_id6 i = flow_id6 j"
  by (simp add: flow_id_cmp_def)

lemma flow_id_cmp_v4: "\<not> IS_IP6_FLOW_ID i \<Longrightarrow> flow_id_cmp i j = 0 \<longleftrightarrow> \<not> IS_IP6_FLOW_ID j \<and>
  dst_ip i = dst_ip j \<and> src_ip i = src_ip j \<and> dst_port i = dst_port j \<and>
  src_port i = src_port j \<and> proto i = proto j \<and> extra i = extra j"
  by (simp add: flow_id_cmp_def)

lemma flow_id_cmp_01: "flow_id_cmp i j \<le> 1"
  by (simp add: flow_id_cmp_def)

lemma flow_id_cmp_refl: "flow_id_cmp i i = 0"
  by (simp add: flow_id_cmp_def)

text \<open>The fields a flow identifier is compared on.\<close>

definition flow_key :: "ipfw_flow_id \<Rightarrow> (u32 \<times> u32 + in6_addr \<times> in6_addr \<times> u32) \<times> u16 \<times> u16 \<times> u8 \<times> u32" where
  "flow_key i = ((if IS_IP6_FLOW_ID i then Inr (dst_ip6 i, src_ip6 i, flow_id6 i)
      else Inl (dst_ip i, src_ip i)), dst_port i, src_port i, proto i, extra i)"

lemma flow_id_cmp_key:
  "IS_IP6_FLOW_ID i \<longrightarrow> IS_IP6_FLOW_ID j \<Longrightarrow> flow_id_cmp i j = 0 \<longleftrightarrow> flow_key i = flow_key j"
  by (auto simp: flow_id_cmp_def flow_key_def)

lemma flow_id_hash_key: "flow_key i = flow_key j \<Longrightarrow> flow_id_hash i = flow_id_hash j"
  by (auto simp: flow_id_hash_def flow_key_def split: if_splits)

text \<open>The families are compared in one direction only.\<close>

lemma flow_id_cmp_one_way:
  "\<exists>i j. flow_id_cmp i j = 0 \<and> flow_id_cmp j i = 1 \<and> flow_id_hash i \<noteq> flow_id_hash j"
proof (intro exI conjI)
  let ?i = "fid_zero\<lparr>addr_type := 6\<rparr>" and ?j = "fid_zero\<lparr>dst_ip := 1\<rparr>"
  show "flow_id_cmp ?i ?j = 0" "flow_id_cmp ?j ?i = 1" "flow_id_hash ?i \<noteq> flow_id_hash ?j"
    by (simp_all add: flow_id_cmp_def flow_id_hash_def dn_zero_defs IS_IP6_FLOW_ID_def)
qed

text \<open>Masking with the bits of two masks decides equality under each.\<close>

lemma and_or_mask:
  fixes a :: "'a::len word"
  assumes "a AND (m OR n) = b AND (m OR n)"
  shows "a AND m = b AND m" "a AND n = b AND n"
proof -
  have e: "x AND m = (x AND (m OR n)) AND m" "x AND n = (x AND (m OR n)) AND n" for x
    by (rule bit_word_eqI, auto simp: bit_and_iff bit_or_iff)+
  show "a AND m = b AND m"
    by (rule trans [OF e(1)]) (simp only: assms e(1) [symmetric])
  show "a AND n = b AND n"
    by (rule trans [OF e(2)]) (simp only: assms e(2) [symmetric])
qed

lemma in6_and_or_mask:
  assumes "APPLY_MASK a (OR_MASK m n) = APPLY_MASK b (OR_MASK m n)"
  shows "APPLY_MASK a m = APPLY_MASK b m" "APPLY_MASK a n = APPLY_MASK b n"
  using assms by (auto simp: APPLY_MASK_def OR_MASK_def dest: and_or_mask)

lemma and_idem2: "(a AND m) AND m = a AND (m :: 'a::len word)"
  by (simp add: and.assoc)

lemma flow_id_mask_idem: "flow_id_mask m (flow_id_mask m i) = flow_id_mask m i"
  by (rule ipfw_flow_id.equality) (simp_all add: APPLY_MASK_def and_idem2)

section \<open>Properties\<close>

text \<open>For identifiers of one address family, a match means that the hash is the same, so a
  lookup in the bucket given by the hash cannot miss a matching flow; and matching identifiers
  match the same others.\<close>

theorem flow_id_match_hash:
  assumes "IS_IP6_FLOW_ID i = IS_IP6_FLOW_ID j" "flow_id_cmp i j = 0"
  shows "flow_id_hash i = flow_id_hash j \<and> flow_id_cmp j i = 0 \<and>
    (\<forall>k. IS_IP6_FLOW_ID k = IS_IP6_FLOW_ID j \<longrightarrow> flow_id_cmp k i = flow_id_cmp k j)"
proof -
  have k: "flow_key i = flow_key j" using assms flow_id_cmp_key [of i j] by simp
  have "flow_id_cmp k i = flow_id_cmp k j" if "IS_IP6_FLOW_ID k = IS_IP6_FLOW_ID j" for k
  proof -
    have "flow_id_cmp k i = 0 \<longleftrightarrow> flow_id_cmp k j = 0"
      using that assms(1) k flow_id_cmp_key [of k i] flow_id_cmp_key [of k j] by simp
    then show ?thesis using flow_id_cmp_01 [of k i] flow_id_cmp_01 [of k j] by linarith
  qed
  moreover have "flow_id_cmp j i = 0" using assms(1) k flow_id_cmp_key [of j i] by simp
  ultimately show ?thesis using flow_id_hash_key [OF k] by blast
qed

lemma flow_id_match_hash_witness:
  "flow_id_hash (fid_zero\<lparr>fib := 1\<rparr>) = flow_id_hash fid_zero"
  using flow_id_match_hash [of "fid_zero\<lparr>fib := 1\<rparr>" fid_zero]
  by (simp add: flow_id_cmp_def IS_IP6_FLOW_ID_def dn_zero_defs)

text \<open>The queues of a flowset are selected with the OR of the scheduler's mask and the flow
  mask: two packets that fall in the same queue are then the same flow under the flow mask and
  also fall in the same scheduler instance, for packets of the flow mask's address family.\<close>

theorem same_queue_same_instance:
  assumes fam: "IS_IP6_FLOW_ID i = IS_IP6_FLOW_ID fmask" "IS_IP6_FLOW_ID j = IS_IP6_FLOW_ID fmask"
    and q: "flow_id_cmp (flow_id_mask (flow_id_or smask fmask) i) (flow_id_mask (flow_id_or smask fmask) j) = 0"
  shows "flow_id_cmp (flow_id_mask smask i) (flow_id_mask smask j) = 0 \<and>
    flow_id_cmp (flow_id_mask fmask i) (flow_id_mask fmask j) = 0"
proof (cases "IS_IP6_FLOW_ID fmask")
  case True
  with assms show ?thesis
    by (simp add: flow_id_cmp_v6) (blast dest: and_or_mask in6_and_or_mask)
next
  case False
  with assms show ?thesis
    by (simp add: flow_id_cmp_v4) (blast dest: and_or_mask)
qed

lemma same_queue_same_instance_witness:
  "flow_id_cmp (flow_id_mask (fid_zero\<lparr>src_ip := 255\<rparr>) (fid_zero\<lparr>dst_ip := 0x10203\<rparr>))
     (flow_id_mask (fid_zero\<lparr>src_ip := 255\<rparr>) (fid_zero\<lparr>dst_ip := 0x10403\<rparr>)) = 0"
  using same_queue_same_instance [of "fid_zero\<lparr>dst_ip := 0x10203\<rparr>" "fid_zero\<lparr>dst_ip := 255\<rparr>"
      "fid_zero\<lparr>dst_ip := 0x10403\<rparr>" "fid_zero\<lparr>src_ip := 255\<rparr>"]
  by (simp add: flow_id_ops IS_IP6_FLOW_ID_def dn_zero_defs)

end
