(* ===== verification/Sched.thy ===== *)
theory Sched
  imports DnQueue FlowId
begin

text \<open>
  The packet schedulers' interface of \<open>sys/netinet/ipfw/dn_sched.h\<close>: the descriptor
  \<open>struct dn_alg\<close>, and the contract of a scheduler as a locale. A scheduler keeps its packets
  in classes (one per queue, or per priority), accepts a packet by appending it to the class of
  its queue, or releases it, and gives back heads of classes, never refusing while it holds a
  packet. The locale derives what a whole run of arrivals and departures does.
\<close>

definition DN_MULTIQUEUE :: u32 where "DN_MULTIQUEUE = 1"

text \<open>
  The descriptor; of the sizes of private data only that of a queue, which shows in its header. The functions work on a state \<open>'s\<close> that holds the dummynet objects and the
  private data of the algorithm. A result \<open>None\<close> is a call that does not return: a loop that does
  not end, a \<open>panic\<close> or an access through NULL.
\<close>

record 's dn_alg =
  al_type :: u32
  al_name :: string
  al_flags :: u32
  al_q_datalen :: nat
  al_enqueue :: "siid \<Rightarrow> qid option \<Rightarrow> mbuf \<Rightarrow> 's \<Rightarrow> (nat \<times> 's) option"
  al_dequeue :: "siid \<Rightarrow> 's \<Rightarrow> (mbuf option \<times> 's) option"
  al_config :: "(schid \<Rightarrow> 's \<Rightarrow> nat \<times> 's) option"
  al_destroy :: "(schid \<Rightarrow> 's \<Rightarrow> nat \<times> 's) option"
  al_new_sched :: "(siid \<Rightarrow> 's \<Rightarrow> nat \<times> 's) option"
  al_free_sched :: "(siid \<Rightarrow> 's \<Rightarrow> nat \<times> 's) option"
  al_new_fsk :: "(fsid \<Rightarrow> 's \<Rightarrow> nat \<times> 's) option"
  al_free_fsk :: "(fsid \<Rightarrow> 's \<Rightarrow> nat \<times> 's) option"
  al_new_queue :: "(qid \<Rightarrow> 's \<Rightarrow> (nat \<times> 's) option) option"
  al_free_queue :: "(qid \<Rightarrow> bool \<Rightarrow> 's \<Rightarrow> (int \<times> 's) option) option"

text \<open>Setting a parameter of a flowset within bounds.\<close>

definition bound_par :: "fsid \<Rightarrow> nat \<Rightarrow> int \<Rightarrow> int \<Rightarrow> int \<Rightarrow> 'x dn_env_scheme \<Rightarrow> 'x dn_env_scheme" where
  "bound_par f n dflt lo hi e =
     upd_fsk f (\<lambda>k. k\<lparr>fsk_fs := (fsk_fs k)\<lparr>fs_par :=
       (fs_par (fsk_fs k))(n := ipdn_bound_var (fs_par (fsk_fs k) n) dflt lo hi)\<rparr>\<rparr>) e"

definition q_par :: "'x dn_env_scheme \<Rightarrow> qid \<Rightarrow> nat \<Rightarrow> int" where
  "q_par e q n = fs_par (fsk_fs (fsks e (the (q_fs (qs e q))))) n"

lemma ipdn_bound_var_bounds:
  "lo \<le> hi \<Longrightarrow> lo \<le> ipdn_bound_var v d lo hi \<and> ipdn_bound_var v d lo hi \<le> hi"
  by (simp add: ipdn_bound_var_def Let_def)

section \<open>The contract\<close>

text \<open>
  \<open>V\<close> are the queues of the instance; \<open>cls s q\<close> is the class a packet for queue \<open>q\<close> goes to;
  \<open>held s c\<close> are the packets of class \<open>c\<close>, oldest first; \<open>out s\<close> the packets released.
\<close>

locale scheduler =
  fixes enq :: "'q \<Rightarrow> mbuf \<Rightarrow> 's \<Rightarrow> nat \<times> 's" and deq :: "'s \<Rightarrow> mbuf option \<times> 's"
    and inv :: "'s \<Rightarrow> bool" and V :: "'q set" and cls :: "'s \<Rightarrow> 'q \<Rightarrow> 'c"
    and held :: "'s \<Rightarrow> 'c \<Rightarrow> mbuf list" and out :: "'s \<Rightarrow> mbuf list"
    and ok :: "'s \<Rightarrow> mbuf \<Rightarrow> bool"
  assumes enq_law: "inv s \<Longrightarrow> q \<in> V \<Longrightarrow> ok s m \<Longrightarrow> enq q m s = (r, s') \<Longrightarrow> inv s' \<and>
      (r = 0 \<and> held s' = (held s)(cls s q := held s (cls s q) @ [m]) \<and> out s' = out s \<or>
       r \<noteq> 0 \<and> held s' = held s \<and> out s' = out s @ [m])"
    and deq_law: "inv s \<Longrightarrow> deq s = (p, s') \<Longrightarrow> inv s' \<and> out s' = out s \<and>
      (case p of None \<Rightarrow> held s' = held s
       | Some m \<Rightarrow> \<exists>c ms. held s c = m # ms \<and> held s' = (held s)(c := ms))"
begin

text \<open>
  A run: \<open>Some (q, m)\<close> is an arrival, \<open>None\<close> a request for a packet. It returns the
  accepted packets with their class, the delivered packets, and the state.
\<close>

primrec run :: "('q \<times> mbuf) option list \<Rightarrow> 's \<Rightarrow> ('c \<times> mbuf) list \<times> mbuf list \<times> 's" where
  "run [] s = ([], [], s)"
| "run (x # xs) s =
     (case x of
        Some (q, m) \<Rightarrow>
          (case enq q m s of (r, s') \<Rightarrow>
             (case run xs s' of (ins, outs, s'') \<Rightarrow>
                (if r = 0 then (cls s q, m) # ins else ins, outs, s'')))
      | None \<Rightarrow>
          (case deq s of (p, s') \<Rightarrow>
             (case run xs s' of (ins, outs, s'') \<Rightarrow>
                (ins, (case p of None \<Rightarrow> outs | Some m \<Rightarrow> m # outs), s''))))"

definition of_class :: "'c \<Rightarrow> ('c \<times> mbuf) list \<Rightarrow> mbuf list" where
  "of_class c tr = map snd (filter (\<lambda>x. fst x = c) tr)"

lemma of_class_simps [simp]:
  "of_class c [] = []" "of_class c ((d, m) # tr) = (if d = c then m # of_class c tr else of_class c tr)"
  by (simp_all add: of_class_def)

text \<open>A schedule of arrivals the packets of which the scheduler is prepared to handle.\<close>

primrec fine :: "('q \<times> mbuf) option list \<Rightarrow> 's \<Rightarrow> bool" where
  "fine [] s = True"
| "fine (x # xs) s =
     (case x of Some (q, m) \<Rightarrow> q \<in> V \<and> ok s m \<and> fine xs (snd (enq q m s)) | None \<Rightarrow> fine xs (snd (deq s)))"

text \<open>
  Per class, the packets held at the start followed by the accepted ones are the delivered ones
  followed by those still held: first-in first-out, nothing lost, duplicated or reordered.
\<close>

theorem run_fifo:
  assumes "inv s" "fine xs s" "run xs s = (ins, outs, s')"
  shows "inv s' \<and> (\<exists>tr. map snd tr = outs \<and>
    (\<forall>c. held s c @ of_class c ins = of_class c tr @ held s' c))"
  using assms
proof (induction xs arbitrary: s ins outs s')
  case (Cons x xs)
  show ?case
  proof (cases x)
    case (Some qm)
    obtain q m where qm: "qm = (q, m)" by fastforce
    obtain r s1 where e: "enq q m s = (r, s1)" by fastforce
    obtain ins1 outs1 s2 where t: "run xs s1 = (ins1, outs1, s2)" by (metis prod_cases3)
    have ok: "q \<in> V" "ok s m" "fine xs s1" using Cons.prems(2) Some qm e by auto
    have v: "ins = (if r = 0 then (cls s q, m) # ins1 else ins1)" "outs = outs1" "s' = s2"
      using Cons.prems(3) Some qm e t by auto
    note law = enq_law [OF Cons.prems(1) ok(1,2) e]
    obtain tr where tr: "inv s2" "map snd tr = outs1"
        "\<forall>c. held s1 c @ of_class c ins1 = of_class c tr @ held s2 c"
      using Cons.IH [OF _ ok(3) t] law by auto
    have "\<forall>c. held s c @ of_class c ins = of_class c tr @ held s' c"
      using law tr(3) unfolding v by (auto split: if_splits)
    with tr v show ?thesis by blast
  next
    case None
    obtain p s1 where d: "deq s = (p, s1)" by fastforce
    obtain ins1 outs1 s2 where t: "run xs s1 = (ins1, outs1, s2)" by (metis prod_cases3)
    have fn: "fine xs s1" using Cons.prems(2) None d by simp
    note law = deq_law [OF Cons.prems(1) d]
    obtain tr where tr: "inv s2" "map snd tr = outs1"
        "\<forall>c. held s1 c @ of_class c ins1 = of_class c tr @ held s2 c"
      using Cons.IH [OF _ fn t] law by auto
    show ?thesis
    proof (cases p)
      case None': None
      with law tr Cons.prems(3) None d t show ?thesis by auto
    next
      case (Some m)
      with law obtain c ms where c: "held s c = m # ms" "held s1 = (held s)(c := ms)" by auto
      have "\<forall>c'. held s c' @ of_class c' ins1 = of_class c' ((c, m) # tr) @ held s2 c'"
        using tr(3) c by (auto split: if_splits)
      moreover have "map snd ((c, m) # tr) = outs" "ins = ins1" "s' = s2"
        using tr(2) Cons.prems(3) None d t Some by auto
      ultimately show ?thesis using tr(1) by blast
    qed
  qed
qed simp

end

text \<open>Work conservation: a request is refused only when nothing is held.\<close>

locale wc_scheduler = scheduler enq deq inv V cls held out ok
  for enq :: "'q \<Rightarrow> mbuf \<Rightarrow> 's \<Rightarrow> nat \<times> 's" and deq :: "'s \<Rightarrow> mbuf option \<times> 's"
    and inv :: "'s \<Rightarrow> bool" and V :: "'q set" and cls :: "'s \<Rightarrow> 'q \<Rightarrow> 'c"
    and held :: "'s \<Rightarrow> 'c \<Rightarrow> mbuf list" and out :: "'s \<Rightarrow> mbuf list"
    and ok :: "'s \<Rightarrow> mbuf \<Rightarrow> bool" +
  assumes deq_None: "inv s \<Longrightarrow> deq s = (None, s') \<Longrightarrow> held s c = []"
begin

lemma deq_Some: "inv s \<Longrightarrow> held s c \<noteq> [] \<Longrightarrow> \<exists>m s'. deq s = (Some m, s')"
  using deq_None [of s "snd (deq s)"] by (cases "deq s"; cases "fst (deq s)") auto

text \<open>Asking as often as there are packets empties the scheduler.\<close>

lemma drain_step:
  "inv s \<Longrightarrow> (\<exists>c. held s c \<noteq> []) \<Longrightarrow>
   \<exists>c m ms s'. deq s = (Some m, s') \<and> inv s' \<and> held s c = m # ms \<and> held s' = (held s)(c := ms)"
  using deq_Some deq_law by fastforce

primrec ask :: "nat \<Rightarrow> 's \<Rightarrow> mbuf list \<times> 's" where
  "ask 0 s = ([], s)"
| "ask (Suc n) s =
     (case deq s of (p, s') \<Rightarrow> case ask n s' of (ms, s'') \<Rightarrow> ((case p of None \<Rightarrow> ms | Some m \<Rightarrow> m # ms), s''))"

theorem ask_all:
  assumes "inv s" "finite C" "\<And>c. c \<notin> C \<Longrightarrow> held s c = []" "(\<Sum>c\<in>C. length (held s c)) \<le> n" "ask n s = (ms, s')"
  shows "length ms = (\<Sum>c\<in>C. length (held s c)) \<and> (\<forall>c. held s' c = []) \<and> inv s'"
  using assms
proof (induction n arbitrary: s ms)
  case 0
  then have "held s c = []" for c by (cases "c \<in> C") auto
  with 0 show ?case by simp
next
  case (Suc n)
  obtain p s1 where d: "deq s = (p, s1)" by fastforce
  obtain ms1 where a: "ask n s1 = (ms1, s')" using Suc.prems(5) d by (auto split: prod.splits)
  show ?case
  proof (cases p)
    case None
    then have all: "held s c = []" for c using deq_None Suc.prems(1) d by blast
    have s1: "inv s1" "held s1 = held s" using deq_law [OF Suc.prems(1) d] None by auto
    from Suc.IH [OF s1(1) Suc.prems(2) _ _ a] all s1(2) Suc.prems(5) d None a show ?thesis by auto
  next
    case (Some m)
    then obtain c xs where s1: "inv s1" "held s c = m # xs" "held s1 = (held s)(c := xs)"
      using deq_law [OF Suc.prems(1) d] by auto
    then have c: "c \<in> C" using Suc.prems(3) [of c] by (cases "c \<in> C") auto
    have "(\<Sum>x\<in>C. int (length (held s1 x))) = (\<Sum>x\<in>C. int (length (held s x))) - 1"
      using sum_change [OF Suc.prems(2) c, of "\<lambda>x. int (length (held s1 x))" "\<lambda>x. int (length (held s x))"] s1 by simp
    then have n: "(\<Sum>x\<in>C. length (held s x)) = Suc (\<Sum>x\<in>C. length (held s1 x))"
      by (simp only: of_nat_sum [symmetric])
    have "x \<notin> C \<Longrightarrow> held s1 x = []" for x using Suc.prems(3) [of x] s1(3) c by auto
    from Suc.IH [OF s1(1) Suc.prems(2) this _ a] n Suc.prems(4,5) d Some a show ?thesis by auto
  qed
qed

end

section \<open>Packets of the queues of an instance\<close>

text \<open>The head of a queue is compared with the packet by address.\<close>

definition is_head :: "mbuf \<Rightarrow> mbuf list \<Rightarrow> bool" where
  "is_head m ms = (case ms of [] \<Rightarrow> False | x # _ \<Rightarrow> m_id x = m_id m)"

definition pkts_ok :: "mbuf list \<Rightarrow> bool" where
  "pkts_ok ms \<longleftrightarrow> (\<forall>m\<in>set ms. 0 \<le> m_len m \<and> m_len m < 2 ^ 16)"

definition held_in :: "qid set \<Rightarrow> 'x dn_env_scheme \<Rightarrow> qid \<Rightarrow> mbuf list" where
  "held_in Q e q = (if q \<in> Q then mq e q else [])"

definition new_pkt :: "qid set \<Rightarrow> 'x dn_env_scheme \<Rightarrow> mbuf \<Rightarrow> bool" where
  "new_pkt Q e m \<longleftrightarrow> pkts_ok [m] \<and> (\<forall>q\<in>Q. \<not> is_head m (mq e q))"

text \<open>What a request does: nothing when all queues are empty, else the head of one queue.\<close>

definition deq_outcome :: "qid set \<Rightarrow> mbuf option \<Rightarrow> 'x dn_env_scheme \<Rightarrow> 'x dn_env_scheme \<Rightarrow> bool" where
  "deq_outcome Q p e e' \<longleftrightarrow> freed e' = freed e \<and>
     (case p of
        None \<Rightarrow> (\<forall>q\<in>Q. mq e q = []) \<and> (\<forall>q. mq e' q = mq e q)
      | Some m \<Rightarrow> \<exists>q\<in>Q. \<exists>ms. mq e q = m # ms \<and> mq e' q = ms \<and> (\<forall>p. p \<noteq> q \<longrightarrow> mq e' p = mq e p))"

lemma deq_outcome_cong:
  "deq_outcome Q p e1 e' \<Longrightarrow> qs e1 = qs e \<Longrightarrow> freed e1 = freed e \<Longrightarrow> deq_outcome Q p e e'"
  by (cases p) (simp_all add: deq_outcome_def)

lemma deq_outcome_held:
  assumes "deq_outcome Q p e e'"
  shows "freed e' = freed e \<and>
    (case p of None \<Rightarrow> held_in Q e' = held_in Q e
     | Some m \<Rightarrow> \<exists>q ms. held_in Q e q = m # ms \<and> held_in Q e' = (held_in Q e)(q := ms)) \<and>
    (p = None \<longrightarrow> (\<forall>q. held_in Q e q = []))"
proof (cases p)
  case None
  with assms show ?thesis by (auto simp: deq_outcome_def held_in_def fun_eq_iff)
next
  case (Some m)
  with assms obtain q ms where q: "q \<in> Q" "mq e q = m # ms" "mq e' q = ms" "\<forall>p. p \<noteq> q \<longrightarrow> mq e' p = mq e p"
      "freed e' = freed e" by (auto simp: deq_outcome_def)
  then have "held_in Q e q = m # ms" "held_in Q e' = (held_in Q e)(q := ms)"
    by (auto simp: held_in_def fun_eq_iff)
  with Some q(5) show ?thesis by auto
qed

lemma enq_outcome_held:
  assumes "q \<in> Q"
    "r = 0 \<and> mq e' q = mq e q @ [m] \<and> freed e' = freed e \<and> (\<forall>p. p \<noteq> q \<longrightarrow> mq e' p = mq e p) \<or>
     r = (1::nat) \<and> (\<forall>p. mq e' p = mq e p) \<and> freed e' = freed e @ [m]"
  shows "r = 0 \<and> held_in Q e' = (held_in Q e)(q := held_in Q e q @ [m]) \<and> freed e' = freed e \<or>
     r \<noteq> 0 \<and> held_in Q e' = held_in Q e \<and> freed e' = freed e @ [m]"
  using assms by (auto simp: held_in_def fun_eq_iff)

end
