(* ===== verification/DnObj.thy ===== *)
theory DnObj
  imports Sched DnHeap DnHash "HOL-Library.Monad_Syntax"
begin

text \<open>
  The objects of dummynet and their life, from \<open>sys/netinet/ipfw/ip_dummynet.c\<close>: queues,
  scheduler instances, flowsets and schedulers are created by the tables they are looked up in,
  attached to one another, detached, deleted, and drained when idle. The state is the environment
  of the schedulers with the event heap and the fields of \<open>struct dn_parms\<close>. The registered
  scheduling algorithms are an argument \<open>al\<close>; \<open>None\<close> is a call that does not return (a heap panic, an
  access through NULL, a callback of an algorithm that does not return).
\<close>

section \<open>The state\<close>

text \<open>
  What the event heap holds: scheduler instances and delay lines, told apart in the code by the type in
  their header. Its index field, the \<open>id\<close> of the header, is \<open>evpos\<close>; the header of a delay line is not modelled.
\<close>

datatype ev = EvSI siid | EvDL siid

record 'x dn_sys =
  env :: "'x dn_env_scheme"
  evheap :: "ev dn_heap"
  evpos :: "ev \<Rightarrow> int"
  mems :: "nat \<Rightarrow> bool"
  fshash :: "htab option"
  schedhash :: "htab option"
  fsu :: "fsid list"
  schedlist :: "algid list"
  cfg_id :: int
  schk_count :: int
  si_count :: int
  fsk_count :: int
  queue_count :: int
  hash_size :: int
  max_hash_size :: int
  byte_limit :: int
  slot_limit :: int
  red_lookup_depth :: int
  red_avg_pkt_size :: int
  red_max_pkt_size :: int
  io_fast :: bool
  expire :: u32
  expire_cycle :: u32
  expire_object :: u32
  object_idle_tick :: u32
  expire_object_examined :: u32
  idle_queue_wait :: int
  idle_si_wait :: int
  drain_fs :: int
  drain_sch :: int
  busy :: bool
  pending :: "mbuf list"
  hz :: int
  tick :: int
  init_done :: bool
  drain_ratio :: int
  prev_t :: "int \<times> int"
  tick_last :: int
  tick_delta :: int
  tick_delta_sum :: int
  tick_adjustment :: int
  tick_diff :: int
  tick_lost :: int
  tsc :: "(nat \<Rightarrow> u64) option"
  cycle_task_new :: u64
  cycle_task_old :: u64
  cycle_task :: u64
  cycle_task_avg :: u64
  io_pkt :: nat
  io_pkt_fast :: nat
  next_addr :: nat

text \<open>
  \<open>mems\<close> are the results of the next allocations, \<open>tsc\<close> those of the next readings of the cycle counter
  (\<open>None\<close>: the machine has none). Objects get fresh addresses; one counter serves
  all kinds, and the address of a freed object is not used again.
\<close>

type_synonym 'x algs = "algid \<Rightarrow> ('x dn_env_scheme) dn_alg"

definition DN_DESTROY :: nat where "DN_DESTROY = 4"
definition DN_DELETE_FS :: nat where "DN_DELETE_FS = 8"
definition DN_DETACH :: nat where "DN_DETACH = 16"
definition DN_DEL_SAFE :: nat where "DN_DEL_SAFE = 128"

definition EINVAL :: nat where "EINVAL = 22"
definition ENOMEM :: nat where "ENOMEM = 12"
definition ENOSPC :: nat where "ENOSPC = 28"

definition on_env :: "('x dn_env_scheme \<Rightarrow> 'x dn_env_scheme) \<Rightarrow> 'x dn_sys \<Rightarrow> 'x dn_sys" where
  "on_env f s = s\<lparr>env := f (env s)\<rparr>"

definition upd_schk :: "schid \<Rightarrow> (dn_schk \<Rightarrow> dn_schk) \<Rightarrow> 'x dn_env_scheme \<Rightarrow> 'x dn_env_scheme" where
  "upd_schk k f e = e\<lparr>schks := (schks e)(k := f (schks e k))\<rparr>"

definition k_malloc :: "'x dn_sys \<Rightarrow> nat option \<times> 'x dn_sys" where
  "k_malloc s =
     (let ok = mems s 0; s = s\<lparr>mems := \<lambda>n. mems s (Suc n)\<rparr>
      in if ok then (Some (next_addr s), s\<lparr>next_addr := next_addr s + 1\<rparr>) else (None, s))"

text \<open>The result of a callback that works on the environment.\<close>

definition lift_cb :: "('x dn_env_scheme \<Rightarrow> 'r \<times> 'x dn_env_scheme) \<Rightarrow> 'x dn_sys \<Rightarrow> 'r \<times> 'x dn_sys" where
  "lift_cb f s = (case f (env s) of (r, e) \<Rightarrow> (r, s\<lparr>env := e\<rparr>))"

definition lift_cbo ::
  "('x dn_env_scheme \<Rightarrow> ('r \<times> 'x dn_env_scheme) option) \<Rightarrow> 'x dn_sys \<Rightarrow> ('r \<times> 'x dn_sys) option" where
  "lift_cbo f s = map_option (\<lambda>(r, e). (r, s\<lparr>env := e\<rparr>)) (f (env s))"

text \<open>The event heap; a failed insertion is ignored by all callers.\<close>

definition ev_insert :: "u64 \<Rightarrow> ev \<Rightarrow> 'x dn_sys \<Rightarrow> 'x dn_sys" where
  "ev_insert k x s =
     (let s1 = s\<lparr>mems := \<lambda>n. mems s (Suc n)\<rparr>
      in case heap_insert (mems s 0) (evheap s, evpos s) k (Some x) of
           None \<Rightarrow> s1
         | Some (h, p) \<Rightarrow> s1\<lparr>evheap := h, evpos := p\<rparr>)"

definition ev_extract :: "ev option \<Rightarrow> 'x dn_sys \<Rightarrow> 'x dn_sys option" where
  "ev_extract x s = map_option (\<lambda>(h, p). s\<lparr>evheap := h, evpos := p\<rparr>) (heap_extract (evheap s, evpos s) x)"

text \<open>The state before anything is configured: zeroes, and the clock of the user space port, 1000 ticks a second.\<close>

definition sys_zero :: "'x dn_env_scheme \<Rightarrow> 'x dn_sys" where
  "sys_zero e = \<lparr>env = e, evheap = \<lparr>h_size = 0, h_elements = 0, h_ofs = 4, h_p = \<lambda>_. \<lparr>he_key = 0, he_object = EvSI 0\<rparr>\<rparr>,
     evpos = (\<lambda>_. -1), mems = (\<lambda>_. True), fshash = None, schedhash = None, fsu = [], schedlist = [], cfg_id = 0,
     schk_count = 0, si_count = 0, fsk_count = 0, queue_count = 0, hash_size = 0, max_hash_size = 0, byte_limit = 0,
     slot_limit = 0, red_lookup_depth = 0, red_avg_pkt_size = 0, red_max_pkt_size = 0, io_fast = False, expire = 0,
     expire_cycle = 0, expire_object = 0, object_idle_tick = 0, expire_object_examined = 0, idle_queue_wait = 0,
     idle_si_wait = 0, drain_fs = 0, drain_sch = 0, busy = False, pending = [], hz = 1000, tick = 1000,
     init_done = False, drain_ratio = 0, prev_t = (0, 0), tick_last = 0, tick_delta = 0, tick_delta_sum = 0,
     tick_adjustment = 0, tick_diff = 0, tick_lost = 0, tsc = None, cycle_task_new = 0, cycle_task_old = 0,
     cycle_task = 0, cycle_task_avg = 0, io_pkt = 0, io_pkt_fast = 0, next_addr = 1\<rparr>"

text \<open>Reading the fields of an updated state.\<close>

lemma on_env_simps [simp]:
  "env (on_env f s) = f (env s)" "evheap (on_env f s) = evheap s" "evpos (on_env f s) = evpos s"
  "mems (on_env f s) = mems s" "fshash (on_env f s) = fshash s" "schedhash (on_env f s) = schedhash s"
  "fsu (on_env f s) = fsu s" "schedlist (on_env f s) = schedlist s" "cfg_id (on_env f s) = cfg_id s"
  "schk_count (on_env f s) = schk_count s" "si_count (on_env f s) = si_count s"
  "fsk_count (on_env f s) = fsk_count s" "queue_count (on_env f s) = queue_count s"
  "hash_size (on_env f s) = hash_size s" "max_hash_size (on_env f s) = max_hash_size s"
  "byte_limit (on_env f s) = byte_limit s" "slot_limit (on_env f s) = slot_limit s"
  "red_lookup_depth (on_env f s) = red_lookup_depth s" "red_avg_pkt_size (on_env f s) = red_avg_pkt_size s"
  "red_max_pkt_size (on_env f s) = red_max_pkt_size s" "io_fast (on_env f s) = io_fast s"
  "expire (on_env f s) = expire s" "expire_cycle (on_env f s) = expire_cycle s"
  "expire_object (on_env f s) = expire_object s" "object_idle_tick (on_env f s) = object_idle_tick s"
  "expire_object_examined (on_env f s) = expire_object_examined s"
  "idle_queue_wait (on_env f s) = idle_queue_wait s" "idle_si_wait (on_env f s) = idle_si_wait s"
  "drain_fs (on_env f s) = drain_fs s" "drain_sch (on_env f s) = drain_sch s" "busy (on_env f s) = busy s"
  "pending (on_env f s) = pending s" "hz (on_env f s) = hz s" "tick (on_env f s) = tick s"
  "init_done (on_env f s) = init_done s" "drain_ratio (on_env f s) = drain_ratio s"
  "prev_t (on_env f s) = prev_t s" "tick_last (on_env f s) = tick_last s"
  "tick_delta (on_env f s) = tick_delta s" "tick_delta_sum (on_env f s) = tick_delta_sum s"
  "tick_adjustment (on_env f s) = tick_adjustment s" "tick_diff (on_env f s) = tick_diff s"
  "tick_lost (on_env f s) = tick_lost s" "tsc (on_env f s) = tsc s"
  "cycle_task_new (on_env f s) = cycle_task_new s" "cycle_task_old (on_env f s) = cycle_task_old s"
  "cycle_task (on_env f s) = cycle_task s" "cycle_task_avg (on_env f s) = cycle_task_avg s"
  "io_pkt (on_env f s) = io_pkt s" "io_pkt_fast (on_env f s) = io_pkt_fast s"
  "next_addr (on_env f s) = next_addr s"
  by (simp_all add: on_env_def)

lemma on_env_on_env [simp]: "on_env f (on_env g s) = on_env (\<lambda>e. f (g e)) s"
  by (simp add: on_env_def)

lemma ev_insert_simps [simp]:
  "env (ev_insert k x s) = env s" "mems (ev_insert k x s) = (\<lambda>n. mems s (Suc n))"
  "fshash (ev_insert k x s) = fshash s" "schedhash (ev_insert k x s) = schedhash s"
  "fsu (ev_insert k x s) = fsu s" "schedlist (ev_insert k x s) = schedlist s"
  "cfg_id (ev_insert k x s) = cfg_id s" "schk_count (ev_insert k x s) = schk_count s"
  "si_count (ev_insert k x s) = si_count s" "fsk_count (ev_insert k x s) = fsk_count s"
  "queue_count (ev_insert k x s) = queue_count s" "hash_size (ev_insert k x s) = hash_size s"
  "max_hash_size (ev_insert k x s) = max_hash_size s" "byte_limit (ev_insert k x s) = byte_limit s"
  "slot_limit (ev_insert k x s) = slot_limit s" "red_lookup_depth (ev_insert k x s) = red_lookup_depth s"
  "red_avg_pkt_size (ev_insert k x s) = red_avg_pkt_size s"
  "red_max_pkt_size (ev_insert k x s) = red_max_pkt_size s" "io_fast (ev_insert k x s) = io_fast s"
  "expire (ev_insert k x s) = expire s" "expire_cycle (ev_insert k x s) = expire_cycle s"
  "expire_object (ev_insert k x s) = expire_object s" "object_idle_tick (ev_insert k x s) = object_idle_tick s"
  "expire_object_examined (ev_insert k x s) = expire_object_examined s"
  "idle_queue_wait (ev_insert k x s) = idle_queue_wait s" "idle_si_wait (ev_insert k x s) = idle_si_wait s"
  "drain_fs (ev_insert k x s) = drain_fs s" "drain_sch (ev_insert k x s) = drain_sch s"
  "busy (ev_insert k x s) = busy s" "pending (ev_insert k x s) = pending s" "hz (ev_insert k x s) = hz s"
  "tick (ev_insert k x s) = tick s" "init_done (ev_insert k x s) = init_done s"
  "drain_ratio (ev_insert k x s) = drain_ratio s" "prev_t (ev_insert k x s) = prev_t s"
  "tick_last (ev_insert k x s) = tick_last s" "tick_delta (ev_insert k x s) = tick_delta s"
  "tick_delta_sum (ev_insert k x s) = tick_delta_sum s" "tick_adjustment (ev_insert k x s) = tick_adjustment s"
  "tick_diff (ev_insert k x s) = tick_diff s" "tick_lost (ev_insert k x s) = tick_lost s"
  "tsc (ev_insert k x s) = tsc s" "cycle_task_new (ev_insert k x s) = cycle_task_new s"
  "cycle_task_old (ev_insert k x s) = cycle_task_old s" "cycle_task (ev_insert k x s) = cycle_task s"
  "cycle_task_avg (ev_insert k x s) = cycle_task_avg s" "io_pkt (ev_insert k x s) = io_pkt s"
  "io_pkt_fast (ev_insert k x s) = io_pkt_fast s" "next_addr (ev_insert k x s) = next_addr s"
  by (simp_all add: ev_insert_def Let_def split: option.split)

section \<open>Tables\<close>

text \<open>
  The list form of \<open>dn_ht_find\<close> and of the scans, justified by \<open>dn_ht_find_spec\<close> and
  \<open>dn_ht_scan_correct\<close> of theory \<open>DnHash\<close>. The constructor of new objects works on the whole state.
\<close>

definition tab_init :: "int \<Rightarrow> 'x dn_sys \<Rightarrow> htab option \<times> 'x dn_sys" where
  "tab_init buckets s =
     (if buckets < 1 \<or> 65536 < buckets then (None, s)
      else
        let ok = mems s 0; s = s\<lparr>mems := \<lambda>n. mems s (Suc n)\<rparr>
        in if ok then (Some \<lparr>hb_mask = unat (round_buckets (word_of_int buckets)), hb_list = \<lambda>_. []\<rparr>, s)
           else (None, s))"

definition tab_bucket :: "htab \<Rightarrow> u32 \<Rightarrow> nat" where
  "tab_bucket t h = (if hb_mask t = 1 then 0 else unat (h AND word_of_nat (hb_mask t)))"

definition tab_entries :: "htab option \<Rightarrow> nat" where
  "tab_entries t = (case t of None \<Rightarrow> 0 | Some t \<Rightarrow> (\<Sum>i\<le>hb_mask t. length (hb_list t i)))"

definition tab_find ::
  "u32 \<Rightarrow> (nat \<Rightarrow> bool) \<Rightarrow> nat \<Rightarrow> ('s \<Rightarrow> (nat option \<times> 's) option) \<Rightarrow> htab \<Rightarrow> 's \<Rightarrow>
   (nat option \<times> htab \<times> 's) option" where
  "tab_find h found flags new t s =
     (let i = tab_bucket t h; xs = hb_list t i in
      case find found xs of
        Some p \<Rightarrow>
          Some (Some p, (if flags AND DNHT_REMOVE \<noteq> 0 then t\<lparr>hb_list := (hb_list t)(i := remove1 p xs)\<rparr> else t), s)
      | None \<Rightarrow>
          if flags AND DNHT_INSERT = 0 then Some (None, t, s)
          else do {
            (q, s) \<leftarrow> new s;
            Some (case q of None \<Rightarrow> (None, t, s) | Some q \<Rightarrow> (Some q, t\<lparr>hb_list := (hb_list t)(i := q # xs)\<rparr>, s))
          })"

text \<open>A callback that may not return, for a scan that goes on with the state it left.\<close>

definition scan_cb :: "('o \<Rightarrow> 's \<Rightarrow> (nat \<times> 's) option) \<Rightarrow> 'o \<Rightarrow> 's option \<Rightarrow> nat \<times> 's option" where
  "scan_cb fn x s =
     (case s of
        None \<Rightarrow> (DNHT_SCAN_END, None)
      | Some s \<Rightarrow> (case fn x s of None \<Rightarrow> (DNHT_SCAN_END, None) | Some (r, s) \<Rightarrow> (r, Some s)))"

definition tab_scan :: "(nat \<Rightarrow> 's \<Rightarrow> (nat \<times> 's) option) \<Rightarrow> htab \<Rightarrow> 's \<Rightarrow> (htab \<times> 's) option" where
  "tab_scan fn t s =
     (case lists_scan [0..<hb_mask t + 1] (hb_list t) (scan_cb fn) 0 (Some s) of
        (L, n, s) \<Rightarrow> map_option (\<lambda>s. (t\<lparr>hb_list := L\<rparr>, s)) s)"

text \<open>\<open>dn_ht_scan_bucket\<close> returns the bucket to scan next.\<close>

definition tab_scan_bucket ::
  "(nat \<Rightarrow> 's \<Rightarrow> (nat \<times> 's) option) \<Rightarrow> htab \<Rightarrow> int \<Rightarrow> 's \<Rightarrow> (htab \<times> int \<times> 's) option" where
  "tab_scan_bucket fn t bucket s =
     (let b = (if int (hb_mask t) < bucket \<or> bucket < 0 then 0 else nat bucket) in
      case list_scan (scan_cb fn) (Some s) (hb_list t b) of
        (ks, rest, n, s, e) \<Rightarrow>
          map_option (\<lambda>s. (t\<lparr>hb_list := (hb_list t)(b := rest @ ks)\<rparr>, int (if e then b else b + 1), s)) s)"

section \<open>Scheduler instances\<close>

text \<open>The algorithm of a scheduler.\<close>

definition sk_alg :: "'x algs \<Rightarrow> 'x dn_env_scheme \<Rightarrow> schid \<Rightarrow> ('x dn_env_scheme) dn_alg option" where
  "sk_alg al e k = map_option al (sk_fp (schks e k))"

definition si_reset_credit :: "siid \<Rightarrow> 'x dn_sys \<Rightarrow> 'x dn_sys" where
  "si_reset_credit i s =
     (let p = sk_link (schks (env s) (si_sched (sis (env s) i)));
          c = (burst p + (if io_fast s then word_of_int (bandwidth p) else 0) :: u64)
      in on_env (upd_si i (\<lambda>r. r\<lparr>idle_time := curr_time (env s), si_credit := sint c\<rparr>)) s)"

definition si_new :: "'x algs \<Rightarrow> ipfw_flow_id \<Rightarrow> schid \<Rightarrow> 'x dn_sys \<Rightarrow> (siid option \<times> 'x dn_sys) option" where
  "si_new al key k s = do {
     a \<leftarrow> sk_alg al (env s) k;
     case k_malloc s of
        (None, s) \<Rightarrow> Some (None, s)
      | (Some i, s) \<Rightarrow> do {
          let ni = flow_zero\<lparr>fl_oid := set_oid DN_SCH_I (word_of_nat sizeof_dn_flow) oid_zero\<rparr>;
          let s = on_env (upd_si i (\<lambda>_. si_zero\<lparr>si_ni := ni, si_sched := k\<rparr>)) s;
          let (r, s) = (case al_new_sched a of None \<Rightarrow> (0, s) | Some f \<Rightarrow> lift_cb (f i) s);
          let fl = sch_flags (sk_sch (schks (env s) k));
          if r \<noteq> 0 then Some (None, on_env (upd_si i (\<lambda>_. si_zero)) s)
             else
               let s = (if fl AND DN_HAVE_MASK \<noteq> 0
                        then on_env (upd_si i (\<lambda>r. r\<lparr>si_ni := (si_ni r)\<lparr>fid := key\<rparr>\<rparr>)) s else s);
                   s = si_reset_credit i s
               in Some (Some i, on_env (\<lambda>e. e\<lparr>idle_si := idle_si e + 1\<rparr>) (s\<lparr>si_count := si_count s + 1\<rparr>))
        }
   }"

definition si_destroy :: "'x algs \<Rightarrow> siid \<Rightarrow> 'x dn_sys \<Rightarrow> (nat \<times> 'x dn_sys) option" where
  "si_destroy al i s = do {
     s \<leftarrow> (if dline_in_heap (sis (env s) i) then ev_extract (Some (EvDL i)) s else Some s);
     let s = (if fl_length (si_ni (sis (env s) i)) = 0 then on_env (\<lambda>e. e\<lparr>idle_si := idle_si e - 1\<rparr>) s else s);
     let s = on_env (dn_free_pkts (si_dline (sis (env s) i))) s;
     s \<leftarrow> (if si_kflags (sis (env s) i) AND DN_ACTIVE \<noteq> 0 then ev_extract (Some (EvSI i)) s else Some s);
     a \<leftarrow> sk_alg al (env s) (si_sched (sis (env s) i));
     let s = (case al_free_sched a of None \<Rightarrow> s | Some f \<Rightarrow> snd (lift_cb (f i) s));
     let s = on_env (upd_si i (\<lambda>_. si_zero)) s;
     Some (DNHT_SCAN_DEL, s\<lparr>si_count := si_count s - 1\<rparr>)
   }"

definition set_siht :: "schid \<Rightarrow> objs \<Rightarrow> 'x dn_sys \<Rightarrow> 'x dn_sys" where
  "set_siht k x = on_env (upd_schk k (\<lambda>r. r\<lparr>siht := x\<rparr>))"

definition ipdn_si_find :: "'x algs \<Rightarrow> schid \<Rightarrow> ipfw_flow_id \<Rightarrow> 'x dn_sys \<Rightarrow> (siid option \<times> 'x dn_sys) option" where
  "ipdn_si_find al k idf s =
     (let sk = schks (env s) k in
      if sch_flags (sk_sch sk) AND DN_HAVE_MASK \<noteq> 0 then
        let id_t = flow_id_mask (sched_mask (sk_sch sk)) idf in
        case siht sk of
          Table t \<Rightarrow> do {
            (p, t, s) \<leftarrow> tab_find (flow_id_hash id_t) (\<lambda>o1. flow_id_cmp (fid (si_ni (sis (env s) o1))) id_t = 0)
              DNHT_INSERT (si_new al id_t k) t s;
            Some (p, set_siht k (Table t) s)
          }
        | _ \<Rightarrow> Some (None, s)
      else
        case siht sk of
          NoObj \<Rightarrow> do {
            (p, s) \<leftarrow> si_new al fid_zero k s;
            Some (p, set_siht k (case p of None \<Rightarrow> NoObj | Some i \<Rightarrow> OneObj i) s)
          }
        | OneObj i \<Rightarrow> Some (Some i, s)
        | Table t \<Rightarrow> Some (None, s))"

definition schk_reset_credit :: "schid \<Rightarrow> 'x dn_sys \<Rightarrow> 'x dn_sys option" where
  "schk_reset_credit k s =
     (case siht (schks (env s) k) of
        Table t \<Rightarrow> do {
          (t, s) \<leftarrow> tab_scan (\<lambda>i s. Some (0, si_reset_credit i s)) t s;
          Some (set_siht k (Table t) s)
        }
      | OneObj i \<Rightarrow> Some (si_reset_credit i s)
      | NoObj \<Rightarrow> Some s)"

section \<open>Queues\<close>

text \<open>
  \<open>q_new\<close>: \<open>junk\<close> is the flow identifier of the template the queue is made from. The caller,
  \<open>ipdn_q_find\<close>, leaves that field of the template uninitialised, so it is an argument here.
\<close>

definition q_new :: "'x algs \<Rightarrow> ipfw_flow_id \<Rightarrow> ipfw_flow_id \<Rightarrow> fsid \<Rightarrow> 'x dn_sys \<Rightarrow> (qid option \<times> 'x dn_sys) option" where
  "q_new al junk key f s = do {
     let fs = fsks (env s) f;
     k \<leftarrow> fsk_sched fs;
     a \<leftarrow> sk_alg al (env s) k;
     case k_malloc s of
        (None, s) \<Rightarrow> Some (None, s)
      | (Some q, s) \<Rightarrow> do {
          let len = sizeof_dn_queue + al_q_datalen a;
          let q0 = queue_zero\<lparr>q_ni := flow_zero\<lparr>fl_oid := set_oid DN_QUEUE (word_of_nat len) oid_zero\<rparr>, q_fs := Some f\<rparr>;
          let q0 = (if fs_flags (fsk_fs fs) AND DN_QHT_HASH \<noteq> 0 then q0\<lparr>q_ni := (q_ni q0)\<lparr>fid := key\<rparr>\<rparr> else q0);
          let s = on_env (upd_q q (\<lambda>_. q0)) s;
          (si, s) \<leftarrow> ipdn_si_find al k junk s;
          case si of
            None \<Rightarrow> Some (None, s)
          | Some i \<Rightarrow> do {
              let s = on_env (\<lambda>e. upd_si i (\<lambda>r. r\<lparr>si_q_count := si_q_count r + 1\<rparr>) (upd_q q (\<lambda>r. r\<lparr>q_si := Some i\<rparr>) e)) s;
              a \<leftarrow> sk_alg al (env s) k;
              s \<leftarrow> (case al_new_queue a of None \<Rightarrow> Some s | Some g \<Rightarrow> map_option snd (lift_cbo (g q) s));
              Some (Some q, on_env (\<lambda>e. e\<lparr>idle_queue := idle_queue e + 1\<rparr>) (s\<lparr>queue_count := queue_count s + 1\<rparr>))
            }
        }
   }"

definition dn_delete_queue :: "'x algs \<Rightarrow> qid \<Rightarrow> nat \<Rightarrow> 'x dn_sys \<Rightarrow> (nat \<times> 'x dn_sys) option" where
  "dn_delete_queue al q flags s = do {
     (r, s) \<leftarrow> (case q_fs (qs (env s) q) of
        None \<Rightarrow> Some (0, s)
      | Some f \<Rightarrow> do {
          k \<leftarrow> fsk_sched (fsks (env s) f);
          a \<leftarrow> sk_alg al (env s) k;
          case al_free_queue a of
            None \<Rightarrow> Some (0, s)
          | Some g \<Rightarrow> lift_cbo (g q (flags AND DN_DEL_SAFE \<noteq> 0)) s
        });
     if r = 1 then Some (1, s)
     else do {
       i \<leftarrow> q_si (qs (env s) q);
       let s = on_env (\<lambda>e. upd_q q (\<lambda>r. r\<lparr>q_si := None\<rparr>) (upd_si i (\<lambda>r. r\<lparr>si_q_count := si_q_count r - 1\<rparr>) e)) s;
       if flags AND DN_DESTROY \<noteq> 0 then
         let s = (if mq (env s) q \<noteq> [] then on_env (dn_free_pkts (mq (env s) q)) s
                  else on_env (\<lambda>e. e\<lparr>idle_queue := idle_queue e - 1\<rparr>) s);
             s = on_env (upd_q q (\<lambda>_. queue_zero)) s
         in Some (0, s\<lparr>queue_count := queue_count s - 1\<rparr>)
       else Some (0, s)
     }
   }"

definition q_delete_cb :: "'x algs \<Rightarrow> nat \<Rightarrow> qid \<Rightarrow> 'x dn_sys \<Rightarrow> (nat \<times> 'x dn_sys) option" where
  "q_delete_cb al flags q s =
     map_option (\<lambda>(_, s). (if flags AND DN_DESTROY \<noteq> 0 then DNHT_SCAN_DEL else 0, s)) (dn_delete_queue al q flags s)"

definition set_qht :: "fsid \<Rightarrow> objs \<Rightarrow> 'x dn_sys \<Rightarrow> 'x dn_sys" where
  "set_qht f x = on_env (upd_fsk f (\<lambda>r. r\<lparr>qht := x\<rparr>))"

definition qht_delete :: "'x algs \<Rightarrow> fsid \<Rightarrow> nat \<Rightarrow> 'x dn_sys \<Rightarrow> 'x dn_sys option" where
  "qht_delete al f flags s =
     (case qht (fsks (env s) f) of
        NoObj \<Rightarrow> Some s
      | Table t \<Rightarrow> do {
          (t, s) \<leftarrow> tab_scan (q_delete_cb al flags) t s;
          Some (set_qht f (if flags AND DN_DESTROY \<noteq> 0 then NoObj else Table t) s)
        }
      | OneObj q \<Rightarrow> do {
          (_, s) \<leftarrow> dn_delete_queue al q flags s;
          Some (if flags AND DN_DESTROY \<noteq> 0 then set_qht f NoObj s else s)
        })"

definition ipdn_q_find ::
  "'x algs \<Rightarrow> ipfw_flow_id \<Rightarrow> fsid \<Rightarrow> ipfw_flow_id \<Rightarrow> 'x dn_sys \<Rightarrow> (qid option \<times> 'x dn_sys) option" where
  "ipdn_q_find al junk f idf s =
     (let fs = fsks (env s) f in
      if fs_flags (fsk_fs fs) AND DN_QHT_HASH \<noteq> 0 then do {
        let (q, s) = (case qht fs of NoObj \<Rightarrow> (case tab_init (int (fs_buckets (fsk_fs fs))) s of
                         (None, s) \<Rightarrow> (NoObj, s) | (Some t, s) \<Rightarrow> (Table t, s))
                      | x \<Rightarrow> (x, s));
        let s = set_qht f q s;
        case q of
          Table t \<Rightarrow> do {
            let masked_id = flow_id_mask (fsk_mask fs) idf;
            (p, t, s) \<leftarrow> tab_find (flow_id_hash masked_id) (\<lambda>o1. flow_id_cmp (fid (q_ni (qs (env s) o1))) masked_id = 0)
              DNHT_INSERT (q_new al junk masked_id f) t s;
            Some (p, set_qht f (Table t) s)
          }
        | _ \<Rightarrow> Some (None, s)
      } else
        case qht fs of
          NoObj \<Rightarrow> do {
            (p, s) \<leftarrow> q_new al junk fid_zero f s;
            Some (p, set_qht f (case p of None \<Rightarrow> NoObj | Some q \<Rightarrow> OneObj q) s)
          }
        | OneObj q \<Rightarrow> Some (Some q, s)
        | Table t \<Rightarrow> Some (None, s))"

section \<open>Flowsets\<close>

text \<open>Flowsets and schedulers are hashed by number.\<close>

definition nr_hash :: "nat \<Rightarrow> u32" where
  "nr_hash n = (let i = (word_of_nat n :: u32) in drop_bit 8 i XOR drop_bit 4 i XOR i)"

definition fsk_new :: "nat \<Rightarrow> 'x dn_sys \<Rightarrow> (fsid option \<times> 'x dn_sys) option" where
  "fsk_new key s =
     (case k_malloc s of
        (None, s) \<Rightarrow> Some (None, s)
      | (Some f, s) \<Rightarrow>
          Some (Some f, on_env (upd_fsk f (\<lambda>_. fsk_zero\<lparr>fsk_fs := fs_zero\<lparr>fs_oid := set_oid DN_FS (word_of_nat sizeof_dn_fs) oid_zero\<rparr>\<rparr>))
            (s\<lparr>fsk_count := fsk_count s + 1, fsu := f # fsu s\<rparr>)))"

definition find_fsk :: "nat \<Rightarrow> nat \<Rightarrow> 'x dn_sys \<Rightarrow> (fsid option \<times> 'x dn_sys) option" where
  "find_fsk nr flags s =
     (case fshash s of
        None \<Rightarrow> Some (None, s)
      | Some t \<Rightarrow> do {
          (p, t, s) \<leftarrow> tab_find (nr_hash nr) (\<lambda>f. fs_nr (fsk_fs (fsks (env s) f)) = nr) flags (fsk_new nr) t s;
          Some (p, s\<lparr>fshash := Some t\<rparr>)
        })"

text \<open>Removal from a singly linked list; taking out what is not there runs off its end.\<close>

definition sl_remove :: "nat \<Rightarrow> nat list \<Rightarrow> nat list option" where
  "sl_remove x xs = (if x \<in> set xs then Some (remove1 x xs) else None)"

definition fsk_unlink :: "fsid \<Rightarrow> 'x dn_sys \<Rightarrow> 'x dn_sys option" where
  "fsk_unlink f s =
     (case fsk_sched (fsks (env s) f) of
        Some k \<Rightarrow> map_option (\<lambda>l. on_env (upd_schk k (\<lambda>r. r\<lparr>fsk_list := l\<rparr>)) s) (sl_remove f (fsk_list (schks (env s) k)))
      | None \<Rightarrow> map_option (\<lambda>l. s\<lparr>fsu := l\<rparr>) (sl_remove f (fsu s)))"

definition fsk_detach :: "'x algs \<Rightarrow> fsid \<Rightarrow> nat \<Rightarrow> 'x dn_sys \<Rightarrow> 'x dn_sys option" where
  "fsk_detach al f flags s = do {
     let flags = (if flags AND DN_DELETE_FS \<noteq> 0 then flags OR DN_DESTROY else flags);
     s \<leftarrow> (if flags AND DN_DETACH \<noteq> 0 then fsk_unlink f s else Some s);
     let s = on_env (upd_fsk f (\<lambda>r. r\<lparr>w_q_lookup := \<lambda>_. 0\<rparr>)) s;
     s \<leftarrow> qht_delete al f flags s;
     s \<leftarrow> (case fsk_sched (fsks (env s) f) of
        None \<Rightarrow> Some s
      | Some k \<Rightarrow> do {
          a \<leftarrow> sk_alg al (env s) k;
          Some (case al_free_fsk a of None \<Rightarrow> s | Some g \<Rightarrow> snd (lift_cb (g f) s))
        });
     let s = on_env (upd_fsk f (\<lambda>r. r\<lparr>fsk_sched := None\<rparr>)) s;
     Some (if flags AND DN_DELETE_FS \<noteq> 0
           then on_env (upd_fsk f (\<lambda>_. fsk_zero)) (s\<lparr>fsk_count := fsk_count s - 1\<rparr>)
           else s\<lparr>fsu := f # fsu s\<rparr>)
   }"

text \<open>
  \<open>fsk_detach_list\<close> takes flowsets from the head of a list until it is empty. On a list of a
  scheduler the detached flowsets go to the list of the unlinked ones.
\<close>

primrec detach_all :: "'x algs \<Rightarrow> nat \<Rightarrow> fsid list \<Rightarrow> 'x dn_sys \<Rightarrow> 'x dn_sys option" where
  "detach_all al flags [] s = Some s"
| "detach_all al flags (f # fs) s = do { s \<leftarrow> fsk_detach al f flags s; detach_all al flags fs s }"

definition fsk_detach_sched :: "'x algs \<Rightarrow> schid \<Rightarrow> nat \<Rightarrow> 'x dn_sys \<Rightarrow> 'x dn_sys option" where
  "fsk_detach_sched al k flags s =
     detach_all al flags (fsk_list (schks (env s) k)) (on_env (upd_schk k (\<lambda>r. r\<lparr>fsk_list := []\<rparr>)) s)"

definition fsk_detach_unlinked :: "'x algs \<Rightarrow> 'x dn_sys \<Rightarrow> 'x dn_sys option" where
  "fsk_detach_unlinked al s = detach_all al DN_DELETE_FS (fsu s) (s\<lparr>fsu := []\<rparr>)"

definition delete_fs :: "'x algs \<Rightarrow> nat \<Rightarrow> 'x dn_sys \<Rightarrow> (nat \<times> 'x dn_sys) option" where
  "delete_fs al nr s = do {
     (p, s) \<leftarrow> find_fsk nr DNHT_REMOVE s;
     let s = (if tab_entries (fshash s) = 0 then s\<lparr>fshash := None\<rparr> else s);
     case p of
       None \<Rightarrow> Some (EINVAL, s)
     | Some f \<Rightarrow> do { s \<leftarrow> fsk_detach al f (DN_DETACH OR DN_DELETE_FS) s; Some (0, s) }
   }"

section \<open>Schedulers\<close>

definition schk_new :: "algid \<Rightarrow> dn_sch \<Rightarrow> 'x dn_sys \<Rightarrow> (schid option \<times> 'x dn_sys) option" where
  "schk_new fp sch s =
     (case k_malloc s of
        (None, s) \<Rightarrow> Some (None, s)
      | (Some k, s) \<Rightarrow>
          let s = on_env (upd_schk k (\<lambda>_. schk_zero\<lparr>sk_sch := sch, sk_link := link_zero\<lparr>
              link_oid := set_oid DN_LINK (word_of_nat sizeof_dn_link) oid_zero, link_nr := int (sch_nr sch)\<rparr>\<rparr>)) s
          in if sch_flags sch AND DN_HAVE_MASK \<noteq> 0 then
               case tab_init (int (sch_buckets sch)) s of
                 (None, s) \<Rightarrow> Some (None, s)
               | (Some t, s) \<Rightarrow> Some (Some k, set_siht k (Table t) (s\<lparr>schk_count := schk_count s + 1\<rparr>))
             else Some (Some k, s\<lparr>schk_count := schk_count s + 1\<rparr>))"

definition find_schk :: "nat \<Rightarrow> nat \<Rightarrow> algid \<Rightarrow> dn_sch \<Rightarrow> 'x dn_sys \<Rightarrow> (schid option \<times> 'x dn_sys) option" where
  "find_schk nr flags fp sch s =
     (case schedhash s of
        None \<Rightarrow> Some (None, s)
      | Some t \<Rightarrow> do {
          (p, t, s) \<leftarrow> tab_find (nr_hash nr) (\<lambda>k. sch_nr (sk_sch (schks (env s) k)) = nr) flags (schk_new fp sch) t s;
          Some (p, s\<lparr>schedhash := Some t\<rparr>)
        })"

text \<open>A lookup without insertion does not use the arguments of the constructor.\<close>

definition locate_scheduler :: "nat \<Rightarrow> 'x dn_sys \<Rightarrow> schid option" where
  "locate_scheduler nr s =
     (case schedhash s of
        None \<Rightarrow> None
      | Some t \<Rightarrow> find (\<lambda>k. sch_nr (sk_sch (schks (env s) k)) = nr) (hb_list t (tab_bucket t (nr_hash nr))))"

definition schk_delete_cb :: "'x algs \<Rightarrow> bool \<Rightarrow> schid \<Rightarrow> 'x dn_sys \<Rightarrow> (nat \<times> 'x dn_sys) option" where
  "schk_delete_cb al arg k s = do {
     s \<leftarrow> fsk_detach_sched al k (if arg then DN_DESTROY else 0) s;
     s \<leftarrow> (case siht (schks (env s) k) of
        Table t \<Rightarrow> map_option snd (tab_scan (si_destroy al) t s)
      | OneObj i \<Rightarrow> map_option snd (si_destroy al i s)
      | NoObj \<Rightarrow> Some s);
     let s = on_env (upd_schk k (\<lambda>r. r\<lparr>sk_profile := None, siht := NoObj\<rparr>)) s;
     a \<leftarrow> sk_alg al (env s) k;
     let s = (case al_destroy a of None \<Rightarrow> s | Some g \<Rightarrow> snd (lift_cb (g k) s));
     let s = on_env (upd_schk k (\<lambda>_. schk_zero)) s;
     Some (DNHT_SCAN_DEL, s\<lparr>schk_count := schk_count s - 1\<rparr>)
   }"

definition delete_schk :: "'x algs \<Rightarrow> nat \<Rightarrow> 'x dn_sys \<Rightarrow> (nat \<times> 'x dn_sys) option" where
  "delete_schk al nr s = do {
     (p, s) \<leftarrow> find_schk nr DNHT_REMOVE 0 sch_zero s;
     let s = (if tab_entries (schedhash s) = 0 then s\<lparr>schedhash := None\<rparr> else s);
     case p of
       None \<Rightarrow> Some (EINVAL, s)
     | Some k \<Rightarrow> do {
         (_, s) \<leftarrow> delete_fs al (nr + DN_MAX_ID) s;
         (_, s) \<leftarrow> schk_delete_cb al True k s;
         Some (0, s)
       }
   }"

section \<open>Draining idle objects\<close>

text \<open>
  The callbacks are given a pointer \<open>arg\<close> to a counter of examined objects, but they advance the pointer
  (\<open>(*arg++)\<close>), not the counter: it stays 0, so it never stops a scan.
\<close>

definition over_limit :: "int \<Rightarrow> 'x dn_sys \<Rightarrow> bool" where
  "over_limit n s = (expire_object_examined s < word_of_int n)"

definition drain_scheduler_cb :: "'x algs \<Rightarrow> siid \<Rightarrow> 'x dn_sys \<Rightarrow> (nat \<times> 'x dn_sys) option" where
  "drain_scheduler_cb al i s =
     (let si = sis (env s) i in
      if over_limit 0 s then Some (DNHT_SCAN_END, s)
      else if si_kflags si AND DN_ACTIVE \<noteq> 0 \<or> si_dline si \<noteq> [] then Some (0, s)
      else if fl_length (si_ni si) = 0 then do {
        a \<leftarrow> sk_alg al (env s) (si_sched si);
        let emp = (if al_flags a AND DN_MULTIQUEUE \<noteq> 0 then si_q_count si = 0 else True);
        if emp \<and> idle_time si < curr_time (env s) - ucast (object_idle_tick s) then si_destroy al i s
        else Some (0, s\<lparr>idle_si_wait := idle_si_wait s + 1\<rparr>)
      } else Some (0, s))"

definition drain_scheduler_sch_cb :: "'x algs \<Rightarrow> schid \<Rightarrow> 'x dn_sys \<Rightarrow> (nat \<times> 'x dn_sys) option" where
  "drain_scheduler_sch_cb al k s = do {
     s \<leftarrow> (case siht (schks (env s) k) of
        Table t \<Rightarrow> do {
          (t, b, s) \<leftarrow> tab_scan_bucket (drain_scheduler_cb al) t (sk_drain_bucket (schks (env s) k)) s;
          Some (on_env (upd_schk k (\<lambda>r. r\<lparr>siht := Table t, sk_drain_bucket := b\<rparr>)) s)
        }
      | OneObj i \<Rightarrow> do {
          (r, s) \<leftarrow> drain_scheduler_cb al i s;
          Some (if r = DNHT_SCAN_DEL then set_siht k NoObj s else s)
        }
      | NoObj \<Rightarrow> Some s);
     Some (if over_limit 0 s then DNHT_SCAN_END else 0, s)
   }"

definition dn_drain_scheduler :: "'x algs \<Rightarrow> 'x dn_sys \<Rightarrow> 'x dn_sys option" where
  "dn_drain_scheduler al s =
     (case schedhash s of
        None \<Rightarrow> Some s
      | Some t \<Rightarrow> do {
          (t, b, s) \<leftarrow> tab_scan_bucket (drain_scheduler_sch_cb al) t (drain_sch s) s;
          Some (s\<lparr>schedhash := Some t, drain_sch := b\<rparr>)
        })"

definition drain_queue_cb :: "'x algs \<Rightarrow> qid \<Rightarrow> 'x dn_sys \<Rightarrow> (nat \<times> 'x dn_sys) option" where
  "drain_queue_cb al q s =
     (let r = qs (env s) q in
      if over_limit 0 s then Some (DNHT_SCAN_END, s)
      else if fl_length (q_ni r) = 0 then
        if q_time r < curr_time (env s) - ucast (object_idle_tick s) then do {
          (d, s) \<leftarrow> dn_delete_queue al q (DN_DESTROY OR DN_DEL_SAFE) s;
          Some (if d = 0 then DNHT_SCAN_DEL else 0, s)
        } else Some (0, s\<lparr>idle_queue_wait := idle_queue_wait s + 1\<rparr>)
      else Some (0, s))"

definition drain_queue_fs_cb :: "'x algs \<Rightarrow> fsid \<Rightarrow> 'x dn_sys \<Rightarrow> (nat \<times> 'x dn_sys) option" where
  "drain_queue_fs_cb al f s = do {
     s \<leftarrow> (case qht (fsks (env s) f) of
        Table t \<Rightarrow> do {
          (t, b, s) \<leftarrow> tab_scan_bucket (drain_queue_cb al) t (fsk_drain_bucket (fsks (env s) f)) s;
          Some (on_env (upd_fsk f (\<lambda>r. r\<lparr>qht := Table t, fsk_drain_bucket := b\<rparr>)) s)
        }
      | OneObj q \<Rightarrow> do {
          (r, s) \<leftarrow> drain_queue_cb al q s;
          Some (if r = DNHT_SCAN_DEL then set_qht f NoObj s else s)
        }
      | NoObj \<Rightarrow> Some s);
     Some (if over_limit 0 s then DNHT_SCAN_END else 0, s)
   }"

definition dn_drain_queue :: "'x algs \<Rightarrow> 'x dn_sys \<Rightarrow> 'x dn_sys option" where
  "dn_drain_queue al s =
     (case fshash s of
        None \<Rightarrow> Some s
      | Some t \<Rightarrow> do {
          (t, b, s) \<leftarrow> tab_scan_bucket (drain_queue_fs_cb al) t (drain_fs s) s;
          Some (s\<lparr>fshash := Some t, drain_fs := b\<rparr>)
        })"

end
