(* ===== verification/DnConf.thy ===== *)
theory DnConf
  imports DnObj
begin

text \<open>
  Configuration, from \<open>sys/netinet/ipfw/ip_dummynet.c\<close>: the registration of algorithms, the RED
  parameters, attaching flowsets to schedulers, configuring links, flowsets, schedulers and profiles,
  the flush, the handler of a batch of requests and the start-up defaults. \<open>None\<close> is a request that
  does not return: a division by zero, an access through NULL, a callback that does not return.
\<close>

section \<open>Algorithms\<close>

definition lower :: "char \<Rightarrow> char" where
  "lower c = (let n = (of_char c :: nat) in if 65 \<le> n \<and> n \<le> 90 then char_of (n + 32) else c)"

definition strcasecmp_eq :: "string \<Rightarrow> string \<Rightarrow> bool" where
  "strcasecmp_eq a b \<longleftrightarrow> map lower a = map lower b"

definition find_sched_type :: "'x algs \<Rightarrow> u32 \<Rightarrow> string \<Rightarrow> 'x dn_sys \<Rightarrow> algid option" where
  "find_sched_type al type name s =
     find (\<lambda>d. al_type (al d) = type \<or> strcasecmp_eq (al_name (al d)) name) (schedlist s)"

text \<open>
  Defaults at start-up. The heap and the lists of \<open>dn_cfg\<close> are set up; the locks, the task queue and the
  callout are outside the model. \<open>t\<close> is what \<open>getmicrouptime\<close> returns.
\<close>

definition dflt :: "'a::zero \<Rightarrow> 'a \<Rightarrow> 'a" where "dflt v d = (if v = 0 then d else v)"

definition ip_dn_init :: "int \<times> int \<Rightarrow> 'x dn_sys \<Rightarrow> 'x dn_sys" where
  "ip_dn_init t s =
     (if init_done s then s
      else
        let s = s\<lparr>init_done := True, slot_limit := 100, byte_limit := 1024 * 1024, expire := 1,
              red_lookup_depth := 256, red_avg_pkt_size := 512, red_max_pkt_size := 1500,
              max_hash_size := 1024, hash_size := dflt (hash_size s) 64,
              schedhash := None, fshash := None, drain_fs := 0, drain_sch := 0,
              expire_object := dflt (expire_object s) 50, object_idle_tick := dflt (object_idle_tick s) 1000,
              expire_object_examined := dflt (expire_object_examined s) 10, drain_ratio := dflt (drain_ratio s) 1\<rparr>;
            s = s\<lparr>evheap := (case heap_init (mems s 0) (evheap s) 16 4 of None \<Rightarrow> evheap s | Some h \<Rightarrow> h),
              mems := \<lambda>n. mems s (Suc n)\<rparr>
        in s\<lparr>fsu := [], schedlist := [], prev_t := t\<rparr>)"

text \<open>\<open>methods d\<close>: the descriptor \<open>d\<close> has both an enqueue and a dequeue function.\<close>

definition load_dn_sched :: "'x algs \<Rightarrow> (algid \<Rightarrow> bool) \<Rightarrow> int \<times> int \<Rightarrow> algid option \<Rightarrow> 'x dn_sys \<Rightarrow> nat \<times> 'x dn_sys" where
  "load_dn_sched al methods t d s =
     (case d of
        None \<Rightarrow> (1, s)
      | Some d \<Rightarrow>
          let s = ip_dn_init t s in
          if \<not> methods d then (1, s)
          else if list_ex (\<lambda>r. al_name (al r) = al_name (al d)) (schedlist s) then (1, s)
          else (0, s\<lparr>schedlist := d # schedlist s\<rparr>))"

text \<open>\<open>refs\<close> are the reference counts of the descriptors, which no code changes.\<close>

definition EBUSY :: nat where "EBUSY = 16"
definition EEXIST :: nat where "EEXIST = 17"
definition EOPNOTSUPP :: nat where "EOPNOTSUPP = 45"

definition unload_dn_sched :: "'x algs \<Rightarrow> (algid \<Rightarrow> int) \<Rightarrow> algid \<Rightarrow> 'x dn_sys \<Rightarrow> nat \<times> 'x dn_sys" where
  "unload_dn_sched al refs d s =
     (case find (\<lambda>r. al_name (al d) = al_name (al r)) (schedlist s) of
        None \<Rightarrow> (EINVAL, s)
      | Some r \<Rightarrow> if refs r \<noteq> 0 then (EBUSY, s) else (0, s\<lparr>schedlist := remove1 r (schedlist s)\<rparr>))"

datatype modcmd = MOD_LOAD | MOD_UNLOAD | ModOther

definition dn_sched_modevent ::
  "'x algs \<Rightarrow> (algid \<Rightarrow> bool) \<Rightarrow> (algid \<Rightarrow> int) \<Rightarrow> int \<times> int \<Rightarrow> modcmd \<Rightarrow> algid \<Rightarrow> 'x dn_sys \<Rightarrow> nat \<times> 'x dn_sys" where
  "dn_sched_modevent al methods refs t cmd d s =
     (case cmd of
        MOD_LOAD \<Rightarrow> load_dn_sched al methods t (Some d) s
      | MOD_UNLOAD \<Rightarrow> unload_dn_sched al refs d s
      | ModOther \<Rightarrow> (EINVAL, s))"

section \<open>RED parameters\<close>

definition SCALE :: "int \<Rightarrow> int" where "SCALE x = s32 (x * 2 ^ 16)"

text \<open>
  The granularity of the lookup table: the time to send an average packet, in ticks, times three,
  over the weight and the depth. The product is of type \<open>int\<close>; on overflow it wraps, as the kernels
  are built. The two divisions fault on zero.
\<close>

definition red_packet_time :: "int \<Rightarrow> int \<Rightarrow> int \<Rightarrow> int" where
  "red_packet_time h pkt bw =
     (if bw \<le> 0 then 0 else s32 (cdiv (s32 (s32 (s32 (h * pkt) * 8) * SCALE 1)) bw))"

definition red_step :: "int \<Rightarrow> int \<Rightarrow> int \<Rightarrow> int option" where
  "red_step s wq depth =
     (if wq = 0 \<or> depth = 0 then None
      else
        let st = s32 (div64 (div64 (s * 3) wq) depth)
        in Some (if st = 0 then 1 else st))"

text \<open>The weight of one table entry, \<open>(1 - w_q) ^ lookup_step\<close> in fixed point.\<close>

definition red_weight :: "int \<Rightarrow> int \<Rightarrow> int" where
  "red_weight w0 step = s32 (((\<lambda>w. s64 (w * w0) div 2 ^ 16) ^^ nat (step - 1)) w0)"

primrec red_table :: "u32 \<Rightarrow> u32 \<Rightarrow> nat \<Rightarrow> u32" where
  "red_table w0 lw 0 = w0"
| "red_table w0 lw (Suc t) = drop_bit 16 (red_table w0 lw t * lw)"

text \<open>The coefficients of the linear drop functions.\<close>

definition red_coeffs :: "dn_fsk \<Rightarrow> dn_fsk option" where
  "red_coeffs r =
     (let c = fsk_fs r; d = s32 (fs_max_th c - fs_min_th c);
          r = r\<lparr>min_th := SCALE (fs_min_th c), max_th := SCALE (fs_max_th c)\<rparr>
      in if d = 0 then None
         else
           let r = r\<lparr>c_1 := word_of_int (cdiv (max_p r) d)\<rparr>;
               r = r\<lparr>c_2 := drop_bit 16 (c_1 r * word_of_int (SCALE (fs_min_th c)))\<rparr>
           in if fs_flags c AND DN_IS_GENTLE_RED \<noteq> 0 then
                if fs_max_th c = 0 then None
                else Some (r\<lparr>c_3 := word_of_int (cdiv (s32 (SCALE 1 - max_p r)) (fs_max_th c)),
                             c_4 := word_of_int (s32 (SCALE 1 - s32 (2 * max_p r)))\<rparr>)
              else Some r)"

definition no_red :: "dn_fsk \<Rightarrow> dn_fsk" where
  "no_red r = r\<lparr>fsk_fs := (fsk_fs r)\<lparr>fs_flags :=
     fs_flags (fsk_fs r) AND NOT DN_IS_RED AND NOT DN_IS_GENTLE_RED\<rparr>\<rparr>"

definition red_prepare :: "int \<Rightarrow> int \<Rightarrow> int \<Rightarrow> int \<Rightarrow> dn_fsk \<Rightarrow> dn_fsk option" where
  "red_prepare h pkt depth bw r = do {
     let r = r\<lparr>w_q := fs_w_q (fsk_fs r), max_p := fs_max_p (fsk_fs r)\<rparr>;
     st \<leftarrow> red_step (red_packet_time h pkt bw) (w_q r) depth;
     red_coeffs (r\<lparr>lookup_step := st, lookup_weight := red_weight (s32 (SCALE 1 - w_q r)) st\<rparr>)
   }"

definition config_red :: "fsid \<Rightarrow> 'x dn_sys \<Rightarrow> (nat \<times> 'x dn_sys) option" where
  "config_red f s = do {
     k \<leftarrow> fsk_sched (fsks (env s) f);
     r \<leftarrow> red_prepare (hz s) (red_avg_pkt_size s) (red_lookup_depth s)
            (bandwidth (sk_link (schks (env s) k))) (fsks (env s) f);
     let r = r\<lparr>w_q_lookup := \<lambda>_. 0\<rparr>;
     if red_lookup_depth s = 0 then Some (EINVAL, on_env (upd_fsk f (\<lambda>_. no_red r)) s)
     else do {
       let r = r\<lparr>lookup_depth := word_of_int (red_lookup_depth s)\<rparr>;
       let ok = mems s 0;
       let s = s\<lparr>mems := \<lambda>n. mems s (Suc n)\<rparr>;
       if \<not> ok then Some (ENOSPC, on_env (upd_fsk f (\<lambda>_. no_red r)) s)
       else do {
         let tb = red_table (word_of_int (SCALE 1 - w_q r)) (word_of_int (lookup_weight r));
         let s = s\<lparr>red_avg_pkt_size := (if red_avg_pkt_size s < 1 then 512 else red_avg_pkt_size s),
                    red_max_pkt_size := (if red_max_pkt_size s < 1 then 1500 else red_max_pkt_size s)\<rparr>;
         Some (0, on_env (upd_fsk f (\<lambda>_. r\<lparr>w_q_lookup := \<lambda>t. if t < unat (lookup_depth r) then tb t else 0,
                    avg_pkt_size := red_avg_pkt_size s, max_pkt_size := red_max_pkt_size s\<rparr>)) s)
       }
     }
   }"

definition is_red :: "'x dn_sys \<Rightarrow> fsid \<Rightarrow> bool" where
  "is_red s f \<longleftrightarrow> fs_flags (fsk_fs (fsks (env s) f)) AND DN_IS_RED \<noteq> 0"

primrec red_all :: "fsid list \<Rightarrow> 'x dn_sys \<Rightarrow> 'x dn_sys option" where
  "red_all [] s = Some s"
| "red_all (f # fs) s = do {
     s \<leftarrow> (if is_red s f then map_option snd (config_red f s) else Some s);
     red_all fs s
   }"

definition update_red :: "schid \<Rightarrow> 'x dn_sys \<Rightarrow> 'x dn_sys option" where
  "update_red k s = red_all (fsk_list (schks (env s) k)) s"

section \<open>Attaching flowsets\<close>

definition set_flags :: "u32 \<Rightarrow> fsid \<Rightarrow> 'x dn_sys \<Rightarrow> 'x dn_sys" where
  "set_flags v f = on_env (upd_fsk f (\<lambda>r. r\<lparr>fsk_fs := (fsk_fs r)\<lparr>fs_flags := v\<rparr>\<rparr>))"

definition fsk_attach :: "'x algs \<Rightarrow> fsid \<Rightarrow> schid \<Rightarrow> 'x dn_sys \<Rightarrow> 'x dn_sys option" where
  "fsk_attach al f k s = do {
     l \<leftarrow> sl_remove f (fsu s);
     let s = on_env (upd_fsk f (\<lambda>r. r\<lparr>fsk_sched := Some k\<rparr>)) (s\<lparr>fsu := l\<rparr>);
     let s = on_env (upd_schk k (\<lambda>r. r\<lparr>fsk_list := f # fsk_list r\<rparr>)) s;
     a \<leftarrow> sk_alg al (env s) k;
     let s = (case al_new_fsk a of None \<Rightarrow> s | Some g \<Rightarrow> snd (lift_cb (g f) s));
     let sch = sk_sch (schks (env s) k);
     let s = on_env (upd_fsk f (\<lambda>r. r\<lparr>fsk_mask := flow_mask (fsk_fs r)\<rparr>)) s;
     let s = (if sch_flags sch AND DN_HAVE_MASK \<noteq> 0
              then on_env (upd_fsk f (\<lambda>r. r\<lparr>fsk_mask := flow_id_or (sched_mask sch) (fsk_mask r)\<rparr>)) s else s);
     let s = set_qht f NoObj s;
     let fl = fs_flags (fsk_fs (fsks (env s) f));
     let s = set_flags (if nonzero_mask (fsk_mask (fsks (env s) f)) then fl OR DN_QHT_HASH
                        else fl AND NOT DN_QHT_HASH) f s;
     if is_red s f then map_option snd (config_red f s) else Some s
   }"

primrec attach_all :: "'x algs \<Rightarrow> schid \<Rightarrow> fsid list \<Rightarrow> 'x dn_sys \<Rightarrow> 'x dn_sys option" where
  "attach_all al k [] s = Some s"
| "attach_all al k (f # fs) s = do {
     s \<leftarrow> (if sch_nr (sk_sch (schks (env s) k)) \<noteq> fs_sched_nr (fsk_fs (fsks (env s) f)) then Some s
           else fsk_attach al f k s);
     attach_all al k fs s
   }"

definition update_fs :: "'x algs \<Rightarrow> schid \<Rightarrow> 'x dn_sys \<Rightarrow> 'x dn_sys option" where
  "update_fs al k s = attach_all al k (fsu s) s"

section \<open>Links\<close>

text \<open>
  The delay becomes ticks and the burst bits times \<open>hz\<close>. The loop configures the link of scheduler
  \<open>i\<close> and of its FIFO scheduler \<open>i + DN_MAX_ID\<close>.
\<close>

definition link_params :: "int \<Rightarrow> dn_link \<Rightarrow> dn_link" where
  "link_params h p = p\<lparr>delay := cdiv (s32 (delay p * h)) 1000, burst := burst p * word_of_int (s32 (8 * h))\<rparr>"

definition set_link :: "schid \<Rightarrow> (dn_link \<Rightarrow> dn_link) \<Rightarrow> 'x dn_sys \<Rightarrow> 'x dn_sys" where
  "set_link k f = on_env (upd_schk k (\<lambda>r. r\<lparr>sk_link := f (sk_link r)\<rparr>))"

definition config_link_at :: "dn_link \<Rightarrow> nat \<Rightarrow> 'x dn_sys \<Rightarrow> (nat \<times> 'x dn_sys) option" where
  "config_link_at p i s =
     (case locate_scheduler i s of
        None \<Rightarrow> Some (EINVAL, s)
      | Some k \<Rightarrow> do {
          let s = on_env (upd_schk k (\<lambda>r. r\<lparr>sk_profile := None\<rparr>)) s;
          let s = set_link k (\<lambda>l. l\<lparr>link_oid := link_oid p, link_nr := int i, delay := delay p\<rparr>) s;
          s \<leftarrow> (if bandwidth (sk_link (schks (env s) k)) \<noteq> bandwidth p
                then update_red k (set_link k (\<lambda>l. l\<lparr>bandwidth := bandwidth p\<rparr>) s) else Some s);
          let s = set_link k (\<lambda>l. l\<lparr>burst := burst p\<rparr>) s;
          s \<leftarrow> schk_reset_credit k s;
          Some (0, s)
        })"

definition config_link :: "dn_link \<Rightarrow> 'x dn_sys \<Rightarrow> (nat \<times> 'x dn_sys) option" where
  "config_link p s =
     (if unat (id_len (link_oid p)) \<noteq> sizeof_dn_link then Some (EINVAL, s)
      else if link_nr p \<le> 0 \<or> int DN_MAX_ID \<le> link_nr p then Some (EINVAL, s)
      else do {
        let i = nat (link_nr p);
        let p = link_params (hz s) p;
        (err, s) \<leftarrow> config_link_at p i s;
        if err \<noteq> 0 then Some (err, s)
        else do {
          (err, s) \<leftarrow> config_link_at p (i + DN_MAX_ID) s;
          Some (if err \<noteq> 0 then (err, s) else (0, s\<lparr>cfg_id := cfg_id s + 1\<rparr>))
        }
      })"

section \<open>Flowsets\<close>

definition bound_buckets :: "'x dn_sys \<Rightarrow> nat \<Rightarrow> nat" where
  "bound_buckets s b = unat (word_of_int (ipdn_bound_var (s32 (int b)) (hash_size s) 1 (max_hash_size s)) :: u32)"

text \<open>Queue size and buckets brought within bounds.\<close>

definition fs_bounds :: "dn_fs \<Rightarrow> 'x dn_sys \<Rightarrow> dn_fs" where
  "fs_bounds c s =
     (let c = (if fs_flags c AND DN_QSIZE_BYTES \<noteq> 0
               then c\<lparr>qsize := ipdn_bound_var (qsize c) 16384 1500 (s32 (byte_limit s))\<rparr>
               else c\<lparr>qsize := ipdn_bound_var (qsize c) 50 1 (s32 (slot_limit s))\<rparr>)
      in if fs_flags c AND DN_HAVE_MASK \<noteq> 0 then c\<lparr>fs_buckets := bound_buckets s (fs_buckets c)\<rparr>
         else c\<lparr>fs_buckets := 1\<rparr>)"

text \<open>Unset parameters are taken from the existing flowset, which is compared with the new one byte by byte.\<close>

definition fs_reuse :: "dn_fs \<Rightarrow> dn_fs \<Rightarrow> dn_fs" where
  "fs_reuse old c =
     c\<lparr>fs_sched_nr := (if fs_sched_nr c = 0 then fs_sched_nr old else fs_sched_nr c),
       fs_par := (\<lambda>j. if fs_par c j = -1 then fs_par old j else fs_par c j)\<rparr>"

definition fs_same :: "dn_fs \<Rightarrow> dn_fs \<Rightarrow> bool" where
  "fs_same a b \<longleftrightarrow> fs_oid a = fs_oid b \<and> fs_nr a = fs_nr b \<and> fs_flags a = fs_flags b \<and> qsize a = qsize b \<and>
     plr a = plr b \<and> fs_buckets a = fs_buckets b \<and> flow_mask a = flow_mask b \<and> fs_sched_nr a = fs_sched_nr b \<and>
     list_all (\<lambda>j. fs_par a j = fs_par b j) [0, 1, 2, 3] \<and> fs_w_q a = fs_w_q b \<and> fs_max_th a = fs_max_th b \<and>
     fs_min_th a = fs_min_th b \<and> fs_max_p a = fs_max_p b"

text \<open>The new configuration of a flowset found or created; \<open>oldc\<close> tells a new one from an old one.\<close>

definition fs_reconf :: "'x algs \<Rightarrow> fsid \<Rightarrow> dn_fs \<Rightarrow> int \<Rightarrow> 'x dn_sys \<Rightarrow> 'x dn_sys option" where
  "fs_reconf al f c oldc s =
     (let c = fs_reuse (fsk_fs (fsks (env s) f)) c in
      if fs_same (fsk_fs (fsks (env s) f)) c then Some s
      else do {
        let s = (if oldc \<noteq> fsk_count s then s\<lparr>cfg_id := cfg_id s + 1\<rparr> else s);
        let k = locate_scheduler (fs_sched_nr c) s;
        s \<leftarrow> (case fsk_sched (fsks (env s) f) of
                None \<Rightarrow> Some s
              | Some _ \<Rightarrow> fsk_detach al f ((if k \<noteq> None then DN_DETACH else DN_DETACH OR DN_DESTROY) OR DN_DESTROY) s);
        let s = on_env (upd_fsk f (\<lambda>r. r\<lparr>fsk_fs := c\<rparr>)) s;
        case k of None \<Rightarrow> Some s | Some k \<Rightarrow> fsk_attach al f k s
      })"

definition config_fs :: "'x algs \<Rightarrow> dn_fs \<Rightarrow> 'x dn_sys \<Rightarrow> (fsid option \<times> 'x dn_sys) option" where
  "config_fs al c s =
     (let i = s32 (int (fs_nr c)) in
      if unat (id_len (fs_oid c)) \<noteq> sizeof_dn_fs then Some (None, s)
      else if i \<le> 0 \<or> 3 * int DN_MAX_ID \<le> i then Some (None, s)
      else do {
        let c = fs_bounds c s;
        let s = (case fshash s of
                   None \<Rightarrow> (case tab_init (hash_size s) s of (t, s) \<Rightarrow> s\<lparr>fshash := t\<rparr>)
                 | Some _ \<Rightarrow> s);
        let oldc = fsk_count s;
        (f, s) \<leftarrow> find_fsk (nat i) (if fs_sched_nr c \<noteq> 0 then DNHT_INSERT else 0) s;
        case f of
          None \<Rightarrow> Some (None, s)
        | Some f \<Rightarrow> do { s \<leftarrow> fs_reconf al f c oldc s; Some (Some f, s) }
      })"

section \<open>Schedulers\<close>

text \<open>
  The local variables of \<open>config_sched\<close> that change from one round to the next: the request, the
  number, the link and the profile saved from the scheduler being replaced.
\<close>

record cs_vars =
  cs_sch :: dn_sch
  cs_i :: nat
  cs_p :: dn_link
  cs_pf :: "dn_profile option"

datatype 'x cs_res = Again cs_vars "'x dn_sys" | Fin nat "'x dn_sys"

text \<open>What a pipe command saves of the request for the FIFO scheduler (\<open>None\<close> for other commands).\<close>

type_synonym pipe_cmd = "(ipfw_flow_id \<times> nat \<times> u32) option"

definition set_sub :: "u8 \<Rightarrow> dn_sch \<Rightarrow> dn_sch" where
  "set_sub t c = c\<lparr>sch_oid := (sch_oid c)\<lparr>id_subtype := t\<rparr>\<rparr>"

text \<open>Label \<open>next\<close>: go on with the FIFO scheduler, or end.\<close>

definition sched_next :: "pipe_cmd \<Rightarrow> cs_vars \<Rightarrow> 'x dn_sys \<Rightarrow> 'x cs_res option" where
  "sched_next pipe v s =
     (if cs_i v < DN_MAX_ID then
        let i = cs_i v + DN_MAX_ID;
            go = (\<lambda>sch s. Again (v\<lparr>cs_i := i, cs_sch := (set_sub (ucast DN_SCHED_FIFO) sch)\<lparr>sch_nr := i, sch_name := []\<rparr>\<rparr>) s)
        in case pipe of
             Some (m, b, fl) \<Rightarrow> Some (go ((cs_sch v)\<lparr>sched_mask := m, sch_buckets := b, sch_flags := fl\<rparr>) s)
           | None \<Rightarrow> do {
               (k, s) \<leftarrow> find_schk i 0 0 (cs_sch v) s;
               Some (if k \<noteq> None then Fin 0 s else go (cs_sch v) s)
             }
      else Some (Fin 0 s))"

text \<open>
  Restoring the saved link and profile. The size of the profile is read through \<open>s->profile\<close>, and the
  copy is of that size although only the fixed part was saved.
\<close>

definition sched_restore :: "schid \<Rightarrow> cs_vars \<Rightarrow> 'x dn_sys \<Rightarrow> (bool \<times> 'x dn_sys) option" where
  "sched_restore k v s =
     (if link_nr (cs_p v) = 0 then Some (True, s)
      else
        let s = set_link k (\<lambda>_. cs_p v) s;
            set_pf = (\<lambda>x. on_env (upd_schk k (\<lambda>r. r\<lparr>sk_profile := x\<rparr>)))
        in case cs_pf v of
             None \<Rightarrow> Some (True, set_pf None s)
           | Some pf \<Rightarrow>
               if pf_link_nr pf \<noteq> link_nr (cs_p v) then Some (True, set_pf None s)
               else do {
                 old \<leftarrow> sk_profile (schks (env s) k);
                 let ok = mems s 0;
                 let s = s\<lparr>mems := \<lambda>n. mems s (Suc n)\<rparr>;
                 if \<not> ok then Some (False, set_pf None s)
                 else if samples_no old \<noteq> 0 then None
                 else Some (True, set_pf (Some pf) s)
               })"

text \<open>A scheduler of another type or with other parameters is taken out and deleted, its link and profile kept.\<close>

definition sched_replace :: "'x algs \<Rightarrow> schid \<Rightarrow> cs_vars \<Rightarrow> 'x dn_sys \<Rightarrow> 'x cs_res option" where
  "sched_replace al k v s = do {
     let old = schks (env s) k;
     let v = v\<lparr>cs_p := sk_link old\<rparr>;
     let (pf, s) = (case sk_profile old of
                 None \<Rightarrow> (cs_pf v, s)
               | Some p \<Rightarrow> if cs_pf v \<noteq> None then (Some (p\<lparr>samples := []\<rparr>), s)
                           else (if mems s 0 then Some (p\<lparr>samples := []\<rparr>) else None, s\<lparr>mems := \<lambda>n. mems s (Suc n)\<rparr>));
     (_, s) \<leftarrow> find_schk (cs_i v) DNHT_REMOVE 0 (cs_sch v) s;
     (_, s) \<leftarrow> schk_delete_cb al True k s;
     Some (Again (v\<lparr>cs_pf := pf\<rparr>) s)
   }"

text \<open>The internal flowset of a scheduler without queues of its own; \<open>False\<close> when it cannot be made.\<close>

definition internal_fs :: "nat \<Rightarrow> dn_fs" where
  "internal_fs i = fs_zero\<lparr>fs_oid := set_oid DN_FS (word_of_nat sizeof_dn_fs) oid_zero, fs_nr := i + DN_MAX_ID, fs_sched_nr := i\<rparr>"

definition sched_internal_fs :: "'x algs \<Rightarrow> algid \<Rightarrow> schid \<Rightarrow> nat \<Rightarrow> 'x dn_sys \<Rightarrow> (bool \<times> 'x dn_sys) option" where
  "sched_internal_fs al d k i s =
     (if al_flags (al d) AND DN_MULTIQUEUE \<noteq> 0 \<or> sk_fs (schks (env s) k) \<noteq> None then Some (True, s)
      else do {
        (f, s) \<leftarrow> find_fsk i 0 s;
        (f, s) \<leftarrow> (case f of Some f \<Rightarrow> Some (Some f, s) | None \<Rightarrow> config_fs al (internal_fs i) s);
        let s = on_env (upd_schk k (\<lambda>r. r\<lparr>sk_fs := f\<rparr>)) s;
        if f \<noteq> None then Some (True, s)
        else do { (_, s) \<leftarrow> schk_delete_cb al True k s; Some (False, s) }
      })"

definition sched_complete ::
  "'x algs \<Rightarrow> pipe_cmd \<Rightarrow> nat option \<Rightarrow> algid \<Rightarrow> schid \<Rightarrow> cs_vars \<Rightarrow> 'x dn_sys \<Rightarrow> 'x cs_res option" where
  "sched_complete al pipe arg d k v s = do {
     let s = on_env (upd_schk k (\<lambda>r. r\<lparr>sk_sch := cs_sch v, sk_fp := Some d, sk_cfg := arg\<rparr>)) s;
     (ok, s) \<leftarrow> sched_internal_fs al d k (cs_i v) s;
     if \<not> ok then Some (Fin ENOMEM s)
     else do {
       let s = (case al_config (al d) of None \<Rightarrow> s | Some g \<Rightarrow> snd (lift_cb (g k) s));
       s \<leftarrow> update_fs al k s;
       sched_next pipe v s
     }
   }"

text \<open>The scheduler looked up is \<open>k\<close>, its algorithm \<open>d\<close>.\<close>

definition sched_found ::
  "'x algs \<Rightarrow> pipe_cmd \<Rightarrow> nat option \<Rightarrow> algid \<Rightarrow> schid option \<Rightarrow> cs_vars \<Rightarrow> 'x dn_sys \<Rightarrow> 'x cs_res option" where
  "sched_found al pipe arg d k v s =
     (let v = v\<lparr>cs_sch := (set_sub (ucast (al_type (al d))) (cs_sch v))\<lparr>sch_name := take 15 (al_name (al d))\<rparr>\<rparr> in
      case k of
        None \<Rightarrow> Some (Fin ENOMEM s)
      | Some k \<Rightarrow> do {
          (ok, s) \<leftarrow> sched_restore k v s;
          if \<not> ok then Some (Fin ENOMEM s)
          else
            let v = v\<lparr>cs_p := (cs_p v)\<lparr>link_nr := 0\<rparr>\<rparr>; r = schks (env s) k in
            if sk_fp r \<noteq> None \<and> (sk_fp r \<noteq> Some d \<or> cs_sch v \<noteq> sk_sch r) then sched_replace al k v s
            else sched_complete al pipe arg d k v s
        })"

text \<open>One round, from label \<open>again\<close>.\<close>

definition sched_round :: "'x algs \<Rightarrow> pipe_cmd \<Rightarrow> nat option \<Rightarrow> cs_vars \<Rightarrow> 'x dn_sys \<Rightarrow> 'x cs_res option" where
  "sched_round al pipe arg v s =
     (let s = s\<lparr>cfg_id := cfg_id s + 1\<rparr>; sch = cs_sch v in
      case find_sched_type al (ucast (id_subtype (sch_oid sch))) (sch_name sch) s of
        Some d \<Rightarrow> do {
          (k, s) \<leftarrow> find_schk (cs_i v) DNHT_INSERT d sch s;
          sched_found al pipe arg d k v s
        }
      | None \<Rightarrow>
          if id_subtype (sch_oid sch) = 0 \<and> sch_name sch = [] then do {
            (k, s) \<leftarrow> find_schk (cs_i v) 0 0 sch s;
            case k of
              Some k \<Rightarrow>
                if pipe \<noteq> None then sched_next pipe v s
                else do { d \<leftarrow> sk_fp (schks (env s) k); sched_found al pipe arg d (Some k) v s }
            | None \<Rightarrow>
                let sch = (if pipe \<noteq> None
                           then sch\<lparr>sched_mask := fid_zero, sch_buckets := 0, sch_flags := sch_flags sch AND NOT DN_HAVE_MASK\<rparr>
                           else sch)
                in Some (Again (v\<lparr>cs_sch := set_sub (ucast DN_SCHED_WF2QP) sch\<rparr>) s)
          } else Some (Fin EINVAL s))"

partial_function (option) sched_rounds ::
  "'x algs \<Rightarrow> pipe_cmd \<Rightarrow> nat option \<Rightarrow> cs_vars \<Rightarrow> 'x dn_sys \<Rightarrow> (nat \<times> 'x dn_sys) option" where
  "sched_rounds al pipe arg v s =
     Option.bind (sched_round al pipe arg v s)
       (\<lambda>r. case r of Again v s \<Rightarrow> sched_rounds al pipe arg v s | Fin err s \<Rightarrow> Some (err, s))"

definition config_sched :: "'x algs \<Rightarrow> dn_sch \<Rightarrow> nat option \<Rightarrow> 'x dn_sys \<Rightarrow> (nat \<times> 'x dn_sys) option" where
  "config_sched al sch arg s =
     (let i = s32 (int (sch_nr sch)) in
      if unat (id_len (sch_oid sch)) \<noteq> sizeof_dn_sch then Some (EINVAL, s)
      else if i \<le> 0 \<or> int DN_MAX_ID \<le> i then Some (EINVAL, s)
      else
        let sch = (if sch_flags sch AND DN_HAVE_MASK \<noteq> 0 then sch\<lparr>sch_buckets := bound_buckets s (sch_buckets sch)\<rparr> else sch);
            pipe = sch_flags sch AND DN_PIPE_CMD \<noteq> 0;
            sch = sch\<lparr>sch_flags := sch_flags sch AND NOT DN_PIPE_CMD\<rparr>;
            saved = (if pipe then Some (sched_mask sch, sch_buckets sch, sch_flags sch) else None);
            s = (case schedhash s of
                   None \<Rightarrow> (case tab_init (hash_size s) s of (t, s) \<Rightarrow> s\<lparr>schedhash := t\<rparr>)
                 | Some _ \<Rightarrow> s)
        in sched_rounds al saved arg \<lparr>cs_sch = sch, cs_i = nat i, cs_p = link_zero, cs_pf = None\<rparr> s)"

section \<open>Profiles\<close>

text \<open>
  The bytes of the new profile overwrite those of the old one, when it is long enough to be reused; the
  longer length is kept in the header.
\<close>

definition pf_zero :: dn_profile where
  "pf_zero = \<lparr>pf_oid = oid_zero, pf_name = [], pf_link_nr = 0, loss_level = 0, pf_bandwidth = 0, samples_no = 0, samples = []\<rparr>"

definition pf_copy :: "dn_profile \<Rightarrow> dn_profile \<Rightarrow> dn_profile" where
  "pf_copy pf old =
     pf\<lparr>samples := samples pf @ drop (length (samples pf)) (samples old),
        pf_oid := (pf_oid pf)\<lparr>id_len := (if id_len (pf_oid old) < id_len (pf_oid pf) then id_len (pf_oid pf) else id_len (pf_oid old))\<rparr>\<rparr>"

definition config_profile_at :: "dn_profile \<Rightarrow> nat \<Rightarrow> 'x dn_sys \<Rightarrow> nat \<times> 'x dn_sys" where
  "config_profile_at pf i s =
     (case locate_scheduler i s of
        None \<Rightarrow> (EINVAL, s)
      | Some k \<Rightarrow>
          let s = s\<lparr>cfg_id := cfg_id s + 1\<rparr>;
              set_pf = (\<lambda>x. on_env (upd_schk k (\<lambda>r. r\<lparr>sk_profile := x\<rparr>)));
              old = (case sk_profile (schks (env s) k) of
                       None \<Rightarrow> None
                     | Some o1 \<Rightarrow> if samples_no pf = 0 \<or> id_len (pf_oid o1) < id_len (pf_oid pf) then None else Some o1);
              s = set_pf old s
          in if samples_no pf = 0 then (0, s)
             else
               let (old, s) = (case old of
                     Some o1 \<Rightarrow> (Some o1, s)
                   | None \<Rightarrow> (if mems s 0 then Some pf_zero else None, s\<lparr>mems := \<lambda>n. mems s (Suc n)\<rparr>))
               in case old of None \<Rightarrow> (ENOMEM, s) | Some o1 \<Rightarrow> (0, set_pf (Some (pf_copy pf o1)) s))"

definition config_profile :: "dn_profile \<Rightarrow> 'x dn_sys \<Rightarrow> nat \<times> 'x dn_sys" where
  "config_profile pf s =
     (if unat (id_len (pf_oid pf)) < sizeof_dn_profile then (EINVAL, s)
      else if pf_link_nr pf \<le> 0 \<or> int DN_MAX_ID \<le> pf_link_nr pf then (EINVAL, s)
      else
        let i = nat (pf_link_nr pf); (err, s) = config_profile_at pf i s
        in if err \<noteq> 0 then (err, s) else config_profile_at pf (i + DN_MAX_ID) s)"

section \<open>Flush\<close>

definition tab_empty :: "htab option \<Rightarrow> htab option" where
  "tab_empty = map_option (\<lambda>t. t\<lparr>hb_list := \<lambda>_. []\<rparr>)"

definition dummynet_flush :: "'x algs \<Rightarrow> 'x dn_sys \<Rightarrow> 'x dn_sys option" where
  "dummynet_flush al s = do {
     s \<leftarrow> (case schedhash s of
        None \<Rightarrow> Some s
      | Some t \<Rightarrow> do { (t, s) \<leftarrow> tab_scan (schk_delete_cb al True) t s; Some (s\<lparr>schedhash := Some t\<rparr>) });
     let s = s\<lparr>fshash := tab_empty (fshash s)\<rparr>;
     s \<leftarrow> fsk_detach_unlinked al s;
     let s = s\<lparr>schedhash := tab_empty (schedhash s)\<rparr>;
     let ok = mems s 0;
     let s = s\<lparr>mems := \<lambda>n. mems s (Suc n)\<rparr>;
     Some (case heap_init ok (evheap s) 16 4 of None \<Rightarrow> s | Some h \<Rightarrow> s\<lparr>evheap := h\<rparr>)
   }"

section \<open>Batches of requests\<close>

text \<open>
  The buffer of a request: at each offset, the header found there and the bytes from there read as each
  kind of object.
\<close>

record dn_msg =
  ms_oid :: dn_id
  ms_link :: dn_link
  ms_fs :: dn_fs
  ms_sch :: dn_sch
  ms_profile :: dn_profile
  ms_arg :: u64

definition DN_API_VERSION :: u32 where "DN_API_VERSION = 12500000"
definition DN_CMD_CONFIG :: u8 where "DN_CMD_CONFIG = 0x80"
definition DN_CMD_DELETE :: u8 where "DN_CMD_DELETE = 0x81"
definition DN_CMD_FLUSH :: u8 where "DN_CMD_FLUSH = 0x83"

definition cmd_delete :: "'x algs \<Rightarrow> dn_msg \<Rightarrow> 'x dn_sys \<Rightarrow> (nat \<times> 'x dn_sys) option" where
  "cmd_delete al m s =
     (let o1 = ms_oid m; a = ms_arg m in
      if unat (id_len o1) < sizeof_dn_id + sizeof_uintptr then Some (EINVAL, s)
      else if id_subtype o1 = DN_LINK then do {
        (err, s) \<leftarrow> delete_schk al (unat (ucast a :: u32)) s;
        (err2, s) \<leftarrow> delete_schk al (unat (ucast (a + word_of_nat DN_MAX_ID) :: u32)) s;
        Some (if err = 0 then err2 else err, s)
      }
      else if id_subtype o1 = DN_FS then
        if a < 1 \<or> word_of_nat DN_MAX_ID \<le> a then Some (EINVAL, s) else delete_fs al (unat a) s
      else Some (EINVAL, s))"

definition dn_cmd :: "'x algs \<Rightarrow> nat option \<Rightarrow> dn_msg \<Rightarrow> 'x dn_sys \<Rightarrow> (nat \<times> 'x dn_sys) option" where
  "dn_cmd al arg m s =
     (let o1 = ms_oid m; t = id_type o1 in
      if t = DN_CMD_DELETE then cmd_delete al m s
      else if t = DN_CMD_FLUSH then map_option (\<lambda>s. (0, s)) (dummynet_flush al s)
      else if t = DN_LINK then config_link ((ms_link m)\<lparr>link_oid := o1\<rparr>) s
      else if t = DN_PROFILE then Some (config_profile ((ms_profile m)\<lparr>pf_oid := o1\<rparr>) s)
      else if t = DN_SCH then config_sched al ((ms_sch m)\<lparr>sch_oid := o1\<rparr>) arg s
      else if t = DN_FS then
        map_option (\<lambda>(f, s). (if f = None then 1 else 0, s)) (config_fs al ((ms_fs m)\<lparr>fs_oid := o1\<rparr>) s)
      else Some (0, s))"

function do_config_loop ::
  "'x algs \<Rightarrow> (nat \<Rightarrow> dn_msg) \<Rightarrow> nat \<Rightarrow> nat \<Rightarrow> nat option \<Rightarrow> 'x dn_sys \<Rightarrow> (nat \<times> 'x dn_sys) option" where
  "do_config_loop al buf off l arg s =
     (let m = buf off; len = unat (id_len (ms_oid m)) in
      if l < sizeof_dn_id then Some (0, s)
      else if len < sizeof_dn_id \<or> l < len then Some (EINVAL, s)
      else Option.bind (dn_cmd al arg m s) (\<lambda>(err, s).
        if err \<noteq> 0 then Some (err, s)
        else do_config_loop al buf (off + len) (l - len) (if id_type (ms_oid m) = DN_TEXT then Some off else None) s))"
  by pat_completeness auto
termination by (relation "measure (\<lambda>(_, _, _, l, _). l)") (auto simp: sizeof_defs Let_def)

declare do_config_loop.simps [simp del]

definition do_config :: "'x algs \<Rightarrow> (nat \<Rightarrow> dn_msg) \<Rightarrow> nat \<Rightarrow> 'x dn_sys \<Rightarrow> (nat \<times> 'x dn_sys) option" where
  "do_config al buf l s =
     (if id_id (ms_oid (buf 0)) \<noteq> DN_API_VERSION then Some (EINVAL, s)
      else do_config_loop al buf 0 l None s)"

text \<open>
  The socket option handler. The outcomes of the privilege checks and of the copy from user space, and
  the handlers of the compatibility options and of reading, are arguments.
\<close>

datatype dn_opt = IP_DUMMYNET_COMPAT | IP_DUMMYNET3 | OtherOpt

definition ip_dn_ctl ::
  "'x algs \<Rightarrow> nat \<Rightarrow> nat \<Rightarrow> nat \<Rightarrow> ('x dn_sys \<Rightarrow> (nat \<times> 'x dn_sys) option) \<Rightarrow> ('x dn_sys \<Rightarrow> (nat \<times> 'x dn_sys) option) \<Rightarrow>
   bool \<Rightarrow> dn_opt \<Rightarrow> nat \<Rightarrow> (nat \<Rightarrow> dn_msg) \<Rightarrow> 'x dn_sys \<Rightarrow> (nat \<times> 'x dn_sys) option" where
  "ip_dn_ctl al priv secure copyin cmpt get set1 opt l buf s =
     (if priv \<noteq> 0 then Some (priv, s)
      else if set1 \<and> secure \<noteq> 0 then Some (secure, s)
      else case opt of
          OtherOpt \<Rightarrow> Some (EINVAL, s)
        | IP_DUMMYNET_COMPAT \<Rightarrow> cmpt s
        | IP_DUMMYNET3 \<Rightarrow>
            if \<not> set1 then get s
            else if l < sizeof_dn_id \<or> 12000 < l then Some (0, s)
            else if copyin \<noteq> 0 then Some (copyin, s)
            else do_config al buf l s)"

end
