(* ===== verification/DnTab.thy ===== *)
theory DnTab
  imports DnObj
begin

text \<open>
  The tables as the objects use them: the list form agrees with the pointer structure of \<open>DnHash\<close>, and
  what a scan with a callback keeps.
\<close>

section \<open>The list form and the pointer structure\<close>

text \<open>A table of lists and a pointer table of the same size with the same buckets.\<close>

definition same_table :: "(nat, 'k, 's) dn_ht \<Rightarrow> htab \<Rightarrow> bool" where
  "same_table ht t \<longleftrightarrow> ht_buckets ht = hb_mask t \<and> ht_rep ht (hb_list t)"

lemma tab_bucket_same: "ht_buckets ht = hb_mask t \<Longrightarrow> ht_bucket ht key flags s = tab_bucket t (ht_hash ht key flags s)"
  by (simp add: ht_bucket_def tab_bucket_def)

lemma ht_conf_buckets: "ht_conf ht' = ht_conf ht \<Longrightarrow> ht_buckets ht' = ht_buckets ht"
  by (simp add: ht_conf_def)

text \<open>C27: The lookup, insertion and removal by which all objects are found, written on lists in \<open>tab_find\<close>, and
  the function \<open>dn_ht_find\<close> on the pointer table give the same object and the same state, and leave the same
  table, for any hash, match and constructor that returns an object which is not in the table.\<close>

theorem tab_find_equiv:
  assumes "same_table ht t"
    and "\<And>q j. fst (ht_new cast ht key flags s) = Some q \<Longrightarrow> flags AND DNHT_INSERT \<noteq> 0 \<Longrightarrow> j \<le> hb_mask t \<Longrightarrow> q \<notin> set (hb_list t j)"
  shows "\<exists>p t' s' ht'. tab_find (ht_hash ht key flags s) (ht_found cast ht key flags s) flags
      (\<lambda>s. Some (ht_new cast ht key flags s)) t s = Some (p, t', s') \<and>
    dn_ht_find cast ht key flags s = Some (p, ht', s') \<and> same_table ht' t'"
proof -
  define i where "i = ht_bucket ht key flags s"
  have rep: "ht_rep ht (hb_list t)" and m: "ht_buckets ht = hb_mask t" using assms(1) by (simp_all add: same_table_def)
  have it: "i = tab_bucket t (ht_hash ht key flags s)" unfolding i_def using m by (rule tab_bucket_same)
  obtain p xs where r: "list_find (ht_found cast ht key flags s) flags (fst (ht_new cast ht key flags s)) (hb_list t i) = (p, xs)"
    by fastforce
  define s' where "s' = (if find (ht_found cast ht key flags s) (hb_list t i) = None \<and> flags AND DNHT_INSERT \<noteq> 0
    then snd (ht_new cast ht key flags s) else s)"
  have fresh: "q \<notin> set (hb_list t j)" if "fst (ht_new cast ht key flags s) = Some q" "flags AND DNHT_INSERT \<noteq> 0"
      "find (ht_found cast ht key flags s) (hb_list t i) = None" "j \<le> ht_buckets ht" for q j
    using assms(2) [OF that(1,2)] that(4) m by simp
  obtain ht' where f: "dn_ht_find cast ht key flags s = Some (p, ht', s')" "ht_rep ht' ((hb_list t)(i := xs))" "ht_conf ht' = ht_conf ht"
    using dn_ht_find_spec [OF rep i_def fresh r] unfolding s'_def by blast
  have "tab_find (ht_hash ht key flags s) (ht_found cast ht key flags s) flags (\<lambda>s. Some (ht_new cast ht key flags s)) t s =
      Some (p, t\<lparr>hb_list := (hb_list t)(i := xs)\<rparr>, s')"
    using r by (cases "ht_new cast ht key flags s")
      (auto simp: tab_find_def Let_def it [symmetric] s'_def list_find_def split: option.splits)
  moreover have "same_table ht' (t\<lparr>hb_list := (hb_list t)(i := xs)\<rparr>)"
    using f m ht_conf_buckets [OF f(3)] by (simp add: same_table_def)
  ultimately show ?thesis using f(1) by blast
qed


theorem tab_find_equiv_witness:
  "\<exists>p t' s' ht'. tab_find (7 :: u32) (ht_found id wht 7 DNHT_INSERT ()) DNHT_INSERT
      (\<lambda>s. Some (ht_new id wht 7 DNHT_INSERT s)) \<lparr>hb_mask = 3, hb_list = (\<lambda>_. [])\<rparr> () = Some (p, t', s') \<and>
    dn_ht_find id wht 7 DNHT_INSERT () = Some (p, ht', s') \<and> same_table ht' t'"
proof -
  have "same_table wht \<lparr>hb_mask = 3, hb_list = (\<lambda>_. [])\<rparr>" by (simp add: same_table_def wht_rep wht_fields)
  from tab_find_equiv [OF this, where cast = id and key = 7 and flags = DNHT_INSERT and s = "()"]
  show ?thesis by (simp add: wht_fields)
qed

section \<open>What a scan keeps\<close>

text \<open>A property of the state that the callback keeps holds after the scan.\<close>

lemma list_scan_keeps:
  assumes k: "\<And>x s. P s \<Longrightarrow> P (snd (fn x s))"
  shows "P s \<Longrightarrow> P (fst (snd (snd (snd (list_scan fn s xs)))))"
proof (induction xs arbitrary: s)
  case (Cons x xs)
  have "P (snd (fn x s))" using k Cons.prems .
  with Cons.IH [of "snd (fn x s)"] show ?case by (simp add: case_prod_unfold Let_def)
qed simp

lemma lists_scan_keeps:
  assumes k: "\<And>x s. P s \<Longrightarrow> P (snd (fn x s))"
  shows "P s \<Longrightarrow> P (snd (snd (lists_scan bs L fn n s)))"
proof (induction bs arbitrary: L n s)
  case (Cons i bs)
  have "P (fst (snd (snd (snd (list_scan fn s (L i))))))" by (rule list_scan_keeps [OF k Cons.prems])
  with Cons.IH show ?case by (simp add: case_prod_unfold Let_def)
qed simp

lemma tab_scan_keeps:
  assumes "\<And>x s r s'. fn x s = Some (r, s') \<Longrightarrow> P s \<Longrightarrow> P s'"
    and "tab_scan fn t s = Some (t', s')" "P s"
  shows "P s'"
proof -
  define Q where "Q z \<longleftrightarrow> (case z of None \<Rightarrow> True | Some z \<Rightarrow> P z)" for z
  have q: "Q (snd (scan_cb fn x z))" if "Q z" for x z
    using that assms(1) by (auto simp: scan_cb_def Q_def split: option.splits prod.splits)
  obtain L n z where l: "lists_scan [0..<hb_mask t + 1] (hb_list t) (scan_cb fn) 0 (Some s) = (L, n, z)"
    by (metis prod_cases3)
  have "Q z" using lists_scan_keeps [of Q "scan_cb fn" "Some s", OF q] assms(3) l by (metis (full_types) Q_def option.simps(5) snd_conv)
  with assms(2) l show ?thesis by (auto simp: tab_scan_def Q_def)
qed

end
