(* ===== verification/DnConfOk.thy ===== *)
theory DnConfOk
  imports DnConf DnTab
begin

text \<open>
  What configuration guarantees: a batch of requests runs in order up to its first error, the RED lookup table is
  decreasing and in bounds, an algorithm that is registered is found and can be taken out again, a flowset that is
  configured is found by its number, with sizes within the limits.
\<close>

section \<open>Batches\<close>

text \<open>Messages one after the other in a buffer, from an offset.\<close>

abbreviation msg_len :: "dn_msg \<Rightarrow> nat" where
  "msg_len m \<equiv> unat (id_len (ms_oid m))"

primrec laid_out :: "(nat \<Rightarrow> dn_msg) \<Rightarrow> nat \<Rightarrow> dn_msg list \<Rightarrow> bool" where
  "laid_out buf off [] \<longleftrightarrow> True"
| "laid_out buf off (m # ms) \<longleftrightarrow> buf off = m \<and> sizeof_dn_id \<le> msg_len m \<and> laid_out buf (off + msg_len m) ms"

text \<open>
  The reference: the messages in order, each with the offset of the text message right before it, if any, as its
  argument, until one fails.
\<close>

primrec run_cmds :: "'x algs \<Rightarrow> nat \<Rightarrow> nat option \<Rightarrow> dn_msg list \<Rightarrow> 'x dn_sys \<Rightarrow> (nat \<times> 'x dn_sys) option" where
  "run_cmds al off arg [] s = Some (0, s)"
| "run_cmds al off arg (m # ms) s = do {
     (err, s) \<leftarrow> dn_cmd al arg m s;
     if err \<noteq> 0 then Some (err, s)
     else run_cmds al (off + msg_len m) (if id_type (ms_oid m) = DN_TEXT then Some off else None) ms s
   }"

text \<open>What follows the messages: less than a header is ignored, a header with a bad length is an error.\<close>

definition bad_tail :: "(nat \<Rightarrow> dn_msg) \<Rightarrow> nat \<Rightarrow> nat \<Rightarrow> bool" where
  "bad_tail buf off r \<longleftrightarrow> sizeof_dn_id \<le> r \<and> (msg_len (buf off) < sizeof_dn_id \<or> r < msg_len (buf off))"

definition tail_res :: "nat \<Rightarrow> nat \<times> 'x dn_sys \<Rightarrow> nat \<times> 'x dn_sys" where
  "tail_res r x = (case x of (err, s) \<Rightarrow> (if err = 0 \<and> sizeof_dn_id \<le> r then EINVAL else err, s))"

lemma do_config_loop_runs:
  assumes "laid_out buf off ms" "r < sizeof_dn_id \<or> bad_tail buf (off + sum_list (map msg_len ms)) r"
  shows "do_config_loop al buf off (sum_list (map msg_len ms) + r) arg s = map_option (tail_res r) (run_cmds al off arg ms s)"
  using assms
proof (induction ms arbitrary: off arg s)
  case Nil
  then show ?case by (subst do_config_loop.simps) (auto simp: Let_def tail_res_def bad_tail_def)
next
  case (Cons m ms)
  have m: "buf off = m" "sizeof_dn_id \<le> msg_len m" using Cons.prems by simp_all
  define l where "l = sum_list (map msg_len (m # ms)) + r"
  have l: "l - msg_len m = sum_list (map msg_len ms) + r" "\<not> l < msg_len m" "\<not> l < sizeof_dn_id"
    using m by (simp_all add: l_def)
  have ih: "do_config_loop al buf (off + msg_len m) (sum_list (map msg_len ms) + r) a s2 =
      map_option (tail_res r) (run_cmds al (off + msg_len m) a ms s2)" for a s2
    using Cons.prems by (intro Cons.IH) (simp_all add: add.assoc)
  have "do_config_loop al buf off l arg s = map_option (tail_res r) (run_cmds al off arg (m # ms) s)"
  proof (cases "dn_cmd al arg m s")
    case None
    with m show ?thesis by (subst do_config_loop.simps) (simp add: Let_def l)
  next
    case (Some x)
    then show ?thesis using m
      by (subst do_config_loop.simps) (cases x; simp add: Let_def l ih tail_res_def)
  qed
  then show ?case by (simp only: l_def)
qed


text \<open>C18: A batch of requests is exactly its messages run one after the other, each with the text message right
  before it as its argument, up to the first error, which is the result; the messages after it are not run and
  those before it stay done. Trailing bytes too short for a header are ignored, and a message whose length is too
  short or exceeds the buffer gives \<open>EINVAL\<close> after all messages before it have run.\<close>

theorem do_config_runs:
  assumes "laid_out buf 0 (m # ms)" "id_id (ms_oid m) = DN_API_VERSION"
    and "r < sizeof_dn_id \<or> bad_tail buf (sum_list (map msg_len (m # ms))) r"
  shows "do_config al buf (sum_list (map msg_len (m # ms)) + r) s = map_option (tail_res r) (run_cmds al 0 None (m # ms) s)"
proof -
  have "do_config_loop al buf 0 (sum_list (map msg_len (m # ms)) + r) None s =
      map_option (tail_res r) (run_cmds al 0 None (m # ms) s)"
    using assms(1,3) by (intro do_config_loop_runs) simp_all
  moreover have "buf 0 = m" using assms(1) by simp
  ultimately show ?thesis using assms(2) by (simp only: do_config_def) simp
qed

text \<open>A request for an unknown link, then a message of length 4.\<close>

definition del_msg :: dn_msg where
  "del_msg = \<lparr>ms_oid = \<lparr>id_len = 16, id_type = DN_CMD_DELETE, id_subtype = DN_FS, id_id = DN_API_VERSION\<rparr>, ms_link = link_zero,
     ms_fs = fs_zero, ms_sch = sch_zero, ms_profile = pf_zero, ms_arg = 0\<rparr>"

definition short_msg :: dn_msg where
  "short_msg = del_msg\<lparr>ms_oid := \<lparr>id_len = 4, id_type = DN_TEXT, id_subtype = 0, id_id = 0\<rparr>\<rparr>"

definition text_msg :: dn_msg where
  "text_msg = del_msg\<lparr>ms_oid := \<lparr>id_len = 8, id_type = DN_TEXT, id_subtype = 0, id_id = DN_API_VERSION\<rparr>\<rparr>"

text \<open>An algorithm without callbacks.\<close>

definition fifo_like :: "'x dn_env_scheme dn_alg" where
  "fifo_like = \<lparr>al_type = DN_SCHED_FIFO, al_name = ''FIFO'', al_flags = 0, al_q_datalen = 0, al_enqueue = (\<lambda>i q m e. Some (0, e)),
     al_dequeue = (\<lambda>i e. Some (None, e)), al_config = None, al_destroy = None, al_new_sched = None,
     al_free_sched = None, al_new_fsk = None, al_free_fsk = None, al_new_queue = None, al_free_queue = None\<rparr>"

theorem do_config_runs_witness:
  "do_config (\<lambda>_. fifo_like) ((\<lambda>_. short_msg)(0 := text_msg)) (sum_list (map msg_len [text_msg]) + 9) (sys_zero env_zero) =
    map_option (tail_res 9) (run_cmds (\<lambda>_. fifo_like) 0 None [text_msg] (sys_zero env_zero)) \<and>
   map_option (tail_res 9) (run_cmds (\<lambda>_. fifo_like) 0 None [text_msg] (sys_zero env_zero)) = Some (EINVAL, sys_zero env_zero)"
  by (rule conjI, rule do_config_runs)
    (simp_all add: text_msg_def short_msg_def del_msg_def sizeof_defs bad_tail_def tail_res_def dn_cmd_def DN_TEXT_def
      DN_CMD_DELETE_def DN_CMD_FLUSH_def DN_LINK_def DN_PROFILE_def DN_SCH_def DN_FS_def Let_def)

section \<open>The registry of algorithms\<close>

lemma strcasecmp_refl: "strcasecmp_eq a a"
  by (simp add: strcasecmp_eq_def)

text \<open>An algorithm that is registered is found by its name, whatever type is asked for, before any other;
  registering the same name again fails and changes nothing; and unregistering it leaves the list of algorithms as
  it was before.\<close>

theorem registry_roundtrip:
  assumes "load_dn_sched al methods t (Some d) s = (0, s1)"
  shows "find_sched_type al ty (al_name (al d)) s1 = Some d \<and> find_sched_type al (al_type (al d)) nm s1 = Some d \<and>
    load_dn_sched al methods t' (Some d) s1 = (1, s1) \<and>
    unload_dn_sched al (\<lambda>_. 0) d s1 = (0, ip_dn_init t s)"
proof -
  have m: "methods d" "\<not> list_ex (\<lambda>r. al_name (al r) = al_name (al d)) (schedlist (ip_dn_init t s))"
    and s1: "s1 = (ip_dn_init t s)\<lparr>schedlist := d # schedlist (ip_dn_init t s)\<rparr>"
    using assms by (auto simp: load_dn_sched_def Let_def split: if_splits)
  have i: "init_done s1" by (simp add: s1 ip_dn_init_def Let_def)
  then have "ip_dn_init t' s1 = s1" by (simp add: ip_dn_init_def)
  with m show ?thesis
    by (simp add: find_sched_type_def load_dn_sched_def unload_dn_sched_def strcasecmp_refl s1)
qed

theorem registry_roundtrip_witness:
  "\<exists>s1. load_dn_sched (\<lambda>_. fifo_like) (\<lambda>_. True) (0, 0) (Some 0) (sys_zero env_zero) = (0, s1) \<and>
    find_sched_type (\<lambda>_. fifo_like) 9 ''FIFO'' s1 = Some 0 \<and>
    unload_dn_sched (\<lambda>_. fifo_like) (\<lambda>_. 0) 0 s1 = (0, ip_dn_init (0, 0) (sys_zero env_zero))"
proof -
  obtain s1 where l: "load_dn_sched (\<lambda>_. fifo_like) (\<lambda>_. True) (0, 0) (Some 0) (sys_zero env_zero) = (0, s1)"
    by (simp add: load_dn_sched_def ip_dn_init_def sys_zero_def Let_def)
  show ?thesis using l registry_roundtrip [OF l, of 9] by (auto simp: fifo_like_def)
qed


section \<open>The RED lookup table\<close>

lemma SCALE_1 [simp]: "SCALE 1 = 65536"
  by (simp add: SCALE_def s32_id)

lemma red_weight_bounds:
  assumes "0 \<le> w0" "w0 < 2 ^ 16"
  shows "0 \<le> red_weight w0 st \<and> red_weight w0 st \<le> w0"
proof -
  have step: "0 \<le> s64 (w * w0) div 2 ^ 16 \<and> s64 (w * w0) div 2 ^ 16 \<le> w0" if "0 \<le> w" "w \<le> w0" for w
  proof -
    have b: "0 \<le> w * w0" "w * w0 \<le> w0 * 2 ^ 16" using that assms mult_mono [of w w0 w0 "2 ^ 16"] by simp_all
    have "w0 * 2 ^ 16 < 2 ^ 16 * 2 ^ 16" using assms by simp
    then have s: "s64 (w * w0) = w * w0" using b by (intro s64_id; simp)
    have "w * w0 div 2 ^ 16 \<le> w0 * 2 ^ 16 div 2 ^ 16" using b by (intro zdiv_mono1) simp_all
    with b show ?thesis unfolding s by simp
  qed
  have "0 \<le> ((\<lambda>w. s64 (w * w0) div 2 ^ 16) ^^ n) w0 \<and> ((\<lambda>w. s64 (w * w0) div 2 ^ 16) ^^ n) w0 \<le> w0" for n
    using step assms by (induction n) auto
  moreover define x where "x = ((\<lambda>w. s64 (w * w0) div 2 ^ 16) ^^ nat (st - 1)) w0"
  ultimately have b: "0 \<le> x" "x \<le> w0" by blast+
  then have "s32 x = x" using assms by (intro s32_id) simp_all
  with b show ?thesis unfolding red_weight_def x_def by simp
qed

lemma red_table_step:
  assumes w: "unat w0 < 2 ^ 16" "unat lw < 2 ^ 16"
  shows "unat (red_table w0 lw t) < 2 ^ 16 \<and> unat (red_table w0 lw (Suc t)) = unat (red_table w0 lw t) * unat lw div 2 ^ 16"
proof (induction t)
  have mul: "unat (x * lw) = unat x * unat lw" if "unat x < 2 ^ 16" for x :: u32
  proof -
    have "unat x * unat lw \<le> (2 ^ 16 - 1) * (2 ^ 16 - 1)" using that w by (intro mult_le_mono) simp_all
    then show ?thesis by (simp add: unat_word_ariths)
  qed
  have drop: "unat (drop_bit 16 (x * lw)) = unat x * unat lw div 2 ^ 16" if "unat x < 2 ^ 16" for x :: u32
    by (simp add: unat_drop_bit_eq mul [OF that]) (simp add: drop_bit_eq_div)
  {
    case 0
    show ?case using w drop [of w0] by simp
  next
    case (Suc t)
    have "unat (red_table w0 lw t) * unat lw div 2 ^ 16 \<le> unat (red_table w0 lw t) * 2 ^ 16 div 2 ^ 16"
      using w by (intro div_le_mono mult_le_mono) simp_all
    then have "unat (red_table w0 lw (Suc t)) < 2 ^ 16" using Suc by simp
    with drop [of "red_table w0 lw (Suc t)"] show ?case by simp
  }
qed

lemma red_table_decr:
  assumes "unat w0 < 2 ^ 16" "unat lw < 2 ^ 16"
  shows "red_table w0 lw (Suc t) \<le> red_table w0 lw t"
proof -
  have "unat (red_table w0 lw t) * unat lw div 2 ^ 16 \<le> unat (red_table w0 lw t) * 2 ^ 16 div 2 ^ 16"
    using assms by (intro div_le_mono mult_le_mono) simp_all
  then show ?thesis using red_table_step [OF assms, of t] by (simp add: word_le_nat_alt del: red_table.simps)
qed

text \<open>The same as integers.\<close>

lemma red_table_int:
  fixes w0 lw :: int
  defines "tb \<equiv> red_table (word_of_int w0) (word_of_int lw)"
  assumes w0: "0 \<le> w0" "w0 < 2 ^ 16" and lw: "0 \<le> lw" "lw < 2 ^ 16"
  shows "uint (tb 0) = w0" "uint (tb t) < 2 ^ 16" "uint (tb (Suc t)) = uint (tb t) * lw div 2 ^ 16" "tb (Suc t) \<le> tb t"
proof -
  have u: "unat (word_of_int w0 :: u32) = nat w0" "unat (word_of_int lw :: u32) = nat lw"
    using w0 lw by (simp_all add: unat_eq_nat_uint unsigned_of_int take_bit_int_eq_self)
  have sm: "unat (word_of_int w0 :: u32) < 2 ^ 16" "unat (word_of_int lw :: u32) < 2 ^ 16" using w0 lw by (simp_all add: u)
  define x y where "x = uint (tb t)" and "y = uint (tb (Suc t))"
  have xy: "0 \<le> x" "0 \<le> y" by (simp_all add: x_def y_def)
  have n: "nat x < 2 ^ 16" "nat y = nat x * nat lw div 2 ^ 16"
    using red_table_step [OF sm, of t] unfolding x_def y_def u(2) tb_def unat_eq_nat_uint [symmetric] by blast+
  have "nat y = nat (x * lw div 2 ^ 16)" using n(2) lw xy by (simp add: nat_mult_distrib nat_div_distrib)
  moreover have "0 \<le> x * lw div 2 ^ 16" using lw xy by (intro div_int_pos_iff [THEN iffD2]) simp
  ultimately have "y = x * lw div 2 ^ 16" using xy(2) by (subst (asm) eq_nat_nat_iff)
  moreover have "x < 2 ^ 16" using n(1) xy by simp
  ultimately show "uint (tb t) < 2 ^ 16" "uint (tb (Suc t)) = uint (tb t) * lw div 2 ^ 16"
    by (simp_all only: x_def y_def)
  show "uint (tb 0) = w0" using w0 by (simp add: tb_def unsigned_of_int take_bit_int_eq_self)
  show "tb (Suc t) \<le> tb t" unfolding tb_def by (rule red_table_decr [OF sm])
qed

lemma red_coeffs_keeps:
  assumes "red_coeffs r = Some r'"
  shows "w_q r' = w_q r" "lookup_step r' = lookup_step r" "lookup_weight r' = lookup_weight r"
  using assms by (auto simp: red_coeffs_def Let_def split: if_splits)

lemma red_step_nonzero: "red_step a b c = Some st \<Longrightarrow> st \<noteq> 0"
  by (auto simp: red_step_def Let_def split: if_splits)


lemma red_prepare_keeps:
  assumes "red_prepare h pkt depth bw r = Some r'"
  shows "w_q r' = fs_w_q (fsk_fs r) \<and> lookup_step r' \<noteq> 0 \<and>
    (\<exists>st. lookup_weight r' = red_weight (s32 (65536 - fs_w_q (fsk_fs r))) st)"
proof -
  obtain st where st: "red_step (red_packet_time h pkt bw) (fs_w_q (fsk_fs r)) depth = Some st"
      "red_coeffs (r\<lparr>w_q := fs_w_q (fsk_fs r), max_p := fs_max_p (fsk_fs r), lookup_step := st,
        lookup_weight := red_weight (s32 (65536 - fs_w_q (fsk_fs r))) st\<rparr>) = Some r'"
    using assms by (auto simp: red_prepare_def Let_def bind_eq_Some_conv)
  show ?thesis using red_coeffs_keeps [OF st(2)] red_step_nonzero [OF st(1)] by auto
qed

text \<open>What RED divides by when it is configured.\<close>

lemma config_red_divisors:
  assumes "config_red f s = Some (0, s')"
  shows "lookup_step (fsks (env s') f) \<noteq> 0" "1 \<le> max_pkt_size (fsks (env s') f)"
proof -
  obtain k r1 where k: "fsk_sched (fsks (env s) f) = Some k"
    and r1: "red_prepare (hz s) (red_avg_pkt_size s) (red_lookup_depth s) (bandwidth (sk_link (schks (env s) k))) (fsks (env s) f) = Some r1"
    using assms by (auto simp: config_red_def bind_eq_Some_conv)
  then show "lookup_step (fsks (env s') f) \<noteq> 0" "1 \<le> max_pkt_size (fsks (env s') f)"
    using assms red_prepare_keeps [OF r1] by (auto simp: config_red_def Let_def EINVAL_def ENOSPC_def cong: if_cong split: if_splits)
qed

text \<open>C39: Configuring RED with a weight above 0 and at most 1 leaves a lookup table that starts at one minus the
  weight, never increases, has all entries below 1 in fixed point, and whose next entry is exactly the entry times
  the weight of a step, rounded down: no product of the table or of the average with an entry overflows. Entries
  beyond the depth are not written, and the step, by which the idle time of a queue is divided, is not zero.\<close>

theorem config_red_table:
  assumes "config_red f s = Some (0, s')"
    and "0 < fs_w_q (fsk_fs (fsks (env s) f))" "fs_w_q (fsk_fs (fsks (env s) f)) \<le> 2 ^ 16"
  shows "\<exists>r. fsks (env s') f = r \<and> lookup_step r \<noteq> 0 \<and> lookup_depth r = word_of_int (red_lookup_depth s) \<and>
    (0 < unat (lookup_depth r) \<longrightarrow> uint (w_q_lookup r 0) = 2 ^ 16 - fs_w_q (fsk_fs (fsks (env s) f))) \<and> 0 \<le> lookup_weight r \<and> lookup_weight r < 2 ^ 16 \<and>
    (\<forall>t. uint (w_q_lookup r t) < 2 ^ 16 \<and> w_q_lookup r (Suc t) \<le> w_q_lookup r t) \<and>
    (\<forall>t. Suc t < unat (lookup_depth r) \<longrightarrow> uint (w_q_lookup r (Suc t)) = uint (w_q_lookup r t) * lookup_weight r div 2 ^ 16) \<and>
    (\<forall>t. unat (lookup_depth r) \<le> t \<longrightarrow> w_q_lookup r t = 0)"
proof -
  define wq where "wq = fs_w_q (fsk_fs (fsks (env s) f))"
  obtain k r1 where k: "fsk_sched (fsks (env s) f) = Some k"
    and r1: "red_prepare (hz s) (red_avg_pkt_size s) (red_lookup_depth s) (bandwidth (sk_link (schks (env s) k))) (fsks (env s) f) = Some r1"
    using assms(1) by (auto simp: config_red_def bind_eq_Some_conv)
  obtain st where r1k: "w_q r1 = wq" "lookup_step r1 \<noteq> 0" "lookup_weight r1 = red_weight (s32 (65536 - wq)) st"
    using red_prepare_keeps [OF r1] by (auto simp: wq_def)
  define w0 where "w0 = 65536 - wq"
  have w0: "0 \<le> w0" "w0 < 2 ^ 16" using assms(2,3) by (simp_all add: w0_def wq_def)
  have s0: "s32 (65536 - wq) = w0" using w0 by (simp add: w0_def [symmetric] s32_id)
  define lw where "lw = lookup_weight r1"
  have lw: "0 \<le> lw" "lw < 2 ^ 16" using red_weight_bounds [OF w0, of st] w0(2) by (simp_all add: lw_def r1k s0)
  define d where "d = (word_of_int (red_lookup_depth s) :: u32)"
  define tb where "tb = red_table (word_of_int (65536 - w_q r1)) (word_of_int (lookup_weight r1))"
  have tb: "tb = red_table (word_of_int w0) (word_of_int lw)" by (simp only: tb_def w0_def lw_def r1k(1))
  obtain r where r: "fsks (env s') f = r" "w_q r = wq" "lookup_step r \<noteq> 0" "lookup_depth r = d" "lookup_weight r = lw"
      "w_q_lookup r = (\<lambda>t. if t < unat d then tb t else 0)"
    using assms(1) k r1 r1k(1,2)
    by (auto simp: config_red_def Let_def d_def tb_def lw_def EINVAL_def ENOSPC_def cong: if_cong split: if_splits)
  note b = red_table_int [OF w0 lw, folded tb]
  have "uint (tb 0) = 2 ^ 16 - fs_w_q (fsk_fs (fsks (env s) f))" using b(1) by (simp add: w0_def wq_def)
  with r b lw show ?thesis by (intro exI [of _ r]) (simp add: d_def)
qed


text \<open>A weight of 0.002, a table of two entries, thresholds 5 and 15.\<close>

definition red_sys :: "unit dn_sys" where
  "red_sys = (sys_zero (env_zero\<lparr>fsks := (\<lambda>_. fsk_zero)(4 := fsk_zero\<lparr>fsk_sched := Some 0,
     fsk_fs := fs_zero\<lparr>fs_w_q := 131, fs_min_th := 5, fs_max_th := 15, fs_max_p := 6553\<rparr>\<rparr>)\<rparr>))\<lparr>red_lookup_depth := 2\<rparr>"

lemma red_sys_ok: "\<exists>s'. config_red 4 red_sys = Some (0, s')"
proof -
  have st: "red_step 0 131 2 = Some 1" by (simp add: red_step_def div64_def cdiv_def s64_id s32_id)
  show ?thesis
    by (simp add: config_red_def red_prepare_def red_packet_time_def red_coeffs_def Let_def red_sys_def sys_zero_def env_zero_def
        fsk_zero_def fs_zero_def schk_zero_def link_zero_def st s32_id)
qed

theorem config_red_table_witness:
  "\<exists>s'. config_red 4 red_sys = Some (0, s') \<and> lookup_step (fsks (env s') 4) \<noteq> 0 \<and>
    uint (w_q_lookup (fsks (env s') 4) 0) = 65536 - 131 \<and> w_q_lookup (fsks (env s') 4) 7 = 0"
proof -
  obtain s' where s': "config_red 4 red_sys = Some (0, s')" using red_sys_ok by blast
  have w: "fs_w_q (fsk_fs (fsks (env red_sys) 4)) = 131" "red_lookup_depth red_sys = 2"
    by (simp_all add: red_sys_def sys_zero_def)
  then have "0 < fs_w_q (fsk_fs (fsks (env red_sys) 4))" "fs_w_q (fsk_fs (fsks (env red_sys) 4)) \<le> 2 ^ 16" by simp_all
  from config_red_table [OF s' this] show ?thesis using s' w by auto
qed


section \<open>Flowsets\<close>

lemma bound_var_between: "lo \<le> hi \<Longrightarrow> lo \<le> ipdn_bound_var v d lo hi \<and> ipdn_bound_var v d lo hi \<le> hi"
  by (simp add: ipdn_bound_var_def Let_def)

text \<open>The limits of the configuration make sense.\<close>

definition limits_ok :: "'x dn_sys \<Rightarrow> bool" where
  "limits_ok s \<longleftrightarrow> 1 \<le> slot_limit s \<and> slot_limit s < 2 ^ 31 \<and> 1500 \<le> byte_limit s \<and> byte_limit s < 2 ^ 31 \<and>
     1 \<le> max_hash_size s \<and> max_hash_size s \<le> 65536"

definition size_ok :: "'x dn_sys \<Rightarrow> dn_fs \<Rightarrow> bool" where
  "size_ok s c \<longleftrightarrow> 1 \<le> fs_buckets c \<and> fs_buckets c \<le> nat (max_hash_size s) \<and>
     (if fs_flags c AND DN_QSIZE_BYTES \<noteq> 0 then 1500 \<le> qsize c \<and> qsize c \<le> byte_limit s
      else 1 \<le> qsize c \<and> qsize c \<le> slot_limit s)"

lemma bound_buckets_ok:
  assumes "limits_ok s"
  shows "1 \<le> bound_buckets s b \<and> bound_buckets s b \<le> nat (max_hash_size s)"
proof -
  define v where "v = ipdn_bound_var (s32 (int b)) (hash_size s) 1 (max_hash_size s)"
  have v: "1 \<le> v" "v \<le> max_hash_size s" "max_hash_size s \<le> 65536"
    using bound_var_between [of 1 "max_hash_size s"] assms by (simp_all add: v_def limits_ok_def)
  then have "unat (word_of_int v :: u32) = nat v" by (simp add: unat_eq_nat_uint unsigned_of_int take_bit_int_eq_self)
  with v show ?thesis by (simp add: bound_buckets_def v_def [symmetric] nat_le_iff)
qed

lemma fs_bounds_ok: "limits_ok s \<Longrightarrow> size_ok s (fs_bounds c s)"
proof -
  assume l: "limits_ok s"
  then have s: "s32 (slot_limit s) = slot_limit s" "s32 (byte_limit s) = byte_limit s"
    by (simp_all add: limits_ok_def s32_id)
  have "1 \<le> nat (max_hash_size s)" using l unfolding limits_ok_def by linarith
  with l show ?thesis
    using bound_buckets_ok [OF l, of "fs_buckets c"] bound_var_between [of 1 "slot_limit s" "qsize c" 50]
      bound_var_between [of 1500 "byte_limit s" "qsize c" 16384]
    by (simp add: size_ok_def fs_bounds_def Let_def s limits_ok_def)
qed

lemma fs_bounds_keeps [simp]:
  "fs_nr (fs_bounds c s) = fs_nr c" "fs_flags (fs_bounds c s) = fs_flags c" "fs_sched_nr (fs_bounds c s) = fs_sched_nr c"
  by (simp_all add: fs_bounds_def Let_def)

text \<open>
  What the algorithms may not change when a flowset is attached: all but the parameters of the flowset, and the lists
  of flowsets of the schedulers. The root theory shows it for the five algorithms.
\<close>

definition fs_conf :: "dn_fsk \<Rightarrow> nat \<times> u32 \<times> int \<times> nat \<times> schid option" where
  "fs_conf r = (fs_nr (fsk_fs r), fs_flags (fsk_fs r), qsize (fsk_fs r), fs_buckets (fsk_fs r), fsk_sched r)"

definition keeps_conf :: "'x algs \<Rightarrow> bool" where
  "keeps_conf al \<longleftrightarrow> (\<forall>d g f e j. al_new_fsk (al d) = Some g \<longrightarrow>
     fs_conf (fsks (snd (g f e)) j) = fs_conf (fsks e j) \<and> fsk_list (schks (snd (g f e)) j) = fsk_list (schks e j))"

lemma keeps_conf_none: "(\<And>d. al_new_fsk (al d) = None) \<Longrightarrow> keeps_conf al"
  by (simp add: keeps_conf_def)

lemma DN_IS_RED_flags:
  assumes "(fl :: u32) AND DN_IS_RED = 0"
  shows "(fl OR DN_QHT_HASH) AND DN_IS_RED = 0" "(fl AND NOT DN_QHT_HASH) AND DN_IS_RED = 0"
proof -
  have "DN_QHT_HASH AND DN_IS_RED = 0" by (simp add: DN_QHT_HASH_def DN_IS_RED_def)
  then show "(fl OR DN_QHT_HASH) AND DN_IS_RED = 0" using assms by (simp add: bit.conj_disj_distrib2)
  have "(fl AND NOT DN_QHT_HASH) AND DN_IS_RED = (fl AND DN_IS_RED) AND NOT DN_QHT_HASH"
    by (rule bit_word_eqI) (auto simp: bit_and_iff bit_not_iff)
  then show "(fl AND NOT DN_QHT_HASH) AND DN_IS_RED = 0" using assms by simp
qed


text \<open>Attaching a flowset that is in no scheduler's list, without RED.\<close>

lemma fsk_attach_ok:
  assumes kc: "keeps_conf al" and f: "f \<in> set (fsu s)" and a: "sk_alg al (env s) k = Some a"
    and red: "fs_flags (fsk_fs (fsks (env s) f)) AND DN_IS_RED = 0"
  shows "\<exists>s'. fsk_attach al f k s = Some s' \<and> fshash s' = fshash s \<and> fsk_sched (fsks (env s') f) = Some k \<and>
    fsu s' = remove1 f (fsu s) \<and>
    (\<forall>j. fsk_list (schks (env s') j) = (if j = k then f # fsk_list (schks (env s) k) else fsk_list (schks (env s) j))) \<and>
    (\<forall>j. j \<noteq> f \<longrightarrow> fs_conf (fsks (env s') j) = fs_conf (fsks (env s) j)) \<and>
    fs_nr (fsk_fs (fsks (env s') f)) = fs_nr (fsk_fs (fsks (env s) f)) \<and>
    qsize (fsk_fs (fsks (env s') f)) = qsize (fsk_fs (fsks (env s) f)) \<and>
    fs_buckets (fsk_fs (fsks (env s') f)) = fs_buckets (fsk_fs (fsks (env s) f))"
proof -
  define s1 where "s1 = on_env (\<lambda>e. upd_schk k (\<lambda>r. r\<lparr>fsk_list := f # fsk_list r\<rparr>)
     (upd_fsk f (\<lambda>r. r\<lparr>fsk_sched := Some k\<rparr>) e)) (s\<lparr>fsu := remove1 f (fsu s)\<rparr>)"
  have a1: "sk_alg al (env s1) k = Some a" using a by (simp add: s1_def sk_alg_def upd_schk_def)
  define s2 where "s2 = (case al_new_fsk a of None \<Rightarrow> s1 | Some g \<Rightarrow> snd (lift_cb (g f) s1))"
  have c1: "fs_conf (fsks (env s1) j) = (if j = f then (case fs_conf (fsks (env s) f) of (n, fl, q, b, z) \<Rightarrow> (n, fl, q, b, Some k))
      else fs_conf (fsks (env s) j))" for j
    by (simp add: s1_def fs_conf_def upd_schk_def)
  obtain d where d: "a = al d" using a by (auto simp: sk_alg_def)
  have s2: "fshash s2 = fshash s" "fsu s2 = remove1 f (fsu s)" by (simp_all add: s2_def s1_def lift_cb_def split: option.split prod.split)
  have cl2: "fs_conf (fsks (env s2) j) = fs_conf (fsks (env s1) j) \<and> fsk_list (schks (env s2) j) = fsk_list (schks (env s1) j)" for j
  proof (cases "al_new_fsk (al d)")
    case (Some g)
    then have "env s2 = snd (g f (env s1))" by (simp add: s2_def d lift_cb_def split: prod.split)
    with kc Some show ?thesis by (simp add: keeps_conf_def)
  qed (simp add: s2_def d)
  then have c2: "fs_conf (fsks (env s2) j) = fs_conf (fsks (env s1) j)" and l2: "fsk_list (schks (env s2) j) = fsk_list (schks (env s1) j)" for j
    by blast+
  have fl: "fs_flags (fsk_fs (fsks (env s2) f)) AND DN_IS_RED = 0" using c2 [of f] c1 [of f] red by (simp add: fs_conf_def)
  define m where "m = (let r = fsks (env s2) f; c = sk_sch (schks (env s2) k) in
    if sch_flags c AND DN_HAVE_MASK \<noteq> 0 then flow_id_or (sched_mask c) (flow_mask (fsk_fs r)) else flow_mask (fsk_fs r))"
  define fl' where "fl' = (if nonzero_mask m then fs_flags (fsk_fs (fsks (env s2) f)) OR DN_QHT_HASH
    else fs_flags (fsk_fs (fsks (env s2) f)) AND NOT DN_QHT_HASH)"
  define s3 where "s3 = on_env (upd_fsk f (\<lambda>r. r\<lparr>fsk_mask := m, qht := NoObj, fsk_fs := (fsk_fs r)\<lparr>fs_flags := fl'\<rparr>\<rparr>)) s2"
  have s1: "on_env (upd_schk k (\<lambda>r. r\<lparr>fsk_list := f # fsk_list r\<rparr>))
      (on_env (upd_fsk f (\<lambda>r. r\<lparr>fsk_sched := Some k\<rparr>)) (s\<lparr>fsu := remove1 f (fsu s)\<rparr>)) = s1"
    by (simp add: s1_def)
  have "fsk_attach al f k s = Some s3"
    using f unfolding fsk_attach_def sl_remove_def Let_def
    by (simp only: s1 a1 s2_def [symmetric] if_True Option.bind.bind_lunit)
      (simp add: s3_def m_def fl'_def Let_def set_qht_def set_flags_def is_red_def upd_fsk_def on_env_def DN_IS_RED_flags [OF fl])
  moreover have "fs_conf (fsks (env s3) j) = fs_conf (fsks (env s) j)" if "j \<noteq> f" for j
    using that c1 [of j] c2 [of j] by (simp add: s3_def fs_conf_def)
  moreover have "fsk_sched (fsks (env s3) f) = Some k" "fs_nr (fsk_fs (fsks (env s3) f)) = fs_nr (fsk_fs (fsks (env s) f))"
      "qsize (fsk_fs (fsks (env s3) f)) = qsize (fsk_fs (fsks (env s) f))"
      "fs_buckets (fsk_fs (fsks (env s3) f)) = fs_buckets (fsk_fs (fsks (env s) f))"
    using c1 [of f] c2 [of f] by (simp_all add: s3_def fs_conf_def)
  moreover have "fshash s3 = fshash s" "fsu s3 = remove1 f (fsu s)" by (simp_all add: s3_def s2)
  moreover have "fsk_list (schks (env s3) j) = (if j = k then f # fsk_list (schks (env s) k) else fsk_list (schks (env s) j))" for j
    using l2 [of j] by (simp add: s3_def s1_def upd_schk_def)
  ultimately show ?thesis by blast
qed


lemma fs_reuse_keeps [simp]:
  "fs_nr (fs_reuse old c) = fs_nr c" "fs_flags (fs_reuse old c) = fs_flags c" "qsize (fs_reuse old c) = qsize c"
  "fs_buckets (fs_reuse old c) = fs_buckets c" "fs_sched_nr c \<noteq> 0 \<Longrightarrow> fs_sched_nr (fs_reuse old c) = fs_sched_nr c"
  by (simp_all add: fs_reuse_def)

lemma locate_same: "schedhash s' = schedhash s \<Longrightarrow> schks (env s') = schks (env s) \<Longrightarrow> locate_scheduler n s' = locate_scheduler n s"
  by (simp add: locate_scheduler_def split: option.split)

text \<open>A flowset of a new number is created at the head of its bucket and among the unlinked ones.\<close>

lemma find_fsk_new:
  assumes t: "fshash s = Some t" and m: "mems s 0"
    and new: "find (\<lambda>f. fs_nr (fsk_fs (fsks (env s) f)) = n) (hb_list t (tab_bucket t (nr_hash n))) = None"
  shows "\<exists>f xs s1. find_fsk n DNHT_INSERT s = Some (Some f, s1) \<and>
    fshash s1 = Some (t\<lparr>hb_list := (hb_list t)(tab_bucket t (nr_hash n) := f # xs)\<rparr>) \<and> fsu s1 = f # fsu s \<and>
    fsk_sched (fsks (env s1) f) = None \<and> fs_nr (fsk_fs (fsks (env s1) f)) = 0 \<and>
    schedhash s1 = schedhash s \<and> schks (env s1) = schks (env s) \<and> (\<forall>j. j \<noteq> f \<longrightarrow> fsks (env s1) j = fsks (env s) j)"
  using assms
  by (auto simp: find_fsk_def tab_find_def Let_def fsk_new_def k_malloc_def DNHT_flags upd_schk_def fsk_zero_def fs_zero_def)

text \<open>A flowset of the list of unlinked flowsets is moved to that of its scheduler, if there is one.\<close>

definition fs_linked :: "fsid \<Rightarrow> schid option \<Rightarrow> 'x dn_sys \<Rightarrow> 'x dn_sys \<Rightarrow> bool" where
  "fs_linked f k s s' \<longleftrightarrow> fsu s' = (if k = None then fsu s else remove1 f (fsu s)) \<and>
     (\<forall>j. fsk_list (schks (env s') j) = (if k = Some j then f # fsk_list (schks (env s) j) else fsk_list (schks (env s) j)))"

lemma fs_reconf_new:
  assumes kc: "keeps_conf al" and f: "f \<in> set (fsu s)" "fsk_sched (fsks (env s) f) = None" "fs_nr (fsk_fs (fsks (env s) f)) = 0"
    and c: "0 < fs_nr c" "fs_sched_nr c \<noteq> 0" "fs_flags c AND DN_IS_RED = 0"
    and k: "\<forall>k. locate_scheduler (fs_sched_nr c) s = Some k \<longrightarrow> sk_alg al (env s) k \<noteq> None"
  shows "\<exists>s'. fs_reconf al f c oldc s = Some s' \<and> fshash s' = fshash s \<and>
    fs_linked f (locate_scheduler (fs_sched_nr c) s) s s' \<and>
    fs_nr (fsk_fs (fsks (env s') f)) = fs_nr c \<and> qsize (fsk_fs (fsks (env s') f)) = qsize c \<and>
    fs_buckets (fsk_fs (fsks (env s') f)) = fs_buckets c \<and> fsk_sched (fsks (env s') f) = locate_scheduler (fs_sched_nr c) s"
proof -
  define c1 where "c1 = fs_reuse (fsk_fs (fsks (env s) f)) c"
  have c1: "fs_nr c1 = fs_nr c" "fs_flags c1 = fs_flags c" "qsize c1 = qsize c" "fs_buckets c1 = fs_buckets c" "fs_sched_nr c1 = fs_sched_nr c"
    using c by (simp_all add: c1_def)
  have same: "\<not> fs_same (fsk_fs (fsks (env s) f)) c1" using c f c1 by (simp add: fs_same_def)
  define s1 where "s1 = (if oldc \<noteq> fsk_count s then s\<lparr>cfg_id := cfg_id s + 1\<rparr> else s)"
  have s1: "env s1 = env s" "fsu s1 = fsu s" "fshash s1 = fshash s" "schedhash s1 = schedhash s" by (simp_all add: s1_def)
  define s2 where "s2 = on_env (upd_fsk f (\<lambda>r. r\<lparr>fsk_fs := c1\<rparr>)) s1"
  have s2: "fsu s2 = fsu s" "fshash s2 = fshash s" "fsk_fs (fsks (env s2) f) = c1" "fsk_sched (fsks (env s2) f) = None"
    "schks (env s2) = schks (env s)"
    using f by (simp_all add: s2_def s1)
  have l: "locate_scheduler (fs_sched_nr c) s1 = locate_scheduler (fs_sched_nr c) s" using s1 by (intro locate_same) simp_all
  have e: "fs_reconf al f c oldc s = (case locate_scheduler (fs_sched_nr c) s of None \<Rightarrow> Some s2 | Some k \<Rightarrow> fsk_attach al f k s2)"
    using same f(2) unfolding fs_reconf_def Let_def c1_def [symmetric] s1_def [symmetric]
    by (simp add: c1 l s1 s2_def split: option.split)
  show ?thesis
  proof (cases "locate_scheduler (fs_sched_nr c) s")
    case None
    then show ?thesis using e s2 c1 by (simp add: fs_linked_def)
  next
    case (Some k1)
    then obtain a where "sk_alg al (env s2) k1 = Some a"
      using k by (auto simp: s2_def s1 sk_alg_def)
    moreover have "f \<in> set (fsu s2)" "fs_flags (fsk_fs (fsks (env s2) f)) AND DN_IS_RED = 0" using f c c1 s2 by simp_all
    ultimately show ?thesis using fsk_attach_ok [OF kc, of f s2 k1 a] e Some s2 c1 by (auto simp: fs_linked_def)
  qed
qed

text \<open>C17: Configuring a flowset with a new number: with scheduler number 0 it is refused and nothing changes. With another
  one and without RED it succeeds when there is memory: the flowset is then the one that lookups of the number return.
  If there is a scheduler with the number asked for, the flowset points to it and is put in front of its list of flowsets,
  and if there is none, in front of the unlinked flowsets; no other list changes. Its queue size and number of
  buckets are within the configured limits, whatever was asked for. (The request has the length of a flowset, its number is in range, the
  table of flowsets exists, the limits are positive, the scheduler has an algorithm, whose \<open>new_fsk\<close> changes no more than
  the parameters of the flowset; a flowset with RED may stop the kernel by a division by zero in \<open>config_red\<close>.)\<close>

theorem config_fs_new:
  assumes "keeps_conf al" "limits_ok s" "fshash s = Some t" "mems s 0"
    and "unat (id_len (fs_oid c)) = sizeof_dn_fs" "0 < fs_nr c" "fs_nr c < 3 * DN_MAX_ID"
    and "fs_flags c AND DN_IS_RED = 0"
    and "find (\<lambda>f. fs_nr (fsk_fs (fsks (env s) f)) = fs_nr c) (hb_list t (tab_bucket t (nr_hash (fs_nr c)))) = None"
    and "\<forall>k. locate_scheduler (fs_sched_nr c) s = Some k \<longrightarrow> sk_alg al (env s) k \<noteq> None"
  shows "if fs_sched_nr c = 0 then config_fs al c s = Some (None, s) else
    \<exists>f s' r. config_fs al c s = Some (Some f, s') \<and> find_fsk (fs_nr c) 0 s' = Some (Some f, s') \<and>
    fsks (env s') f = r \<and> fsk_sched r = locate_scheduler (fs_sched_nr c) s \<and>
    fsu s' = (if locate_scheduler (fs_sched_nr c) s = None then f # fsu s else fsu s) \<and>
    (\<forall>k. fsk_list (schks (env s') k) =
      (if locate_scheduler (fs_sched_nr c) s = Some k then f # fsk_list (schks (env s) k) else fsk_list (schks (env s) k))) \<and>
    1 \<le> fs_buckets (fsk_fs r) \<and> fs_buckets (fsk_fs r) \<le> nat (max_hash_size s) \<and>
    (if fs_flags c AND DN_QSIZE_BYTES \<noteq> 0 then 1500 \<le> qsize (fsk_fs r) \<and> qsize (fsk_fs r) \<le> byte_limit s
     else 1 \<le> qsize (fsk_fs r) \<and> qsize (fsk_fs r) \<le> slot_limit s)"
proof (cases "fs_sched_nr c = 0")
  case True
  have "s32 (int (fs_nr c)) = int (fs_nr c)" using assms(7) by (intro s32_id) (simp_all add: DN_MAX_ID_def)
  moreover have "find_fsk (fs_nr c) 0 s = Some (None, s)"
    using assms(3,9) by (simp add: find_fsk_def tab_find_def Let_def)
  ultimately show ?thesis using True assms(3,5-7) by (simp add: config_fs_def Let_def)
next
  case sched: False
  have i: "s32 (int (fs_nr c)) = int (fs_nr c)" using assms(7) by (intro s32_id) (simp_all add: DN_MAX_ID_def)
  obtain f xs s1 where f: "find_fsk (fs_nr c) DNHT_INSERT s = Some (Some f, s1)"
      "fshash s1 = Some (t\<lparr>hb_list := (hb_list t)(tab_bucket t (nr_hash (fs_nr c)) := f # xs)\<rparr>)" "fsu s1 = f # fsu s"
      "fsk_sched (fsks (env s1) f) = None" "fs_nr (fsk_fs (fsks (env s1) f)) = 0"
      "schedhash s1 = schedhash s" "schks (env s1) = schks (env s)"
    using find_fsk_new [OF assms(3,4,9)] by blast
  have lo: "locate_scheduler (fs_sched_nr c) s1 = locate_scheduler (fs_sched_nr c) s" using f by (intro locate_same)
  have f3: "f \<in> set (fsu s1)" using f(3) by simp
  obtain s' where s': "fs_reconf al f (fs_bounds c s) (fsk_count s) s1 = Some s'" "fshash s' = fshash s1"
      "fs_nr (fsk_fs (fsks (env s') f)) = fs_nr c" "qsize (fsk_fs (fsks (env s') f)) = qsize (fs_bounds c s)"
      "fs_buckets (fsk_fs (fsks (env s') f)) = fs_buckets (fs_bounds c s)" "fsk_sched (fsks (env s') f) = locate_scheduler (fs_sched_nr c) s"
      "fs_linked f (locate_scheduler (fs_sched_nr c) s) s1 s'"
    using fs_reconf_new [OF assms(1) f3 f(4,5), of "fs_bounds c s" "fsk_count s"] assms(6,8,10) sched f(7) lo
    by (auto simp: sk_alg_def)
  have "config_fs al c s = Some (Some f, s')"
    using assms(3,5-7) sched f(1) s'(1) by (simp add: config_fs_def i Let_def)
  moreover have "find_fsk (fs_nr c) 0 s' = Some (Some f, s')"
    by (simp add: find_fsk_def s'(2,3) f(2) tab_find_def tab_bucket_def DNHT_flags)
  moreover have "fsu s' = (if locate_scheduler (fs_sched_nr c) s = None then f # fsu s else fsu s)"
    "fsk_list (schks (env s') k) =
      (if locate_scheduler (fs_sched_nr c) s = Some k then f # fsk_list (schks (env s) k) else fsk_list (schks (env s) k))" for k
    using s'(7) f(3,7) by (simp_all add: fs_linked_def)
  ultimately show ?thesis unfolding if_not_P [OF sched] using fs_bounds_ok [OF assms(2), of c] s'(4-6)
    by (intro exI [of _ f] exI [of _ s'] exI [of _ "fsks (env s') f"]) (simp add: size_ok_def)
qed


text \<open>A flowset for scheduler 9, with a queue size out of range, asked of a machine without flowsets; flowset 2 is unlinked.\<close>

definition conf_sys :: "unit dn_sys" where
  "conf_sys = (sys_zero (env_zero\<lparr>schks := (\<lambda>_. schk_zero)(4 := schk_zero\<lparr>sk_sch := sch_zero\<lparr>sch_nr := 9\<rparr>, sk_fp := Some 0, fsk_list := [8]\<rparr>)\<rparr>))
     \<lparr>fshash := Some \<lparr>hb_mask = 63, hb_list = (\<lambda>_. [])\<rparr>, schedhash := Some \<lparr>hb_mask = 0, hb_list = (\<lambda>_. [4])\<rparr>,
     fsu := [2], slot_limit := 100, byte_limit := 1048576, max_hash_size := 1024, hash_size := 64\<rparr>"

definition conf_req :: dn_fs where
  "conf_req = fs_zero\<lparr>fs_oid := set_oid DN_FS 120 oid_zero, fs_nr := 5, fs_sched_nr := 9, qsize := 4000\<rparr>"

theorem config_fs_new_witness:
  "\<exists>f s' r. config_fs (\<lambda>_. fifo_like) conf_req conf_sys = Some (Some f, s') \<and> find_fsk 5 0 s' = Some (Some f, s') \<and>
    fsks (env s') f = r \<and> fsk_sched r = Some 4 \<and> fsk_list (schks (env s') 4) = [f, 8] \<and> fsu s' = [2] \<and>
    1 \<le> qsize (fsk_fs r) \<and> qsize (fsk_fs r) \<le> 100"
proof -
  have s: "slot_limit conf_sys = 100" "fshash conf_sys = Some \<lparr>hb_mask = 63, hb_list = (\<lambda>_. [])\<rparr>" "mems conf_sys 0" "limits_ok conf_sys"
    "locate_scheduler 9 conf_sys = Some 4" "fsk_list (schks (env conf_sys) 4) = [8]" "fsu conf_sys = [2]"
    "sk_alg (\<lambda>_. fifo_like) (env conf_sys) 4 \<noteq> None"
    by (simp_all add: conf_sys_def sys_zero_def limits_ok_def locate_scheduler_def tab_bucket_def sk_alg_def)
  have c: "unat (id_len (fs_oid conf_req)) = sizeof_dn_fs" "fs_nr conf_req = 5" "fs_sched_nr conf_req = 9" "fs_flags conf_req = 0"
    by (simp_all add: conf_req_def set_oid_def sizeof_dn_fs_def fs_zero_def oid_zero_def)
  have k: "keeps_conf (\<lambda>_. fifo_like)" by (rule keeps_conf_none) (simp add: fifo_like_def)
  show ?thesis
    using config_fs_new [OF k s(4) s(2) s(3) c(1)] s c by (auto simp add: DN_MAX_ID_def)
qed

end
