(* ===== verification/DnGlue.thy ===== *)
theory DnGlue
  imports DnConf
begin

text \<open>
  The compatibility layer for the socket interface of FreeBSD 7.2 and 8 (\<open>sys/netinet/ipfw/ip_dn_glue.c\<close>): the old
  structures, the conversion of old requests into batches of messages for \<open>do_config\<close>, and the export of the
  objects in the old layout. \<open>None\<close> is, as everywhere, an access outside the objects or the request.
\<close>

section \<open>The old structures\<close>

text \<open>Addresses are numbers; the pointers in these structures are never followed.\<close>

record dn_heap7 =
  h7_size :: int
  h7_elements :: int
  h7_offset :: int
  h7_p :: u64

record dn_flow_set =
  fo_next :: u64
  fo_fs_nr :: u16
  fo_flags_fs :: u16
  fo_pipe :: u64
  fo_parent_nr :: u16
  fo_weight :: int
  fo_qsize :: int
  fo_plr :: int
  fo_flow_mask :: ipfw_flow_id
  fo_rq_size :: int
  fo_rq_elements :: int
  fo_rq :: u64
  fo_last_expired :: u32
  fo_backlogged :: int
  fo_w_q :: int
  fo_max_th :: int
  fo_min_th :: int
  fo_max_p :: int
  fo_c_1 :: u32
  fo_c_2 :: u32
  fo_c_3 :: u32
  fo_c_4 :: u32
  fo_w_q_lookup :: u64
  fo_lookup_depth :: u32
  fo_lookup_step :: int
  fo_lookup_weight :: int
  fo_avg_pkt_size :: int
  fo_max_pkt_size :: int

record dn_flow_queue7 =
  f7_next :: u64
  f7_id :: ipfw_flow_id
  f7_head :: u64
  f7_tail :: u64
  f7_len :: u32
  f7_len_bytes :: u32
  f7_numbytes :: u64
  f7_tot_pkts :: u64
  f7_tot_bytes :: u64
  f7_drops :: u32
  f7_hash_slot :: int
  f7_avg :: int
  f7_count :: int
  f7_random :: int
  f7_q_time :: u32
  f7_fs :: u64
  f7_heap_pos :: int
  f7_sched_time :: int
  f7_S :: int
  f7_F :: int

record dn_flow_queue8 =
  f8_next :: u64
  f8_id :: ipfw_flow_id
  f8_head :: u64
  f8_tail :: u64
  f8_len :: u32
  f8_len_bytes :: u32
  f8_numbytes :: u64
  f8_extra_bits :: int
  f8_tot_pkts :: u64
  f8_tot_bytes :: u64
  f8_drops :: u32
  f8_hash_slot :: int
  f8_avg :: int
  f8_count :: int
  f8_random :: int
  f8_idle_time :: int
  f8_fs :: u64
  f8_heap_pos :: int
  f8_sched_time :: int
  f8_S :: int
  f8_F :: int

record dn_pipe7 =
  p7_next :: u64
  p7_pipe_nr :: int
  p7_bandwidth :: int
  p7_delay :: int
  p7_head :: u64
  p7_tail :: u64
  p7_scheduler_heap :: dn_heap7
  p7_not_eligible_heap :: dn_heap7
  p7_idle_heap :: dn_heap7
  p7_V :: int
  p7_sum :: int
  p7_numbytes :: int
  p7_sched_time :: int
  p7_if_name :: string
  p7_ifp :: u64
  p7_ready :: int
  p7_fs :: dn_flow_set

record dn_pipe8 =
  p8_next :: u64
  p8_pipe_nr :: int
  p8_bandwidth :: int
  p8_delay :: int
  p8_head :: u64
  p8_tail :: u64
  p8_scheduler_heap :: dn_heap7
  p8_not_eligible_heap :: dn_heap7
  p8_idle_heap :: dn_heap7
  p8_V :: int
  p8_sum :: int
  p8_numbytes :: int
  p8_burst :: u64
  p8_sched_time :: int
  p8_idle_time :: int
  p8_if_name :: string
  p8_ifp :: u64
  p8_ready :: int
  p8_fs :: dn_flow_set
  p8_name :: string
  p8_loss_level :: int
  p8_samples_no :: int
  p8_samples :: u64

definition pipesize7 :: nat where "pipesize7 = 352"
definition pipesize8 :: nat where "pipesize8 = 424"
definition pipesizemax8 :: nat where "pipesizemax8 = 4520"
definition sizeof_dn_flow_set :: nat where "sizeof_dn_flow_set = 184"
definition sizeof_dn_flow_queue7 :: nat where "sizeof_dn_flow_queue7 = 176"
definition sizeof_dn_flow_queue8 :: nat where "sizeof_dn_flow_queue8 = 192"
definition ED_MAX_NAME_LEN :: nat where "ED_MAX_NAME_LEN = 32"

lemmas old_size_defs = pipesize7_def pipesize8_def pipesizemax8_def sizeof_dn_flow_set_def
  sizeof_dn_flow_queue7_def sizeof_dn_flow_queue8_def

text \<open>Zeroed structures.\<close>

definition heap7_zero :: dn_heap7 where "heap7_zero = \<lparr>h7_size = 0, h7_elements = 0, h7_offset = 0, h7_p = 0\<rparr>"

definition flow_set_zero :: dn_flow_set where
  "flow_set_zero = \<lparr>fo_next = 0, fo_fs_nr = 0, fo_flags_fs = 0, fo_pipe = 0, fo_parent_nr = 0, fo_weight = 0, fo_qsize = 0,
     fo_plr = 0, fo_flow_mask = fid_zero, fo_rq_size = 0, fo_rq_elements = 0, fo_rq = 0, fo_last_expired = 0,
     fo_backlogged = 0, fo_w_q = 0, fo_max_th = 0, fo_min_th = 0, fo_max_p = 0, fo_c_1 = 0, fo_c_2 = 0, fo_c_3 = 0,
     fo_c_4 = 0, fo_w_q_lookup = 0, fo_lookup_depth = 0, fo_lookup_step = 0, fo_lookup_weight = 0,
     fo_avg_pkt_size = 0, fo_max_pkt_size = 0\<rparr>"

definition queue7_zero :: dn_flow_queue7 where
  "queue7_zero = \<lparr>f7_next = 0, f7_id = fid_zero, f7_head = 0, f7_tail = 0, f7_len = 0, f7_len_bytes = 0, f7_numbytes = 0,
     f7_tot_pkts = 0, f7_tot_bytes = 0, f7_drops = 0, f7_hash_slot = 0, f7_avg = 0, f7_count = 0, f7_random = 0,
     f7_q_time = 0, f7_fs = 0, f7_heap_pos = 0, f7_sched_time = 0, f7_S = 0, f7_F = 0\<rparr>"

definition queue8_zero :: dn_flow_queue8 where
  "queue8_zero = \<lparr>f8_next = 0, f8_id = fid_zero, f8_head = 0, f8_tail = 0, f8_len = 0, f8_len_bytes = 0, f8_numbytes = 0,
     f8_extra_bits = 0, f8_tot_pkts = 0, f8_tot_bytes = 0, f8_drops = 0, f8_hash_slot = 0, f8_avg = 0, f8_count = 0,
     f8_random = 0, f8_idle_time = 0, f8_fs = 0, f8_heap_pos = 0, f8_sched_time = 0, f8_S = 0, f8_F = 0\<rparr>"

definition pipe7_zero :: dn_pipe7 where
  "pipe7_zero = \<lparr>p7_next = 0, p7_pipe_nr = 0, p7_bandwidth = 0, p7_delay = 0, p7_head = 0, p7_tail = 0,
     p7_scheduler_heap = heap7_zero, p7_not_eligible_heap = heap7_zero, p7_idle_heap = heap7_zero, p7_V = 0, p7_sum = 0,
     p7_numbytes = 0, p7_sched_time = 0, p7_if_name = [], p7_ifp = 0, p7_ready = 0, p7_fs = flow_set_zero\<rparr>"

definition pipe8_zero :: dn_pipe8 where
  "pipe8_zero = \<lparr>p8_next = 0, p8_pipe_nr = 0, p8_bandwidth = 0, p8_delay = 0, p8_head = 0, p8_tail = 0,
     p8_scheduler_heap = heap7_zero, p8_not_eligible_heap = heap7_zero, p8_idle_heap = heap7_zero, p8_V = 0, p8_sum = 0,
     p8_numbytes = 0, p8_burst = 0, p8_sched_time = 0, p8_idle_time = 0, p8_if_name = [], p8_ifp = 0, p8_ready = 0,
     p8_fs = flow_set_zero, p8_name = [], p8_loss_level = 0, p8_samples_no = 0, p8_samples = 0\<rparr>"

section \<open>Flags\<close>

definition DNOLD_HAVE_FLOW_MASK :: u32 where "DNOLD_HAVE_FLOW_MASK = 0x0001"
definition DNOLD_IS_RED :: u32 where "DNOLD_IS_RED = 0x0002"
definition DNOLD_IS_GENTLE_RED :: u32 where "DNOLD_IS_GENTLE_RED = 0x0004"
definition DNOLD_QSIZE_IS_BYTES :: u32 where "DNOLD_QSIZE_IS_BYTES = 0x0008"
definition DNOLD_NOERROR :: u32 where "DNOLD_NOERROR = 0x0010"
definition DNOLD_HAS_PROFILE :: u32 where "DNOLD_HAS_PROFILE = 0x0020"
definition DN_IS_PIPE :: u64 where "DN_IS_PIPE = 0x4000"
definition DN_IS_QUEUE :: u64 where "DN_IS_QUEUE = 0x8000"

lemmas old_flag_defs = DNOLD_HAVE_FLOW_MASK_def DNOLD_IS_RED_def DNOLD_IS_GENTLE_RED_def DNOLD_QSIZE_IS_BYTES_def
  DNOLD_NOERROR_def DNOLD_HAS_PROFILE_def

text \<open>If \<open>src\<close> has flag \<open>a\<close>, then \<open>b\<close> is added to \<open>dst\<close>.\<close>

definition conv_flag :: "u32 \<Rightarrow> u32 \<Rightarrow> u32 \<Rightarrow> u32 \<Rightarrow> u32" where
  "conv_flag src a b dst = (if src AND a \<noteq> 0 then dst OR b else dst)"

definition convertflags2new :: "u32 \<Rightarrow> u32" where
  "convertflags2new src =
     conv_flag src DNOLD_HAS_PROFILE DN_HAS_PROFILE
       (conv_flag src DNOLD_IS_GENTLE_RED DN_IS_GENTLE_RED
         (conv_flag src DNOLD_IS_RED DN_IS_RED
           (conv_flag src DNOLD_NOERROR DN_NOERROR
             (conv_flag src DNOLD_QSIZE_IS_BYTES DN_QSIZE_BYTES
               (conv_flag src DNOLD_HAVE_FLOW_MASK DN_HAVE_MASK 0)))))"

definition convertflags2old :: "u32 \<Rightarrow> u32" where
  "convertflags2old src =
     conv_flag src DN_QSIZE_BYTES DNOLD_QSIZE_IS_BYTES
       (conv_flag src DN_HAS_PROFILE DNOLD_HAS_PROFILE
         (conv_flag src DN_NOERROR DNOLD_NOERROR
           (conv_flag src DN_IS_GENTLE_RED DNOLD_IS_GENTLE_RED
             (conv_flag src DN_IS_RED DNOLD_IS_RED
               (conv_flag src DN_HAVE_MASK DNOLD_HAVE_FLOW_MASK 0)))))"

section \<open>Requests\<close>

text \<open>
  A request: its length, and its bytes read as either structure. Reading through a pointer to a structure longer
  than the request is an access outside it.
\<close>

record old_req =
  or_len :: nat
  or_p7 :: dn_pipe7
  or_p8 :: dn_pipe8

definition req_p7 :: "old_req \<Rightarrow> dn_pipe7 option" where
  "req_p7 r = (if pipesize7 \<le> or_len r then Some (or_p7 r) else None)"

definition req_p8 :: "old_req \<Rightarrow> dn_pipe8 option" where
  "req_p8 r = (if pipesize8 \<le> or_len r then Some (or_p8 r) else None)"

definition req_fs :: "bool \<Rightarrow> old_req \<Rightarrow> dn_flow_set option" where
  "req_fs is7 r = (if is7 then map_option p7_fs (req_p7 r) else map_option p8_fs (req_p8 r))"

definition oid_fill :: "nat \<Rightarrow> u8 \<Rightarrow> u32 \<Rightarrow> dn_id" where
  "oid_fill len type i = \<lparr>id_len = of_nat len, id_type = type, id_subtype = 0, id_id = i\<rparr>"

definition msg_zero :: dn_msg where
  "msg_zero = \<lparr>ms_oid = oid_zero, ms_link = link_zero, ms_fs = fs_zero, ms_sch = sch_zero, ms_profile = pf_zero, ms_arg = 0\<rparr>"

text \<open>An object in the zeroed buffer, with its header.\<close>

definition o_next :: "nat \<Rightarrow> u8 \<Rightarrow> dn_msg" where
  "o_next len type = msg_zero\<lparr>ms_oid := oid_fill len type 0\<rparr>"

text \<open>The messages one after the other.\<close>

primrec lay :: "nat \<Rightarrow> dn_msg list \<Rightarrow> nat \<Rightarrow> dn_msg" where
  "lay off [] = (\<lambda>_. msg_zero)"
| "lay off (m # ms) = (lay (off + unat (id_len (ms_oid m))) ms)(off := m)"

definition dn_compat_del :: "'x algs \<Rightarrow> bool \<Rightarrow> old_req \<Rightarrow> 'x dn_sys \<Rightarrow> (nat \<times> 'x dn_sys) option" where
  "dn_compat_del al is7 r s = do {
     p \<leftarrow> req_p7 r;
     f \<leftarrow> req_fs is7 r;
     nr \<leftarrow> (if is7 then Some (p7_pipe_nr p) else map_option p8_pipe_nr (req_p8 r));
     if nr = 0 \<and> fo_fs_nr f = 0 then Some (EINVAL, s)
     else if nr \<noteq> 0 \<and> fo_fs_nr f \<noteq> 0 then Some (EINVAL, s)
     else
       let oid = oid_fill (sizeof_dn_id + sizeof_uintptr) DN_CMD_DELETE DN_API_VERSION;
           cmd = (if p7_pipe_nr p \<noteq> 0 then msg_zero\<lparr>ms_oid := oid\<lparr>id_subtype := DN_LINK\<rparr>, ms_arg := word_of_int (p7_pipe_nr p)\<rparr>
                  else msg_zero\<lparr>ms_oid := oid\<lparr>id_subtype := DN_FS\<rparr>, ms_arg := ucast (fo_fs_nr f)\<rparr>)
       in do_config al (lay 0 [cmd]) (sizeof_dn_id + sizeof_uintptr) s
   }"

abbreviation u32_of :: "int \<Rightarrow> nat" where
  "u32_of x \<equiv> unat (word_of_int x :: u32)"

definition dn_compat_config_queue :: "dn_flow_set \<Rightarrow> dn_fs \<Rightarrow> dn_fs" where
  "dn_compat_config_queue f fs =
     (let fs = fs\<lparr>fs_nr := unat (fo_fs_nr f), fs_sched_nr := unat (fo_parent_nr f), flow_mask := fo_flow_mask f,
            fs_buckets := u32_of (fo_rq_size f), qsize := fo_qsize f, plr := fo_plr f,
            fs_par := (fs_par fs)(0 := fo_weight f), fs_flags := convertflags2new (ucast (fo_flags_fs f))\<rparr>
      in if fs_flags fs AND DN_IS_GENTLE_RED \<noteq> 0 \<or> fs_flags fs AND DN_IS_RED \<noteq> 0
         then fs\<lparr>fs_w_q := fo_w_q f, fs_max_th := fo_max_th f, fs_min_th := fo_min_th f, fs_max_p := fo_max_p f\<rparr>
         else fs)"

definition dn_compat_config_pipe ::
  "bool \<Rightarrow> dn_pipe7 \<Rightarrow> dn_pipe8 option \<Rightarrow> dn_flow_set \<Rightarrow> dn_sch \<Rightarrow> dn_link \<Rightarrow> dn_fs \<Rightarrow> (dn_sch \<times> dn_link \<times> dn_fs) option" where
  "dn_compat_config_pipe is7 p7 p8 f sch p fs =
     (let i = p7_pipe_nr p7;
          sch = sch\<lparr>sch_nr := u32_of i, sch_oid := (sch_oid sch)\<lparr>id_subtype := 0\<rparr>\<rparr>;
          p = p\<lparr>link_nr := i, bandwidth := p7_bandwidth p7, delay := p7_delay p7\<rparr>
      in do {
        p \<leftarrow> (if is7 then Some p else map_option (\<lambda>p8. p\<lparr>burst := p8_burst p8\<rparr>) p8);
        let fs = (dn_compat_config_queue f fs)\<lparr>fs_nr := u32_of (i + 2 * int DN_MAX_ID), fs_sched_nr := u32_of (i + int DN_MAX_ID)\<rparr>;
        let sch = sch\<lparr>sch_buckets := fs_buckets fs\<rparr>;
        let fs = fs\<lparr>fs_buckets := 0\<rparr>;
        Some (if fs_flags fs AND DN_HAVE_MASK \<noteq> 0
              then (sch\<lparr>sch_flags := sch_flags sch OR DN_HAVE_MASK, sched_mask := flow_mask fs\<rparr>, p,
                    fs\<lparr>fs_flags := fs_flags fs AND NOT DN_HAVE_MASK, flow_mask := fid_zero\<rparr>)
              else (sch, p, fs))
      })"

text \<open>\<open>sizeof(pf->samples)\<close> is the size of an array without elements: no sample is copied.\<close>

definition dn_compat_config_profile :: "dn_pipe8 \<Rightarrow> dn_link \<Rightarrow> dn_profile \<Rightarrow> dn_profile" where
  "dn_compat_config_profile p8 p pf =
     pf\<lparr>pf_link_nr := link_nr p, loss_level := p8_loss_level p8, samples_no := p8_samples_no p8,
        pf_name := take ED_MAX_NAME_LEN (p8_name p8)\<rparr>"

text \<open>The messages of a request.\<close>

definition compat_msgs :: "bool \<Rightarrow> old_req \<Rightarrow> dn_msg list option" where
  "compat_msgs is7 r = do {
     p7 \<leftarrow> req_p7 r;
     f \<leftarrow> req_fs is7 r;
     let hd1 = (o_next sizeof_dn_id DN_CMD_CONFIG)\<lparr>ms_oid := oid_fill sizeof_dn_id DN_CMD_CONFIG DN_API_VERSION\<rparr>;
     let sch = o_next sizeof_dn_sch DN_SCH;
     let p = o_next sizeof_dn_link DN_LINK;
     let fs = o_next sizeof_dn_fs DN_FS;
     let pf = o_next sizeof_dn_profile DN_PROFILE;
     if p7_pipe_nr p7 \<noteq> 0 then do {
       (c, l, g) \<leftarrow> dn_compat_config_pipe is7 p7 (req_p8 r) f (ms_sch sch) (ms_link p) (ms_fs fs);
       let ms = [hd1, sch\<lparr>ms_sch := c\<rparr>, p\<lparr>ms_link := l\<rparr>, fs\<lparr>ms_fs := g\<rparr>];
       if is7 then Some ms
       else map_option (\<lambda>p8. if 0 < p8_samples_no p8
                             then ms @ [pf\<lparr>ms_profile := dn_compat_config_profile p8 l (ms_profile pf)\<rparr>] else ms) (req_p8 r)
     }
     else Some [hd1, fs\<lparr>ms_fs := dn_compat_config_queue f (ms_fs fs)\<rparr>]
   }"

text \<open>The second result is the distance of the pointer that is freed at the end from the memory allocated.\<close>

definition dn_compat_configure :: "'x algs \<Rightarrow> bool \<Rightarrow> old_req \<Rightarrow> 'x dn_sys \<Rightarrow> (nat \<times> nat \<times> 'x dn_sys) option" where
  "dn_compat_configure al is7 r s = do {
     ms \<leftarrow> compat_msgs is7 r;
     let off = sum_list (map (\<lambda>m. unat (id_len (ms_oid m))) ms);
     (err, s) \<leftarrow> do_config al (lay 0 ms) off s;
     Some (err, off, s)
   }"

datatype compat_opt = IP_DUMMYNET_FLUSH | IP_DUMMYNET_DEL | IP_DUMMYNET_CONFIGURE

definition find_version :: "nat \<Rightarrow> bool \<Rightarrow> bool" where
  "find_version len is7 = (if len = pipesize7 then True else if len = pipesize8 \<or> len = pipesizemax8 then False else is7)"

text \<open>The options that change the objects; \<open>copyin\<close> is the outcome of the copy from user space.\<close>

definition ip_dummynet_compat ::
  "'x algs \<Rightarrow> nat \<Rightarrow> compat_opt \<Rightarrow> old_req \<Rightarrow> bool \<times> 'x dn_sys \<Rightarrow> (nat \<times> bool \<times> 'x dn_sys) option" where
  "ip_dummynet_compat al copyin opt r gs =
     (let is7 = find_version (or_len r) (fst gs); s = snd gs in
      case opt of
        IP_DUMMYNET_FLUSH \<Rightarrow>
          map_option (\<lambda>(err, s). (0, is7, s))
            (do_config al (lay 0 [msg_zero\<lparr>ms_oid := oid_fill sizeof_dn_id DN_CMD_FLUSH DN_API_VERSION\<rparr>]) sizeof_dn_id s)
      | IP_DUMMYNET_DEL \<Rightarrow>
          if copyin \<noteq> 0 then Some (copyin, is7, s) else map_option (\<lambda>(err, s). (err, is7, s)) (dn_compat_del al is7 r s)
      | IP_DUMMYNET_CONFIGURE \<Rightarrow>
          if copyin \<noteq> 0 then Some (copyin, is7, s)
          else map_option (\<lambda>(err, off, s). (err, is7, s)) (dn_compat_configure al is7 r s))"

end
