(* ===== verification/DnGet.thy ===== *)
theory DnGet
  imports DnGlue
begin

text \<open>
  The export of the objects to userland (\<open>copy_*\<close>, \<open>compute_space\<close>, \<open>dummynet_get\<close> of
  \<open>sys/netinet/ipfw/ip_dummynet.c\<close>). The buffer is the sequence of objects written to it and the room left, in
  bytes; the headers say how long the objects are. \<open>None\<close> is an access outside the objects or the buffer, a
  table taken for an object or the other way round, or an unlock of a lock that is not held.
\<close>

section \<open>The buffer\<close>

datatype ex_obj =
    XId dn_id | XLink dn_link | XProfile dn_profile | XFs dn_fs | XSch dn_sch | XFlow dn_flow | XText dn_id "u32 list" |
    XPart nat ex_obj

text \<open>
  \<open>XPart n x\<close> stands for \<open>n\<close> bytes copied from the address of \<open>x\<close>, when the header of \<open>x\<close> gives a length that is not
  that of the structure: only its beginning, or also what lies behind it in the memory of the kernel.
\<close>

fun ex_oid :: "ex_obj \<Rightarrow> dn_id" where
  "ex_oid (XId o1) = o1"
| "ex_oid (XLink p) = link_oid p"
| "ex_oid (XProfile p) = pf_oid p"
| "ex_oid (XFs f) = fs_oid f"
| "ex_oid (XSch c) = sch_oid c"
| "ex_oid (XFlow n) = fl_oid n"
| "ex_oid (XText o1 ns) = o1"
| "ex_oid (XPart n x) = ex_oid x"

fun set_ex_oid :: "(dn_id \<Rightarrow> dn_id) \<Rightarrow> ex_obj \<Rightarrow> ex_obj" where
  "set_ex_oid h (XId o1) = XId (h o1)"
| "set_ex_oid h (XLink p) = XLink (p\<lparr>link_oid := h (link_oid p)\<rparr>)"
| "set_ex_oid h (XProfile p) = XProfile (p\<lparr>pf_oid := h (pf_oid p)\<rparr>)"
| "set_ex_oid h (XFs f) = XFs (f\<lparr>fs_oid := h (fs_oid f)\<rparr>)"
| "set_ex_oid h (XSch c) = XSch (c\<lparr>sch_oid := h (sch_oid c)\<rparr>)"
| "set_ex_oid h (XFlow n) = XFlow (n\<lparr>fl_oid := h (fl_oid n)\<rparr>)"
| "set_ex_oid h (XText o1 ns) = XText (h o1) ns"
| "set_ex_oid h (XPart n x) = XPart n (set_ex_oid h x)"

text \<open>The bytes in the buffer, and the types the headers of the objects copied with \<open>copy_obj\<close> are made with.\<close>

fun ex_size :: "ex_obj \<Rightarrow> nat" where
  "ex_size (XId _) = sizeof_dn_id"
| "ex_size (XLink _) = sizeof_dn_link"
| "ex_size (XProfile _) = sizeof_dn_profile"
| "ex_size (XFs _) = sizeof_dn_fs"
| "ex_size (XSch _) = sizeof_dn_sch"
| "ex_size (XFlow _) = sizeof_dn_flow"
| "ex_size (XText _ ns) = sizeof_dn_id + 4 * length ns"
| "ex_size (XPart n _) = n"

fun ex_kind :: "ex_obj \<Rightarrow> u8" where
  "ex_kind (XId _) = 0"
| "ex_kind (XLink _) = DN_LINK"
| "ex_kind (XProfile _) = DN_PROFILE"
| "ex_kind (XFs _) = DN_FS"
| "ex_kind (XSch _) = DN_SCH"
| "ex_kind (XFlow _) = DN_SCH_I"
| "ex_kind (XText _ _) = DN_TEXT"
| "ex_kind (XPart _ x) = ex_kind x"

record cbuf =
  cb_have :: int
  cb_out :: "ex_obj list"

definition cb_put :: "ex_obj \<Rightarrow> cbuf \<Rightarrow> cbuf" where
  "cb_put x b = b\<lparr>cb_have := cb_have b - int (ex_size x), cb_out := cb_out b @ [x]\<rparr>"

text \<open>A header written through a pointer saved before the copy.\<close>

definition set_last :: "(dn_id \<Rightarrow> dn_id) \<Rightarrow> cbuf \<Rightarrow> cbuf" where
  "set_last h b = b\<lparr>cb_out := butlast (cb_out b) @ [set_ex_oid h (last (cb_out b))]\<rparr>"

text \<open>The entries of a table of queues or instances, or one for a single object.\<close>

definition objs_count :: "bool \<Rightarrow> objs \<Rightarrow> nat option" where
  "objs_count hash x =
     (case x of NoObj \<Rightarrow> Some 0
      | OneObj _ \<Rightarrow> if hash then None else Some 1
      | Table t \<Rightarrow> Some (if hash then tab_entries (Some t) else 1))"

definition objs_scan :: "bool \<Rightarrow> objs \<Rightarrow> (nat \<Rightarrow> cbuf \<Rightarrow> (nat \<times> cbuf) option) \<Rightarrow> cbuf \<Rightarrow> cbuf option" where
  "objs_scan hash x cb b =
     (case x of NoObj \<Rightarrow> Some b
      | OneObj q \<Rightarrow> if hash then None else map_option snd (cb q b)
      | Table t \<Rightarrow> if hash then map_option snd (tab_scan cb t b) else None)"

section \<open>Copying objects\<close>

text \<open>
  As many bytes are copied as the header of the object says, whatever the object is. What is then changed in the
  copy depends on the type in the header: taking the object for a link or a scheduler when it is none, dividing by
  zero and writing behind the end of the buffer are \<open>None\<close>. \<open>n\<close> is the number of instances, for a scheduler.
\<close>

definition ex_cut :: "nat \<Rightarrow> ex_obj \<Rightarrow> ex_obj" where
  "ex_cut len x = (if len = ex_size x then x else XPart len x)"

definition ex_adjust :: "int \<Rightarrow> nat \<Rightarrow> int \<Rightarrow> ex_obj \<Rightarrow> ex_obj option" where
  "ex_adjust hzv n have x =
     (if id_type (ex_oid x) = DN_LINK then
        (case x of
           XLink p \<Rightarrow>
             if s32 (8 * hzv) = 0 \<or> have < int sizeof_dn_link then None
             else Some (XLink (p\<lparr>burst := word_of_int (div64 (uint (burst p)) (s32 (8 * hzv)))\<rparr>))
         | _ \<Rightarrow> None)
      else if id_type (ex_oid x) = DN_SCH then
        (case x of
           XSch c \<Rightarrow> if have < int sizeof_dn_id then None else Some (set_ex_oid (\<lambda>o1. o1\<lparr>id_id := of_nat n\<rparr>) x)
         | _ \<Rightarrow> None)
      else Some x)"

definition copy_obj :: "int \<Rightarrow> nat \<Rightarrow> ex_obj \<Rightarrow> cbuf \<Rightarrow> (nat \<times> cbuf) option" where
  "copy_obj hzv n x b =
     (let o1 = ex_oid x; len = unat (id_len o1)
      in if cb_have b < int len \<or> len = 0 \<or> id_type o1 = 0 then Some (1, b)
         else map_option (\<lambda>y. (0, cb_put (ex_cut len y) b)) (ex_adjust hzv n (cb_have b) x))"

definition copy_obj_q :: "dn_flow \<Rightarrow> cbuf \<Rightarrow> nat \<times> cbuf" where
  "copy_obj_q ni b =
     (if cb_have b < int sizeof_dn_flow \<or> id_len (fl_oid ni) = 0 \<or> id_type (fl_oid ni) \<noteq> DN_QUEUE then (1, b)
      else (0, cb_put (set_ex_oid (\<lambda>o1. o1\<lparr>id_len := of_nat sizeof_dn_flow\<rparr>) (XFlow ni)) b))"

definition copy_q_cb :: "'x dn_env_scheme \<Rightarrow> qid \<Rightarrow> cbuf \<Rightarrow> (nat \<times> cbuf) option" where
  "copy_q_cb e q b =
     (case copy_obj_q (q_ni (qs e q)) b of (err, b) \<Rightarrow>
        if err \<noteq> 0 then Some (DNHT_SCAN_END, b)
        else Some (0, set_last (\<lambda>o1. o1\<lparr>id_type := DN_FLOW, id_id := flow_id_hash (fid (q_ni (qs e q)))\<rparr>) b))"

definition copy_q :: "'x dn_env_scheme \<Rightarrow> fsid \<Rightarrow> cbuf \<Rightarrow> cbuf option" where
  "copy_q e f = objs_scan (fs_flags (fsk_fs (fsks e f)) AND DN_QHT_HASH \<noteq> 0) (qht (fsks e f)) (copy_q_cb e)"

definition copy_profile :: "dn_profile option \<Rightarrow> cbuf \<Rightarrow> nat \<times> cbuf" where
  "copy_profile p b =
     (case p of None \<Rightarrow> (0, b)
      | Some p \<Rightarrow>
          if cb_have b < int sizeof_dn_profile then (1, b)
          else (0, cb_put (XProfile (p\<lparr>pf_oid := (pf_oid p)\<lparr>id_len := of_nat sizeof_dn_profile\<rparr>, samples := []\<rparr>)) b))"

definition copy_flowset :: "int \<Rightarrow> 'x dn_env_scheme \<Rightarrow> fsid option \<Rightarrow> bool \<Rightarrow> cbuf \<Rightarrow> (nat \<times> cbuf) option" where
  "copy_flowset hzv e f flags b =
     (case f of None \<Rightarrow> Some (0, b)
      | Some f \<Rightarrow> do {
          let room = cb_have b;
          (err, b) \<leftarrow> copy_obj hzv 0 (XFs (fsk_fs (fsks e f))) b;
          if err \<noteq> 0 then Some (DNHT_SCAN_END, b)
          else if room < int sizeof_dn_id then None
          else do {
            n \<leftarrow> objs_count (fs_flags (fsk_fs (fsks e f)) AND DN_QHT_HASH \<noteq> 0) (qht (fsks e f));
            let b = set_last (\<lambda>o1. o1\<lparr>id_id := of_nat n\<rparr>) b;
            b \<leftarrow> (if flags then copy_q e f b else Some b);
            Some (0, b)
          }
        })"

definition copy_si_cb :: "int \<Rightarrow> 'x dn_env_scheme \<Rightarrow> siid \<Rightarrow> cbuf \<Rightarrow> (nat \<times> cbuf) option" where
  "copy_si_cb hzv e i b = do {
     let room = cb_have b;
     (err, b) \<leftarrow> copy_obj hzv 0 (XFlow (si_ni (sis e i))) b;
     if err \<noteq> 0 then Some (DNHT_SCAN_END, b)
     else if room < int sizeof_dn_id then None
     else Some (0, set_last (\<lambda>o1. o1\<lparr>id_type := DN_FLOW, id_id := flow_id_hash (fid (si_ni (sis e i)))\<rparr>) b)
   }"

definition copy_si :: "int \<Rightarrow> 'x dn_env_scheme \<Rightarrow> schid \<Rightarrow> cbuf \<Rightarrow> cbuf option" where
  "copy_si hzv e k = objs_scan (sch_flags (sk_sch (schks e k)) AND DN_HAVE_MASK \<noteq> 0) (siht (schks e k)) (copy_si_cb hzv e)"

text \<open>The length of the list is kept in 16 bits: with a longer one the next object would overlap the list.\<close>

definition copy_fsk_list :: "'x dn_env_scheme \<Rightarrow> schid \<Rightarrow> cbuf \<Rightarrow> (nat \<times> cbuf) option" where
  "copy_fsk_list e k b =
     (let ns = filter (\<lambda>n. n < DN_MAX_ID) (map (\<lambda>f. fs_nr (fsk_fs (fsks e f))) (fsk_list (schks e k)));
          space = sizeof_dn_id + length ns * 4
      in if cb_have b < int space then Some (DNHT_SCAN_END, b)
         else if 2 ^ 16 \<le> space then None
         else Some (0, cb_put (XText \<lparr>id_len = of_nat space, id_type = DN_TEXT, id_subtype = 0, id_id = 0\<rparr> (map of_nat ns)) b))"

section \<open>Requests\<close>

definition DN_C_LINK :: u32 where "DN_C_LINK = 0x01"
definition DN_C_SCH :: u32 where "DN_C_SCH = 0x02"
definition DN_C_FLOW :: u32 where "DN_C_FLOW = 0x04"
definition DN_C_FS :: u32 where "DN_C_FS = 0x08"
definition DN_C_QUEUE :: u32 where "DN_C_QUEUE = 0x10"
definition DN_GET_COMPAT :: u8 where "DN_GET_COMPAT = 0x86"
definition DEFAULT_RANGES :: nat where "DEFAULT_RANGES = 5"

text \<open>
  A request: the header and the words behind it, of which \<open>words\<close> can be read (\<open>None\<close> beyond the memory). A
  range that starts before the end of the request is used.
\<close>

record get_cmd =
  gc_oid :: dn_id
  gc_words :: "nat \<Rightarrow> u32 option"

definition gc_ranges :: "get_cmd \<Rightarrow> nat" where
  "gc_ranges c = (unat (id_len (gc_oid c)) - sizeof_dn_id + 7) div 8"

fun find_range :: "(nat \<Rightarrow> u32 option) \<Rightarrow> u32 \<Rightarrow> nat \<Rightarrow> nat \<Rightarrow> bool option" where
  "find_range ws n j 0 = Some False"
| "find_range ws n j (Suc k) = do {
     a \<leftarrow> ws (2 * j);
     if n < a then find_range ws n (Suc j) k
     else do {
       z \<leftarrow> ws (2 * j + 1);
       if z < n then find_range ws n (Suc j) k else Some True
     }
   }"

definition in_ranges :: "get_cmd \<Rightarrow> nat \<Rightarrow> bool option" where
  "in_ranges c n = find_range (gc_words c) (of_nat n) 0 (gc_ranges c)"

text \<open>The parts of \<open>copy_data_helper\<close> for an object in a range; the result is the return value.\<close>

definition copy_link_part :: "int \<Rightarrow> 'x dn_env_scheme \<Rightarrow> schid \<Rightarrow> cbuf \<Rightarrow> (nat \<times> cbuf) option" where
  "copy_link_part hzv e k b = do {
     (err, b) \<leftarrow> copy_obj hzv 0 (XLink (sk_link (schks e k))) b;
     if err \<noteq> 0 then Some (DNHT_SCAN_END, b)
     else (case copy_profile (sk_profile (schks e k)) b of (err, b) \<Rightarrow>
       if err \<noteq> 0 then Some (DNHT_SCAN_END, b)
       else do {
         (err, b) \<leftarrow> copy_flowset hzv e (sk_fs (schks e k)) False b;
         Some (if err \<noteq> 0 then DNHT_SCAN_END else 0, b)
       })
   }"

definition copy_sch_part :: "int \<Rightarrow> 'x dn_env_scheme \<Rightarrow> schid \<Rightarrow> cbuf \<Rightarrow> (nat \<times> cbuf) option" where
  "copy_sch_part hzv e k b = do {
     n \<leftarrow> objs_count (sch_flags (sk_sch (schks e k)) AND DN_HAVE_MASK \<noteq> 0) (siht (schks e k));
     (err, b) \<leftarrow> copy_obj hzv n (XSch (sk_sch (schks e k))) b;
     if err \<noteq> 0 then Some (DNHT_SCAN_END, b)
     else do {
       (err, b) \<leftarrow> copy_fsk_list e k b;
       Some (if err \<noteq> 0 then DNHT_SCAN_END else 0, b)
     }
   }"

definition copy_schk :: "u32 \<Rightarrow> int \<Rightarrow> 'x dn_env_scheme \<Rightarrow> schid \<Rightarrow> cbuf \<Rightarrow> (nat \<times> cbuf) option" where
  "copy_schk flags hzv e k b = do {
     (r, b) \<leftarrow> (if flags AND DN_C_LINK \<noteq> 0 then copy_link_part hzv e k b else Some (0, b));
     if r \<noteq> 0 then Some (r, b)
     else do {
       (r, b) \<leftarrow> (if flags AND DN_C_SCH \<noteq> 0 then copy_sch_part hzv e k b else Some (0, b));
       if r \<noteq> 0 then Some (r, b)
       else do {
         b \<leftarrow> (if flags AND DN_C_FLOW \<noteq> 0 then copy_si hzv e k b else Some b);
         Some (0, b)
       }
     }
   }"

definition copy_data_sch :: "u8 \<Rightarrow> u32 \<Rightarrow> get_cmd \<Rightarrow> int \<Rightarrow> 'x dn_env_scheme \<Rightarrow> schid \<Rightarrow> cbuf \<Rightarrow> (nat \<times> cbuf) option" where
  "copy_data_sch type flags c hzv e k b =
     (let n = sch_nr (sk_sch (schks e k))
      in if type \<noteq> DN_LINK \<and> type \<noteq> DN_SCH then Some (0, b)
         else if type = DN_SCH \<and> DN_MAX_ID \<le> n \<or> type = DN_LINK \<and> n \<le> DN_MAX_ID then Some (0, b)
         else do { ok \<leftarrow> in_ranges c n; if ok then copy_schk flags hzv e k b else Some (0, b) })"

definition copy_data_fs :: "get_cmd \<Rightarrow> int \<Rightarrow> 'x dn_env_scheme \<Rightarrow> fsid \<Rightarrow> cbuf \<Rightarrow> (nat \<times> cbuf) option" where
  "copy_data_fs c hzv e f b =
     (let n = fs_nr (fsk_fs (fsks e f))
      in if DN_MAX_ID \<le> n then Some (0, b)
         else do {
           ok \<leftarrow> in_ranges c n;
           if ok then do {
             (err, b) \<leftarrow> copy_flowset hzv e (Some f) False b;
             if err \<noteq> 0 then Some (DNHT_SCAN_END, b) else do { b \<leftarrow> copy_q e f b; Some (0, b) }
           } else Some (0, b)
         })"

text \<open>A count times a size, computed in 64 bits, halved or not, and added to an \<open>int\<close>.\<close>

definition add_space :: "int \<Rightarrow> nat \<Rightarrow> nat \<Rightarrow> int \<Rightarrow> int" where
  "add_space cnt sz dv need = s32 (need + uint ((word_of_int cnt :: u64) * of_nat sz div of_nat dv))"


definition dn_compat_calc_size :: "'x dn_sys \<Rightarrow> int" where
  "dn_compat_calc_size s =
     add_space (queue_count s) sizeof_dn_flow_queue8 1 (add_space (si_count s) sizeof_dn_flow_queue8 1
       (add_space (fsk_count s) sizeof_dn_flow_set 1 (add_space (schk_count s) pipesize8 2 0)))"

definition compute_space :: "u8 \<Rightarrow> u32 \<Rightarrow> 'x dn_sys \<Rightarrow> int \<times> u32" where
  "compute_space sub flags s =
     (if sub = DN_LINK \<or> sub = DN_SCH then
        let need = add_space (fsk_count s) 4 1 (add_space (schk_count s) (sizeof_dn_fs + sizeof_dn_profile) 2 0);
            need = add_space (schk_count s) sizeof_dn_id 2 (add_space (schk_count s) sizeof_dn_sch 2 need);
            need = add_space (schk_count s) sizeof_dn_link 2 need
        in (add_space (si_count s) sizeof_dn_flow 1 need, DN_C_LINK OR DN_C_SCH OR DN_C_FLOW)
      else if sub = DN_FS then
        let need = add_space (fsk_count s) sizeof_dn_fs 1 0
        in (add_space (queue_count s) sizeof_dn_flow 1 need, DN_C_FS OR DN_C_QUEUE)
      else if sub = DN_GET_COMPAT then (dn_compat_calc_size s, 0)
      else (-1, flags))"

section \<open>\<open>dummynet_get\<close>\<close>

text \<open>
  The space is computed with the lock held and allocated without it, so that other threads may change the
  objects in between: \<open>ss i\<close> is the state found the \<open>i\<close>-th time the lock is taken. After ten attempts the loop is
  left with a buffer, but without the lock.
\<close>

datatype get_buf = GetInvalid | GetSmall int | GetRoom nat int int | GetUnlocked

fun get_buffer :: "(nat \<Rightarrow> 'x dn_sys) \<Rightarrow> ('x dn_sys \<Rightarrow> int) \<Rightarrow> nat \<Rightarrow> nat \<Rightarrow> nat \<Rightarrow> int \<Rightarrow> get_buf" where
  "get_buffer ss space valsize i 0 have = GetUnlocked"
| "get_buffer ss space valsize i (Suc k) have =
     (let need = space (ss i)
      in if need < 0 then GetInvalid
         else
           let need = s32 (need + int sizeof_dn_id)
           in if need \<le> have then (if have = 0 then GetUnlocked else GetRoom i have need)
              else if int valsize < need then GetSmall need
              else get_buffer ss space valsize (Suc i) k need)"

definition with_range :: "get_cmd \<Rightarrow> get_cmd" where
  "with_range c =
     (if unat (id_len (gc_oid c)) = sizeof_dn_id then
        let base = (if id_subtype (gc_oid c) = DN_LINK then of_nat DN_MAX_ID else 0)
        in c\<lparr>gc_oid := (gc_oid c)\<lparr>id_len := of_nat (sizeof_dn_id + 8)\<rparr>,
             gc_words := (gc_words c)(0 := Some (1 + base), 1 := Some (of_nat DN_MAX_ID - 1 + base))\<rparr>
      else c)"

definition get_space :: "nat \<Rightarrow> nat \<Rightarrow> u8 \<Rightarrow> 'x dn_sys \<Rightarrow> int" where
  "get_space l valsize sub s =
     (if sizeof_dn_id < l then s32 (int valsize - int sizeof_dn_id) else fst (compute_space sub 0 s))"

definition get_objects :: "get_cmd \<Rightarrow> int \<Rightarrow> int \<Rightarrow> 'x dn_sys \<Rightarrow> ex_obj list option" where
  "get_objects c have need s =
     (let sub = id_subtype (gc_oid c);
          hd1 = (gc_oid c)\<lparr>id_id := word_of_int need, id_len := of_nat sizeof_dn_id\<rparr>;
          b = \<lparr>cb_have = have - int sizeof_dn_id, cb_out = [XId hd1]\<rparr>;
          cb = (if sub = DN_FS then copy_data_fs c (hz s) (env s)
                else copy_data_sch sub (snd (compute_space sub 0 s)) c (hz s) (env s))
      in case (if sub = DN_FS then fshash s else schedhash s) of
           None \<Rightarrow> Some (cb_out b)
         | Some t \<Rightarrow> map_option (\<lambda>(t, b). cb_out b) (tab_scan cb t b))"

text \<open>
  A request of the present interface (\<open>compat == NULL\<close>). \<open>in1\<close> and \<open>in2\<close> are the outcomes of the two copies from
  user space, \<open>o1\<close>, \<open>w1\<close> and \<open>o2\<close>, \<open>w2\<close> what they brought: a long request is read twice, and the second time its header may
  have changed. The result is an error, or the bytes given to \<open>sooptcopyout\<close>.
\<close>

definition get_request ::
  "nat \<times> dn_id \<times> (nat \<Rightarrow> u32) \<Rightarrow> nat \<times> dn_id \<times> (nat \<Rightarrow> u32) \<Rightarrow> nat + nat \<times> get_cmd" where
  "get_request req1 req2 =
     (case req1 of (in1, o1, w1) \<Rightarrow> case req2 of (in2, o2, w2) \<Rightarrow>
        let l = unat (id_len o1);
            big = sizeof_dn_id + 4 * (2 * DEFAULT_RANGES) < l;
            c = (if big then \<lparr>gc_oid = o2, gc_words = \<lambda>j. if sizeof_dn_id + 4 * (j + 1) \<le> l then Some (w2 j) else None\<rparr>
                 else \<lparr>gc_oid = o1, gc_words = \<lambda>j. if j < 2 * DEFAULT_RANGES then Some (w1 j) else None\<rparr>)
        in if in1 \<noteq> 0 then Inl in1 else if big \<and> in2 \<noteq> 0 then Inl in2 else Inr (l, with_range c))"

definition dummynet_get ::
  "nat \<times> dn_id \<times> (nat \<Rightarrow> u32) \<Rightarrow> nat \<times> dn_id \<times> (nat \<Rightarrow> u32) \<Rightarrow> nat \<Rightarrow> (nat \<Rightarrow> 'x dn_sys) \<Rightarrow> (nat + ex_obj list) option" where
  "dummynet_get req1 req2 valsize ss =
     (case get_request req1 req2 of
        Inl err \<Rightarrow> Some (Inl err)
      | Inr (l, c) \<Rightarrow>
          (case get_buffer ss (get_space l valsize (id_subtype (gc_oid c))) valsize 0 10 0 of
             GetInvalid \<Rightarrow> Some (Inl EINVAL)
           | GetSmall need \<Rightarrow> Some (Inr [XId ((gc_oid c)\<lparr>id_id := word_of_int need\<rparr>)])
           | GetUnlocked \<Rightarrow> None
           | GetRoom i have need \<Rightarrow> map_option Inr (get_objects c have need (ss i))))"

section \<open>Unloading\<close>

text \<open>
  \<open>ip_dn_destroy\<close> and the handler of module events; the pair is whether the hooks \<open>ip_dn_ctl_ptr\<close> and
  \<open>ip_dn_io_ptr\<close> are set, and the state. Stopping the callout and the task queue is not modelled.
\<close>

definition ip_dn_destroy :: "'x algs \<Rightarrow> bool \<Rightarrow> bool \<times> 'x dn_sys \<Rightarrow> (bool \<times> 'x dn_sys) option" where
  "ip_dn_destroy al lst hs = do {
     let hooked = (fst hs \<and> \<not> lst);
     s \<leftarrow> dummynet_flush al (snd hs);
     Some (hooked, s\<lparr>schedhash := None, fshash := None, evheap := heap_free (evheap s)\<rparr>)
   }"

definition dummynet_modevent ::
  "'x algs \<Rightarrow> int \<times> int \<Rightarrow> bool \<Rightarrow> modcmd \<Rightarrow> bool \<times> 'x dn_sys \<Rightarrow> (nat \<times> bool \<times> 'x dn_sys) option" where
  "dummynet_modevent al tv kld ev hs =
     (case ev of
        MOD_LOAD \<Rightarrow> if fst hs then Some (EEXIST, hs) else Some (0, True, ip_dn_init tv (snd hs))
      | MOD_UNLOAD \<Rightarrow> if \<not> kld then Some (EINVAL, hs) else map_option (\<lambda>hs. (0, hs)) (ip_dn_destroy al True hs)
      | ModOther \<Rightarrow> Some (EOPNOTSUPP, hs))"

end
