(* ===== verification/DnGetOk.thy ===== *)
theory DnGetOk
  imports DnGet DnTab
begin

text \<open>
  What a request for the objects gives back: a sequence of well-formed objects that fits in the buffer, and,
  when the counters that the space is computed from are right, all the flowsets with all their queues.
\<close>

section \<open>The buffer\<close>

lemma set_ex_oid_simps [simp]: "ex_size (set_ex_oid h x) = ex_size x" "ex_oid (set_ex_oid h x) = h (ex_oid x)"
  by (induction x; simp)+

lemma set_last_put [simp]: "set_last h (cb_put x b) = cb_put (set_ex_oid h x) b"
  by (simp add: set_last_def cb_put_def)

lemma ex_cut_simps [simp]: "ex_size (ex_cut n x) = n" "ex_oid (ex_cut n x) = ex_oid x"
  by (simp_all add: ex_cut_def)

lemma ex_adjust_keeps:
  assumes "ex_adjust hzv n h x = Some y"
  shows "ex_size y = ex_size x" "id_len (ex_oid y) = id_len (ex_oid x)" "id_type (ex_oid y) = id_type (ex_oid x)" "ex_kind y = ex_kind x"
  using assms by (auto simp: ex_adjust_def split: if_splits ex_obj.splits)

text \<open>
  The length in the header is the number of bytes in the buffer, so that the objects are found by going from header to
  header. \<open>obj_typed\<close>: the bytes are a whole object, and the type is right (that of a profile is the user's).
\<close>

definition obj_framed :: "ex_obj \<Rightarrow> bool" where
  "obj_framed x \<longleftrightarrow> unat (id_len (ex_oid x)) = ex_size x"

definition obj_typed :: "ex_obj \<Rightarrow> bool" where
  "obj_typed x \<longleftrightarrow>
     (case x of XId _ \<Rightarrow> True | XProfile _ \<Rightarrow> True | XFlow n \<Rightarrow> id_type (fl_oid n) = DN_FLOW | XPart _ _ \<Rightarrow> False
      | _ \<Rightarrow> id_type (ex_oid x) = ex_kind x)"

text \<open>
  The headers the links, schedulers, flowsets and instances are made with: \<open>set_oid\<close> in \<open>schk_new\<close>, \<open>fsk_new\<close> and \<open>si_new\<close>, and the
  lengths that the configuration asks for; or no header at all, when the object was not configured.
\<close>

definition hdr_made :: "u8 \<Rightarrow> nat \<Rightarrow> dn_id \<Rightarrow> bool" where
  "hdr_made t n o1 \<longleftrightarrow> id_len o1 = 0 \<or> id_type o1 = 0 \<or> unat (id_len o1) = n \<and> id_type o1 = t"

definition headers_made :: "'x dn_env_scheme \<Rightarrow> bool" where
  "headers_made e \<longleftrightarrow>
     (\<forall>k. hdr_made DN_LINK sizeof_dn_link (link_oid (sk_link (schks e k))) \<and> hdr_made DN_SCH sizeof_dn_sch (sch_oid (sk_sch (schks e k)))) \<and>
     (\<forall>f. hdr_made DN_FS sizeof_dn_fs (fs_oid (fsk_fs (fsks e f)))) \<and>
     (\<forall>i. hdr_made DN_SCH_I sizeof_dn_flow (fl_oid (si_ni (sis e i))))"

abbreviation sizes :: "ex_obj list \<Rightarrow> nat" where
  "sizes xs \<equiv> (\<Sum>x\<leftarrow>xs. ex_size x)"

text \<open>\<open>M\<close>: the objects are whole and typed too.\<close>

definition cb_ok :: "bool \<Rightarrow> int \<Rightarrow> ex_obj \<Rightarrow> cbuf \<Rightarrow> bool" where
  "cb_ok M H y b \<longleftrightarrow> 0 \<le> cb_have b \<and> int (sizes (cb_out b)) + cb_have b = H \<and> cb_out b \<noteq> [] \<and> hd (cb_out b) = y \<and>
     (\<forall>x\<in>set (cb_out b). obj_framed x \<and> (M \<longrightarrow> obj_typed x))"

lemma cb_put_ok:
  "cb_ok M H y b \<Longrightarrow> obj_framed x \<Longrightarrow> (M \<Longrightarrow> obj_typed x) \<Longrightarrow> int (ex_size x) \<le> cb_have b \<Longrightarrow> cb_ok M H y (cb_put x b)"
  by (simp add: cb_ok_def cb_put_def)

lemma objs_scan_keeps:
  assumes "\<And>x b r b'. cb x b = Some (r, b') \<Longrightarrow> P b \<Longrightarrow> P b'" and "objs_scan hash y cb b = Some b'" "P b"
  shows "P b'"
  using assms tab_scan_keeps [of cb P] by (auto simp: objs_scan_def split: objs.splits if_splits)

lemma copy_obj_cases:
  assumes "copy_obj hzv n x b = Some (err, b')"
  obtains "err = 1" "b' = b"
  | y where "err = 0" "b' = cb_put (ex_cut (unat (id_len (ex_oid x))) y) b" "ex_adjust hzv n (cb_have b) x = Some y"
    "int (unat (id_len (ex_oid x))) \<le> cb_have b" "id_len (ex_oid x) \<noteq> 0" "id_type (ex_oid x) \<noteq> 0"
  using assms by (auto simp: copy_obj_def Let_def unat_eq_0 simp del: of_nat_unat split: if_splits)

lemma copy_q_cb_ok:
  assumes "copy_q_cb e q b = Some (r, b')" "cb_ok M H y b"
  shows "cb_ok M H y b'"
proof -
  have "obj_framed (XFlow (n\<lparr>fl_oid := (fl_oid n)\<lparr>id_len := of_nat sizeof_dn_flow, id_type := DN_FLOW, id_id := j\<rparr>\<rparr>))"
    "obj_typed (XFlow (n\<lparr>fl_oid := (fl_oid n)\<lparr>id_len := of_nat sizeof_dn_flow, id_type := DN_FLOW, id_id := j\<rparr>\<rparr>))" for n j
    by (simp_all add: obj_framed_def obj_typed_def sizeof_dn_flow_def)
  then show ?thesis
    using assms by (auto simp: copy_q_cb_def copy_obj_q_def split: if_splits intro!: cb_put_ok)
qed

lemma copy_q_ok: "copy_q e f b = Some b' \<Longrightarrow> cb_ok M H y b \<Longrightarrow> cb_ok M H y b'"
  unfolding copy_q_def by (erule objs_scan_keeps [rotated]) (auto intro: copy_q_cb_ok)

text \<open>An object copied, the type and number in whose header may then be changed.\<close>

lemma copied_ok:
  assumes a: "ex_adjust hzv n h x = Some z" and len: "int (unat (id_len (ex_oid x))) \<le> cb_have b" and b: "cb_ok M H y b"
    and h: "\<And>o1. id_len (f o1) = id_len o1"
    and t: "M \<Longrightarrow> unat (id_len (ex_oid x)) = ex_size x \<and> obj_typed (set_ex_oid f z)"
  shows "cb_ok M H y (cb_put (set_ex_oid f (ex_cut (unat (id_len (ex_oid x))) z)) b)"
proof (rule cb_put_ok [OF b])
  show "obj_framed (set_ex_oid f (ex_cut (unat (id_len (ex_oid x))) z))"
    using ex_adjust_keeps [OF a] by (simp add: obj_framed_def h)
  show "obj_typed (set_ex_oid f (ex_cut (unat (id_len (ex_oid x))) z))" if M
    using t [OF that] ex_adjust_keeps(1) [OF a] by (simp add: ex_cut_def)
qed (use len in simp)

lemma copy_si_cb_ok:
  assumes "copy_si_cb hzv e i b = Some (r, b')" "cb_ok M H y b" "M \<longrightarrow> headers_made e"
  shows "cb_ok M H y b'"
proof -
  let ?f = "\<lambda>o1. o1\<lparr>id_type := DN_FLOW, id_id := flow_id_hash (fid (si_ni (sis e i)))\<rparr>"
  obtain err b1 where c: "copy_obj hzv 0 (XFlow (si_ni (sis e i))) b = Some (err, b1)"
    "b' = (if err \<noteq> 0 then b1 else set_last ?f b1)"
    using assms(1) by (fastforce simp: copy_si_cb_def bind_eq_Some_conv Let_def split: if_splits)
  from c(1) show ?thesis
  proof (cases rule: copy_obj_cases)
    case (2 z)
    have t: "unat (id_len (ex_oid (XFlow (si_ni (sis e i))))) = ex_size (XFlow (si_ni (sis e i))) \<and> obj_typed (set_ex_oid ?f z)" if M
    proof -
      have "hdr_made DN_SCH_I sizeof_dn_flow (fl_oid (si_ni (sis e i)))" using assms(3) that by (simp add: headers_made_def)
      moreover from this 2(3,5,6) have "z = XFlow (si_ni (sis e i))"
        by (auto simp: ex_adjust_def hdr_made_def DN_LINK_def DN_SCH_I_def DN_SCH_def split: if_splits)
      ultimately show ?thesis using 2(5,6) by (simp add: hdr_made_def obj_typed_def)
    qed
    show ?thesis using copied_ok [OF 2(3,4) assms(2), of ?f, OF _ t] c(2) 2(1,2) by simp
  qed (use assms(2) c(2) in simp)
qed

lemma copy_si_ok: "copy_si hzv e k b = Some b' \<Longrightarrow> cb_ok M H y b \<Longrightarrow> (M \<longrightarrow> headers_made e) \<Longrightarrow> cb_ok M H y b'"
  unfolding copy_si_def by (erule objs_scan_keeps [rotated]) (auto intro: copy_si_cb_ok)

text \<open>Objects whose type stays.\<close>

lemma copied_typed:
  assumes m: "hdr_made (ex_kind x) (ex_size x) (ex_oid x)" and x: "case x of XFlow _ \<Rightarrow> False | XPart _ _ \<Rightarrow> False | _ \<Rightarrow> True"
    and a: "ex_adjust hzv n h x = Some z" and nz: "id_len (ex_oid x) \<noteq> 0" "id_type (ex_oid x) \<noteq> 0"
  shows "unat (id_len (ex_oid x)) = ex_size x" "obj_typed z"
proof -
  show "unat (id_len (ex_oid x)) = ex_size x" using m nz by (simp add: hdr_made_def)
  have "id_type (ex_oid x) = ex_kind x" using m nz by (simp add: hdr_made_def)
  then show "obj_typed z" using a x by (auto simp: ex_adjust_def obj_typed_def split: if_splits ex_obj.splits)
qed

lemma set_ex_oid_id [simp]: "set_ex_oid (\<lambda>o1. o1) x = x"
  by (induction x) simp_all

lemma copy_obj_ok:
  assumes c: "copy_obj hzv n x b = Some (err, b')" and b: "cb_ok M H y b"
    and x: "case x of XFlow _ \<Rightarrow> False | XPart _ _ \<Rightarrow> False | _ \<Rightarrow> True"
    and m: "M \<Longrightarrow> hdr_made (ex_kind x) (ex_size x) (ex_oid x)"
  shows "cb_ok M H y b'"
  using c
proof (cases rule: copy_obj_cases)
  case (2 z)
  have "unat (id_len (ex_oid x)) = ex_size x \<and> obj_typed (set_ex_oid (\<lambda>o1. o1) z)" if M
    using copied_typed [OF m [OF that] x 2(3,5,6)] by simp
  from copied_ok [OF 2(3,4) b, of "\<lambda>o1. o1", OF _ this] show ?thesis using 2(2) by simp
qed (use b in simp)

lemma copy_flowset_ok:
  assumes c: "copy_flowset hzv e f flags b = Some (err, b')" and b: "cb_ok M H y b" and m: "M \<longrightarrow> headers_made e"
  shows "cb_ok M H y b'"
proof (cases f)
  case (Some g)
  let ?x = "XFs (fsk_fs (fsks e g))"
  obtain err1 b1 where o: "copy_obj hzv 0 ?x b = Some (err1, b1)"
    using c Some by (auto simp: copy_flowset_def bind_eq_Some_conv Let_def)
  from o show ?thesis
  proof (cases rule: copy_obj_cases)
    case 1
    then show ?thesis using c Some o b by (auto simp: copy_flowset_def)
  next
    case (2 z)
    obtain n where n: "(if flags then copy_q e g (set_last (\<lambda>o1. o1\<lparr>id_id := of_nat n\<rparr>) b1)
        else Some (set_last (\<lambda>o1. o1\<lparr>id_id := of_nat n\<rparr>) b1)) = Some b'"
      using c Some o 2(1) by (fastforce simp: copy_flowset_def bind_eq_Some_conv Let_def split: if_splits)
    have "unat (id_len (ex_oid ?x)) = ex_size ?x \<and> obj_typed (set_ex_oid (\<lambda>o1. o1\<lparr>id_id := of_nat n\<rparr>) z)" if M
    proof -
      have h: "hdr_made (ex_kind ?x) (ex_size ?x) (ex_oid ?x)" using m that by (simp add: headers_made_def)
      have "z = ?x" using 2(3,5,6) h by (auto simp: ex_adjust_def hdr_made_def DN_LINK_def DN_SCH_def DN_FS_def split: if_splits)
      then show ?thesis using copied_typed [OF h _ 2(3,5,6)] by (simp add: obj_typed_def)
    qed
    from copied_ok [OF 2(3,4) b, of "\<lambda>o1. o1\<lparr>id_id := of_nat n\<rparr>", OF _ this]
    have "cb_ok M H y (set_last (\<lambda>o1. o1\<lparr>id_id := of_nat n\<rparr>) b1)" by (simp add: 2(2))
    with n show ?thesis by (cases flags) (auto dest!: copy_q_ok)
  qed
qed (use c b in \<open>simp add: copy_flowset_def\<close>)

lemma copy_profile_ok: "copy_profile p b = (err, b') \<Longrightarrow> cb_ok M H y b \<Longrightarrow> cb_ok M H y b'"
  by (auto simp: copy_profile_def obj_framed_def obj_typed_def sizeof_dn_profile_def split: option.splits if_splits intro!: cb_put_ok)

lemma copy_fsk_list_ok:
  assumes "copy_fsk_list e k b = Some (err, b')" "cb_ok M H y b"
  shows "cb_ok M H y b'"
proof -
  define ns where "ns = filter (\<lambda>n. n < DN_MAX_ID) (map (\<lambda>f. fs_nr (fsk_fs (fsks e f))) (fsk_list (schks e k)))"
  let ?x = "XText \<lparr>id_len = of_nat (sizeof_dn_id + length ns * 4), id_type = DN_TEXT, id_subtype = 0, id_id = 0\<rparr> (map of_nat ns)"
  have "obj_framed ?x" if "\<not> 2 ^ 16 \<le> sizeof_dn_id + length ns * 4"
    using that by (simp add: obj_framed_def unsigned_of_nat take_bit_nat_eq_self del: of_nat_add of_nat_mult)
  moreover have "obj_typed ?x" by (simp add: obj_typed_def)
  ultimately show ?thesis
    using assms by (auto simp: copy_fsk_list_def Let_def ns_def [symmetric] split: if_splits intro!: cb_put_ok)
qed

lemma copy_link_ok:
  "copy_obj hzv n (XLink (sk_link (schks e k))) b = Some (err, b') \<Longrightarrow> cb_ok M H y b \<Longrightarrow> (M \<longrightarrow> headers_made e) \<Longrightarrow> cb_ok M H y b'"
  "copy_obj hzv n (XSch (sk_sch (schks e k))) b = Some (err, b') \<Longrightarrow> cb_ok M H y b \<Longrightarrow> (M \<longrightarrow> headers_made e) \<Longrightarrow> cb_ok M H y b'"
  by (erule copy_obj_ok; simp add: headers_made_def)+

lemma copy_link_part_ok:
  assumes "copy_link_part hzv e k b = Some (r, b')" "cb_ok M H y b" "M \<longrightarrow> headers_made e"
  shows "cb_ok M H y b'"
  using assms(1,2)
  by (auto simp: copy_link_part_def bind_eq_Some_conv split: if_splits prod.splits
      dest!: copy_link_ok [OF _ _ assms(3), where H = H and y = y] copy_profile_ok [where M = M and H = H and y = y]
        copy_flowset_ok [OF _ _ assms(3), where H = H and y = y])

lemma copy_sch_part_ok:
  assumes "copy_sch_part hzv e k b = Some (r, b')" "cb_ok M H y b" "M \<longrightarrow> headers_made e"
  shows "cb_ok M H y b'"
  using assms(1,2)
  by (auto simp: copy_sch_part_def bind_eq_Some_conv split: if_splits
      dest!: copy_link_ok [OF _ _ assms(3), where H = H and y = y] copy_fsk_list_ok [where M = M and H = H and y = y])

lemma copy_schk_ok:
  assumes "copy_schk flags hzv e k b = Some (r, b')" "cb_ok M H y b" "M \<longrightarrow> headers_made e"
  shows "cb_ok M H y b'"
  using assms(1,2)
  by (auto simp: copy_schk_def bind_eq_Some_conv split: if_splits
      dest!: copy_link_part_ok [OF _ _ assms(3), where H = H and y = y] copy_sch_part_ok [OF _ _ assms(3), where H = H and y = y]
        copy_si_ok [OF _ _ assms(3), where H = H and y = y])

lemma copy_data_ok:
  assumes m: "M \<longrightarrow> headers_made e"
  shows "copy_data_sch sub flags c hzv e k b = Some (r, b') \<Longrightarrow> cb_ok M H y b \<Longrightarrow> cb_ok M H y b'"
    and "copy_data_fs c hzv e f b = Some (r, b') \<Longrightarrow> cb_ok M H y b \<Longrightarrow> cb_ok M H y b'"
  by (auto simp: copy_data_sch_def copy_data_fs_def bind_eq_Some_conv Let_def split: if_splits
      dest!: copy_schk_ok [OF _ _ m, where H = H and y = y] copy_flowset_ok [OF _ _ m, where H = H and y = y]
        copy_q_ok [where M = M and H = H and y = y])

lemma get_objects_ok:
  assumes g: "get_objects c have need s = Some xs" and n: "int sizeof_dn_id \<le> have"
  shows "xs \<noteq> [] \<and> hd xs = XId ((gc_oid c)\<lparr>id_id := word_of_int need, id_len := of_nat sizeof_dn_id\<rparr>) \<and>
    (\<forall>x\<in>set xs. obj_framed x \<and> (headers_made (env s) \<longrightarrow> obj_typed x)) \<and> int (sizes xs) \<le> have"
proof -
  define hd1 where "hd1 = XId ((gc_oid c)\<lparr>id_id := word_of_int need, id_len := of_nat sizeof_dn_id\<rparr>)"
  define b where "b = \<lparr>cb_have = have - int sizeof_dn_id, cb_out = [hd1]\<rparr>"
  define sub where "sub = id_subtype (gc_oid c)"
  define cb where "cb = (if sub = DN_FS then copy_data_fs c (hz s) (env s)
      else copy_data_sch sub (snd (compute_space sub 0 s)) c (hz s) (env s))"
  define P where "P = cb_ok (headers_made (env s)) have hd1"
  have cb_keeps: "P b'" if "cb x b = Some (r, b')" "P b" for x b r b'
    using that copy_data_ok [of "headers_made (env s)" "env s"] unfolding cb_def P_def by (auto split: if_splits)
  have out: "get_objects c have need s = (case (if sub = DN_FS then fshash s else schedhash s) of
      None \<Rightarrow> Some (cb_out b) | Some t \<Rightarrow> map_option (\<lambda>(t, b). cb_out b) (tab_scan cb t b))"
    unfolding get_objects_def Let_def sub_def [symmetric] hd1_def [symmetric] b_def [symmetric] cb_def [symmetric] ..
  have P0: "P b" using n by (simp add: P_def b_def cb_ok_def obj_framed_def obj_typed_def hd1_def sizeof_dn_id_def)
  have "\<exists>b'. P b' \<and> xs = cb_out b'"
  proof (cases "if sub = DN_FS then fshash s else schedhash s")
    case None
    then show ?thesis using g out P0 by auto
  next
    case (Some t)
    then obtain t' b' where t: "tab_scan cb t b = Some (t', b')" "xs = cb_out b'" using g out by auto
    from tab_scan_keeps [of cb P, OF _ t(1) P0] cb_keeps t(2) show ?thesis by blast
  qed
  then show ?thesis by (auto simp: P_def cb_ok_def hd1_def)
qed


section \<open>The size of the buffer\<close>

lemma s32_range: "- (2 ^ 31) \<le> s32 x" "s32 x < 2 ^ 31"
  using sint_greater_eq [of "word_of_int x :: u32"] sint_less [of "word_of_int x :: u32"] by (simp_all add: s32_def)

lemma get_space_range: "get_space l valsize sub s < 2 ^ 31"
  using s32_range(2) by (auto simp: get_space_def compute_space_def dn_compat_calc_size_def add_space_def Let_def)

lemma s32_add8:
  assumes "0 \<le> x" "x < 2 ^ 31" "0 < s32 (x + 8)"
  shows "s32 (x + 8) = x + 8"
proof (cases "x + 8 < 2 ^ 31")
  case False
  have "(word_of_int (x + 8) :: u32) = word_of_int (x + 8 - 2 ^ 32)"
    by (simp add: word_of_int_eq_iff take_bit_eq_mod)
  then have "s32 (x + 8) = s32 (x + 8 - 2 ^ 32)" unfolding s32_def by (rule arg_cong)
  also have "\<dots> = x + 8 - 2 ^ 32" by (rule s32_id) (use assms False in simp_all)
  finally show ?thesis using assms by simp
qed (use assms in \<open>simp add: s32_id\<close>)

lemma get_buffer_room:
  assumes sp: "\<And>i. space (ss i) < 2 ^ 31"
  shows "get_buffer ss space v i k hv = GetRoom j h need \<Longrightarrow> hv = 0 \<or> 8 \<le> hv \<and> hv \<le> int v \<Longrightarrow>
    8 \<le> h \<and> h \<le> int v \<and> need \<le> h"
proof (induction k arbitrary: i hv)
  case (Suc k)
  define n where "n = s32 (space (ss i) + 8)"
  show ?case
  proof (cases "space (ss i) < 0 \<or> n \<le> hv \<or> int v < n")
    case True
    then show ?thesis
      using Suc.prems by (auto simp: n_def [symmetric] sizeof_dn_id_def Let_def split: if_splits)
  next
    case False
    then have n: "0 \<le> space (ss i)" "hv < n" "n \<le> int v" by auto
    then have "n = space (ss i) + 8" using Suc.prems(2) s32_add8 [OF n(1) sp] unfolding n_def by auto
    then have "8 \<le> n" using n(1) by simp
    then show ?thesis
      using Suc.IH [of "Suc i" n] Suc.prems n by (auto simp: n_def [symmetric] sizeof_dn_id_def Let_def split: if_splits)
  qed
qed simp


section \<open>All flowsets and queues\<close>

text \<open>The objects of a table, bucket by bucket.\<close>

definition tab_list :: "htab \<Rightarrow> nat list" where
  "tab_list t = concat (map (hb_list t) [0..<hb_mask t + 1])"

definition objs_list :: "objs \<Rightarrow> nat list" where
  "objs_list x = (case x of NoObj \<Rightarrow> [] | OneObj q \<Rightarrow> [q] | Table t \<Rightarrow> tab_list t)"

definition objs_shape :: "bool \<Rightarrow> objs \<Rightarrow> bool" where
  "objs_shape hash x \<longleftrightarrow> (case x of NoObj \<Rightarrow> True | OneObj _ \<Rightarrow> \<not> hash | Table _ \<Rightarrow> hash)"

definition cb_puts :: "ex_obj list \<Rightarrow> cbuf \<Rightarrow> cbuf" where
  "cb_puts xs b = b\<lparr>cb_have := cb_have b - int (sizes xs), cb_out := cb_out b @ xs\<rparr>"

lemma cb_puts_simps [simp]:
  "cb_puts [] b = b" "cb_put x b = cb_puts [x] b" "cb_puts ys (cb_puts xs b) = cb_puts (xs @ ys) b"
  "cb_have (cb_puts xs b) = cb_have b - int (sizes xs)" "cb_out (cb_puts xs b) = cb_out b @ xs"
  by (simp_all add: cb_puts_def cb_put_def)

lemma list_scan_all:
  assumes "\<And>x b. x \<in> set xs \<Longrightarrow> int (sizes (items x)) \<le> cb_have b \<Longrightarrow> cb x b = Some (0, cb_puts (items x) b)"
    and "int (sizes (concat (map items xs))) \<le> cb_have b"
  shows "list_scan (scan_cb cb) (Some b) xs = (xs, [], 0, Some (cb_puts (concat (map items xs)) b), False)"
  using assms
proof (induction xs arbitrary: b)
  case (Cons x xs)
  have x: "cb x b = Some (0, cb_puts (items x) b)" using Cons.prems by (intro Cons.prems(1)) simp_all
  have "list_scan (scan_cb cb) (Some (cb_puts (items x) b)) xs =
      (xs, [], 0, Some (cb_puts (concat (map items xs)) (cb_puts (items x) b)), False)"
    by (rule Cons.IH) (use Cons.prems in auto)
  moreover have "scan_cb cb x (Some b) = (0, Some (cb_puts (items x) b))" using x by (simp add: scan_cb_def)
  ultimately show ?case by simp
qed simp

lemma lists_scan_all:
  assumes "\<And>x b. x \<in> set (concat (map L bs)) \<Longrightarrow> int (sizes (items x)) \<le> cb_have b \<Longrightarrow> cb x b = Some (0, cb_puts (items x) b)"
    and "int (sizes (concat (map items (concat (map L bs))))) \<le> cb_have b"
  shows "lists_scan bs L (scan_cb cb) n (Some b) = (L, n, Some (cb_puts (concat (map items (concat (map L bs)))) b))"
  using assms
proof (induction bs arbitrary: b)
  case (Cons i bs)
  have l: "list_scan (scan_cb cb) (Some b) (L i) = (L i, [], 0, Some (cb_puts (concat (map items (L i))) b), False)"
    by (rule list_scan_all) (use Cons.prems in auto)
  have "lists_scan bs L (scan_cb cb) n (Some (cb_puts (concat (map items (L i))) b)) =
      (L, n, Some (cb_puts (concat (map items (concat (map L bs)))) (cb_puts (concat (map items (L i))) b)))"
    by (rule Cons.IH) (use Cons.prems in auto)
  with l show ?case by simp
qed simp

lemma tab_scan_all:
  assumes "\<And>x b. x \<in> set (tab_list t) \<Longrightarrow> int (sizes (items x)) \<le> cb_have b \<Longrightarrow> cb x b = Some (0, cb_puts (items x) b)"
    and "int (sizes (concat (map items (tab_list t)))) \<le> cb_have b"
  shows "tab_scan cb t b = Some (t, cb_puts (concat (map items (tab_list t))) b)"
  using lists_scan_all [OF assms [unfolded tab_list_def]] by (simp add: tab_scan_def tab_list_def del: upt_Suc)

lemma objs_scan_all:
  assumes "objs_shape hash y"
    and "\<And>x b. x \<in> set (objs_list y) \<Longrightarrow> int (sizes (items x)) \<le> cb_have b \<Longrightarrow> cb x b = Some (0, cb_puts (items x) b)"
    and "int (sizes (concat (map items (objs_list y)))) \<le> cb_have b"
  shows "objs_scan hash y cb b = Some (cb_puts (concat (map items (objs_list y))) b)"
proof (cases y)
  case (Table t)
  with assms tab_scan_all [of t items cb b] show ?thesis by (simp add: objs_scan_def objs_list_def objs_shape_def)
qed (use assms in \<open>simp_all add: objs_scan_def objs_list_def objs_shape_def\<close>)

lemma tab_entries_list: "tab_entries (Some t) = length (tab_list t)"
  by (simp add: tab_entries_def tab_list_def length_concat sum_list_sum_nth interv_sum_list_conv_sum_set_nat
      atLeast0LessThan lessThan_Suc_atMost comp_def del: upt_Suc)

lemma objs_count_list: "objs_shape hash y \<Longrightarrow> objs_count hash y = Some (length (objs_list y))"
  by (cases y) (simp_all add: objs_count_def objs_shape_def objs_list_def tab_entries_list)

text \<open>What is exported for a queue and for a flowset.\<close>

definition q_item :: "'x dn_env_scheme \<Rightarrow> qid \<Rightarrow> ex_obj" where
  "q_item e q = (let n = q_ni (qs e q) in
     XFlow (n\<lparr>fl_oid := (fl_oid n)\<lparr>id_len := of_nat sizeof_dn_flow, id_type := DN_FLOW, id_id := flow_id_hash (fid n)\<rparr>\<rparr>))"

definition fs_queues :: "'x dn_env_scheme \<Rightarrow> fsid \<Rightarrow> qid list" where
  "fs_queues e f = objs_list (qht (fsks e f))"

definition fs_items :: "'x dn_env_scheme \<Rightarrow> fsid \<Rightarrow> ex_obj list" where
  "fs_items e f = (let c = fsk_fs (fsks e f) in
     if DN_MAX_ID \<le> fs_nr c \<or> fs_nr c = 0 then []
     else XFs (c\<lparr>fs_oid := (fs_oid c)\<lparr>id_id := of_nat (length (fs_queues e f))\<rparr>\<rparr>) # map (q_item e) (fs_queues e f))"

text \<open>A flowset and its queues as they are made: headers and the shape of the table.\<close>

definition fs_wf :: "'x dn_env_scheme \<Rightarrow> fsid \<Rightarrow> bool" where
  "fs_wf e f \<longleftrightarrow> (let c = fsk_fs (fsks e f) in unat (id_len (fs_oid c)) = sizeof_dn_fs \<and> id_type (fs_oid c) = DN_FS \<and>
     objs_shape (fs_flags c AND DN_QHT_HASH \<noteq> 0) (qht (fsks e f)) \<and>
     (\<forall>q\<in>set (fs_queues e f). id_len (fl_oid (q_ni (qs e q))) \<noteq> 0 \<and> id_type (fl_oid (q_ni (qs e q))) = DN_QUEUE))"

lemma copy_q_all:
  assumes wf: "fs_wf e f" and room: "int (sizes (map (q_item e) (fs_queues e f))) \<le> cb_have b"
  shows "copy_q e f b = Some (cb_puts (map (q_item e) (fs_queues e f)) b)"
proof -
  have "copy_q_cb e q b = Some (0, cb_puts [q_item e q] b)"
    if "q \<in> set (fs_queues e f)" "int (sizes [q_item e q]) \<le> cb_have b" for q b
    using wf that by (auto simp: fs_wf_def Let_def copy_q_cb_def copy_obj_q_def q_item_def simp flip: cb_puts_simps)
  from objs_scan_all [of _ _ "\<lambda>q. [q_item e q]" "copy_q_cb e", OF _ this [unfolded fs_queues_def]] wf room
  show ?thesis by (simp add: copy_q_def fs_wf_def fs_queues_def Let_def)
qed

lemma copy_data_fs_all:
  assumes wf: "fs_wf e f" and r: "fs_nr (fsk_fs (fsks e f)) < DN_MAX_ID \<Longrightarrow>
      in_ranges c (fs_nr (fsk_fs (fsks e f))) = Some (1 \<le> fs_nr (fsk_fs (fsks e f)))"
    and room: "int (sizes (fs_items e f)) \<le> cb_have b"
  shows "copy_data_fs c hzv e f b = Some (0, cb_puts (fs_items e f) b)"
proof (cases "DN_MAX_ID \<le> fs_nr (fsk_fs (fsks e f)) \<or> fs_nr (fsk_fs (fsks e f)) = 0")
  case True
  then show ?thesis using r by (auto simp: copy_data_fs_def fs_items_def Let_def)
next
  case False
  define c1 where "c1 = fsk_fs (fsks e f)"
  define x where "x = XFs (c1\<lparr>fs_oid := (fs_oid c1)\<lparr>id_id := of_nat (length (fs_queues e f))\<rparr>\<rparr>)"
  have it: "fs_items e f = x # map (q_item e) (fs_queues e f)" using False by (simp add: fs_items_def x_def c1_def Let_def)
  have w: "unat (id_len (fs_oid c1)) = sizeof_dn_fs" "id_type (fs_oid c1) = DN_FS"
    using wf by (simp_all add: fs_wf_def c1_def Let_def)
  have cnt: "objs_count (fs_flags c1 AND DN_QHT_HASH \<noteq> 0) (qht (fsks e f)) = Some (length (fs_queues e f))"
    using wf by (simp add: fs_wf_def c1_def Let_def objs_count_list fs_queues_def)
  have o: "copy_obj hzv 0 (XFs c1) b = Some (0, cb_put (XFs c1) b)"
    using room w unfolding it
    by (simp add: copy_obj_def Let_def ex_adjust_def ex_cut_def x_def sizeof_dn_fs_def DN_FS_def DN_LINK_def DN_SCH_def del: of_nat_unat)
  have rm: "\<not> cb_have b < int sizeof_dn_id" using room unfolding it by (simp add: x_def sizeof_defs)
  have "copy_flowset hzv e (Some f) False b = Some (0, cb_puts [x] b)"
    using o cnt rm by (simp add: copy_flowset_def c1_def [symmetric] x_def del: cb_puts_simps) simp
  moreover have "copy_q e f (cb_puts [x] b) = Some (cb_puts (map (q_item e) (fs_queues e f)) (cb_puts [x] b))"
    by (rule copy_q_all [OF wf]) (use room it in simp)
  ultimately show ?thesis using False r by (simp add: copy_data_fs_def it)
qed


lemma default_range:
  assumes c: "unat (id_len (gc_oid c)) = sizeof_dn_id" "id_subtype (gc_oid c) = DN_FS" and n: "n < DN_MAX_ID"
  shows "in_ranges (with_range c) n = Some (1 \<le> n)"
proof -
  have k: "gc_ranges (with_range c) = 1"
    using c by (simp add: gc_ranges_def with_range_def sizeof_dn_id_def Let_def DN_FS_def DN_LINK_def)
  have n1: "(of_nat n :: u32) < 1 \<longleftrightarrow> n = 0" "\<not> (65535 :: u32) < of_nat n"
    using n by (auto simp: word_less_nat_alt unsigned_of_nat take_bit_nat_eq_self DN_MAX_ID_def)
  show ?thesis
    using c n1 unfolding in_ranges_def k One_nat_def
    by (simp add: with_range_def Let_def DN_FS_def DN_LINK_def DN_MAX_ID_def)
qed

lemma add_space_exact:
  assumes c: "0 \<le> cnt" "cnt < 2 ^ 20" and n: "0 \<le> need" "need < 2 ^ 29" and z: "sz \<le> 2 ^ 8" "dv = 1 \<or> dv = 2"
  shows "add_space cnt sz dv need = need + cnt * int sz div int dv"
proof -
  obtain k where k: "cnt = int k" using c(1) nonneg_int_cases by blast
  have "k * sz \<le> 2 ^ 20 * 2 ^ 8" using c(2) z(1) k by (intro mult_le_mono) simp_all
  then have kz: "k * sz < 2 ^ 29" by simp
  then have "unat ((of_nat k :: u64) * of_nat sz) = k * sz"
    by (simp add: unsigned_of_nat take_bit_nat_eq_self flip: of_nat_mult)
  then have "unat ((of_nat k :: u64) * of_nat sz div of_nat dv) = k * sz div dv"
    using z(2) by (auto simp: unat_div)
  then have "uint ((word_of_int cnt :: u64) * of_nat sz div of_nat dv) = int (k * sz div dv)"
    unfolding k by (metis of_int_of_nat_eq uint_nat)
  moreover have "k * sz div dv < 2 ^ 29" using kz z(2) by auto
  then have "int (k * sz div dv) < 2 ^ 29" by simp
  moreover have "0 \<le> int k * int sz div int dv" by (metis of_nat_0_le_iff of_nat_mult zdiv_int)
  ultimately show ?thesis unfolding add_space_def using n
    by (subst s32_id) (simp_all add: k zdiv_int)
qed

lemma sizes_items:
  "int (sizes (concat (map (fs_items e) fs))) \<le> 120 * int (length fs) + 96 * int (\<Sum>f\<leftarrow>fs. length (fs_queues e f))"
proof (induction fs)
  case (Cons f fs)
  have "sizes (map (q_item e) qs) = 96 * length qs" for qs by (induction qs) (simp_all add: q_item_def Let_def sizeof_dn_flow_def)
  then have "sizes (fs_items e f) \<le> 120 + 96 * length (fs_queues e f)"
    by (simp add: fs_items_def Let_def sizeof_dn_fs_def)
  with Cons show ?case by simp
qed simp

definition get_ready :: "nat \<Rightarrow> (nat \<Rightarrow> 'x dn_sys) \<Rightarrow> bool" where
  "get_ready valsize ss \<longleftrightarrow> (\<exists>t. fshash (ss 1) = Some t \<and> (\<forall>f\<in>set (tab_list t). fs_wf (env (ss 1)) f) \<and>
     int (length (tab_list t)) \<le> fsk_count (ss 1) \<and> fsk_count (ss 1) \<le> fsk_count (ss 0) \<and> fsk_count (ss 0) < 2 ^ 20 \<and>
     int (\<Sum>f\<leftarrow>tab_list t. length (fs_queues (env (ss 1)) f)) \<le> queue_count (ss 1) \<and>
     queue_count (ss 1) \<le> queue_count (ss 0) \<and> queue_count (ss 0) < 2 ^ 20 \<and>
     8 + 120 * fsk_count (ss 0) + 96 * queue_count (ss 0) \<le> int valsize)"

lemma get_flowsets_law:
  fixes ss :: "nat \<Rightarrow> 'x dn_sys"
  assumes o1: "id_len o1 = of_nat sizeof_dn_id" "id_subtype o1 = DN_FS" and r: "get_ready valsize ss"
  shows "\<exists>hd1 t. fshash (ss 1) = Some t \<and> dummynet_get (0, o1, w1) req2 valsize ss =
    Some (Inr (XId hd1 # concat (map (fs_items (env (ss 1))) (tab_list t))))"
proof -
  obtain t where t: "fshash (ss 1) = Some t" "\<And>f. f \<in> set (tab_list t) \<Longrightarrow> fs_wf (env (ss 1)) f"
      "int (length (tab_list t)) \<le> fsk_count (ss 1)" "fsk_count (ss 1) \<le> fsk_count (ss 0)" "fsk_count (ss 0) < 2 ^ 20"
      "int (\<Sum>f\<leftarrow>tab_list t. length (fs_queues (env (ss 1)) f)) \<le> queue_count (ss 1)"
      "queue_count (ss 1) \<le> queue_count (ss 0)" "queue_count (ss 0) < 2 ^ 20"
      "8 + 120 * fsk_count (ss 0) + 96 * queue_count (ss 0) \<le> int valsize"
    using r by (auto simp: get_ready_def)
  have pos: "0 \<le> fsk_count (ss 1)" "0 \<le> queue_count (ss 1)" using t(3,6) by linarith+
  define c0 where "c0 = \<lparr>gc_oid = o1, gc_words = \<lambda>j. if j < 2 * DEFAULT_RANGES then Some (w1 j) else None\<rparr>"
  define c where "c = with_range c0"
  define sp :: "'x dn_sys \<Rightarrow> int" where "sp = get_space 8 valsize DN_FS"
  have len: "unat (id_len o1) = 8" using o1(1) by (simp add: sizeof_dn_id_def)
  have sub: "id_subtype (gc_oid c) = DN_FS" using o1 by (simp add: c_def c0_def with_range_def Let_def)
  have sp: "sp (ss i) = 120 * fsk_count (ss i) + 96 * queue_count (ss i)"
    if "0 \<le> fsk_count (ss i)" "fsk_count (ss i) < 2 ^ 20" "0 \<le> queue_count (ss i)" "queue_count (ss i) < 2 ^ 20" for i
    using that by (simp add: sp_def get_space_def compute_space_def sizeof_defs DN_FS_def DN_LINK_def DN_SCH_def add_space_exact)
  define n0 where "n0 = sp (ss 0) + 8"
  define n1 where "n1 = sp (ss 1) + 8"
  have n: "0 < n1" "n1 \<le> n0" "n0 \<le> int valsize" "n0 < 2 ^ 31" "s32 n0 = n0" "s32 n1 = n1" "0 \<le> sp (ss 0)" "0 \<le> sp (ss 1)"
    using t pos by (auto simp: n0_def n1_def sp s32_id)
  have buf: "get_buffer ss sp valsize 0 10 0 = GetRoom 1 n0 n1"
  proof -
    have ten: "(10::nat) = Suc (Suc 8)" by simp
    show ?thesis unfolding ten get_buffer.simps Let_def
      using n by (simp add: sizeof_dn_id_def n0_def [symmetric] n1_def [simplified, symmetric])
  qed
  define b :: cbuf where "b = \<lparr>cb_have = n0 - 8, cb_out = [XId ((gc_oid c)\<lparr>id_id := word_of_int n1, id_len := of_nat sizeof_dn_id\<rparr>)]\<rparr>"
  have "tab_scan (copy_data_fs c (hz (ss 1)) (env (ss 1))) t b =
      Some (t, cb_puts (concat (map (fs_items (env (ss 1))) (tab_list t))) b)"
  proof (rule tab_scan_all)
    fix f and b :: cbuf assume f: "f \<in> set (tab_list t)" "int (sizes (fs_items (env (ss 1)) f)) \<le> cb_have b"
    show "copy_data_fs c (hz (ss 1)) (env (ss 1)) f b = Some (0, cb_puts (fs_items (env (ss 1)) f) b)"
      by (rule copy_data_fs_all [OF t(2) [OF f(1)] _ f(2)])
        (use len o1 in \<open>simp add: c_def default_range c0_def sizeof_dn_id_def\<close>)
  next
    have "n1 \<le> n0" by (rule n)
    then show "int (sizes (concat (map (fs_items (env (ss 1))) (tab_list t)))) \<le> cb_have b"
      using sizes_items [of "env (ss 1)" "tab_list t"] t(3,6) sp [of 1] t pos by (simp add: b_def n1_def)
  qed
  then have "get_objects c n0 n1 (ss 1) = Some (cb_out (cb_puts (concat (map (fs_items (env (ss 1))) (tab_list t))) b))"
    using sub t(1) by (simp add: get_objects_def Let_def b_def sizeof_dn_id_def)
  moreover have big: "\<not> sizeof_dn_id + 4 * (2 * DEFAULT_RANGES) < unat (id_len o1)"
    using len by (simp add: sizeof_dn_id_def DEFAULT_RANGES_def)
  have "dummynet_get (0, o1, w1) req2 valsize ss = map_option Inr (get_objects c n0 n1 (ss 1))"
    using big buf sub len unfolding dummynet_get_def get_request_def by (cases req2) (simp add: Let_def c_def [unfolded c0_def, symmetric] sp_def)
  ultimately show ?thesis using t(1) by (auto simp: b_def)
qed


section \<open>Properties\<close>

lemma dummynet_get_cases:
  assumes "dummynet_get req1 req2 valsize ss = Some (Inr xs)"
  obtains (small) c :: get_cmd and need where "xs = [XId ((gc_oid c)\<lparr>id_id := word_of_int need\<rparr>)]"
  | (room) c :: get_cmd and l i h need where
      "get_buffer ss (get_space l valsize (id_subtype (gc_oid c))) valsize 0 10 0 = GetRoom i h need"
      "get_objects c h need (ss i) = Some xs"
proof -
  obtain l c where "get_request req1 req2 = Inr (l, c)"
    using assms by (auto simp: dummynet_get_def split: sum.splits)
  with assms show thesis
    using small [where c = c] room [where l = l and c = c] by (cases "get_buffer ss (get_space l valsize (id_subtype (gc_oid c))) valsize 0 10 0")
      (auto simp: dummynet_get_def)
qed

text \<open>C13: Whatever the objects and whatever happens between the attempts, what a request gets back starts with the
  header of the request and can be taken apart: the length in the header of each object is the number of bytes
  there are of it, and everything together fits in the user's buffer. If the objects have the headers they are
  made with (\<open>headers_made\<close>, in every state the lock is taken in) then, as the length that is copied comes from these headers,
  each object is there whole, and with the type of its kind.\<close>

theorem dummynet_get_well_formed:
  assumes "dummynet_get req1 req2 valsize ss = Some (Inr xs)" "sizeof_dn_id \<le> valsize"
  shows "\<exists>h ys. xs = XId h # ys \<and> (\<forall>x\<in>set ys. unat (id_len (ex_oid x)) = ex_size x) \<and> sizes xs \<le> valsize \<and>
    ((\<forall>i. headers_made (env (ss i))) \<longrightarrow> (\<forall>x\<in>set ys. obj_typed x))"
  using assms(1)
proof (cases rule: dummynet_get_cases)
  case (small c need)
  then show ?thesis using assms(2) by simp
next
  case (room c l i h need)
  have h: "8 \<le> h" "h \<le> int valsize" using get_buffer_room [OF get_space_range room(1)] by blast+
  have "xs \<noteq> []" "hd xs = XId ((gc_oid c)\<lparr>id_id := word_of_int need, id_len := of_nat sizeof_dn_id\<rparr>)"
    "\<forall>x\<in>set xs. obj_framed x \<and> (headers_made (env (ss i)) \<longrightarrow> obj_typed x)" "int (sizes xs) \<le> h"
    using get_objects_ok [OF room(2)] h(1) by (simp_all add: sizeof_dn_id_def)
  then show ?thesis using h(2) by (cases xs) (auto simp: obj_framed_def)
qed

text \<open>A flowset with one queue.\<close>

definition get_env :: dn_env where
  "get_env = env_zero\<lparr>fsks := (\<lambda>_. fsk_zero)(5 := fsk_zero\<lparr>qht := OneObj 3,
       fsk_fs := fs_zero\<lparr>fs_oid := \<lparr>id_len = of_nat sizeof_dn_fs, id_type = DN_FS, id_subtype = 0, id_id = 0\<rparr>, fs_nr := 7\<rparr>\<rparr>),
     qs := (\<lambda>_. queue_zero)(3 := queue_zero\<lparr>q_ni := (q_ni queue_zero)\<lparr>fl_oid := \<lparr>id_len = 160, id_type = DN_QUEUE, id_subtype = 0, id_id = 0\<rparr>\<rparr>\<rparr>)\<rparr>"

definition get_sys :: "unit dn_sys" where
  "get_sys = (sys_zero get_env)\<lparr>fshash := Some \<lparr>hb_mask = 0, hb_list = \<lambda>_. [5]\<rparr>, fsk_count := 1, queue_count := 1\<rparr>"

definition get_req :: dn_id where
  "get_req = \<lparr>id_len = of_nat sizeof_dn_id, id_type = 0, id_subtype = DN_FS, id_id = 0\<rparr>"

lemma get_sys_ready: "get_ready 300 (\<lambda>_. get_sys)"
  by (simp add: get_ready_def get_sys_def get_env_def sys_zero_def tab_list_def fs_wf_def fs_queues_def objs_list_def
      objs_shape_def Let_def fs_zero_def fsk_zero_def sizeof_dn_fs_def env_zero_def)

theorem dummynet_get_well_formed_witness:
  "\<exists>h ys. dummynet_get (0, get_req, \<lambda>_. 0) (0, get_req, \<lambda>_. 0) 300 (\<lambda>_. get_sys) = Some (Inr (XId h # ys)) \<and>
    (\<forall>x\<in>set ys. unat (id_len (ex_oid x)) = ex_size x \<and> obj_typed x) \<and> sizes (XId h # ys) \<le> 300 \<and> length ys = 2"
proof -
  have m: "headers_made (env get_sys)"
    by (simp add: headers_made_def hdr_made_def get_sys_def sys_zero_def get_env_def dn_zero_defs sizeof_dn_fs_def)
  obtain h where g: "dummynet_get (0, get_req, \<lambda>_. 0) (0, get_req, \<lambda>_. 0) 300 (\<lambda>_. get_sys) =
      Some (Inr (XId h # fs_items get_env 5))"
    using get_flowsets_law [OF _ _ get_sys_ready, of get_req "\<lambda>_. 0" "(0, get_req, \<lambda>_. 0)"]
    by (auto simp: get_req_def get_sys_def sys_zero_def tab_list_def)
  have "length (fs_items get_env 5) = 2"
    by (simp add: fs_items_def get_env_def fs_queues_def objs_list_def DN_MAX_ID_def env_zero_def)
  then show ?thesis
    using g dummynet_get_well_formed [OF g] m by (auto simp: sizeof_dn_id_def)
qed

text \<open>C14: A request for all flowsets returns all of them, in the order of the buckets of the table, each followed by
  its queues: the queues with type and length of a flow and the hash of their flow id, the flowsets with their number
  of queues. This is so whenever the counters of flowsets and queues are at least the numbers of objects in the tables, the
  objects have the headers they are made with, the counters do not grow between the two attempts, and the user's buffer
  has the room they ask for.\<close>

theorem dummynet_get_flowsets:
  assumes "id_len o1 = of_nat sizeof_dn_id" "id_subtype o1 = DN_FS" "get_ready valsize ss"
  shows "\<exists>hd1 t. fshash (ss 1) = Some t \<and> dummynet_get (0, o1, w1) req2 valsize ss =
    Some (Inr (XId hd1 # concat (map (fs_items (env (ss 1))) (tab_list t))))"
  by (rule get_flowsets_law [OF assms])

theorem dummynet_get_flowsets_witness:
  "\<exists>h. dummynet_get (0, get_req, \<lambda>_. 0) (0, get_req, \<lambda>_. 0) 300 (\<lambda>_. get_sys) = Some (Inr (XId h # fs_items get_env 5))"
  using dummynet_get_flowsets [OF _ _ get_sys_ready, of get_req "\<lambda>_. 0" "(0, get_req, \<lambda>_. 0)"]
  by (auto simp: get_req_def get_sys_def sys_zero_def tab_list_def)

end
