(* ===== verification/DnGlueGet.thy ===== *)
theory DnGlueGet
  imports DnGet
begin

text \<open>
  The export of the objects in the old layout (\<open>ip_dn_glue.c\<close>, and the compatibility mode of \<open>dummynet_get\<close>): pipes,
  each followed by the queues of its instances, and then flowsets, each followed by its queues.
\<close>

datatype old_obj = OPipe7 dn_pipe7 | OPipe8 dn_pipe8 | OFs dn_flow_set | OQueue7 dn_flow_queue7 | OQueue8 dn_flow_queue8

fun old_size :: "old_obj \<Rightarrow> nat" where
  "old_size (OPipe7 _) = pipesize7"
| "old_size (OPipe8 _) = pipesize8"
| "old_size (OFs _) = sizeof_dn_flow_set"
| "old_size (OQueue7 _) = sizeof_dn_flow_queue7"
| "old_size (OQueue8 _) = sizeof_dn_flow_queue8"

text \<open>The buffer: the room left, and the objects written so far.\<close>

record obuf =
  ob_have :: int
  ob_out :: "old_obj list"

definition ob_put :: "old_obj \<Rightarrow> obuf \<Rightarrow> obuf" where
  "ob_put x b = b\<lparr>ob_have := ob_have b - int (old_size x), ob_out := ob_out b @ [x]\<rparr>"

definition dn_c_copy_q :: "bool \<Rightarrow> dn_flow \<Rightarrow> obuf \<Rightarrow> nat \<times> obuf" where
  "dn_c_copy_q is7 ni b =
     (0, ob_put
       (if is7 then OQueue7 (queue7_zero\<lparr>f7_len := fl_length ni, f7_len_bytes := len_bytes ni, f7_id := fid ni,
              f7_tot_pkts := tot_pkts ni, f7_tot_bytes := tot_bytes ni, f7_drops := drops ni\<rparr>)
        else OQueue8 (queue8_zero\<lparr>f8_len := fl_length ni, f8_len_bytes := len_bytes ni, f8_id := fid ni,
              f8_tot_pkts := tot_pkts ni, f8_tot_bytes := tot_bytes ni, f8_drops := drops ni\<rparr>)) b)"

definition dn_c_copy_pipe :: "bool \<Rightarrow> int \<Rightarrow> 'x dn_env_scheme \<Rightarrow> schid \<Rightarrow> nat \<Rightarrow> obuf \<Rightarrow> obuf option" where
  "dn_c_copy_pipe is7 hzv e k nq b =
     (let s = schks e k; l = sk_link s; nr = link_nr l - int DN_MAX_ID in
      if hzv = 0 \<or> \<not> is7 \<and> s32 (8 * hzv) = 0 then None
      else do {
        f \<leftarrow> map_option (fsks e) (sk_fs s);
        let dl = s32 (cdiv (s32 (delay l * 1000)) hzv);
        let fs = flow_set_zero\<lparr>fo_flow_mask := sched_mask (sk_sch s),
              fo_rq_size := (if sch_buckets (sk_sch s) \<noteq> 0 then s32 (int (sch_buckets (sk_sch s))) else 1),
              fo_parent_nr := word_of_int nr, fo_qsize := qsize (fsk_fs f), fo_plr := plr (fsk_fs f), fo_w_q := fs_w_q (fsk_fs f),
              fo_max_th := max_th f, fo_min_th := min_th f, fo_max_p := fs_max_p (fsk_fs f), fo_rq_elements := int nq,
              fo_flags_fs := ucast (convertflags2old (fs_flags (fsk_fs f)))\<rparr>;
        Some (ob_put
          (if is7 then OPipe7 (pipe7_zero\<lparr>p7_next := DN_IS_PIPE, p7_bandwidth := bandwidth l, p7_delay := dl, p7_pipe_nr := s32 nr, p7_fs := fs\<rparr>)
           else
             let p = pipe8_zero\<lparr>p8_next := DN_IS_PIPE, p8_bandwidth := bandwidth l, p8_delay := dl, p8_pipe_nr := s32 nr, p8_fs := fs,
                       p8_burst := word_of_int (div64 (uint (burst l)) (s32 (8 * hzv)))\<rparr>
             in OPipe8 (case sk_profile s of None \<Rightarrow> p
                        | Some pf \<Rightarrow> p\<lparr>p8_name := take ED_MAX_NAME_LEN (pf_name pf), p8_loss_level := loss_level pf,
                                       p8_samples_no := samples_no pf\<rparr>)) b)
      })"

text \<open>A scan of a table of queues or instances, or the one object: \<open>copy_q\<close> and \<open>copy_si\<close> of the old layout.\<close>

definition copy_queues :: "bool \<Rightarrow> objs \<Rightarrow> (nat \<Rightarrow> obuf \<Rightarrow> nat \<times> obuf) \<Rightarrow> obuf \<Rightarrow> obuf option" where
  "copy_queues hash x cb b =
     (case x of NoObj \<Rightarrow> Some b
      | OneObj q \<Rightarrow> if hash then None else Some (snd (cb q b))
      | Table t \<Rightarrow> if hash then map_option snd (tab_scan (\<lambda>q b. Some (cb q b)) t b) else None)"

definition dn_compat_copy_pipe :: "bool \<Rightarrow> int \<Rightarrow> 'x dn_env_scheme \<Rightarrow> schid \<Rightarrow> obuf \<Rightarrow> (nat \<times> obuf) option" where
  "dn_compat_copy_pipe is7 hzv e k b =
     (let hash = (sch_flags (sk_sch (schks e k)) AND DN_HAVE_MASK \<noteq> 0) in do {
        n \<leftarrow> objs_count hash (siht (schks e k));
        if ob_have b < s32 (int (pipesize8 + sizeof_dn_flow_queue8 * n)) then Some (1, b)
        else do {
          b \<leftarrow> dn_c_copy_pipe is7 hzv e k n b;
          b \<leftarrow> copy_queues hash (siht (schks e k)) (\<lambda>i. dn_c_copy_q is7 (si_ni (sis e i))) b;
          Some (0, b)
        }
      })"

definition dn_c_copy_fs :: "'x dn_env_scheme \<Rightarrow> fsid \<Rightarrow> nat \<Rightarrow> obuf \<Rightarrow> obuf" where
  "dn_c_copy_fs e f nq b =
     (let r = fsks e f; c = fsk_fs r in
      ob_put (OFs (flow_set_zero\<lparr>fo_next := DN_IS_QUEUE, fo_fs_nr := of_nat (fs_nr c), fo_qsize := qsize c, fo_plr := plr c,
          fo_w_q := fs_w_q c, fo_max_th := max_th r, fo_min_th := min_th r, fo_max_p := fs_max_p c, fo_flow_mask := flow_mask c,
          fo_rq_elements := int nq, fo_rq_size := (if fs_buckets c \<noteq> 0 then s32 (int (fs_buckets c)) else 1),
          fo_parent_nr := of_nat (fs_sched_nr c), fo_weight := fs_par c 0,
          fo_flags_fs := ucast (convertflags2old (fs_flags c))\<rparr>)) b)"

definition dn_compat_copy_queue :: "bool \<Rightarrow> 'x dn_env_scheme \<Rightarrow> fsid \<Rightarrow> obuf \<Rightarrow> (nat \<times> obuf) option" where
  "dn_compat_copy_queue is7 e f b =
     (let hash = (fs_flags (fsk_fs (fsks e f)) AND DN_HAVE_MASK \<noteq> 0) in do {
        n \<leftarrow> objs_count hash (qht (fsks e f));
        if ob_have b < s32 (int (sizeof_dn_flow_set + sizeof_dn_flow_queue8 * n)) then Some (1, b)
        else do {
          b \<leftarrow> copy_queues hash (qht (fsks e f)) (\<lambda>q. dn_c_copy_q is7 (q_ni (qs e q))) (dn_c_copy_fs e f n b);
          Some (0, b)
        }
      })"

text \<open>\<open>copy_data_helper_compat\<close> for pipes and for flowsets.\<close>

definition copy_compat_pipe :: "bool \<Rightarrow> int \<Rightarrow> 'x dn_env_scheme \<Rightarrow> schid \<Rightarrow> obuf \<Rightarrow> (nat \<times> obuf) option" where
  "copy_compat_pipe is7 hzv e k b =
     (let c = sk_sch (schks e k) in
      if id_subtype (sch_oid c) \<noteq> 1 \<or> sch_nr c \<le> DN_MAX_ID then Some (0, b)
      else map_option (\<lambda>(r, b). (if r \<noteq> 0 then DNHT_SCAN_END else 0, b)) (dn_compat_copy_pipe is7 hzv e k b))"

definition copy_compat_queue :: "bool \<Rightarrow> 'x dn_env_scheme \<Rightarrow> fsid \<Rightarrow> obuf \<Rightarrow> (nat \<times> obuf) option" where
  "copy_compat_queue is7 e f b =
     (if DN_MAX_ID \<le> fs_nr (fsk_fs (fsks e f)) then Some (0, b)
      else map_option (\<lambda>(r, b). (if r \<noteq> 0 then DNHT_SCAN_END else 0, b)) (dn_compat_copy_queue is7 e f b))"

definition scan_opt :: "htab option \<Rightarrow> (nat \<Rightarrow> obuf \<Rightarrow> (nat \<times> obuf) option) \<Rightarrow> obuf \<Rightarrow> obuf option" where
  "scan_opt t cb b = (case t of None \<Rightarrow> Some b | Some t \<Rightarrow> map_option snd (tab_scan cb t b))"

text \<open>
  \<open>dummynet_get\<close> in compatibility mode: \<open>Inl\<close> is an error, \<open>Inr None\<close> that there is not enough room for the user, and
  \<open>ss\<close>, as in \<open>dummynet_get\<close>, the states found each time the lock is taken.
\<close>

definition get_old_objects :: "bool \<Rightarrow> int \<Rightarrow> 'x dn_sys \<Rightarrow> old_obj list option" where
  "get_old_objects is7 have s = do {
     b \<leftarrow> scan_opt (schedhash s) (copy_compat_pipe is7 (hz s) (env s)) \<lparr>ob_have = have, ob_out = []\<rparr>;
     b \<leftarrow> scan_opt (fshash s) (copy_compat_queue is7 (env s)) b;
     Some (ob_out b)
   }"

definition dummynet_get_compat :: "bool \<Rightarrow> nat \<Rightarrow> (nat \<Rightarrow> 'x dn_sys) \<Rightarrow> (nat + old_obj list option) option" where
  "dummynet_get_compat is7 valsize ss =
     (case get_buffer ss (get_space sizeof_dn_id valsize DN_GET_COMPAT) valsize 0 10 0 of
        GetInvalid \<Rightarrow> Some (Inl EINVAL)
      | GetSmall need \<Rightarrow> Some (Inr None)
      | GetUnlocked \<Rightarrow> None
      | GetRoom i have need \<Rightarrow> map_option (\<lambda>xs. Inr (Some xs)) (get_old_objects is7 have (ss i)))"

text \<open>Option \<open>IP_DUMMYNET_GET\<close>: what is copied to the user, if anything; the result of the call is always 0.\<close>

definition ip_dummynet_compat_get :: "bool \<Rightarrow> nat \<Rightarrow> (nat \<Rightarrow> 'x dn_sys) \<Rightarrow> (bool \<times> old_obj list option) option" where
  "ip_dummynet_compat_get is7 valsize ss =
     (let is7 = find_version valsize is7
      in map_option (\<lambda>r. (is7, case r of Inl _ \<Rightarrow> None | Inr xs \<Rightarrow> xs)) (dummynet_get_compat is7 valsize ss))"

end
