(* ===== verification/DnGlueOk.thy ===== *)
theory DnGlueOk
  imports DnGlueGet DnGetOk DnConfOk
begin

text \<open>
  What the compatibility layer guarantees: the flags survive the conversion to the old layout and back, an old request
  of a known size is exactly a batch of new messages, and an export in the old layout can be read back: the
  number of queues in each header is the number of queues that follow it.
\<close>

section \<open>Flags\<close>

definition old_flags :: u32 where
  "old_flags = DN_HAVE_MASK OR DN_QSIZE_BYTES OR DN_NOERROR OR DN_IS_RED OR DN_IS_GENTLE_RED OR DN_HAS_PROFILE"

lemma and_one_bit: "x AND push_bit k (1 :: u32) = (if bit x k then push_bit k 1 else 0)"
  by (rule bit_word_eqI) (auto simp: bit_simps)

lemma flag_bits:
  "x AND (1 :: u32) = (if bit x 0 then 1 else 0)" "x AND (2 :: u32) = (if bit x 1 then 2 else 0)"
  "x AND (4 :: u32) = (if bit x 2 then 4 else 0)" "x AND (8 :: u32) = (if bit x 3 then 8 else 0)"
  "x AND (16 :: u32) = (if bit x 4 then 16 else 0)" "x AND (32 :: u32) = (if bit x 5 then 32 else 0)"
  "x AND (64 :: u32) = (if bit x 6 then 64 else 0)"
  using and_one_bit [of x 0] and_one_bit [of x 1] and_one_bit [of x 2] and_one_bit [of x 3] and_one_bit [of x 4]
    and_one_bit [of x 5] and_one_bit [of x 6] by simp_all

lemma old_flags_split: "f AND old_flags = (f AND 1) OR (f AND 2) OR (f AND 8) OR (f AND 16) OR (f AND 32) OR (f AND 64)"
  by (simp add: old_flags_def dn_flag_defs flip: bit.conj_disj_distrib)

text \<open>C37: The flags of a flowset that the old layout can hold come back unchanged from a conversion to the old layout and
  back, the other flags are dropped, and the old flags fit in their 16 bits.\<close>

theorem compat_flags_roundtrip:
  "convertflags2new (ucast (ucast (convertflags2old f) :: u16)) = f AND old_flags"
  unfolding old_flags_split
  by (cases "bit f 0"; cases "bit f 1"; cases "bit f 3"; cases "bit f 4"; cases "bit f 5"; cases "bit f 6";
        simp add: convertflags2new_def convertflags2old_def conv_flag_def old_flag_defs dn_flag_defs flag_bits)

section \<open>Requests\<close>

lemma oid_fill_simps [simp]: "id_type (oid_fill n t i) = t" "id_id (oid_fill n t i) = i" "id_len (oid_fill n t i) = of_nat n"
  by (simp_all add: oid_fill_def)

lemma o_next_oid [simp]: "ms_oid (o_next n t) = oid_fill n t 0"
  by (simp add: o_next_def)

lemma lay_other: "x < off \<Longrightarrow> \<forall>m\<in>set ms. sizeof_dn_id \<le> msg_len m \<Longrightarrow> lay off ms x = msg_zero"
  by (induction ms arbitrary: off) (simp_all add: sizeof_dn_id_def)

lemma laid_out_upd: "x < off \<Longrightarrow> laid_out (buf(x := m)) off ms = laid_out buf off ms"
  by (induction ms arbitrary: off) auto

lemma laid_out_lay: "\<forall>m\<in>set ms. sizeof_dn_id \<le> msg_len m \<Longrightarrow> laid_out (lay off ms) off ms"
  by (induction ms arbitrary: off) (simp_all add: laid_out_upd sizeof_dn_id_def)

text \<open>A batch made of whole messages.\<close>

lemma do_config_lay:
  assumes "\<forall>m\<in>set (m # ms). sizeof_dn_id \<le> msg_len m" "id_id (ms_oid m) = DN_API_VERSION"
  shows "do_config al (lay 0 (m # ms)) (sum_list (map msg_len (m # ms))) s = run_cmds al 0 None (m # ms) s"
proof -
  have l: "laid_out (lay 0 (m # ms)) 0 (m # ms)" using assms(1) by (rule laid_out_lay)
  then have "do_config_loop al (lay 0 (m # ms)) 0 (sum_list (map msg_len (m # ms)) + 0) None s =
      map_option (tail_res 0) (run_cmds al 0 None (m # ms) s)"
    by (rule do_config_loop_runs) (simp add: sizeof_dn_id_def)
  moreover have "map_option (tail_res 0) x = x" for x :: "(nat \<times> 'x dn_sys) option"
    by (cases x) (auto simp: tail_res_def sizeof_dn_id_def)
  ultimately have "do_config_loop al (lay 0 (m # ms)) 0 (sum_list (map msg_len (m # ms))) None s = run_cmds al 0 None (m # ms) s"
    by (simp only: add_0_right)
  moreover have "ms_oid (lay 0 (m # ms) 0) = ms_oid m" by simp
  ultimately show ?thesis using assms(2) by (simp only: do_config_def if_False simp_thms)
qed

text \<open>The kinds of the messages of a request.\<close>

definition msg_kinds :: "bool \<Rightarrow> old_req \<Rightarrow> u8 list" where
  "msg_kinds is7 r =
     (if p7_pipe_nr (or_p7 r) = 0 then [DN_CMD_CONFIG, DN_FS]
      else [DN_CMD_CONFIG, DN_SCH, DN_LINK, DN_FS] @ (if \<not> is7 \<and> 0 < p8_samples_no (or_p8 r) then [DN_PROFILE] else []))"

lemma compat_pipe_some: "is7 \<or> p8 \<noteq> None \<Longrightarrow> dn_compat_config_pipe is7 p7 p8 f c l g \<noteq> None"
  by (cases is7; cases p8) (simp_all add: dn_compat_config_pipe_def Let_def)

lemma compat_msgs_law:
  assumes "if is7 then pipesize7 \<le> or_len r else pipesize8 \<le> or_len r"
  shows "\<exists>m ms. compat_msgs is7 r = Some (m # ms) \<and> (\<forall>m\<in>set (m # ms). sizeof_dn_id \<le> msg_len m) \<and>
    id_id (ms_oid m) = DN_API_VERSION \<and> map (\<lambda>m. id_type (ms_oid m)) (m # ms) = msg_kinds is7 r"
proof -
  have l: "pipesize7 \<le> or_len r" using assms by (auto simp: old_size_defs split: if_splits)
  obtain f where f: "req_fs is7 r = Some f"
    using assms by (cases is7) (simp_all add: req_fs_def req_p7_def req_p8_def)
  have p8: "\<not> is7 \<Longrightarrow> req_p8 r = Some (or_p8 r)" using assms by (simp add: req_p8_def)
  then have "dn_compat_config_pipe is7 (or_p7 r) (req_p8 r) f (ms_sch (o_next sizeof_dn_sch DN_SCH))
      (ms_link (o_next sizeof_dn_link DN_LINK)) (ms_fs (o_next sizeof_dn_fs DN_FS)) \<noteq> None"
    by (intro compat_pipe_some) auto
  then obtain c p g where c: "dn_compat_config_pipe is7 (or_p7 r) (req_p8 r) f (ms_sch (o_next sizeof_dn_sch DN_SCH))
      (ms_link (o_next sizeof_dn_link DN_LINK)) (ms_fs (o_next sizeof_dn_fs DN_FS)) = Some (c, p, g)" by auto
  have "compat_msgs is7 r \<noteq> None"
    using l f c p8 by (cases is7) (simp_all add: compat_msgs_def req_p7_def Let_def)
  then obtain ms where ms: "compat_msgs is7 r = Some ms" by blast
  have "ms \<noteq> [] \<and> (\<forall>m\<in>set ms. sizeof_dn_id \<le> msg_len m) \<and> id_id (ms_oid (hd ms)) = DN_API_VERSION \<and>
      map (\<lambda>m. id_type (ms_oid m)) ms = msg_kinds is7 r"
    using ms l f c p8 by (auto simp: compat_msgs_def req_p7_def msg_kinds_def Let_def sizeof_defs split: if_splits)
  with ms show ?thesis by (cases ms) auto
qed

text \<open>C35: A configuration request of one of the three sizes of the old interface, whatever version was seen before, never
  reads outside the request and is exactly a batch of new messages run in order: for a pipe its scheduler, its link,
  its flowset and, in the layout of FreeBSD 8, its profile; for a queue its flowset.\<close>

theorem compat_configure_runs:
  assumes "or_len r = pipesize7 \<or> or_len r = pipesize8 \<or> or_len r = pipesizemax8"
  shows "\<exists>ms. compat_msgs (or_len r = pipesize7) r = Some ms \<and>
    map (\<lambda>m. id_type (ms_oid m)) ms = msg_kinds (or_len r = pipesize7) r \<and>
    ip_dummynet_compat al 0 IP_DUMMYNET_CONFIGURE r (v, s) =
      map_option (\<lambda>(err, s). (err, or_len r = pipesize7, s)) (run_cmds al 0 None ms s)"
proof -
  define is7 where "is7 = (or_len r = pipesize7)"
  have "if is7 then pipesize7 \<le> or_len r else pipesize8 \<le> or_len r"
    using assms by (auto simp: is7_def old_size_defs)
  from compat_msgs_law [OF this] obtain m ms where
    m: "compat_msgs is7 r = Some (m # ms)" "\<forall>m\<in>set (m # ms). sizeof_dn_id \<le> msg_len m"
      "id_id (ms_oid m) = DN_API_VERSION" "map (\<lambda>m. id_type (ms_oid m)) (m # ms) = msg_kinds is7 r" by blast
  have v: "find_version (or_len r) v = is7"
    using assms by (auto simp: find_version_def is7_def old_size_defs)
  have "dn_compat_configure al is7 r s =
      map_option (\<lambda>(err, s). (err, sum_list (map msg_len (m # ms)), s)) (run_cmds al 0 None (m # ms) s)"
    unfolding dn_compat_configure_def m(1) Let_def bind.bind_lunit do_config_lay [OF m(2,3)]
    by (cases "run_cmds al 0 None (m # ms) s") auto
  then have "ip_dummynet_compat al 0 IP_DUMMYNET_CONFIGURE r (v, s) =
      map_option (\<lambda>(err, s). (err, is7, s)) (run_cmds al 0 None (m # ms) s)"
    unfolding ip_dummynet_compat_def
    by (cases "run_cmds al 0 None (m # ms) s") (auto simp add: v simp del: run_cmds.simps)
  then show ?thesis using m(1,4) unfolding is7_def by blast
qed

text \<open>The pointer freed after a configuration is never the one that was allocated.\<close>

lemma compat_frees_inside: "dn_compat_configure al is7 r s = Some (err, off, s') \<Longrightarrow> 0 < off"
  by (auto simp: dn_compat_configure_def compat_msgs_def Let_def bind_eq_Some_conv sizeof_defs split: if_splits prod.splits)

text \<open>A request of another size leaves the version as it was, and may be read beyond its end.\<close>

lemma compat_short_request: "or_len r < pipesize7 \<Longrightarrow> ip_dummynet_compat al 0 IP_DUMMYNET_CONFIGURE r gs = None"
  by (simp add: ip_dummynet_compat_def dn_compat_configure_def compat_msgs_def req_p7_def)

text \<open>A pipe whose number is too large.\<close>

definition big_pipe :: old_req where
  "big_pipe = \<lparr>or_len = pipesize7, or_p7 = pipe7_zero\<lparr>p7_pipe_nr := 70000\<rparr>, or_p8 = pipe8_zero\<rparr>"

theorem compat_configure_runs_witness:
  "\<exists>ms. compat_msgs True big_pipe = Some ms \<and> map (\<lambda>m. id_type (ms_oid m)) ms = [DN_CMD_CONFIG, DN_SCH, DN_LINK, DN_FS] \<and>
    ip_dummynet_compat (\<lambda>_. fifo_like) 0 IP_DUMMYNET_CONFIGURE big_pipe (False, sys_zero env_zero) =
      Some (EINVAL, True, sys_zero env_zero)"
proof -
  obtain ms where ms: "compat_msgs True big_pipe = Some ms" "map (\<lambda>m. id_type (ms_oid m)) ms = msg_kinds True big_pipe"
      "ip_dummynet_compat (\<lambda>_. fifo_like) 0 IP_DUMMYNET_CONFIGURE big_pipe (False, sys_zero env_zero) =
        map_option (\<lambda>(err, s). (err, True, s)) (run_cmds (\<lambda>_. fifo_like) 0 None ms (sys_zero env_zero))"
    using compat_configure_runs [of big_pipe "\<lambda>_. fifo_like" False "sys_zero env_zero"] by (auto simp: big_pipe_def)
  have "run_cmds (\<lambda>_. fifo_like) 0 None ms (sys_zero env_zero) = Some (EINVAL, sys_zero env_zero)"
    using ms(1) by (auto simp: compat_msgs_def big_pipe_def req_p7_def req_fs_def pipe7_zero_def dn_compat_config_pipe_def Let_def
        dn_cmd_def config_sched_def sizeof_defs DN_MAX_ID_def EINVAL_def s32_id DN_CMD_CONFIG_def DN_CMD_DELETE_def
        DN_CMD_FLUSH_def DN_LINK_def DN_PROFILE_def DN_SCH_def DN_FS_def split: if_splits)
  with ms show ?thesis by (auto simp: msg_kinds_def big_pipe_def pipe7_zero_def)
qed

section \<open>Export\<close>

text \<open>Scans with a callback that never ends the scan.\<close>

lemma list_scan_fold: "list_scan (scan_cb (\<lambda>x b. Some (0, g x b))) (Some b) xs = (xs, [], 0, Some (fold g xs b), False)"
  by (induction xs arbitrary: b) (simp_all add: scan_cb_def)

lemma lists_scan_fold:
  "lists_scan is L (scan_cb (\<lambda>x b. Some (0, g x b))) n (Some b) = (L, n, Some (fold g (concat (map L is)) b))"
  by (induction "is" arbitrary: b) (simp_all add: list_scan_fold)

lemma tab_scan_fold: "tab_scan (\<lambda>x b. Some (0, g x b)) t b = Some (t, fold g (tab_list t) b)"
  by (simp add: tab_scan_def lists_scan_fold tab_list_def del: upt_Suc)

definition old_queue :: "bool \<Rightarrow> dn_flow \<Rightarrow> old_obj" where
  "old_queue is7 ni = last (ob_out (snd (dn_c_copy_q is7 ni \<lparr>ob_have = 0, ob_out = []\<rparr>)))"

lemma copy_q_old: "dn_c_copy_q is7 ni b = (0, ob_put (old_queue is7 ni) b)"
  by (simp add: dn_c_copy_q_def old_queue_def ob_put_def)

abbreviation old_sizes :: "old_obj list \<Rightarrow> nat" where
  "old_sizes xs \<equiv> (\<Sum>x\<leftarrow>xs. old_size x)"

lemma fold_put: "fold (\<lambda>q. ob_put (g q)) xs b =
    b\<lparr>ob_have := ob_have b - int (old_sizes (map g xs)), ob_out := ob_out b @ map g xs\<rparr>"
  by (induction xs arbitrary: b) (simp_all add: ob_put_def)

lemma copy_queues_old:
  assumes "copy_queues hash y (\<lambda>q. dn_c_copy_q is7 (ni q)) b = Some b'"
  shows "objs_shape hash y \<and> b' = b\<lparr>ob_have := ob_have b - int (old_sizes (map (\<lambda>q. old_queue is7 (ni q)) (objs_list y))),
    ob_out := ob_out b @ map (\<lambda>q. old_queue is7 (ni q)) (objs_list y)\<rparr>"
proof -
  have "tab_scan (\<lambda>q b. Some (dn_c_copy_q is7 (ni q) b)) t b = Some (t, fold (\<lambda>q. ob_put (old_queue is7 (ni q))) (tab_list t) b)" for t
    unfolding copy_q_old by (rule tab_scan_fold)
  then show ?thesis using assms
    by (auto simp: copy_queues_def copy_q_old objs_shape_def objs_list_def fold_put ob_put_def split: objs.splits if_splits)
qed

text \<open>A header with the queues it announces, in the layout of one version.\<close>

fun is_old_queue :: "bool \<Rightarrow> old_obj \<Rightarrow> bool" where
  "is_old_queue is7 (OQueue7 _) = is7"
| "is_old_queue is7 (OQueue8 _) = (\<not> is7)"
| "is_old_queue is7 _ = False"

fun pipe_header :: "bool \<Rightarrow> old_obj \<Rightarrow> int option" where
  "pipe_header is7 (OPipe7 p) = (if is7 then Some (fo_rq_elements (p7_fs p)) else None)"
| "pipe_header is7 (OPipe8 p) = (if is7 then None else Some (fo_rq_elements (p8_fs p)))"
| "pipe_header is7 _ = None"

fun fs_header :: "old_obj \<Rightarrow> int option" where
  "fs_header (OFs f) = Some (fo_rq_elements f)"
| "fs_header _ = None"

definition old_block :: "bool \<Rightarrow> (old_obj \<Rightarrow> int option) \<Rightarrow> old_obj list \<Rightarrow> bool" where
  "old_block is7 hdr xs \<longleftrightarrow> (\<exists>h qs. xs = h # qs \<and> hdr h = Some (int (length qs)) \<and> (\<forall>q\<in>set qs. is_old_queue is7 q))"

lemma old_queue_is [simp]: "is_old_queue is7 (old_queue is7 ni)"
  "old_size (old_queue is7 ni) = (if is7 then sizeof_dn_flow_queue7 else sizeof_dn_flow_queue8)"
  by (simp_all add: old_queue_def dn_c_copy_q_def ob_put_def)

text \<open>One more block with room for it.\<close>

definition block_put :: "bool \<Rightarrow> (old_obj \<Rightarrow> int option) \<Rightarrow> obuf \<Rightarrow> obuf \<Rightarrow> bool" where
  "block_put is7 hdr b b' \<longleftrightarrow> (\<exists>xs. old_block is7 hdr xs \<and> ob_out b' = ob_out b @ xs \<and>
     ob_have b' = ob_have b - int (old_sizes xs) \<and> 0 \<le> ob_have b')"

lemma old_need:
  assumes "n < 2 ^ 20" "\<not> ob_have b < s32 (int (h + sizeof_dn_flow_queue8 * n))" "h \<le> 2 ^ 10" "k \<le> h" "q \<le> sizeof_dn_flow_queue8"
  shows "int (k + q * n) \<le> ob_have b"
proof -
  have "q * n \<le> sizeof_dn_flow_queue8 * n" using assms(5) by (rule mult_le_mono1)
  moreover have "s32 (int (h + sizeof_dn_flow_queue8 * n)) = int (h + sizeof_dn_flow_queue8 * n)"
    using assms(1,3) by (intro s32_id) (simp_all add: sizeof_dn_flow_queue8_def)
  ultimately show ?thesis using assms(2,4) by linarith
qed

lemma copy_pipe_header:
  assumes "dn_c_copy_pipe is7 hzv e k n b = Some b1"
  defines "h \<equiv> last (ob_out b1)"
  shows "b1 = ob_put h b" "pipe_header is7 h = Some (int n)" "old_size h = (if is7 then pipesize7 else pipesize8)"
proof -
  have "\<exists>x. b1 = ob_put x b \<and> pipe_header is7 x = Some (int n) \<and> old_size x = (if is7 then pipesize7 else pipesize8)"
    using assms(1) unfolding dn_c_copy_pipe_def Let_def
    by (cases is7; cases "sk_profile (schks e k)") (auto simp: bind_eq_Some_conv split: if_splits)
  then obtain x where x: "b1 = ob_put x b" "pipe_header is7 x = Some (int n)" "old_size x = (if is7 then pipesize7 else pipesize8)"
    by blast
  moreover have "h = x" using x(1) by (simp add: h_def ob_put_def)
  ultimately show "b1 = ob_put h b" "pipe_header is7 h = Some (int n)" "old_size h = (if is7 then pipesize7 else pipesize8)"
    by simp_all
qed

lemma copy_pipe_block:
  assumes "dn_compat_copy_pipe is7 hzv e k b = Some (r, b')" "length (objs_list (siht (schks e k))) < 2 ^ 20"
  shows "r \<noteq> 0 \<and> b' = b \<or> r = 0 \<and> block_put is7 (pipe_header is7) b b'"
proof (cases "r = 0")
  case True
  define hash where "hash = (sch_flags (sk_sch (schks e k)) AND DN_HAVE_MASK \<noteq> 0)"
  define ys where "ys = map (\<lambda>i. old_queue is7 (si_ni (sis e i))) (objs_list (siht (schks e k)))"
  obtain n b1 where n: "objs_count hash (siht (schks e k)) = Some n"
      "\<not> ob_have b < s32 (int (pipesize8 + sizeof_dn_flow_queue8 * n))" "dn_c_copy_pipe is7 hzv e k n b = Some b1"
      "copy_queues hash (siht (schks e k)) (\<lambda>i. dn_c_copy_q is7 (si_ni (sis e i))) b1 = Some b'"
    using assms(1) True by (auto simp: dn_compat_copy_pipe_def Let_def hash_def bind_eq_Some_conv split: if_splits)
  from copy_queues_old [OF n(4)] have q: "objs_shape hash (siht (schks e k))"
      "b' = b1\<lparr>ob_have := ob_have b1 - int (old_sizes ys), ob_out := ob_out b1 @ ys\<rparr>" by (simp_all add: ys_def)
  have nq: "n = length ys" using objs_count_list [OF q(1)] n(1) by (simp add: ys_def)
  define h where "h = last (ob_out b1)"
  note h = copy_pipe_header [OF n(3), folded h_def]
  have "old_sizes ys = (if is7 then sizeof_dn_flow_queue7 else sizeof_dn_flow_queue8) * n"
    unfolding nq by (simp add: ys_def comp_def sum_list_triv)
  moreover have "int (old_size h + (if is7 then sizeof_dn_flow_queue7 else sizeof_dn_flow_queue8) * n) \<le> ob_have b"
    using assms(2) nq by (intro old_need [OF _ n(2)]) (simp_all add: h(3) old_size_defs ys_def)
  ultimately have "0 \<le> ob_have b'" by (simp add: q(2) h(1) ob_put_def)
  moreover have "old_block is7 (pipe_header is7) (h # ys)"
    using h(2) nq by (simp add: old_block_def) (simp add: ys_def)
  ultimately show ?thesis using True h q(2) by (auto simp: block_put_def ob_put_def intro!: exI [of _ "h # ys"])
next
  case False
  then show ?thesis using assms(1) by (auto simp: dn_compat_copy_pipe_def Let_def bind_eq_Some_conv split: if_splits)
qed

lemma copy_fs_header:
  "\<exists>h. dn_c_copy_fs e f n b = ob_put h b \<and> fs_header h = Some (int n) \<and> old_size h = sizeof_dn_flow_set"
  by (auto simp: dn_c_copy_fs_def Let_def)

lemma copy_queue_block:
  assumes "dn_compat_copy_queue is7 e f b = Some (r, b')" "length (objs_list (qht (fsks e f))) < 2 ^ 20"
  shows "r \<noteq> 0 \<and> b' = b \<or> r = 0 \<and> block_put is7 fs_header b b'"
proof (cases "r = 0")
  case True
  define hash where "hash = (fs_flags (fsk_fs (fsks e f)) AND DN_HAVE_MASK \<noteq> 0)"
  define ys where "ys = map (\<lambda>q. old_queue is7 (q_ni (qs e q))) (objs_list (qht (fsks e f)))"
  obtain n where n: "objs_count hash (qht (fsks e f)) = Some n"
      "\<not> ob_have b < s32 (int (sizeof_dn_flow_set + sizeof_dn_flow_queue8 * n))"
      "copy_queues hash (qht (fsks e f)) (\<lambda>q. dn_c_copy_q is7 (q_ni (qs e q))) (dn_c_copy_fs e f n b) = Some b'"
    using assms(1) True by (auto simp: dn_compat_copy_queue_def Let_def hash_def bind_eq_Some_conv split: if_splits)
  obtain h where h: "dn_c_copy_fs e f n b = ob_put h b" "fs_header h = Some (int n)" "old_size h = sizeof_dn_flow_set"
    using copy_fs_header by blast
  from copy_queues_old [OF n(3)] have q: "objs_shape hash (qht (fsks e f))"
      "b' = (ob_put h b)\<lparr>ob_have := ob_have (ob_put h b) - int (old_sizes ys), ob_out := ob_out (ob_put h b) @ ys\<rparr>"
    by (simp_all add: ys_def h(1))
  have nq: "n = length ys" using objs_count_list [OF q(1)] n(1) by (simp add: ys_def)
  have "old_sizes ys = (if is7 then sizeof_dn_flow_queue7 else sizeof_dn_flow_queue8) * n"
    unfolding nq by (simp add: ys_def comp_def sum_list_triv)
  moreover have "int (old_size h + (if is7 then sizeof_dn_flow_queue7 else sizeof_dn_flow_queue8) * n) \<le> ob_have b"
    using assms(2) nq by (intro old_need [OF _ n(2)]) (simp_all add: h(3) old_size_defs ys_def)
  ultimately have "0 \<le> ob_have b'" by (simp add: q(2) ob_put_def)
  moreover have "old_block is7 fs_header (h # ys)"
    using h(2) nq by (simp add: old_block_def) (simp add: ys_def)
  ultimately show ?thesis using True h q(2) by (auto simp: block_put_def ob_put_def intro!: exI [of _ "h # ys"])
next
  case False
  then show ?thesis using assms(1) by (auto simp: dn_compat_copy_queue_def Let_def bind_eq_Some_conv split: if_splits)
qed

text \<open>The buffer after any number of blocks.\<close>

definition blocks_put :: "bool \<Rightarrow> (old_obj \<Rightarrow> int option) \<Rightarrow> obuf \<Rightarrow> obuf \<Rightarrow> bool" where
  "blocks_put is7 hdr b b' \<longleftrightarrow> (\<exists>bs. (\<forall>B\<in>set bs. old_block is7 hdr B) \<and> ob_out b' = ob_out b @ concat bs \<and>
     ob_have b' = ob_have b - int (old_sizes (concat bs)) \<and> (0 \<le> ob_have b \<longrightarrow> 0 \<le> ob_have b'))"

lemma blocks_put_refl: "blocks_put is7 hdr b b"
  unfolding blocks_put_def by (rule exI [of _ "[]"]) simp

lemma blocks_put_step: "blocks_put is7 hdr b0 b \<Longrightarrow> block_put is7 hdr b b' \<Longrightarrow> blocks_put is7 hdr b0 b'"
proof -
  assume "blocks_put is7 hdr b0 b" "block_put is7 hdr b b'"
  then obtain bs xs where "\<forall>B\<in>set bs. old_block is7 hdr B" "ob_out b = ob_out b0 @ concat bs"
      "ob_have b = ob_have b0 - int (old_sizes (concat bs))" "old_block is7 hdr xs" "ob_out b' = ob_out b @ xs"
      "ob_have b' = ob_have b - int (old_sizes xs)" "0 \<le> ob_have b'"
    by (auto simp: blocks_put_def block_put_def)
  then show ?thesis unfolding blocks_put_def by (intro exI [of _ "bs @ [xs]"]) auto
qed

lemma scan_opt_blocks:
  assumes "scan_opt t cb b = Some b'" "\<And>x b r b'. cb x b = Some (r, b') \<Longrightarrow> b' = b \<or> block_put is7 hdr b b'"
  shows "blocks_put is7 hdr b b'"
proof (cases t)
  case None
  then show ?thesis using assms(1) by (simp add: scan_opt_def blocks_put_refl)
next
  case (Some u)
  then obtain u' where "tab_scan cb u b = Some (u', b')" using assms(1) by (auto simp: scan_opt_def)
  moreover have "blocks_put is7 hdr b y'" if "cb x y = Some (r, y')" "blocks_put is7 hdr b y" for x y r y'
    using assms(2) [OF that(1)] that(2) blocks_put_step by blast
  ultimately show ?thesis using tab_scan_keeps [of cb "blocks_put is7 hdr b"] blocks_put_refl by blast
qed

text \<open>Fewer than \<open>2 ^ 20\<close> queues in each flowset and instances in each scheduler.\<close>

definition few_queues :: "'x dn_sys \<Rightarrow> bool" where
  "few_queues s \<longleftrightarrow> (\<forall>f. length (objs_list (qht (fsks (env s) f))) < 2 ^ 20) \<and>
     (\<forall>k. length (objs_list (siht (schks (env s) k))) < 2 ^ 20)"

lemma get_old_objects_blocks:
  assumes "get_old_objects is7 hv s = Some xs" "few_queues s" "0 \<le> hv"
  shows "\<exists>ps fs. xs = concat ps @ concat fs \<and> (\<forall>B\<in>set ps. old_block is7 (pipe_header is7) B) \<and>
    (\<forall>B\<in>set fs. old_block is7 fs_header B) \<and> int (old_sizes xs) \<le> hv"
proof -
  define b0 where "b0 = \<lparr>ob_have = hv, ob_out = []\<rparr>"
  obtain b1 b2 where b: "scan_opt (schedhash s) (copy_compat_pipe is7 (hz s) (env s)) b0 = Some b1"
      "scan_opt (fshash s) (copy_compat_queue is7 (env s)) b1 = Some b2" "xs = ob_out b2"
    using assms(1) by (auto simp: get_old_objects_def b0_def bind_eq_Some_conv)
  have "blocks_put is7 (pipe_header is7) b0 b1"
    using b(1) by (rule scan_opt_blocks)
      (use assms(2) copy_pipe_block in \<open>auto simp: copy_compat_pipe_def Let_def few_queues_def split: if_splits; blast\<close>)
  moreover have "blocks_put is7 fs_header b1 b2"
    using b(2) by (rule scan_opt_blocks)
      (use assms(2) copy_queue_block in \<open>auto simp: copy_compat_queue_def Let_def few_queues_def split: if_splits; blast\<close>)
  ultimately show ?thesis using b(3) assms(3) by (auto simp: blocks_put_def b0_def) blast
qed

text \<open>C36: An export in the old layout can be read back by its consumer, which takes the number of queues from each
  header: first the pipes and then the flowsets, each header followed by exactly as many queues as it announces, all
  in the layout of one version; and it fits in the user's buffer.\<close>

theorem compat_get_readable:
  assumes "ip_dummynet_compat_get v valsize ss = Some (is7, Some xs)" "\<And>i. few_queues (ss i)"
  shows "\<exists>ps fs. xs = concat ps @ concat fs \<and> (\<forall>B\<in>set ps. old_block is7 (pipe_header is7) B) \<and>
    (\<forall>B\<in>set fs. old_block is7 fs_header B) \<and> old_sizes xs \<le> valsize"
proof -
  obtain z where "dummynet_get_compat is7 valsize ss = Some z" "(case z of Inl _ \<Rightarrow> None | Inr xs \<Rightarrow> xs) = Some xs"
    using assms(1) by (auto simp: ip_dummynet_compat_get_def Let_def)
  then have "dummynet_get_compat is7 valsize ss = Some (Inr (Some xs))" by (cases z) simp_all
  then obtain i h need where r: "get_buffer ss (get_space sizeof_dn_id valsize DN_GET_COMPAT) valsize 0 10 0 = GetRoom i h need"
      "get_old_objects is7 h (ss i) = Some xs"
    by (auto simp: dummynet_get_compat_def split: get_buf.splits)
  have "8 \<le> h" "h \<le> int valsize" using get_buffer_room [OF get_space_range r(1)] by blast+
  then show ?thesis using get_old_objects_blocks [OF r(2) assms(2)] by fastforce
qed

lemma get_sys_few: "few_queues get_sys"
  by (auto simp: few_queues_def get_sys_def get_env_def sys_zero_def env_zero_def objs_list_def fsk_zero_def schk_zero_def)

lemma get_sys_old: "\<exists>xs. ip_dummynet_compat_get False 1000 (\<lambda>_. get_sys) = Some (False, Some xs) \<and> length xs = 2"
proof -
  have z: "add_space 0 424 2 0 = 0" by (simp add: add_space_def s32_id)
  have sp: "get_space sizeof_dn_id 1000 DN_GET_COMPAT get_sys = 376"
    by (simp add: z get_space_def compute_space_def dn_compat_calc_size_def DN_GET_COMPAT_def DN_LINK_def DN_SCH_def DN_FS_def
        old_size_defs get_sys_def sys_zero_def add_space_exact)
  have "get_buffer (\<lambda>_. get_sys) (get_space sizeof_dn_id 1000 DN_GET_COMPAT) 1000 0 (Suc (Suc 8)) 0 = GetRoom 1 384 384"
    by (simp add: sp Let_def s32_id sizeof_dn_id_def [symmetric]) (simp add: sizeof_dn_id_def s32_id)
  then have "get_buffer (\<lambda>_. get_sys) (get_space sizeof_dn_id 1000 DN_GET_COMPAT) 1000 0 10 0 = GetRoom 1 384 384"
    by (simp add: numeral_eq_Suc)
  moreover have "\<exists>xs. get_old_objects False 384 get_sys = Some xs \<and> length xs = 2"
  proof -
    have t: "tab_scan cb \<lparr>hb_mask = 0, hb_list = \<lambda>_. [5]\<rparr> b = Some (u, y)" if "cb 5 b = Some (0, y)"
        "u = \<lparr>hb_mask = 0, hb_list = \<lambda>_. [5]\<rparr>" for cb and b y :: obuf and u
      using that by (auto simp: tab_scan_def scan_cb_def fun_eq_iff)
    show ?thesis
      by (simp add: get_old_objects_def scan_opt_def get_sys_def sys_zero_def get_env_def t copy_compat_queue_def
          dn_compat_copy_queue_def objs_count_def copy_queues_def DN_MAX_ID_def dn_c_copy_fs_def dn_c_copy_q_def ob_put_def
          Let_def fs_zero_def fsk_zero_def env_zero_def old_size_defs s32_id)
  qed
  ultimately show ?thesis by (auto simp: ip_dummynet_compat_get_def dummynet_get_compat_def find_version_def old_size_defs)
qed

theorem compat_get_readable_witness:
  "\<exists>xs ps fs. ip_dummynet_compat_get False 1000 (\<lambda>_. get_sys) = Some (False, Some xs) \<and> xs = concat ps @ concat fs \<and>
    (\<forall>B\<in>set ps. old_block False (pipe_header False) B) \<and> (\<forall>B\<in>set fs. old_block False fs_header B) \<and>
    old_sizes xs \<le> 1000 \<and> length xs = 2"
proof -
  obtain xs where "ip_dummynet_compat_get False 1000 (\<lambda>_. get_sys) = Some (False, Some xs)" "length xs = 2"
    using get_sys_old by blast
  with compat_get_readable [OF this(1) get_sys_few] show ?thesis by blast
qed

text \<open>A flowset that has a table of queues only because its scheduler has a mask: the table is taken for a queue.\<close>

lemma compat_table_as_queue:
  assumes "fs_flags (fsk_fs (fsks e f)) AND DN_HAVE_MASK = 0" "qht (fsks e f) = Table t" "1000 \<le> ob_have b"
  shows "dn_compat_copy_queue is7 e f b = None"
  using assms by (simp add: dn_compat_copy_queue_def objs_count_def copy_queues_def old_size_defs s32_id)

end
