(* ===== verification/DnIo.thy ===== *)
theory DnIo
  imports DnObj
begin

text \<open>
  The data path, from \<open>sys/netinet/ipfw/ip_dn_io.c\<close>: a packet enters through \<open>dummynet_io\<close>, waits in
  its scheduler instance and then in the delay line of the link, and leaves through \<open>dummynet_send\<close>.
  The timer handler \<open>dummynet_task\<close> advances the clock, serves the due events of the heap and drains
  idle objects. \<open>None\<close> is a call that does not return.
\<close>

section \<open>Tags and the delay line\<close>

text \<open>A packet inside dummynet has the tag of dummynet first; anything else panics.\<close>

definition dn_tag_get :: "mbuf \<Rightarrow> dn_pkt_tag option" where
  "dn_tag_get m =
     (case m_tags m of [] \<Rightarrow> None | t # ts \<Rightarrow> if tag_kind t = PACKET_TAG_DUMMYNET then Some (tag_dn t) else None)"

definition upd_tag :: "(dn_pkt_tag \<Rightarrow> dn_pkt_tag) \<Rightarrow> mbuf \<Rightarrow> mbuf" where
  "upd_tag f m = (case m_tags m of [] \<Rightarrow> m | t # ts \<Rightarrow> m\<lparr>m_tags := t\<lparr>tag_dn := f (tag_dn t)\<rparr> # ts\<rparr>)"

definition rename_tag :: "mbuf \<Rightarrow> mbuf" where
  "rename_tag m = (case m_tags m of [] \<Rightarrow> m | t # ts \<Rightarrow> m\<lparr>m_tags := t\<lparr>tag_kind := MTAG_IPFW_RULE\<rparr> # ts\<rparr>)"

text \<open>The packets of a delay line due by \<open>now\<close>, and the rest.\<close>

primrec dline_split :: "u64 \<Rightarrow> mbuf list \<Rightarrow> (mbuf list \<times> mbuf list) option" where
  "dline_split now [] = Some ([], [])"
| "dline_split now (m # ms) = do {
     t \<leftarrow> dn_tag_get m;
     if \<not> DN_KEY_LEQ (output_time t) now then Some ([], m # ms)
     else do { (due, rest) \<leftarrow> dline_split now ms; Some (m # due, rest) }
   }"

definition transmit_event :: "mbuf list \<Rightarrow> siid \<Rightarrow> u64 \<Rightarrow> 'x dn_sys \<Rightarrow> (mbuf list \<times> 'x dn_sys) option" where
  "transmit_event q i now s = do {
     let s = on_env (upd_si i (\<lambda>r. r\<lparr>dline_in_heap := False\<rparr>)) s;
     (due, rest) \<leftarrow> dline_split now (si_dline (sis (env s) i));
     let s = on_env (upd_si i (\<lambda>r. r\<lparr>si_dline := rest\<rparr>)) s;
     case rest of
       [] \<Rightarrow> Some (q @ due, s)
     | m # ms \<Rightarrow> do {
         t \<leftarrow> dn_tag_get m;
         let s = on_env (upd_si i (\<lambda>r. r\<lparr>dline_in_heap := True\<rparr>)) s;
         Some (q @ due, ev_insert (output_time t) (EvDL i) s)
       }
   }"

section \<open>Serving a scheduler instance\<close>

text \<open>
  The MAC overhead of a packet in bits, drawn from the profile of the link, which may also mark the packet
  as lost. \<open>random()\<close> is not negative; an index past the samples is an access out of bounds.
\<close>

definition extra_bits :: "mbuf \<Rightarrow> schid \<Rightarrow> 'x dn_sys \<Rightarrow> (u64 \<times> mbuf \<times> 'x dn_sys) option" where
  "extra_bits m k s =
     (case sk_profile (schks (env s) k) of
        None \<Rightarrow> Some (0, m, s)
      | Some pf \<Rightarrow>
          if samples_no pf = 0 then Some (0, m, s)
          else
            let (r, e) = get_random (env s); s = s\<lparr>env := e\<rparr>; index = r mod \<bar>samples_no pf\<bar> in
            if index < 0 \<or> int (length (samples pf)) \<le> index then None
            else
              let x = (word_of_int (samples pf ! nat index) * word_of_int (bandwidth (sk_link (schks (env s) k))) :: u64);
                  bits = (word_of_int (div64 (sint x) 1000) :: u64)
              in if loss_level pf \<le> index then do {
                   _ \<leftarrow> dn_tag_get m;
                   Some (bits, upd_tag (\<lambda>t. t\<lparr>dn_dir := 3\<rparr>) m, s)
                 }
                 else Some (bits, m, s))"

definition add_credit :: "siid \<Rightarrow> int \<Rightarrow> 'x dn_sys \<Rightarrow> 'x dn_sys" where
  "add_credit i c = on_env (upd_si i (\<lambda>r. r\<lparr>si_credit := s64 (si_credit r + c)\<rparr>))"

text \<open>A packet from the scheduler is paid for and goes to the end of the delay line.\<close>

definition pkt_price :: "int \<Rightarrow> schid \<Rightarrow> mbuf \<Rightarrow> 'x dn_sys \<Rightarrow> (u64 \<times> mbuf \<times> 'x dn_sys) option" where
  "pkt_price bw k m s =
     (if bw = 0 then Some (0, m, s)
      else do {
        (x, m, s) \<leftarrow> extra_bits m k s;
        Some (word_of_int (hz s) * (word_of_int (s32 (m_len m * 8)) + x), m, s)
      })"

definition serve_pkt :: "schid \<Rightarrow> siid \<Rightarrow> int \<Rightarrow> mbuf \<Rightarrow> 'x dn_sys \<Rightarrow> 'x dn_sys option" where
  "serve_pkt k i bw m s = do {
     (len_scaled, m, s) \<leftarrow> pkt_price bw k m s;
     let s = add_credit i (- uint len_scaled) s;
     _ \<leftarrow> dn_tag_get m;
     let m = upd_tag (\<lambda>t. t\<lparr>output_time := curr_time (env s) + word_of_int (delay (sk_link (schks (env s) k)))\<rparr>) m;
     Some (on_env (upd_si i (\<lambda>r. r\<lparr>si_dline := si_dline r @ [m]\<rparr>)) s)
   }"

text \<open>
  The loop: as long as there is credit, ask the scheduler for a packet. It returns the number of packets
  served, and the length of a packet of negative length, which asks to be woken up later.
\<close>

partial_function (option) serve_loop ::
  "('x dn_env_scheme) dn_alg \<Rightarrow> schid \<Rightarrow> siid \<Rightarrow> int \<Rightarrow> nat \<Rightarrow> 'x dn_sys \<Rightarrow> (nat \<times> int option \<times> 'x dn_sys) option" where
  "serve_loop a k i bw done1 s =
     (if si_credit (sis (env s) i) < 0 then Some (done1, None, s)
      else Option.bind (lift_cbo (al_dequeue a i) s) (\<lambda>(p, s).
        case p of
          None \<Rightarrow> Some (done1, None, s)
        | Some m \<Rightarrow>
            if m_len m < 0 then Some (done1, Some (m_len m), s)
            else Option.bind (serve_pkt k i bw m s) (\<lambda>s. serve_loop a k i bw (done1 + 1) s)))"

definition set_active :: "bool \<Rightarrow> siid \<Rightarrow> 'x dn_sys \<Rightarrow> 'x dn_sys" where
  "set_active b i = on_env (upd_si i (\<lambda>r. r\<lparr>si_kflags := (if b then si_kflags r OR DN_ACTIVE else si_kflags r AND NOT DN_ACTIVE)\<rparr>))"

definition upd_last :: "('a \<Rightarrow> 'a) \<Rightarrow> 'a list \<Rightarrow> 'a list" where
  "upd_last f xs = (if xs = [] then [] else butlast xs @ [f (last xs)])"

text \<open>
  With credit left the instance is idle; otherwise it goes back to the heap for the tick in which its
  credit is paid back, and the last packet leaves then.
\<close>

definition serve_end :: "siid \<Rightarrow> int \<Rightarrow> u64 \<Rightarrow> nat \<Rightarrow> 'x dn_sys \<Rightarrow> 'x dn_sys option" where
  "serve_end i bw now done1 s =
     (if 0 \<le> si_credit (sis (env s) i) then Some (on_env (upd_si i (\<lambda>r. r\<lparr>idle_time := now\<rparr>)) s)
      else if bw \<le> 0 then None
      else
        let t = (word_of_int (div64 (s64 (bw - 1 - si_credit (sis (env s) i))) bw) :: u64);
            s = (if 0 < done1 then on_env (upd_si i (\<lambda>r. r\<lparr>si_dline := upd_last (upd_tag (\<lambda>u. u\<lparr>output_time := output_time u + t\<rparr>)) (si_dline r)\<rparr>)) s
                 else s)
        in Some (ev_insert (now + t) (EvSI i) (set_active True i s)))"

text \<open>
  At the start the instance leaves the heap and is credited with the bits of the ticks since it was last
  served. At the end packets of a delay line that was idle are sent, or the line goes into the heap.
\<close>

definition serve_start :: "siid \<Rightarrow> int \<Rightarrow> u64 \<Rightarrow> 'x dn_sys \<Rightarrow> 'x dn_sys" where
  "serve_start i bw now s =
     (let s = set_active False i s;
          s = (if 0 < bw then add_credit i (uint ((now - sched_time (sis (env s) i)) * word_of_int bw)) s
               else on_env (upd_si i (\<lambda>r. r\<lparr>si_credit := 0\<rparr>)) s)
      in on_env (upd_si i (\<lambda>r. r\<lparr>sched_time := now\<rparr>)) s)"

definition serve_out :: "bool \<Rightarrow> mbuf list \<Rightarrow> siid \<Rightarrow> u64 \<Rightarrow> 'x dn_sys \<Rightarrow> (mbuf list \<times> 'x dn_sys) option" where
  "serve_out go q i now s = (if go then transmit_event q i now s else Some (q, s))"

text \<open>
  \<open>serve_sched\<close> with the packet list \<open>q\<close> given by the caller (\<open>[]\<close> for NULL): the returned list, and \<open>q\<close>.
\<close>

definition serve_sched ::
  "'x algs \<Rightarrow> mbuf list \<Rightarrow> siid \<Rightarrow> u64 \<Rightarrow> 'x dn_sys \<Rightarrow> (mbuf list \<times> mbuf list \<times> 'x dn_sys) option" where
  "serve_sched al q i now s = do {
     let si = sis (env s) i;
     let k = si_sched si;
     let idle = (si_dline si = []);
     let bw = bandwidth (sk_link (schks (env s) k));
     let s = serve_start i bw now s;
     a \<leftarrow> sk_alg al (env s) k;
     (done1, w, s) \<leftarrow> serve_loop a k i bw 0 s;
     case w of
       Some len \<Rightarrow> do {
         let s = ev_insert (now - word_of_int len) (EvSI i) (set_active True i s);
         (q, s) \<leftarrow> serve_out (idle \<and> 0 < done1) q i now s;
         Some ([], q, s)
       }
     | None \<Rightarrow> do {
         s \<leftarrow> serve_end i bw now done1 s;
         (q, s) \<leftarrow> serve_out (idle \<and> 0 < done1) q i now s;
         Some (q, q, s)
       }
   }"

section \<open>The timer\<close>

text \<open>The average task period, on machines with a cycle counter.\<close>

definition read_tsc :: "'x dn_sys \<Rightarrow> u64 \<times> 'x dn_sys" where
  "read_tsc s = (case tsc s of None \<Rightarrow> (0, s) | Some f \<Rightarrow> (f 0, s\<lparr>tsc := Some (\<lambda>n. f (Suc n))\<rparr>))"

definition do_update_cycle :: "'x dn_sys \<Rightarrow> 'x dn_sys" where
  "do_update_cycle s =
     (if tsc s = None then s
      else
        let (tmp, s) = read_tsc s;
            s = s\<lparr>cycle_task_old := cycle_task_new s, cycle_task_new := tmp\<rparr>;
            s = s\<lparr>cycle_task := cycle_task_new s - cycle_task_old s\<rparr>
        in s\<lparr>cycle_task_avg := drop_bit 4 (push_bit 4 (cycle_task_avg s) + cycle_task s - cycle_task_avg s)\<rparr>)"

text \<open>One round of draining: whether anything was done. The idle counters are compared as unsigned numbers.\<close>

definition drain_round :: "'x algs \<Rightarrow> 'x dn_sys \<Rightarrow> (bool \<times> 'x dn_sys) option" where
  "drain_round al s = do {
     let b1 = (expire_object s < word_of_int (idle_queue (env s)) \<and> idle_queue_wait s < idle_queue (env s));
     s \<leftarrow> (if b1 then dn_drain_queue al s else Some s);
     let b2 = (expire_object s < word_of_int (idle_si (env s)) \<and> idle_si_wait s < idle_si (env s));
     s \<leftarrow> (if b2 then dn_drain_scheduler al s else Some s);
     Some (b1 \<or> b2, s)
   }"

partial_function (option) drain_loop :: "'x algs \<Rightarrow> u64 \<Rightarrow> 'x dn_sys \<Rightarrow> 'x dn_sys option" where
  "drain_loop al dt_max s =
     Option.bind (drain_round al s) (\<lambda>(b, s).
       if tsc s = None then Some s
       else if \<not> b then Some s
       else case read_tsc s of (t, s) \<Rightarrow>
         if dt_max < (t - cycle_task_new s) * 100 then Some s else drain_loop al dt_max s)"

definition do_drain :: "'x algs \<Rightarrow> 'x dn_sys \<Rightarrow> 'x dn_sys option" where
  "do_drain al s =
     (if expire s = 0 then Some s
      else
        let s = s\<lparr>expire_cycle := expire_cycle s + 1\<rparr> in
        if expire_cycle s < expire s then Some s
        else drain_loop al (cycle_task_avg s * word_of_int (drain_ratio s))
               (s\<lparr>expire_cycle := 0, idle_queue_wait := 0, idle_si_wait := 0\<rparr>))"

text \<open>The adjustment of the clock to the real time \<open>t\<close> (seconds, microseconds).\<close>

definition cmod :: "int \<Rightarrow> int \<Rightarrow> int" where "cmod a b = a - cdiv a b * b"

definition set_clock :: "int \<Rightarrow> 'x dn_sys \<Rightarrow> 'x dn_sys" where
  "set_clock d = on_env (\<lambda>e. e\<lparr>curr_time := curr_time e + word_of_int d\<rparr>)"

definition elapsed :: "int \<times> int \<Rightarrow> 'x dn_sys \<Rightarrow> int" where
  "elapsed t s = (fst t - fst (prev_t s)) * 1000000 + (snd t - snd (prev_t s))"

definition tick_adjust :: "'x dn_sys \<Rightarrow> 'x dn_sys" where
  "tick_adjust s =
     (if 0 \<le> tick_delta_sum s - tick s then
        let d = s32 (cdiv (tick_delta_sum s) (tick s))
        in (set_clock d s)\<lparr>tick_diff := s64 (tick_diff s + d), tick_delta_sum := cmod (tick_delta_sum s) (tick s),
              tick_adjustment := tick_adjustment s + 1\<rparr>
      else if tick_delta_sum s + tick s \<le> 0 then
        (set_clock (-1) s)\<lparr>tick_diff := tick_diff s - 1, tick_delta_sum := tick_delta_sum s + tick s,
           tick_adjustment := tick_adjustment s + 1\<rparr>
      else s)"

definition adjust_clock :: "int \<Rightarrow> int \<times> int \<Rightarrow> 'x dn_sys \<Rightarrow> 'x dn_sys option" where
  "adjust_clock pending1 t s =
     (if hz s = 0 \<or> tick s = 0 then None
      else
        let last = s64 (elapsed t s);
            s = s\<lparr>tick_lost := s64 (tick_lost s + pending1 - 1)\<rparr>;
            s = s\<lparr>tick_last := last, tick_delta := cdiv (s64 (last * hz s - 1000000)) (hz s)\<rparr>;
            s = s\<lparr>tick_delta_sum := s64 (tick_delta_sum s + tick_delta s), prev_t := t\<rparr>
        in Some (tick_adjust (set_clock 1 s)))"

text \<open>The due events, in the order of the heap; the packets they release are collected in \<open>q\<close>.\<close>

definition ev_due :: "'x dn_sys \<Rightarrow> bool" where
  "ev_due s \<longleftrightarrow> h_elements (evheap s) \<noteq> 0 \<and> \<not> DN_KEY_LT (curr_time (env s)) (he_key (HEAP_TOP (evheap s)))"

definition ev_serve :: "'x algs \<Rightarrow> mbuf list \<Rightarrow> 'x dn_sys \<Rightarrow> (mbuf list \<times> 'x dn_sys) option" where
  "ev_serve al q s = do {
     let p = he_object (HEAP_TOP (evheap s));
     s \<leftarrow> ev_extract None s;
     case p of
       EvSI i \<Rightarrow> do { (_, q, s) \<leftarrow> serve_sched al q i (curr_time (env s)) s; Some (q, s) }
     | EvDL i \<Rightarrow> transmit_event q i (curr_time (env s)) s
   }"

partial_function (option) ev_loop :: "'x algs \<Rightarrow> mbuf list \<Rightarrow> 'x dn_sys \<Rightarrow> (mbuf list \<times> 'x dn_sys) option" where
  "ev_loop al q s =
     (if \<not> ev_due s then Some (q, s)
      else Option.bind (ev_serve al q s) (\<lambda>(q, s). ev_loop al q s))"

text \<open>The handler returns the packets to send, which it hands to \<open>dummynet_send\<close>.\<close>

definition dummynet_task :: "'x algs \<Rightarrow> int \<Rightarrow> int \<times> int \<Rightarrow> 'x dn_sys \<Rightarrow> (mbuf list \<times> 'x dn_sys) option" where
  "dummynet_task al pending1 t s = do {
     s \<leftarrow> adjust_clock pending1 t (do_update_cycle s);
     (q, s) \<leftarrow> ev_loop al [] s;
     s \<leftarrow> do_drain al s;
     Some (q, s)
   }"

section \<open>Out of dummynet\<close>

definition DIR_OUT :: nat where "DIR_OUT = 0"
definition DIR_IN :: nat where "DIR_IN = 1"
definition DIR_FWD :: nat where "DIR_FWD = 2"
definition DIR_DROP :: nat where "DIR_DROP = 3"
definition PROTO_LAYER2 :: nat where "PROTO_LAYER2 = 4"
definition PROTO_IPV6 :: nat where "PROTO_IPV6 = 0x10"
definition PROTO_IFB :: nat where "PROTO_IFB = 0x0c"

lemmas dir_defs = DIR_OUT_def DIR_IN_def DIR_FWD_def DIR_DROP_def PROTO_LAYER2_def PROTO_IPV6_def PROTO_IFB_def

text \<open>
  What happens to a packet sent: the function of the network stack it is handed to, with the interface;
  it is released; or it is neither handed on nor released (\<open>Leaked\<close>). \<open>bridge\<close> tells whether the bridge
  module is there, \<open>pull\<close> whether the Ethernet header is contiguous or can be made so (a failing
  \<open>m_pullup\<close> releases the packet itself).
\<close>

datatype verdict = IpOutput | IpInput | Ip6Input | Ip6Output | BridgeFwd "nat option" | EtherDemux
  | EtherOutput "nat option" | Freed | Leaked

definition send_verdict :: "bool \<Rightarrow> (mbuf \<Rightarrow> bool) \<Rightarrow> nat \<Rightarrow> nat option \<Rightarrow> mbuf \<Rightarrow> verdict" where
  "send_verdict bridge pull dst ifp m =
     (if dst = DIR_OUT then IpOutput
      else if dst = DIR_IN then IpInput
      else if dst = (DIR_IN OR PROTO_IPV6) then Ip6Input
      else if dst = (DIR_OUT OR PROTO_IPV6) then Ip6Output
      else if dst = (DIR_FWD OR PROTO_IFB) then (if bridge then BridgeFwd ifp else Leaked)
      else if dst = (DIR_IN OR PROTO_LAYER2) then (if pull m then EtherDemux else Freed)
      else if dst = (DIR_OUT OR PROTO_LAYER2) then EtherOutput ifp
      else Freed)"

text \<open>The tag of dummynet is renamed to carry the information for a later pass through the firewall.\<close>

primrec dummynet_send :: "bool \<Rightarrow> (mbuf \<Rightarrow> bool) \<Rightarrow> mbuf list \<Rightarrow> (mbuf \<times> verdict) list option" where
  "dummynet_send bridge pull [] = Some []"
| "dummynet_send bridge pull (m # ms) = do {
     x \<leftarrow> (if m_tags m = [] then Some (m, send_verdict bridge pull DIR_DROP None m)
           else do {
             t \<leftarrow> dn_tag_get m;
             Some (rename_tag m, send_verdict bridge pull (dn_dir t) (pt_ifp t) m)
           });
     xs \<leftarrow> dummynet_send bridge pull ms;
     Some (x # xs)
   }"

section \<open>Into dummynet\<close>

record ip_fw_args =
  fwa_rule :: ipfw_rule_ref
  fwa_oif :: "nat option"
  fwa_f_id :: ipfw_flow_id

text \<open>\<open>None\<close>: no memory for the tag.\<close>

definition tag_mbuf :: "mbuf \<Rightarrow> nat \<Rightarrow> ip_fw_args \<Rightarrow> 'x dn_sys \<Rightarrow> mbuf option \<times> 'x dn_sys" where
  "tag_mbuf m dir fwa s =
     (let ok = mems s 0; s = s\<lparr>mems := \<lambda>n. mems s (Suc n)\<rparr>;
          r = (fwa_rule fwa)\<lparr>rr_info := rr_info (fwa_rule fwa) AND IPFW_ONEPASS\<rparr>;
          t = \<lparr>tag_kind = PACKET_TAG_DUMMYNET, tag_dn = \<lparr>pt_rule = r, dn_dir = dir, output_time = curr_time (env s), pt_ifp = fwa_oif fwa\<rparr>\<rparr>
      in (if ok then Some (m\<lparr>m_tags := t # m_tags m\<rparr>) else None, s))"

text \<open>The number of the flowset a rule refers to, a queue or a pipe.\<close>

definition fs_id_of :: "ip_fw_args \<Rightarrow> nat" where
  "fs_id_of fwa =
     unat (rr_info (fwa_rule fwa) AND IPFW_INFO_MASK) + (if rr_info (fwa_rule fwa) AND IPFW_IS_PIPE \<noteq> 0 then 2 * DN_MAX_ID else 0)"

text \<open>
  The queue, for a scheduler with many, and the instance for a packet of the flow; \<open>None\<close> instead of an
  instance when there is no memory.
\<close>

definition io_classify ::
  "'x algs \<Rightarrow> ipfw_flow_id \<Rightarrow> fsid \<Rightarrow> schid \<Rightarrow> ipfw_flow_id \<Rightarrow> 'x dn_sys \<Rightarrow> (qid option \<times> siid option \<times> 'x dn_sys) option" where
  "io_classify al junk f k idf s = do {
     a \<leftarrow> sk_alg al (env s) k;
     if al_flags a AND DN_MULTIQUEUE \<noteq> 0 then do {
       (q, s) \<leftarrow> ipdn_q_find al junk f idf s;
       case q of
         None \<Rightarrow> Some (None, None, s)
       | Some q \<Rightarrow> Some (Some q, q_si (qs (env s) q), s)
     } else do {
       (i, s) \<leftarrow> ipdn_si_find al k idf s;
       Some (None, i, s)
     }
   }"

text \<open>The initial allowance of an instance that has been idle.\<close>

definition io_allowance :: "siid \<Rightarrow> schid \<Rightarrow> 'x dn_sys \<Rightarrow> 'x dn_sys" where
  "io_allowance i k s =
     (if idle_time (sis (env s) i) < curr_time (env s) then
        let p = sk_link (schks (env s) k);
            s = on_env (upd_si i (\<lambda>r. r\<lparr>sched_time := curr_time (env s), si_credit := (if io_fast s then bandwidth p else 0)\<rparr>)) s
        in if burst p = 0 then s
           else
             let b = (curr_time (env s) - idle_time (sis (env s) i)) * word_of_int (bandwidth p);
                 b = (if burst p < b then burst p else b)
             in add_credit i (uint b) s
      else s)"

text \<open>
  The result of \<open>dummynet_io\<close>: the return value, the packet left to the caller (\<open>*m0\<close>), and the packets
  for \<open>dummynet_send\<close>.
\<close>

record io_res =
  io_ret :: nat
  io_m0 :: "mbuf option"
  io_send :: "mbuf list"

definition ENOBUFS :: nat where "ENOBUFS = 55"

text \<open>Label \<open>dropit\<close>, with the packet if it has not been consumed.\<close>

definition io_drop :: "fsid option \<Rightarrow> mbuf option \<Rightarrow> 'x dn_sys \<Rightarrow> io_res \<times> 'x dn_sys" where
  "io_drop f m s =
     (let s = on_env (\<lambda>e. e\<lparr>io_pkt_drop := io_pkt_drop e + 1\<rparr>) s;
          s = (case m of None \<Rightarrow> s | Some m \<Rightarrow> on_env (FREE_PKT m) s);
          noerr = (case f of None \<Rightarrow> False | Some f \<Rightarrow> fs_flags (fsk_fs (fsks (env s) f)) AND DN_NOERROR \<noteq> 0)
      in (\<lparr>io_ret = (if noerr then 0 else ENOBUFS), io_m0 = None, io_send = []\<rparr>, s))"

definition io_done :: "mbuf option \<Rightarrow> mbuf list \<Rightarrow> 'x dn_sys \<Rightarrow> io_res \<times> 'x dn_sys" where
  "io_done m0 out s = (\<lparr>io_ret = 0, io_m0 = m0, io_send = out\<rparr>, s)"

text \<open>
  The instance was idle: serve it at once. When the first packet to come out is the one that came in, it is
  left to the caller, and packets behind it are cut off.
\<close>

definition io_serve :: "'x algs \<Rightarrow> mbuf \<Rightarrow> nat \<Rightarrow> siid \<Rightarrow> schid \<Rightarrow> 'x dn_sys \<Rightarrow> (io_res \<times> 'x dn_sys) option" where
  "io_serve al m0 dir i k s = do {
     let s = io_allowance i k s;
     (out, _, s) \<leftarrow> serve_sched al [] i (curr_time (env s)) s;
     case out of
       m # ms \<Rightarrow>
         if m_id m = m_id m0 \<and> dir AND PROTO_LAYER2 = 0 then
           Some (io_done (Some (rename_tag m)) [] (s\<lparr>io_pkt_fast := io_pkt_fast s + 1\<rparr>))
         else Some (io_done None out s)
     | [] \<Rightarrow> Some (io_done None [] s)
   }"

definition dummynet_io ::
  "'x algs \<Rightarrow> ipfw_flow_id \<Rightarrow> mbuf \<Rightarrow> nat \<Rightarrow> ip_fw_args \<Rightarrow> 'x dn_sys \<Rightarrow> (io_res \<times> 'x dn_sys) option" where
  "dummynet_io al junk m0 dir fwa s = do {
     let s = s\<lparr>io_pkt := io_pkt s + 1\<rparr>;
     let (tagged, s) = tag_mbuf m0 dir fwa s;
     case tagged of
       None \<Rightarrow> Some (io_drop None (Some m0) s)
     | Some m \<Rightarrow>
         if busy s then Some (io_done None [] (s\<lparr>pending := pending s @ [m]\<rparr>))
         else do {
           (f, s) \<leftarrow> find_fsk (fs_id_of fwa) 0 s;
           case f of
             None \<Rightarrow> Some (io_drop None (Some m) s)
           | Some f1 \<Rightarrow>
             (case fsk_sched (fsks (env s) f1) of
                None \<Rightarrow> Some (io_drop f (Some m) s)
              | Some k \<Rightarrow> do {
                  (q, i, s) \<leftarrow> io_classify al junk f1 k (fwa_f_id fwa) s;
                  case i of
                    None \<Rightarrow> Some (io_drop f (Some m) s)
                  | Some i \<Rightarrow> do {
                      a \<leftarrow> sk_alg al (env s) k;
                      (r, s) \<leftarrow> lift_cbo (al_enqueue a i q m) s;
                      if r \<noteq> 0 then Some (io_drop f None s)
                      else if si_kflags (sis (env s) i) AND DN_ACTIVE \<noteq> 0 then Some (io_done None [] s)
                      else io_serve al m dir i k s
                    }
                })
         }
   }"

section \<open>The clock\<close>

lemma cdiv_mult_left:
  assumes "0 < h"
  shows "cdiv (h * x) h = x"
proof (cases "0 \<le> x")
  case False
  have "- (h * x) div h = - x"
    using nonzero_mult_div_cancel_left [of h "- x"] assms by simp
  with False assms show ?thesis by (auto simp: cdiv_def sgn_if abs_mult mult_less_0_iff zero_less_mult_iff)
qed (use assms in \<open>auto simp: cdiv_def sgn_if abs_mult zero_less_mult_iff\<close>)

text \<open>The clock moves by \<open>d\<close> ticks.\<close>

definition clock_moves :: "int \<Rightarrow> int \<Rightarrow> 'x dn_sys \<Rightarrow> 'x dn_sys \<Rightarrow> bool" where
  "clock_moves d el s s' \<longleftrightarrow> 0 \<le> d \<and> curr_time (env s') = curr_time (env s) + word_of_int d \<and>
    d * tick s + tick_delta_sum s' = tick_delta_sum s + el \<and> - tick s < tick_delta_sum s' \<and> tick_delta_sum s' < tick s"

lemma set_clock_0 [simp]: "set_clock 0 s = s"
  by (simp add: set_clock_def on_env_def)

lemma set_clock_simps [simp]:
  "curr_time (env (set_clock d s)) = curr_time (env s) + word_of_int d" "hz (set_clock d s) = hz s" "tick (set_clock d s) = tick s"
  "tick_delta_sum (set_clock d s) = tick_delta_sum s" "tick_diff (set_clock d s) = tick_diff s"
  "tick_adjustment (set_clock d s) = tick_adjustment s"
  by (simp_all add: set_clock_def)

lemma tick_adjust_moves:
  assumes tk: "0 < tick s" "tick s < 2 ^ 31" and lo: "- (2 * tick s) < tick_delta_sum s" and hi: "tick_delta_sum s < 2 ^ 30 * tick s"
  shows "\<exists>d\<ge>-1. curr_time (env (tick_adjust s)) = curr_time (env s) + word_of_int d \<and>
    d * tick s + tick_delta_sum (tick_adjust s) = tick_delta_sum s \<and>
    - tick s < tick_delta_sum (tick_adjust s) \<and> tick_delta_sum (tick_adjust s) < tick s"
proof -
  define sm where "sm = tick_delta_sum s"
  consider "tick s \<le> sm" | "sm \<le> - tick s" | "- tick s < sm" "sm < tick s" by linarith
  then show ?thesis
  proof cases
    case 1
    have q: "cdiv sm (tick s) = sm div tick s" using 1 tk by (simp add: cdiv_nonneg)
    have "sm div tick s * tick s \<le> sm"
      using div_mult_mod_eq [of sm "tick s"] pos_mod_sign [OF tk(1), of sm] by linarith
    then have "sm div tick s * tick s < 2 ^ 30 * tick s" using hi by (simp add: sm_def)
    then have "sm div tick s < 2 ^ 30" using tk by (simp add: mult_less_cancel_right)
    moreover have q0: "0 \<le> sm div tick s" using 1 tk by (simp add: pos_imp_zdiv_nonneg_iff)
    ultimately have q32: "s32 (sm div tick s) = sm div tick s" by (intro s32_id; simp)
    have m: "cmod sm (tick s) = sm mod tick s"
      by (simp add: cmod_def q minus_div_mult_eq_mod)
    have "- tick s < sm mod tick s" using pos_mod_sign [OF tk(1), of sm] tk(1) by linarith
    then show ?thesis
      using 1 q0 tk(1)
      by (intro exI [of _ "sm div tick s"]) (simp add: tick_adjust_def sm_def [symmetric] q q32 m Let_def)
  next
    case 2
    then show ?thesis using tk lo by (intro exI [of _ "-1"]) (simp add: tick_adjust_def sm_def)
  next
    case 3
    then show ?thesis by (intro exI [of _ 0]) (simp add: tick_adjust_def sm_def)
  qed
qed

text \<open>C16: The clock follows the real time exactly: over one run of the handler it never goes back, and
  the time it stands for, the ticks times the length of a tick plus the difference carried over, advances
  by the time \<open>el\<close> elapsed since the last run; the difference stays below one tick.\<close>

theorem adjust_clock_tracks:
  assumes "0 < hz s" "hz s * tick s = 1000000"
    and "el = elapsed t s" "0 \<le> el" "el < 2 ^ 29 * tick s"
    and "- tick s < tick_delta_sum s" "tick_delta_sum s < tick s"
  shows "\<exists>s' d. adjust_clock n t s = Some s' \<and> clock_moves d el s s'"
proof -
  note hz = assms(1,2) and el = assms(3,4,5) and sum = assms(6,7)
  have tk: "0 < tick s" using hz by (metis zero_less_mult_pos zero_less_numeral)
  have tb: "tick s \<le> 1000000" using hz tk mult_right_mono [of 1 "hz s" "tick s"] by simp
  have "el * hz s < 2 ^ 29 * tick s * hz s" using el(3) hz(1) by (rule mult_strict_right_mono)
  then have "el * hz s < 2 ^ 29 * 1000000" using hz(2) by (simp add: algebra_simps)
  moreover have "0 \<le> el * hz s" using el(2) hz by simp
  ultimately have s1: "s64 (el * hz s - 1000000) = hz s * (el - tick s)"
    using hz(2) by (simp add: s64_id algebra_simps)
  have "2 ^ 29 * tick s \<le> 2 ^ 29 * 1000000" using tb by simp
  then have eb: "el < 2 ^ 29 * 1000000" using el(3) by linarith
  have s2: "s64 el = el" using eb el(2) by (simp add: s64_id)
  define sm where "sm = tick_delta_sum s + (el - tick s)"
  have s3: "s64 sm = sm" using eb el(2) tb sum tk unfolding sm_def by (intro s64_id; simp)
  have dlt: "cdiv (hz s * (el - tick s)) (hz s) = el - tick s" using hz by (simp add: cdiv_mult_left)
  define s0 where "s0 = s\<lparr>tick_lost := s64 (tick_lost s + n - 1), tick_last := el, tick_delta := el - tick s,
    tick_delta_sum := sm, prev_t := t\<rparr>"
  have "adjust_clock n t s = Some (tick_adjust (set_clock 1 s0))"
    using hz tk by (simp add: adjust_clock_def Let_def el(1) [symmetric] s2 s1 dlt sm_def [symmetric] s3 s0_def)
  then have s0: "adjust_clock n t s = Some (tick_adjust (set_clock 1 s0))" "tick_delta_sum s0 = sm"
      "curr_time (env s0) = curr_time (env s)" "tick s0 = tick s"
    by (simp_all add: s0_def)
  obtain d where d: "d \<ge> -1" "curr_time (env (tick_adjust (set_clock 1 s0))) = curr_time (env (set_clock 1 s0)) + word_of_int d"
      "d * tick s + tick_delta_sum (tick_adjust (set_clock 1 s0)) = sm"
      "- tick s < tick_delta_sum (tick_adjust (set_clock 1 s0))" "tick_delta_sum (tick_adjust (set_clock 1 s0)) < tick s"
    using tick_adjust_moves [of "set_clock 1 s0"] tk tb sum el by (auto simp: s0 sm_def)
  then have "clock_moves (1 + d) el s (tick_adjust (set_clock 1 s0))"
    using s0 by (simp add: clock_moves_def sm_def algebra_simps)
  with s0(1) show ?thesis by blast
qed

theorem adjust_clock_tracks_witness:
  "\<exists>s' d. adjust_clock 1 (0, 5000) (sys_zero env_zero) = Some s' \<and> clock_moves d 5000 (sys_zero env_zero) s'"
  by (rule adjust_clock_tracks) (simp_all add: sys_zero_def elapsed_def)

section \<open>Delay lines\<close>

text \<open>The packets of a delay line that are due and those that are not, with \<open>now\<close> the current tick.\<close>

definition due :: "u64 \<Rightarrow> mbuf \<Rightarrow> bool" where
  "due now m \<longleftrightarrow> (\<exists>t. dn_tag_get m = Some t \<and> DN_KEY_LEQ (output_time t) now)"

lemma dline_split_ok:
  assumes "\<forall>m\<in>set ms. dn_tag_get m \<noteq> None"
  shows "dline_split now ms = Some (takeWhile (due now) ms, dropWhile (due now) ms)"
  using assms by (induction ms) (auto simp: due_def)

text \<open>What sending the due packets of line \<open>i\<close> leaves.\<close>

definition line_sent :: "siid \<Rightarrow> mbuf list \<Rightarrow> 'x dn_sys \<Rightarrow> 'x dn_sys" where
  "line_sent i rest s =
     (case rest of
        [] \<Rightarrow> on_env (upd_si i (\<lambda>r. r\<lparr>dline_in_heap := False, si_dline := []\<rparr>)) s
      | m # ms \<Rightarrow> ev_insert (output_time (the (dn_tag_get m))) (EvDL i)
          (on_env (upd_si i (\<lambda>r. r\<lparr>si_dline := rest, dline_in_heap := True\<rparr>)) s))"

lemma upd_si_upd_si [simp]: "upd_si i f (upd_si i g e) = upd_si i (\<lambda>r. f (g r)) e"
  by (simp add: upd_si_def)

lemma transmit_event_eq:
  assumes "\<forall>m\<in>set (si_dline (sis (env s) i)). dn_tag_get m \<noteq> None"
  shows "transmit_event q i now s =
    Some (q @ takeWhile (due now) (si_dline (sis (env s) i)), line_sent i (dropWhile (due now) (si_dline (sis (env s) i))) s)"
proof -
  define out where "out = takeWhile (due now) (si_dline (sis (env s) i))"
  define rest where "rest = dropWhile (due now) (si_dline (sis (env s) i))"
  have sp: "dline_split now (si_dline (sis (env s) i)) = Some (out, rest)"
    unfolding out_def rest_def by (rule dline_split_ok [OF assms])
  show ?thesis unfolding out_def [symmetric] rest_def [symmetric]
  proof (cases rest)
    case Nil
    with sp show "transmit_event q i now s = Some (q @ out, line_sent i rest s)"
      by (simp add: transmit_event_def line_sent_def on_env_def Let_def)
  next
    case (Cons m ms)
    then have "m \<in> set (si_dline (sis (env s) i))"
      unfolding rest_def by (metis list.set_intros(1) set_dropWhileD)
    then obtain t where "dn_tag_get m = Some t" using assms by auto
    then show "transmit_event q i now s = Some (q @ out, line_sent i rest s)"
      using Cons sp by (simp add: transmit_event_def line_sent_def on_env_def Let_def)
  qed
qed

text \<open>C15: Transmitting a delay line sends exactly its longest prefix of due packets, in order, and keeps the
  others; the line is marked as in the heap, and put there with the time of its first packet, exactly when
  packets are left.\<close>

theorem transmit_event_correct:
  assumes "\<forall>m\<in>set (si_dline (sis (env s) i)). dn_tag_get m \<noteq> None"
  shows "\<exists>out rest s'. transmit_event q i now s = Some (q @ out, s') \<and> si_dline (sis (env s) i) = out @ rest \<and>
    (\<forall>m\<in>set out. due now m) \<and> si_dline (sis (env s') i) = rest \<and> (dline_in_heap (sis (env s') i) \<longleftrightarrow> rest \<noteq> []) \<and>
    (rest = [] \<longrightarrow> evheap s' = evheap s) \<and>
    (rest \<noteq> [] \<longrightarrow> \<not> due now (hd rest) \<and>
       evheap s' = evheap (ev_insert (output_time (the (dn_tag_get (hd rest)))) (EvDL i) s))"
proof -
  define out where "out = takeWhile (due now) (si_dline (sis (env s) i))"
  define rest where "rest = dropWhile (due now) (si_dline (sis (env s) i))"
  have t: "transmit_event q i now s = Some (q @ out, line_sent i rest s)"
    unfolding out_def rest_def by (rule transmit_event_eq [OF assms])
  have "si_dline (sis (env s) i) = out @ rest" by (simp add: out_def rest_def)
  moreover have "\<forall>m\<in>set out. due now m" unfolding out_def using set_takeWhileD by fast
  moreover have "rest \<noteq> [] \<longrightarrow> \<not> due now (hd rest)"
    unfolding rest_def using hd_dropWhile by blast
  moreover have "si_dline (sis (env (line_sent i rest s)) i) = rest"
      "dline_in_heap (sis (env (line_sent i rest s)) i) \<longleftrightarrow> rest \<noteq> []"
    by (simp_all add: line_sent_def split: list.split)
  moreover have "rest = [] \<longrightarrow> evheap (line_sent i rest s) = evheap s"
      "rest \<noteq> [] \<longrightarrow> evheap (line_sent i rest s) = evheap (ev_insert (output_time (the (dn_tag_get (hd rest)))) (EvDL i) s)"
    by (simp_all add: line_sent_def ev_insert_def Let_def split: list.split option.split prod.split)
  ultimately show ?thesis using t by blast
qed

text \<open>A packet inside dummynet, and an instance with two in its delay line.\<close>

definition ttag :: "u64 \<Rightarrow> dn_pkt_tag" where
  "ttag t = \<lparr>pt_rule = \<lparr>rr_slot = 0, rr_rulenum = 0, rr_rule_id = 0, rr_chain_id = 0, rr_info = 0\<rparr>,
     dn_dir = DIR_OUT, output_time = t, pt_ifp = None\<rparr>"

definition tpkt :: "nat \<Rightarrow> int \<Rightarrow> u64 \<Rightarrow> mbuf" where
  "tpkt n l t = \<lparr>m_id = n, m_len = l, m_tags = [\<lparr>tag_kind = PACKET_TAG_DUMMYNET, tag_dn = ttag t\<rparr>]\<rparr>"

lemma dn_tag_get_tpkt [simp]: "dn_tag_get (tpkt n l t) = Some (ttag t)" "output_time (ttag t) = t"
  "m_len (tpkt n l t) = l" "m_id (tpkt n l t) = n"
  by (simp_all add: dn_tag_get_def tpkt_def ttag_def)

definition line_sys :: "unit dn_sys" where
  "line_sys = sys_zero (env_zero\<lparr>sis := (\<lambda>_. si_zero)(3 := si_zero\<lparr>si_dline := [tpkt 1 100 5, tpkt 2 100 9]\<rparr>)\<rparr>)"

theorem transmit_event_correct_witness:
  "\<exists>out rest s'. transmit_event [] 3 7 line_sys = Some ([] @ out, s') \<and> si_dline (sis (env line_sys) 3) = out @ rest \<and>
    (\<forall>m\<in>set out. due 7 m) \<and> si_dline (sis (env s') 3) = rest \<and> (dline_in_heap (sis (env s') 3) \<longleftrightarrow> rest \<noteq> []) \<and>
    (rest = [] \<longrightarrow> evheap s' = evheap line_sys) \<and>
    (rest \<noteq> [] \<longrightarrow> \<not> due 7 (hd rest) \<and>
       evheap s' = evheap (ev_insert (output_time (the (dn_tag_get (hd rest)))) (EvDL 3) line_sys))"
  by (rule transmit_event_correct) (simp add: line_sys_def sys_zero_def)

end
