(* ===== verification/SchedFifo.thy ===== *)
theory SchedFifo
  imports Sched
begin

text \<open>
  The FIFO scheduler of \<open>sys/netinet/ipfw/dn_sched_fifo.c\<close>: one queue inside the scheduler
  instance. \<open>qa i\<close> is the address of that queue (\<open>si + 1\<close>), \<open>sz\<close> is \<open>sizeof(struct dn_queue)\<close>.
\<close>

definition fifo_enqueue :: "(siid \<Rightarrow> qid) \<Rightarrow> siid \<Rightarrow> qid option \<Rightarrow> mbuf \<Rightarrow> 'x dn_env_scheme \<Rightarrow> nat \<times> 'x dn_env_scheme" where
  "fifo_enqueue qa i q m e = dn_enqueue (qa i) m False e"

definition fifo_dequeue :: "(siid \<Rightarrow> qid) \<Rightarrow> siid \<Rightarrow> 'x dn_env_scheme \<Rightarrow> mbuf option \<times> 'x dn_env_scheme" where
  "fifo_dequeue qa i e = dn_dequeue (qa i) e"

definition fifo_new_sched :: "(siid \<Rightarrow> qid) \<Rightarrow> u16 \<Rightarrow> siid \<Rightarrow> 'x dn_env_scheme \<Rightarrow> nat \<times> 'x dn_env_scheme" where
  "fifo_new_sched qa sz i e =
     (0, upd_q (qa i) (\<lambda>q. q\<lparr>q_ni := (q_ni q)\<lparr>fl_oid := set_oid DN_QUEUE sz (fl_oid (q_ni q))\<rparr>,
         q_si := Some i, q_fs := sk_fs (schks e (si_sched (sis e i)))\<rparr>) e)"

definition fifo_free_sched :: "(siid \<Rightarrow> qid) \<Rightarrow> siid \<Rightarrow> 'x dn_env_scheme \<Rightarrow> nat \<times> 'x dn_env_scheme" where
  "fifo_free_sched qa i e = (0, upd_q (qa i) (\<lambda>_. queue_zero) (dn_free_pkts (mq e (qa i)) e))"

definition fifo_desc :: "(siid \<Rightarrow> qid) \<Rightarrow> u16 \<Rightarrow> 'x dn_env_scheme dn_alg" where
  "fifo_desc qa sz = \<lparr>al_type = DN_SCHED_FIFO, al_name = ''FIFO'', al_flags = 0, al_q_datalen = 0,
     al_enqueue = (\<lambda>i q m e. Some (fifo_enqueue qa i q m e)), al_dequeue = (\<lambda>i e. Some (fifo_dequeue qa i e)),
     al_config = None, al_destroy = None, al_new_sched = Some (fifo_new_sched qa sz),
     al_free_sched = Some (fifo_free_sched qa), al_new_fsk = None, al_free_fsk = None,
     al_new_queue = None, al_free_queue = None\<rparr>"

section \<open>The contract\<close>

interpretation fifo: wc_scheduler "fifo_enqueue qa i" "fifo_dequeue qa i" "\<lambda>_. True" UNIV "\<lambda>_ _. ()"
    "\<lambda>e _. mq e (qa i)" freed "\<lambda>_ _. True"
  for qa :: "siid \<Rightarrow> qid" and i :: siid
proof
  fix e e' :: "'x dn_env_scheme" and q :: "qid option" and m r p
  show "True \<and>
      (r = 0 \<and> (\<lambda>_::unit. mq e' (qa i)) = (\<lambda>_::unit. mq e (qa i))(() := mq e (qa i) @ [m]) \<and> freed e' = freed e \<or>
       r \<noteq> 0 \<and> (\<lambda>_::unit. mq e' (qa i)) = (\<lambda>_::unit. mq e (qa i)) \<and> freed e' = freed e @ [m])"
    if "fifo_enqueue qa i q m e = (r, e')"
    using dn_enqueue_step [OF that [unfolded fifo_enqueue_def]] by (auto simp: queue_step_def fun_eq_iff)
  show "True \<and> freed e' = freed e \<and>
      (case p of None \<Rightarrow> (\<lambda>_::unit. mq e' (qa i)) = (\<lambda>_::unit. mq e (qa i))
       | Some m \<Rightarrow> \<exists>c ms. mq e (qa i) = m # ms \<and> (\<lambda>_::unit. mq e' (qa i)) = (\<lambda>_::unit. mq e (qa i))(c := ms))"
    if "fifo_dequeue qa i e = (p, e')"
    using dn_dequeue_step [OF that [unfolded fifo_dequeue_def]]
    by (auto simp: queue_step_def fun_eq_iff)
  show "mq e (qa i) = []" if "fifo_dequeue qa i e = (None, e')"
    using dn_dequeue_step [OF that [unfolded fifo_dequeue_def]] by auto
qed

lemma dn_free_pkts_freed: "freed (dn_free_pkts ms e) = freed e @ ms \<and> qs (dn_free_pkts ms e) = qs e"
  by (induction ms arbitrary: e) auto

section \<open>Properties\<close>

text \<open>C33: Over any sequence of arrivals and requests, a FIFO instance delivers exactly the packets it
  held and accepted, in their order of arrival; what is left is still queued.\<close>

theorem fifo_run_in_order:
  assumes "scheduler.run (fifo_enqueue qa i) (fifo_dequeue qa i) (\<lambda>_ _. ()) xs e = (ins, outs, e')"
  shows "mq e (qa i) @ map snd ins = outs @ mq e' (qa i)"
proof -
  have "fifo.fine qa i xs e" by (induction xs arbitrary: e) (auto split: option.splits)
  from fifo.run_fifo [OF TrueI this assms] obtain tr
    where tr: "map snd tr = outs" "mq e (qa i) @ fifo.of_class () ins = fifo.of_class () tr @ mq e' (qa i)"
    by auto
  have "fifo.of_class () xs = map snd xs" for xs :: "(unit \<times> mbuf) list"
    by (simp add: fifo.of_class_def)
  with tr show ?thesis by simp
qed

lemma fifo_run_in_order_witness:
  "\<exists>ins outs e'. scheduler.run (fifo_enqueue (\<lambda>_. 7) 0) (fifo_dequeue (\<lambda>_. 7) 0) (\<lambda>_ _. ())
     [Some (None, wpkt 1 100), Some (None, wpkt 2 100), None] wenv = (ins, outs, e') \<and>
     mq wenv 7 @ map snd ins = outs @ mq e' 7"
proof -
  obtain ins outs e' where r: "scheduler.run (fifo_enqueue (\<lambda>_. 7) 0) (fifo_dequeue (\<lambda>_. 7) 0) (\<lambda>_ _. ())
     [Some (None, wpkt 1 100), Some (None, wpkt 2 100), None] wenv = (ins, outs, e')"
    by (metis prod_cases3)
  from fifo_run_in_order [OF r] r show ?thesis by blast
qed

end
