(* ===== verification/DnServe.thy ===== *)
theory DnServe
  imports DnIo SchedFifo
begin

text \<open>
  Serving packets: what a scheduling algorithm must provide for the data path to work, as the locale \<open>packet_source\<close>,
  and what the data path then guarantees for every such algorithm. Serving an instance returns, keeps every packet in
  the order the algorithm gave them out, and leaves the instance out of the event heap only when its scheduler is empty.
  The FIFO algorithm is shown to provide what is needed, and to keep the order of its queue.
\<close>

section \<open>The interface\<close>

text \<open>All of an instance but its flow statistics; and those fields with the number of queues.\<close>

definition si_core :: "dn_sch_inst \<Rightarrow> dn_sch_inst" where "si_core r = r\<lparr>si_ni := flow_zero\<rparr>"

definition si_stat :: "dn_sch_inst \<Rightarrow> dn_flow \<times> schid \<times> int" where "si_stat r = (si_ni r, si_sched r, si_q_count r)"

text \<open>The changes the data path makes: to the links of the instances, the clock and the random numbers.\<close>

definition data_frame :: "'x dn_env_scheme \<Rightarrow> 'x dn_env_scheme \<Rightarrow> bool" where
  "data_frame e e' \<longleftrightarrow> qs e' = qs e \<and> fsks e' = fsks e \<and> schks e' = schks e \<and> freed e' = freed e \<and>
     idle_queue e' = idle_queue e \<and> idle_si e' = idle_si e \<and> dn_env.more e' = dn_env.more e \<and>
     (\<forall>j. si_stat (sis e' j) = si_stat (sis e j))"

definition pkt_ok :: "mbuf \<Rightarrow> bool" where
  "pkt_ok m \<longleftrightarrow> dn_tag_get m \<noteq> None \<and> 0 \<le> m_len m \<and> m_len m < 2 ^ 16"

locale packet_source =
  fixes al :: "'x algs" and V :: "siid set" and inv :: "'x dn_env_scheme \<Rightarrow> bool"
    and held :: "'x dn_env_scheme \<Rightarrow> siid \<Rightarrow> mbuf multiset"
  assumes deq: "inv e \<Longrightarrow> i \<in> V \<Longrightarrow> \<exists>a p e'. sk_alg al e (si_sched (sis e i)) = Some a \<and> al_dequeue a i e = Some (p, e') \<and>
      inv e' \<and> freed e' = freed e \<and> curr_time e' = curr_time e \<and> schks e' = schks e \<and>
      (\<forall>j. si_core (sis e' j) = si_core (sis e j)) \<and>
      (case p of
         None \<Rightarrow> held e' = held e \<and> held e i = {#}
       | Some m \<Rightarrow> held e i = add_mset m (held e' i) \<and> (\<forall>j. j \<noteq> i \<longrightarrow> held e' j = held e j))"
    and frame: "inv e \<Longrightarrow> data_frame e e' \<Longrightarrow> inv e' \<and> held e' = held e"
    and held_ok: "inv e \<Longrightarrow> i \<in> V \<Longrightarrow> m \<in># held e i \<Longrightarrow> pkt_ok m"

text \<open>
  The packets that calls of the dequeue operation of an algorithm return, in the order of the calls, with changes by
  the data path in between.
\<close>

inductive takes :: "('x dn_env_scheme) dn_alg \<Rightarrow> siid \<Rightarrow> 'x dn_env_scheme \<Rightarrow> mbuf list \<Rightarrow> 'x dn_env_scheme \<Rightarrow> bool"
  for a :: "('x dn_env_scheme) dn_alg" and i :: siid where
  takes_end: "takes a i e [] e"
| takes_frame: "data_frame e e1 \<Longrightarrow> takes a i e1 ms e' \<Longrightarrow> takes a i e ms e'"
| takes_none: "al_dequeue a i e = Some (None, e1) \<Longrightarrow> takes a i e1 ms e' \<Longrightarrow> takes a i e ms e'"
| takes_pkt: "al_dequeue a i e = Some (Some m, e1) \<Longrightarrow> takes a i e1 ms e' \<Longrightarrow> takes a i e (m # ms) e'"

lemma takes_then_frame: "takes a i e ms e1 \<Longrightarrow> data_frame e1 e' \<Longrightarrow> takes a i e ms e'"
  by (induction rule: takes.induct) (auto intro: takes.intros)

section \<open>One packet\<close>

definition valid_profile :: "'x dn_env_scheme \<Rightarrow> schid \<Rightarrow> bool" where
  "valid_profile e k \<longleftrightarrow>
     (case sk_profile (schks e k) of None \<Rightarrow> True
      | Some pf \<Rightarrow> samples_no pf = 0 \<or> \<bar>samples_no pf\<bar> \<le> int (length (samples pf)))"

text \<open>The extra bits that a profile adds to a packet, when they are few.\<close>

definition extra_small :: "dn_schk \<Rightarrow> bool" where
  "extra_small r \<longleftrightarrow> (case sk_profile r of None \<Rightarrow> True
     | Some pf \<Rightarrow> \<forall>x\<in>set (samples pf).
         uint (word_of_int (div64 (sint (word_of_int x * word_of_int (bandwidth (sk_link r)) :: u64)) 1000) :: u64) < 2 ^ 19)"

lemma upd_tag_fields [simp]: "m_id (upd_tag f m) = m_id m" "m_len (upd_tag f m) = m_len m"
  by (simp_all add: upd_tag_def split: list.split)

lemma dn_tag_get_upd: "dn_tag_get m = Some t \<Longrightarrow> dn_tag_get (upd_tag f m) = Some (f t)"
  by (auto simp: dn_tag_get_def upd_tag_def split: list.splits if_splits)

lemma same_env [simp]: "s\<lparr>env := env s\<rparr> = (s :: 'x dn_sys)"
  by (cases s) simp

lemma same_rand: "e\<lparr>rand := rand e\<rparr> = (e :: 'x dn_env_scheme)"
  by simp

definition bits_ok :: "schid \<Rightarrow> mbuf \<Rightarrow> 'x dn_sys \<Rightarrow> (u64 \<times> mbuf \<times> 'x dn_sys) option \<Rightarrow> bool" where
  "bits_ok k m s r \<longleftrightarrow> (\<exists>x m' f. r = Some (x, m', s\<lparr>env := (env s)\<lparr>rand := f\<rparr>\<rparr>) \<and> m_id m' = m_id m \<and> m_len m' = m_len m \<and>
    dn_tag_get m' \<noteq> None \<and> (extra_small (schks (env s) k) \<longrightarrow> uint x < 2 ^ 19))"

lemma bits_ok_none: "dn_tag_get m \<noteq> None \<Longrightarrow> bits_ok k m s (Some (0, m, s))"
  unfolding bits_ok_def by (rule exI [of _ 0], rule exI [of _ m], rule exI [of _ "rand (env s)"]) simp

lemma extra_bits_ok:
  assumes "valid_profile (env s) k" "dn_tag_get m \<noteq> None"
  shows "bits_ok k m s (extra_bits m k s)"
proof (cases "sk_profile (schks (env s) k)")
  case None
  then show ?thesis using bits_ok_none [OF assms(2)] by (simp add: extra_bits_def)
next
  case (Some pf)
  show ?thesis
  proof (cases "samples_no pf = 0")
    case True
    then show ?thesis using Some bits_ok_none [OF assms(2)] by (simp add: extra_bits_def)
  next
    case False
    define ix where "ix = rand (env s) 0 mod \<bar>samples_no pf\<bar>"
    have "0 \<le> ix" "ix < \<bar>samples_no pf\<bar>" using False by (simp_all add: ix_def)
    then have "0 \<le> ix" "ix < int (length (samples pf))"
      using assms(1) Some False by (auto simp: valid_profile_def)
    moreover obtain t where "dn_tag_get m = Some t" using assms(2) by auto
    moreover from calculation have "samples pf ! nat ix \<in> set (samples pf)" by simp
    ultimately show ?thesis
      using Some False
      by (auto simp: bits_ok_def extra_small_def extra_bits_def get_random_def Let_def ix_def [symmetric] dn_tag_get_upd)
  qed
qed

definition departs :: "mbuf \<Rightarrow> u64 \<Rightarrow> bool" where
  "departs m t \<longleftrightarrow> (\<exists>u. dn_tag_get m = Some u \<and> output_time u = t)"

text \<open>The price of a packet in bits.\<close>

lemma price_small:
  fixes x :: u64
  assumes "0 \<le> h" "h \<le> 2 ^ 20" "0 \<le> l" "l < 2 ^ 16" "uint x < 2 ^ 19"
  shows "uint (word_of_int h * (word_of_int (s32 (l * 8)) + x) :: u64) < 2 ^ 40"
proof -
  have s: "s32 (l * 8) = l * 8" using assms by (intro s32_id) simp_all
  define y where "y = l * 8 + uint x"
  have y: "0 \<le> y" "y < 2 ^ 20" using assms by (simp_all add: y_def)
  have "h * y \<le> 2 ^ 20 * (2 ^ 20 - 1)" using assms y by (intro mult_mono) simp_all
  moreover have "0 \<le> h * y" using assms y by simp
  ultimately have b: "0 \<le> h * y" "h * y < 2 ^ 40" by simp_all
  have "word_of_int h * (word_of_int (s32 (l * 8)) + x) = (word_of_int (h * y) :: u64)" by (simp add: s y_def)
  moreover have "uint (word_of_int (h * y) :: u64) = h * y"
    using b by (intro uint_of_int64) simp_all
  ultimately show ?thesis using b by simp
qed

text \<open>What serving the packet \<open>m\<close> of instance \<open>i\<close> at a price \<open>c\<close> does.\<close>

definition paid :: "siid \<Rightarrow> mbuf \<Rightarrow> int \<Rightarrow> 'x dn_env_scheme \<Rightarrow> 'x dn_env_scheme \<Rightarrow> bool" where
  "paid i m c e e' \<longleftrightarrow> data_frame e e' \<and> curr_time e' = curr_time e \<and> (\<forall>j. j \<noteq> i \<longrightarrow> sis e' j = sis e j) \<and>
     (\<exists>m'. sis e' i = (sis e i)\<lparr>si_credit := s64 (si_credit (sis e i) - c), si_dline := si_dline (sis e i) @ [m']\<rparr> \<and>
       m_id m' = m_id m \<and>
       departs m' (curr_time e + word_of_int (delay (sk_link (schks e (si_sched (sis e i)))))))"

definition price_ok :: "int \<Rightarrow> schid \<Rightarrow> mbuf \<Rightarrow> 'x dn_sys \<Rightarrow> (u64 \<times> mbuf \<times> 'x dn_sys) option \<Rightarrow> bool" where
  "price_ok bw k m s r \<longleftrightarrow> (\<exists>x m' f. r = Some (x, m', s\<lparr>env := (env s)\<lparr>rand := f\<rparr>\<rparr>) \<and> m_id m' = m_id m \<and>
    dn_tag_get m' \<noteq> None \<and> (bw = 0 \<longrightarrow> x = 0) \<and>
    (extra_small (schks (env s) k) \<longrightarrow> 0 \<le> hz s \<longrightarrow> hz s \<le> 2 ^ 20 \<longrightarrow> uint x < 2 ^ 40))"

lemma pkt_price_ok:
  assumes vp: "valid_profile (env s) k" and m: "pkt_ok m"
  shows "price_ok bw k m s (pkt_price bw k m s)"
proof (cases "bw = 0")
  case True
  then show ?thesis unfolding price_ok_def pkt_price_def
    by (intro exI [of _ 0] exI [of _ m] exI [of _ "rand (env s)"]) (use m in \<open>simp add: pkt_ok_def\<close>)
next
  case False
  have "bits_ok k m s (extra_bits m k s)" using extra_bits_ok [OF vp] m by (simp add: pkt_ok_def)
  then obtain x m' f where e: "extra_bits m k s = Some (x, m', s\<lparr>env := (env s)\<lparr>rand := f\<rparr>\<rparr>)" "m_id m' = m_id m"
      "m_len m' = m_len m" "dn_tag_get m' \<noteq> None" "extra_small (schks (env s) k) \<longrightarrow> uint x < 2 ^ 19"
    unfolding bits_ok_def by (elim exE conjE) (rule that)
  define y where "y = word_of_int (hz s) * (word_of_int (s32 (m_len m * 8)) + x)"
  have "uint y < 2 ^ 40" if h: "extra_small (schks (env s) k)" "0 \<le> hz s" "hz s \<le> 2 ^ 20"
    unfolding y_def by (rule price_small) (use m h e(5) in \<open>auto simp: pkt_ok_def\<close>)
  moreover have "pkt_price bw k m s = Some (y, m', s\<lparr>env := (env s)\<lparr>rand := f\<rparr>\<rparr>)"
    using False e(1,3) by (simp add: pkt_price_def y_def)
  ultimately show ?thesis unfolding price_ok_def using False e(2,4) by - (intro exI conjI; (assumption | blast))
qed

lemma serve_pkt_ok:
  assumes vp: "valid_profile (env s) k" and m: "pkt_ok m" and k: "k = si_sched (sis (env s) i)"
  shows "\<exists>e' c. serve_pkt k i bw m s = Some (s\<lparr>env := e'\<rparr>) \<and> paid i m c (env s) e' \<and> 0 \<le> c \<and> (bw = 0 \<longrightarrow> c = 0) \<and>
    (extra_small (schks (env s) k) \<longrightarrow> 0 \<le> hz s \<longrightarrow> hz s \<le> 2 ^ 20 \<longrightarrow> c < 2 ^ 40)"
proof -
  obtain x m1 f where x: "pkt_price bw k m s = Some (x, m1, s\<lparr>env := (env s)\<lparr>rand := f\<rparr>\<rparr>)" "m_id m1 = m_id m"
      "dn_tag_get m1 \<noteq> None" "bw = 0 \<longrightarrow> x = 0"
      "extra_small (schks (env s) k) \<longrightarrow> 0 \<le> hz s \<longrightarrow> hz s \<le> 2 ^ 20 \<longrightarrow> uint x < 2 ^ 40"
    using pkt_price_ok [OF vp m, of bw] unfolding price_ok_def by (elim exE conjE) (rule that)
  obtain t where t: "dn_tag_get m1 = Some t" using x(3) by auto
  define m2 where "m2 = upd_tag (\<lambda>t. t\<lparr>output_time := curr_time (env s) + word_of_int (delay (sk_link (schks (env s) k)))\<rparr>) m1"
  define e' where "e' = upd_si i (\<lambda>r. r\<lparr>si_credit := s64 (si_credit r + - uint x), si_dline := si_dline r @ [m2]\<rparr>) ((env s)\<lparr>rand := f\<rparr>)"
  have "serve_pkt k i bw m s = Some (s\<lparr>env := e'\<rparr>)"
    unfolding serve_pkt_def x(1)
    by (simp add: t add_credit_def on_env_def m2_def e'_def upd_si_def)
  moreover have "paid i m (uint x) (env s) e'"
    using x(2) dn_tag_get_upd [OF t] by (auto simp: paid_def e'_def data_frame_def si_stat_def m2_def departs_def k)
  moreover have "0 \<le> uint x" by (rule uint_ge_0)
  moreover have "bw = 0 \<longrightarrow> uint x = 0" using x(4) by simp
  ultimately show ?thesis using x(5) by - (intro exI conjI; assumption)
qed

section \<open>The loop\<close>

text \<open>
  What serving instance \<open>i\<close> does: the packets \<open>new\<close> went from its scheduler to the end of its delay line
  and are due after the delay of the link; nothing else changed, but for credit and statistics.
\<close>

definition si_fixed :: "dn_sch_inst \<Rightarrow> dn_sch_inst" where
  "si_fixed r = (si_core r)\<lparr>si_credit := 0, si_dline := []\<rparr>"

definition link_delay :: "'x dn_env_scheme \<Rightarrow> siid \<Rightarrow> u64" where
  "link_delay e i = word_of_int (delay (sk_link (schks e (si_sched (sis e i)))))"

definition served :: "('x dn_env_scheme \<Rightarrow> siid \<Rightarrow> mbuf multiset) \<Rightarrow> siid \<Rightarrow> mbuf list \<Rightarrow> 'x dn_env_scheme \<Rightarrow> 'x dn_env_scheme \<Rightarrow> bool" where
  "served held i new e e' \<longleftrightarrow> freed e' = freed e \<and> curr_time e' = curr_time e \<and> schks e' = schks e \<and>
     (\<forall>j. j \<noteq> i \<longrightarrow> si_core (sis e' j) = si_core (sis e j) \<and> held e' j = held e j) \<and>
     si_fixed (sis e' i) = si_fixed (sis e i) \<and> si_dline (sis e' i) = si_dline (sis e i) @ new \<and>
     image_mset m_id (held e i) = mset (map m_id new) + image_mset m_id (held e' i) \<and>
     (\<forall>m\<in>set new. departs m (curr_time e + link_delay e i))"

lemma si_core_sel [simp]:
  "si_dline (si_core r) = si_dline r" "dline_in_heap (si_core r) = dline_in_heap r" "si_sched (si_core r) = si_sched r" "si_kflags (si_core r) = si_kflags r" "si_credit (si_core r) = si_credit r" "sched_time (si_core r) = sched_time r" "idle_time (si_core r) = idle_time r" "si_q_count (si_core r) = si_q_count r"
  by (simp_all add: si_core_def si_fixed_def)

lemma si_fixed_sel [simp]:
  "dline_in_heap (si_fixed r) = dline_in_heap r" "si_sched (si_fixed r) = si_sched r" "si_kflags (si_fixed r) = si_kflags r" "sched_time (si_fixed r) = sched_time r" "idle_time (si_fixed r) = idle_time r" "si_q_count (si_fixed r) = si_q_count r"
  by (simp_all add: si_core_def si_fixed_def)

lemma si_core_fields:
  assumes "si_core r' = si_core r"
  shows "si_dline r' = si_dline r" "dline_in_heap r' = dline_in_heap r" "si_sched r' = si_sched r" "si_kflags r' = si_kflags r" "si_credit r' = si_credit r" "sched_time r' = sched_time r" "idle_time r' = idle_time r" "si_q_count r' = si_q_count r"
  by (metis assms si_core_sel)+

lemma si_fixed_fields:
  assumes "si_fixed r' = si_fixed r"
  shows "dline_in_heap r' = dline_in_heap r" "si_sched r' = si_sched r" "si_kflags r' = si_kflags r" "sched_time r' = sched_time r" "idle_time r' = idle_time r" "si_q_count r' = si_q_count r"
  by (metis assms si_fixed_sel)+

lemma si_core_fixed: "si_core r' = si_core r \<Longrightarrow> si_fixed r' = si_fixed r"
  by (simp only: si_fixed_def)

lemma si_fixed_upd [simp]: "si_fixed (r\<lparr>si_credit := c, si_dline := l\<rparr>) = si_fixed r"
  by (simp add: si_fixed_def si_core_def)

lemma served_refl: "served held i [] e e"
  by (simp add: served_def)

lemma served_trans:
  assumes "served held i ms e e1" "served held i ns e1 e2"
  shows "served held i (ms @ ns) e e2"
proof -
  have "si_fixed (sis e1 i) = si_fixed (sis e i)" "schks e1 = schks e" using assms(1) by (simp_all add: served_def)
  then have "link_delay e1 i = link_delay e i" by (simp add: link_delay_def si_fixed_fields(2) [of "sis e1 i" "sis e i"])
  with assms show ?thesis by (auto simp: served_def)
qed

lemma paid_served:
  assumes d: "freed e1 = freed e" "curr_time e1 = curr_time e" "schks e1 = schks e" "\<forall>j. si_core (sis e1 j) = si_core (sis e j)"
    and h: "held e i = add_mset m (held e1 i)" "\<forall>j. j \<noteq> i \<longrightarrow> held e1 j = held e j" "held e2 = held e1"
    and p: "paid i m c e1 e2"
  shows "\<exists>m'. served held i [m'] e e2 \<and> si_credit (sis e2 i) = s64 (si_credit (sis e i) - c) \<and> m_id m' = m_id m"
proof -
  obtain m' where m': "sis e2 i = (sis e1 i)\<lparr>si_credit := s64 (si_credit (sis e1 i) - c), si_dline := si_dline (sis e1 i) @ [m']\<rparr>"
      "m_id m' = m_id m" "departs m' (curr_time e1 + link_delay e1 i)"
    using p by (auto simp: paid_def link_delay_def)
  have f: "si_core (sis e1 i) = si_core (sis e i)" using d(4) by blast
  note cf = si_core_fields [OF f] si_core_fixed [OF f]
  have "link_delay e1 i = link_delay e i" by (simp add: link_delay_def d cf)
  with p d h m' cf show ?thesis by (intro exI [of _ m']) (auto simp: served_def paid_def data_frame_def)
qed

text \<open>The bounds that keep the credit from wrapping.\<close>

definition credit_fits :: "int \<Rightarrow> bool" where
  "credit_fits c \<longleftrightarrow> - (2 ^ 50) \<le> c \<and> c < 2 ^ 62"

lemma credit_fits_pay: "credit_fits c \<Longrightarrow> 0 \<le> c \<Longrightarrow> 0 \<le> d \<Longrightarrow> d < 2 ^ 40 \<Longrightarrow> s64 (c - d) = c - d \<and> credit_fits (c - d)"
  unfolding credit_fits_def by (intro conjI s64_id) simp_all

definition plain_link :: "'x dn_sys \<Rightarrow> siid \<Rightarrow> bool" where
  "plain_link s i \<longleftrightarrow> extra_small (schks (env s) (si_sched (sis (env s) i))) \<and> 0 \<le> hz s \<and> hz s \<le> 2 ^ 20"

text \<open>What the loop leaves, in terms of the packets served.\<close>

definition loop_post :: "('x dn_env_scheme \<Rightarrow> siid \<Rightarrow> mbuf multiset) \<Rightarrow> siid \<Rightarrow> int \<Rightarrow> mbuf list \<Rightarrow> 'x dn_sys \<Rightarrow> 'x dn_env_scheme \<Rightarrow> bool" where
  "loop_post held i bw new s e' \<longleftrightarrow> served held i new (env s) e' \<and>
     (0 \<le> si_credit (sis e' i) \<longrightarrow> held e' i = {#}) \<and>
     (bw = 0 \<longrightarrow> si_credit (sis (env s) i) = 0 \<longrightarrow> si_credit (sis e' i) = 0) \<and>
     (plain_link s i \<longrightarrow> credit_fits (si_credit (sis (env s) i)) \<longrightarrow> credit_fits (si_credit (sis e' i)))"

context packet_source
begin

lemma one_round:
  assumes inv: "inv (env s)" and i: "i \<in> V" and k: "k = si_sched (sis (env s) i)" and vp: "valid_profile (env s) k"
    and a: "sk_alg al (env s) k = Some a"
  shows "(\<exists>e1. al_dequeue a i (env s) = Some (None, e1) \<and> inv e1 \<and> served held i [] (env s) e1 \<and> held e1 i = {#} \<and>
      si_credit (sis e1 i) = si_credit (sis (env s) i)) \<or>
    (\<exists>m e1 e2 m' c. al_dequeue a i (env s) = Some (Some m, e1) \<and> 0 \<le> m_len m \<and>
      serve_pkt k i bw m (s\<lparr>env := e1\<rparr>) = Some (s\<lparr>env := e2\<rparr>) \<and> inv e2 \<and> served held i [m'] (env s) e2 \<and>
      size (held e2 i) < size (held (env s) i) \<and> data_frame e1 e2 \<and> m_id m' = m_id m \<and>
      si_credit (sis e2 i) = s64 (si_credit (sis (env s) i) - c) \<and> 0 \<le> c \<and> (bw = 0 \<longrightarrow> c = 0) \<and> (plain_link s i \<longrightarrow> c < 2 ^ 40))"
proof -
  obtain p e1 where d: "al_dequeue a i (env s) = Some (p, e1)" "inv e1" "freed e1 = freed (env s)"
      "curr_time e1 = curr_time (env s)" "schks e1 = schks (env s)" "\<forall>j. si_core (sis e1 j) = si_core (sis (env s) j)"
    and p: "case p of None \<Rightarrow> held e1 = held (env s) \<and> held (env s) i = {#}
       | Some m \<Rightarrow> held (env s) i = add_mset m (held e1 i) \<and> (\<forall>j. j \<noteq> i \<longrightarrow> held e1 j = held (env s) j)"
    using deq [OF inv i] a by (auto simp: k)
  have cf: "si_core (sis e1 i) = si_core (sis (env s) i)" using d(6) by blast
  note cf = si_core_fields [OF cf] si_core_fixed [OF cf]
  show ?thesis
  proof (cases p)
    case None
    with d p cf show ?thesis by (auto simp: served_def)
  next
    case (Some m)
    have h: "held (env s) i = add_mset m (held e1 i)" "\<forall>j. j \<noteq> i \<longrightarrow> held e1 j = held (env s) j"
      using p Some by auto
    have ok: "pkt_ok m" using held_ok [OF inv i, of m] h by simp
    have vp1: "valid_profile (env (s\<lparr>env := e1\<rparr>)) k" using vp by (simp add: valid_profile_def d)
    obtain e2 c where c: "serve_pkt k i bw m (s\<lparr>env := e1\<rparr>) = Some (s\<lparr>env := e2\<rparr>)" "paid i m c e1 e2" "0 \<le> c"
        "bw = 0 \<longrightarrow> c = 0" "extra_small (schks e1 k) \<longrightarrow> 0 \<le> hz s \<longrightarrow> hz s \<le> 2 ^ 20 \<longrightarrow> c < 2 ^ 40"
      using serve_pkt_ok [OF vp1 ok, of i bw] cf by (auto simp: k)
    have f: "inv e2" "held e2 = held e1" using frame [OF d(2), of e2] c(2) by (auto simp: paid_def)
    obtain m' where m': "served held i [m'] (env s) e2" "si_credit (sis e2 i) = s64 (si_credit (sis (env s) i) - c)" "m_id m' = m_id m"
      using paid_served [OF d(3-6), of held i m, OF h f(2) c(2)] by blast
    have "plain_link s i \<longrightarrow> c < 2 ^ 40" using c(5) d(5) by (simp add: plain_link_def k)
    moreover have "0 \<le> m_len m" using ok by (simp add: pkt_ok_def)
    moreover have "size (held e2 i) < size (held (env s) i)" using h f by simp
    moreover have "data_frame e1 e2" using c(2) by (simp add: paid_def)
    ultimately show ?thesis using d(1) Some c f m' by blast
  qed
qed

lemma loop_post_step:
  assumes m: "served held i [m'] (env s) e2" and c: "si_credit (sis e2 i) = s64 (si_credit (sis (env s) i) - c)"
    and cs: "0 \<le> c" "bw = 0 \<longrightarrow> c = 0" "plain_link s i \<longrightarrow> c < 2 ^ 40" and pos: "0 \<le> si_credit (sis (env s) i)"
    and post: "loop_post held i bw new (s\<lparr>env := e2\<rparr>) e'"
  shows "loop_post held i bw (m' # new) s e'"
proof -
  have sd: "si_sched (sis e2 i) = si_sched (sis (env s) i)" "schks e2 = schks (env s)"
    using m si_fixed_fields(2) [of "sis e2 i" "sis (env s) i"] by (auto simp: served_def)
  have pl: "plain_link (s\<lparr>env := e2\<rparr>) i \<longleftrightarrow> plain_link s i" by (simp add: plain_link_def sd)
  have z: "bw = 0 \<longrightarrow> si_credit (sis (env s) i) = 0 \<longrightarrow> si_credit (sis e2 i) = 0"
    using c cs by (simp add: s64_id)
  have fits: "plain_link s i \<longrightarrow> credit_fits (si_credit (sis (env s) i)) \<longrightarrow> credit_fits (si_credit (sis e2 i))"
    using credit_fits_pay [of "si_credit (sis (env s) i)" c] cs pos by (simp add: c)
  have "served held i ([m'] @ new) (env s) e'"
    using served_trans [OF m, of new e'] post by (simp add: loop_post_def)
  with post z fits pl show ?thesis by (auto simp: loop_post_def)
qed

lemma serve_loop_ends:
  assumes inv: "inv (env s)" and i: "i \<in> V" and k: "k = si_sched (sis (env s) i)" and vp: "valid_profile (env s) k"
    and a: "sk_alg al (env s) k = Some a"
  shows "\<exists>new e'. serve_loop a k i bw n s = Some (n + length new, None, s\<lparr>env := e'\<rparr>) \<and> inv e' \<and>
    loop_post held i bw new s e' \<and> (\<exists>ms. takes a i (env s) ms e' \<and> map m_id ms = map m_id new)"
  using assms
proof (induction "size (held (env s) i)" arbitrary: s n rule: less_induct)
  case less
  note inv = less.prems(1) and i = less.prems(2) and k = less.prems(3) and vp = less.prems(4) and a = less.prems(5)
  show ?case
  proof (cases "si_credit (sis (env s) i) < 0")
    case True
    with inv show ?thesis
      by (intro exI [of _ "[]"] exI [of _ "env s"])
        (auto simp: serve_loop.simps [of a] loop_post_def served_refl intro: takes.intros)
  next
    case False
    show ?thesis
      using one_round [OF inv i k vp a, of bw]
    proof (elim disjE exE conjE, goal_cases)
      case (1 e1)
      then show ?case using False
        by (intro exI [of _ "[]"] exI [of _ e1])
          (auto simp: serve_loop.simps [of a] lift_cbo_def loop_post_def intro: takes.intros)
    next
      case (2 m e1 e2 m' c)
      have sd: "si_sched (sis e2 i) = si_sched (sis (env s) i)" "schks e2 = schks (env s)"
        using 2(5) si_fixed_fields(2) [of "sis e2 i" "sis (env s) i"] by (auto simp: served_def)
      obtain new ms e' where ih: "serve_loop a k i bw (n + 1) (s\<lparr>env := e2\<rparr>) = Some (n + 1 + length new, None, s\<lparr>env := e'\<rparr>)"
          "inv e'" "loop_post held i bw new (s\<lparr>env := e2\<rparr>) e'" "takes a i e2 ms e'" "map m_id ms = map m_id new"
        using less.hyps [of "s\<lparr>env := e2\<rparr>" "n + 1"] 2(4,6) i k vp a
        by (auto simp: sd valid_profile_def sk_alg_def)
      have "serve_loop a k i bw n s = serve_loop a k i bw (n + 1) (s\<lparr>env := e2\<rparr>)"
        using False 2(1-3) by (subst serve_loop.simps) (simp add: lift_cbo_def)
      moreover have "loop_post held i bw (m' # new) s e'"
        using loop_post_step [OF 2(5,9,10,11,12) _ ih(3)] False by simp
      moreover have "takes a i (env s) (m # ms) e'" using takes_pkt [OF 2(1) takes_frame [OF 2(7) ih(4)]] .
      ultimately show ?case using ih(1,2,5) 2(8)
        by (intro exI [of _ "m' # new"] exI [of _ e'] conjI exI [of _ "m # ms"]) simp_all
    qed
  qed
qed

end

section \<open>Serving an instance\<close>

lemma ev_insert_env: "ev_insert k x (s\<lparr>env := e\<rparr>) = (ev_insert k x s)\<lparr>env := e\<rparr>"
  by (simp add: ev_insert_def Let_def split: option.split)

lemma serve_start_eq:
  "\<exists>c. serve_start i bw now s = s\<lparr>env := upd_si i (\<lambda>r. r\<lparr>si_kflags := si_kflags r AND NOT DN_ACTIVE, si_credit := c, sched_time := now\<rparr>) (env s)\<rparr> \<and>
     (bw \<le> 0 \<longrightarrow> c = 0) \<and>
     (0 < bw \<longrightarrow> c = s64 (si_credit (sis (env s) i) + uint ((now - sched_time (sis (env s) i)) * word_of_int bw)))"
  by (simp add: serve_start_def set_active_def add_credit_def on_env_def upd_si_def Let_def)

text \<open>The ticks until the credit is paid back.\<close>

definition pay_ticks :: "int \<Rightarrow> int \<Rightarrow> u64" where
  "pay_ticks bw c = word_of_int (div64 (s64 (bw - 1 - c)) bw)"

lemma pay_ticks_bounds:
  assumes "0 < bw" "bw < 2 ^ 31" "credit_fits c" "c < 0"
  shows "1 \<le> uint (pay_ticks bw c)" "uint (pay_ticks bw c) < 2 ^ 51"
proof -
  have b: "bw \<le> bw - 1 - c" "bw - 1 - c < 2 ^ 51" using assms by (auto simp: credit_fits_def)
  have s: "s64 (bw - 1 - c) = bw - 1 - c" using b assms by (intro s64_id; simp)
  define d where "d = (bw - 1 - c) div bw"
  have "1 \<le> d" using b assms by (simp add: d_def pos_imp_zdiv_pos_iff int_one_le_iff_zero_less)
  moreover have "d * bw \<le> bw - 1 - c"
    using div_mult_mod_eq [of "bw - 1 - c" bw] pos_mod_sign [of bw "bw - 1 - c"] assms(1) unfolding d_def by linarith
  moreover have "d * 1 \<le> d * bw" using \<open>1 \<le> d\<close> assms(1) by (intro mult_left_mono) linarith+
  ultimately have d: "1 \<le> d" "d < 2 ^ 51" using b by linarith+
  have "div64 (s64 (bw - 1 - c)) bw = d"
    unfolding div64_def s using d b assms by (simp add: s64_id cdiv_nonneg d_def [symmetric])
  then show "1 \<le> uint (pay_ticks bw c)" "uint (pay_ticks bw c) < 2 ^ 51"
    using d by (simp_all add: pay_ticks_def uint_of_int64)
qed

lemma serve_end_eq:
  assumes "0 \<le> bw" "bw = 0 \<longrightarrow> si_credit (sis (env s) i) = 0"
  shows "serve_end i bw now n s =
    Some (if 0 \<le> si_credit (sis (env s) i) then s\<lparr>env := upd_si i (\<lambda>r. r\<lparr>idle_time := now\<rparr>) (env s)\<rparr>
      else (ev_insert (now + pay_ticks bw (si_credit (sis (env s) i))) (EvSI i) s)\<lparr>env :=
        upd_si i (\<lambda>r. r\<lparr>si_dline := (if 0 < n then upd_last (upd_tag (\<lambda>u. u\<lparr>output_time := output_time u + pay_ticks bw (si_credit (sis (env s) i))\<rparr>)) (si_dline r) else si_dline r),
          si_kflags := si_kflags r OR DN_ACTIVE\<rparr>) (env s)\<rparr>)"
  using assms by (auto simp: serve_end_def on_env_def set_active_def Let_def pay_ticks_def [symmetric] ev_insert_env upd_si_def)

lemma map_upd_last: "(\<And>m. g (f m) = g m) \<Longrightarrow> map g (upd_last f xs) = map g xs"
  by (induction xs rule: rev_induct) (simp_all add: upd_last_def)

lemma set_upd_last: "m \<in> set (upd_last f xs) \<Longrightarrow> m \<in> set xs \<or> xs \<noteq> [] \<and> m = f (last xs)"
  by (auto simp: upd_last_def dest: in_set_butlastD split: if_splits)

definition ev_add :: "(u64 \<times> ev) list \<Rightarrow> 'x dn_sys \<Rightarrow> 'x dn_sys" where
  "ev_add xs s = fold (\<lambda>(k, x). ev_insert k x) xs s"

lemma ev_add_simps [simp]: "ev_add [] s = s" "ev_add ((k, x) # xs) s = ev_add xs (ev_insert k x s)"
  "ev_add (xs @ ys) s = ev_add ys (ev_add xs s)"
  by (simp_all add: ev_add_def)

lemma ev_add_env: "ev_add xs (s\<lparr>env := e\<rparr>) = (ev_add xs s)\<lparr>env := e\<rparr>"
proof (induction xs arbitrary: s)
  case (Cons a xs)
  then show ?case by (cases a) (simp add: ev_insert_env)
qed simp

abbreviation tagged :: "mbuf list \<Rightarrow> bool" where
  "tagged ms \<equiv> \<forall>m\<in>set ms. dn_tag_get m \<noteq> None"

abbreviation active :: "'x dn_env_scheme \<Rightarrow> siid \<Rightarrow> bool" where
  "active e i \<equiv> si_kflags (sis e i) AND DN_ACTIVE \<noteq> 0"

lemma DN_ACTIVE_flag [simp]: "((f AND NOT DN_ACTIVE) AND DN_ACTIVE) = 0" "((f OR DN_ACTIVE) AND DN_ACTIVE) \<noteq> 0"
proof -
  show "((f AND NOT DN_ACTIVE) AND DN_ACTIVE) = 0"
    by (rule bit_word_eqI) (auto simp: bit_and_iff bit_not_iff)
  have "bit DN_ACTIVE 5" unfolding DN_ACTIVE_def by simp
  then have "bit ((f OR DN_ACTIVE) AND DN_ACTIVE) 5" by (simp add: bit_and_iff bit_or_iff)
  then show "((f OR DN_ACTIVE) AND DN_ACTIVE) \<noteq> 0" by auto
qed

lemma DN_ACTIVE_neq [simp]: "DN_ACTIVE \<noteq> 0"
  by (simp add: DN_ACTIVE_def)

text \<open>The changes to one instance \<open>i\<close> by the data path.\<close>

definition line_frame :: "siid \<Rightarrow> 'x dn_env_scheme \<Rightarrow> 'x dn_env_scheme \<Rightarrow> bool" where
  "line_frame i e e' \<longleftrightarrow> data_frame e e' \<and> curr_time e' = curr_time e \<and> (\<forall>j. j \<noteq> i \<longrightarrow> sis e' j = sis e j)"

lemma line_frame_trans: "line_frame i e e1 \<Longrightarrow> line_frame i e1 e2 \<Longrightarrow> line_frame i e e2"
  by (simp add: line_frame_def data_frame_def)

lemma line_frame_upd: "(\<And>r. si_stat (f r) = si_stat r) \<Longrightarrow> line_frame i e (upd_si i f e)"
  by (simp add: line_frame_def data_frame_def)

lemma line_frame_sched: "line_frame i e e' \<Longrightarrow> si_sched (sis e' j) = si_sched (sis e j)"
  by (simp add: line_frame_def data_frame_def si_stat_def)

text \<open>After the loop.\<close>

definition end_post :: "siid \<Rightarrow> int \<Rightarrow> nat \<Rightarrow> 'x dn_env_scheme \<Rightarrow> 'x dn_env_scheme \<Rightarrow> bool" where
  "end_post i bw n e e' \<longleftrightarrow> line_frame i e e' \<and> si_credit (sis e' i) = si_credit (sis e i) \<and>
     dline_in_heap (sis e' i) = dline_in_heap (sis e i) \<and> sched_time (sis e' i) = sched_time (sis e i) \<and>
     (active e' i \<longleftrightarrow> si_credit (sis e i) < 0) \<and>
     map m_id (si_dline (sis e' i)) = map m_id (si_dline (sis e i)) \<and> tagged (si_dline (sis e' i)) \<and>
     (\<forall>m\<in>set (si_dline (sis e' i)). m \<in> set (si_dline (sis e i)) \<or> 0 < n \<and> si_credit (sis e i) < 0 \<and>
        (\<exists>u. dn_tag_get (last (si_dline (sis e i))) = Some u \<and>
          departs m (output_time u + pay_ticks bw (si_credit (sis e i)))))"

lemma serve_end_ok:
  assumes bw: "0 \<le> bw" "bw = 0 \<longrightarrow> si_credit (sis (env s) i) = 0"
    and tg: "tagged (si_dline (sis (env s) i))" and na: "\<not> active (env s) i"
  shows "\<exists>e'. serve_end i bw now n s = Some ((ev_add (if si_credit (sis (env s) i) < 0
      then [(now + pay_ticks bw (si_credit (sis (env s) i)), EvSI i)] else []) s)\<lparr>env := e'\<rparr>) \<and> end_post i bw n (env s) e'"
proof (cases "0 \<le> si_credit (sis (env s) i)")
  case True
  then show ?thesis using serve_end_eq [OF bw, of now n] tg na
    by (intro exI [of _ "upd_si i (\<lambda>r. r\<lparr>idle_time := now\<rparr>) (env s)"])
      (simp add: end_post_def line_frame_upd si_stat_def)
next
  case False
  define c where "c = si_credit (sis (env s) i)"
  define f where "f = upd_tag (\<lambda>u. u\<lparr>output_time := output_time u + pay_ticks bw c\<rparr>)"
  define l where "l = si_dline (sis (env s) i)"
  define l' where "l' = (if 0 < n then upd_last f l else l)"
  define e' where "e' = upd_si i (\<lambda>r. r\<lparr>si_dline := (if 0 < n then upd_last f (si_dline r) else si_dline r), si_kflags := si_kflags r OR DN_ACTIVE\<rparr>) (env s)"
  have e: "serve_end i bw now n s = Some ((ev_add [(now + pay_ticks bw c, EvSI i)] s)\<lparr>env := e'\<rparr>)"
    using serve_end_eq [OF bw, of now n] False by (simp add: c_def f_def e'_def ev_insert_env)
  have l': "si_dline (sis e' i) = l'" by (simp add: e'_def l'_def l_def)
  have ids: "map m_id l' = map m_id l" by (simp add: l'_def map_upd_last f_def)
  have ft: "\<exists>u. dn_tag_get (f m) = Some u" if "dn_tag_get m \<noteq> None" for m
    using that dn_tag_get_upd by (auto simp: f_def)
  have tl: "l \<noteq> [] \<Longrightarrow> dn_tag_get (last l) \<noteq> None" using tg last_in_set by (auto simp: l_def)
  have tg': "tagged l'"
  proof
    fix m assume "m \<in> set l'"
    then have "m \<in> set l \<or> l \<noteq> [] \<and> m = f (last l)"
      using set_upd_last [of m f l] by (auto simp: l'_def split: if_splits)
    then show "dn_tag_get m \<noteq> None" using tg ft [of "last l"] tl by (auto simp: l_def)
  qed
  have "\<forall>m\<in>set l'. m \<in> set l \<or> 0 < n \<and> (\<exists>u. dn_tag_get (last l) = Some u \<and> departs m (output_time u + pay_ticks bw c))"
  proof
    fix m assume "m \<in> set l'"
    then have "m \<in> set l \<or> 0 < n \<and> l \<noteq> [] \<and> m = f (last l)"
      using set_upd_last [of m f l] by (auto simp: l'_def split: if_splits)
    then show "m \<in> set l \<or> 0 < n \<and> (\<exists>u. dn_tag_get (last l) = Some u \<and> departs m (output_time u + pay_ticks bw c))"
      using tl dn_tag_get_upd [of "last l"] by (auto simp: f_def departs_def)
  qed
  with ids tg' False have "end_post i bw n (env s) e'"
    unfolding end_post_def l' l_def [symmetric] c_def [symmetric]
    by (simp add: e'_def line_frame_upd si_stat_def c_def)
  with e False show ?thesis by (auto simp: c_def)
qed

text \<open>Sending, when the line was idle.\<close>

definition out_post :: "siid \<Rightarrow> bool \<Rightarrow> u64 \<Rightarrow> mbuf list \<Rightarrow> 'x dn_env_scheme \<Rightarrow> 'x dn_env_scheme \<Rightarrow> bool" where
  "out_post i go now out e e' \<longleftrightarrow> line_frame i e e' \<and> si_credit (sis e' i) = si_credit (sis e i) \<and>
     sched_time (sis e' i) = sched_time (sis e i) \<and> (active e' i \<longleftrightarrow> active e i) \<and>
     si_dline (sis e i) = out @ si_dline (sis e' i) \<and>
     (if go then (dline_in_heap (sis e' i) \<longleftrightarrow> si_dline (sis e' i) \<noteq> []) else out = [] \<and> dline_in_heap (sis e' i) = dline_in_heap (sis e i)) \<and>
     (go \<longrightarrow> si_dline (sis e' i) \<noteq> [] \<longrightarrow> \<not> due now (hd (si_dline (sis e' i))))"

abbreviation line_event :: "bool \<Rightarrow> siid \<Rightarrow> 'x dn_env_scheme \<Rightarrow> (u64 \<times> ev) list" where
  "line_event go i e \<equiv> (if go \<and> si_dline (sis e i) \<noteq> []
     then [(output_time (the (dn_tag_get (hd (si_dline (sis e i))))), EvDL i)] else [])"

lemma transmit_ok:
  assumes "tagged (si_dline (sis (env s) i))"
  shows "\<exists>out e'. transmit_event q i now s = Some (q @ out, (ev_add (line_event True i e') s)\<lparr>env := e'\<rparr>) \<and>
    out_post i True now out (env s) e'"
proof -
  define l where "l = si_dline (sis (env s) i)"
  define out where "out = takeWhile (due now) l"
  define rest where "rest = dropWhile (due now) l"
  define e' where "e' = env (line_sent i rest s)"
  have t: "transmit_event q i now s = Some (q @ out, line_sent i rest s)"
    unfolding out_def rest_def l_def by (rule transmit_event_eq [OF assms])
  have r: "si_dline (sis e' i) = rest" "dline_in_heap (sis e' i) \<longleftrightarrow> rest \<noteq> []"
    by (simp_all add: e'_def line_sent_def split: list.split)
  have "line_sent i rest s = (ev_add (line_event True i e') s)\<lparr>env := e'\<rparr>"
    unfolding r by (cases rest) (simp_all add: e'_def line_sent_def on_env_def ev_insert_env)
  moreover have "out_post i True now out (env s) e'"
    unfolding out_post_def r l_def [symmetric]
    using hd_dropWhile [of "due now" l]
    by (auto simp: out_def rest_def e'_def line_sent_def line_frame_upd si_stat_def split: list.split)
  ultimately show ?thesis using t by auto
qed

lemma serve_out_ok:
  assumes "tagged (si_dline (sis (env s) i))"
  shows "\<exists>out e'. serve_out go q i now s = Some (q @ out, (ev_add (line_event go i e') s)\<lparr>env := e'\<rparr>) \<and>
    out_post i go now out (env s) e'"
proof (cases go)
  case True
  with transmit_ok [OF assms] show ?thesis by (simp add: serve_out_def)
next
  case False
  then show ?thesis
    by (intro exI [of _ "[]"] exI [of _ "env s"]) (simp add: serve_out_def out_post_def line_frame_def data_frame_def)
qed

text \<open>All of \<open>serve_sched\<close>, from \<open>e\<close> to \<open>e'\<close>: the packets \<open>new\<close> left the scheduler, \<open>out\<close> left the line.\<close>

definition start_credit :: "int \<Rightarrow> u64 \<Rightarrow> dn_sch_inst \<Rightarrow> int" where
  "start_credit bw now r = (if 0 < bw then s64 (si_credit r + uint ((now - sched_time r) * word_of_int bw)) else 0)"

definition link_bw :: "'x dn_env_scheme \<Rightarrow> siid \<Rightarrow> int" where
  "link_bw e i = bandwidth (sk_link (schks e (si_sched (sis e i))))"

definition line_times :: "siid \<Rightarrow> 'x dn_env_scheme \<Rightarrow> 'x dn_env_scheme \<Rightarrow> bool" where
  "line_times i e e' \<longleftrightarrow> (\<forall>m\<in>set (si_dline (sis e' i)). m \<in> set (si_dline (sis e i)) \<or>
     departs m (curr_time e + link_delay e i) \<or>
     si_credit (sis e' i) < 0 \<and> departs m (curr_time e + link_delay e i + pay_ticks (link_bw e i) (si_credit (sis e' i))))"

definition sched_post ::
  "('x dn_env_scheme \<Rightarrow> siid \<Rightarrow> mbuf multiset) \<Rightarrow> siid \<Rightarrow> u64 \<Rightarrow> 'x dn_env_scheme \<Rightarrow> mbuf list \<Rightarrow> mbuf list \<Rightarrow> 'x dn_env_scheme \<Rightarrow> bool" where
  "sched_post held i now e out new e' \<longleftrightarrow>
     freed e' = freed e \<and> curr_time e' = curr_time e \<and> schks e' = schks e \<and>
     (\<forall>j. j \<noteq> i \<longrightarrow> si_core (sis e' j) = si_core (sis e j) \<and> held e' j = held e j) \<and>
     si_sched (sis e' i) = si_sched (sis e i) \<and> sched_time (sis e' i) = now \<and>
     (active e' i \<longleftrightarrow> si_credit (sis e' i) < 0) \<and> (0 \<le> si_credit (sis e' i) \<longrightarrow> held e' i = {#}) \<and>
     image_mset m_id (held e i) = mset (map m_id new) + image_mset m_id (held e' i) \<and>
     map m_id (si_dline (sis e i)) @ map m_id new = map m_id out @ map m_id (si_dline (sis e' i)) \<and>
     tagged (si_dline (sis e' i)) \<and>
     (if si_dline (sis e i) = [] \<and> new \<noteq> []
      then (dline_in_heap (sis e' i) \<longleftrightarrow> si_dline (sis e' i) \<noteq> []) \<and>
        (si_dline (sis e' i) \<noteq> [] \<longrightarrow> \<not> due now (hd (si_dline (sis e' i))))
      else out = [] \<and> dline_in_heap (sis e' i) = dline_in_heap (sis e i)) \<and>
     line_times i e e'"

abbreviation si_event :: "siid \<Rightarrow> u64 \<Rightarrow> int \<Rightarrow> int \<Rightarrow> (u64 \<times> ev) list" where
  "si_event i now bw c \<equiv> (if c < 0 then [(now + pay_ticks bw c, EvSI i)] else [])"

text \<open>The parts of \<open>serve_sched\<close> put together.\<close>

lemma served_fields:
  assumes "served held i new e e1"
  shows "si_sched (sis e1 i) = si_sched (sis e i)" "dline_in_heap (sis e1 i) = dline_in_heap (sis e i)"
    "sched_time (sis e1 i) = sched_time (sis e i)" "si_kflags (sis e1 i) = si_kflags (sis e i)"
  using assms si_fixed_fields [of "sis e1 i" "sis e i"] by (auto simp: served_def)

lemma compose_times:
  assumes f0: "line_frame i e e0" and d0: "si_dline (sis e0 i) = si_dline (sis e i)"
    and sv: "served held i new e0 e1" and ep: "end_post i (link_bw e i) (length new) e1 e2" and op: "out_post i go now out e2 e3"
  shows "line_times i e e3"
proof -
  have c: "si_credit (sis e3 i) = si_credit (sis e1 i)" using ep op by (simp add: end_post_def out_post_def)
  have ld: "link_delay e0 i = link_delay e i" "curr_time e0 = curr_time e"
    using f0 line_frame_sched [OF f0, of i] by (simp_all add: line_frame_def data_frame_def link_delay_def)
  have l1: "si_dline (sis e1 i) = si_dline (sis e i) @ new" "\<forall>m\<in>set new. departs m (curr_time e + link_delay e i)"
    using sv d0 ld by (auto simp: served_def)
  have "set (si_dline (sis e3 i)) \<subseteq> set (si_dline (sis e2 i))" using op by (auto simp: out_post_def)
  moreover have "m \<in> set (si_dline (sis e i)) \<or> departs m (curr_time e + link_delay e i) \<or> si_credit (sis e1 i) < 0 \<and>
      departs m (curr_time e + link_delay e i + pay_ticks (link_bw e i) (si_credit (sis e1 i)))" if m2: "m \<in> set (si_dline (sis e2 i))" for m
  proof -
    consider "m \<in> set (si_dline (sis e1 i))" | u where "0 < length new" "si_credit (sis e1 i) < 0"
        "dn_tag_get (last (si_dline (sis e1 i))) = Some u" "departs m (output_time u + pay_ticks (link_bw e i) (si_credit (sis e1 i)))"
      using ep m2 unfolding end_post_def by blast
    then show ?thesis
    proof cases
      case 1
      then show ?thesis using l1 by auto
    next
      case 2
      then have "last (si_dline (sis e1 i)) \<in> set new" using l1(1) by simp
      then have "output_time u = curr_time e + link_delay e i" using l1(2) 2(3) by (auto simp: departs_def)
      with 2 show ?thesis by simp
    qed
  qed
  ultimately show ?thesis unfolding line_times_def c by blast
qed

lemma compose_post:
  assumes f0: "line_frame i e e0" and d0: "si_dline (sis e0 i) = si_dline (sis e i)" "dline_in_heap (sis e0 i) = dline_in_heap (sis e i)"
      "sched_time (sis e0 i) = now"
    and sv: "served held i new e0 e1" and c0: "0 \<le> si_credit (sis e1 i) \<longrightarrow> held e1 i = {#}"
    and ep: "end_post i (link_bw e i) (length new) e1 e2"
    and op: "out_post i (si_dline (sis e i) = [] \<and> new \<noteq> []) now out e2 e3"
    and h: "held e0 = held e" "held e2 = held e1" "held e3 = held e2"
  shows "sched_post held i now e out new e3"
proof -
  note sf = served_fields [OF sv]
  have f2: "line_frame i e1 e2" and f3: "line_frame i e2 e3" using ep op by (simp_all add: end_post_def out_post_def)
  have fr: "freed e3 = freed e" "curr_time e3 = curr_time e" "schks e3 = schks e"
    using f0 f2 f3 sv by (simp_all add: line_frame_def data_frame_def served_def)
  have ot: "si_core (sis e3 j) = si_core (sis e j) \<and> held e3 j = held e j" if "j \<noteq> i" for j
    using f0 f2 f3 sv that by (simp add: line_frame_def served_def h)
  have sc: "si_sched (sis e3 i) = si_sched (sis e i)"
    using line_frame_sched [OF f0] line_frame_sched [OF f2] line_frame_sched [OF f3] sf(1) by simp
  have st: "sched_time (sis e3 i) = now" "si_credit (sis e3 i) = si_credit (sis e1 i)"
      "active e3 i \<longleftrightarrow> si_credit (sis e1 i) < 0"
    using ep op d0 sf(3) by (simp_all add: end_post_def out_post_def)
  have ids: "map m_id (si_dline (sis e i)) @ map m_id new = map m_id out @ map m_id (si_dline (sis e3 i))"
  proof -
    have "map m_id (si_dline (sis e2 i)) = map m_id (si_dline (sis e i) @ new)"
      using ep sv d0 by (simp add: end_post_def served_def)
    moreover have "si_dline (sis e2 i) = out @ si_dline (sis e3 i)" using op by (simp add: out_post_def)
    ultimately show ?thesis by simp
  qed
  have tg: "tagged (si_dline (sis e3 i))"
    using ep op by (auto simp: end_post_def out_post_def)
  have hp: "if si_dline (sis e i) = [] \<and> new \<noteq> []
      then (dline_in_heap (sis e3 i) \<longleftrightarrow> si_dline (sis e3 i) \<noteq> []) \<and>
        (si_dline (sis e3 i) \<noteq> [] \<longrightarrow> \<not> due now (hd (si_dline (sis e3 i))))
      else out = [] \<and> dline_in_heap (sis e3 i) = dline_in_heap (sis e i)"
    using ep op d0 sf(2) by (auto simp: end_post_def out_post_def split: if_splits)
  have "image_mset m_id (held e i) = mset (map m_id new) + image_mset m_id (held e3 i)"
    using sv by (simp add: served_def h)
  then show ?thesis
    unfolding sched_post_def using fr ot sc st ids tg hp c0 h compose_times [OF f0 d0(1) sv ep op] by simp
qed

text \<open>The result of \<open>serve_sched\<close>: it returns, and \<open>sched_post\<close> holds.\<close>

definition serve_result ::
  "'x algs \<Rightarrow> ('x dn_env_scheme \<Rightarrow> bool) \<Rightarrow> ('x dn_env_scheme \<Rightarrow> siid \<Rightarrow> mbuf multiset) \<Rightarrow> mbuf list \<Rightarrow> siid \<Rightarrow> u64 \<Rightarrow> 'x dn_sys \<Rightarrow>
   (mbuf list \<times> mbuf list \<times> 'x dn_sys) option \<Rightarrow> bool" where
  "serve_result al I held q i now s r \<longleftrightarrow> (\<exists>out new e'.
     r = Some (q @ out, q @ out,
       (ev_add (si_event i now (link_bw (env s) i) (si_credit (sis e' i)) @
          line_event (si_dline (sis (env s) i) = [] \<and> new \<noteq> []) i e') s)\<lparr>env := e'\<rparr>) \<and>
     (\<exists>a ms. sk_alg al (env s) (si_sched (sis (env s) i)) = Some a \<and> takes a i (env s) ms e' \<and> map m_id ms = map m_id new) \<and>
     I e' \<and> sched_post held i now (env s) out new e' \<and> (link_bw (env s) i = 0 \<longrightarrow> si_credit (sis e' i) = 0) \<and>
     (plain_link s i \<longrightarrow> credit_fits (start_credit (link_bw (env s) i) now (sis (env s) i)) \<longrightarrow> credit_fits (si_credit (sis e' i))))"

context packet_source
begin

lemma serve_sched_ok:
  assumes inv: "inv (env s)" and i: "i \<in> V" and vp: "valid_profile (env s) (si_sched (sis (env s) i))"
    and tg: "tagged (si_dline (sis (env s) i))" and bw0: "0 \<le> link_bw (env s) i"
  shows "serve_result al inv held q i now s (serve_sched al q i now s)"
proof -
  define k where "k = si_sched (sis (env s) i)"
  define bw where "bw = link_bw (env s) i"
  define c0 where "c0 = start_credit bw now (sis (env s) i)"
  define e0 where "e0 = upd_si i (\<lambda>r. r\<lparr>si_kflags := si_kflags r AND NOT DN_ACTIVE, si_credit := c0, sched_time := now\<rparr>) (env s)"
  have ss: "serve_start i bw now s = s\<lparr>env := e0\<rparr>"
    using serve_start_eq [of i bw now s] by (auto simp: e0_def c0_def start_credit_def)
  have f0: "line_frame i (env s) e0" by (simp add: e0_def line_frame_upd si_stat_def)
  have z0: "si_dline (sis e0 i) = si_dline (sis (env s) i)" "dline_in_heap (sis e0 i) = dline_in_heap (sis (env s) i)"
      "sched_time (sis e0 i) = now" "si_sched (sis e0 i) = k" "schks e0 = schks (env s)" "si_credit (sis e0 i) = c0" "\<not> active e0 i"
    by (simp_all add: e0_def k_def)
  have i0: "inv e0" "held e0 = held (env s)" using frame [OF inv] f0 by (simp_all add: line_frame_def)
  obtain a where a: "sk_alg al (env s) k = Some a" using deq [OF inv i] by (auto simp: k_def)
  obtain new ms e1 where l: "serve_loop a k i bw 0 (s\<lparr>env := e0\<rparr>) = Some (0 + length new, None, s\<lparr>env := e0\<rparr>\<lparr>env := e1\<rparr>)" "inv e1"
      "loop_post held i bw new (s\<lparr>env := e0\<rparr>) e1" "takes a i e0 ms e1" "map m_id ms = map m_id new"
    using serve_loop_ends [of "s\<lparr>env := e0\<rparr>" i k a bw 0] i0 i a vp z0 by (auto simp: valid_profile_def sk_alg_def k_def)
  have sv: "served held i new e0 e1" "0 \<le> si_credit (sis e1 i) \<longrightarrow> held e1 i = {#}"
      "bw = 0 \<longrightarrow> c0 = 0 \<longrightarrow> si_credit (sis e1 i) = 0"
      "plain_link s i \<longrightarrow> credit_fits c0 \<longrightarrow> credit_fits (si_credit (sis e1 i))"
    using l(3) by (simp_all add: loop_post_def z0 plain_link_def k_def)
  have t1: "tagged (si_dline (sis e1 i))" "\<not> active e1 i"
    using sv(1) tg z0 served_fields(4) [OF sv(1)] by (auto simp: served_def departs_def)
  obtain e2 where e2: "serve_end i bw now (length new) (s\<lparr>env := e1\<rparr>) =
      Some ((ev_add (si_event i now bw (si_credit (sis e1 i))) s)\<lparr>env := e2\<rparr>)" "end_post i bw (length new) e1 e2"
    using serve_end_ok [of bw "s\<lparr>env := e1\<rparr>" i now "length new"] sv(3) t1 bw0
    by (auto simp: bw_def c0_def start_credit_def ev_add_env cong: if_cong)
  define go where "go = (si_dline (sis (env s) i) = [] \<and> new \<noteq> [])"
  define s2 where "s2 = (ev_add (si_event i now bw (si_credit (sis e1 i))) s)\<lparr>env := e2\<rparr>"
  obtain out e3 where e3: "serve_out go q i now s2 = Some (q @ out, (ev_add (line_event go i e3) s2)\<lparr>env := e3\<rparr>)" "out_post i go now out e2 e3"
    using serve_out_ok [of s2 i go q now] e2(2) by (auto simp: s2_def end_post_def)
  have fr: "inv e2" "held e2 = held e1" using frame [OF l(2)] e2(2) by (simp_all add: end_post_def line_frame_def)
  have fr3: "inv e3" "held e3 = held e2" using frame [OF fr(1)] e3(2) by (simp_all add: out_post_def line_frame_def)
  have c: "si_credit (sis e3 i) = si_credit (sis e1 i)" using e2 e3 by (simp add: end_post_def out_post_def)
  have bwk: "bandwidth (sk_link (schks (env s) k)) = bw" by (simp add: bw_def link_bw_def k_def)
  have ak: "sk_alg al (env (s\<lparr>env := e0\<rparr>)) k = Some a" using a by (simp add: sk_alg_def z0)
  have go: "(si_dline (sis (env s) i) = [] \<and> 0 < length new) = go" by (simp add: go_def)
  have ll: "serve_loop a k i bw 0 (s\<lparr>env := e0\<rparr>) = Some (length new, None, s\<lparr>env := e1\<rparr>)" using l(1) by simp
  have "serve_sched al q i now s = Some (q @ out, q @ out, (ev_add (line_event go i e3) s2)\<lparr>env := e3\<rparr>)"
    by (simp only: serve_sched_def Let_def k_def [symmetric] bwk ss ak ll e2(1) s2_def [symmetric] go e3(1)
        Option.bind.bind_lunit case_prod_conv option.case)
  moreover have "(ev_add (line_event go i e3) s2)\<lparr>env := e3\<rparr> =
      (ev_add (si_event i now bw (si_credit (sis e3 i)) @ line_event go i e3) s)\<lparr>env := e3\<rparr>"
    by (simp add: s2_def ev_add_env c)
  moreover have "sched_post held i now (env s) out new e3"
    using compose_post [OF f0 z0(1-3) sv(1,2) e2(2) [unfolded bw_def] _ i0(2) fr(2) fr3(2)] e3(2) by (simp add: go_def)
  moreover have "takes a i (env s) ms e3"
  proof -
    have "data_frame (env s) e0" "data_frame e1 e2" "data_frame e2 e3"
      using f0 e2(2) e3(2) by (simp_all add: line_frame_def end_post_def out_post_def)
    with l(4) show ?thesis by (blast intro: takes_frame takes_then_frame)
  qed
  then have "\<exists>a ms. sk_alg al (env s) k = Some a \<and> takes a i (env s) ms e3 \<and> map m_id ms = map m_id new"
    using a l(5) by blast
  ultimately show ?thesis unfolding serve_result_def using fr3(1) sv(3,4) c
    by (intro exI [of _ out] exI [of _ new] exI [of _ e3]) (simp add: go_def bw_def c0_def start_credit_def k_def)
qed

end

section \<open>FIFO schedulers provide what is needed\<close>

definition fifo_inv :: "siid set \<Rightarrow> (siid \<Rightarrow> qid) \<Rightarrow> 'x dn_env_scheme \<Rightarrow> bool" where
  "fifo_inv V qa e \<longleftrightarrow> inj_on qa V \<and>
     (\<forall>i\<in>V. sk_fp (schks e (si_sched (sis e i))) \<noteq> None \<and> (\<forall>m\<in>set (mq e (qa i)). pkt_ok m))"

definition fifo_held :: "siid set \<Rightarrow> (siid \<Rightarrow> qid) \<Rightarrow> 'x dn_env_scheme \<Rightarrow> siid \<Rightarrow> mbuf multiset" where
  "fifo_held V qa e i = (if i \<in> V then mset (mq e (qa i)) else {#})"

lemma tl_set: "x \<in> set (tl xs) \<Longrightarrow> x \<in> set xs"
  by (cases xs) auto

lemma si_core_ni [simp]: "si_core (r\<lparr>si_ni := n\<rparr>) = si_core r"
  by (simp add: si_core_def)

lemma si_leave_core: "si_core (sis (si_leave i m e) j) = si_core (sis e j)"
  by (simp add: si_leave_def si_core_def Let_def)

lemma dn_dequeue_core: "dn_dequeue q e = (p, e') \<Longrightarrow> si_core (sis e' j) = si_core (sis e j)"
  by (auto simp: dn_dequeue_def Let_def mark_queue_idle_def si_leave_core split: list.splits option.splits)

interpretation fifo_src: packet_source "\<lambda>_. fifo_desc qa sz" V "fifo_inv V qa" "fifo_held V qa"
  for V :: "siid set" and qa :: "siid \<Rightarrow> qid" and sz :: u16
proof
  fix e e' :: "'x dn_env_scheme" and i :: siid and m
  show "pkt_ok m" if "fifo_inv V qa e" "i \<in> V" "m \<in># fifo_held V qa e i"
    using that by (auto simp: fifo_inv_def fifo_held_def)
  show "fifo_inv V qa e' \<and> fifo_held V qa e' = fifo_held V qa e" if "fifo_inv V qa e" "data_frame e e'"
    using that by (auto simp: fifo_inv_def fifo_held_def data_frame_def si_stat_def)
  assume iv: "fifo_inv V qa e" and i: "i \<in> V"
  obtain p e1 where d: "dn_dequeue (qa i) e = (p, e1)" by fastforce
  have core: "\<forall>j. si_core (sis e1 j) = si_core (sis e j)" using dn_dequeue_core [OF d] by blast
  have st: "p = None \<and> mq e (qa i) = [] \<and> e1 = e \<or> (\<exists>m ms. p = Some m \<and> mq e (qa i) = m # ms \<and> queue_step (qa i) ms [] e e1)"
    by (rule dn_dequeue_step [OF d])
  then have fr: "freed e1 = freed e" "curr_time e1 = curr_time e" "schks e1 = schks e" by (auto simp: queue_step_def)
  have inj: "qa j = qa i \<longleftrightarrow> j = i" if "j \<in> V" for j
    using iv that i by (auto simp: fifo_inv_def inj_on_def)
  have hd1: "case p of None \<Rightarrow> fifo_held V qa e1 = fifo_held V qa e \<and> fifo_held V qa e i = {#}
      | Some m \<Rightarrow> fifo_held V qa e i = add_mset m (fifo_held V qa e1 i) \<and> (\<forall>j. j \<noteq> i \<longrightarrow> fifo_held V qa e1 j = fifo_held V qa e j)"
    using st i inj by (auto simp: fifo_held_def queue_step_def)
  have "mq e1 (qa j) = (if j = i then tl (mq e (qa i)) else mq e (qa j))" if "j \<in> V" for j
    using st inj [OF that] by (auto simp: queue_step_def)
  moreover have sch: "si_sched (sis e1 j) = si_sched (sis e j)" for j using core si_core_fields(3) by blast
  ultimately have "fifo_inv V qa e1"
    using iv fr sch by (auto simp: fifo_inv_def dest: tl_set)
  moreover have "\<exists>d. sk_fp (schks e (si_sched (sis e i))) = Some d" using iv i by (auto simp: fifo_inv_def)
  ultimately show "\<exists>a p e'. sk_alg (\<lambda>_. fifo_desc qa sz) e (si_sched (sis e i)) = Some a \<and> al_dequeue a i e = Some (p, e') \<and>
      fifo_inv V qa e' \<and> freed e' = freed e \<and> curr_time e' = curr_time e \<and> schks e' = schks e \<and>
      (\<forall>j. si_core (sis e' j) = si_core (sis e j)) \<and>
      (case p of
         None \<Rightarrow> fifo_held V qa e' = fifo_held V qa e \<and> fifo_held V qa e i = {#}
       | Some m \<Rightarrow> fifo_held V qa e i = add_mset m (fifo_held V qa e' i) \<and> (\<forall>j. j \<noteq> i \<longrightarrow> fifo_held V qa e' j = fifo_held V qa e j))"
    using d fr core hd1 by (auto simp: sk_alg_def fifo_desc_def fifo_dequeue_def)
qed

section \<open>Properties\<close>

lemma serve_sched_law:
  assumes "packet_source al V I held" "I (env s)" "i \<in> V" "valid_profile (env s) (si_sched (sis (env s) i))"
    and "tagged (si_dline (sis (env s) i))" "0 \<le> link_bw (env s) i"
  shows "\<exists>a ms out s'. sk_alg al (env s) (si_sched (sis (env s) i)) = Some a \<and>
    serve_sched al q i now s = Some (q @ out, q @ out, s') \<and> I (env s') \<and> takes a i (env s) ms (env s') \<and>
    image_mset m_id (held (env s) i) = mset (map m_id ms) + image_mset m_id (held (env s') i) \<and>
    map m_id (si_dline (sis (env s) i)) @ map m_id ms = map m_id out @ map m_id (si_dline (sis (env s') i)) \<and>
    freed (env s') = freed (env s) \<and>
    s' = (ev_add ((if si_credit (sis (env s') i) < 0
                   then [(now + pay_ticks (link_bw (env s) i) (si_credit (sis (env s') i)), EvSI i)] else []) @
                  (if (si_dline (sis (env s) i) = [] \<and> ms \<noteq> []) \<and> si_dline (sis (env s') i) \<noteq> []
                   then [(output_time (the (dn_tag_get (hd (si_dline (sis (env s') i))))), EvDL i)] else [])) s)\<lparr>env := env s'\<rparr> \<and>
    (active (env s') i \<longleftrightarrow> si_credit (sis (env s') i) < 0) \<and>
    (0 \<le> si_credit (sis (env s') i) \<longrightarrow> held (env s') i = {#})"
proof -
  obtain out new e' a ms where r: "serve_sched al q i now s = Some (q @ out, q @ out,
       (ev_add (si_event i now (link_bw (env s) i) (si_credit (sis e' i)) @
          line_event (si_dline (sis (env s) i) = [] \<and> new \<noteq> []) i e') s)\<lparr>env := e'\<rparr>)"
    and a: "sk_alg al (env s) (si_sched (sis (env s) i)) = Some a" "takes a i (env s) ms e'" "map m_id ms = map m_id new"
    and p: "I e'" "sched_post held i now (env s) out new e'"
    using packet_source.serve_sched_ok [OF assms, of q now] unfolding serve_result_def by blast
  have n: "new \<noteq> [] \<longleftrightarrow> ms \<noteq> []" using a(3) by (metis map_is_Nil_conv)
  have m: "mset (map m_id new) = mset (map m_id ms)" by (simp only: a(3))
  show ?thesis
    by (rule exI [of _ a], rule exI [of _ ms], rule exI [of _ out], rule exI, intro conjI, rule a(1), rule r)
      (use a p n m in \<open>simp_all add: sched_post_def\<close>)
qed

text \<open>C3: Serving an instance always returns, for every algorithm that keeps the contract \<open>packet_source\<close> (it answers
  every request, and answers with a packet as long as it holds one), when the delay line holds tagged packets, the
  bandwidth is not negative and the samples of the profile, if the link has one, are in bounds. The packets \<open>ms\<close> that
  leave the scheduler are those that consecutive calls of its dequeue operation return, in the order of the calls; the
  delay line followed by \<open>ms\<close> is what is sent, \<open>out\<close>, followed by the new delay line; nothing is released. The calls of
  \<open>heap_insert\<close> on the event heap are exactly these: the instance is inserted, for the tick in which its credit is paid
  back, when its credit is negative, and its line, for the departure of its first packet, when the line was empty and
  is not any more. An instance that is not inserted holds no packet.\<close>

theorem serve_sched_returns:
  assumes "packet_source al V I held" "I (env s)" "i \<in> V" "valid_profile (env s) (si_sched (sis (env s) i))"
    and "tagged (si_dline (sis (env s) i))" "0 \<le> link_bw (env s) i"
  shows "\<exists>a ms out s'. sk_alg al (env s) (si_sched (sis (env s) i)) = Some a \<and>
    serve_sched al q i now s = Some (q @ out, q @ out, s') \<and> I (env s') \<and> takes a i (env s) ms (env s') \<and>
    image_mset m_id (held (env s) i) = mset (map m_id ms) + image_mset m_id (held (env s') i) \<and>
    map m_id (si_dline (sis (env s) i)) @ map m_id ms = map m_id out @ map m_id (si_dline (sis (env s') i)) \<and>
    freed (env s') = freed (env s) \<and>
    s' = (ev_add ((if si_credit (sis (env s') i) < 0
                   then [(now + pay_ticks (link_bw (env s) i) (si_credit (sis (env s') i)), EvSI i)] else []) @
                  (if (si_dline (sis (env s) i) = [] \<and> ms \<noteq> []) \<and> si_dline (sis (env s') i) \<noteq> []
                   then [(output_time (the (dn_tag_get (hd (si_dline (sis (env s') i))))), EvDL i)] else [])) s)\<lparr>env := env s'\<rparr> \<and>
    (active (env s') i \<longleftrightarrow> si_credit (sis (env s') i) < 0) \<and>
    (0 \<le> si_credit (sis (env s') i) \<longrightarrow> held (env s') i = {#})"
  by (rule serve_sched_law [OF assms])

text \<open>What consecutive calls of the FIFO dequeue return is the front of the queue.\<close>

lemma takes_fifo: "takes a i e ms e' \<Longrightarrow> a = fifo_desc qa sz \<Longrightarrow> mq e (qa i) = ms @ mq e' (qa i)"
proof (induction rule: takes.induct)
  case (takes_frame e e1 ms e')
  then show ?case by (simp add: data_frame_def)
next
  case (takes_none e e1 ms e')
  then have "dn_dequeue (qa i) e = (None, e1)" by (simp add: fifo_desc_def fifo_dequeue_def)
  from dn_dequeue_step [OF this] takes_none show ?case by auto
next
  case (takes_pkt e m e1 ms e')
  then have "dn_dequeue (qa i) e = (Some m, e1)" by (simp add: fifo_desc_def fifo_dequeue_def)
  from dn_dequeue_step [OF this] takes_pkt show ?case by (auto simp: queue_step_def)
qed simp

text \<open>C4: Serving a FIFO instance always returns, and keeps the order of its packets: its queue is the list \<open>ms\<close> of those that
  leave it followed by what stays queued, and the delay line followed by \<open>ms\<close> is what is sent followed by the new delay
  line. The instance gets an event exactly when its credit is negative afterwards; if it gets none, its queue is empty.
  The delay line holds tagged packets, the bandwidth is not negative and the samples of a profile are in bounds.\<close>

theorem serve_fifo_in_order:
  assumes "fifo_inv V qa (env s)" "i \<in> V" "valid_profile (env s) (si_sched (sis (env s) i))"
    and "tagged (si_dline (sis (env s) i))" "0 \<le> link_bw (env s) i"
  shows "\<exists>ms out xs s'. serve_sched (\<lambda>_. fifo_desc qa sz) q i now s = Some (q @ out, q @ out, s') \<and> fifo_inv V qa (env s') \<and>
    mq (env s) (qa i) = ms @ mq (env s') (qa i) \<and>
    map m_id (si_dline (sis (env s) i)) @ map m_id ms = map m_id out @ map m_id (si_dline (sis (env s') i)) \<and>
    freed (env s') = freed (env s) \<and> s' = (ev_add xs s)\<lparr>env := env s'\<rparr> \<and>
    (EvSI i \<in> snd ` set xs \<longleftrightarrow> si_credit (sis (env s') i) < 0) \<and>
    (EvSI i \<notin> snd ` set xs \<longrightarrow> mq (env s') (qa i) = [])"
proof -
  define I :: "'a dn_env_scheme \<Rightarrow> bool" where "I = fifo_inv V qa"
  define held :: "'a dn_env_scheme \<Rightarrow> siid \<Rightarrow> mbuf multiset" where "held = fifo_held V qa"
  have ps: "packet_source (\<lambda>_. fifo_desc qa sz) V I held" unfolding I_def held_def by (rule fifo_src.packet_source_axioms)
  have iv: "I (env s)" using assms(1) by (simp add: I_def)
  obtain a ms out s' where a: "sk_alg (\<lambda>_. fifo_desc qa sz) (env s) (si_sched (sis (env s) i)) = Some a" "takes a i (env s) ms (env s')"
    and r: "serve_sched (\<lambda>_. fifo_desc qa sz) q i now s = Some (q @ out, q @ out, s')" "I (env s')"
      "map m_id (si_dline (sis (env s) i)) @ map m_id ms = map m_id out @ map m_id (si_dline (sis (env s') i))"
      "freed (env s') = freed (env s)" "0 \<le> si_credit (sis (env s') i) \<longrightarrow> held (env s') i = {#}"
    and e: "s' = (ev_add (si_event i now (link_bw (env s) i) (si_credit (sis (env s') i)) @
        line_event (si_dline (sis (env s) i) = [] \<and> ms \<noteq> []) i (env s')) s)\<lparr>env := env s'\<rparr>"
    using serve_sched_law [OF ps iv assms(2-5), of q now] by (elim exE conjE) (rule that)
  have "a = fifo_desc qa sz" using a(1) by (auto simp: sk_alg_def split: option.splits)
  then have "mq (env s) (qa i) = ms @ mq (env s') (qa i)" by (rule takes_fifo [OF a(2)])
  moreover define xs where "xs = si_event i now (link_bw (env s) i) (si_credit (sis (env s') i)) @
    line_event (si_dline (sis (env s) i) = [] \<and> ms \<noteq> []) i (env s')"
  have x: "EvSI i \<in> snd ` set xs \<longleftrightarrow> si_credit (sis (env s') i) < 0" by (auto simp: xs_def)
  moreover have "EvSI i \<notin> snd ` set xs \<longrightarrow> mq (env s') (qa i) = []"
    using r(5) assms(2) unfolding x by (auto simp: held_def fifo_held_def)
  ultimately show ?thesis using r(1-4) e [folded xs_def] unfolding I_def by blast
qed

text \<open>An instance with two packets queued on a link of 1000 bits per tick.\<close>

definition serve_env :: dn_env where
  "serve_env = env_zero\<lparr>schks := (\<lambda>_. schk_zero)(0 := schk_zero\<lparr>sk_fp := Some 0, sk_link := link_zero\<lparr>bandwidth := 1000, delay := 5\<rparr>\<rparr>),
     qs := (\<lambda>_. queue_zero)(7 := queue_zero\<lparr>q_mq := [tpkt 1 100 0, tpkt 2 100 0], q_si := Some 3\<rparr>)\<rparr>"

lemma serve_env_ok:
  "fifo_inv {3} (\<lambda>_. 7) serve_env" "si_sched (sis serve_env 3) = 0" "si_dline (sis serve_env 3) = []"
  "valid_profile serve_env 0" "link_bw serve_env 3 = 1000"
  by (simp_all add: serve_env_def fifo_inv_def pkt_ok_def valid_profile_def link_bw_def dn_zero_defs)

theorem serve_sched_returns_witness:
  "\<exists>a ms out s'. sk_alg (\<lambda>_. fifo_desc (\<lambda>_. 7) 136) serve_env 0 = Some a \<and>
    serve_sched (\<lambda>_. fifo_desc (\<lambda>_. 7) 136) [] 3 0 (sys_zero serve_env) = Some ([] @ out, [] @ out, s') \<and>
    fifo_inv {3} (\<lambda>_. 7) (env s') \<and> takes a 3 serve_env ms (env s')"
proof -
  have "packet_source (\<lambda>_. fifo_desc (\<lambda>_. 7) 136) {3} (fifo_inv {3} (\<lambda>_. 7)) (fifo_held {3} (\<lambda>_. 7))"
    by (rule fifo_src.packet_source_axioms)
  from serve_sched_returns [OF this, of "sys_zero serve_env" 3 "[]" 0] show ?thesis
    unfolding sys_zero_def by (simp add: serve_env_ok) blast
qed

theorem serve_fifo_in_order_witness:
  "\<exists>ms out xs s'. serve_sched (\<lambda>_. fifo_desc (\<lambda>_. 7) 136) [] 3 0 (sys_zero serve_env) = Some ([] @ out, [] @ out, s') \<and>
    fifo_inv {3} (\<lambda>_. 7) (env s') \<and> mq (env (sys_zero serve_env)) 7 = ms @ mq (env s') 7 \<and>
    map m_id (si_dline (sis (env (sys_zero serve_env)) 3)) @ map m_id ms = map m_id out @ map m_id (si_dline (sis (env s') 3)) \<and>
    freed (env s') = freed (env (sys_zero serve_env)) \<and> s' = (ev_add xs (sys_zero serve_env))\<lparr>env := env s'\<rparr> \<and>
    (EvSI 3 \<in> snd ` set xs \<longleftrightarrow> si_credit (sis (env s') 3) < 0) \<and>
    (EvSI 3 \<notin> snd ` set xs \<longrightarrow> mq (env s') 7 = [])"
  by (rule serve_fifo_in_order) (simp_all add: sys_zero_def serve_env_ok)

end
