(* ===== verification/DnEvents.thy ===== *)
theory DnEvents
  imports DnServe
begin

text \<open>
  The loop of the timer handler over the due events: the event heap as a multiset, the window of times in which
  its order is linear, the invariant that ties the heap to the flags of the instances, and its preservation by
  every event. The loop ends, loses no packet, and leaves no packet without an event.
\<close>

section \<open>The event heap\<close>

text \<open>The heap as a multiset of entries.\<close>

definition heap_st :: "u64 \<Rightarrow> 'x dn_sys \<Rightarrow> ev dn_heap_entry multiset \<Rightarrow> bool" where
  "heap_st b s E \<longleftrightarrow> heap_inv b (evheap s, evpos s) \<and> 0 < h_ofs (evheap s) \<and> heap_entries (evheap s) = E"

text \<open>
  The memory for \<open>n\<close> events: the array has room for them, or the allocations that make it larger succeed. (The code
  ignores a failed insertion: the instance is then never served again.)
\<close>

definition heap_mem :: "nat \<Rightarrow> 'x dn_sys \<Rightarrow> bool" where
  "heap_mem n s \<longleftrightarrow> (\<forall>k. mems s k) \<or> n \<le> h_size (evheap s)"

lemma event_lost:
  assumes "\<not> mems s 0" "h_elements (evheap s) = h_size (evheap s)" "h_elements (evheap s) < 2 ^ 31"
  shows "ev_insert k x s = s\<lparr>mems := \<lambda>n. mems s (Suc n)\<rparr>"
proof -
  have "unat (word_of_nat (h_elements (evheap s) + 16) :: u32) = h_elements (evheap s) + 16"
    by (subst unsigned_of_nat) (use assms(3) in \<open>simp add: take_bit_nat_eq_self\<close>)
  then have "heap_insert (mems s 0) (evheap s, evpos s) k (Some x) = None"
    using assms(1,2) by (simp add: heap_insert_None_iff heap_resize_def)
  then show ?thesis by (simp add: ev_insert_def Let_def)
qed

lemma heap_mem_env [simp]: "heap_mem n (s\<lparr>env := e\<rparr>) = heap_mem n s"
  by (simp add: heap_mem_def)

definition ev_objs :: "ev dn_heap_entry multiset \<Rightarrow> ev set" where
  "ev_objs E = he_object ` set_mset E"

lemma ev_objs_simps [simp]: "ev_objs {#} = {}" "ev_objs (add_mset x E) = insert (he_object x) (ev_objs E)"
  by (simp_all add: ev_objs_def)

lemma heap_st_size: "heap_st b s E \<Longrightarrow> h_elements (evheap s) = size E"
  by (auto simp: heap_st_def heap_entries_def)

lemma heap_st_env [simp]: "heap_st b (s\<lparr>env := e\<rparr>) E = heap_st b s E"
  by (simp add: heap_st_def)

lemma heap_st_distinct:
  assumes "heap_st b s E"
  shows "\<exists>xs. mset xs = image_mset he_object E \<and> distinct xs"
proof -
  let ?xs = "map (\<lambda>i. he_object (h_p (evheap s) i)) [0..<h_elements (evheap s)]"
  have "mset ?xs = image_mset he_object E"
    using assms by (auto simp: heap_st_def heap_entries_def image_mset.compositionality comp_def)
  moreover have "distinct ?xs" using assms by (simp add: heap_st_def heap_inv_def objects_distinct_mset)
  ultimately show ?thesis by blast
qed

lemma heap_st_fresh: "heap_st b s (add_mset x E) \<Longrightarrow> he_object x \<notin> ev_objs E"
proof
  assume h: "heap_st b s (add_mset x E)" "he_object x \<in> ev_objs E"
  then have y: "he_object x \<in># image_mset he_object E" by (auto simp: ev_objs_def)
  obtain xs where xs: "mset xs = image_mset he_object (add_mset x E)" "distinct xs"
    using heap_st_distinct [OF h(1)] by blast
  have "count (mset xs) (he_object x) \<le> 1" using xs(2) by (auto simp: distinct_count_atmost_1)
  then have "count (image_mset he_object E) (he_object x) = 0" unfolding xs(1) by simp
  with y show False by (simp add: count_eq_zero_iff)
qed

lemma heap_st_card:
  assumes "heap_st b s E" "finite A" "ev_objs E \<subseteq> A"
  shows "size E \<le> card A"
proof -
  obtain xs where xs: "mset xs = image_mset he_object E" "distinct xs"
    using heap_st_distinct [OF assms(1)] by blast
  have "set xs = ev_objs E" using xs(1) by (metis ev_objs_def set_image_mset set_mset_mset)
  then have "card (ev_objs E) = length xs" using xs(2) by (metis distinct_card)
  also have "\<dots> = size E" using xs(1) by (metis size_image_mset size_mset)
  finally show ?thesis using card_mono [OF assms(2,3)] by simp
qed

lemma ev_insert_st:
  assumes h: "heap_st b s E" and x: "x \<notin> ev_objs E" and w: "in_window b k" and r: "size E < 2 ^ 31 - 16"
    and n: "heap_mem N s" "size E < N"
  shows "heap_st b (ev_insert k x s) (add_mset \<lparr>he_key = k, he_object = x\<rparr> E)" "heap_mem N (ev_insert k x s)"
proof -
  have iv: "heap_inv b (evheap s, evpos s)" "0 < h_ofs (evheap s)" "heap_entries (evheap s) = E"
    using h by (simp_all add: heap_st_def)
  have "\<exists>h' p'. heap_insert (mems s 0) (evheap s, evpos s) k (Some x) = Some (h', p') \<and>
      ((\<forall>k. mems s k) \<or> N \<le> h_size h')"
  proof (cases "\<forall>k. mems s k")
    case True
    then show ?thesis using heap_insert_ok [of "evheap s" "evpos s" k x] by auto
  next
    case False
    then have z: "N \<le> h_size (evheap s)" "h_elements (evheap s) < h_size (evheap s)"
      using n heap_st_size [OF h] by (auto simp: heap_mem_def)
    then show ?thesis using heap_insert_room [OF z(2), of "mems s 0" "evpos s" k x] by auto
  qed
  then obtain h' p' where i: "heap_insert (mems s 0) (evheap s, evpos s) k (Some x) = Some (h', p')"
      "(\<forall>k. mems s k) \<or> N \<le> h_size h'" by blast
  show "heap_mem N (ev_insert k x s)" using i by (auto simp: heap_mem_def ev_insert_def Let_def)
  have n: "x \<notin> heap_objects (evheap s)" using x by (simp add: heap_objects_entries iv ev_objs_def)
  have rr: "h_elements (evheap s) < 2 ^ 31 - 16" using r heap_st_size [OF h] by simp
  have "heap_inv b (h', p')" "heap_entries h' = add_mset \<lparr>he_key = k, he_object = x\<rparr> E" "h_ofs h' = h_ofs (evheap s)"
    using heap_insert_spec [OF iv(1) n w rr i(1)] iv(3) by auto
  with i h iv show "heap_st b (ev_insert k x s) (add_mset \<lparr>he_key = k, he_object = x\<rparr> E)"
    by (simp add: heap_st_def ev_insert_def Let_def)
qed

lemma ev_extract_st:
  assumes h: "heap_st b s E" and n: "E \<noteq> {#}"
  shows "\<exists>h' p' F. ev_extract None s = Some (s\<lparr>evheap := h', evpos := p'\<rparr>) \<and> E = add_mset (HEAP_TOP (evheap s)) F \<and>
    heap_st b (s\<lparr>evheap := h', evpos := p'\<rparr>) F \<and> (\<forall>N. heap_mem N (s\<lparr>evheap := h', evpos := p'\<rparr>) = heap_mem N s)"
proof -
  have iv: "heap_inv b (evheap s, evpos s)" "0 < h_ofs (evheap s)" "heap_entries (evheap s) = E"
    using h by (simp_all add: heap_st_def)
  have el: "0 < h_elements (evheap s)" using heap_st_size [OF h] n by (simp add: nonempty_has_size)
  obtain h' p' where x: "extract_at (evheap s, evpos s) 0 = Some (h', p')" "heap_inv b (h', p')"
      "heap_entries (evheap s) = add_mset (h_p (evheap s) 0) (heap_entries h')" "h_ofs h' = h_ofs (evheap s)"
      "h_size h' = h_size (evheap s)"
    using extract_at_spec [OF iv(1) el] by metis
  have "ev_extract None s = Some (s\<lparr>evheap := h', evpos := p'\<rparr>)"
    using x(1) heap_extract_top [OF el] by (simp add: ev_extract_def)
  moreover have "heap_st b (s\<lparr>evheap := h', evpos := p'\<rparr>) (heap_entries h')"
    using x iv by (simp add: heap_st_def)
  moreover have "E = add_mset (HEAP_TOP (evheap s)) (heap_entries h')" using x(3) iv(3) by (simp add: HEAP_TOP_def)
  moreover have "\<forall>N. heap_mem N (s\<lparr>evheap := h', evpos := p'\<rparr>) = heap_mem N s" using x(5) by (simp add: heap_mem_def)
  ultimately show ?thesis by blast
qed

text \<open>The events that are due, and how many.\<close>

definition due_events :: "u64 \<Rightarrow> ev dn_heap_entry multiset \<Rightarrow> nat" where
  "due_events now E = size {#x \<in># E. \<not> DN_KEY_LT now (he_key x)#}"

lemma ev_due_iff:
  assumes h: "heap_st b s E" and w: "in_window b (curr_time (env s))"
  shows "ev_due s \<longleftrightarrow> 0 < due_events (curr_time (env s)) E"
proof -
  have iv: "heap_inv b (evheap s, evpos s)" "heap_entries (evheap s) = E" using h by (simp_all add: heap_st_def)
  show ?thesis
  proof (cases "E = {#}")
    case True
    then show ?thesis using heap_st_size [OF h] by (simp add: ev_due_def due_events_def)
  next
    case False
    then have el: "0 < h_elements (evheap s)" using heap_st_size [OF h] by (simp add: nonempty_has_size)
    have wx: "in_window b (he_key x)" if "x \<in># E" for x
      using that iv by (auto simp: heap_inv_def keys_in_window_def heap_entries_def)
    have least: "DN_KEY_LEQ (he_key (HEAP_TOP (evheap s))) (he_key x) \<and> HEAP_TOP (evheap s) \<in># E" if "x \<in># E" for x
      using heap_top_least [OF iv(1) el] that iv(2) by simp
    obtain y where "y \<in># E" using False by auto
    then have top: "HEAP_TOP (evheap s) \<in># E" using least by blast
    have "\<not> DN_KEY_LT (curr_time (env s)) (he_key (HEAP_TOP (evheap s)))"
      if "x \<in># E" "\<not> DN_KEY_LT (curr_time (env s)) (he_key x)" for x
      using least [OF that(1)] that wx [OF that(1)] wx [OF top] w by (simp add: DN_KEY_LT_window DN_KEY_LEQ_window)
    then have "(\<exists>x\<in>#E. \<not> DN_KEY_LT (curr_time (env s)) (he_key x)) \<longleftrightarrow> \<not> DN_KEY_LT (curr_time (env s)) (he_key (HEAP_TOP (evheap s)))"
      using top by blast
    moreover have "0 < due_events (curr_time (env s)) E \<longleftrightarrow> (\<exists>x\<in>#E. \<not> DN_KEY_LT (curr_time (env s)) (he_key x))"
      using set_mset_eq_empty_iff [of "{#x \<in># E. \<not> DN_KEY_LT (curr_time (env s)) (he_key x)#}"]
      by (auto simp: due_events_def nonempty_has_size [symmetric])
    ultimately show ?thesis using el by (simp add: ev_due_def)
  qed
qed


text \<open>A list of new events.\<close>

abbreviation entries_of :: "(u64 \<times> ev) list \<Rightarrow> ev dn_heap_entry multiset" where
  "entries_of xs \<equiv> mset (map (\<lambda>(k, x). \<lparr>he_key = k, he_object = x\<rparr>) xs)"

lemma ev_objs_add: "ev_objs (E + entries_of xs) = ev_objs E \<union> snd ` set xs"
  by (induction xs) auto

lemma ev_add_st:
  assumes "heap_st b s E" "distinct (map snd xs)" "snd ` set xs \<inter> ev_objs E = {}" "\<forall>(k, x)\<in>set xs. in_window b k"
    and "size E + length xs < 2 ^ 31 - 16" "heap_mem N s" "size E + length xs \<le> N"
  shows "heap_st b (ev_add xs s) (E + entries_of xs) \<and> heap_mem N (ev_add xs s)"
  using assms
proof (induction xs arbitrary: s E)
  case (Cons a xs)
  obtain k x where a: "a = (k, x)" by fastforce
  have f: "x \<notin> ev_objs E" "in_window b k" "size E < 2 ^ 31 - 16" "size E < N" using Cons.prems by (auto simp: a)
  note i = ev_insert_st [OF Cons.prems(1) f(1-3) Cons.prems(6) f(4)]
  from Cons.IH [OF i(1) _ _ _ _ i(2)] Cons.prems show ?case by (auto simp: a)
qed simp

lemma ev_add_other [simp]: "env (ev_add xs s) = env s" "hz (ev_add xs s) = hz s"
proof -
  have i: "env (ev_insert k x s) = env s \<and> hz (ev_insert k x s) = hz s" for k x and s :: "'x dn_sys"
    by (simp add: ev_insert_def Let_def split: option.split prod.split)
  show "env (ev_add xs s) = env s" "hz (ev_add xs s) = hz s"
    by (induction xs arbitrary: s) (auto simp: ev_add_def i)
qed

lemma due_events_add:
  assumes "\<forall>(k, x)\<in>set xs. DN_KEY_LT now k"
  shows "due_events now (E + entries_of xs) = due_events now E"
  using assms by (induction xs) (auto simp: due_events_def)

section \<open>Times\<close>

text \<open>The base of the window: everything the data path schedules is less than \<open>2 ^ 62\<close> ticks away from now.\<close>

definition ev_base :: "u64 \<Rightarrow> u64" where
  "ev_base now = now - 2 ^ 62"

lemma koff_now: "koff (ev_base now) (now + word_of_int d) = nat (2 ^ 62 + d)" if "\<bar>d\<bar> < 2 ^ 62"
proof -
  have "now + word_of_int d - ev_base now = (word_of_int (2 ^ 62 + d) :: u64)"
    by (simp add: ev_base_def)
  moreover have "uint (word_of_int (2 ^ 62 + d) :: u64) = 2 ^ 62 + d"
  proof (rule uint_of_int64)
    show "0 \<le> 2 ^ 62 + d" "2 ^ 62 + d < (2 :: int) ^ 64" using that unfolding abs_less_iff by simp_all
  qed
  ultimately show ?thesis by (simp only: koff_def unat_eq_nat_uint)
qed

lemma window_now: "\<bar>d\<bar> < 2 ^ 62 \<Longrightarrow> in_window (ev_base now) (now + word_of_int d)"
  by (auto simp: in_window_def koff_now)

lemma window_now0 [simp]: "in_window (ev_base now) now"
  using window_now [of 0 now] by simp

lemma window_later: "\<bar>d\<bar> < 2 ^ 31 \<Longrightarrow> uint t < 2 ^ 51 \<Longrightarrow> in_window (ev_base now) (now + word_of_int d + t)"
proof -
  assume "\<bar>d\<bar> < 2 ^ 31" "uint t < 2 ^ 51"
  define u where "u = uint t"
  have "\<bar>d\<bar> < 2 ^ 31" "0 \<le> u" "u < 2 ^ 51" using \<open>\<bar>d\<bar> < 2 ^ 31\<close> \<open>uint t < 2 ^ 51\<close> by (simp_all add: u_def)
  then have "\<bar>d + uint t\<bar> < 2 ^ 62" unfolding abs_less_iff u_def [symmetric] by simp
  then show ?thesis using window_now [of "d + uint t" now] by (simp add: add.assoc)
qed

lemma later_lt:
  assumes "1 \<le> uint t" "uint t < 2 ^ 51"
  shows "DN_KEY_LT now (now + t)"
proof -
  have "koff (ev_base now) now = 2 ^ 62" using koff_now [of 0 now] by simp
  moreover have "koff (ev_base now) (now + t) = nat (2 ^ 62 + uint t)" using koff_now [of "uint t" now] assms by simp
  moreover have "in_window (ev_base now) (now + t)" using window_later [of 0 t now] assms by simp
  ultimately show ?thesis using assms by (simp add: DN_KEY_LT_window [of "ev_base now"])
qed

lemma not_due_lt:
  assumes "departs m t" "in_window (ev_base now) t" "\<not> due now m"
  shows "DN_KEY_LT now t"
proof -
  have "\<not> DN_KEY_LEQ t now" using assms by (auto simp: due_def departs_def)
  then show ?thesis using assms(2) by (simp add: DN_KEY_LT_window [of "ev_base now"] DN_KEY_LEQ_window [of "ev_base now"])
qed


section \<open>The invariant of the data path\<close>

definition link_ok :: "'x dn_env_scheme \<Rightarrow> siid \<Rightarrow> bool" where
  "link_ok e i \<longleftrightarrow> valid_profile e (si_sched (sis e i)) \<and> extra_small (schks e (si_sched (sis e i))) \<and> 0 \<le> link_bw e i \<and> link_bw e i < 2 ^ 31 \<and>
     \<bar>delay (sk_link (schks e (si_sched (sis e i))))\<bar> < 2 ^ 31"

text \<open>An instance: the times of its delay line, its flag for the line, and its credit when it waits for an event.\<close>

definition inst_ok :: "'x dn_env_scheme \<Rightarrow> siid \<Rightarrow> bool" where
  "inst_ok e i \<longleftrightarrow> link_ok e i \<and>
     (\<forall>m\<in>set (si_dline (sis e i)). \<exists>t. departs m t \<and> in_window (ev_base (curr_time e)) t) \<and>
     (dline_in_heap (sis e i) \<longleftrightarrow> si_dline (sis e i) \<noteq> []) \<and>
     (active e i \<longrightarrow> si_credit (sis e i) < 0 \<and> credit_fits (si_credit (sis e i)) \<and>
        uint (curr_time e - sched_time (sis e i)) < 2 ^ 30)"

text \<open>The events the instances of \<open>V\<close> wait for: exactly what the heap must hold.\<close>

definition events_of :: "siid set \<Rightarrow> 'x dn_env_scheme \<Rightarrow> ev set" where
  "events_of V e = EvSI ` {i \<in> V. active e i} \<union> EvDL ` {i \<in> V. dline_in_heap (sis e i)}"

definition dp_inv ::
  "('x dn_env_scheme \<Rightarrow> bool) \<Rightarrow> ('x dn_env_scheme \<Rightarrow> siid \<Rightarrow> mbuf multiset) \<Rightarrow> siid set \<Rightarrow> 'x dn_sys \<Rightarrow> ev dn_heap_entry multiset \<Rightarrow> bool" where
  "dp_inv I held V s E \<longleftrightarrow> I (env s) \<and> finite V \<and> 2 * card V < 2 ^ 31 - 16 \<and> heap_mem (2 * card V) s \<and> 0 \<le> hz s \<and> hz s \<le> 2 ^ 20 \<and>
     heap_st (ev_base (curr_time (env s))) s E \<and> ev_objs E = events_of V (env s) \<and>
     (\<forall>i\<in>V. inst_ok (env s) i \<and> (\<not> active (env s) i \<longrightarrow> held (env s) i = {#}))"

text \<open>The packets inside: in the schedulers and on the delay lines.\<close>

definition inst_ids :: "('x dn_env_scheme \<Rightarrow> siid \<Rightarrow> mbuf multiset) \<Rightarrow> 'x dn_env_scheme \<Rightarrow> siid \<Rightarrow> nat multiset" where
  "inst_ids held e i = image_mset m_id (held e i) + mset (map m_id (si_dline (sis e i)))"

definition all_ids :: "('x dn_env_scheme \<Rightarrow> siid \<Rightarrow> mbuf multiset) \<Rightarrow> siid set \<Rightarrow> 'x dn_env_scheme \<Rightarrow> nat multiset" where
  "all_ids held V e = (\<Sum>i\<in>V. inst_ids held e i)"

text \<open>One due event served: fewer are due, and no packet is lost.\<close>

definition step_ok ::
  "('x dn_env_scheme \<Rightarrow> bool) \<Rightarrow> ('x dn_env_scheme \<Rightarrow> siid \<Rightarrow> mbuf multiset) \<Rightarrow> siid set \<Rightarrow> mbuf list \<Rightarrow> 'x dn_sys \<Rightarrow>
   ev dn_heap_entry multiset \<Rightarrow> (mbuf list \<times> 'x dn_sys) option \<Rightarrow> bool" where
  "step_ok I held V q s E r \<longleftrightarrow> (\<exists>out s' E'. r = Some (q @ out, s') \<and> dp_inv I held V s' E' \<and>
     curr_time (env s') = curr_time (env s) \<and> freed (env s') = freed (env s) \<and>
     due_events (curr_time (env s)) E' < due_events (curr_time (env s)) E \<and>
     mset (map m_id out) + all_ids held V (env s') = all_ids held V (env s))"

lemma inst_ok_core:
  assumes "si_core (sis e' j) = si_core (sis e j)" "schks e' = schks e" "curr_time e' = curr_time e"
  shows "inst_ok e' j \<longleftrightarrow> inst_ok e j" "active e' j \<longleftrightarrow> active e j" "dline_in_heap (sis e' j) = dline_in_heap (sis e j)"
  using assms(2,3) si_core_fields [OF assms(1)] by (simp_all add: inst_ok_def link_ok_def link_bw_def valid_profile_def)

lemma card_events: "finite V \<Longrightarrow> card (events_of V e) \<le> 2 * card V"
proof -
  assume f: "finite V"
  have "card (EvSI ` {i \<in> V. active e i}) \<le> card V"
    using f by (intro order.trans [OF card_image_le] card_mono) auto
  moreover have "card (EvDL ` {i \<in> V. dline_in_heap (sis e i)}) \<le> card V"
    using f by (intro order.trans [OF card_image_le] card_mono) auto
  moreover have "card (events_of V e) \<le> card (EvSI ` {i \<in> V. active e i}) + card (EvDL ` {i \<in> V. dline_in_heap (sis e i)})"
    unfolding events_of_def by (rule card_Un_le)
  ultimately show ?thesis by linarith
qed

lemma finite_events: "finite V \<Longrightarrow> finite (events_of V e)"
  by (simp add: events_of_def)

text \<open>
  Between events: the heap holds \<open>F\<close>, and the invariant holds but for the event of instance \<open>i\<close> and the
  packets it holds. An update of \<open>i\<close> sends packets, adds events that are not due, and restores the invariant.
\<close>

definition dp_but ::
  "('x dn_env_scheme \<Rightarrow> bool) \<Rightarrow> ('x dn_env_scheme \<Rightarrow> siid \<Rightarrow> mbuf multiset) \<Rightarrow> siid set \<Rightarrow> siid \<Rightarrow> 'x dn_sys \<Rightarrow>
   ev dn_heap_entry multiset \<Rightarrow> bool" where
  "dp_but I held V i s F \<longleftrightarrow> I (env s) \<and> finite V \<and> 2 * card V < 2 ^ 31 - 16 \<and> heap_mem (2 * card V) s \<and> 0 \<le> hz s \<and> hz s \<le> 2 ^ 20 \<and>
     heap_st (ev_base (curr_time (env s))) s F \<and> i \<in> V \<and>
     (\<forall>j\<in>V. inst_ok (env s) j \<and> (j \<noteq> i \<longrightarrow> \<not> active (env s) j \<longrightarrow> held (env s) j = {#}))"

definition update_ok ::
  "('x dn_env_scheme \<Rightarrow> bool) \<Rightarrow> ('x dn_env_scheme \<Rightarrow> siid \<Rightarrow> mbuf multiset) \<Rightarrow> siid set \<Rightarrow> mbuf list \<Rightarrow> 'x dn_sys \<Rightarrow>
   ev dn_heap_entry multiset \<Rightarrow> (mbuf list \<times> 'x dn_sys) option \<Rightarrow> bool" where
  "update_ok I held V q s F r \<longleftrightarrow> (\<exists>out s' xs. r = Some (q @ out, s') \<and> dp_inv I held V s' (F + entries_of xs) \<and>
     (\<forall>(k, y)\<in>set xs. DN_KEY_LT (curr_time (env s)) k) \<and>
     curr_time (env s') = curr_time (env s) \<and> freed (env s') = freed (env s) \<and>
     mset (map m_id out) + all_ids held V (env s') = all_ids held V (env s))"

lemma dp_update:
  assumes dp: "dp_but I held V i s F" and now: "now = curr_time (env s)"
    and fr: "schks e' = schks (env s)" "curr_time e' = curr_time (env s)" "freed e' = freed (env s)"
    and ot: "\<And>j. j \<noteq> i \<Longrightarrow> si_core (sis e' j) = si_core (sis (env s) j) \<and> held e' j = held (env s) j"
    and ok: "I e'" "inst_ok e' i" "\<not> active e' i \<longrightarrow> held e' i = {#}"
    and xs: "distinct (map snd xs)" "snd ` set xs \<inter> ev_objs F = {}" "\<forall>(k, y)\<in>set xs. in_window (ev_base now) k \<and> DN_KEY_LT now k"
    and ev: "ev_objs F \<union> snd ` set xs = events_of V e'"
    and ids: "mset (map m_id out) + inst_ids held e' i = inst_ids held (env s) i"
  shows "update_ok I held V q s F (Some (q @ out, (ev_add xs s)\<lparr>env := e'\<rparr>))"
proof -
  have dp0: "finite V" "2 * card V < 2 ^ 31 - 16" "0 \<le> hz s" "hz s \<le> 2 ^ 20" "i \<in> V" "heap_st (ev_base now) s F" "heap_mem (2 * card V) s"
      "\<And>j. j \<in> V \<Longrightarrow> inst_ok (env s) j \<and> (j \<noteq> i \<longrightarrow> \<not> active (env s) j \<longrightarrow> held (env s) j = {#})"
    using dp now by (simp_all add: dp_but_def)
  have fin: "finite (ev_objs F)" by (simp add: ev_objs_def)
  have "size F + length xs \<le> card (ev_objs F) + card (snd ` set xs)"
    using heap_st_card [OF dp0(6) fin] distinct_card [OF xs(1)] by simp
  also have "\<dots> = card (events_of V e')"
    unfolding ev [symmetric] using xs(2) fin by (intro card_Un_disjoint [symmetric]) auto
  also have "\<dots> \<le> 2 * card V" by (rule card_events [OF dp0(1)])
  finally have sz: "size F + length xs < 2 ^ 31 - 16" "size F + length xs \<le> 2 * card V" using dp0(2) by linarith+
  define E' where "E' = F + entries_of xs"
  have h: "heap_st (ev_base now) (ev_add xs s) E'" "heap_mem (2 * card V) (ev_add xs s)"
    unfolding E'_def using xs(3) ev_add_st [OF dp0(6) xs(1,2) _ sz(1) dp0(7) sz(2)] by auto
  have "inst_ok e' j \<and> (\<not> active e' j \<longrightarrow> held e' j = {#})" if "j \<in> V" for j
    using ok(2,3) dp0(8) [OF that] ot [of j] inst_ok_core(1,2) [of e' j "env s"] fr by (cases "j = i") auto
  moreover have "ev_objs E' = events_of V e'" using ev by (simp only: E'_def ev_objs_add)
  ultimately have dp': "dp_inv I held V ((ev_add xs s)\<lparr>env := e'\<rparr>) E'"
    using h ok(1) dp0 fr(2) by (simp add: dp_inv_def now)
  have "inst_ids held e' j = inst_ids held (env s) j" if "j \<noteq> i" for j
    using ot [OF that] si_core_fields(1) [of "sis e' j" "sis (env s) j"] by (simp add: inst_ids_def)
  then have "(\<Sum>j\<in>V - {i}. inst_ids held e' j) = (\<Sum>j\<in>V - {i}. inst_ids held (env s) j)"
    by (intro sum.cong) auto
  then have c: "mset (map m_id out) + all_ids held V e' = all_ids held V (env s)"
    using ids by (simp add: all_ids_def sum.remove [OF dp0(1,5)] flip: add.assoc)
  show ?thesis
    unfolding update_ok_def using dp' c fr xs(3)
    by (intro exI [of _ out] exI [of _ "(ev_add xs s)\<lparr>env := e'\<rparr>"] exI [of _ xs]) (auto simp: E'_def now)
qed

lemma update_step:
  assumes "update_ok I held V q s0 F r" "env s0 = env s" "E = add_mset x F" "\<not> DN_KEY_LT (curr_time (env s)) (he_key x)"
  shows "step_ok I held V q s E r"
proof -
  obtain out s' xs where u: "r = Some (q @ out, s')" "dp_inv I held V s' (F + entries_of xs)"
      "\<forall>(k, y)\<in>set xs. DN_KEY_LT (curr_time (env s)) k" "curr_time (env s') = curr_time (env s)" "freed (env s') = freed (env s)"
      "mset (map m_id out) + all_ids held V (env s') = all_ids held V (env s)"
    using assms(1,2) unfolding update_ok_def by auto
  have "due_events (curr_time (env s)) (F + entries_of xs) < due_events (curr_time (env s)) E"
    using due_events_add [OF u(3), of F] assms(3,4) by (simp add: due_events_def)
  with u show ?thesis unfolding step_ok_def
    by (intro exI [of _ out] exI [of _ s'] exI [of _ "F + entries_of xs"]) simp
qed

lemma dp_inv_but:
  assumes "dp_inv I held V s E" "env s0 = env s" "hz s0 = hz s" "heap_st (ev_base (curr_time (env s))) s0 F" "i \<in> V"
    and "\<forall>N. heap_mem N s0 = heap_mem N s"
  shows "dp_but I held V i s0 F"
  using assms by (simp add: dp_inv_def dp_but_def)

section \<open>One event\<close>

text \<open>The top of the heap is removed: the events that wait are the others.\<close>

lemma ev_take:
  assumes dp: "dp_inv I held V s E" and due: "ev_due s"
  shows "\<exists>s0 x F. ev_extract None s = Some s0 \<and> HEAP_TOP (evheap s) = x \<and> E = add_mset x F \<and>
    heap_st (ev_base (curr_time (env s))) s0 F \<and> env s0 = env s \<and> hz s0 = hz s \<and> (\<forall>N. heap_mem N s0 = heap_mem N s) \<and>
    \<not> DN_KEY_LT (curr_time (env s)) (he_key x) \<and> he_object x \<in> events_of V (env s) \<and>
    ev_objs F = events_of V (env s) - {he_object x}"
proof -
  have h: "heap_st (ev_base (curr_time (env s))) s E" "ev_objs E = events_of V (env s)" using dp by (simp_all add: dp_inv_def)
  have "E \<noteq> {#}" using due heap_st_size [OF h(1)] by (auto simp: ev_due_def)
  then obtain h' p' F where x: "ev_extract None s = Some (s\<lparr>evheap := h', evpos := p'\<rparr>)" "E = add_mset (HEAP_TOP (evheap s)) F"
      "heap_st (ev_base (curr_time (env s))) (s\<lparr>evheap := h', evpos := p'\<rparr>) F"
      "\<forall>N. heap_mem N (s\<lparr>evheap := h', evpos := p'\<rparr>) = heap_mem N s"
    using ev_extract_st [OF h(1)] by blast
  have "he_object (HEAP_TOP (evheap s)) \<notin> ev_objs F" using heap_st_fresh h(1) x(2) by metis
  then have "ev_objs F = events_of V (env s) - {he_object (HEAP_TOP (evheap s))}" "he_object (HEAP_TOP (evheap s)) \<in> events_of V (env s)"
    using h(2) x(2) by auto
  with x due show ?thesis by (auto simp: ev_due_def)
qed

lemma inst_tagged: "inst_ok e i \<Longrightarrow> tagged (si_dline (sis e i))"
  by (auto simp: inst_ok_def departs_def)

text \<open>The event of a line that has just been served, with the packets that are not due.\<close>

lemma line_event_later:
  assumes "inst_ok e i" "si_dline (sis e i) \<noteq> []" "\<not> due (curr_time e) (hd (si_dline (sis e i)))"
  shows "in_window (ev_base (curr_time e)) (output_time (the (dn_tag_get (hd (si_dline (sis e i)))))) \<and>
    DN_KEY_LT (curr_time e) (output_time (the (dn_tag_get (hd (si_dline (sis e i))))))"
proof -
  have "hd (si_dline (sis e i)) \<in> set (si_dline (sis e i))" using assms(2) by simp
  then obtain t where t: "departs (hd (si_dline (sis e i))) t" "in_window (ev_base (curr_time e)) t"
    using assms(1) by (auto simp: inst_ok_def)
  then have "output_time (the (dn_tag_get (hd (si_dline (sis e i))))) = t" by (auto simp: departs_def)
  with t not_due_lt [OF t(1,2) assms(3)] show ?thesis by simp
qed

text \<open>After a scheduler has been served.\<close>

lemma sched_inst:
  assumes ok: "inst_ok e i" and p: "sched_post held i (curr_time e) e out new e'"
    and z: "link_bw e i = 0 \<longrightarrow> si_credit (sis e' i) = 0" and cf: "credit_fits (si_credit (sis e' i))"
  shows "inst_ok e' i"
proof -
  have f: "schks e' = schks e" "curr_time e' = curr_time e" "si_sched (sis e' i) = si_sched (sis e i)"
      "sched_time (sis e' i) = curr_time e" "active e' i \<longleftrightarrow> si_credit (sis e' i) < 0"
    using p by (simp_all add: sched_post_def)
  have lk: "0 \<le> link_bw e i" "link_bw e i < 2 ^ 31" "\<bar>delay (sk_link (schks e (si_sched (sis e i))))\<bar> < 2 ^ 31"
    using ok by (simp_all add: inst_ok_def link_ok_def)
  have l': "link_ok e' i" using ok by (simp add: inst_ok_def link_ok_def link_bw_def valid_profile_def f)
  have d0: "in_window (ev_base (curr_time e)) (curr_time e + link_delay e i)"
    using window_later [OF lk(3), of 0 "curr_time e"] by (simp add: link_delay_def)
  have dp: "in_window (ev_base (curr_time e)) (curr_time e + link_delay e i + pay_ticks (link_bw e i) (si_credit (sis e' i)))"
    if "si_credit (sis e' i) < 0"
    using window_later [OF lk(3) pay_ticks_bounds(2) [OF _ lk(2) cf that]] z that lk(1) by (force simp: link_delay_def)
  have tm: "\<exists>t. departs m t \<and> in_window (ev_base (curr_time e)) t" if "m \<in> set (si_dline (sis e' i))" for m
    using p ok d0 dp that unfolding sched_post_def line_times_def inst_ok_def by blast
  have ids: "map m_id (si_dline (sis e i)) @ map m_id new = map m_id out @ map m_id (si_dline (sis e' i))"
    using p by (simp add: sched_post_def)
  have fl: "dline_in_heap (sis e' i) \<longleftrightarrow> si_dline (sis e' i) \<noteq> []"
  proof (cases "si_dline (sis e i) = [] \<and> new \<noteq> []")
    case True
    with p show ?thesis by (simp add: sched_post_def)
  next
    case False
    then have "out = []" "dline_in_heap (sis e' i) = dline_in_heap (sis e i)" using p by (simp_all add: sched_post_def)
    with ids ok False show ?thesis by (auto simp: inst_ok_def)
  qed
  show ?thesis unfolding inst_ok_def using l' tm fl f cf by simp
qed


lemma start_credit_fits:
  assumes c: "c < 0" "credit_fits c" "si_credit r = c" and t: "uint (now - sched_time r) < 2 ^ 30" and bw: "bw < 2 ^ 31"
  shows "credit_fits (start_credit bw now r)"
proof (cases "0 < bw")
  case False
  then show ?thesis by (simp add: start_credit_def credit_fits_def)
next
  case True
  define d where "d = uint (now - sched_time r)"
  have d: "0 \<le> d" "d < 2 ^ 30" using t by (simp_all add: d_def)
  then have "d * bw \<le> 2 ^ 30 * 2 ^ 31" using bw True by (intro mult_mono) simp_all
  then have b: "0 \<le> d * bw" "d * bw \<le> 2 ^ 61" using d True by simp_all
  have "(now - sched_time r) * word_of_int bw = (word_of_int (d * bw) :: u64)" by (simp add: d_def)
  moreover have "uint (word_of_int (d * bw) :: u64) = d * bw" using b by (intro uint_of_int64) simp_all
  ultimately have u: "uint ((now - sched_time r) * word_of_int bw) = d * bw" by simp
  have "- (2 ^ 50) \<le> c + d * bw" "c + d * bw < 2 ^ 62" using b c by (simp_all add: credit_fits_def)
  then show ?thesis using True by (simp add: start_credit_def u c(3) s64_id credit_fits_def)
qed

lemma pay_keys:
  assumes "link_ok e i" "link_bw e i = 0 \<longrightarrow> c = 0" "credit_fits c" "c < 0"
  shows "in_window (ev_base now) (now + pay_ticks (link_bw e i) c)" "DN_KEY_LT now (now + pay_ticks (link_bw e i) c)"
proof -
  have bw: "0 < link_bw e i" "link_bw e i < 2 ^ 31" using assms by (auto simp: link_ok_def)
  note b = pay_ticks_bounds [OF bw assms(3,4)]
  show "in_window (ev_base now) (now + pay_ticks (link_bw e i) c)" using window_later [of 0 _ now, OF _ b(2)] by simp
  show "DN_KEY_LT now (now + pay_ticks (link_bw e i) c)" by (rule later_lt [OF b])
qed

lemma events_serve:
  assumes x: "ev_objs F = events_of V e - {EvSI i}" and i: "i \<in> V"
    and ot: "\<And>j. j \<noteq> i \<Longrightarrow> (active e' j \<longleftrightarrow> active e j) \<and> dline_in_heap (sis e' j) = dline_in_heap (sis e j)"
    and a: "active e' i \<longleftrightarrow> si_credit (sis e' i) < 0"
    and l: "if go then \<not> dline_in_heap (sis e i) \<and> (dline_in_heap (sis e' i) \<longleftrightarrow> si_dline (sis e' i) \<noteq> [])
      else dline_in_heap (sis e' i) = dline_in_heap (sis e i)"
  shows "distinct (map snd (si_event i now bw (si_credit (sis e' i)) @ line_event go i e'))"
    "snd ` set (si_event i now bw (si_credit (sis e' i)) @ line_event go i e') \<inter> ev_objs F = {}"
    "ev_objs F \<union> snd ` set (si_event i now bw (si_credit (sis e' i)) @ line_event go i e') = events_of V e'"
proof -
  show "distinct (map snd (si_event i now bw (si_credit (sis e' i)) @ line_event go i e'))"
    by (auto split: if_splits)
  show "snd ` set (si_event i now bw (si_credit (sis e' i)) @ line_event go i e') \<inter> ev_objs F = {}"
    using l by (auto simp: x events_of_def)
  have "EvSI j \<in> events_of V e' \<longleftrightarrow> EvSI j \<in> ev_objs F \<union> (if si_credit (sis e' i) < 0 then {EvSI i} else {})" for j
    using ot [of j] a i by (cases "j = i") (auto simp: x events_of_def)
  moreover have "EvDL j \<in> events_of V e' \<longleftrightarrow> EvDL j \<in> ev_objs F \<union> (if go \<and> si_dline (sis e' i) \<noteq> [] then {EvDL i} else {})" for j
    using ot [of j] l i by (cases "j = i") (auto simp: x events_of_def split: if_splits)
  ultimately have "events_of V e' = ev_objs F \<union> (if si_credit (sis e' i) < 0 then {EvSI i} else {}) \<union>
      (if go \<and> si_dline (sis e' i) \<noteq> [] then {EvDL i} else {})"
    by (intro set_eqI, rename_tac y, case_tac y) auto
  then show "ev_objs F \<union> snd ` set (si_event i now bw (si_credit (sis e' i)) @ line_event go i e') = events_of V e'"
    by (auto split: if_splits)
qed

text \<open>No more packets leave the line than were queued: those on the line before are not due for a scheduler event.\<close>

lemma sched_post_len: "sched_post held i now e out new e' \<Longrightarrow> length out \<le> size (held e i)"
proof (cases "si_dline (sis e i) = [] \<and> new \<noteq> []")
  case True
  assume p: "sched_post held i now e out new e'"
  have "length (map m_id (si_dline (sis e i)) @ map m_id new) = length (map m_id out @ map m_id (si_dline (sis e' i)))"
    using p unfolding sched_post_def by metis
  moreover have "size (image_mset m_id (held e i)) = size (mset (map m_id new) + image_mset m_id (held e' i))"
    using p unfolding sched_post_def by metis
  ultimately show ?thesis using True by simp
next
  case False
  assume "sched_post held i now e out new e'"
  with False show ?thesis by (auto simp: sched_post_def)
qed

text \<open>What the loop over the due events does: it returns, and nothing is due.\<close>

definition loop_ok ::
  "('x dn_env_scheme \<Rightarrow> bool) \<Rightarrow> ('x dn_env_scheme \<Rightarrow> siid \<Rightarrow> mbuf multiset) \<Rightarrow> siid set \<Rightarrow> mbuf list \<Rightarrow> 'x dn_sys \<Rightarrow>
   (mbuf list \<times> 'x dn_sys) option \<Rightarrow> bool" where
  "loop_ok I held V q s r \<longleftrightarrow> (\<exists>out s' E'. r = Some (q @ out, s') \<and> dp_inv I held V s' E' \<and> \<not> ev_due s' \<and>
     curr_time (env s') = curr_time (env s) \<and> freed (env s') = freed (env s) \<and>
     mset (map m_id out) + all_ids held V (env s') = all_ids held V (env s))"

context packet_source
begin

lemma serve_inst_ok:
  assumes dp: "dp_but inv held V i s F" and now: "now = curr_time (env s)"
    and cf: "credit_fits (start_credit (link_bw (env s) i) now (sis (env s) i))"
    and F: "ev_objs F = events_of V (env s) - {EvSI i}"
  shows "\<exists>out s'. serve_sched al q i now s = Some (q @ out, q @ out, s') \<and> length out \<le> size (held (env s) i) \<and>
    update_ok inv held V q s F (Some (q @ out, s'))"
proof -
  have ok: "inv (env s)" "inst_ok (env s) i" "0 \<le> hz s" "hz s \<le> 2 ^ 20" and i: "i \<in> V" using dp by (simp_all add: dp_but_def)
  have lk: "link_ok (env s) i" using ok(2) by (simp add: inst_ok_def)
  have pl: "plain_link s i" "valid_profile (env s) (si_sched (sis (env s) i))" "0 \<le> link_bw (env s) i"
    using lk ok by (simp_all add: plain_link_def link_ok_def valid_profile_def)
  obtain out new e' where r: "serve_sched al q i now s = Some (q @ out, q @ out,
        (ev_add (si_event i now (link_bw (env s) i) (si_credit (sis e' i)) @
          line_event (si_dline (sis (env s) i) = [] \<and> new \<noteq> []) i e') s)\<lparr>env := e'\<rparr>)"
    and iv: "inv e'" and p: "sched_post held i now (env s) out new e'"
    and z: "link_bw (env s) i = 0 \<longrightarrow> si_credit (sis e' i) = 0" and c': "credit_fits (si_credit (sis e' i))"
    using serve_sched_ok [OF ok(1) i pl(2) inst_tagged [OF ok(2)] pl(3), of q now] pl(1) cf unfolding serve_result_def by blast
  define go where "go = (si_dline (sis (env s) i) = [] \<and> new \<noteq> [])"
  have ok': "inst_ok e' i" using sched_inst [OF ok(2) p [unfolded now] z c'] .
  have fr: "schks e' = schks (env s)" "curr_time e' = curr_time (env s)" "freed e' = freed (env s)"
    and ot: "\<And>j. j \<noteq> i \<Longrightarrow> si_core (sis e' j) = si_core (sis (env s) j) \<and> held e' j = held (env s) j"
    and ac: "active e' i \<longleftrightarrow> si_credit (sis e' i) < 0" and hz: "\<not> active e' i \<longrightarrow> held e' i = {#}"
    using p by (simp_all add: sched_post_def)
  have l: "if go then \<not> dline_in_heap (sis (env s) i) \<and> (dline_in_heap (sis e' i) \<longleftrightarrow> si_dline (sis e' i) \<noteq> [])
      else dline_in_heap (sis e' i) = dline_in_heap (sis (env s) i)"
    using p ok(2) by (auto simp: go_def sched_post_def inst_ok_def)
  have nd: "go \<longrightarrow> si_dline (sis e' i) \<noteq> [] \<longrightarrow> \<not> due now (hd (si_dline (sis e' i)))"
    using p by (auto simp: go_def sched_post_def)
  have oc: "(active e' j \<longleftrightarrow> active (env s) j) \<and> dline_in_heap (sis e' j) = dline_in_heap (sis (env s) j)" if "j \<noteq> i" for j
    using ot [OF that] inst_ok_core(2,3) [of e' j "env s"] fr by simp
  note evs = events_serve [OF F i oc ac l, of now "link_bw (env s) i"]
  have keys: "\<forall>(k, y)\<in>set (si_event i now (link_bw (env s) i) (si_credit (sis e' i)) @ line_event go i e').
      in_window (ev_base now) k \<and> DN_KEY_LT now k"
    using pay_keys [OF lk z c', of now] line_event_later [OF ok'] nd fr(2) by (auto simp: now)
  have ids: "mset (map m_id out) + inst_ids held e' i = inst_ids held (env s) i"
  proof -
    have "mset (map m_id (si_dline (sis (env s) i)) @ map m_id new) = mset (map m_id out @ map m_id (si_dline (sis e' i)))"
      using p by (simp add: sched_post_def)
    moreover have "image_mset m_id (held (env s) i) = mset (map m_id new) + image_mset m_id (held e' i)"
      using p by (simp add: sched_post_def)
    ultimately show ?thesis by (simp add: inst_ids_def ac_simps)
  qed
  have "update_ok inv held V q s F (Some (q @ out, (ev_add (si_event i now (link_bw (env s) i) (si_credit (sis e' i)) @
      line_event go i e') s)\<lparr>env := e'\<rparr>))"
    by (rule dp_update [OF dp now fr ot iv ok' hz evs(1,2) keys evs(3) ids])
  moreover have "length out \<le> size (held (env s) i)"
    by (rule sched_post_len [OF p])
  ultimately show ?thesis using r by (auto simp: go_def)
qed

lemma serve_dl_event:
  assumes dp: "dp_but inv held V i s F" and now: "now = curr_time (env s)"
    and F: "ev_objs F = events_of V (env s) - {EvDL i}" and hz: "\<not> active (env s) i \<longrightarrow> held (env s) i = {#}"
  shows "update_ok inv held V q s F (transmit_event q i now s)"
proof -
  have i: "i \<in> V" using dp by (simp add: dp_but_def)
  have ok: "inv (env s)" "inst_ok (env s) i"
    using dp i by (simp_all add: dp_but_def)
  obtain out e' where r: "transmit_event q i now s = Some (q @ out, (ev_add (line_event True i e') s)\<lparr>env := e'\<rparr>)"
    and p: "out_post i True now out (env s) e'"
    using transmit_ok [OF inst_tagged [OF ok(2)], of q now] by blast
  have lf: "line_frame i (env s) e'" using p by (simp add: out_post_def)
  have fr: "schks e' = schks (env s)" "curr_time e' = curr_time (env s)" "freed e' = freed (env s)"
    using lf by (simp_all add: line_frame_def data_frame_def)
  have iv: "inv e'" "held e' = held (env s)" using frame [OF ok(1)] lf by (simp_all add: line_frame_def)
  have ot: "si_core (sis e' j) = si_core (sis (env s) j) \<and> held e' j = held (env s) j" if "j \<noteq> i" for j
    using lf that iv(2) by (simp add: line_frame_def)
  have l: "si_credit (sis e' i) = si_credit (sis (env s) i)" "sched_time (sis e' i) = sched_time (sis (env s) i)"
      "active e' i \<longleftrightarrow> active (env s) i" "si_dline (sis (env s) i) = out @ si_dline (sis e' i)"
      "dline_in_heap (sis e' i) \<longleftrightarrow> si_dline (sis e' i) \<noteq> []" "si_dline (sis e' i) \<noteq> [] \<longrightarrow> \<not> due now (hd (si_dline (sis e' i)))"
    using p by (simp_all add: out_post_def)
  have ok': "inst_ok e' i"
    using ok(2) l line_frame_sched [OF lf, of i] fr by (simp add: inst_ok_def link_ok_def link_bw_def valid_profile_def)
  have oc: "(active e' j \<longleftrightarrow> active (env s) j) \<and> dline_in_heap (sis e' j) = dline_in_heap (sis (env s) j)" if "j \<noteq> i" for j
    using ot [OF that] inst_ok_core(2,3) [of e' j "env s"] fr by simp
  have mem: "EvSI j \<in> events_of V e' \<longleftrightarrow> EvSI j \<in> ev_objs F"
      "EvDL j \<in> events_of V e' \<longleftrightarrow> EvDL j \<in> ev_objs F \<union> snd ` set (line_event True i e')" for j
    using oc [of j] l i by (cases "j = i"; auto simp: F events_of_def)+
  have ev: "ev_objs F \<union> snd ` set (line_event True i e') = events_of V e'"
    using mem by (intro set_eqI, rename_tac y, case_tac y) auto
  have ids: "mset (map m_id out) + inst_ids held e' i = inst_ids held (env s) i"
    by (simp add: inst_ids_def iv(2) l(4) ac_simps)
  have keys: "\<forall>(k, y)\<in>set (line_event True i e'). in_window (ev_base now) k \<and> DN_KEY_LT now k"
    using line_event_later [OF ok'] l(6) fr(2) by (auto simp: now)
  show ?thesis unfolding r
    by (rule dp_update [OF dp now fr ot iv(1) ok' _ _ _ keys ev ids]) (use hz in \<open>auto simp: F l(3) iv(2)\<close>)
qed

lemma ev_serve_ok:
  assumes dp: "dp_inv inv held V s E" and due: "ev_due s"
  shows "step_ok inv held V q s E (ev_serve al q s)"
proof -
  obtain s0 x F where t: "ev_extract None s = Some s0" "HEAP_TOP (evheap s) = x" "E = add_mset x F"
      "heap_st (ev_base (curr_time (env s))) s0 F" "env s0 = env s" "hz s0 = hz s"
      "\<not> DN_KEY_LT (curr_time (env s)) (he_key x)" "he_object x \<in> events_of V (env s)"
      "ev_objs F = events_of V (env s) - {he_object x}" and hm: "\<forall>N. heap_mem N s0 = heap_mem N s"
    using ev_take [OF dp due] by blast
  show ?thesis
  proof (cases "he_object x")
    case (EvSI i)
    have i: "i \<in> V" "active (env s) i" using t(8) EvSI by (auto simp: events_of_def)
    have b: "dp_but inv held V i s0 F" by (rule dp_inv_but [OF dp t(5,6,4) i(1) hm])
    have "inst_ok (env s) i" using dp i(1) by (simp add: dp_inv_def)
    then have "credit_fits (start_credit (link_bw (env s0) i) (curr_time (env s0)) (sis (env s0) i))"
      using i(2) by (intro start_credit_fits [OF _ _ refl]) (auto simp: inst_ok_def link_ok_def t(5))
    then obtain out s' where "serve_sched al q i (curr_time (env s)) s0 = Some (q @ out, q @ out, s')"
        "update_ok inv held V q s0 F (Some (q @ out, s'))"
      using serve_inst_ok [OF b refl, of q] t(5,9) EvSI by auto
    then show ?thesis using update_step [OF _ t(5,3,7)] t(1,2,5) EvSI by (simp add: ev_serve_def)
  next
    case (EvDL i)
    have i: "i \<in> V" using t(8) EvDL by (auto simp: events_of_def)
    have b: "dp_but inv held V i s0 F" by (rule dp_inv_but [OF dp t(5,6,4) i hm])
    have "\<not> active (env s0) i \<longrightarrow> held (env s0) i = {#}" using dp i by (simp add: dp_inv_def t(5))
    then have "update_ok inv held V q s0 F (transmit_event q i (curr_time (env s)) s0)"
      using serve_dl_event [OF b, of "curr_time (env s)" q] t(5,9) EvDL by simp
    then show ?thesis using update_step [OF _ t(5,3,7)] t(1,2,5) EvDL by (simp add: ev_serve_def)
  qed
qed

text \<open>The loop ends, by induction on the number of due events.\<close>

lemma ev_loop_ok:
  assumes "dp_inv inv held V s E"
  shows "loop_ok inv held V q s (ev_loop al q s)"
  using assms
proof (induction "due_events (curr_time (env s)) E" arbitrary: s E q rule: less_induct)
  case less
  show ?case
  proof (cases "ev_due s")
    case False
    then show ?thesis using less.prems unfolding loop_ok_def
      by (intro exI [of _ "[]"] exI [of _ s] exI [of _ E]) (simp add: ev_loop.simps)
  next
    case True
    obtain o1 s1 E1 where 1: "ev_serve al q s = Some (q @ o1, s1)" "dp_inv inv held V s1 E1"
        "curr_time (env s1) = curr_time (env s)" "freed (env s1) = freed (env s)"
        "due_events (curr_time (env s)) E1 < due_events (curr_time (env s)) E"
        "mset (map m_id o1) + all_ids held V (env s1) = all_ids held V (env s)"
      using ev_serve_ok [OF less.prems True, of q] unfolding step_ok_def by blast
    obtain o2 s2 E2 where 2: "ev_loop al (q @ o1) s1 = Some ((q @ o1) @ o2, s2)" "dp_inv inv held V s2 E2" "\<not> ev_due s2"
        "curr_time (env s2) = curr_time (env s1)" "freed (env s2) = freed (env s1)"
        "mset (map m_id o2) + all_ids held V (env s2) = all_ids held V (env s1)"
      using less.hyps [of s1 E1 "q @ o1"] 1(2,3,5) unfolding loop_ok_def by auto
    have "ev_loop al q s = Some (q @ (o1 @ o2), s2)" using True 1(1) 2(1) by (subst ev_loop.simps) simp
    then show ?thesis unfolding loop_ok_def using 1(3,4,6) 2
      by (intro exI [of _ "o1 @ o2"] exI [of _ s2] exI [of _ E2]) (simp add: add.assoc)
  qed
qed

end


section \<open>The property\<close>

lemma all_ids_fifo: "all_ids (fifo_held V qa) V e = (\<Sum>i\<in>V. mset (map m_id (mq e (qa i))) + mset (map m_id (si_dline (sis e i))))"
  unfolding all_ids_def inst_ids_def fifo_held_def by (intro sum.cong) simp_all

text \<open>C2: The loop over the due events always ends, for every algorithm that keeps the contract \<open>packet_source\<close>, from a state
  of the invariant \<open>dp_inv\<close>, and leaves such a state: the heap holds exactly one event for each instance that waits for
  its credit and one for each delay line that is not empty, and every instance with packets queued waits for its
  credit. No event is due any more, and every packet that was in a scheduler or on a delay line has been sent or is still
  there. The invariant asks of every instance that bandwidth and delay fit 32 bits, that the samples of the profile are
  in bounds and add less than \<open>2 ^ 19\<close> bits to a packet, and that a debt was last accounted less than \<open>2 ^ 30\<close> ticks
  ago; and of the event heap that its array has room for two events per instance, or else that its allocations succeed.\<close>

theorem ev_loop_returns:
  assumes "packet_source al V I held" "dp_inv I held V s E"
  shows "\<exists>out s' E'. ev_loop al q s = Some (q @ out, s') \<and>
    dp_inv I held V s' E' \<and> \<not> ev_due s' \<and>
    curr_time (env s') = curr_time (env s) \<and> freed (env s') = freed (env s) \<and>
    mset (map m_id out) + all_ids held V (env s') = all_ids held V (env s)"
  using packet_source.ev_loop_ok [OF assms, of q] unfolding loop_ok_def .

text \<open>An instance that owes 500 bits, with two packets queued, one on its line, and both its events due.\<close>

definition busy_env :: dn_env where
  "busy_env = serve_env\<lparr>curr_time := 9, sis := (\<lambda>_. si_zero)(3 := si_zero\<lparr>si_kflags := DN_ACTIVE, si_credit := -500, sched_time := 8,
     dline_in_heap := True, si_dline := [tpkt 3 100 7]\<rparr>)\<rparr>"

definition busy_sys :: "unit dn_sys" where
  "busy_sys = ev_insert 9 (EvSI 3) (ev_insert 7 (EvDL 3) (sys_zero busy_env))"

definition busy_events :: "ev dn_heap_entry multiset" where
  "busy_events = {#\<lparr>he_key = 9, he_object = EvSI 3\<rparr>, \<lparr>he_key = 7, he_object = EvDL 3\<rparr>#}"

lemma heap_st_zero: "heap_st b (sys_zero e) {#}"
  by (simp add: heap_st_def sys_zero_def heap_inv_def keys_in_window_def heap_ordered_def objects_distinct_def index_ok_def
      heap_entries_def)

lemma small_window: "uint t < 2 ^ 31 \<Longrightarrow> in_window (ev_base 9) t"
proof -
  assume t: "uint t < 2 ^ 31"
  define d where "d = uint t - 9"
  have "-9 \<le> d" "d + 9 < 2 ^ 31" using t by (simp_all add: d_def)
  then have d: "\<bar>d\<bar> < 2 ^ 62" unfolding abs_less_iff by simp
  have "9 + word_of_int d = t" by (simp add: d_def)
  then show ?thesis using window_now [OF d, of 9] by simp
qed

lemma busy_heap: "heap_st (ev_base 9) busy_sys busy_events" "heap_mem 2 busy_sys"
proof -
  have z: "heap_st (ev_base 9) (sys_zero busy_env) {#}" "heap_mem 2 (sys_zero busy_env)"
    using heap_st_zero by (simp_all add: heap_mem_def sys_zero_def)
  have 1: "heap_st (ev_base 9) (ev_insert 7 (EvDL 3) (sys_zero busy_env)) {#\<lparr>he_key = 7, he_object = EvDL 3\<rparr>#}"
      "heap_mem 2 (ev_insert 7 (EvDL 3) (sys_zero busy_env))"
    using ev_insert_st [OF z(1) _ small_window _ z(2), of "EvDL 3" 7] by simp_all
  show "heap_st (ev_base 9) busy_sys busy_events" "heap_mem 2 busy_sys"
    using ev_insert_st [OF 1(1) _ small_window _ 1(2), of "EvSI 3" 9] by (simp_all add: busy_sys_def busy_events_def)
qed

lemma busy_ok: "dp_inv (fifo_inv {3} (\<lambda>_. 7)) (fifo_held {3} (\<lambda>_. 7)) {3} busy_sys busy_events"
proof -
  have e: "env busy_sys = busy_env" "hz busy_sys = 1000"
    using ev_add_other [of "[(7, EvDL 3), (9, EvSI 3)]" "sys_zero busy_env"] by (simp_all add: busy_sys_def sys_zero_def)
  have t: "curr_time busy_env = 9" by (simp add: busy_env_def)
  have iv: "fifo_inv {3} (\<lambda>_. 7) busy_env"
    by (simp add: busy_env_def serve_env_def fifo_inv_def pkt_ok_def dn_zero_defs)
  have ob: "ev_objs busy_events = events_of {3} busy_env"
    by (auto simp: busy_events_def events_of_def busy_env_def)
  have "link_ok busy_env 3"
    by (simp add: link_ok_def link_bw_def busy_env_def serve_env_def dn_zero_defs valid_profile_def extra_small_def)
  moreover have "departs (tpkt 3 100 7) 7" by (simp add: departs_def)
  then have "\<exists>u. departs (tpkt 3 100 7) u \<and> in_window (ev_base 9) u" using small_window [of 7] by auto
  ultimately have "inst_ok busy_env 3"
    unfolding inst_ok_def t by (simp add: busy_env_def credit_fits_def)
  moreover have "active busy_env 3" by (simp add: busy_env_def)
  moreover have "heap_mem (Suc (Suc 0)) busy_sys" using busy_heap(2) by (simp add: numeral_2_eq_2)
  ultimately show ?thesis using busy_heap iv ob by (simp add: dp_inv_def e t)
qed

theorem ev_loop_returns_witness:
  "\<exists>out s' E'. ev_loop (\<lambda>_. fifo_desc (\<lambda>_. 7) 136) [] busy_sys = Some ([] @ out, s') \<and>
    dp_inv (fifo_inv {3} (\<lambda>_. 7)) (fifo_held {3} (\<lambda>_. 7)) {3} s' E' \<and> \<not> ev_due s' \<and>
    curr_time (env s') = curr_time (env busy_sys) \<and> freed (env s') = freed (env busy_sys) \<and>
    mset (map m_id out) + (\<Sum>i\<in>{3}. mset (map m_id (mq (env s') 7)) + mset (map m_id (si_dline (sis (env s') i)))) =
      (\<Sum>i\<in>{3}. mset (map m_id (mq (env busy_sys) 7)) + mset (map m_id (si_dline (sis (env busy_sys) i))))"
proof -
  have "packet_source (\<lambda>_. fifo_desc (\<lambda>_. 7) 136) {3} (fifo_inv {3} (\<lambda>_. 7)) (fifo_held {3} (\<lambda>_. 7))"
    by (rule fifo_src.packet_source_axioms)
  from ev_loop_returns [OF this busy_ok, of "[]"] show ?thesis unfolding all_ids_fifo .
qed

end
