(* ===== verification/DnInput.thy ===== *)
theory DnInput
  imports DnEvents
begin

text \<open>
  Packets coming in. What an algorithm must do with a packet handed to it is the locale \<open>packet_sched\<close>, an extension of
  \<open>packet_source\<close>; with every such algorithm a packet is never lost, and the invariant of the data path is kept. The
  FIFO algorithm is an instance. Packets for which there is no flowset, no scheduler or no memory are released at
  once, counted and reported to the caller.
\<close>

section \<open>Lookup\<close>

definition fs_lookup :: "nat \<Rightarrow> 'x dn_sys \<Rightarrow> fsid option" where
  "fs_lookup n s = (case fshash s of
     None \<Rightarrow> None
   | Some t \<Rightarrow> find (\<lambda>f. fs_nr (fsk_fs (fsks (env s) f)) = n) (hb_list t (tab_bucket t (nr_hash n))))"

lemma find_fsk_0: "find_fsk n 0 s = Some (fs_lookup n s, s)"
  by (auto simp: find_fsk_def fs_lookup_def tab_find_def Let_def DNHT_flags split: option.split)

text \<open>The packet with the tag of dummynet.\<close>

definition tagged_pkt :: "mbuf \<Rightarrow> nat \<Rightarrow> ip_fw_args \<Rightarrow> u64 \<Rightarrow> mbuf" where
  "tagged_pkt m dir fwa now = m\<lparr>m_tags := \<lparr>tag_kind = PACKET_TAG_DUMMYNET, tag_dn = \<lparr>pt_rule =
     (fwa_rule fwa)\<lparr>rr_info := rr_info (fwa_rule fwa) AND IPFW_ONEPASS\<rparr>, dn_dir = dir, output_time = now, pt_ifp = fwa_oif fwa\<rparr>\<rparr> # m_tags m\<rparr>"

lemma tag_mbuf_eq:
  "tag_mbuf m dir fwa s = (if mems s 0 then Some (tagged_pkt m dir fwa (curr_time (env s))) else None, s\<lparr>mems := \<lambda>n. mems s (Suc n)\<rparr>)"
  by (simp add: tag_mbuf_def tagged_pkt_def Let_def)

section \<open>Packets that cannot be handled\<close>

lemma dummynet_io_dropped_law:
  assumes "\<not> mems s 0 \<or> \<not> busy s \<and> (\<forall>f. fs_lookup (fs_id_of fwa) s = Some f \<longrightarrow> fsk_sched (fsks (env s) f) = None)"
  shows "\<exists>m e. dummynet_io al junk m0 dir fwa s =
      Some (\<lparr>io_ret = (if mems s 0 \<and> (\<exists>f. fs_lookup (fs_id_of fwa) s = Some f \<and> fs_flags (fsk_fs (fsks (env s) f)) AND DN_NOERROR \<noteq> 0)
               then 0 else ENOBUFS), io_m0 = None, io_send = []\<rparr>,
            s\<lparr>env := e, mems := \<lambda>n. mems s (Suc n), io_pkt := io_pkt s + 1\<rparr>) \<and>
    m_id m = m_id m0 \<and> e = FREE_PKT m ((env s)\<lparr>io_pkt_drop := io_pkt_drop (env s) + 1\<rparr>)"
proof -
  define s1 where "s1 = s\<lparr>io_pkt := io_pkt s + 1, mems := \<lambda>n. mems s (Suc n)\<rparr>"
  define m where "m = (if mems s 0 then tagged_pkt m0 dir fwa (curr_time (env s)) else m0)"
  have m: "m_id m = m_id m0" by (simp add: m_def tagged_pkt_def)
  have l: "fs_lookup n (s\<lparr>io_pkt := a, mems := b\<rparr>) = fs_lookup n s" for n a b by (simp add: fs_lookup_def split: option.split)
  define f where "f = (if mems s 0 then fs_lookup (fs_id_of fwa) s else None)"
  have "dummynet_io al junk m0 dir fwa s = Some (io_drop f (Some m) s1)"
  proof (cases "mems s 0")
    case False
    then show ?thesis by (simp add: dummynet_io_def tag_mbuf_eq f_def m_def s1_def)
  next
    case True
    then show ?thesis using assms
      by (cases "fs_lookup (fs_id_of fwa) s")
        (simp_all add: dummynet_io_def tag_mbuf_eq f_def m_def s1_def find_fsk_0 l Let_def)
  qed
  moreover have "io_drop f (Some m) s1 = (\<lparr>io_ret = (if mems s 0 \<and> (\<exists>f. fs_lookup (fs_id_of fwa) s = Some f \<and>
      fs_flags (fsk_fs (fsks (env s) f)) AND DN_NOERROR \<noteq> 0) then 0 else ENOBUFS), io_m0 = None, io_send = []\<rparr>,
      s\<lparr>env := FREE_PKT m ((env s)\<lparr>io_pkt_drop := io_pkt_drop (env s) + 1\<rparr>), mems := \<lambda>n. mems s (Suc n), io_pkt := io_pkt s + 1\<rparr>)"
    by (simp add: io_drop_def Let_def f_def s1_def on_env_def FREE_PKT_def split: option.split)
  ultimately show ?thesis using m
    by (intro exI [of _ m] exI [of _ "FREE_PKT m ((env s)\<lparr>io_pkt_drop := io_pkt_drop (env s) + 1\<rparr>)"]) simp
qed

text \<open>C40: A packet is released, and only it, when there is no memory for its tag, no flowset with the number of
  the rule, or the flowset is not attached to a scheduler: it is counted among the packets that came in and among
  those dropped, the caller loses it and is told \<open>ENOBUFS\<close>, unless the flowset asks for no error; no queue,
  instance, flowset, scheduler, table or event changes.\<close>

theorem dummynet_io_dropped:
  assumes "\<not> mems s 0 \<or> \<not> busy s \<and> (\<forall>f. fs_lookup (fs_id_of fwa) s = Some f \<longrightarrow> fsk_sched (fsks (env s) f) = None)"
  shows "\<exists>m e. dummynet_io al junk m0 dir fwa s =
      Some (\<lparr>io_ret = (if mems s 0 \<and> (\<exists>f. fs_lookup (fs_id_of fwa) s = Some f \<and> fs_flags (fsk_fs (fsks (env s) f)) AND DN_NOERROR \<noteq> 0)
               then 0 else ENOBUFS), io_m0 = None, io_send = []\<rparr>,
            s\<lparr>env := e, mems := \<lambda>n. mems s (Suc n), io_pkt := io_pkt s + 1\<rparr>) \<and>
    m_id m = m_id m0 \<and> e = FREE_PKT m ((env s)\<lparr>io_pkt_drop := io_pkt_drop (env s) + 1\<rparr>)"
  by (rule dummynet_io_dropped_law [OF assms])

text \<open>A rule that refers to pipe 1, with no flowset configured.\<close>

definition pipe_args :: ip_fw_args where
  "pipe_args = \<lparr>fwa_rule = \<lparr>rr_slot = 0, rr_rulenum = 0, rr_rule_id = 0, rr_chain_id = 0, rr_info = IPFW_IS_PIPE OR 1\<rparr>,
     fwa_oif = None, fwa_f_id = fid_zero\<rparr>"

theorem dummynet_io_dropped_witness:
  "\<exists>m e. dummynet_io (\<lambda>_. fifo_desc (\<lambda>_. 7) 136) fid_zero (tpkt 8 100 0) DIR_OUT pipe_args (sys_zero env_zero) =
      Some (\<lparr>io_ret = ENOBUFS, io_m0 = None, io_send = []\<rparr>,
            (sys_zero env_zero)\<lparr>env := e, mems := \<lambda>n. mems (sys_zero env_zero :: unit dn_sys) (Suc n), io_pkt := 1\<rparr>) \<and>
    m_id m = 8 \<and> e = FREE_PKT m (env_zero\<lparr>io_pkt_drop := 1\<rparr>)"
proof -
  have z: "env (sys_zero env_zero) = env_zero" "io_pkt (sys_zero env_zero) = 0" "io_pkt_drop env_zero = 0" "mems (sys_zero env_zero) 0"
    by (simp_all add: sys_zero_def env_zero_def)
  have l: "fs_lookup n (sys_zero env_zero) = None" for n by (simp add: fs_lookup_def sys_zero_def)
  have b: "\<not> busy (sys_zero env_zero)" by (simp add: sys_zero_def)
  have "\<not> mems (sys_zero env_zero) 0 \<or> \<not> busy (sys_zero env_zero) \<and>
      (\<forall>f. fs_lookup (fs_id_of pipe_args) (sys_zero env_zero) = Some f \<longrightarrow> fsk_sched (fsks (env (sys_zero env_zero)) f) = None)"
    using l b by simp
  from dummynet_io_dropped [OF this, of "\<lambda>_. fifo_desc (\<lambda>_. 7) 136" fid_zero "tpkt 8 100 0" DIR_OUT] show ?thesis by (simp add: z l)
qed


section \<open>What an algorithm must do with a packet handed to it\<close>

text \<open>The packet is queued, or released and reported; nothing else of the instances changes but their counters.\<close>

locale packet_sched = packet_source +
  fixes owns :: "'a dn_env_scheme \<Rightarrow> qid option \<Rightarrow> siid \<Rightarrow> bool"
  assumes enq: "inv e \<Longrightarrow> i \<in> V \<Longrightarrow> pkt_ok m \<Longrightarrow> owns e q i \<Longrightarrow> sk_alg al e (si_sched (sis e i)) = Some a \<Longrightarrow>
    \<exists>r e'. al_enqueue a i q m e = Some (r, e') \<and> inv e' \<and> schks e' = schks e \<and> curr_time e' = curr_time e \<and>
      (\<forall>j. si_core (sis e' j) = si_core (sis e j)) \<and> (\<forall>j. j \<noteq> i \<longrightarrow> held e' j = held e j) \<and>
      (if r = 0 then held e' i = add_mset m (held e i) \<and> freed e' = freed e else held e' i = held e i \<and> freed e' = freed e @ [m])"
    and release: "inv e \<Longrightarrow> inv (FREE_PKT m e) \<and> held (FREE_PKT m e) = held e"

lemma dn_enqueue_core:
  assumes "dn_enqueue q m dr e = (r, e')"
  shows "si_core (sis e' j) = si_core (sis e j)"
proof (cases "q_fs (qs e q) = None \<or> q_si (qs e q) = None")
  case True
  with assms show ?thesis by (auto simp: dn_enqueue_def split: option.splits)
next
  case False
  then obtain f i where fi: "q_fs (qs e q) = Some f" "q_si (qs e q) = Some i" by auto
  obtain d e2 where d: "must_drop q f m dr (arrive_pkt q i m e) = (d, e2)" by fastforce
  have "sis e2 = sis (arrive_pkt q i m e)" using red_frame_fields(2) [OF must_drop_frame [OF d]] .
  then have "si_core (sis e2 j) = si_core (sis e j)" by (simp add: arrive_pkt_def Let_def)
  moreover have "si_core (sis (drop_pkt q i m e2) j) = si_core (sis e2 j)" by (simp add: drop_pkt_def)
  moreover have "si_core (sis (accept_pkt q i m e2) j) = si_core (sis e2 j)"
    by (simp add: accept_pkt_def mark_busy_def Let_def)
  ultimately show ?thesis using assms dn_enqueue_eq [OF fi d] by (auto split: if_splits)
qed

interpretation fifo_sched: packet_sched "\<lambda>_. fifo_desc qa sz" V "fifo_inv V qa" "fifo_held V qa" "\<lambda>_ _ _. True"
  for V :: "siid set" and qa :: "siid \<Rightarrow> qid" and sz :: u16
proof
  fix e :: "'x dn_env_scheme" and i :: siid and m q a
  show "fifo_inv V qa (FREE_PKT m e) \<and> fifo_held V qa (FREE_PKT m e) = fifo_held V qa e" if "fifo_inv V qa e"
    using that by (auto simp: fifo_inv_def fifo_held_def FREE_PKT_def)
  assume iv: "fifo_inv V qa e" and i: "i \<in> V" and m: "pkt_ok m"
    and a: "sk_alg (\<lambda>_. fifo_desc qa sz) e (si_sched (sis e i)) = Some a"
  obtain r e' where d: "dn_enqueue (qa i) m False e = (r, e')" by fastforce
  have st: "r = 0 \<and> queue_step (qa i) (mq e (qa i) @ [m]) [] e e' \<or> r = 1 \<and> queue_step (qa i) (mq e (qa i)) [m] e e'"
    by (rule dn_enqueue_step [OF d])
  have core: "\<forall>j. si_core (sis e' j) = si_core (sis e j)" using dn_enqueue_core [OF d] by blast
  have fr: "curr_time e' = curr_time e" "schks e' = schks e" using st by (auto simp: queue_step_def)
  have inj: "qa j = qa i \<longleftrightarrow> j = i" if "j \<in> V" for j
    using iv that i by (auto simp: fifo_inv_def inj_on_def)
  have "mq e' (qa j) = (if j = i \<and> r = 0 then mq e (qa i) @ [m] else mq e (qa j))" if "j \<in> V" for j
    using st inj [OF that] by (auto simp: queue_step_def)
  moreover have "si_sched (sis e' j) = si_sched (sis e j)" for j using core si_core_fields(3) by blast
  ultimately have "fifo_inv V qa e'" using iv fr m by (auto simp: fifo_inv_def split: if_splits)
  moreover have "if r = 0 then fifo_held V qa e' i = add_mset m (fifo_held V qa e i) \<and> freed e' = freed e
      else fifo_held V qa e' i = fifo_held V qa e i \<and> freed e' = freed e @ [m]"
    using st i by (auto simp: fifo_held_def queue_step_def)
  moreover have "\<forall>j. j \<noteq> i \<longrightarrow> fifo_held V qa e' j = fifo_held V qa e j"
    using st inj by (auto simp: fifo_held_def queue_step_def)
  moreover have "al_enqueue a i q m e = Some (r, e')" using a d by (auto simp: sk_alg_def fifo_desc_def fifo_enqueue_def)
  ultimately show "\<exists>r e'. al_enqueue a i q m e = Some (r, e') \<and> fifo_inv V qa e' \<and> schks e' = schks e \<and> curr_time e' = curr_time e \<and>
      (\<forall>j. si_core (sis e' j) = si_core (sis e j)) \<and> (\<forall>j. j \<noteq> i \<longrightarrow> fifo_held V qa e' j = fifo_held V qa e j) \<and>
      (if r = 0 then fifo_held V qa e' i = add_mset m (fifo_held V qa e i) \<and> freed e' = freed e
       else fifo_held V qa e' i = fifo_held V qa e i \<and> freed e' = freed e @ [m])"
    using core fr by blast
qed

section \<open>The allowance of an instance that was idle\<close>

definition allow_credit :: "bool \<Rightarrow> dn_link \<Rightarrow> u64 \<Rightarrow> dn_sch_inst \<Rightarrow> dn_sch_inst" where
  "allow_credit fast p now r =
     (if idle_time r < now then
        let c = (if fast then bandwidth p else 0); b = (now - idle_time r) * word_of_int (bandwidth p)
        in r\<lparr>sched_time := now, si_credit := (if burst p = 0 then c else s64 (c + uint (if burst p < b then burst p else b)))\<rparr>
      else r)"

lemma io_allowance_eq:
  "io_allowance i k s = s\<lparr>env := upd_si i (allow_credit (io_fast s) (sk_link (schks (env s) k)) (curr_time (env s))) (env s)\<rparr>"
  by (simp add: io_allowance_def allow_credit_def add_credit_def on_env_def Let_def upd_si_def)


section \<open>A packet that comes in is not lost\<close>

definition io_back :: "io_res \<Rightarrow> nat multiset" where
  "io_back r = mset (map m_id (io_send r)) + (case io_m0 r of None \<Rightarrow> {#} | Some m \<Rightarrow> {#m_id m#})"

definition io_ok ::
  "('x dn_env_scheme \<Rightarrow> bool) \<Rightarrow> ('x dn_env_scheme \<Rightarrow> siid \<Rightarrow> mbuf multiset) \<Rightarrow> siid set \<Rightarrow> nat \<Rightarrow> 'x dn_sys \<Rightarrow>
   (io_res \<times> 'x dn_sys) option \<Rightarrow> bool" where
  "io_ok I held V n s r \<longleftrightarrow> (\<exists>res s' E'. r = Some (res, s') \<and> dp_inv I held V s' E' \<and>
     mset (map m_id (freed (env s'))) + io_back res + all_ids held V (env s') =
       add_mset n (mset (map m_id (freed (env s))) + all_ids held V (env s)))"

lemma events_core:
  assumes "\<forall>j. si_core (sis e' j) = si_core (sis e j)"
  shows "events_of V e' = events_of V e"
proof -
  have "active e' j = active e j \<and> dline_in_heap (sis e' j) = dline_in_heap (sis e j)" for j
    using si_core_fields [of "sis e' j" "sis e j"] assms by simp
  then show ?thesis by (simp add: events_of_def)
qed

lemma all_ids_add:
  assumes "finite V" "i \<in> V" "\<forall>j. si_dline (sis e' j) = si_dline (sis e j)" "\<forall>j. j \<noteq> i \<longrightarrow> held e' j = held e j"
    and "held e' i = add_mset m (held e i)"
  shows "all_ids held V e' = add_mset (m_id m) (all_ids held V e)"
proof -
  have "(\<Sum>j\<in>V - {i}. inst_ids held e' j) = (\<Sum>j\<in>V - {i}. inst_ids held e j)"
    using assms(3,4) by (intro sum.cong) (auto simp: inst_ids_def)
  then show ?thesis using assms(3,5) by (simp add: all_ids_def sum.remove [OF assms(1,2)] inst_ids_def)
qed

lemma all_ids_same: "(\<And>j. si_dline (sis e' j) = si_dline (sis e j)) \<Longrightarrow> held e' = held e \<Longrightarrow> all_ids held V e' = all_ids held V e"
  by (simp add: all_ids_def inst_ids_def)

lemma rename_tag_id [simp]: "m_id (rename_tag m) = m_id m"
  by (simp add: rename_tag_def split: list.split)

text \<open>What is left to do once the instance is known.\<close>

definition io_deliver ::
  "('x dn_env_scheme) dn_alg \<Rightarrow> 'x algs \<Rightarrow> mbuf \<Rightarrow> nat \<Rightarrow> fsid option \<Rightarrow> qid option \<Rightarrow> siid \<Rightarrow> schid \<Rightarrow> 'x dn_sys \<Rightarrow> (io_res \<times> 'x dn_sys) option" where
  "io_deliver a al m dir f q i k s = do {
     (r, s) \<leftarrow> lift_cbo (al_enqueue a i q m) s;
     if r \<noteq> 0 then Some (io_drop f None s)
     else if si_kflags (sis (env s) i) AND DN_ACTIVE \<noteq> 0 then Some (io_done None [] s)
     else io_serve al m dir i k s
   }"

context packet_sched
begin

lemma deliver_idle:
  assumes dp: "dp_but inv held V i s E" and ev: "ev_objs E = events_of V (env s)" and na: "\<not> active (env s) i"
    and h: "size (held (env s) i) \<le> 1" and k: "k = si_sched (sis (env s) i)"
    and cf: "credit_fits (start_credit (link_bw (env s) i) (curr_time (env s))
      (allow_credit (io_fast s) (sk_link (schks (env s) k)) (curr_time (env s)) (sis (env s) i)))"
  shows "\<exists>res s' E'. io_serve al m dir i k s = Some (res, s') \<and> dp_inv inv held V s' E' \<and> freed (env s') = freed (env s) \<and>
    io_back res + all_ids held V (env s') = all_ids held V (env s)"
proof -
  define s3 where "s3 = io_allowance i k s"
  define f where "f = allow_credit (io_fast s) (sk_link (schks (env s) k)) (curr_time (env s))"
  have e3: "env s3 = upd_si i f (env s)" "curr_time (env s3) = curr_time (env s)" "hz s3 = hz s" "heap_st b s3 E = heap_st b s E" "heap_mem N s3 = heap_mem N s" for b N
    by (simp_all add: s3_def io_allowance_eq f_def)
  have ff: "si_stat (f r) = si_stat r" "si_dline (f r) = si_dline r" "si_kflags (f r) = si_kflags r"
      "dline_in_heap (f r) = dline_in_heap r" "si_sched (f r) = si_sched r" for r
    by (simp_all add: f_def allow_credit_def si_stat_def Let_def)
  have df: "data_frame (env s) (env s3)" by (simp add: e3 data_frame_def ff)
  have iv: "inv (env s)" "i \<in> V" using dp by (simp_all add: dp_but_def)
  have h3: "inv (env s3)" "held (env s3) = held (env s)" using frame [OF iv(1) df] by simp_all
  have ac: "active (env s3) j = active (env s) j" "dline_in_heap (sis (env s3) j) = dline_in_heap (sis (env s) j)"
      "si_dline (sis (env s3) j) = si_dline (sis (env s) j)" "si_sched (sis (env s3) j) = si_sched (sis (env s) j)" for j
    by (simp_all add: e3 ff)
  have lk: "link_ok (env s3) j = link_ok (env s) j" "link_bw (env s3) j = link_bw (env s) j" for j
    by (simp_all add: link_ok_def link_bw_def valid_profile_def e3 ff)
  have io: "inst_ok (env s3) j = inst_ok (env s) j" for j
    using na by (cases "j = i") (simp_all add: inst_ok_def lk [unfolded e3(1)] e3 ff)
  have dp3: "dp_but inv held V i s3 E"
    using dp h3 by (simp add: dp_but_def io ac e3(2-5))
  have ev3: "ev_objs E = events_of V (env s3) - {EvSI i}"
    using ev na by (auto simp: events_of_def ac)
  have cf3: "credit_fits (start_credit (link_bw (env s3) i) (curr_time (env s3)) (sis (env s3) i))"
    using cf unfolding lk e3(2) by (simp add: e3 f_def k)
  obtain out s' where o: "serve_sched al [] i (curr_time (env s3)) s3 = Some ([] @ out, [] @ out, s')"
      "length out \<le> size (held (env s3) i)" "update_ok inv held V [] s3 E (Some ([] @ out, s'))"
    using serve_inst_ok [OF dp3 refl cf3 ev3] by blast
  obtain xs where u: "dp_inv inv held V s' (E + entries_of xs)" "freed (env s') = freed (env s3)"
      "mset (map m_id out) + all_ids held V (env s') = all_ids held V (env s3)"
    using o(3) unfolding update_ok_def by auto
  have a3: "all_ids held V (env s3) = all_ids held V (env s)" using h3(2) ac(3) by (intro all_ids_same)
  have fr: "freed (env s3) = freed (env s)" by (simp add: e3)
  have fast: "dp_inv inv held V (s'\<lparr>io_pkt_fast := n\<rparr>) (E + entries_of xs)" for n
    using u(1) by (simp add: dp_inv_def heap_st_def heap_mem_def)
  have len: "length out \<le> 1" using o(2) h h3(2) by simp
  have r: "io_serve al m dir i k s = (case out of
      x # ms \<Rightarrow> if m_id x = m_id m \<and> dir AND PROTO_LAYER2 = 0 then Some (io_done (Some (rename_tag x)) [] (s'\<lparr>io_pkt_fast := io_pkt_fast s' + 1\<rparr>))
        else Some (io_done None out s')
    | [] \<Rightarrow> Some (io_done None [] s'))"
    using o(1) unfolding io_serve_def Let_def s3_def [symmetric] by (simp split: list.split)
  show ?thesis
  proof (cases out)
    case Nil
    with r u a3 fr show ?thesis by (auto simp: io_done_def io_back_def)
  next
    case (Cons x ms)
    with len have "out = [x]" by simp
    with r u a3 fr fast show ?thesis
      by (cases "m_id x = m_id m \<and> dir AND PROTO_LAYER2 = 0") (auto simp: io_done_def io_back_def)
  qed
qed


lemma deliver_ok:
  assumes dp: "dp_inv inv held V s E" and i: "i \<in> V" and m: "pkt_ok m" and q: "owns (env s) q i"
    and a: "sk_alg al (env s) k = Some a" and k: "k = si_sched (sis (env s) i)"
    and cf: "\<not> active (env s) i \<longrightarrow> credit_fits (start_credit (link_bw (env s) i) (curr_time (env s))
      (allow_credit (io_fast s) (sk_link (schks (env s) k)) (curr_time (env s)) (sis (env s) i)))"
  shows "io_ok inv held V (m_id m) s (io_deliver a al m dir f q i k s)"
proof -
  have dp0: "inv (env s)" "finite V" "ev_objs E = events_of V (env s)" "\<not> active (env s) i \<longrightarrow> held (env s) i = {#}"
    using dp i by (simp_all add: dp_inv_def)
  obtain r e' where e: "al_enqueue a i q m (env s) = Some (r, e')" "inv e'" "schks e' = schks (env s)" "curr_time e' = curr_time (env s)"
      "\<forall>j. si_core (sis e' j) = si_core (sis (env s) j)" "\<forall>j. j \<noteq> i \<longrightarrow> held e' j = held (env s) j"
    and h: "if r = 0 then held e' i = add_mset m (held (env s) i) \<and> freed e' = freed (env s)
      else held e' i = held (env s) i \<and> freed e' = freed (env s) @ [m]"
    using enq [OF dp0(1) i m q] a k by blast
  have dl: "\<forall>j. si_dline (sis e' j) = si_dline (sis (env s) j)" using e(5) si_core_fields(1) by blast
  have io: "inst_ok e' j = inst_ok (env s) j" "active e' j = active (env s) j" for j
    using inst_ok_core(1,2) [of e' j "env s"] e(3-5) by blast+
  have evs: "events_of V e' = events_of V (env s)" by (rule events_core [OF e(5)])
  have dpe: "dp_inv inv held V (s\<lparr>env := e'\<rparr>) E" if "active e' i \<or> held e' i = {#}"
    using dp e(2,4,6) that by (auto simp: dp_inv_def io evs)
  show ?thesis
  proof (cases "r = 0")
    case False
    define e2 where "e2 = e'\<lparr>io_pkt_drop := io_pkt_drop e' + 1\<rparr>"
    have hh: "held e' = held (env s)" using e(6) h False by auto
    have f2: "inv e2" "held e2 = held e'" using frame [OF e(2), of e2] by (simp_all add: e2_def data_frame_def)
    have "inst_ok e2 j = inst_ok e' j" for j by (simp add: inst_ok_def link_ok_def link_bw_def valid_profile_def e2_def)
    moreover have "events_of V e2 = events_of V e'" by (simp add: events_of_def e2_def)
    ultimately have "dp_inv inv held V (s\<lparr>env := e2\<rparr>) E"
      using dpe f2 dp0(4) io(2) hh by (auto simp: dp_inv_def e2_def)
    moreover have "all_ids held V e2 = all_ids held V (env s)"
    proof (rule all_ids_same)
      show "si_dline (sis e2 j) = si_dline (sis (env s) j)" for j using dl by (simp add: e2_def)
      show "held e2 = held (env s)" using f2(2) hh by simp
    qed
    moreover obtain res where "io_deliver a al m dir f q i k s = Some (res, s\<lparr>env := e2\<rparr>)" "io_back res = {#}"
      using False e(1) by (simp add: io_deliver_def lift_cbo_def io_drop_def Let_def on_env_def e2_def io_back_def)
    moreover have "freed e2 = freed (env s) @ [m]" using h False by (simp add: e2_def)
    ultimately show ?thesis unfolding io_ok_def
      by (intro exI [of _ res] exI [of _ "s\<lparr>env := e2\<rparr>"] exI [of _ E]) simp
  next
    case True
    then have h: "held e' i = add_mset m (held (env s) i)" "freed e' = freed (env s)" using h by simp_all
    have ids: "all_ids held V e' = add_mset (m_id m) (all_ids held V (env s))"
      by (rule all_ids_add [OF dp0(2) i dl e(6) h(1)])
    show ?thesis
    proof (cases "active e' i")
      case act: True
      have "io_deliver a al m dir f q i k s = Some (io_done None [] (s\<lparr>env := e'\<rparr>))"
        using True act e(1) by (simp add: io_deliver_def lift_cbo_def)
      with dpe act ids h(2) show ?thesis by (auto simp: io_ok_def io_done_def io_back_def)
    next
      case na: False
      have d: "io_deliver a al m dir f q i k s = io_serve al m dir i k (s\<lparr>env := e'\<rparr>)"
        using True na e(1) by (simp add: io_deliver_def lift_cbo_def)
      have he: "held (env s) i = {#}" using dp0(4) na io(2) by simp
      have b: "dp_but inv held V i (s\<lparr>env := e'\<rparr>) E"
        using dp i e(2,4,6) by (auto simp: dp_inv_def dp_but_def io)
      have sf: "si_sched (sis e' i) = si_sched (sis (env s) i)" using e(5) si_core_fields(3) by blast
      have "start_credit (link_bw e' i) (curr_time e') (allow_credit (io_fast s) (sk_link (schks e' k)) (curr_time e') (sis e' i)) =
          start_credit (link_bw (env s) i) (curr_time (env s)) (allow_credit (io_fast s) (sk_link (schks (env s) k)) (curr_time (env s)) (sis (env s) i))"
        using si_core_fields [of "sis e' i" "sis (env s) i"] e(3-5)
        by (simp add: start_credit_def allow_credit_def link_bw_def Let_def)
      then have cf': "credit_fits (start_credit (link_bw e' i) (curr_time e') (allow_credit (io_fast s) (sk_link (schks e' k)) (curr_time e') (sis e' i)))"
        using cf na io(2) by simp
      obtain res s' E' where "io_serve al m dir i k (s\<lparr>env := e'\<rparr>) = Some (res, s')" "dp_inv inv held V s' E'"
          "freed (env s') = freed e'" "io_back res + all_ids held V (env s') = all_ids held V e'"
        using deliver_idle [OF b, where m = m and k = k and dir = dir] dp0(3) na he h(1) k cf' sf by (auto simp: evs)
      with d ids h(2) show ?thesis by (auto simp: io_ok_def)
    qed
  qed
qed

end


lemma pkt_ok_tagged: "0 \<le> m_len m \<Longrightarrow> m_len m < 2 ^ 16 \<Longrightarrow> pkt_ok (tagged_pkt m dir fwa t)"
  by (simp add: pkt_ok_def tagged_pkt_def dn_tag_get_def)

lemma io_classify_fifo:
  assumes "sk_alg (\<lambda>_. fifo_desc qa sz) (env s) k = Some a" "sch_flags (sk_sch (schks (env s) k)) AND DN_HAVE_MASK = 0"
    and "siht (schks (env s) k) = OneObj i"
  shows "io_classify (\<lambda>_. fifo_desc qa sz) junk f k idf s = Some (None, Some i, s)"
  using assms by (auto simp: io_classify_def sk_alg_def fifo_desc_def ipdn_si_find_def Let_def)

text \<open>
  The flow has its place: the search for the instance, and for the queue when the algorithm wants one, finds them and
  creates nothing. What the instance has earned since it was served does not overflow its credit.
\<close>

definition flow_found ::
  "'x algs \<Rightarrow> siid set \<Rightarrow> ('x dn_env_scheme \<Rightarrow> qid option \<Rightarrow> siid \<Rightarrow> bool) \<Rightarrow> ipfw_flow_id \<Rightarrow> fsid \<Rightarrow> schid \<Rightarrow> ipfw_flow_id \<Rightarrow>
   'x dn_sys \<Rightarrow> bool" where
  "flow_found al V owns junk f k idf s \<longleftrightarrow> (\<exists>q i a. io_classify al junk f k idf s = Some (q, Some i, s) \<and>
     i \<in> V \<and> si_sched (sis (env s) i) = k \<and> owns (env s) q i \<and> sk_alg al (env s) k = Some a \<and>
     (\<not> active (env s) i \<longrightarrow> credit_fits (start_credit (link_bw (env s) i) (curr_time (env s))
       (allow_credit (io_fast s) (sk_link (schks (env s) k)) (curr_time (env s)) (sis (env s) i)))))"

text \<open>The state once the packet has been counted and its tag allocated.\<close>

definition io_tagged :: "'x dn_sys \<Rightarrow> 'x dn_sys" where
  "io_tagged s = s\<lparr>io_pkt := io_pkt s + 1, mems := \<lambda>n. mems s (Suc n)\<rparr>"

lemma io_tagged_simps [simp]: "env (io_tagged s) = env s" "busy (io_tagged s) = busy s" "io_fast (io_tagged s) = io_fast s"
    "fs_lookup n (io_tagged s) = fs_lookup n s"
  by (simp_all add: io_tagged_def fs_lookup_def split: option.split)

lemma io_tagged_inv: "dp_inv I held V s E \<Longrightarrow> dp_inv I held V (io_tagged s) E"
  by (auto simp: dp_inv_def io_tagged_def heap_st_def heap_mem_def)

context packet_sched
begin

lemma drop_ok:
  assumes dp: "dp_inv inv held V s E"
  shows "\<exists>E'. dp_inv inv held V (s\<lparr>env := FREE_PKT m ((env s)\<lparr>io_pkt_drop := n\<rparr>)\<rparr>) E' \<and>
    all_ids held V (FREE_PKT m ((env s)\<lparr>io_pkt_drop := n\<rparr>)) = all_ids held V (env s)"
proof -
  define e1 where "e1 = (env s)\<lparr>io_pkt_drop := n\<rparr>"
  have "inv (env s)" using dp by (simp add: dp_inv_def)
  then have f1: "inv e1" "held e1 = held (env s)" using frame [of "env s" e1] by (simp_all add: e1_def data_frame_def)
  have f2: "inv (FREE_PKT m e1)" "held (FREE_PKT m e1) = held (env s)" using release [OF f1(1)] f1(2) by simp_all
  have "inst_ok (FREE_PKT m e1) j = inst_ok (env s) j" for j
    by (simp add: inst_ok_def link_ok_def link_bw_def valid_profile_def e1_def FREE_PKT_def)
  moreover have "events_of V (FREE_PKT m e1) = events_of V (env s)" by (simp add: events_of_def e1_def FREE_PKT_def)
  ultimately have "dp_inv inv held V (s\<lparr>env := FREE_PKT m e1\<rparr>) E"
    using dp f2 by (simp add: dp_inv_def) (simp add: e1_def FREE_PKT_def)
  moreover have "all_ids held V (FREE_PKT m e1) = all_ids held V (env s)"
    using f2(2) by (intro all_ids_same) (simp_all add: e1_def FREE_PKT_def)
  ultimately show ?thesis by (auto simp: e1_def)
qed

lemma io_ok_any:
  assumes dp: "dp_inv inv held V s E" and len: "0 \<le> m_len m0" "m_len m0 < 2 ^ 16" and nb: "\<not> (mems s 0 \<and> busy s)"
    and fl: "\<And>f k. mems s 0 \<Longrightarrow> fs_lookup (fs_id_of fwa) s = Some f \<Longrightarrow> fsk_sched (fsks (env s) f) = Some k \<Longrightarrow>
      flow_found al V owns junk f k (fwa_f_id fwa) (io_tagged s)"
  shows "io_ok inv held V (m_id m0) s (dummynet_io al junk m0 dir fwa s)"
proof (cases "mems s 0 \<and> (\<exists>f k. fs_lookup (fs_id_of fwa) s = Some f \<and> fsk_sched (fsks (env s) f) = Some k)")
  case True
  then obtain f k where fk: "mems s 0" "\<not> busy s" "fs_lookup (fs_id_of fwa) s = Some f" "fsk_sched (fsks (env s) f) = Some k"
    using nb by blast
  obtain q i a where c: "io_classify al junk f k (fwa_f_id fwa) (io_tagged s) = Some (q, Some i, io_tagged s)"
      "i \<in> V" "k = si_sched (sis (env (io_tagged s)) i)" "owns (env (io_tagged s)) q i" "sk_alg al (env (io_tagged s)) k = Some a"
      "\<not> active (env (io_tagged s)) i \<longrightarrow> credit_fits (start_credit (link_bw (env (io_tagged s)) i) (curr_time (env (io_tagged s)))
        (allow_credit (io_fast (io_tagged s)) (sk_link (schks (env (io_tagged s)) k)) (curr_time (env (io_tagged s)))
          (sis (env (io_tagged s)) i)))"
    using fl [OF fk(1,3,4)] unfolding flow_found_def by blast
  define m where "m = tagged_pkt m0 dir fwa (curr_time (env s))"
  have m: "m_id m = m_id m0" "pkt_ok m" using pkt_ok_tagged [OF len] by (simp_all add: m_def tagged_pkt_def)
  have t: "tag_mbuf m0 dir fwa (s\<lparr>io_pkt := io_pkt s + 1\<rparr>) = (Some m, io_tagged s)"
    using fk(1) by (simp add: tag_mbuf_eq m_def io_tagged_def)
  have "dummynet_io al junk m0 dir fwa s = io_deliver a al m dir (Some f) q i k (io_tagged s)"
    using fk c(1,5) by (simp add: dummynet_io_def t [simplified] find_fsk_0 io_deliver_def)
  moreover have "io_ok inv held V (m_id m) (io_tagged s) (io_deliver a al m dir (Some f) q i k (io_tagged s))"
    by (rule deliver_ok [OF io_tagged_inv [OF dp] c(2) m(2) c(4,5,3,6)])
  ultimately show ?thesis using m(1) by (simp add: io_ok_def)
next
  case False
  then have d: "\<not> mems s 0 \<or> \<not> busy s \<and> (\<forall>f. fs_lookup (fs_id_of fwa) s = Some f \<longrightarrow> fsk_sched (fsks (env s) f) = None)"
    using nb by auto
  obtain m where io: "dummynet_io al junk m0 dir fwa s =
      Some (\<lparr>io_ret = (if mems s 0 \<and> (\<exists>f. fs_lookup (fs_id_of fwa) s = Some f \<and> fs_flags (fsk_fs (fsks (env s) f)) AND DN_NOERROR \<noteq> 0)
               then 0 else ENOBUFS), io_m0 = None, io_send = []\<rparr>,
            s\<lparr>env := FREE_PKT m ((env s)\<lparr>io_pkt_drop := io_pkt_drop (env s) + 1\<rparr>), mems := \<lambda>n. mems s (Suc n), io_pkt := io_pkt s + 1\<rparr>)"
      "m_id m = m_id m0"
    using dummynet_io_dropped_law [OF d, of al junk m0 dir] by blast
  then obtain res where r: "dummynet_io al junk m0 dir fwa s = Some (res, (io_tagged s)\<lparr>env := FREE_PKT m ((env s)\<lparr>io_pkt_drop := io_pkt_drop (env s) + 1\<rparr>)\<rparr>)"
      "m_id m = m_id m0" "io_back res = {#}"
    by (simp add: io_tagged_def io_back_def)
  obtain E' where "dp_inv inv held V ((io_tagged s)\<lparr>env := FREE_PKT m ((env s)\<lparr>io_pkt_drop := io_pkt_drop (env s) + 1\<rparr>)\<rparr>) E'"
      "all_ids held V (FREE_PKT m ((env s)\<lparr>io_pkt_drop := io_pkt_drop (env s) + 1\<rparr>)) = all_ids held V (env s)"
    using drop_ok [OF io_tagged_inv [OF dp], of m "io_pkt_drop (env s) + 1"] by auto
  with r show ?thesis by (auto simp: io_ok_def FREE_PKT_def)
qed

end

text \<open>C1: A packet that comes in is never lost or duplicated, whatever the algorithm of its scheduler, as long as it keeps the
  contract \<open>packet_sched\<close>. If the configuration is being changed (\<open>busy\<close>), the packet waits in the list of pending packets
  with its tag. Otherwise the packet is queued, on the delay line, handed on, given back to the caller to be sent at once, or
  released, when there is no memory for its tag, no flowset, no scheduler, or the algorithm drops it; every packet that was
  inside before is still there, sent, or released; and the invariant \<open>dp_inv\<close> of the data path holds again, so that the
  packet has an event that will serve it. In particular the case in which the code cuts a chain of packets in the fast path
  does not arise. A flow that has a scheduler has its instance, and its queue, already: their creation is not part of this
  property. The length of the packet fits 16 bits.\<close>

theorem dummynet_io_conserves:
  assumes "packet_sched al V I held owns" "dp_inv I held V s E" "0 \<le> m_len m0" "m_len m0 < 2 ^ 16"
    and "\<And>f k. mems s 0 \<Longrightarrow> fs_lookup (fs_id_of fwa) s = Some f \<Longrightarrow> fsk_sched (fsks (env s) f) = Some k \<Longrightarrow>
      flow_found al V owns junk f k (fwa_f_id fwa) (io_tagged s)"
  shows "\<exists>res s'. dummynet_io al junk m0 dir fwa s = Some (res, s') \<and> (\<exists>E'. dp_inv I held V s' E') \<and>
    (if mems s 0 \<and> busy s
     then res = \<lparr>io_ret = 0, io_m0 = None, io_send = []\<rparr> \<and>
       s' = (io_tagged s)\<lparr>pending := pending s @ [tagged_pkt m0 dir fwa (curr_time (env s))]\<rparr>
     else mset (map m_id (freed (env s'))) + (mset (map m_id (io_send res)) + (case io_m0 res of None \<Rightarrow> {#} | Some m \<Rightarrow> {#m_id m#})) +
         all_ids held V (env s') =
       add_mset (m_id m0) (mset (map m_id (freed (env s))) + all_ids held V (env s)))"
proof (cases "mems s 0 \<and> busy s")
  case True
  define s' where "s' = (io_tagged s)\<lparr>pending := pending s @ [tagged_pkt m0 dir fwa (curr_time (env s))]\<rparr>"
  have "dummynet_io al junk m0 dir fwa s = Some (\<lparr>io_ret = 0, io_m0 = None, io_send = []\<rparr>, s')"
    using True by (simp add: dummynet_io_def tag_mbuf_eq io_tagged_def io_done_def s'_def)
  moreover have "dp_inv I held V s' E"
    using io_tagged_inv [OF assms(2)] by (simp add: dp_inv_def heap_st_def heap_mem_def s'_def)
  ultimately show ?thesis using True unfolding s'_def by auto
next
  case False
  then show ?thesis
    using packet_sched.io_ok_any [OF assms(1,2,3,4) False, of fwa junk dir] assms(5) unfolding io_ok_def io_back_def by auto
qed

text \<open>Pipe 1 with a link of 1000 bits per tick, idle since tick 4.\<close>

definition pipe_env :: dn_env where
  "pipe_env = env_zero\<lparr>curr_time := 9,
     schks := (\<lambda>_. schk_zero)(0 := schk_zero\<lparr>sk_fp := Some 0, siht := OneObj 3, sk_link := link_zero\<lparr>bandwidth := 1000, delay := 5\<rparr>\<rparr>),
     fsks := (\<lambda>_. fsk_zero)(5 := fsk_zero\<lparr>fsk_sched := Some 0, fsk_fs := fs_zero\<lparr>fs_nr := 131073, qsize := 50\<rparr>\<rparr>),
     sis := (\<lambda>_. si_zero)(3 := si_zero\<lparr>idle_time := 4\<rparr>),
     qs := (\<lambda>_. queue_zero)(7 := queue_zero\<lparr>q_si := Some 3, q_fs := Some 5\<rparr>)\<rparr>"

definition pipe_sys :: "unit dn_sys" where
  "pipe_sys = (sys_zero pipe_env)\<lparr>fshash := Some \<lparr>hb_mask = 63, hb_list = (\<lambda>_. [5])\<rparr>\<rparr>"

lemma pipe_sys_ok:
  "dp_inv (fifo_inv {3} (\<lambda>_. 7)) (fifo_held {3} (\<lambda>_. 7)) {3} pipe_sys {#}" "\<not> busy pipe_sys"
  "fs_lookup (fs_id_of pipe_args) pipe_sys = Some 5" "fsk_sched (fsks (env pipe_sys) 5) = Some 0"
  "sch_flags (sk_sch (schks (env pipe_sys) 0)) AND DN_HAVE_MASK = 0" "siht (schks (env pipe_sys) 0) = OneObj 3"
  "si_sched (sis (env pipe_sys) 3) = 0"
  "credit_fits (start_credit (link_bw (env pipe_sys) 3) (curr_time (env pipe_sys))
      (allow_credit (io_fast pipe_sys) (sk_link (schks (env pipe_sys) 0)) (curr_time (env pipe_sys)) (sis (env pipe_sys) 3)))"
proof -
  have e: "env pipe_sys = pipe_env" "hz pipe_sys = 1000" by (simp_all add: pipe_sys_def sys_zero_def)
  have h: "heap_st b pipe_sys {#}" for b
    using heap_st_zero [of b pipe_env] by (simp add: pipe_sys_def heap_st_def)
  have m: "heap_mem n pipe_sys" for n by (simp add: pipe_sys_def sys_zero_def heap_mem_def)
  have "inst_ok pipe_env 3" "fifo_inv {3} (\<lambda>_. 7) pipe_env" "fifo_held {3} (\<lambda>_. 7) pipe_env 3 = {#}" "events_of {3} pipe_env = {}"
    by (simp_all add: inst_ok_def link_ok_def link_bw_def fifo_inv_def fifo_held_def events_of_def pipe_env_def dn_zero_defs
        valid_profile_def extra_small_def)
  with h m show "dp_inv (fifo_inv {3} (\<lambda>_. 7)) (fifo_held {3} (\<lambda>_. 7)) {3} pipe_sys {#}"
    by (simp add: dp_inv_def e)
  show "\<not> busy pipe_sys" by (simp add: pipe_sys_def sys_zero_def)
  have "fs_id_of pipe_args = 131073"
    by (simp add: fs_id_of_def pipe_args_def IPFW_INFO_MASK_def IPFW_IS_PIPE_def DN_MAX_ID_def)
  then show "fs_lookup (fs_id_of pipe_args) pipe_sys = Some 5"
    by (simp add: fs_lookup_def pipe_sys_def sys_zero_def pipe_env_def)
  show "fsk_sched (fsks (env pipe_sys) 5) = Some 0" "sch_flags (sk_sch (schks (env pipe_sys) 0)) AND DN_HAVE_MASK = 0"
      "siht (schks (env pipe_sys) 0) = OneObj 3" "si_sched (sis (env pipe_sys) 3) = 0"
    by (simp_all add: e pipe_env_def dn_zero_defs)
  show "credit_fits (start_credit (link_bw (env pipe_sys) 3) (curr_time (env pipe_sys))
      (allow_credit (io_fast pipe_sys) (sk_link (schks (env pipe_sys) 0)) (curr_time (env pipe_sys)) (sis (env pipe_sys) 3)))"
    by (simp add: e pipe_env_def start_credit_def allow_credit_def link_bw_def credit_fits_def dn_zero_defs
        pipe_sys_def sys_zero_def s64_id)
qed

theorem dummynet_io_conserves_witness:
  "\<exists>res s'. dummynet_io (\<lambda>_. fifo_desc (\<lambda>_. 7) 136) fid_zero (tpkt 8 100 0) DIR_OUT pipe_args pipe_sys = Some (res, s') \<and>
    (\<exists>E'. dp_inv (fifo_inv {3} (\<lambda>_. 7)) (fifo_held {3} (\<lambda>_. 7)) {3} s' E') \<and>
    mset (map m_id (freed (env s'))) + (mset (map m_id (io_send res)) + (case io_m0 res of None \<Rightarrow> {#} | Some m \<Rightarrow> {#m_id m#})) +
      (mset (map m_id (mq (env s') 7)) + mset (map m_id (si_dline (sis (env s') 3)))) = {#8#}"
proof -
  have ps: "packet_sched (\<lambda>_. fifo_desc (\<lambda>_. 7) 136) {3} (fifo_inv {3} (\<lambda>_. 7)) (fifo_held {3} (\<lambda>_. 7)) (\<lambda>_ _ _. True)"
    by (rule fifo_sched.packet_sched_axioms)
  have fl: "flow_found (\<lambda>_. fifo_desc (\<lambda>_. 7) 136) {3} (\<lambda>_ _ _. True) fid_zero f k (fwa_f_id pipe_args) (io_tagged pipe_sys)"
    if "mems pipe_sys 0" "fs_lookup (fs_id_of pipe_args) pipe_sys = Some f" "fsk_sched (fsks (env pipe_sys) f) = Some k" for f k
  proof -
    have "f = 5" "k = 0" using that(2,3) pipe_sys_ok(3,4) by auto
    moreover have a: "sk_alg (\<lambda>_. fifo_desc (\<lambda>_. 7) 136) (env pipe_sys) 0 = Some (fifo_desc (\<lambda>_. 7) 136)"
      by (simp add: sk_alg_def pipe_sys_def sys_zero_def pipe_env_def)
    ultimately show ?thesis using pipe_sys_ok(5-8) io_classify_fifo [OF _ _ pipe_sys_ok(6), of "\<lambda>_. 7" 136]
      unfolding flow_found_def
      by (intro exI [of _ None] exI [of _ 3] exI [of _ "fifo_desc (\<lambda>_. 7) 136"]) (simp add: io_classify_fifo)
  qed
  have pipe_ids: "mq (env pipe_sys) 7 = []" "si_dline (sis (env pipe_sys) 3) = []" "freed (env pipe_sys) = []"
    by (simp_all add: pipe_sys_def sys_zero_def pipe_env_def dn_zero_defs)
  have l: "0 \<le> m_len (tpkt 8 100 0)" "m_len (tpkt 8 100 0) < 2 ^ 16" by simp_all
  have e: "add_mset (m_id (tpkt 8 100 0)) (mset (map m_id (freed (env pipe_sys))) +
      (\<Sum>i\<in>{3}. mset (map m_id (mq (env pipe_sys) 7)) + mset (map m_id (si_dline (sis (env pipe_sys) i))))) = {#8#}"
    by (simp add: pipe_ids)
  have b: "\<not> (mems pipe_sys 0 \<and> busy pipe_sys)" using pipe_sys_ok(2) by simp
  have one: "(\<Sum>i\<in>{3}. f i) = (f 3 :: nat multiset)" for f :: "nat \<Rightarrow> nat multiset" by simp
  from dummynet_io_conserves [OF ps pipe_sys_ok(1) l fl, of DIR_OUT] show ?thesis
    unfolding if_not_P [OF b] all_ids_fifo e unfolding one .
qed

section \<open>A new instance\<close>

text \<open>
  A new instance is marked idle since now, so that the allowance is not computed for its first packet, but its
  time of service is left at zero: the packet is credited with the time since the machine was started.
\<close>

lemma si_new_times:
  assumes "si_new al key k s = Some (Some i, s')" "\<And>a. sk_alg al (env s) k = Some a \<Longrightarrow> al_new_sched a = None"
  shows "sched_time (sis (env s') i) = 0 \<and> idle_time (sis (env s') i) = curr_time (env s') \<and>
    si_credit (sis (env s') i) = sint (burst (sk_link (schks (env s') k)) +
      (if io_fast s then word_of_int (bandwidth (sk_link (schks (env s') k))) else 0)) \<and> si_sched (sis (env s') i) = k"
  using assms by (auto simp: si_new_def k_malloc_def si_reset_credit_def bind_eq_Some_conv si_zero_def Let_def split: if_splits)

lemma first_packet_credit:
  assumes "sched_time r = 0" "idle_time r = now" "0 < bw"
  shows "start_credit bw now (allow_credit fast p now r) = s64 (si_credit r + uint (now * word_of_int bw))"
  using assms by (simp add: allow_credit_def start_credit_def)

end
