(* ===== verification/FwRule.thy ===== *)
theory FwRule
  imports DnTypes "HOL-Library.Monad_Syntax"
begin

text \<open>
  The rules of the packet filter (\<open>sys/netinet/ip_fw.h\<close>): a rule is a header and a sequence of 32-bit words that
  holds instructions one after the other. The first word of an instruction has the opcode in its low byte, in the
  next byte the number of words and two flags, and in the upper half the first argument.
\<close>

section \<open>Instructions\<close>

text \<open>The opcodes are the numbers of the enumeration.\<close>

definition O_NOP :: nat where "O_NOP = 0"
definition O_IP_SRC :: nat where "O_IP_SRC = 1"
definition O_IP_SRC_MASK :: nat where "O_IP_SRC_MASK = 2"
definition O_IP_SRC_ME :: nat where "O_IP_SRC_ME = 3"
definition O_IP_SRC_SET :: nat where "O_IP_SRC_SET = 4"
definition O_IP_DST :: nat where "O_IP_DST = 5"
definition O_IP_DST_MASK :: nat where "O_IP_DST_MASK = 6"
definition O_IP_DST_ME :: nat where "O_IP_DST_ME = 7"
definition O_IP_DST_SET :: nat where "O_IP_DST_SET = 8"
definition O_IP_SRCPORT :: nat where "O_IP_SRCPORT = 9"
definition O_IP_DSTPORT :: nat where "O_IP_DSTPORT = 10"
definition O_PROTO :: nat where "O_PROTO = 11"
definition O_MACADDR2 :: nat where "O_MACADDR2 = 12"
definition O_MAC_TYPE :: nat where "O_MAC_TYPE = 13"
definition O_LAYER2 :: nat where "O_LAYER2 = 14"
definition O_IN :: nat where "O_IN = 15"
definition O_FRAG :: nat where "O_FRAG = 16"
definition O_RECV :: nat where "O_RECV = 17"
definition O_XMIT :: nat where "O_XMIT = 18"
definition O_VIA :: nat where "O_VIA = 19"
definition O_IPOPT :: nat where "O_IPOPT = 20"
definition O_IPLEN :: nat where "O_IPLEN = 21"
definition O_IPID :: nat where "O_IPID = 22"
definition O_IPTOS :: nat where "O_IPTOS = 23"
definition O_IPPRECEDENCE :: nat where "O_IPPRECEDENCE = 24"
definition O_IPTTL :: nat where "O_IPTTL = 25"
definition O_IPVER :: nat where "O_IPVER = 26"
definition O_UID :: nat where "O_UID = 27"
definition O_GID :: nat where "O_GID = 28"
definition O_ESTAB :: nat where "O_ESTAB = 29"
definition O_TCPFLAGS :: nat where "O_TCPFLAGS = 30"
definition O_TCPWIN :: nat where "O_TCPWIN = 31"
definition O_TCPSEQ :: nat where "O_TCPSEQ = 32"
definition O_TCPACK :: nat where "O_TCPACK = 33"
definition O_ICMPTYPE :: nat where "O_ICMPTYPE = 34"
definition O_TCPOPTS :: nat where "O_TCPOPTS = 35"
definition O_VERREVPATH :: nat where "O_VERREVPATH = 36"
definition O_VERSRCREACH :: nat where "O_VERSRCREACH = 37"
definition O_PROBE_STATE :: nat where "O_PROBE_STATE = 38"
definition O_KEEP_STATE :: nat where "O_KEEP_STATE = 39"
definition O_LIMIT :: nat where "O_LIMIT = 40"
definition O_LIMIT_PARENT :: nat where "O_LIMIT_PARENT = 41"
definition O_LOG :: nat where "O_LOG = 42"
definition O_PROB :: nat where "O_PROB = 43"
definition O_CHECK_STATE :: nat where "O_CHECK_STATE = 44"
definition O_ACCEPT :: nat where "O_ACCEPT = 45"
definition O_DENY :: nat where "O_DENY = 46"
definition O_REJECT :: nat where "O_REJECT = 47"
definition O_COUNT :: nat where "O_COUNT = 48"
definition O_SKIPTO :: nat where "O_SKIPTO = 49"
definition O_PIPE :: nat where "O_PIPE = 50"
definition O_QUEUE :: nat where "O_QUEUE = 51"
definition O_DIVERT :: nat where "O_DIVERT = 52"
definition O_TEE :: nat where "O_TEE = 53"
definition O_FORWARD_IP :: nat where "O_FORWARD_IP = 54"
definition O_FORWARD_MAC :: nat where "O_FORWARD_MAC = 55"
definition O_NAT :: nat where "O_NAT = 56"
definition O_REASS :: nat where "O_REASS = 57"
definition O_IPSEC :: nat where "O_IPSEC = 58"
definition O_IP_SRC_LOOKUP :: nat where "O_IP_SRC_LOOKUP = 59"
definition O_IP_DST_LOOKUP :: nat where "O_IP_DST_LOOKUP = 60"
definition O_ANTISPOOF :: nat where "O_ANTISPOOF = 61"
definition O_JAIL :: nat where "O_JAIL = 62"
definition O_ALTQ :: nat where "O_ALTQ = 63"
definition O_DIVERTED :: nat where "O_DIVERTED = 64"
definition O_TCPDATALEN :: nat where "O_TCPDATALEN = 65"
definition O_IP6_SRC :: nat where "O_IP6_SRC = 66"
definition O_IP6_SRC_ME :: nat where "O_IP6_SRC_ME = 67"
definition O_IP6_SRC_MASK :: nat where "O_IP6_SRC_MASK = 68"
definition O_IP6_DST :: nat where "O_IP6_DST = 69"
definition O_IP6_DST_ME :: nat where "O_IP6_DST_ME = 70"
definition O_IP6_DST_MASK :: nat where "O_IP6_DST_MASK = 71"
definition O_FLOW6ID :: nat where "O_FLOW6ID = 72"
definition O_ICMP6TYPE :: nat where "O_ICMP6TYPE = 73"
definition O_EXT_HDR :: nat where "O_EXT_HDR = 74"
definition O_IP6 :: nat where "O_IP6 = 75"
definition O_NETGRAPH :: nat where "O_NETGRAPH = 76"
definition O_NGTEE :: nat where "O_NGTEE = 77"
definition O_IP4 :: nat where "O_IP4 = 78"
definition O_UNREACH6 :: nat where "O_UNREACH6 = 79"
definition O_TAG :: nat where "O_TAG = 80"
definition O_TAGGED :: nat where "O_TAGGED = 81"
definition O_SETFIB :: nat where "O_SETFIB = 82"
definition O_FIB :: nat where "O_FIB = 83"
definition O_SOCKARG :: nat where "O_SOCKARG = 84"
definition O_CALLRETURN :: nat where "O_CALLRETURN = 85"
definition O_FORWARD_IP6 :: nat where "O_FORWARD_IP6 = 86"
definition O_LAST_OPCODE :: nat where "O_LAST_OPCODE = 87"

lemmas op_defs =
  O_NOP_def O_IP_SRC_def O_IP_SRC_MASK_def O_IP_SRC_ME_def O_IP_SRC_SET_def O_IP_DST_def O_IP_DST_MASK_def
  O_IP_DST_ME_def O_IP_DST_SET_def O_IP_SRCPORT_def O_IP_DSTPORT_def O_PROTO_def O_MACADDR2_def O_MAC_TYPE_def
  O_LAYER2_def O_IN_def O_FRAG_def O_RECV_def O_XMIT_def O_VIA_def O_IPOPT_def O_IPLEN_def O_IPID_def O_IPTOS_def
  O_IPPRECEDENCE_def O_IPTTL_def O_IPVER_def O_UID_def O_GID_def O_ESTAB_def O_TCPFLAGS_def O_TCPWIN_def O_TCPSEQ_def
  O_TCPACK_def O_ICMPTYPE_def O_TCPOPTS_def O_VERREVPATH_def O_VERSRCREACH_def O_PROBE_STATE_def O_KEEP_STATE_def
  O_LIMIT_def O_LIMIT_PARENT_def O_LOG_def O_PROB_def O_CHECK_STATE_def O_ACCEPT_def O_DENY_def O_REJECT_def
  O_COUNT_def O_SKIPTO_def O_PIPE_def O_QUEUE_def O_DIVERT_def O_TEE_def O_FORWARD_IP_def O_FORWARD_MAC_def O_NAT_def
  O_REASS_def O_IPSEC_def O_IP_SRC_LOOKUP_def O_IP_DST_LOOKUP_def O_ANTISPOOF_def O_JAIL_def O_ALTQ_def
  O_DIVERTED_def O_TCPDATALEN_def O_IP6_SRC_def O_IP6_SRC_ME_def O_IP6_SRC_MASK_def O_IP6_DST_def O_IP6_DST_ME_def
  O_IP6_DST_MASK_def O_FLOW6ID_def O_ICMP6TYPE_def O_EXT_HDR_def O_IP6_def O_NETGRAPH_def O_NGTEE_def O_IP4_def
  O_UNREACH6_def O_TAG_def O_TAGGED_def O_SETFIB_def O_FIB_def O_SOCKARG_def O_CALLRETURN_def O_FORWARD_IP6_def
  O_LAST_OPCODE_def

definition F_NOT :: u8 where "F_NOT = 0x80"
definition F_OR :: u8 where "F_OR = 0x40"
definition F_LEN_MASK :: u8 where "F_LEN_MASK = 0x3f"

record ipfw_insn =
  opcode :: nat
  in_len :: u8
  arg1 :: nat

text \<open>The structure as it is in a word.\<close>

definition insn_of :: "u32 \<Rightarrow> ipfw_insn" where
  "insn_of w = \<lparr>opcode = unat (ucast w :: u8), in_len = ucast (drop_bit 8 w), arg1 = unat (drop_bit 16 w)\<rparr>"

definition F_LEN :: "ipfw_insn \<Rightarrow> nat" where
  "F_LEN i = unat (in_len i AND F_LEN_MASK)"

abbreviation is_not :: "ipfw_insn \<Rightarrow> bool" where "is_not i \<equiv> in_len i AND F_NOT \<noteq> 0"
abbreviation is_or :: "ipfw_insn \<Rightarrow> bool" where "is_or i \<equiv> in_len i AND F_OR \<noteq> 0"

section \<open>Rules\<close>

text \<open>
  The fields \<open>x_next\<close> and \<open>next_rule\<close> hold the cache of \<open>O_SKIPTO\<close>, numbers stored in pointers. The words behind the
  header are those of the memory the rule is in.
\<close>

record ip_fw =
  x_next :: nat
  next_rule :: nat
  act_ofs :: nat
  cmd_len :: nat
  rulenum :: nat
  fw_set :: nat
  fw_id :: u32
  pcnt :: u64
  bcnt :: u64
  timestamp :: u32
  fw_cmd :: "u32 list"

definition sizeof_ip_fw :: nat where "sizeof_ip_fw = 56"
definition sizeof_ip_fw7 :: nat where "sizeof_ip_fw7 = 48"
definition RULESIZE :: "ip_fw \<Rightarrow> nat" where "RULESIZE r = sizeof_ip_fw + cmd_len r * 4 - 4"
definition RULESIZE7 :: "ip_fw \<Rightarrow> nat" where "RULESIZE7 r = sizeof_ip_fw7 + cmd_len r * 4 - 4"
definition RESVD_SET :: nat where "RESVD_SET = 31"
definition IPFW_DEFAULT_RULE :: nat where "IPFW_DEFAULT_RULE = 65535"
definition IPFW_TABLES_MAX :: nat where "IPFW_TABLES_MAX = 128"

text \<open>A word of a rule, and the instruction at a word; \<open>None\<close> is a read outside the rule.\<close>

definition rd :: "u32 list \<Rightarrow> nat \<Rightarrow> u32 option" where
  "rd ws n = (if n < length ws then Some (ws ! n) else None)"

definition rd_insn :: "u32 list \<Rightarrow> nat \<Rightarrow> ipfw_insn option" where
  "rd_insn ws n = map_option insn_of (rd ws n)"

end
