(* ===== verification/FwChain.thy ===== *)
theory FwChain
  imports FwRule
begin

text \<open>
  The chain of rules of the packet filter and the operations on it (\<open>sys/netinet/ipfw/ip_fw_sockopt.c\<close>, and
  \<open>vnet_ipfw_init\<close> of \<open>ip_fw2.c\<close>): an array of addresses of rules in the order of their numbers, the default rule at
  its end, which is replaced by a new array with every change.
\<close>

section \<open>The chain\<close>

text \<open>The field \<open>has_rules\<close> says that \<open>chain->rules\<close> is not NULL; the number of rules is the length of the map.\<close>

record fw_chain =
  rules :: "nat \<Rightarrow> ip_fw"
  cmap :: "nat list"
  chain_id :: u32
  static_len :: int
  has_rules :: bool
  set_disable :: u32
  autoinc_step :: int
  norule_counter :: u64

abbreviation n_rules :: "fw_chain \<Rightarrow> nat" where
  "n_rules c \<equiv> length (cmap c)"

abbreviation rule_at :: "fw_chain \<Rightarrow> nat \<Rightarrow> ip_fw" where
  "rule_at c i \<equiv> rules c (cmap c ! i)"

definition upd_rule :: "nat \<Rightarrow> (ip_fw \<Rightarrow> ip_fw) \<Rightarrow> fw_chain \<Rightarrow> fw_chain" where
  "upd_rule a f c = c\<lparr>rules := (rules c)(a := f (rules c a))\<rparr>"

lemma upd_rule_simps [simp]:
  "rules (upd_rule a f c) = (rules c)(a := f (rules c a))" "cmap (upd_rule a f c) = cmap c" "chain_id (upd_rule a f c) = chain_id c"
  "static_len (upd_rule a f c) = static_len c" "has_rules (upd_rule a f c) = has_rules c"
  "set_disable (upd_rule a f c) = set_disable c" "autoinc_step (upd_rule a f c) = autoinc_step c"
  "norule_counter (upd_rule a f c) = norule_counter c"
  by (simp_all add: upd_rule_def)

text \<open>The binary search. The map is never empty.\<close>

function find_loop :: "fw_chain \<Rightarrow> nat \<Rightarrow> u32 \<Rightarrow> nat \<Rightarrow> nat \<Rightarrow> nat" where
  "find_loop c key k lo hi =
     (if lo < hi then
        let i = (lo + hi) div 2; r = rule_at c i
        in if rulenum r < key then find_loop c key k (i + 1) hi
           else if key < rulenum r then find_loop c key k lo i
           else if fw_id r < k then find_loop c key k (i + 1) hi
           else find_loop c key k lo i
      else hi)"
  by pat_completeness auto
termination by (relation "measure (\<lambda>(c, key, k, lo, hi). hi - lo)") auto

declare find_loop.simps [simp del]

definition ipfw_find_rule :: "fw_chain \<Rightarrow> nat \<Rightarrow> u32 \<Rightarrow> nat" where
  "ipfw_find_rule c key k = find_loop c key k 0 (n_rules c - 1)"

definition swap_map :: "nat list \<Rightarrow> fw_chain \<Rightarrow> fw_chain" where
  "swap_map m c = c\<lparr>chain_id := chain_id c + 1, cmap := m\<rparr>"

definition EINVAL :: nat where "EINVAL = 22"
definition ENOSPC :: nat where "ENOSPC = 28"

text \<open>
  Adding a rule: \<open>ok1\<close> and \<open>ok2\<close> are the outcomes of the allocations of the rule and of the map, \<open>a\<close> is the address of
  the new rule. The result is the error, the number given to the rule, and the chain.
\<close>

definition bound_step :: "int \<Rightarrow> int" where
  "bound_step s = (if s < 1 then 1 else if 1000 < s then 1000 else s)"

text \<open>The position of the new rule, the number a rule without one gets, and the rule that is stored.\<close>

definition add_position :: "nat \<Rightarrow> fw_chain \<Rightarrow> nat" where
  "add_position n c = ipfw_find_rule c (if n \<noteq> 0 then n + 1 else IPFW_DEFAULT_RULE) 0"

definition auto_number :: "nat list \<Rightarrow> nat \<Rightarrow> fw_chain \<Rightarrow> nat" where
  "auto_number m i c =
     (let n = (if 0 < i then rulenum (rules c (m ! (i - 1))) else 0)
      in if int n < int IPFW_DEFAULT_RULE - autoinc_step c then n + nat (autoinc_step c) else n)"

definition new_rule :: "ip_fw \<Rightarrow> nat \<Rightarrow> u32 \<Rightarrow> ip_fw" where
  "new_rule input n k = input\<lparr>x_next := 0, next_rule := 0, rulenum := n, fw_id := k, pcnt := 0, bcnt := 0, timestamp := 0,
     fw_cmd := take (cmd_len input) (fw_cmd input)\<rparr>"

definition ipfw_add_rule :: "bool \<Rightarrow> bool \<Rightarrow> nat \<Rightarrow> ip_fw \<Rightarrow> fw_chain \<Rightarrow> nat \<times> nat \<times> fw_chain" where
  "ipfw_add_rule ok1 ok2 a input c =
     (if \<not> has_rules c \<or> IPFW_DEFAULT_RULE - 1 < rulenum input then (EINVAL, rulenum input, c)
      else if \<not> ok1 \<or> \<not> ok2 then (ENOSPC, rulenum input, c)
      else
        let c = c\<lparr>autoinc_step := bound_step (autoinc_step c)\<rparr>;
            i = add_position (rulenum input) c;
            m = take i (cmap c) @ a # drop i (cmap c);
            n = (if rulenum input = 0 then auto_number m i c else rulenum input);
            r = new_rule input n (chain_id c + 1);
            c = swap_map m (upd_rule a (\<lambda>_. r) c)
        in (0, n, c\<lparr>static_len := static_len c + int (RULESIZE r)\<rparr>))"

definition keep_rule :: "ip_fw \<Rightarrow> nat \<Rightarrow> nat \<Rightarrow> nat \<Rightarrow> bool" where
  "keep_rule r cmd set1 n \<longleftrightarrow>
     rulenum r = IPFW_DEFAULT_RULE \<or> cmd = 0 \<and> n = 0 \<and> fw_set r = RESVD_SET \<or> \<not> (cmd = 0 \<or> fw_set r = set1) \<or>
     \<not> (cmd = 1 \<or> n = 0 \<or> n = rulenum r)"

text \<open>The range of the rules to delete and their number, for a set and for a number.\<close>

definition del_scan_set :: "fw_chain \<Rightarrow> nat \<Rightarrow> int \<times> nat \<times> nat" where
  "del_scan_set c set1 =
     (case fold (\<lambda>i (start, e, n). if keep_rule (rule_at c i) 1 set1 0 then (start, e, n)
                                else (if start < 0 then int i else start, i, n + 1))
        [0..<n_rules c] (-1, 0, 0) of (start, e, n) \<Rightarrow> (start, e + 1, n))"

function del_scan_num :: "fw_chain \<Rightarrow> nat \<Rightarrow> nat \<Rightarrow> nat \<Rightarrow> nat \<Rightarrow> nat \<Rightarrow> nat \<times> nat" where
  "del_scan_num c cmd set1 num e n =
     (if e < n_rules c \<and> \<not> (0 < num \<and> rulenum (rule_at c e) \<noteq> num)
      then del_scan_num c cmd set1 num (e + 1) (if keep_rule (rule_at c e) cmd set1 num then n else n + 1)
      else (e, n))"
  by pat_completeness auto
termination by (relation "measure (\<lambda>(c, cmd, set1, num, e, n). n_rules c - e)") auto

declare del_scan_num.simps [simp del]

text \<open>
  Deleting the rules of a range that are not kept. \<open>rm\<close> is \<open>ipfw_remove_dyn_children\<close>, \<open>d\<close> the state of the dynamic
  rules. The last result is the list of the rules to free.
\<close>

definition del_range ::
  "(nat \<Rightarrow> 'd \<Rightarrow> 'd) \<Rightarrow> nat \<Rightarrow> nat \<Rightarrow> nat \<Rightarrow> nat \<Rightarrow> nat \<Rightarrow> fw_chain \<Rightarrow> 'd \<Rightarrow> fw_chain \<times> 'd \<times> nat list" where
  "del_range rm cmd set1 num start e c d =
     (let range = drop start (take e (cmap c));
          gone = filter (\<lambda>a. \<not> keep_rule (rules c a) cmd set1 num) range;
          c = swap_map (take start (cmap c) @ filter (\<lambda>a. keep_rule (rules c a) cmd set1 num) range @ drop e (cmap c)) c;
          c = c\<lparr>static_len := static_len c - (\<Sum>a\<leftarrow>gone. int (RULESIZE (rules c a)))\<rparr>
      in (c, fold rm gone d, rev gone))"

text \<open>The sets of all rules but the last, and the commands that change them.\<close>

definition map_sets :: "(ip_fw \<Rightarrow> nat) \<Rightarrow> fw_chain \<Rightarrow> fw_chain" where
  "map_sets f c = fold (\<lambda>a. upd_rule a (\<lambda>r. r\<lparr>fw_set := f r\<rparr>)) (take (n_rules c - 1) (cmap c)) c"

text \<open>The parts of the argument, and the range.\<close>

definition del_num :: "u32 \<Rightarrow> nat" where "del_num arg = unat (arg AND 0xffff)"
definition del_cmd :: "u32 \<Rightarrow> nat" where "del_cmd arg = unat (drop_bit 24 arg AND 0xff)"
definition del_set :: "u32 \<Rightarrow> nat" where "del_set arg = unat (drop_bit 16 arg AND 0xff)"

definition del_search :: "fw_chain \<Rightarrow> nat \<Rightarrow> nat \<Rightarrow> nat \<Rightarrow> nat \<times> nat \<times> nat" where
  "del_search c cmd set1 num =
     (if cmd = 1 then (case del_scan_set c set1 of (start, e, n) \<Rightarrow> (nat start, e, n))
      else let start = ipfw_find_rule c num 0 in (start, del_scan_num c cmd set1 num start 0))"

definition del_entry :: "(nat \<Rightarrow> 'd \<Rightarrow> 'd) \<Rightarrow> bool \<Rightarrow> u32 \<Rightarrow> fw_chain \<Rightarrow> 'd \<Rightarrow> nat \<times> fw_chain \<times> 'd \<times> nat list" where
  "del_entry rm ok arg c d =
     (let num = del_num arg; cmd = del_cmd arg; new_set = del_set arg in
      if 5 < cmd \<or> RESVD_SET < new_set then (EINVAL, c, d, [])
      else if (cmd = 0 \<or> cmd = 2 \<or> cmd = 5) \<and> IPFW_DEFAULT_RULE \<le> num then (EINVAL, c, d, [])
      else if \<not> (cmd = 0 \<or> cmd = 2 \<or> cmd = 5) \<and> RESVD_SET < num then (EINVAL, c, d, [])
      else if cmd = 0 \<or> cmd = 1 \<or> cmd = 5 then
        let set1 = (if cmd = 1 then num else new_set)
        in case del_search c cmd set1 num of (start, e, n) \<Rightarrow>
           if n = 0 then (if arg = 0 then 0 else EINVAL, c, d, [])
           else if \<not> ok then (EINVAL, c, d, [])
           else (0, del_range rm cmd set1 num start e c d)
      else if cmd = 2 then (0, map_sets (\<lambda>r. if rulenum r = num then new_set else fw_set r) c, d, [])
      else if cmd = 3 then (0, map_sets (\<lambda>r. if fw_set r = num then new_set else fw_set r) c, d, [])
      else (0, map_sets (\<lambda>r. if fw_set r = num then new_set else if fw_set r = new_set then num else fw_set r) c, d, []))"

text \<open>Counters. A log instruction starts with the opcode, the limit is in the next word, what is left in the third.\<close>

definition clear_counters :: "bool \<Rightarrow> ip_fw \<Rightarrow> ip_fw option" where
  "clear_counters log_only r = do {
     i \<leftarrow> rd_insn (fw_cmd r) (act_ofs r);
     let r = (if log_only then r else r\<lparr>bcnt := 0, pcnt := 0, timestamp := 0\<rparr>);
     if opcode i = O_LOG then do {
       mx \<leftarrow> rd (fw_cmd r) (act_ofs r + 1);
       _ \<leftarrow> rd (fw_cmd r) (act_ofs r + 2);
       Some (r\<lparr>fw_cmd := (fw_cmd r)[act_ofs r + 2 := mx]\<rparr>)
     } else Some r
   }"

fun clear_rules :: "(ip_fw \<Rightarrow> bool) \<Rightarrow> bool \<Rightarrow> nat list \<Rightarrow> fw_chain \<Rightarrow> fw_chain option" where
  "clear_rules P log_only [] c = Some c"
| "clear_rules P log_only (a # as) c =
     (if P (rules c a) then do {
        r \<leftarrow> clear_counters log_only (rules c a);
        clear_rules P log_only as (upd_rule a (\<lambda>_. r) c)
      } else clear_rules P log_only as c)"

definition zero_entry :: "u32 \<Rightarrow> bool \<Rightarrow> fw_chain \<Rightarrow> (nat \<times> fw_chain) option" where
  "zero_entry arg log_only c =
     (let num = unat (arg AND 0xffff); set1 = unat (drop_bit 16 arg AND 0xff); cmd = unat (drop_bit 24 arg AND 0xff) in
      if 1 < cmd then Some (EINVAL, c)
      else if cmd = 1 \<and> RESVD_SET < set1 then Some (EINVAL, c)
      else if num = 0 then
        map_option (Pair 0) (clear_rules (\<lambda>r. \<not> (cmd = 1 \<and> fw_set r \<noteq> set1)) log_only (cmap c) (c\<lparr>norule_counter := 0\<rparr>))
      else
        let upto = takeWhile (\<lambda>a. rulenum (rules c a) \<le> num) (cmap c) in
        if \<not> list_ex (\<lambda>a. rulenum (rules c a) = num) upto then Some (EINVAL, c)
        else map_option (Pair 0) (clear_rules (\<lambda>r. rulenum r = num \<and> (cmd = 0 \<or> fw_set r = set1)) log_only upto c))"

text \<open>Sets are enabled and disabled; the reserved one is always enabled.\<close>

definition set_enable :: "u32 \<Rightarrow> u32 \<Rightarrow> fw_chain \<Rightarrow> fw_chain" where
  "set_enable dis en c = c\<lparr>set_disable := (set_disable c OR dis) AND NOT en AND NOT (push_bit RESVD_SET 1)\<rparr>"

text \<open>The chain at the start: the default rule, at address \<open>a\<close>, accepts or denies.\<close>

definition default_rule :: "bool \<Rightarrow> ip_fw" where
  "default_rule acc = \<lparr>x_next = 0, next_rule = 0, act_ofs = 0, cmd_len = 1, rulenum = IPFW_DEFAULT_RULE, fw_set = RESVD_SET,
     fw_id = 1, pcnt = 0, bcnt = 0, timestamp = 0, fw_cmd = [push_bit 8 1 OR of_nat (if acc then O_ACCEPT else O_DENY)]\<rparr>"

definition vnet_ipfw_init :: "bool \<Rightarrow> nat \<Rightarrow> u32 \<Rightarrow> fw_chain" where
  "vnet_ipfw_init acc a dis =
     \<lparr>rules = (\<lambda>_. default_rule acc), cmap = [a], chain_id = 1, static_len = int sizeof_ip_fw, has_rules = True,
      set_disable = dis, autoinc_step = 100, norule_counter = 0\<rparr>"

end
