(* ===== verification/FwChainOk.thy ===== *)
theory FwChainOk
  imports FwChain
begin

text \<open>
  The invariant of the chain: rules in the order of their numbers and, with the same number, of their identifiers,
  with the default rule at the end. The search finds the first rule from a number on; adding and deleting keep
  the order, and deleting with the optimised search is the plain filter of the chain.
\<close>

section \<open>The order\<close>

definition before :: "nat \<Rightarrow> u32 \<Rightarrow> ip_fw \<Rightarrow> bool" where
  "before key k r \<longleftrightarrow> rulenum r < key \<or> rulenum r = key \<and> fw_id r < k"

definition rule_less :: "ip_fw \<Rightarrow> ip_fw \<Rightarrow> bool" where
  "rule_less r s \<longleftrightarrow> before (rulenum s) (fw_id s) r"

definition chain_ok :: "fw_chain \<Rightarrow> bool" where
  "chain_ok c \<longleftrightarrow> cmap c \<noteq> [] \<and> distinct (cmap c) \<and> sorted_wrt (\<lambda>a b. rule_less (rules c a) (rules c b)) (cmap c) \<and>
     rulenum (rules c (last (cmap c))) = IPFW_DEFAULT_RULE \<and> (\<forall>a\<in>set (butlast (cmap c)). rulenum (rules c a) < IPFW_DEFAULT_RULE) \<and>
     (\<forall>a\<in>set (cmap c). fw_id (rules c a) \<le> chain_id c)"

lemma before_mono: "before key k s \<Longrightarrow> rule_less r s \<Longrightarrow> before key k r"
  by (auto simp: before_def rule_less_def)

lemma rule_less_at: "chain_ok c \<Longrightarrow> i < j \<Longrightarrow> j < n_rules c \<Longrightarrow> rule_less (rule_at c i) (rule_at c j)"
  by (auto simp: chain_ok_def sorted_wrt_iff_nth_less)

section \<open>Search\<close>

lemma find_loop_step:
  "find_loop c key k lo hi =
     (if lo < hi then
        if before key k (rule_at c ((lo + hi) div 2)) then find_loop c key k ((lo + hi) div 2 + 1) hi
        else find_loop c key k lo ((lo + hi) div 2)
      else hi)"
  by (subst find_loop.simps) (auto simp: before_def Let_def)

definition first_at :: "fw_chain \<Rightarrow> nat \<Rightarrow> u32 \<Rightarrow> nat \<Rightarrow> bool" where
  "first_at c key k j \<longleftrightarrow> j < n_rules c \<and> (\<forall>i<j. before key k (rule_at c i)) \<and>
     (j < n_rules c - 1 \<longrightarrow> \<not> before key k (rule_at c j))"

lemma find_loop_first:
  assumes ok: "chain_ok c"
  shows "lo \<le> hi \<Longrightarrow> hi < n_rules c \<Longrightarrow> \<forall>i<lo. before key k (rule_at c i) \<Longrightarrow>
    hi < n_rules c - 1 \<longrightarrow> \<not> before key k (rule_at c hi) \<Longrightarrow> first_at c key k (find_loop c key k lo hi)"
proof (induction "hi - lo" arbitrary: lo hi rule: less_induct)
  case less
  define i where "i = (lo + hi) div 2"
  show ?case
  proof (cases "lo < hi")
    case False
    then have "find_loop c key k lo hi = hi" by (subst find_loop_step) simp
    then show ?thesis using less.prems False by (auto simp: first_at_def)
  next
    case True
    then have i: "lo \<le> i" "i < hi" by (auto simp: i_def)
    show ?thesis
    proof (cases "before key k (rule_at c i)")
      case b: True
      have "before key k (rule_at c j)" if "j < i + 1" for j
        using b before_mono [OF b rule_less_at [OF ok, of j i]] that i less.prems(2) by (cases "j = i") auto
      then have "first_at c key k (find_loop c key k (i + 1) hi)"
        using i less.prems by (intro less.hyps) auto
      then show ?thesis using True b by (subst find_loop_step) (simp add: i_def)
    next
      case b: False
      then have "first_at c key k (find_loop c key k lo i)"
        using i less.prems by (intro less.hyps) auto
      then show ?thesis using True b by (subst find_loop_step) (simp add: i_def)
    qed
  qed
qed

lemma find_rule_first: "chain_ok c \<Longrightarrow> first_at c key k (ipfw_find_rule c key k)"
  unfolding ipfw_find_rule_def by (rule find_loop_first) (auto simp: chain_ok_def)

lemma first_at_unique: "first_at c key k i \<Longrightarrow> first_at c key k j \<Longrightarrow> i = j"
proof -
  have "\<not> i < j" if "first_at c key k i" "first_at c key k j" for i j
  proof
    assume "i < j"
    then have "before key k (rule_at c i)" "i < n_rules c - 1" using that by (auto simp: first_at_def)
    then show False using that(1) by (simp add: first_at_def)
  qed
  then show "first_at c key k i \<Longrightarrow> first_at c key k j \<Longrightarrow> i = j" by (meson linorder_neqE_nat)
qed

text \<open>A rule of the chain is found by its number and identifier.\<close>

lemma find_rule_exact:
  assumes ok: "chain_ok c" and j: "j < n_rules c"
  shows "ipfw_find_rule c (rulenum (rule_at c j)) (fw_id (rule_at c j)) = j"
proof (rule first_at_unique [OF find_rule_first [OF ok]])
  show "first_at c (rulenum (rule_at c j)) (fw_id (rule_at c j)) j"
    using j rule_less_at [OF ok _ j] by (auto simp: first_at_def before_def rule_less_def)
qed

text \<open>The binary search finds in a chain the first rule that is not before a number and identifier, and the default rule
  when all others are before it; it never leaves the array.\<close>

theorem find_rule_least:
  assumes "chain_ok c"
  shows "ipfw_find_rule c key k < n_rules c \<and> (\<forall>i<ipfw_find_rule c key k. before key k (rule_at c i)) \<and>
    (ipfw_find_rule c key k < n_rules c - 1 \<longrightarrow> \<not> before key k (rule_at c (ipfw_find_rule c key k)))"
  using find_rule_first [OF assms] by (simp add: first_at_def)

section \<open>Adding\<close>

lemma chain_ok_default: "chain_ok c \<Longrightarrow> j < n_rules c \<Longrightarrow> rulenum (rule_at c j) = IPFW_DEFAULT_RULE \<longleftrightarrow> j = n_rules c - 1"
proof -
  assume ok: "chain_ok c" and j: "j < n_rules c"
  have "j < n_rules c - 1 \<Longrightarrow> cmap c ! j \<in> set (butlast (cmap c))" using nth_mem [of j "butlast (cmap c)"] by (simp add: nth_butlast)
  moreover have "j \<noteq> n_rules c - 1 \<Longrightarrow> j < n_rules c - 1" using j by linarith
  ultimately show ?thesis using ok j by (cases "j = n_rules c - 1") (auto simp: chain_ok_def last_conv_nth)
qed

lemma sorted_insert:
  assumes "sorted_wrt P xs" "i \<le> length xs" "\<forall>j<i. P (xs ! j) a" "\<forall>j. i \<le> j \<and> j < length xs \<longrightarrow> P a (xs ! j)"
  shows "sorted_wrt P (take i xs @ a # drop i xs)"
proof -
  have "P x a" if "x \<in> set (take i xs)" for x using that assms(2,3) by (auto simp: in_set_conv_nth)
  moreover have "P a x" if "x \<in> set (drop i xs)" for x using that assms(2,4) by (auto simp: in_set_conv_nth)
  moreover have "P x y" if "x \<in> set (take i xs)" "y \<in> set (drop i xs)" for x y
    using assms(1) that by (metis append_take_drop_id sorted_wrt_append)
  ultimately show ?thesis using assms(1) by (auto simp: sorted_wrt_append sorted_wrt_take sorted_wrt_drop)
qed

lemma next_id: "k \<noteq> - 1 \<Longrightarrow> k < k + (1 :: u32)"
proof -
  assume "k \<noteq> - 1"
  then have "1 + k \<noteq> 0" by (metis add.commute eq_neg_iff_add_eq_0)
  from unatSuc [OF this] show ?thesis by (simp add: word_less_nat_alt add.commute)
qed

lemma insert_ok:
  assumes ok: "chain_ok c" and a: "a \<notin> set (cmap c)" and i: "i < n_rules c" and k: "chain_id c \<noteq> - 1"
    and lo: "\<forall>j<i. rulenum (rule_at c j) \<le> rulenum r"
    and hi: "\<forall>j. i \<le> j \<and> j < n_rules c \<longrightarrow> rulenum r < rulenum (rule_at c j)"
    and r: "fw_id r = chain_id c + 1"
  shows "chain_ok (swap_map (take i (cmap c) @ a # drop i (cmap c)) (upd_rule a (\<lambda>_. r) c))"
proof -
  define R where "R = (rules c)(a := r)"
  define m where "m = take i (cmap c) @ a # drop i (cmap c)"
  have R: "R b = rules c b" if "b \<in> set (cmap c)" for b using that a by (auto simp: R_def)
  have ids: "fw_id (rules c b) < fw_id r" if "b \<in> set (cmap c)" for b
    using that ok next_id [OF k] by (auto simp: chain_ok_def r intro: le_less_trans)
  have "sorted_wrt (\<lambda>a b. rule_less (rules c a) (rules c b)) (cmap c)" using ok by (simp add: chain_ok_def)
  then have "sorted_wrt (\<lambda>a b. rule_less (R a) (R b)) (cmap c)"
    by (rule sorted_wrt_mono_rel [rotated]) (simp add: R)
  then have "sorted_wrt (\<lambda>a b. rule_less (R a) (R b)) m" unfolding m_def
  proof (rule sorted_insert)
    show "\<forall>j<i. rule_less (R (cmap c ! j)) (R a)"
      using lo ids i by (auto simp: R) (auto simp: R_def rule_less_def before_def le_less)
    show "\<forall>j. i \<le> j \<and> j < length (cmap c) \<longrightarrow> rule_less (R a) (R (cmap c ! j))"
      using hi by (auto simp: R) (auto simp: R_def rule_less_def before_def)
  qed (use i in simp)
  moreover have "distinct m" using ok a by (auto simp: m_def chain_ok_def dest: in_set_takeD in_set_dropD)
      (metis append_take_drop_id disjoint_iff distinct_append)
  moreover have l: "last m = last (cmap c)" "drop i (cmap c) \<noteq> []" "set m = insert a (set (cmap c))"
    using i by (auto simp: m_def dest: in_set_takeD in_set_dropD) (metis append_take_drop_id in_set_conv_decomp_last UnE set_append)
  moreover have "last (cmap c) \<in> set (cmap c)" using ok by (simp add: chain_ok_def)
  moreover have "butlast m = take i (cmap c) @ a # butlast (drop i (cmap c))" using l(2) by (simp add: m_def butlast_append)
  moreover have "set (take i (cmap c)) \<union> set (butlast (drop i (cmap c))) = set (butlast (cmap c))"
    by (metis append_take_drop_id butlast_append l(2) set_append)
  moreover have e: "n_rules c - 1 < n_rules c" "i \<le> n_rules c - 1" using i by linarith+
  moreover have "rulenum r < IPFW_DEFAULT_RULE" using hi chain_ok_default [OF ok e(1)] e by metis
  moreover have "m \<noteq> []" by (simp add: m_def)
  ultimately have "chain_ok (c\<lparr>rules := R, chain_id := chain_id c + 1, cmap := m\<rparr>)"
    using ok ids by (auto simp: chain_ok_def R less_imp_le r) (auto simp: R_def r a less_imp_le)
  then show ?thesis by (simp add: swap_map_def upd_rule_def R_def m_def)
qed

lemma find_rule_bounds:
  assumes ok: "chain_ok c" and i: "i = ipfw_find_rule c key 0"
  shows "i < n_rules c" "\<forall>j<i. rulenum (rule_at c j) < key" "key \<le> IPFW_DEFAULT_RULE \<Longrightarrow> i \<le> j \<Longrightarrow> j < n_rules c \<Longrightarrow> key \<le> rulenum (rule_at c j)"
proof -
  have f: "first_at c key 0 i" using find_rule_first [OF ok] i by simp
  then show "i < n_rules c" "\<forall>j<i. rulenum (rule_at c j) < key" by (auto simp: first_at_def before_def)
  assume key: "key \<le> IPFW_DEFAULT_RULE" and j: "i \<le> j" "j < n_rules c"
  have "key \<le> rulenum (rule_at c i)"
  proof (cases "i = n_rules c - 1")
    case True
    then show ?thesis using chain_ok_default [OF ok, of i] f key by (simp add: first_at_def)
  next
    case False
    then show ?thesis using f by (auto simp: first_at_def before_def)
  qed
  moreover have "i < j \<Longrightarrow> rulenum (rule_at c i) \<le> rulenum (rule_at c j)"
    using rule_less_at [OF ok, of i j] j by (auto simp: rule_less_def before_def)
  ultimately show "key \<le> rulenum (rule_at c j)" using j by (cases "i = j") auto
qed

lemma chain_ok_step: "chain_ok (c\<lparr>autoinc_step := n\<rparr>) = chain_ok c" "chain_ok (c\<lparr>static_len := l\<rparr>) = chain_ok c"
  by (simp_all add: chain_ok_def)

lemma find_loop_cong: "rules c = rules c' \<Longrightarrow> cmap c = cmap c' \<Longrightarrow> find_loop c key k lo hi = find_loop c' key k lo hi"
proof (induction "hi - lo" arbitrary: lo hi rule: less_induct)
  case less
  show ?case
    by (subst (1 2) find_loop_step) (use less in auto)
qed

lemma find_rule_cong: "rules c = rules c' \<Longrightarrow> cmap c = cmap c' \<Longrightarrow> ipfw_find_rule c key k = ipfw_find_rule c' key k"
  by (simp add: ipfw_find_rule_def find_loop_cong [of c c'])

lemma add_rule_law:
  assumes ok: "chain_ok c" and a: "a \<notin> set (cmap c)" and k: "chain_id c \<noteq> - 1"
    and add: "ipfw_add_rule ok1 ok2 a input c = (0, n, c')"
  shows "chain_ok c' \<and> (\<exists>i<n_rules c. cmap c' = take i (cmap c) @ a # drop i (cmap c) \<and>
      (\<forall>j<i. rulenum (rule_at c j) \<le> n) \<and> (\<forall>j. i \<le> j \<and> j < n_rules c \<longrightarrow> n < rulenum (rule_at c j)) \<and>
      (rulenum input = 0 \<longrightarrow> i = n_rules c - 1)) \<and>
    rulenum (rules c' a) = n \<and> fw_id (rules c' a) = chain_id c + 1 \<and> pcnt (rules c' a) = 0 \<and> bcnt (rules c' a) = 0 \<and>
    (rulenum input \<noteq> 0 \<longrightarrow> n = rulenum input) \<and> (\<forall>b. b \<noteq> a \<longrightarrow> rules c' b = rules c b)"
proof -
  define c1 where "c1 = c\<lparr>autoinc_step := bound_step (autoinc_step c)\<rparr>"
  define key where "key = (if rulenum input \<noteq> 0 then rulenum input + 1 else IPFW_DEFAULT_RULE)"
  define i where "i = ipfw_find_rule c key 0"
  define m where "m = take i (cmap c) @ a # drop i (cmap c)"
  define p where "p = (if 0 < i then rulenum (rules c (m ! (i - 1))) else 0)"
  define num where "num = (if rulenum input = 0 then auto_number m i c1 else rulenum input)"
  define r where "r = new_rule input num (chain_id c + 1)"
  have ok1: "chain_ok c1" and c1: "cmap c1 = cmap c" "chain_id c1 = chain_id c" "rules c1 = rules c"
    using ok by (simp_all add: c1_def chain_ok_step)
  have "has_rules c \<and> \<not> IPFW_DEFAULT_RULE - 1 < rulenum input \<and> ok1 \<and> ok2"
    using add by (auto simp: ipfw_add_rule_def EINVAL_def ENOSPC_def split: if_splits)
  then have le: "rulenum input \<le> IPFW_DEFAULT_RULE - 1" and g: "\<not> (\<not> has_rules c \<or> IPFW_DEFAULT_RULE - 1 < rulenum input)" "\<not> (\<not> ok1 \<or> \<not> ok2)"
    by simp_all
  have find: "add_position (rulenum input) c1 = i"
    unfolding i_def add_position_def key_def [symmetric] by (rule find_rule_cong) (simp_all add: c1)
  have "ipfw_add_rule ok1 ok2 a input c =
      (0, num, (swap_map m (upd_rule a (\<lambda>_. r) c1))\<lparr>static_len := static_len (swap_map m (upd_rule a (\<lambda>_. r) c1)) + int (RULESIZE r)\<rparr>)"
    unfolding ipfw_add_rule_def if_not_P [OF g(1)] if_not_P [OF g(2)] Let_def c1_def [symmetric] find c1 m_def [symmetric]
      num_def [symmetric] r_def [symmetric] ..
  then have res: "n = num" "c' = (swap_map m (upd_rule a (\<lambda>_. r) c1))\<lparr>static_len := static_len (swap_map m (upd_rule a (\<lambda>_. r) c1)) + int (RULESIZE r)\<rparr>"
    using add by (metis prod.inject)+
  have num_def: "num = (if rulenum input = 0 then if int p < int IPFW_DEFAULT_RULE - bound_step (autoinc_step c)
      then p + nat (bound_step (autoinc_step c)) else p else rulenum input)"
    by (simp add: num_def auto_number_def Let_def p_def c1 c1_def)
  have r_fields: "rulenum r = num" "fw_id r = chain_id c + 1" "pcnt r = 0" "bcnt r = 0" by (simp_all add: r_def new_rule_def)
  have i: "i < n_rules c" "\<forall>j<i. rulenum (rule_at c j) < key"
      "\<And>j. i \<le> j \<Longrightarrow> j < n_rules c \<Longrightarrow> key \<le> rulenum (rule_at c j)"
    using find_rule_bounds [OF ok i_def] le by (auto simp: key_def IPFW_DEFAULT_RULE_def)
  have last: "i = n_rules c - 1" if "rulenum input = 0"
  proof (rule ccontr)
    assume "i \<noteq> n_rules c - 1"
    then have "i < n_rules c - 1" "n_rules c - 1 < n_rules c" using i(1) by linarith+
    then show False
      using i(3) [of i] that chain_ok_default [OF ok i(1)] rule_less_at [OF ok, of i "n_rules c - 1"]
        chain_ok_default [OF ok, of "n_rules c - 1"] i(1) by (auto simp: key_def rule_less_def before_def)
  qed
  have p: "rulenum input = 0 \<Longrightarrow> p < IPFW_DEFAULT_RULE \<and> (\<forall>j<i. rulenum (rule_at c j) \<le> p)"
  proof
    assume z: "rulenum input = 0"
    have m: "m ! (i - 1) = cmap c ! (i - 1)" if "0 < i" using that i(1) by (simp add: m_def nth_append)
    show "p < IPFW_DEFAULT_RULE" using i(2) m z by (auto simp: p_def key_def IPFW_DEFAULT_RULE_def)
    have "rulenum (rule_at c j) \<le> rulenum (rule_at c (i - 1))" if "j < i" for j
    proof (cases "j = i - 1")
      case False
      then have "j < i - 1" "i - 1 < n_rules c" using that i(1) by linarith+
      from rule_less_at [OF ok this] show ?thesis by (auto simp: rule_less_def before_def)
    qed simp
    then show "\<forall>j<i. rulenum (rule_at c j) \<le> p" using m by (auto simp: p_def)
  qed
  have num0: "rulenum input = 0 \<Longrightarrow> num < IPFW_DEFAULT_RULE \<and> p \<le> num \<and> (\<forall>j<i. rulenum (rule_at c j) \<le> num)"
    using p by (auto simp: num_def bound_step_def intro: le_trans)
  have num: "\<forall>j<i. rulenum (rule_at c j) \<le> num" "\<forall>j. i \<le> j \<and> j < n_rules c \<longrightarrow> num < rulenum (rule_at c j)"
    using i num0 by (auto simp: key_def num_def split: if_splits) (fastforce simp: num_def)+
  have "chain_ok (swap_map m (upd_rule a (\<lambda>_. r) c1))"
    unfolding m_def using insert_ok [OF ok1, of a i r] a i(1) k num by (simp add: c1 r_fields)
  then have "chain_ok c'" by (simp add: res chain_ok_step)
  moreover have "cmap c' = m" "rules c' = (rules c)(a := r)" by (simp_all add: res swap_map_def c1)
  ultimately show ?thesis using i(1) num last r_fields num_def by (auto simp: res(1) m_def)
qed

text \<open>C23: Adding a rule keeps the chain in order with the default rule last. The new rule comes after all rules with its number
  or a smaller one and before all others; it has a new identifier and cleared counters; without a number it gets
  one, by which it comes right before the default rule; the rules that were there stay as they were.\<close>

theorem add_rule_ordered:
  assumes ok: "chain_ok c" and a: "a \<notin> set (cmap c)" and k: "chain_id c \<noteq> - 1"
    and add: "ipfw_add_rule ok1 ok2 a input c = (0, n, c')"
  shows "chain_ok c' \<and> (\<exists>i<n_rules c. cmap c' = take i (cmap c) @ a # drop i (cmap c) \<and>
      (\<forall>j<i. rulenum (rule_at c j) \<le> n) \<and> (\<forall>j. i \<le> j \<and> j < n_rules c \<longrightarrow> n < rulenum (rule_at c j)) \<and>
      (rulenum input = 0 \<longrightarrow> i = n_rules c - 1)) \<and>
    rulenum (rules c' a) = n \<and> fw_id (rules c' a) = chain_id c + 1 \<and> pcnt (rules c' a) = 0 \<and> bcnt (rules c' a) = 0 \<and>
    (rulenum input \<noteq> 0 \<longrightarrow> n = rulenum input) \<and> (\<forall>b. b \<noteq> a \<longrightarrow> rules c' b = rules c b)"
  using assms by (rule add_rule_law)

text \<open>An example: two rules with numbers 100 and 200 before the default rule.\<close>

definition ex_chain :: fw_chain where
  "ex_chain = \<lparr>rules = (\<lambda>a. (default_rule True)\<lparr>rulenum := (if a = 0 then IPFW_DEFAULT_RULE else 100 * a), fw_set := (if a = 0 then RESVD_SET else 0),
       fw_id := of_nat a + 1\<rparr>), cmap = [1, 2, 0], chain_id = 3, static_len = 168, has_rules = True, set_disable = 0, autoinc_step = 100,
       norule_counter = 0\<rparr>"

lemma ex_chain_ok: "chain_ok ex_chain"
  by (simp add: chain_ok_def ex_chain_def rule_less_def before_def default_rule_def IPFW_DEFAULT_RULE_def)

lemma ex_simps: "has_rules ex_chain" "cmap ex_chain = [1, 2, 0]" "autoinc_step ex_chain = 100" "chain_id ex_chain = 3"
  by (simp_all add: ex_chain_def)

theorem find_rule_least_witness:
  "ipfw_find_rule ex_chain 150 0 < 3 \<and> (\<forall>i<ipfw_find_rule ex_chain 150 0. before 150 0 (rule_at ex_chain i))"
  using find_rule_least [OF ex_chain_ok, of 150 0] by (simp add: ex_chain_def)

theorem add_rule_ordered_witness:
  "\<exists>c'. ipfw_add_rule True True 7 ((default_rule True)\<lparr>rulenum := 150\<rparr>) ex_chain = (0, 150, c') \<and> chain_ok c' \<and> cmap c' = [1, 7, 2, 0]"
proof -
  have f: "ipfw_find_rule ex_chain 151 0 = Suc 0"
    by (rule first_at_unique [OF find_rule_first [OF ex_chain_ok]])
      (auto simp: first_at_def ex_chain_def before_def default_rule_def IPFW_DEFAULT_RULE_def numeral_2_eq_2 less_Suc_eq)
  have f': "ipfw_find_rule (ex_chain\<lparr>autoinc_step := x\<rparr>) 151 0 = Suc 0" for x
    using f find_rule_cong [of "ex_chain\<lparr>autoinc_step := x\<rparr>" ex_chain 151 0] by simp
  obtain c' where c': "ipfw_add_rule True True 7 ((default_rule True)\<lparr>rulenum := 150\<rparr>) ex_chain = (0, 150, c')" "cmap c' = [1, 7, 2, 0]"
    by (simp add: ipfw_add_rule_def add_position_def new_rule_def Let_def f' ex_simps swap_map_def IPFW_DEFAULT_RULE_def default_rule_def)
  have "7 \<notin> set (cmap ex_chain)" "chain_id ex_chain \<noteq> - 1" by (simp_all add: ex_chain_def)
  from add_rule_ordered [OF ex_chain_ok this c'(1)] c' show ?thesis by blast
qed

end
