(* ===== verification/FwDelOk.thy ===== *)
theory FwDelOk
  imports FwChainOk
begin

text \<open>
  Deleting rules. The code looks for the range of the rules to delete, by a scan for sets and by the binary search for
  numbers, and copies what is before it, what it keeps of it, and what is after it; this is the plain filter of the chain.
\<close>

section \<open>Filtering a range\<close>

lemma filter_range:
  assumes "s \<le> e" "\<forall>x\<in>set (take s xs). K x" "\<forall>x\<in>set (drop e xs). K x"
  shows "take s xs @ filter K (drop s (take e xs)) @ drop e xs = filter K xs"
    "filter (\<lambda>x. \<not> K x) (drop s (take e xs)) = filter (\<lambda>x. \<not> K x) xs"
proof -
  have "xs = take s (take e xs) @ drop s (take e xs) @ drop e xs" by (metis append.assoc append_take_drop_id)
  then have xs: "xs = take s xs @ drop s (take e xs) @ drop e xs" using assms(1) by (simp add: min_absorb1)
  have "filter K xs = filter K (take s xs) @ filter K (drop s (take e xs)) @ filter K (drop e xs)"
    by (subst xs) (simp del: append_take_drop_id)
  then show "take s xs @ filter K (drop s (take e xs)) @ drop e xs = filter K xs" using assms by simp
  have "filter (\<lambda>x. \<not> K x) xs = filter (\<lambda>x. \<not> K x) (take s xs) @ filter (\<lambda>x. \<not> K x) (drop s (take e xs)) @ filter (\<lambda>x. \<not> K x) (drop e xs)"
    by (subst xs) (simp del: append_take_drop_id)
  then show "filter (\<lambda>x. \<not> K x) (drop s (take e xs)) = filter (\<lambda>x. \<not> K x) xs" using assms by simp
qed

section \<open>The two searches\<close>

abbreviation kept :: "fw_chain \<Rightarrow> nat \<Rightarrow> nat \<Rightarrow> nat \<Rightarrow> nat \<Rightarrow> bool" where
  "kept c cmd set1 num a \<equiv> keep_rule (rules c a) cmd set1 num"

lemma scan_set_fold:
  "fold (\<lambda>i (start, e, n). if P i then (start, e, n) else (if start < 0 then int i else start, i, n + 1)) [0..<k] (- 1, 0, 0) =
    (let L = filter (\<lambda>i. \<not> P i) [0..<k] in if L = [] then (- 1, 0, 0 :: nat) else (int (hd L), last L, length L))"
  by (induction k) (auto simp: Let_def split: if_splits)

lemma del_scan_set_law:
  assumes "del_scan_set c set1 = (start, e, n)"
  defines "L \<equiv> filter (\<lambda>i. \<not> kept c 1 set1 0 (cmap c ! i)) [0..<n_rules c]"
  shows "n = length L" "L \<noteq> [] \<Longrightarrow> start = int (hd L) \<and> e = last L + 1"
  using assms(1) scan_set_fold [of "\<lambda>i. kept c 1 set1 0 (cmap c ! i)" "n_rules c"]
  unfolding del_scan_set_def L_def by (auto simp: Let_def split: if_splits)

lemma del_scan_num_law:
  "e0 \<le> n_rules c \<Longrightarrow> del_scan_num c cmd set1 num e0 n0 = (e, n) \<Longrightarrow>
    e0 \<le> e \<and> e \<le> n_rules c \<and> (\<forall>i. e0 \<le> i \<and> i < e \<longrightarrow> num = 0 \<or> rulenum (rule_at c i) = num) \<and>
    (e < n_rules c \<longrightarrow> 0 < num \<and> rulenum (rule_at c e) \<noteq> num) \<and>
    n = n0 + length (filter (\<lambda>a. \<not> kept c cmd set1 num a) (drop e0 (take e (cmap c))))"
proof (induction c cmd set1 num e0 n0 rule: del_scan_num.induct)
  case (1 c cmd set1 num e0 n0)
  show ?case
  proof (cases "e0 < n_rules c \<and> \<not> (0 < num \<and> rulenum (rule_at c e0) \<noteq> num)")
    case False
    then have "(e, n) = (e0, n0)" using "1.prems"(2) by (subst (asm) del_scan_num.simps) auto
    then show ?thesis using False "1.prems"(1) by auto
  next
    case True
    define n1 where "n1 = (if kept c cmd set1 num (cmap c ! e0) then n0 else n0 + 1)"
    have d: "del_scan_num c cmd set1 num (e0 + 1) n1 = (e, n)"
      using "1.prems"(2) True by (subst (asm) del_scan_num.simps) (simp add: n1_def)
    have ih: "e0 + 1 \<le> e \<and> e \<le> n_rules c \<and> (\<forall>i. e0 + 1 \<le> i \<and> i < e \<longrightarrow> num = 0 \<or> rulenum (rule_at c i) = num) \<and>
        (e < n_rules c \<longrightarrow> 0 < num \<and> rulenum (rule_at c e) \<noteq> num) \<and>
        n = n1 + length (filter (\<lambda>a. \<not> kept c cmd set1 num a) (drop (e0 + 1) (take e (cmap c))))"
      using "1.IH" [OF True] d True unfolding n1_def by simp
    then have "drop e0 (take e (cmap c)) = cmap c ! e0 # drop (e0 + 1) (take e (cmap c))"
      by (subst Cons_nth_drop_Suc [symmetric]) auto
    moreover have "\<forall>i. e0 \<le> i \<and> i < e \<longrightarrow> num = 0 \<or> rulenum (rule_at c i) = num"
      using ih True by (metis Suc_eq_plus1 Suc_leI le_neq_implies_less neq0_conv)
    ultimately show ?thesis using ih by (auto simp: n1_def)
  qed
qed

lemma scan_set_range:
  assumes s: "del_scan_set c set1 = (start, e, n)" and n: "n \<noteq> 0"
  shows "nat start \<le> e" "\<forall>a\<in>set (take (nat start) (cmap c)). kept c 1 set1 0 a" "\<forall>a\<in>set (drop e (cmap c)). kept c 1 set1 0 a"
    "n = length (filter (\<lambda>a. \<not> kept c 1 set1 0 a) (cmap c))"
proof -
  define L where "L = filter (\<lambda>i. \<not> kept c 1 set1 0 (cmap c ! i)) [0..<n_rules c]"
  note law = del_scan_set_law [OF s, folded L_def]
  have L: "L \<noteq> []" "sorted L" "set L = {i. i < n_rules c \<and> \<not> kept c 1 set1 0 (cmap c ! i)}"
    using n law(1) by (auto simp: L_def sorted_wrt_filter)
  have le: "hd L \<le> i" if "i \<in> set L" for i using that L(2) by (cases L) auto
  have ge: "i \<le> last L" if "i \<in> set L" for i using that L(2) by (cases L rule: rev_cases) (auto simp: sorted_append)
  have se: "nat start = hd L" "e = last L + 1" using law(2) [OF L(1)] by simp_all
  show "nat start \<le> e" using ge [of "hd L"] L(1) se by simp
  show "\<forall>a\<in>set (take (nat start) (cmap c)). kept c 1 set1 0 a"
    using le L(3) by (auto simp: se in_set_conv_nth) (meson linorder_not_le)
  show "\<forall>a\<in>set (drop e (cmap c)). kept c 1 set1 0 a"
    using ge L(3) by (auto simp: se in_set_conv_nth) (metis Suc_n_not_le_n add_leD1 less_diff_conv add.commute add_Suc)
  have "length (filter (\<lambda>a. \<not> kept c 1 set1 0 a) (map ((!) (cmap c)) [0..<n_rules c])) = length L"
    by (simp add: L_def filter_map comp_def)
  then show "n = length (filter (\<lambda>a. \<not> kept c 1 set1 0 a) (cmap c))" by (simp add: law(1) map_nth)
qed

lemma scan_num_range:
  assumes ok: "chain_ok c" and s: "start = ipfw_find_rule c num 0" and d: "del_scan_num c cmd set1 num start 0 = (e, n)"
    and cmd: "cmd \<noteq> 1" and num: "num \<le> IPFW_DEFAULT_RULE"
  shows "start \<le> e" "\<forall>a\<in>set (take start (cmap c)). kept c cmd set1 num a" "\<forall>a\<in>set (drop e (cmap c)). kept c cmd set1 num a"
    "n = length (filter (\<lambda>a. \<not> kept c cmd set1 num a) (cmap c))"
proof -
  have st: "start < n_rules c" "\<forall>j < start. rulenum (rule_at c j) < num"
    "\<And>j. start \<le> j \<Longrightarrow> j < n_rules c \<Longrightarrow> num \<le> rulenum (rule_at c j)"
    using find_rule_bounds [OF ok s] num by auto
  note law = del_scan_num_law [OF less_imp_le [OF st(1)] d]
  show se: "start \<le> e" using law by simp
  have k: "kept c cmd set1 num a" if "num \<noteq> 0" "rulenum (rules c a) \<noteq> num" for a
    using that cmd by (simp add: keep_rule_def)
  show a: "\<forall>a\<in>set (take start (cmap c)). kept c cmd set1 num a"
  proof
    fix a assume "a \<in> set (take start (cmap c))"
    then obtain i where "i < start" "a = cmap c ! i" by (auto simp: in_set_conv_nth)
    then show "kept c cmd set1 num a" using st(2) by (intro k) fastforce+
  qed
  have "num \<noteq> 0 \<and> num < rulenum (rule_at c j)" if "e \<le> j" "j < n_rules c" for j
  proof -
    have "e < n_rules c" using that by simp
    then have "num < rulenum (rule_at c e)" "num \<noteq> 0" using law st(3) [of e] se by auto
    moreover have "e < j \<Longrightarrow> rulenum (rule_at c e) \<le> rulenum (rule_at c j)"
      using rule_less_at [OF ok, of e j] that by (auto simp: rule_less_def before_def)
    ultimately show ?thesis using that by (cases "e = j") auto
  qed
  then show b: "\<forall>a\<in>set (drop e (cmap c)). kept c cmd set1 num a"
  proof -
    assume gt: "\<And>j. e \<le> j \<Longrightarrow> j < n_rules c \<Longrightarrow> num \<noteq> 0 \<and> num < rulenum (rule_at c j)"
    show ?thesis
    proof
      fix a assume "a \<in> set (drop e (cmap c))"
      then obtain i where "i < n_rules c - e" "a = cmap c ! (e + i)" by (auto simp: in_set_conv_nth)
      moreover from this have "e + i < n_rules c" by linarith
      ultimately show "kept c cmd set1 num a" using gt [of "e + i"] by (intro k) auto
    qed
  qed
  show "n = length (filter (\<lambda>a. \<not> kept c cmd set1 num a) (cmap c))"
    using law filter_range(2) [OF se a b] by simp
qed

section \<open>Deletion\<close>

text \<open>The reference: the chain without the rules that are not kept.\<close>

definition del_filter ::
  "(nat \<Rightarrow> 'd \<Rightarrow> 'd) \<Rightarrow> nat \<Rightarrow> nat \<Rightarrow> nat \<Rightarrow> fw_chain \<Rightarrow> 'd \<Rightarrow> fw_chain \<times> 'd \<times> nat list" where
  "del_filter rm cmd set1 num c d =
     (let gone = filter (\<lambda>a. \<not> kept c cmd set1 num a) (cmap c)
      in ((swap_map (filter (kept c cmd set1 num) (cmap c)) c)\<lparr>static_len := static_len c - (\<Sum>a\<leftarrow>gone. int (RULESIZE (rules c a)))\<rparr>,
          fold rm gone d, rev gone))"

lemma del_range_filter:
  assumes "start \<le> e" "\<forall>a\<in>set (take start (cmap c)). kept c cmd set1 num a" "\<forall>a\<in>set (drop e (cmap c)). kept c cmd set1 num a"
  shows "del_range rm cmd set1 num start e c d = del_filter rm cmd set1 num c d"
  using filter_range [OF assms] by (simp add: del_range_def del_filter_def Let_def swap_map_def)

definition del_valid :: "u32 \<Rightarrow> bool" where
  "del_valid arg \<longleftrightarrow> del_cmd arg \<in> {0, 1, 5} \<and> del_set arg \<le> RESVD_SET \<and>
     (if del_cmd arg = 1 then del_num arg \<le> RESVD_SET else del_num arg < IPFW_DEFAULT_RULE)"

lemma keep_rule_set: "keep_rule r 1 set1 n = keep_rule r 1 set1 0"
  by (simp add: keep_rule_def)

lemma chain_ok_filter:
  assumes ok: "chain_ok c" and k: "\<And>a. rulenum (rules c a) = IPFW_DEFAULT_RULE \<Longrightarrow> K a" and i: "chain_id c \<noteq> - 1"
  shows "chain_ok (swap_map (filter K (cmap c)) c)"
proof -
  obtain xs z where m: "cmap c = xs @ [z]" using ok by (metis chain_ok_def rev_exhaust)
  have z: "K z" using ok k m by (auto simp: chain_ok_def)
  have "fw_id (rules c a) \<le> chain_id c + 1" if "a \<in> set (cmap c)" for a
    using ok that next_id [OF i] by (auto simp: chain_ok_def intro: order_trans less_imp_le)
  moreover have "sorted_wrt (\<lambda>a b. rule_less (rules c a) (rules c b)) (filter K (cmap c))"
    using ok by (simp add: chain_ok_def sorted_wrt_filter)
  ultimately show ?thesis using ok z by (auto simp: chain_ok_def swap_map_def m)
qed

lemma del_entry_law:
  assumes ok: "chain_ok c" and v: "del_valid arg" and i: "chain_id c \<noteq> - 1"
  defines "cmd \<equiv> del_cmd arg" and "num \<equiv> del_num arg" and "set1 \<equiv> (if del_cmd arg = 1 then del_num arg else del_set arg)"
  shows "del_entry rm mem arg c d =
      (if \<forall>a\<in>set (cmap c). kept c cmd set1 num a then (if arg = 0 then 0 else EINVAL, c, d, [])
       else if \<not> mem then (EINVAL, c, d, []) else (0, del_filter rm cmd set1 num c d)) \<and>
    chain_ok (fst (snd (del_entry rm mem arg c d)))"
proof -
  obtain start e n where en: "del_search c cmd set1 num = (start, e, n)" by (metis surj_pair)
  have "n = length (filter (\<lambda>a. \<not> kept c cmd set1 num a) (cmap c)) \<and>
      (n \<noteq> 0 \<longrightarrow> del_range rm cmd set1 num start e c d = del_filter rm cmd set1 num c d)"
  proof (cases "cmd = 1")
    case True
    then obtain st where st: "del_scan_set c set1 = (st, e, n)" "start = nat st"
      using en by (cases "del_scan_set c set1") (simp add: del_search_def)
    have k: "kept c cmd set1 num = kept c 1 set1 0"
      unfolding True using keep_rule_set by (intro ext) blast
    have cnt: "n = length (filter (\<lambda>a. \<not> kept c 1 set1 0 a) (cmap c))"
    proof (cases "n = 0")
      case z: True
      then have "\<forall>i<n_rules c. kept c 1 set1 0 (cmap c ! i)"
        using del_scan_set_law(1) [OF st(1)] by (auto simp: filter_empty_conv simp del: One_nat_def)
      then have "filter (\<lambda>a. \<not> kept c 1 set1 0 a) (cmap c) = []" by (auto simp: filter_empty_conv in_set_conv_nth)
      then show ?thesis using z by simp
    qed (rule scan_set_range(4) [OF st(1)])
    moreover have "del_range rm cmd set1 num start e c d = del_filter rm cmd set1 num c d" if "n \<noteq> 0"
      using scan_set_range(1,2,3) [OF st(1) that] unfolding st(2) by (intro del_range_filter) (simp_all only: fun_cong [OF k])
    ultimately show ?thesis unfolding fun_cong [OF k] by blast
  next
    case False
    then have d: "del_scan_num c cmd set1 num start 0 = (e, n)" and s: "start = ipfw_find_rule c num 0"
      using en False by (auto simp: del_search_def Let_def)
    have "num \<le> IPFW_DEFAULT_RULE" using v False by (auto simp: del_valid_def num_def cmd_def)
    note r = scan_num_range [OF ok s d False this]
    show ?thesis using r(4) by (simp add: del_range_filter [OF r(1-3)])
  qed
  then have cnt: "n = length (filter (\<lambda>a. \<not> kept c cmd set1 num a) (cmap c))"
    and rng: "n \<noteq> 0 \<Longrightarrow> del_range rm cmd set1 num start e c d = del_filter rm cmd set1 num c d" by simp_all
  have eq: "del_entry rm mem arg c d =
      (if n = 0 then (if arg = 0 then 0 else EINVAL, c, d, []) else if \<not> mem then (EINVAL, c, d, [])
       else (0, del_range rm cmd set1 num start e c d))"
  proof -
    have g: "\<not> (5 < cmd \<or> RESVD_SET < del_set arg)" "\<not> ((cmd = 0 \<or> cmd = 2 \<or> cmd = 5) \<and> IPFW_DEFAULT_RULE \<le> num)"
        "\<not> (\<not> (cmd = 0 \<or> cmd = 2 \<or> cmd = 5) \<and> RESVD_SET < num)" "cmd = 0 \<or> cmd = 1 \<or> cmd = 5"
      using v by (auto simp: del_valid_def cmd_def num_def)
    show ?thesis
      unfolding del_entry_def Let_def cmd_def [symmetric] num_def [symmetric] if_not_P [OF g(1)] if_not_P [OF g(2)] if_not_P [OF g(3)]
        if_P [OF g(4)] set1_def [folded cmd_def num_def, symmetric] en prod.case ..
  qed
  have "n = 0 \<longleftrightarrow> (\<forall>a\<in>set (cmap c). kept c cmd set1 num a)" unfolding cnt by (auto simp: filter_empty_conv)
  moreover have "chain_ok (fst (del_filter rm cmd set1 num c d))"
    using chain_ok_filter [OF ok _ i, of "kept c cmd set1 num"] by (simp add: del_filter_def Let_def chain_ok_step keep_rule_def)
  ultimately show ?thesis using ok rng by (auto simp: eq)
qed

text \<open>C22: Deleting by number, by set or by both, with the searches that the code uses to copy only a part of the chain, is
  exactly the filter of the whole chain by \<open>keep_rule\<close>: the rules kept stay in order, the chain stays well formed
  with its default rule, the dynamic rules of exactly the deleted ones are removed, and it is an error only
  when nothing matches a specific request or there is no memory.\<close>

theorem del_entry_filter:
  assumes ok: "chain_ok c" and v: "del_valid arg" and i: "chain_id c \<noteq> - 1"
  defines "cmd \<equiv> del_cmd arg" and "num \<equiv> del_num arg" and "set1 \<equiv> (if del_cmd arg = 1 then del_num arg else del_set arg)"
  shows "del_entry rm mem arg c d =
      (if \<forall>a\<in>set (cmap c). kept c cmd set1 num a then (if arg = 0 then 0 else EINVAL, c, d, [])
       else if \<not> mem then (EINVAL, c, d, []) else (0, del_filter rm cmd set1 num c d)) \<and>
    chain_ok (fst (snd (del_entry rm mem arg c d)))"
  unfolding cmd_def num_def set1_def by (rule del_entry_law [OF ok v i])

text \<open>The example chain without rule 200.\<close>

theorem del_entry_filter_witness:
  "del_entry (\<lambda>a d. a # d) True 200 ex_chain [] =
      (0, ex_chain\<lparr>chain_id := 4, cmap := [1, 0], static_len := 112\<rparr>, [2], [2]) \<and>
    chain_ok (fst (snd (del_entry (\<lambda>a d. a # d) True 200 ex_chain [])))"
proof -
  have v: "del_valid 200" by (simp add: del_valid_def del_cmd_def del_num_def del_set_def RESVD_SET_def IPFW_DEFAULT_RULE_def)
  have "del_filter (\<lambda>a d. a # d) 0 0 200 ex_chain [] =
      (ex_chain\<lparr>chain_id := 4, cmap := [1, 0], static_len := 112\<rparr>, [2], [2])"
    by (simp add: del_filter_def Let_def ex_chain_def default_rule_def keep_rule_def swap_map_def RULESIZE_def sizeof_ip_fw_def IPFW_DEFAULT_RULE_def
        RESVD_SET_def)
  moreover have "del_cmd 200 = 0" "del_num 200 = 200" "del_set 200 = 0" by (simp_all add: del_cmd_def del_num_def del_set_def)
  moreover have "\<not> (\<forall>a\<in>set (cmap ex_chain). kept ex_chain 0 0 200 a)" "chain_id ex_chain \<noteq> - 1"
    by (simp_all add: ex_chain_def default_rule_def keep_rule_def IPFW_DEFAULT_RULE_def)
  moreover note t = del_entry_filter [OF ex_chain_ok v, of "\<lambda>a d. a # d" True "[]"]
  ultimately show ?thesis using conjunct2 [OF t] by (simp add: conjunct1 [OF t])
qed

end
