(* ===== verification/FwCheck.thy ===== *)
theory FwCheck
  imports FwChain
begin

text \<open>
  What the packet filter does with a rule from userland (\<open>sys/netinet/ipfw/ip_fw_sockopt.c\<close>): the check of its
  instructions, the conversion between the layouts of FreeBSD 7.2 and the present one, and the socket option. The memory
  of a request is a list of 32-bit words; \<open>None\<close> is an access outside it, or a loop that does not end.
\<close>

section \<open>Check\<close>

text \<open>What the check depends on: options of the build and the modules that are loaded.\<close>

record fw_conf =
  inet6 :: bool
  fwd_enabled :: bool
  divert_loaded :: bool
  ng_loaded :: bool
  nat_loaded :: bool
  rt_numfibs :: nat

definition EPROTONOSUPPORT :: nat where "EPROTONOSUPPORT = 93"

text \<open>The sizes of the instructions in words, \<open>F_INSN_SIZE\<close>.\<close>

definition SZ_insn :: nat where "SZ_insn = 1"
definition SZ_insn_u32 :: nat where "SZ_insn_u32 = 2"
definition SZ_insn_sa :: nat where "SZ_insn_sa = 5"
definition SZ_insn_mac :: nat where "SZ_insn_mac = 7"
definition SZ_insn_if :: nat where "SZ_insn_if = 6"
definition SZ_insn_altq :: nat where "SZ_insn_altq = 2"
definition SZ_insn_limit :: nat where "SZ_insn_limit = 2"
definition SZ_insn_log :: nat where "SZ_insn_log = 3"
definition SZ_insn_nat :: nat where "SZ_insn_nat = 4"
definition SZ_insn_icmp6 :: nat where "SZ_insn_icmp6 = 8"
definition SZ_in6_addr :: nat where "SZ_in6_addr = 4"

lemmas sz_defs = SZ_insn_def SZ_insn_u32_def SZ_insn_sa_def SZ_insn_mac_def SZ_insn_if_def SZ_insn_altq_def SZ_insn_limit_def
  SZ_insn_log_def SZ_insn_nat_def SZ_insn_icmp6_def SZ_in6_addr_def

text \<open>An instruction is refused, or it is an action, or it is neither.\<close>

datatype insn_class = Refused nat | Plain | Action

definition plain_if :: "bool \<Rightarrow> insn_class" where
  "plain_if b = (if b then Plain else Refused EINVAL)"

definition action_if :: "bool \<Rightarrow> insn_class" where
  "action_if b = (if b then Action else Refused EINVAL)"

text \<open>The cases of the switch that share their code.\<close>

definition ops_insn :: "nat list" where
  "ops_insn = [O_PROBE_STATE, O_KEEP_STATE, O_PROTO, O_IP_SRC_ME, O_IP_DST_ME, O_LAYER2, O_IN, O_FRAG, O_DIVERTED, O_IPOPT,
     O_IPTOS, O_IPPRECEDENCE, O_IPVER, O_TCPWIN, O_TCPFLAGS, O_TCPOPTS, O_ESTAB, O_VERREVPATH, O_VERSRCREACH,
     O_ANTISPOOF, O_IPSEC, O_IP4, O_TAG]"

definition ops6_insn :: "nat list" where
  "ops6_insn = [O_IP6_SRC_ME, O_IP6_DST_ME, O_EXT_HDR, O_IP6]"

definition ops_u32 :: "nat list" where
  "ops_u32 = [O_UID, O_GID, O_JAIL, O_IP_SRC, O_IP_DST, O_TCPSEQ, O_TCPACK, O_PROB, O_ICMPTYPE]"

definition ops_arg :: "nat list" where
  "ops_arg = [O_NOP, O_IPID, O_IPTTL, O_IPLEN, O_TCPDATALEN, O_TAGGED]"

definition ops_action :: "nat list" where
  "ops_action = [O_FORWARD_MAC, O_CHECK_STATE, O_COUNT, O_ACCEPT, O_DENY, O_REJECT, O_SKIPTO, O_REASS]"

definition ops6 :: "nat list" where
  "ops6 = [O_IP6_SRC_ME, O_IP6_DST_ME, O_EXT_HDR, O_IP6, O_UNREACH6, O_IP6_SRC, O_IP6_DST, O_FLOW6ID, O_IP6_SRC_MASK,
     O_IP6_DST_MASK, O_ICMP6TYPE]"

lemmas ops_defs = ops_insn_def ops6_insn_def ops_u32_def ops_arg_def ops_action_def ops6_def

text \<open>The cases that are there with IPv6 only, and what the others come to without it.\<close>

definition insn_class6 :: "fw_conf \<Rightarrow> ipfw_insn \<Rightarrow> insn_class" where
  "insn_class6 cf i =
     (let cmdlen = F_LEN i; opc = opcode i in
      if \<not> inet6 cf then Refused (if opc \<in> set ops6 then EPROTONOSUPPORT else EINVAL)
      else if opc \<in> set ops6_insn then plain_if (cmdlen = SZ_insn)
      else if opc = O_UNREACH6 then action_if (cmdlen = SZ_insn)
      else if opc = O_IP6_SRC \<or> opc = O_IP6_DST then plain_if (cmdlen = SZ_in6_addr + SZ_insn)
      else if opc = O_FLOW6ID then plain_if (cmdlen = SZ_insn_u32 + arg1 i)
      else if opc = O_IP6_SRC_MASK \<or> opc = O_IP6_DST_MASK then plain_if (odd cmdlen \<and> cmdlen \<le> 127)
      else if opc = O_ICMP6TYPE then plain_if (cmdlen = SZ_insn_icmp6)
      else Refused EINVAL)"

text \<open>The switch.\<close>

definition insn_class :: "fw_conf \<Rightarrow> ipfw_insn \<Rightarrow> insn_class" where
  "insn_class cf i =
     (let cmdlen = F_LEN i; opc = opcode i in
      if opc \<in> set ops_insn then plain_if (cmdlen = SZ_insn)
      else if opc = O_FIB then plain_if (cmdlen = SZ_insn \<and> arg1 i < rt_numfibs cf)
      else if opc = O_SETFIB then action_if (cmdlen = SZ_insn \<and> arg1 i < rt_numfibs cf)
      else if opc \<in> set ops_u32 then plain_if (cmdlen = SZ_insn_u32)
      else if opc = O_LIMIT then plain_if (cmdlen = SZ_insn_limit)
      else if opc = O_LOG then plain_if (cmdlen = SZ_insn_log)
      else if opc = O_IP_SRC_MASK \<or> opc = O_IP_DST_MASK then plain_if (odd cmdlen \<and> cmdlen \<le> 31)
      else if opc = O_IP_SRC_SET \<or> opc = O_IP_DST_SET then
        plain_if (arg1 i \<noteq> 0 \<and> arg1 i \<le> 256 \<and> cmdlen = SZ_insn_u32 + (arg1 i + 31) div 32)
      else if opc = O_IP_SRC_LOOKUP \<or> opc = O_IP_DST_LOOKUP then
        plain_if (arg1 i < IPFW_TABLES_MAX \<and> (cmdlen = SZ_insn \<or> cmdlen = SZ_insn_u32 + 1 \<or> cmdlen = SZ_insn_u32))
      else if opc = O_MACADDR2 then plain_if (cmdlen = SZ_insn_mac)
      else if opc \<in> set ops_arg then plain_if (1 \<le> cmdlen \<and> cmdlen \<le> 31)
      else if opc = O_MAC_TYPE \<or> opc = O_IP_SRCPORT \<or> opc = O_IP_DSTPORT then plain_if (2 \<le> cmdlen \<and> cmdlen \<le> 31)
      else if opc = O_RECV \<or> opc = O_XMIT \<or> opc = O_VIA then plain_if (cmdlen = SZ_insn_if)
      else if opc = O_ALTQ then plain_if (cmdlen = SZ_insn_altq)
      else if opc = O_PIPE \<or> opc = O_QUEUE then action_if (cmdlen = SZ_insn)
      else if opc = O_FORWARD_IP then action_if (fwd_enabled cf \<and> cmdlen = SZ_insn_sa)
      else if opc = O_DIVERT \<or> opc = O_TEE then action_if (divert_loaded cf \<and> cmdlen = SZ_insn)
      else if opc = O_NETGRAPH \<or> opc = O_NGTEE then action_if (ng_loaded cf \<and> cmdlen = SZ_insn)
      else if opc = O_NAT then action_if (nat_loaded cf \<and> cmdlen = SZ_insn_nat)
      else if opc \<in> set ops_action then action_if (cmdlen = SZ_insn)
      else insn_class6 cf i)"

lemma insn_class_len: "insn_class cf i \<noteq> Refused e \<Longrightarrow> \<forall>e. insn_class cf i \<noteq> Refused e \<Longrightarrow> 0 < F_LEN i"
  by (rule ccontr) (auto simp: insn_class_def insn_class6_def plain_if_def action_if_def Let_def sz_defs split: if_splits)

text \<open>
  The loop over the instructions: \<open>l\<close> words are left at word \<open>pc\<close>. The counter of a log instruction is set to its
  limit. \<open>Inl\<close> is the error, \<open>Inr\<close> the words.
\<close>

definition reset_log :: "ipfw_insn \<Rightarrow> nat \<Rightarrow> u32 list \<Rightarrow> u32 list option" where
  "reset_log i pc ws =
     (if opcode i = O_LOG then if pc + 2 < length ws then Some (ws[pc + 2 := ws ! (pc + 1)]) else None else Some ws)"

function check_loop :: "fw_conf \<Rightarrow> u32 list \<Rightarrow> nat \<Rightarrow> nat \<Rightarrow> bool \<Rightarrow> (nat + u32 list) option" where
  "check_loop cf ws l pc have_action =
     (if l = 0 then Some (if have_action then Inr ws else Inl EINVAL)
      else case rd_insn ws pc of None \<Rightarrow> None
      | Some i \<Rightarrow>
          if l < F_LEN i then Some (Inl EINVAL)
          else case insn_class cf i of
            Refused e \<Rightarrow> Some (Inl e)
          | Plain \<Rightarrow>
              (case reset_log i pc ws of None \<Rightarrow> None
               | Some ws \<Rightarrow> check_loop cf ws (l - F_LEN i) (pc + F_LEN i) have_action)
          | Action \<Rightarrow>
              if have_action \<or> l \<noteq> F_LEN i then Some (Inl EINVAL)
              else check_loop cf ws (l - F_LEN i) (pc + F_LEN i) True)"
  by pat_completeness auto
termination
proof (relation "measure (\<lambda>(cf, ws, l, pc, h). l)", goal_cases)
  case (2 cf ws l pc h i ws')
  then show ?case using insn_class_len [of cf i] by auto
next
  case (3 cf ws l pc h i)
  then show ?case using insn_class_len [of cf i] by auto
qed simp

declare check_loop.simps [simp del]

definition check_ipfw_struct :: "fw_conf \<Rightarrow> ip_fw \<Rightarrow> nat \<Rightarrow> (nat + ip_fw) option" where
  "check_ipfw_struct cf r len =
     (if len < sizeof_ip_fw \<or> RULESIZE r \<noteq> len \<or> cmd_len r \<le> act_ofs r then Some (Inl EINVAL)
      else map_option (map_sum id (\<lambda>ws. r\<lparr>fw_cmd := ws\<rparr>)) (check_loop cf (fw_cmd r) (cmd_len r) 0 False))"

section \<open>The two layouts\<close>

text \<open>
  A request is read into \<open>RULE_MAXSIZE\<close> bytes, 256 words. In both layouts words 0 to 5 are the pointers and the
  fields up to the set; then the old one has the counters in words 6 to 9, the time in word 10 and the instructions
  from word 11, the new one the identifier in word 6, the counters in words 8 to 11, the time in word 12 and the
  instructions from word 13.
\<close>

definition RULE_WORDS :: nat where "RULE_WORDS = 256"

definition lo16 :: "u32 \<Rightarrow> nat" where "lo16 w = unat (w AND 0xffff)"
definition hi16 :: "u32 \<Rightarrow> nat" where "hi16 w = unat (drop_bit 16 w)"
definition w64 :: "u32 \<Rightarrow> u32 \<Rightarrow> u64" where "w64 lo hi = ucast lo OR push_bit 32 (ucast hi)"

definition rule8_of :: "u32 list \<Rightarrow> ip_fw" where
  "rule8_of m = \<lparr>x_next = unat (w64 (m ! 0) (m ! 1)), next_rule = unat (w64 (m ! 2) (m ! 3)), act_ofs = lo16 (m ! 4), cmd_len = hi16 (m ! 4),
     rulenum = lo16 (m ! 5), fw_set = unat (drop_bit 16 (m ! 5) AND 0xff), fw_id = m ! 6, pcnt = w64 (m ! 8) (m ! 9),
     bcnt = w64 (m ! 10) (m ! 11), timestamp = m ! 12, fw_cmd = drop 13 m\<rparr>"

definition rule7_of :: "u32 list \<Rightarrow> ip_fw" where
  "rule7_of m = \<lparr>x_next = unat (w64 (m ! 0) (m ! 1)), next_rule = unat (w64 (m ! 2) (m ! 3)), act_ofs = lo16 (m ! 4), cmd_len = hi16 (m ! 4),
     rulenum = lo16 (m ! 5), fw_set = unat (drop_bit 16 (m ! 5) AND 0xff), fw_id = 0, pcnt = w64 (m ! 6) (m ! 7),
     bcnt = w64 (m ! 8) (m ! 9), timestamp = m ! 10, fw_cmd = drop 11 m\<rparr>"

text \<open>
  Opcode 57, \<open>O_REASS\<close>, does not exist in the old layout: the numbers after \<open>O_NAT\<close> are moved by one, in a byte.
\<close>

definition set_opcode :: "nat \<Rightarrow> u32 \<Rightarrow> u32" where
  "set_opcode n w = (w AND NOT 0xff) OR of_nat (n mod 256)"

definition opcode_up :: "u32 \<Rightarrow> u32" where
  "opcode_up w = (let n = opcode (insn_of w) in if O_NAT < n then set_opcode (n + 1) w else w)"

definition opcode_down :: "u32 \<Rightarrow> u32" where
  "opcode_down w = (let n = opcode (insn_of w) in if O_NAT < n then set_opcode (n - 1) w else w)"

text \<open>Copy \<open>n\<close> words from word \<open>sp\<close> of one memory to word \<open>dp\<close> of the other.\<close>

definition copy_words :: "u32 list \<Rightarrow> nat \<Rightarrow> nat \<Rightarrow> u32 list \<Rightarrow> nat \<Rightarrow> u32 list option" where
  "copy_words src sp n dst dp =
     (if sp + n \<le> length src \<and> dp + n \<le> length dst
      then Some (take dp dst @ take n (drop sp src) @ drop (dp + n) dst) else None)"

text \<open>The loop that copies the instructions. The length is looked at after the copy; with length 0 the loop does not end.\<close>

partial_function (option) conv_loop :: "(u32 \<Rightarrow> u32) \<Rightarrow> u32 list \<Rightarrow> nat \<Rightarrow> nat \<Rightarrow> nat \<Rightarrow> u32 list \<Rightarrow> (nat \<times> u32 list) option" where
  "conv_loop f tmp ll sp dp m =
     (if ll = 0 then Some (0, m)
      else do {
        i \<leftarrow> rd_insn tmp sp;
        m \<leftarrow> copy_words tmp sp (F_LEN i) m dp;
        w \<leftarrow> rd m dp;
        let m = m[dp := f w];
        if ll < F_LEN i then Some (EINVAL, m)
        else conv_loop f tmp (ll - F_LEN i) (sp + F_LEN i) (dp + F_LEN i) m
      })"

declare conv_loop.simps [code]

text \<open>\<open>ok\<close> is the outcome of the allocation of the copy.\<close>

definition convert_rule_to_7 :: "bool \<Rightarrow> u32 list \<Rightarrow> (nat \<times> u32 list) option" where
  "convert_rule_to_7 ok m =
     (if \<not> ok then Some (1, m)
      else conv_loop opcode_down m (hi16 (m ! 4)) 13 11
             (m[6 := m ! 8, 7 := m ! 9, 8 := m ! 10, 9 := m ! 11, 10 := m ! 12]))"

definition convert_rule_to_8 :: "bool \<Rightarrow> u32 list \<Rightarrow> (nat \<times> u32 list) option" where
  "convert_rule_to_8 ok m =
     (if \<not> ok then Some (1, m)
      else do {
        (err, m') \<leftarrow> conv_loop opcode_up m (hi16 (m ! 4)) 11 13 m;
        Some (if err \<noteq> 0 then (err, m')
              else (0, m'[0 := m ! 0, 1 := m ! 1, 2 := m ! 2, 3 := m ! 3, 4 := m ! 4, 5 := m ! 5, 6 := 0,
                          8 := m ! 6, 9 := m ! 7, 10 := m ! 8, 11 := m ! 9, 12 := m ! 10]))
      })"

section \<open>The socket option\<close>

text \<open>
  The request: its name, its direction, the length and the words of the request, and the result of the copy from
  userland. The requests for tables and for address translation are handed to an operation of their own.
\<close>

datatype fw_opt = IP_FW_FLUSH | IP_FW_ADD | IP_FW_DEL | IP_FW_ZERO | IP_FW_RESETLOG | IP_FW_OTHER

record fw_sopt =
  so_name :: fw_opt
  so_get :: bool
  so_valsize :: nat
  so_val :: bool
  so_mem :: "u32 list"
  so_copyin :: nat

text \<open>The state, and what the option takes from outside: privileges, the outcomes of the allocations, the dynamic rules,
  other options.\<close>

record 'd fw_sys =
  fw_chain_of :: fw_chain
  fw_dyn :: 'd
  fw_is7 :: bool

record 'd fw_ops =
  fo_priv :: nat
  fo_secure :: nat
  fo_mem :: "nat \<Rightarrow> bool"
  fo_addr :: nat
  fo_rm_dyn :: "nat \<Rightarrow> 'd \<Rightarrow> 'd"
  fo_other :: "fw_chain \<Rightarrow> nat"

text \<open>Adding: the error, the words given back to the user if any, and the new state.\<close>

definition fw_add :: "fw_conf \<Rightarrow> 'd fw_ops \<Rightarrow> fw_sopt \<Rightarrow> 'd fw_sys \<Rightarrow> (nat \<times> ip_fw option \<times> 'd fw_sys) option" where
  "fw_add cf ops so s =
     (let m = so_mem so; old = (so_valsize so = RULESIZE7 (rule7_of m)); s = s\<lparr>fw_is7 := old\<rparr> in do {
        (err, m) \<leftarrow> (if old then convert_rule_to_8 (fo_mem ops 0) m else Some (so_copyin so, m));
        if err \<noteq> 0 then Some (err, None, s)
        else do {
          chk \<leftarrow> check_ipfw_struct cf (rule8_of m) (if old then RULESIZE (rule8_of m) else so_valsize so);
          case chk of
            Inl err \<Rightarrow> Some (err, None, s)
          | Inr r \<Rightarrow>
              (case ipfw_add_rule (fo_mem ops 1) (fo_mem ops 2) (fo_addr ops) r (fw_chain_of s) of (err, n, c) \<Rightarrow>
                 let s = s\<lparr>fw_chain_of := c\<rparr>; m = take 13 m @ fw_cmd r; m = m[5 := (m ! 5 AND NOT 0xffff) OR of_nat n]
                 in if err \<noteq> 0 then Some (err, None, s)
                    else if \<not> so_get so then Some (0, None, s)
                    else if old then map_option (\<lambda>(err, m). if err \<noteq> 0 then (err, None, s) else (0, Some (rule7_of m), s))
                                       (convert_rule_to_7 (fo_mem ops 3) m)
                    else Some (0, Some (rule8_of m), s))
        }
      })"

definition fw_del :: "'d fw_ops \<Rightarrow> u32 \<Rightarrow> 'd fw_sys \<Rightarrow> nat \<times> 'd fw_sys" where
  "fw_del ops arg s =
     (case del_entry (fo_rm_dyn ops) (fo_mem ops 0) arg (fw_chain_of s) (fw_dyn s) of
        (err, c, d, gone) \<Rightarrow> (err, s\<lparr>fw_chain_of := c, fw_dyn := d\<rparr>))"

definition fw_del_req :: "'d fw_ops \<Rightarrow> fw_sopt \<Rightarrow> 'd fw_sys \<Rightarrow> nat \<times> 'd fw_sys" where
  "fw_del_req ops so s =
     (if so_copyin so \<noteq> 0 then (so_copyin so, s)
      else if so_valsize so = 4 \<and> so_mem so ! 0 \<noteq> 0 then fw_del ops (so_mem so ! 0) s
      else if so_valsize so = 8 then (0, s\<lparr>fw_chain_of := set_enable (so_mem so ! 0) (so_mem so ! 1) (fw_chain_of s)\<rparr>)
      else (EINVAL, s))"

definition fw_zero_req :: "fw_sopt \<Rightarrow> 'd fw_sys \<Rightarrow> (nat \<times> 'd fw_sys) option" where
  "fw_zero_req so s =
     (if so_val so \<and> so_copyin so \<noteq> 0 then Some (so_copyin so, s)
      else map_option (\<lambda>(err, c). (err, s\<lparr>fw_chain_of := c\<rparr>))
             (zero_entry (if so_val so then so_mem so ! 0 else 0) (so_name so = IP_FW_RESETLOG) (fw_chain_of s)))"

definition ipfw_ctl :: "fw_conf \<Rightarrow> 'd fw_ops \<Rightarrow> fw_sopt \<Rightarrow> 'd fw_sys \<Rightarrow> (nat \<times> ip_fw option \<times> 'd fw_sys) option" where
  "ipfw_ctl cf ops so s =
     (if fo_priv ops \<noteq> 0 then Some (fo_priv ops, None, s)
      else if (so_name so = IP_FW_ADD \<or> \<not> so_get so \<and> so_name so \<noteq> IP_FW_RESETLOG) \<and> fo_secure ops \<noteq> 0
      then Some (fo_secure ops, None, s)
      else case so_name so of
        IP_FW_FLUSH \<Rightarrow> (case fw_del ops 0 s of (err, s) \<Rightarrow> Some (err, None, s))
      | IP_FW_ADD \<Rightarrow> fw_add cf ops so s
      | IP_FW_DEL \<Rightarrow> (case fw_del_req ops so s of (err, s) \<Rightarrow> Some (err, None, s))
      | IP_FW_ZERO \<Rightarrow> map_option (\<lambda>(err, s). (err, None, s)) (fw_zero_req so s)
      | IP_FW_RESETLOG \<Rightarrow> map_option (\<lambda>(err, s). (err, None, s)) (fw_zero_req so s)
      | IP_FW_OTHER \<Rightarrow> Some (fo_other ops (fw_chain_of s), None, s))"

end
