(* ===== verification/FwCheckOk.thy ===== *)
theory FwCheckOk
  imports FwCheck FwChainOk
begin

text \<open>
  What the check of a rule promises: it accepts exactly the rules whose words are a sequence of well-formed
  instructions with one action, the last; it ends and stays inside the rule. The conversion between the layouts can be undone.
\<close>

section \<open>Sequences of instructions\<close>

abbreviation head_insn :: "u32 list \<Rightarrow> ipfw_insn" where
  "head_insn b \<equiv> insn_of (hd b)"

text \<open>An instruction with its words.\<close>

definition is_block :: "u32 list \<Rightarrow> bool" where
  "is_block b \<longleftrightarrow> b \<noteq> [] \<and> F_LEN (head_insn b) = length b"

definition block_class :: "fw_conf \<Rightarrow> insn_class \<Rightarrow> u32 list \<Rightarrow> bool" where
  "block_class cf k b \<longleftrightarrow> is_block b \<and> insn_class cf (head_insn b) = k"

text \<open>A rule body: plain instructions, and then an action.\<close>

definition rule_body :: "fw_conf \<Rightarrow> u32 list list \<Rightarrow> u32 list \<Rightarrow> bool" where
  "rule_body cf bs a \<longleftrightarrow> (\<forall>b\<in>set bs. block_class cf Plain b) \<and> block_class cf Action a"

definition reset_block :: "u32 list \<Rightarrow> u32 list" where
  "reset_block b = (if opcode (head_insn b) = O_LOG then b[2 := b ! 1] else b)"

lemma reset_block_length [simp]: "length (reset_block b) = length b"
  by (simp add: reset_block_def)

lemma rd_at: "n = length pre \<Longrightarrow> rd_insn (pre @ w # ws) n = Some (insn_of w)"
  by (simp add: rd_insn_def rd_def)

lemma log_length: "insn_class cf i = Plain \<Longrightarrow> opcode i = O_LOG \<Longrightarrow> F_LEN i = 3"
  by (auto simp: insn_class_def plain_if_def Let_def op_defs sz_defs ops_defs split: if_splits)

lemma reset_log_at:
  assumes "block_class cf Plain b"
  shows "reset_log (head_insn b) (length pre) (pre @ b @ post) = Some (pre @ reset_block b @ post)"
proof (cases "opcode (head_insn b) = O_LOG")
  case True
  then have "length b = 3" using assms log_length by (auto simp: block_class_def is_block_def)
  then show ?thesis using True by (simp add: reset_log_def reset_block_def list_update_append nth_append)
qed (simp add: reset_log_def reset_block_def)

lemma plain_pos: "insn_class cf i = Plain \<or> insn_class cf i = Action \<Longrightarrow> 0 < F_LEN i"
  using insn_class_len [of cf i] by auto

lemma check_loop_step:
  "check_loop cf (pre @ (w # body) @ post) (length (w # body)) (length pre) h =
     (if length (w # body) < F_LEN (insn_of w) then Some (Inl EINVAL)
      else case insn_class cf (insn_of w) of
          Refused e \<Rightarrow> Some (Inl e)
        | Plain \<Rightarrow> check_loop cf ((pre @ reset_block (take (F_LEN (insn_of w)) (w # body))) @ drop (F_LEN (insn_of w)) (w # body) @ post)
            (length (drop (F_LEN (insn_of w)) (w # body)))
            (length (pre @ reset_block (take (F_LEN (insn_of w)) (w # body)))) h
        | Action \<Rightarrow>
            if h \<or> length (w # body) \<noteq> F_LEN (insn_of w) then Some (Inl EINVAL)
            else Some (Inr (pre @ (w # body) @ post)))"
proof -
  define n where "n = F_LEN (insn_of w)"
  define b where "b = take n (w # body)"
  have b: "w # body = b @ drop n (w # body)" by (simp add: b_def)
  have blk: "reset_log (insn_of w) (length pre) (pre @ (w # body) @ post) = Some (pre @ reset_block b @ drop n (w # body) @ post)"
    if "n \<le> length (w # body)" "insn_class cf (insn_of w) = Plain"
  proof -
    have h: "hd b = w" "b \<noteq> []" using plain_pos [of cf "insn_of w"] that(2) by (auto simp: b_def n_def hd_take)
    then have "block_class cf Plain b" using that by (simp add: block_class_def is_block_def) (simp add: b_def n_def)
    from reset_log_at [OF this, of pre "drop n (w # body) @ post"] show ?thesis using h by (subst b) simp
  qed
  have fin: "check_loop cf ws 0 pc True = Some (Inr ws)" for ws pc by (subst check_loop.simps) simp
  show ?thesis
    by (subst check_loop.simps)
      (use blk in \<open>auto simp: rd_at fin b_def n_def not_less min_absorb2 split: insn_class.splits\<close>)
qed

text \<open>What the loop accepts.\<close>

definition body_words :: "fw_conf \<Rightarrow> u32 list \<Rightarrow> u32 list \<Rightarrow> bool" where
  "body_words cf body res \<longleftrightarrow> (\<exists>bs a. rule_body cf bs a \<and> body = concat bs @ a \<and> res = concat (map reset_block bs) @ a)"

lemma body_words_plain:
  assumes "block_class cf Plain b" "body_words cf body res"
  shows "body_words cf (b @ body) (reset_block b @ res)"
proof -
  obtain bs a where "rule_body cf bs a" "body = concat bs @ a" "res = concat (map reset_block bs) @ a"
    using assms(2) by (auto simp: body_words_def)
  then have "rule_body cf (b # bs) a \<and> b @ body = concat (b # bs) @ a \<and> reset_block b @ res = concat (map reset_block (b # bs)) @ a"
    using assms(1) by (simp add: rule_body_def)
  then show ?thesis unfolding body_words_def by blast
qed

lemma first_block:
  assumes "insn_class cf (head_insn body) = k" "k = Plain \<or> k = Action" "F_LEN (head_insn body) \<le> length body"
  shows "block_class cf k (take (F_LEN (head_insn body)) body)" "length (drop (F_LEN (head_insn body)) body) < length body"
  using assms plain_pos [of cf "head_insn body"] by (auto simp: block_class_def is_block_def hd_take)

lemma check_loop_sound:
  "body \<noteq> [] \<Longrightarrow> \<exists>x. check_loop cf (pre @ body @ post) (length body) (length pre) False = Some x \<and>
     (\<forall>ws. x = Inr ws \<longrightarrow> (\<exists>res. body_words cf body res \<and> ws = pre @ res @ post))"
proof (induction body arbitrary: pre rule: length_induct)
  case (1 body)
  then obtain w body' where w: "body = w # body'" by (cases body) auto
  define n where "n = F_LEN (head_insn body)"
  define b where "b = take n body"
  note step = check_loop_step [of cf pre w body' post False, folded w]
  have hd: "insn_of w = head_insn body" by (simp add: w)
  show ?case
  proof (cases "length body < n \<or> (\<exists>e. insn_class cf (insn_of w) = Refused e)")
    case True
    then show ?thesis using step by (auto simp: n_def hd)
  next
    case False
    then have le: "n \<le> length body" by simp
    show ?thesis
    proof (cases "insn_class cf (insn_of w)")
      case Plain
      note fb = first_block [of cf body, folded n_def, OF Plain [unfolded hd] _ le]
      obtain x where x: "check_loop cf ((pre @ reset_block b) @ drop n body @ post) (length (drop n body)) (length (pre @ reset_block b)) False = Some x"
          "\<And>ws. x = Inr ws \<Longrightarrow> \<exists>res. body_words cf (drop n body) res \<and> ws = (pre @ reset_block b) @ res @ post"
      proof (cases "drop n body = []")
        case True
        then show ?thesis using that [of "Inl EINVAL"] by (simp add: check_loop.simps [of _ _ 0])
      next
        case ne: False
        have "length (drop n body) < length body" using fb(2) by simp
        then show ?thesis using "1.IH" ne that by meson
      qed
      have "\<exists>res. body_words cf body res \<and> ws = pre @ res @ post" if xw: "x = Inr ws" for ws
      proof -
        obtain res where r: "body_words cf (drop n body) res" "ws = (pre @ reset_block b) @ res @ post" using x(2) [OF xw] by blast
        have "body_words cf (b @ drop n body) (reset_block b @ res)" using body_words_plain [OF _ r(1), of b] fb(1) by (simp add: b_def)
        then show ?thesis using r(2) by (auto simp: b_def)
      qed
      then show ?thesis using step le Plain x(1) by (simp add: n_def hd b_def)
    next
      case Action
      note fb = first_block [of cf body, folded n_def, OF Action [unfolded hd] _ le]
      show ?thesis
      proof (cases "length body = n")
        case True
        then have "body_words cf body body" using fb(1) unfolding body_words_def rule_body_def
          by (intro exI [of _ "[]"] exI [of _ body]) simp
        then show ?thesis using step True Action by (simp add: n_def hd)
      qed (use step le Action in \<open>simp add: n_def hd\<close>)
    qed (use False in simp)
  qed
qed

lemma check_loop_complete:
  assumes "rule_body cf bs a"
  shows "check_loop cf (pre @ (concat bs @ a) @ post) (length (concat bs @ a)) (length pre) False =
    Some (Inr (pre @ (concat (map reset_block bs) @ a) @ post))"
  using assms
proof (induction bs arbitrary: pre)
  case Nil
  then have a: "a \<noteq> []" "F_LEN (head_insn a) = length a" "insn_class cf (head_insn a) = Action"
    by (simp_all add: rule_body_def block_class_def is_block_def)
  then show ?case using check_loop_step [of cf pre "hd a" "tl a" post False] by simp
next
  case (Cons b bs)
  then have b: "b \<noteq> []" "F_LEN (head_insn b) = length b" "insn_class cf (head_insn b) = Plain"
    by (simp_all add: rule_body_def block_class_def is_block_def)
  define body where "body = concat (b # bs) @ a"
  have body: "body = hd b # tl b @ concat bs @ a" "take (length b) body = b" "drop (length b) body = concat bs @ a" "\<not> length body < length b"
    using b(1) by (simp_all add: body_def)
  have "check_loop cf ((pre @ reset_block b) @ (concat bs @ a) @ post) (length (concat bs @ a)) (length (pre @ reset_block b)) False =
      Some (Inr ((pre @ reset_block b) @ (concat (map reset_block bs) @ a) @ post))"
    by (rule Cons.IH) (use Cons.prems in \<open>simp add: rule_body_def\<close>)
  then have "check_loop cf (pre @ body @ post) (length body) (length pre) False =
      Some (Inr ((pre @ reset_block b) @ (concat (map reset_block bs) @ a) @ post))"
    using check_loop_step [of cf pre "hd b" "tl b @ concat bs @ a" post False, folded body(1)]
    unfolding b(2,3) body(2,3) if_not_P [OF body(4)] insn_class.case by simp
  then show ?case by (simp add: body_def)
qed

section \<open>The check\<close>

text \<open>C21: The check of a rule always ends without reading outside its words, and accepts it exactly when its length is right, the
  offset of the action is inside, and its words are well-formed plain instructions followed by one action; it
  changes nothing but the counters of log instructions, which are set to their limits.\<close>

theorem check_accepts_iff:
  assumes "cmd_len r \<le> length (fw_cmd r)"
  shows "check_ipfw_struct cf r len \<noteq> None \<and>
    (check_ipfw_struct cf r len = Some (Inr r') \<longleftrightarrow>
      sizeof_ip_fw \<le> len \<and> RULESIZE r = len \<and> act_ofs r < cmd_len r \<and>
      (\<exists>bs a. rule_body cf bs a \<and> take (cmd_len r) (fw_cmd r) = concat bs @ a \<and>
        r' = r\<lparr>fw_cmd := concat (map reset_block bs) @ a @ drop (cmd_len r) (fw_cmd r)\<rparr>))"
proof (cases "len < sizeof_ip_fw \<or> RULESIZE r \<noteq> len \<or> cmd_len r \<le> act_ofs r")
  case True
  then show ?thesis by (auto simp: check_ipfw_struct_def)
next
  case False
  define body post where "body = take (cmd_len r) (fw_cmd r)" and "post = drop (cmd_len r) (fw_cmd r)"
  have w: "fw_cmd r = [] @ body @ post" "length body = cmd_len r" "body \<noteq> []"
    using assms False by (auto simp: body_def post_def)
  have chk: "check_ipfw_struct cf r len = map_option (map_sum id (\<lambda>ws. r\<lparr>fw_cmd := ws\<rparr>)) (check_loop cf ([] @ body @ post) (length body) (length ([] :: u32 list)) False)"
    unfolding check_ipfw_struct_def if_not_P [OF False] using w(1,2) by simp
  obtain x where x: "check_loop cf ([] @ body @ post) (length body) (length ([] :: u32 list)) False = Some x"
      "\<forall>ws. x = Inr ws \<longrightarrow> (\<exists>res. body_words cf body res \<and> ws = [] @ res @ post)"
    using check_loop_sound [OF w(3), of cf "[]" post] by blast
  have comp: "x = Inr (concat (map reset_block bs) @ a @ post)" if "rule_body cf bs a" "body = concat bs @ a" for bs a
    using check_loop_complete [OF that(1), of "[]" post, folded that(2)] x(1) by simp
  have sound: "\<exists>bs a. rule_body cf bs a \<and> body = concat bs @ a \<and> ws = concat (map reset_block bs) @ a @ post" if xw: "x = Inr ws" for ws
  proof -
    obtain res where "body_words cf body res" "ws = [] @ res @ post" using x(2) xw by blast
    then obtain bs a where "rule_body cf bs a \<and> body = concat bs @ a" "ws = (concat (map reset_block bs) @ a) @ post"
      unfolding body_words_def by auto
    then show ?thesis by (intro exI [of _ bs] exI [of _ a]) simp
  qed
  have "check_ipfw_struct cf r len = Some (Inr r') \<longleftrightarrow> (\<exists>ws. x = Inr ws \<and> r' = r\<lparr>fw_cmd := ws\<rparr>)"
    unfolding chk x(1) by (cases x) auto
  also have "\<dots> \<longleftrightarrow> (\<exists>bs a. rule_body cf bs a \<and> body = concat bs @ a \<and> r' = r\<lparr>fw_cmd := concat (map reset_block bs) @ a @ post\<rparr>)"
    (is "?A \<longleftrightarrow> ?B")
  proof
    assume ?A
    then obtain ws where "x = Inr ws" "r' = r\<lparr>fw_cmd := ws\<rparr>" by blast
    with sound [OF this(1)] show ?B by blast
  next
    assume ?B
    then obtain bs a where "rule_body cf bs a" "body = concat bs @ a" "r' = r\<lparr>fw_cmd := concat (map reset_block bs) @ a @ post\<rparr>" by blast
    with comp [OF this(1,2)] show ?A by blast
  qed
  finally have "check_ipfw_struct cf r len = Some (Inr r') \<longleftrightarrow>
    (\<exists>bs a. rule_body cf bs a \<and> body = concat bs @ a \<and> r' = r\<lparr>fw_cmd := concat (map reset_block bs) @ a @ post\<rparr>)" .
  moreover have "check_ipfw_struct cf r len \<noteq> None" unfolding chk x(1) by simp
  ultimately show ?thesis using False unfolding body_def [symmetric] post_def [symmetric] by simp
qed

text \<open>A rule: protocol 6 is accepted.\<close>

definition tcp_rule :: ip_fw where
  "tcp_rule = (default_rule True)\<lparr>rulenum := 100, fw_set := 0, act_ofs := 1, cmd_len := 2, fw_cmd := [0x6010B, 0x12D]\<rparr>"

definition lan_conf :: fw_conf where
  "lan_conf = \<lparr>inet6 = False, fwd_enabled = False, divert_loaded = False, ng_loaded = False, nat_loaded = False, rt_numfibs = 1\<rparr>"

lemma insn_words:
  "opcode (insn_of w) = unat (ucast w :: u8)" "F_LEN (insn_of w) = unat (ucast (drop_bit 8 w) AND F_LEN_MASK)"
  "arg1 (insn_of w) = unat (drop_bit 16 w)"
  by (simp_all add: insn_of_def F_LEN_def)

lemma tcp_body: "rule_body lan_conf [[0x6010B]] [0x12D]"
proof -
  have "block_class lan_conf Plain [0x6010B]"
    by (simp add: block_class_def is_block_def insn_words F_LEN_MASK_def insn_class_def Let_def op_defs ops_defs plain_if_def sz_defs)
  moreover have "block_class lan_conf Action [0x12D]"
    by (simp add: block_class_def is_block_def insn_words F_LEN_MASK_def insn_class_def Let_def op_defs ops_defs action_if_def sz_defs)
  ultimately show ?thesis by (simp add: rule_body_def)
qed

theorem check_accepts_iff_witness: "check_ipfw_struct lan_conf tcp_rule 60 = Some (Inr tcp_rule)"
proof -
  have "concat (map reset_block [[0x6010B]]) = [0x6010B]" by (simp add: reset_block_def insn_words op_defs)
  then have "tcp_rule = tcp_rule\<lparr>fw_cmd := concat (map reset_block [[0x6010B]]) @ [0x12D] @ drop (cmd_len tcp_rule) (fw_cmd tcp_rule)\<rparr>"
    by (simp add: tcp_rule_def)
  moreover have "take (cmd_len tcp_rule) (fw_cmd tcp_rule) = concat [[0x6010B]] @ [0x12D]" "act_ofs tcp_rule < cmd_len tcp_rule"
      "RULESIZE tcp_rule = 60" "sizeof_ip_fw \<le> 60" "cmd_len tcp_rule \<le> length (fw_cmd tcp_rule)"
    by (simp_all add: tcp_rule_def RULESIZE_def sizeof_ip_fw_def)
  ultimately show ?thesis using check_accepts_iff [of tcp_rule lan_conf 60 tcp_rule] tcp_body by blast
qed

section \<open>Conversion\<close>

lemma ff_mask: "(0xff :: u32) = mask 8"
  by (simp add: mask_eq_exp_minus_1)

lemma opcode_take: "of_nat (opcode (insn_of w)) = take_bit 8 w"
  by (simp add: insn_of_def) (simp add: unsigned_ucast_eq)

lemma set_opcode_parts:
  assumes "k < 256"
  shows "opcode (insn_of (set_opcode k w)) = k" "drop_bit 8 (set_opcode k w) = drop_bit 8 w" "set_opcode j (set_opcode k w) = set_opcode j w"
    "set_opcode (opcode (insn_of w)) w = w"
proof -
  have s: "set_opcode j w = (w AND NOT (mask 8)) OR take_bit 8 (of_nat j)" for j w
  proof -
    have "(of_nat (j mod 256) :: u32) = of_nat (take_bit 8 j)" by (simp add: take_bit_nat_def)
    then show ?thesis by (simp only: set_opcode_def ff_mask take_bit_of_nat)
  qed
  show "drop_bit 8 (set_opcode k w) = drop_bit 8 w"
    unfolding s by (rule bit_word_eqI) (auto simp: bit_simps dest: bit_imp_le_length)
  show "set_opcode j (set_opcode k w) = set_opcode j w"
    unfolding s by (rule bit_word_eqI) (auto simp: bit_simps)
  show "set_opcode (opcode (insn_of w)) w = w"
    unfolding s opcode_take by (rule bit_word_eqI) (auto simp: bit_simps)
  have "ucast (set_opcode k w) = (of_nat k :: u8)"
    unfolding s by (rule bit_word_eqI) (auto simp: bit_simps)
  then show "opcode (insn_of (set_opcode k w)) = k"
    using assms by (simp add: insn_of_def unat_of_nat)
qed

text \<open>The conversion of an instruction.\<close>

definition conv_block :: "(u32 \<Rightarrow> u32) \<Rightarrow> u32 list \<Rightarrow> u32 list" where
  "conv_block f b = f (hd b) # tl b"

lemma F_LEN_set [simp]: "k < 256 \<Longrightarrow> F_LEN (insn_of (set_opcode k w)) = F_LEN (insn_of w)"
  by (simp add: insn_words set_opcode_parts)

lemma opcode_less: "opcode (insn_of w) < 256"
  unfolding insn_words by (rule order_less_le_trans [OF unsigned_less]) simp

lemma opcode_up_down: "opcode (insn_of w) \<noteq> 255 \<Longrightarrow> opcode_down (opcode_up w) = w \<and> F_LEN (insn_of (opcode_up w)) = F_LEN (insn_of w)"
  using opcode_less [of w] set_opcode_parts [where k = "opcode (insn_of w)" and w = w] set_opcode_parts [where k = "opcode (insn_of w) + 1" and w = w]
  by (auto simp: opcode_up_def opcode_down_def Let_def)

lemma conv_loop_blocks:
  assumes "\<forall>b\<in>set bs. is_block b"
  shows "length (concat bs) \<le> length d \<Longrightarrow>
    conv_loop f (p @ concat bs @ r) (length (concat bs)) (length p) (length q) (q @ d) =
      Some (0, q @ concat (map (conv_block f) bs) @ drop (length (concat bs)) d)"
  using assms
proof (induction bs arbitrary: p q d)
  case Nil
  then show ?case by (simp add: conv_loop.simps)
next
  case (Cons b bs)
  then have b: "b \<noteq> []" "F_LEN (head_insn b) = length b" by (simp_all add: is_block_def)
  define tmp where "tmp = p @ concat (b # bs) @ r"
  have tmp: "tmp = p @ hd b # tl b @ concat bs @ r" "tmp = (p @ b) @ concat bs @ r" using b(1) by (simp_all add: tmp_def)
  define d1 where "d1 = drop (length b) d"
  have i: "rd_insn tmp (length p) = Some (head_insn b)" by (simp add: tmp(1) rd_at)
  have c: "copy_words tmp (length p) (length b) (q @ d) (length q) = Some (q @ b @ d1)"
    using Cons.prems(1) by (simp add: copy_words_def tmp(2) d1_def)
  have w: "rd (q @ b @ d1) (length q) = Some (hd b)" "(q @ b @ d1)[length q := f (hd b)] = (q @ conv_block f b) @ d1"
    using b(1) by (cases b; simp add: rd_def conv_block_def)+
  have l: "\<not> length (concat (b # bs)) < length b" "length (concat (b # bs)) \<noteq> 0" "length (concat (b # bs)) - length b = length (concat bs)"
      "length p + length b = length (p @ b)" "length q + length b = length (q @ conv_block f b)"
    using b(1) by (simp_all add: conv_block_def)
  have "conv_loop f tmp (length (concat (b # bs))) (length p) (length q) (q @ d) =
      conv_loop f ((p @ b) @ concat bs @ r) (length (concat bs)) (length (p @ b)) (length (q @ conv_block f b)) ((q @ conv_block f b) @ d1)"
    by (subst conv_loop.simps)
      (use l in \<open>simp only: if_not_P l i b(2) c w bind.bind_lunit Let_def simp_thms if_False tmp(2) [symmetric]\<close>)
  also have "\<dots> = Some (0, (q @ conv_block f b) @ concat (map (conv_block f) bs) @ drop (length (concat bs)) d1)"
    by (rule Cons.IH) (use Cons.prems in \<open>simp_all add: d1_def\<close>)
  finally show ?case by (simp add: tmp_def d1_def add.commute)
qed

lemma upt13: "[0..<13] = [0, 1, 2, 3, 4, 5, 6, 7, 8, 9, 10, 11, 12 :: nat]"
  by code_simp

lemma take13:
  assumes "13 \<le> length m"
  shows "take 13 m = [m ! 0, m ! 1, m ! 2, m ! 3, m ! 4, m ! 5, m ! 6, m ! 7, m ! 8, m ! 9, m ! 10, m ! 11, m ! 12]"
proof -
  have "take 13 m = map ((!) m) [0..<13]" using assms by (intro nth_equalityI) simp_all
  then show ?thesis unfolding upt13 list.map .
qed

text \<open>C24: The conversion of a rule from the layout of FreeBSD 7.2 and back gives the rule again: for a request whose words are
  well-formed instructions that fit in the new layout, both conversions return, the header fields and the instructions
  reach the new layout with only the opcodes behind \<open>O_NAT\<close> moved, and converting back restores every word.\<close>

theorem convert_rule_roundtrip:
  assumes m: "length m = RULE_WORDS" and n: "hi16 (m ! 4) = length (concat bs)" "13 + length (concat bs) \<le> RULE_WORDS"
    and bs: "take (length (concat bs)) (drop 11 m) = concat bs" "\<forall>b\<in>set bs. is_block b \<and> opcode (head_insn b) \<noteq> 255"
  shows "\<exists>m8 m7. convert_rule_to_8 True m = Some (0, m8) \<and>
    rule8_of m8 = (rule7_of m)\<lparr>fw_cmd := concat (map (conv_block opcode_up) bs) @ drop (13 + length (concat bs)) m\<rparr> \<and>
    convert_rule_to_7 True m8 = Some (0, m7) \<and> take (11 + length (concat bs)) m7 = take (11 + length (concat bs)) m"
proof -
  define k where "k = length (concat bs)"
  define up where "up = map (conv_block opcode_up) bs"
  define h8 where "h8 = [m ! 0, m ! 1, m ! 2, m ! 3, m ! 4, m ! 5, 0, m ! 7, m ! 6, m ! 7, m ! 8, m ! 9, m ! 10]"
  define h7 where "h7 = [m ! 0, m ! 1, m ! 2, m ! 3, m ! 4, m ! 5, m ! 6, m ! 7, m ! 8, m ! 9, m ! 10]"
  define m8 where "m8 = h8 @ concat up @ drop (13 + k) m"
  have l: "13 \<le> length m" "k + 13 \<le> length m" using m n(2) by (simp_all add: RULE_WORDS_def k_def)
  note t13 = take13 [OF l(1)]
  have blk: "is_block (conv_block opcode_up b) \<and> conv_block opcode_down (conv_block opcode_up b) = b \<and> length (conv_block opcode_up b) = length b"
    if "is_block b \<and> opcode (head_insn b) \<noteq> 255" for b
    using that opcode_up_down [of "hd b"] by (cases b) (simp_all add: is_block_def conv_block_def)
  have up: "\<forall>b\<in>set up. is_block b" "map (conv_block opcode_down) up = bs" "length (concat up) = k"
    using bs(2) blk by (auto simp: up_def map_idI length_concat k_def comp_def cong: map_cong)
  have "m = take 11 m @ concat bs @ drop (11 + k) m"
    using bs(1) by (metis add.commute append_take_drop_id drop_drop k_def)
  then have "conv_loop opcode_up m k 11 13 m = Some (0, take 13 m @ concat up @ drop (13 + k) m)"
    using conv_loop_blocks [where bs = bs and p = "take 11 m" and r = "drop (11 + k) m" and q = "take 13 m" and d = "drop 13 m" and f = opcode_up]
      bs(2) l by (simp add: k_def up_def add.commute)
  then have c8: "convert_rule_to_8 True m = Some (0, m8)"
    unfolding convert_rule_to_8_def n(1) k_def [symmetric] t13 by (simp add: m8_def h8_def)
  have h: "length h8 = 13" "length h7 = 11" by (simp_all add: h8_def h7_def)
  have m8: "m8 ! 4 = m ! 4" "drop 13 m8 = concat up @ drop (13 + k) m" "m8 = h8 @ concat up @ drop (13 + k) m"
    by (simp_all add: m8_def h8_def)
  have m8l: "length m8 = length m" using l(2) unfolding m8_def length_append h length_drop up(3) by linarith
  define x where "x = m8[6 := m8 ! 8, 7 := m8 ! 9, 8 := m8 ! 10, 9 := m8 ! 11, 10 := m8 ! 12]"
  have x: "x = h7 @ drop 11 x" "length x = length m" using m8l by (simp_all add: x_def) (simp add: m8(3) h8_def h7_def)
  have "conv_loop opcode_down (h8 @ concat up @ drop (13 + k) m) (length (concat up)) (length h8) (length h7) (h7 @ drop 11 x) =
      Some (0, h7 @ concat (map (conv_block opcode_down) up) @ drop (length (concat up)) (drop 11 x))"
    by (rule conv_loop_blocks) (use up x(2) l in simp_all)
  then have c7: "convert_rule_to_7 True m8 = Some (0, h7 @ concat bs @ drop k (drop 11 x))"
    unfolding convert_rule_to_7_def x_def [symmetric] m8(1) n(1) k_def [symmetric] up(2,3) h m8(3) [symmetric] x(1) [symmetric] by simp
  have "take 11 m = h7" using arg_cong [OF t13, of "take 11"] by (simp add: h7_def)
  then have "take (11 + k) m = h7 @ concat bs" using bs(1) by (simp add: take_add k_def)
  then have t7: "take (11 + k) (h7 @ concat bs @ drop k (drop 11 x)) = take (11 + k) m" using h by (simp add: k_def)
  have "rule8_of m8 = (rule7_of m)\<lparr>fw_cmd := concat up @ drop (13 + k) m\<rparr>"
    unfolding rule8_of_def rule7_of_def m8(2) by (simp add: m8_def h8_def)
  then show ?thesis using c8 c7 t7 by (auto simp: up_def k_def)
qed

text \<open>An old rule with an instruction behind \<open>O_NAT\<close>.\<close>

definition old_mem :: "u32 list" where
  "old_mem = [0, 0, 0, 0, 0x20001, 100, 0, 0, 0, 0, 0, 0x14D, 0x12D] @ replicate 243 0"

theorem convert_rule_roundtrip_witness:
  "\<exists>m8 m7. convert_rule_to_8 True old_mem = Some (0, m8) \<and> take 2 (fw_cmd (rule8_of m8)) = [0x14E, 0x12D] \<and>
    convert_rule_to_7 True m8 = Some (0, m7) \<and> take 13 m7 = take 13 old_mem"
proof -
  have w: "F_LEN (insn_of 0x14D) = 1" "opcode (insn_of 0x14D) = 77" "F_LEN (insn_of 0x12D) = 1" "opcode (insn_of 0x12D) = 45"
    by (simp_all add: insn_words F_LEN_MASK_def)
  have up: "opcode_up 0x14D = 0x14E" "opcode_up 0x12D = 0x12D"
    by (simp_all add: opcode_up_def w O_NAT_def Let_def set_opcode_def)
  have m: "length old_mem = RULE_WORDS" "hi16 (old_mem ! 4) = length (concat [[0x14D], [0x12D :: u32]])"
      "13 + length (concat [[0x14D], [0x12D :: u32]]) \<le> RULE_WORDS"
      "take (length (concat [[0x14D], [0x12D :: u32]])) (drop 11 old_mem) = concat [[0x14D], [0x12D]]"
      "\<forall>b\<in>set [[0x14D], [0x12D]]. is_block b \<and> opcode (head_insn b) \<noteq> 255"
    by (simp_all add: old_mem_def RULE_WORDS_def hi16_def is_block_def w)
  from convert_rule_roundtrip [OF this] obtain m8 m7 where
    "convert_rule_to_8 True old_mem = Some (0, m8)"
    "rule8_of m8 = (rule7_of old_mem)\<lparr>fw_cmd := concat (map (conv_block opcode_up) [[0x14D], [0x12D]]) @ drop (13 + length (concat [[0x14D], [0x12D :: u32]])) old_mem\<rparr>"
    "convert_rule_to_7 True m8 = Some (0, m7)"
    "take (11 + length (concat [[0x14D], [0x12D :: u32]])) m7 = take (11 + length (concat [[0x14D], [0x12D :: u32]])) old_mem" by blast
  then show ?thesis by (intro exI [of _ m8] exI [of _ m7]) (simp add: conv_block_def up)
qed

text \<open>An instruction of length zero: the loop over it does not end.\<close>

lemma conv_zero_length: "rd_insn tmp sp = Some i \<Longrightarrow> F_LEN i = 0 \<Longrightarrow> 0 < ll \<Longrightarrow> conv_loop f tmp ll sp dp m = None"
proof (rule ccontr)
  assume i: "rd_insn tmp sp = Some i" "F_LEN i = 0" "0 < ll" and "conv_loop f tmp ll sp dp m \<noteq> None"
  then obtain y where "conv_loop f tmp ll sp dp m = Some y" by blast
  then have "\<not> (rd_insn tmp sp = Some i \<and> F_LEN i = 0 \<and> 0 < ll)"
  proof (induction rule: conv_loop.raw_induct [rotated 1, consumes 1, case_names 1])
    case (1 loop f tmp ll sp dp m y)
    show ?case
    proof
      assume z: "rd_insn tmp sp = Some i \<and> F_LEN i = 0 \<and> 0 < ll"
      then obtain m' where "loop f tmp ll sp dp m' = Some y"
        using 1(2) by (auto simp: bind_eq_Some_conv Let_def split: if_splits)
      with 1(1) z show False by blast
    qed
  qed
  then show False using i by blast
qed

end
