(* ===== verification/FwList.thy ===== *)
theory FwList
  imports FwCheck
begin

text \<open>
  The listing of the rules: \<open>ipfw_getrules\<close> and \<open>IP_FW_GET\<close> of \<open>sys/netinet/ipfw/ip_fw_sockopt.c\<close> in both layouts,
  \<open>ipfw_dyn_len\<close> and \<open>ipfw_get_dynamic\<close> of \<open>sys/netinet/ipfw/ip_fw_dynamic.c\<close>. \<open>None\<close> is a listing that does not return
  or leaves the memory it works in.
\<close>

section \<open>Dynamic rules\<close>

text \<open>A dynamic rule; \<open>dr_rule\<close> is the address of the rule it belongs to. The table is the array of buckets, once it is allocated.\<close>

record dyn_rule =
  dr_rule :: nat
  dr_parent :: nat
  dr_pcnt :: u64
  dr_bcnt :: u64
  dr_id :: ipfw_flow_id
  dr_expire :: u32
  dr_bucket :: u32
  dr_state :: u32
  dr_ack_fwd :: u32
  dr_ack_rev :: u32
  dr_type :: u16
  dr_count :: u16

record dyn_tab =
  ipfw_dyn_v :: "(nat \<Rightarrow> dyn_rule list) option"
  curr_dyn_buckets :: nat
  dyn_count :: nat

definition sizeof_dyn_rule :: nat where "sizeof_dyn_rule = 120"

definition ipfw_dyn_len :: "dyn_tab \<Rightarrow> int" where
  "ipfw_dyn_len t = (if ipfw_dyn_v t = None then 0 else s32 (int (dyn_count t * sizeof_dyn_rule)))"

text \<open>
  A dynamic rule as it is exported: instead of the pointer to its rule the number and the set of the rule, instead of
  the expiry the time that is left; \<open>ed_last\<close> is a null pointer to the next one.
\<close>

record ex_dyn =
  ed_dyn :: dyn_rule
  ed_num :: nat
  ed_set :: nat
  ed_last :: bool

definition dyn_entry :: "u32 \<Rightarrow> (nat \<Rightarrow> ip_fw) \<Rightarrow> dyn_rule \<Rightarrow> ex_dyn" where
  "dyn_entry now rl p =
     \<lparr>ed_dyn = p\<lparr>dr_expire := (if sint (dr_expire p - now) \<le> 0 then 0 else dr_expire p - now)\<rparr>,
      ed_num = rulenum (rl (dr_rule p)), ed_set = fw_set (rl (dr_rule p)), ed_last = False\<rparr>"

fun dyn_scan :: "u32 \<Rightarrow> (nat \<Rightarrow> ip_fw) \<Rightarrow> dyn_rule list \<Rightarrow> int \<Rightarrow> ex_dyn list" where
  "dyn_scan now rl [] room = []"
| "dyn_scan now rl (p # ps) room =
     (if int sizeof_dyn_rule \<le> room then dyn_entry now rl p # dyn_scan now rl ps (room - int sizeof_dyn_rule)
      else dyn_scan now rl ps room)"

definition mark_last :: "ex_dyn list \<Rightarrow> ex_dyn list" where
  "mark_last xs = (if xs = [] then [] else butlast xs @ [(last xs)\<lparr>ed_last := True\<rparr>])"

definition dyn_list :: "dyn_tab \<Rightarrow> dyn_rule list" where
  "dyn_list t = (case ipfw_dyn_v t of None \<Rightarrow> [] | Some b \<Rightarrow> concat (map b [0..<curr_dyn_buckets t]))"

definition ipfw_get_dynamic :: "u32 \<Rightarrow> (nat \<Rightarrow> ip_fw) \<Rightarrow> dyn_tab \<Rightarrow> int \<Rightarrow> ex_dyn list" where
  "ipfw_get_dynamic now rl t room = mark_last (dyn_scan now rl (dyn_list t) room)"

section \<open>The rules in the present layout\<close>

text \<open>
  The rules in their order, as many as fit: the low half of \<open>next_rule\<close> carries the disabled sets, the time of the
  last match becomes absolute. \<open>boot\<close> is the time of the start of the system.
\<close>

definition exported_rule :: "u32 \<Rightarrow> u32 \<Rightarrow> ip_fw \<Rightarrow> ip_fw" where
  "exported_rule dis boot r =
     r\<lparr>next_rule := next_rule r - next_rule r mod 2 ^ 32 + unat dis, timestamp := (if timestamp r \<noteq> 0 then timestamp r + boot else 0),
       fw_cmd := take (cmd_len r) (fw_cmd r)\<rparr>"

fun getrules8 :: "u32 \<Rightarrow> u32 \<Rightarrow> ip_fw list \<Rightarrow> int \<Rightarrow> ip_fw list" where
  "getrules8 dis boot [] room = []"
| "getrules8 dis boot (r # rs) room =
     (if room < int (RULESIZE r) then [] else exported_rule dis boot r # getrules8 dis boot rs (room - int (RULESIZE r)))"

section \<open>The rules in the old layout\<close>

text \<open>The words of a rule in the present layout, with padding of zeros.\<close>

definition lo32 :: "u64 \<Rightarrow> u32" where "lo32 w = ucast w"
definition hi32 :: "u64 \<Rightarrow> u32" where "hi32 w = ucast (drop_bit 32 w)"

definition rule_words :: "ip_fw \<Rightarrow> u32 list" where
  "rule_words r =
     [lo32 (of_nat (x_next r)), hi32 (of_nat (x_next r)), lo32 (of_nat (next_rule r)), hi32 (of_nat (next_rule r)),
      of_nat (act_ofs r) OR push_bit 16 (of_nat (cmd_len r)), of_nat (rulenum r) OR push_bit 16 (of_nat (fw_set r)),
      fw_id r, 0, lo32 (pcnt r), hi32 (pcnt r), lo32 (bcnt r), hi32 (bcnt r), timestamp r] @ take (cmd_len r) (fw_cmd r)"

definition put_words :: "nat \<Rightarrow> u32 list \<Rightarrow> u32 list \<Rightarrow> u32 list" where
  "put_words p ws m = take p m @ ws @ drop (p + length ws) m"

text \<open>
  \<open>m\<close> is the memory from the buffer on, with what lies behind it, as each conversion reads and writes \<open>RULE_MAXSIZE\<close> bytes;
  \<open>bp\<close> is the word the next rule goes to. A rule that does not fit is left out and the next one is tried. The copy has one word more than the
  rule in the old layout, which is one word less than the rule. \<open>ok n\<close> is the outcome of the \<open>n\<close>-th allocation.
\<close>

fun getrules7 ::
  "u32 \<Rightarrow> u32 \<Rightarrow> int \<Rightarrow> (nat \<Rightarrow> bool) \<Rightarrow> ip_fw list \<Rightarrow> nat \<Rightarrow> u32 list \<Rightarrow> (nat \<times> nat \<times> u32 list) option" where
  "getrules7 dis boot room ok [] bp m = Some (0, bp, m)"
| "getrules7 dis boot room ok (r # rs) bp m =
     (if int (4 * bp + RULESIZE7 r + 4) \<le> room then
        (let m = put_words bp (take (RULESIZE7 r div 4 + 1) (rule_words r)) m in do {
           (err, blk) \<leftarrow> convert_rule_to_7 (ok 0) (take RULE_WORDS (drop bp m));
           let m = put_words bp blk m;
           let t = m ! (bp + 10);
           if err \<noteq> 0 then Some (err, bp, m)
           else getrules7 dis boot room (\<lambda>n. ok (Suc n)) rs (bp + RULESIZE7 r div 4)
                  (m[bp + 2 := dis, bp + 10 := (if t \<noteq> 0 then t + boot else t)])
         })
      else getrules7 dis boot room ok rs bp m)"

section \<open>The listing\<close>

text \<open>What a listing takes from outside: times, the outcomes of the allocations of the attempts and of the conversions, the memory.\<close>

record fw_list_env =
  le_boot :: u32
  le_now :: u32
  le_mem :: "nat \<Rightarrow> bool"
  le_mem7 :: "nat \<Rightarrow> nat \<Rightarrow> bool"
  le_bytes :: "nat \<Rightarrow> u32 list"

datatype listing = List8 "ip_fw list" "ex_dyn list" | List7 "u32 list" "ex_dyn list"

definition ipfw_getrules :: "fw_list_env \<Rightarrow> nat \<Rightarrow> bool \<Rightarrow> fw_chain \<Rightarrow> dyn_tab \<Rightarrow> int \<Rightarrow> listing option" where
  "ipfw_getrules le i is7 c t room =
     (let rs = map (rules c) (cmap c) in
      if is7 then do {
        (err, bp, m) \<leftarrow> getrules7 (set_disable c) (le_boot le) room (le_mem7 le i) rs 0 (le_bytes le i);
        Some (if err \<noteq> 0 then List7 [] []
              else List7 (take bp m) (ipfw_get_dynamic (le_now le) (rules c) t (room - int (4 * bp))))
      } else
        (let xs = getrules8 (set_disable c) (le_boot le) rs room
         in Some (List8 xs (ipfw_get_dynamic (le_now le) (rules c) t (room - (\<Sum>r\<leftarrow>xs. int (RULESIZE r)))))))"

text \<open>
  The loop of \<open>IP_FW_GET\<close>: the space is computed without the lock in state \<open>ss i\<close> and again under the lock in the next
  state; the dynamic rules have a lock of their own, and are copied in the state after that. The result is what is
  copied to the user, if anything.
\<close>

partial_function (option) fw_get_loop ::
  "fw_list_env \<Rightarrow> nat \<Rightarrow> (nat \<Rightarrow> dyn_tab fw_sys) \<Rightarrow> nat \<Rightarrow> listing option option" where
  "fw_get_loop le valsize ss i =
     (let room = static_len (fw_chain_of (ss i)) + ipfw_dyn_len (fw_dyn (ss i));
          s = ss (i + 1); c = fw_chain_of s; want = static_len c + ipfw_dyn_len (fw_dyn s)
      in if int valsize \<le> room then Some None
         else if \<not> le_mem le i then Some None
         else if want \<le> room then map_option Some (ipfw_getrules le i (fw_is7 s) c (fw_dyn (ss (i + 2))) room)
         else fw_get_loop le valsize ss (i + 3))"

declare fw_get_loop.simps [code]

end
