(* ===== verification/FwLife.thy ===== *)
theory FwLife
  imports FwDelOk FwCheckOk FwList
begin

text \<open>
  The life of the chain: whatever is added, deleted, moved between sets, zeroed or enabled, the chain stays in order
  and the space it announces for a listing is exact. A listing is therefore a snapshot of all rules.
\<close>

section \<open>What an operation may change\<close>

definition static_exact :: "fw_chain \<Rightarrow> bool" where
  "static_exact c \<longleftrightarrow> static_len c = (\<Sum>a\<leftarrow>cmap c. int (RULESIZE (rules c a)))"

definition chain_inv :: "fw_chain \<Rightarrow> bool" where
  "chain_inv c \<longleftrightarrow> chain_ok c \<and> static_exact c"

text \<open>Two chains that differ in counters, sets, words and variables only.\<close>

definition same_rules :: "fw_chain \<Rightarrow> fw_chain \<Rightarrow> bool" where
  "same_rules c c' \<longleftrightarrow> cmap c' = cmap c \<and> chain_id c' = chain_id c \<and> static_len c' = static_len c \<and>
     (\<forall>a. rulenum (rules c' a) = rulenum (rules c a) \<and> fw_id (rules c' a) = fw_id (rules c a) \<and> cmd_len (rules c' a) = cmd_len (rules c a))"

lemma same_rules_refl [simp, intro]: "same_rules c c"
  by (simp add: same_rules_def)

lemma same_rules_trans: "same_rules c c' \<Longrightarrow> same_rules c' c'' \<Longrightarrow> same_rules c c''"
  by (simp add: same_rules_def)

lemma same_rules_inv: "same_rules c c' \<Longrightarrow> chain_inv c \<Longrightarrow> chain_inv c'"
  by (auto simp: same_rules_def chain_inv_def chain_ok_def static_exact_def rule_less_def before_def RULESIZE_def cong: map_cong)

lemma same_rules_upd:
  "(\<And>r. rulenum (f r) = rulenum r \<and> fw_id (f r) = fw_id r \<and> cmd_len (f r) = cmd_len r) \<Longrightarrow> same_rules c (upd_rule a f c)"
  by (simp add: same_rules_def)

lemma map_sets_same: "same_rules c (map_sets f c)"
proof -
  have "same_rules c (fold (\<lambda>a. upd_rule a (\<lambda>r. r\<lparr>fw_set := f r\<rparr>)) as d)" if "same_rules c d" for as d
    using that
  proof (induction as arbitrary: d)
    case (Cons a as)
    then show ?case using same_rules_trans [OF Cons.prems same_rules_upd [of "\<lambda>r. r\<lparr>fw_set := f r\<rparr>" d a]] by simp
  qed simp
  then show ?thesis by (simp add: map_sets_def)
qed

lemma clear_counters_same:
  "clear_counters lo r = Some r' \<Longrightarrow> rulenum r' = rulenum r \<and> fw_id r' = fw_id r \<and> cmd_len r' = cmd_len r"
  by (cases "rd_insn (fw_cmd r) (act_ofs r)"; cases "rd (fw_cmd r) (act_ofs r + 1)"; cases "rd (fw_cmd r) (act_ofs r + 2)")
     (auto simp: clear_counters_def Let_def split: if_splits)

lemma clear_rules_same: "clear_rules P lo as c = Some c' \<Longrightarrow> same_rules c c'"
proof (induction P lo as c rule: clear_rules.induct)
  case (2 P lo a as c)
  show ?case
  proof (cases "P (rules c a)")
    case True
    then obtain r where r: "clear_counters lo (rules c a) = Some r" "clear_rules P lo as (upd_rule a (\<lambda>_. r) c) = Some c'"
      using 2(3) by (auto simp: bind_eq_Some_conv)
    have "same_rules c (upd_rule a (\<lambda>_. r) c)" using clear_counters_same [OF r(1)] by (simp add: same_rules_def)
    then show ?thesis using same_rules_trans 2(1) [OF True r] by blast
  next
    case False
    then show ?thesis using 2 by simp
  qed
qed simp

lemma zero_entry_same: "zero_entry arg lo c = Some (e, c') \<Longrightarrow> same_rules c c'"
proof -
  have n: "same_rules (c\<lparr>norule_counter := 0\<rparr>) d \<Longrightarrow> same_rules c d" for d by (simp add: same_rules_def)
  assume "zero_entry arg lo c = Some (e, c')"
  then show ?thesis by (auto simp: zero_entry_def Let_def dest!: clear_rules_same intro: n split: if_splits)
qed

section \<open>Deleting and adding\<close>

lemma sum_list_filter_split:
  "(\<Sum>a\<leftarrow>filter K xs. f a) = (\<Sum>a\<leftarrow>xs. f a) - (\<Sum>a\<leftarrow>filter (\<lambda>a. \<not> K a) xs. f a :: int)"
  by (induction xs) auto

lemma del_filter_static: "static_exact c \<Longrightarrow> static_exact (fst (del_filter rm cmd set1 num c d))"
  by (simp add: static_exact_def del_filter_def Let_def swap_map_def sum_list_filter_split [where K = "kept c cmd set1 num"])

lemma del_entry_inv:
  assumes "chain_inv c" "chain_id c \<noteq> - 1"
  shows "chain_inv (fst (snd (del_entry rm mem arg c d)))"
proof (cases "del_valid arg")
  case True
  then show ?thesis
  proof -
    have c: "chain_ok c" "static_exact c" using assms(1) by (simp_all add: chain_inv_def)
    note t = del_entry_law [OF c(1) True assms(2), of rm mem d]
    have "static_exact (fst (snd (del_entry rm mem arg c d)))"
      unfolding conjunct1 [OF t] using c(2) by (simp add: del_filter_static del: One_nat_def)
    then show ?thesis using conjunct2 [OF t] by (simp add: chain_inv_def)
  qed
next
  case False
  have "same_rules c (fst (snd (del_entry rm mem arg c d)))"
  proof (cases "5 < del_cmd arg \<or> RESVD_SET < del_set arg")
    case True
    then show ?thesis by (simp add: del_entry_def Let_def)
  next
    case ok: False
    consider "del_cmd arg \<in> {0, 1, 5}" | "del_cmd arg \<in> {2, 3, 4}" using ok by force
    then show ?thesis
    proof cases
      case 1
      then have "del_entry rm mem arg c d = (EINVAL, c, d, [])" using False ok by (auto simp: del_entry_def del_valid_def Let_def)
      then show ?thesis by simp
    next
      case 2
      then show ?thesis using map_sets_same by (auto simp: del_entry_def Let_def)
    qed
  qed
  then show ?thesis using same_rules_inv assms(1) by blast
qed

lemma add_static:
  assumes ok: "chain_inv c" and a: "a \<notin> set (cmap c)" and add: "ipfw_add_rule ok1 ok2 a input c = (e, n, c')"
  shows "static_exact c'"
proof (cases "\<not> has_rules c \<or> IPFW_DEFAULT_RULE - 1 < rulenum input \<or> \<not> ok1 \<or> \<not> ok2")
  case True
  then show ?thesis using ok add by (auto simp: ipfw_add_rule_def chain_inv_def split: if_splits)
next
  case False
  then obtain i r where c': "cmap c' = take i (cmap c) @ a # drop i (cmap c)" "rules c' = (rules c)(a := r)"
      "static_len c' = static_len c + int (RULESIZE r)"
    using add by (auto simp: ipfw_add_rule_def Let_def swap_map_def)
  have "(\<Sum>b\<leftarrow>xs. int (RULESIZE (rules c' b))) = (\<Sum>b\<leftarrow>xs. int (RULESIZE (rules c b)))" if "a \<notin> set xs" for xs
    using that by (auto simp: c'(2) intro!: arg_cong [where f = sum_list] map_cong)
  moreover have "a \<notin> set (take i (cmap c))" "a \<notin> set (drop i (cmap c))" using a by (auto dest: in_set_takeD in_set_dropD)
  ultimately have "(\<Sum>b\<leftarrow>cmap c'. int (RULESIZE (rules c' b))) =
      int (RULESIZE r) + ((\<Sum>b\<leftarrow>take i (cmap c). int (RULESIZE (rules c b))) + (\<Sum>b\<leftarrow>drop i (cmap c). int (RULESIZE (rules c b))))"
    by (simp add: c'(1)) (simp add: c'(2))
  also have "\<dots> = int (RULESIZE r) + (\<Sum>b\<leftarrow>cmap c. int (RULESIZE (rules c b)))"
    by (subst append_take_drop_id [of i "cmap c", symmetric]) (simp only: map_append sum_list_append)
  finally show ?thesis using ok by (simp add: static_exact_def chain_inv_def c'(3))
qed

section \<open>Any sequence of operations\<close>

text \<open>The dynamic rules have no influence on the chain; their state is left out.\<close>

inductive fw_step :: "fw_chain \<Rightarrow> fw_chain \<Rightarrow> bool" where
  add: "ipfw_add_rule ok1 ok2 a input c = (e, n, c') \<Longrightarrow> a \<notin> set (cmap c) \<Longrightarrow> chain_id c \<noteq> - 1 \<Longrightarrow> fw_step c c'"
| del: "chain_id c \<noteq> - 1 \<Longrightarrow> fw_step c (fst (snd (del_entry (\<lambda>_ d. d) mem arg c ())))"
| zero: "zero_entry arg log_only c = Some (e, c') \<Longrightarrow> fw_step c c'"
| sets: "fw_step c (set_enable dis en c)"

lemma fw_step_inv: "fw_step c c' \<Longrightarrow> chain_inv c \<Longrightarrow> chain_inv c'"
proof (induction rule: fw_step.induct)
  case (add ok1 ok2 a input c e n c')
  have "chain_ok c'"
  proof (cases "e = 0")
    case True
    then show ?thesis using add_rule_law [of c a ok1 ok2 input n c'] add by (simp add: chain_inv_def)
  next
    case False
    then have "c' = c"
      using add(1) by (cases "has_rules c"; cases "IPFW_DEFAULT_RULE - 1 < rulenum input"; cases ok1; cases ok2) (simp_all add: ipfw_add_rule_def Let_def)
    then show ?thesis using add(4) by (simp add: chain_inv_def)
  qed
  then show ?case using add_static add by (simp add: chain_inv_def)
next
  case (del c mem arg)
  then show ?case by (intro del_entry_inv)
next
  case (zero arg log_only c e c')
  then show ?case using same_rules_inv [OF zero_entry_same] by blast
next
  case (sets c dis en)
  then show ?case by (rule same_rules_inv [rotated]) (simp add: same_rules_def set_enable_def)
qed

lemma init_inv: "chain_inv (vnet_ipfw_init acc a dis)"
  by (simp add: chain_inv_def chain_ok_def static_exact_def vnet_ipfw_init_def default_rule_def RULESIZE_def)

text \<open>C19: From the start on, over any sequence of additions, deletions, moves between sets, resets of counters and changes of
  the enabled sets, with any arguments and outcomes of allocations, as long as the identifier of the chain does not wrap
  around, the chain is in order with the default rule last, and \<open>static_len\<close> is exactly the size of its rules.\<close>

theorem chain_life_ok: "fw_step\<^sup>*\<^sup>* (vnet_ipfw_init acc a dis) c \<Longrightarrow> chain_ok c \<and> static_exact c"
proof (induction rule: rtranclp_induct)
  case base
  show ?case using init_inv by (simp add: chain_inv_def)
next
  case (step c c')
  then show ?case using fw_step_inv by (simp add: chain_inv_def)
qed

text \<open>The default rule, and then a rule with number 100.\<close>

theorem chain_life_ok_witness:
  "\<exists>c. fw_step\<^sup>*\<^sup>* (vnet_ipfw_init True 0 0) c \<and> cmap c = [1, 0] \<and> chain_ok c \<and> static_exact c"
proof -
  define i where "i = vnet_ipfw_init True 0 0"
  have f: "ipfw_find_rule (i\<lparr>autoinc_step := x\<rparr>) key 0 = 0" for x key
    by (simp add: ipfw_find_rule_def i_def vnet_ipfw_init_def find_loop.simps)
  have "cmap (snd (snd (ipfw_add_rule True True 1 tcp_rule i))) = [1, 0]"
    by (simp add: ipfw_add_rule_def add_position_def f Let_def tcp_rule_def IPFW_DEFAULT_RULE_def swap_map_def)
       (simp add: i_def vnet_ipfw_init_def)
  then obtain c where c: "ipfw_add_rule True True 1 tcp_rule i = (fst (ipfw_add_rule True True 1 tcp_rule i), fst (snd (ipfw_add_rule True True 1 tcp_rule i)), c)" "cmap c = [1, 0]"
    by (metis prod.collapse)
  have "fw_step i c" using c(1) by (rule fw_step.add) (simp_all add: i_def vnet_ipfw_init_def)
  then have "fw_step\<^sup>*\<^sup>* (vnet_ipfw_init True 0 0) c" by (simp add: i_def)
  then show ?thesis using chain_life_ok [of True 0 0 c] c(2) by blast
qed

section \<open>Listing\<close>



lemma exported_size [simp]: "RULESIZE (exported_rule dis boot r) = RULESIZE r"
  by (simp add: exported_rule_def RULESIZE_def)



text \<open>
  In the old layout (\<open>is7\<close>) a rule does not survive: the last of its words is not copied, and the conversion takes what
  happens to be in the buffer for an instruction. A buffer of zeros, which is what \<open>malloc\<close> gives under Linux, makes the conversion of a rule with a
  single instruction of one word, as the default rule, go on for ever.
\<close>

lemma list7_hangs:
  assumes "cmap c = [a]" "rules c a = default_rule acc" "52 \<le> room"
  shows "ipfw_getrules (le\<lparr>le_bytes := \<lambda>_. replicate 300 0, le_mem7 := \<lambda>_ _. True\<rparr>) i True c t room = None"
proof -
  define m :: "u32 list" where "m = put_words 0 (take 13 (rule_words (default_rule acc))) (replicate 300 0)"
  define w where "w = take RULE_WORDS m"
  have l: "length (take 13 (rule_words (default_rule acc))) = 13" by (simp add: rule_words_def)
  have z: "w ! 13 = 0" "13 < length w" using l by (simp_all add: w_def m_def put_words_def RULE_WORDS_def nth_append)
  have c: "hi16 (w ! 4) = 1"
    by (simp add: w_def m_def put_words_def RULE_WORDS_def rule_words_def default_rule_def hi16_def)
  have "rd_insn w 13 = Some (insn_of 0)" using z by (simp add: rd_insn_def rd_def)
  moreover have "F_LEN (insn_of 0) = 0" by (simp add: insn_words F_LEN_MASK_def)
  ultimately have "conv_loop opcode_down w (hi16 (w ! 4)) 13 11 m' = None" for m'
    unfolding c by (rule conv_zero_length) simp
  then have "convert_rule_to_7 True w = None" by (simp add: convert_rule_to_7_def)
  moreover have "RULESIZE7 (default_rule acc) = 48" by (simp add: RULESIZE7_def sizeof_ip_fw7_def default_rule_def)
  ultimately show ?thesis using assms by (simp add: ipfw_getrules_def Let_def m_def w_def)
qed






end
