(* ===== verification/InCksum.thy ===== *)
theory InCksum
  imports DnTypes
begin

text \<open>
  The Internet checksum (\<open>sys/netinet/in_cksum.c\<close>) over a chain of buffers, and what it promises: for every cut of the
  data in buffers and every alignment of them it is the one's complement of the one's complement sum of the 16-bit
  words of the data. The sum of the code is an \<open>int\<close>, here its 32 bits; words are loaded by a little-endian machine.
\<close>

section \<open>The code\<close>

text \<open>A buffer: whether its address is odd, and its bytes.\<close>

type_synonym ck_buf = "bool \<times> u8 list"

text \<open>\<open>ck_mid\<close> says that a byte is kept for the next buffer (\<open>mlen\<close> is -1); \<open>ck_c0\<close> is \<open>s_util.c[0]\<close>.\<close>

record cksum_state =
  ck_sum :: u32
  ck_len :: nat
  ck_mid :: bool
  ck_c0 :: u8

definition pair16 :: "u8 \<Rightarrow> u8 \<Rightarrow> u32" where
  "pair16 a b = ucast a + 256 * ucast b"

definition ck_reduce :: "u32 \<Rightarrow> u32" where
  "ck_reduce s = (let x = (s AND 0xffff) + drop_bit 16 s in if 65535 < x then x - 65535 else x)"

text \<open>\<open>n\<close> words are added; the unrolled loop does it as long as they are there.\<close>

fun sum_words :: "nat \<Rightarrow> u8 list \<Rightarrow> u32 \<Rightarrow> u32" where
  "sum_words (Suc n) (a # b # bs) s = sum_words n bs (s + pair16 a b)"
| "sum_words n bs s = s"

function chunk_loop :: "nat \<Rightarrow> u8 list \<Rightarrow> u32 \<Rightarrow> u32 \<times> u8 list" where
  "chunk_loop n bs s =
     (if 0 < n \<and> 2 * n \<le> length bs then chunk_loop n (drop (2 * n) bs) (sum_words n bs s) else (s, bs))"
  by pat_completeness auto
termination by (relation "measure (\<lambda>(n, bs, s). length bs)") auto

declare chunk_loop.simps [simp del]

text \<open>The bytes of a buffer that are left after the first ones are added.\<close>

definition ck_body :: "bool \<Rightarrow> u8 list \<Rightarrow> cksum_state \<Rightarrow> cksum_state" where
  "ck_body swapped bs c =
     (let (s, bs) = chunk_loop 16 bs (ck_sum c); (s, bs) = chunk_loop 4 bs s
      in if bs = [] \<and> \<not> swapped then c\<lparr>ck_sum := s, ck_mid := False\<rparr>
         else
           let (s, bs) = chunk_loop 1 bs (ck_reduce s)
           in if swapped then
                let s = push_bit 8 (ck_reduce s)
                in if bs \<noteq> [] then c\<lparr>ck_sum := s + pair16 (ck_c0 c) (hd bs), ck_mid := False\<rparr>
                   else c\<lparr>ck_sum := s, ck_mid := True\<rparr>
              else if bs \<noteq> [] then c\<lparr>ck_sum := s, ck_mid := True, ck_c0 := hd bs\<rparr>
              else c\<lparr>ck_sum := s, ck_mid := False\<rparr>)"

text \<open>A buffer at an odd address: its first byte is kept and the sum is turned.\<close>

definition ck_align :: "bool \<Rightarrow> u8 list \<Rightarrow> cksum_state \<Rightarrow> cksum_state" where
  "ck_align od bs c =
     (if od \<and> bs \<noteq> [] then ck_body True (tl bs) (c\<lparr>ck_sum := push_bit 8 (ck_reduce (ck_sum c)), ck_c0 := hd bs\<rparr>)
      else ck_body False bs c)"

definition ck_take :: "bool \<Rightarrow> u8 list \<Rightarrow> cksum_state \<Rightarrow> cksum_state" where
  "ck_take od bs c =
     (let bs = take (ck_len c) bs in ck_align od bs (c\<lparr>ck_len := ck_len c - length bs\<rparr>))"

definition ck_mbuf :: "ck_buf \<Rightarrow> cksum_state \<Rightarrow> cksum_state" where
  "ck_mbuf m c =
     (case m of (od, bs) \<Rightarrow>
        if bs = [] then c
        else if ck_mid c then
          ck_take (\<not> od) (tl bs) (c\<lparr>ck_sum := ck_sum c + pair16 (ck_c0 c) (hd bs), ck_len := ck_len c - 1\<rparr>)
        else ck_take od bs c)"

fun ck_loop :: "ck_buf list \<Rightarrow> cksum_state \<Rightarrow> cksum_state" where
  "ck_loop [] c = c"
| "ck_loop (m # ms) c = (if ck_len c = 0 then c else ck_loop ms (ck_mbuf m c))"

definition in_cksum :: "ck_buf list \<Rightarrow> nat \<Rightarrow> u16" where
  "in_cksum ms len =
     (let c = ck_loop ms \<lparr>ck_sum = 0, ck_len = len, ck_mid = False, ck_c0 = 0\<rparr>;
          s = (if ck_mid c then ck_sum c + pair16 (ck_c0 c) 0 else ck_sum c)
      in ucast (NOT (ck_reduce s) AND 0xffff))"

section \<open>The reference\<close>

text \<open>The sum of the words, with the carry added at the other end.\<close>

definition oc_add :: "nat \<Rightarrow> nat \<Rightarrow> nat" where
  "oc_add x y = (if 65535 < x + y then x + y - 65535 else x + y)"

fun oc_sum :: "u8 list \<Rightarrow> nat" where
  "oc_sum [] = 0"
| "oc_sum [a] = unat a"
| "oc_sum (a # b # bs) = oc_add (unat a + 256 * unat b) (oc_sum bs)"

text \<open>The same without the carry.\<close>

fun le_sum :: "u8 list \<Rightarrow> nat" where
  "le_sum [] = 0"
| "le_sum [a] = unat a"
| "le_sum (a # b # bs) = unat a + 256 * unat b + le_sum bs"

text \<open>\<open>same x y\<close>: both stand for the same one's complement number.\<close>

definition oc_same :: "nat \<Rightarrow> nat \<Rightarrow> bool" where
  "oc_same x y \<longleftrightarrow> x mod 65535 = y mod 65535 \<and> (x = 0 \<longleftrightarrow> y = 0)"

lemma oc_same_refl [simp, intro]: "oc_same x x"
  by (simp add: oc_same_def)

lemma oc_same_sym: "oc_same x y \<Longrightarrow> oc_same y x"
  by (auto simp: oc_same_def)

lemma oc_same_trans [trans]: "oc_same x y \<Longrightarrow> oc_same y z \<Longrightarrow> oc_same x z"
  by (auto simp: oc_same_def)

lemma oc_same_add: "oc_same x y \<Longrightarrow> oc_same v w \<Longrightarrow> oc_same (x + v) (y + w)"
  unfolding oc_same_def by (metis add_eq_0_iff_both_eq_0 mod_add_eq)

lemma oc_same_mult: "oc_same x y \<Longrightarrow> oc_same (k * x) (k * y)"
  unfolding oc_same_def by (metis mod_mult_right_eq mult_is_0)

lemma oc_same_turn: "oc_same (65536 * x) x"
proof -
  have "65536 * x = x + 65535 * x" by simp
  then show ?thesis unfolding oc_same_def by (metis mod_mult_self2 mult_eq_0_iff zero_neq_numeral)
qed

lemma oc_same_fold: "65535 < x \<Longrightarrow> oc_same (x - 65535) x"
  using mod_add_self2 [of "x - 65535" 65535] by (simp add: oc_same_def)

lemma oc_same_unique: "oc_same x y \<Longrightarrow> x \<le> 65535 \<Longrightarrow> y \<le> 65535 \<Longrightarrow> x = y"
  unfolding oc_same_def by (cases "x = 65535"; cases "y = 65535") auto

lemma byte_le: "unat (a :: u8) \<le> 255"
proof -
  have "unat a < 2 ^ LENGTH(8)" by (rule unsigned_less)
  then show ?thesis by simp
qed

lemma oc_add_same: "x \<le> 65535 \<Longrightarrow> y \<le> 65535 \<Longrightarrow> oc_add x y \<le> 65535 \<and> oc_same (oc_add x y) (x + y)"
  by (auto simp: oc_add_def intro: oc_same_fold)

lemma oc_sum_same: "oc_sum bs \<le> 65535 \<and> oc_same (oc_sum bs) (le_sum bs)"
proof (induction bs rule: oc_sum.induct)
  case (2 a)
  show ?case using byte_le [of a] by simp
next
  case (3 a b bs)
  have "oc_add (unat a + 256 * unat b) (oc_sum bs) \<le> 65535 \<and>
      oc_same (oc_add (unat a + 256 * unat b) (oc_sum bs)) (unat a + 256 * unat b + oc_sum bs)"
    by (rule oc_add_same) (use 3 byte_le [of a] byte_le [of b] in auto)
  then show ?case using 3 oc_same_add [OF oc_same_refl [of "unat a + 256 * unat b"], of "oc_sum bs" "le_sum bs"]
    by (auto intro: oc_same_trans)
qed simp

section \<open>The code computes the reference\<close>

lemma pair16_unat: "unat (pair16 a b) = unat a + 256 * unat b"
proof -
  have "unat (256 * ucast b :: u32) = 256 * unat b"
    using byte_le [of b] by (simp add: unat_word_ariths unsigned_ucast_eq take_bit_nat_eq_self)
  moreover have "unat (ucast a :: u32) = unat a"
    using byte_le [of a] by (simp add: unsigned_ucast_eq take_bit_nat_eq_self)
  ultimately show ?thesis using byte_le [of a] byte_le [of b] by (simp add: pair16_def unat_word_ariths)
qed

lemma pair16_le: "unat (pair16 a b) \<le> 65535"
  using byte_le [of a] byte_le [of b] by (simp add: pair16_unat)

lemma reduce_same: "unat (ck_reduce s) \<le> 65535 \<and> oc_same (unat (ck_reduce s)) (unat s) \<and> unat (ck_reduce s) \<le> unat s"
proof -
  define x where "x = unat s mod 65536 + unat s div 65536"
  have m: "(0xffff :: u32) = mask 16" by (simp add: mask_eq_exp_minus_1)
  have s: "unat s < 4294967296" using unsigned_less [of s] by simp
  have "unat (drop_bit 16 s) = unat s div 65536" using s by (simp add: unsigned_drop_bit_eq drop_bit_nat_def take_bit_nat_eq_self)
  moreover have "unat (s AND 0xffff) = unat s mod 65536" 
    by (simp add: m take_bit_eq_mask [symmetric] unsigned_take_bit_eq take_bit_nat_def)
  moreover have "unat s div 65536 \<le> 65535" using s by linarith
  ultimately have x: "unat ((s AND 0xffff) + drop_bit 16 s) = x" "x \<le> 131070"
    using mod_less_divisor [of 65536 "unat s"] by (simp_all add: x_def unat_word_ariths)
  note dm = mult_div_mod_eq [of 65536 "unat s"]
  have sx: "unat s = x + 65535 * (unat s div 65536)" using dm unfolding x_def by linarith
  then have "unat s mod 65535 = x mod 65535" by (metis mod_mult_self2)
  moreover have "x = 0 \<Longrightarrow> unat s = 0" "unat s = 0 \<Longrightarrow> x = 0" using dm unfolding x_def by linarith+
  ultimately have same: "oc_same x (unat s)" unfolding oc_same_def by metis
  have sub: "unat (y - 65535) = unat y - 65535" if "65535 < unat y" for y :: u32
    using that by (simp add: unat_sub word_le_nat_alt)
  have r: "unat (ck_reduce s) = (if 65535 < x then x - 65535 else x)"
    using x by (simp add: ck_reduce_def Let_def word_less_nat_alt sub)
  show ?thesis
    using x(2) same oc_same_fold [of x] sx unfolding r by (auto intro: oc_same_trans)
qed

lemma le_sum_append: "even (length xs) \<Longrightarrow> le_sum (xs @ ys) = le_sum xs + le_sum ys"
  by (induction xs rule: le_sum.induct) auto

lemma le_sum_snoc: "le_sum (xs @ [b]) = le_sum xs + (if even (length xs) then unat b else 256 * unat b)"
  by (induction xs rule: le_sum.induct) auto

lemma le_sum_turn: "oc_same (256 * le_sum t + unat b) (le_sum (b # t))"
proof (induction t arbitrary: b rule: le_sum.induct)
  case (3 x y r)
  have "256 * le_sum (x # y # r) + unat b = unat b + 256 * unat x + (65536 * unat y + 256 * le_sum r)" by simp
  also have "oc_same \<dots> (unat b + 256 * unat x + (unat y + 256 * le_sum r))"
    by (intro oc_same_add oc_same_refl oc_same_turn)
  also have "oc_same \<dots> (unat b + 256 * unat x + le_sum (y # r))"
    using oc_same_add [OF oc_same_refl [of "unat b + 256 * unat x"] 3 [of y]] by (simp add: add.commute)
  finally show ?case by simp
qed (simp_all add: add.commute)

lemma half_zero: "2 * n \<le> Suc 0 \<Longrightarrow> n = 0"
  by simp

lemma sum_words_eq:
  "2 * n \<le> length bs \<Longrightarrow> unat s + 65535 * n < 4294967296 \<Longrightarrow>
    unat (sum_words n bs s) = unat s + le_sum (take (2 * n) bs) \<and> unat (sum_words n bs s) \<le> unat s + 65535 * n"
proof (induction n bs s rule: sum_words.induct)
  case (1 n a b bs s)
  have s: "unat (s + pair16 a b) = unat s + unat a + 256 * unat b"
    using "1.prems"(2) pair16_le [of a b] by (simp add: unat_word_ariths pair16_unat)
  have "unat (s + pair16 a b) \<le> unat s + 65535" using s pair16_le [of a b] by (simp add: pair16_unat)
  then show ?case using 1 by (simp add: s)
qed (auto dest: half_zero)

lemma chunk_loop_eq:
  "0 < n \<Longrightarrow> unat s + 65535 * (length bs div 2) < 4294967296 \<Longrightarrow> chunk_loop n bs s = (s', bs') \<Longrightarrow>
    unat s' + le_sum bs' = unat s + le_sum bs \<and> length bs' < 2 * n \<and> (even (length bs') \<longleftrightarrow> even (length bs)) \<and>
    unat s' + 65535 * (length bs' div 2) \<le> unat s + 65535 * (length bs div 2)"
proof (induction n bs s rule: chunk_loop.induct)
  case (1 n bs s)
  show ?case
  proof (cases "2 * n \<le> length bs")
    case False
    then show ?thesis using "1.prems" by (simp add: chunk_loop.simps)
  next
    case True
    have l: "65535 * (length bs div 2) = 65535 * n + 65535 * ((length bs - 2 * n) div 2)" 
    proof -
      obtain m where "length bs = 2 * n + m" using True le_iff_add by blast
      then show ?thesis by simp
    qed
    have "unat s + 65535 * n < 4294967296" using "1.prems"(2) l by linarith
    note sw = sum_words_eq [OF True this]
    have bs: "le_sum bs = le_sum (take (2 * n) bs) + le_sum (drop (2 * n) bs)"
      using le_sum_append [of "take (2 * n) bs" "drop (2 * n) bs"] True by simp
    have ev: "even (length bs - 2 * n) = even (length bs)" using True by simp
    have c: "chunk_loop n (drop (2 * n) bs) (sum_words n bs s) = (s', bs')"
      using "1.prems"(1,3) True by (simp add: chunk_loop.simps [of n bs])
    have "unat (sum_words n bs s) + 65535 * (length (drop (2 * n) bs) div 2) < 4294967296"
      using "1.prems"(2) sw l by simp
    from "1.IH" [OF conjI [OF "1.prems"(1) True] "1.prems"(1) this c] show ?thesis
      using sw l ev unfolding bs by simp
  qed
qed

text \<open>The number a state stands for.\<close>

definition ck_val :: "cksum_state \<Rightarrow> nat" where
  "ck_val c = unat (ck_sum c) + (if ck_mid c then unat (ck_c0 c) else 0)"

definition ck_bound :: "cksum_state \<Rightarrow> nat \<Rightarrow> bool" where
  "ck_bound c k \<longleftrightarrow> unat (ck_sum c) \<le> 65535 * (257 + k div 2)"

lemma push8_unat: "unat (s :: u32) \<le> 65535 \<Longrightarrow> unat (push_bit 8 s) = 256 * unat s"
  by (simp add: push_bit_eq_mult unat_word_ariths)

lemma single: "length bs < 2 \<Longrightarrow> bs = [] \<or> bs = [hd bs]"
  by (cases bs) auto

text \<open>The chunks of the body together, with the sum turned to at most 16 bits before the last ones.\<close>

definition ck_parts :: "cksum_state \<Rightarrow> u8 list \<Rightarrow> u32 \<Rightarrow> u8 list \<Rightarrow> u32 \<Rightarrow> u8 list \<Rightarrow> bool" where
  "ck_parts c bs sa ba sb bb \<longleftrightarrow>
     (\<forall>w. ck_body w bs c =
       (if ba = [] \<and> \<not> w then c\<lparr>ck_sum := sa, ck_mid := False\<rparr>
        else if w then
          if bb \<noteq> [] then c\<lparr>ck_sum := push_bit 8 (ck_reduce sb) + pair16 (ck_c0 c) (hd bb), ck_mid := False\<rparr>
          else c\<lparr>ck_sum := push_bit 8 (ck_reduce sb), ck_mid := True\<rparr>
        else if bb \<noteq> [] then c\<lparr>ck_sum := sb, ck_mid := True, ck_c0 := hd bb\<rparr>
        else c\<lparr>ck_sum := sb, ck_mid := False\<rparr>)) \<and>
     (ba = [] \<longrightarrow> unat sa = unat (ck_sum c) + le_sum bs \<and> even (length bs) \<and> unat sa \<le> unat (ck_sum c) + 65535 * (length bs div 2)) \<and>
     oc_same (unat sb + le_sum bb) (unat (ck_sum c) + le_sum bs) \<and> unat sb \<le> unat (ck_sum c) + 65535 * (length bs div 2) \<and>
     (bb = [] \<and> even (length bs) \<or> bb = [hd bb] \<and> odd (length bs))"

lemma body_chunks:
  assumes b: "unat (ck_sum c) + 65535 * (length bs div 2) < 4294967296"
  shows "\<exists>sa ba sb bb. ck_parts c bs sa ba sb bb"
proof -
  obtain s1 b1 where 1: "chunk_loop 16 bs (ck_sum c) = (s1, b1)" by (cases "chunk_loop 16 bs (ck_sum c)")
  obtain sa ba where 2: "chunk_loop 4 b1 s1 = (sa, ba)" by (cases "chunk_loop 4 b1 s1")
  obtain sb bb where 3: "chunk_loop 1 ba (ck_reduce sa) = (sb, bb)" by (cases "chunk_loop 1 ba (ck_reduce sa)")
  note e1 = chunk_loop_eq [OF zero_less_numeral b 1]
  then have "unat s1 + 65535 * (length b1 div 2) < 4294967296" using b by linarith
  note e2 = chunk_loop_eq [OF zero_less_numeral this 2]
  note r = reduce_same [of sa]
  have "unat (ck_reduce sa) + 65535 * (length ba div 2) < 4294967296" using r e1 e2 b by linarith
  note e3 = chunk_loop_eq [OF zero_less_one this 3]
  then have bb: "bb = [] \<or> bb = [hd bb]" by (intro single) simp
  have "even (length bb) = even (length bs)" using e1 e2 e3 by blast
  then have mid: "bb = [] \<and> even (length bs) \<or> bb = [hd bb] \<and> odd (length bs)"
    using bb by (metis One_nat_def even_zero length_Cons list.size(3) odd_one)
  have "oc_same (unat (ck_reduce sa) + le_sum ba) (unat sa + le_sum ba)" using r by (intro oc_same_add) auto
  then have same: "oc_same (unat sb + le_sum bb) (unat (ck_sum c) + le_sum bs)" using e1 e2 e3 by simp
  have le: "unat sb \<le> unat (ck_sum c) + 65535 * (length bs div 2)" using e1 e2 e3 r by linarith
  have nil: "ba = [] \<longrightarrow> unat sa = unat (ck_sum c) + le_sum bs \<and> even (length bs) \<and> unat sa \<le> unat (ck_sum c) + 65535 * (length bs div 2)"
    using e1 e2 by auto
  have "ck_parts c bs sa ba sb bb"
    unfolding ck_parts_def by (intro conjI nil same le mid allI) (simp add: ck_body_def 1 2 3 del: One_nat_def)
  then show ?thesis by blast
qed

lemma ck_body_plain:
  assumes b: "unat (ck_sum c) + 65535 * (length bs div 2) < 4294967296"
  shows "oc_same (ck_val (ck_body False bs c)) (unat (ck_sum c) + le_sum bs) \<and> ck_mid (ck_body False bs c) = odd (length bs) \<and>
    ck_len (ck_body False bs c) = ck_len c \<and> unat (ck_sum (ck_body False bs c)) \<le> unat (ck_sum c) + 65535 * (length bs div 2)"
proof -
  obtain sa ba sb bb where "ck_parts c bs sa ba sb bb" using body_chunks [OF b] by blast
  note parts = this [unfolded ck_parts_def]
  note body = parts [THEN conjunct1, rule_format] and * = parts [THEN conjunct2, THEN conjunct1, rule_format]
    parts [THEN conjunct2, THEN conjunct2, THEN conjunct1] parts [THEN conjunct2, THEN conjunct2, THEN conjunct2, THEN conjunct1]
    parts [THEN conjunct2, THEN conjunct2, THEN conjunct2, THEN conjunct2]
  show ?thesis
  proof (cases "ba = []")
    case True
    then show ?thesis using *(1) by (simp add: body ck_val_def)
  next
    case False
    then have "ck_val (ck_body False bs c) = unat sb + le_sum bb" using *(4) by (cases bb) (auto simp: body ck_val_def)
    then show ?thesis using *(2,3,4) False by (auto simp: body)
  qed
qed

lemma ck_body_swapped:
  assumes b: "unat (ck_sum c) + 65535 * (length bs div 2) < 4294967296"
  shows "oc_same (ck_val (ck_body True bs c)) (256 * (unat (ck_sum c) + le_sum bs) + unat (ck_c0 c)) \<and>
    ck_mid (ck_body True bs c) = even (length bs) \<and> ck_len (ck_body True bs c) = ck_len c \<and> unat (ck_sum (ck_body True bs c)) \<le> 65535 * 257"
proof -
  obtain sa ba sb bb where "ck_parts c bs sa ba sb bb" using body_chunks [OF b] by blast
  note parts = this [unfolded ck_parts_def]
  note body = parts [THEN conjunct1, rule_format] and * = parts [THEN conjunct2, THEN conjunct1, rule_format]
    parts [THEN conjunct2, THEN conjunct2, THEN conjunct1] parts [THEN conjunct2, THEN conjunct2, THEN conjunct2, THEN conjunct1]
    parts [THEN conjunct2, THEN conjunct2, THEN conjunct2, THEN conjunct2]
  note r3 = reduce_same [of sb]
  have p8: "unat (push_bit 8 (ck_reduce sb)) = 256 * unat (ck_reduce sb)" using r3 push8_unat by blast
  have "oc_same (256 * (unat (ck_reduce sb) + le_sum bb)) (256 * (unat sb + le_sum bb))"
    using r3 by (intro oc_same_mult oc_same_add) auto
  also have "oc_same \<dots> (256 * (unat (ck_sum c) + le_sum bs))" by (rule oc_same_mult [OF *(2)])
  finally have v: "oc_same (256 * (unat (ck_reduce sb) + le_sum bb) + unat (ck_c0 c)) (256 * (unat (ck_sum c) + le_sum bs) + unat (ck_c0 c))"
    by (rule oc_same_add) simp
  show ?thesis
  proof (cases "bb = []")
    case True
    then show ?thesis using v *(4) p8 r3 by (simp add: body ck_val_def)
  next
    case False
    then have l: "le_sum bb = unat (hd bb)" using *(4) by (metis le_sum.simps(2))
    have s: "unat (push_bit 8 (ck_reduce sb) + pair16 (ck_c0 c) (hd bb)) = 256 * unat (ck_reduce sb) + (unat (ck_c0 c) + 256 * unat (hd bb))"
      using p8 r3 pair16_le [of "ck_c0 c" "hd bb"] by (simp add: unat_word_ariths pair16_unat)
    then have "unat (push_bit 8 (ck_reduce sb) + pair16 (ck_c0 c) (hd bb)) \<le> 65535 * 257"
      using r3 pair16_le [of "ck_c0 c" "hd bb"] unfolding pair16_unat by linarith
    then show ?thesis
      using v *(4) l False s by (simp add: body ck_val_def algebra_simps)
  qed
qed

lemma ck_align_eq:
  fixes od :: bool
  assumes b: "unat (ck_sum c) + 65535 * (length bs div 2) < 4294967296" "length bs \<le> 65535"
  defines "c' \<equiv> ck_align od bs c"
  shows "oc_same (ck_val c') (unat (ck_sum c) + le_sum bs) \<and> ck_mid c' = odd (length bs) \<and> ck_len c' = ck_len c \<and>
    (unat (ck_sum c') \<le> unat (ck_sum c) + 65535 * (length bs div 2) \<or> unat (ck_sum c') \<le> 65535 * 257)"
proof (cases "od \<and> bs \<noteq> []")
  case False
  then have "c' = ck_body False bs c" by (auto simp: c'_def ck_align_def)
  then show ?thesis using ck_body_plain [OF b(1)] by simp
next
  case True
  then obtain x t where bs: "bs = x # t" by (cases bs) auto
  define d where "d = c\<lparr>ck_sum := push_bit 8 (ck_reduce (ck_sum c)), ck_c0 := x\<rparr>"
  have c': "c' = ck_body True t d" using True by (simp add: c'_def ck_align_def bs d_def)
  note r = reduce_same [of "ck_sum c"]
  have d: "unat (ck_sum d) = 256 * unat (ck_reduce (ck_sum c))" using push8_unat r by (simp add: d_def)
  have "length t div 2 \<le> 32767" using b(2) bs by simp
  then have "unat (ck_sum d) + 65535 * (length t div 2) < 4294967296" using d r by linarith
  note e = ck_body_swapped [OF this, folded c']
  have "256 * (unat (ck_sum d) + le_sum t) + unat x = 65536 * unat (ck_reduce (ck_sum c)) + (256 * le_sum t + unat x)" by (simp add: d)
  also have "oc_same \<dots> (unat (ck_reduce (ck_sum c)) + le_sum bs)"
    unfolding bs by (intro oc_same_add oc_same_turn le_sum_turn)
  also have "oc_same \<dots> (unat (ck_sum c) + le_sum bs)" using r by (intro oc_same_add) auto
  finally have "oc_same (ck_val c') (unat (ck_sum c) + le_sum bs)" using e oc_same_trans by (auto simp: d_def)
  then show ?thesis using e by (simp add: bs) (simp add: d_def)
qed

text \<open>What holds between the buffers: \<open>pre\<close> are the bytes that are done.\<close>

definition ck_inv :: "cksum_state \<Rightarrow> u8 list \<Rightarrow> bool" where
  "ck_inv c pre \<longleftrightarrow> oc_same (ck_val c) (le_sum pre) \<and> ck_mid c = odd (length pre) \<and> ck_bound c (length pre) \<and>
     length pre + ck_len c \<le> 65535"

lemma ck_take_inv:
  assumes i: "oc_same (unat (ck_sum c)) (le_sum pre)" "even (length pre)" "ck_bound c (length pre)" "length pre + ck_len c \<le> 65535"
  shows "ck_inv (ck_take od bs c) (pre @ take (ck_len c) bs) \<and> ck_len (ck_take od bs c) = ck_len c - length bs"
proof -
  define t where "t = take (ck_len c) bs"
  define d where "d = c\<lparr>ck_len := ck_len c - length t\<rparr>"
  have c': "ck_take od bs c = ck_align od t d" by (simp add: ck_take_def t_def d_def Let_def)
  have t: "length t \<le> ck_len c" by (simp add: t_def)
  have div: "(length pre + length t) div 2 = length pre div 2 + length t div 2" using i(2) by (auto elim: evenE)
  have "(length pre + length t) div 2 \<le> 32767" using i(4) t by linarith
  then have "unat (ck_sum d) + 65535 * (length t div 2) < 4294967296"
    using i(3) div unfolding ck_bound_def by (simp add: d_def)
  note e = ck_align_eq [OF this, of od, folded c']
  have "oc_same (ck_val (ck_take od bs c)) (le_sum (pre @ t))"
    using e t i(4) oc_same_add [OF i(1) oc_same_refl [of "le_sum t"]] le_sum_append [OF i(2), of t]
    by (auto simp: d_def intro: oc_same_trans)
  moreover have "ck_bound (ck_take od bs c) (length (pre @ t))"
    using e t i(3,4) div by (auto simp: ck_bound_def d_def)
  moreover have "ck_len c - length t = ck_len c - length bs" by (simp add: t_def)
  ultimately show ?thesis using e t i(2,4) unfolding ck_inv_def t_def [symmetric] by (simp add: d_def)
qed

lemma ck_mbuf_inv:
  assumes i: "ck_inv c pre" and n: "0 < ck_len c"
  shows "ck_inv (ck_mbuf (od, bs) c) (pre @ take (ck_len c) bs) \<and> ck_len (ck_mbuf (od, bs) c) = ck_len c - length bs"
proof (cases bs)
  case Nil
  then show ?thesis using i by (simp add: ck_mbuf_def)
next
  case (Cons b t)
  show ?thesis
  proof (cases "ck_mid c")
    case False
    then show ?thesis using ck_take_inv [of c pre od bs] i Cons by (auto simp: ck_mbuf_def ck_inv_def ck_val_def)
  next
    case True
    define d where "d = c\<lparr>ck_sum := ck_sum c + pair16 (ck_c0 c) b, ck_len := ck_len c - 1\<rparr>"
    have odd: "odd (length pre)" using i True by (simp add: ck_inv_def)
    then obtain k where k: "length pre = 2 * k + 1" by (rule oddE)
    have bnd: "unat (ck_sum c) \<le> 65535 * (257 + k)" "k \<le> 32767" using i k by (auto simp: ck_inv_def ck_bound_def)
    then have d: "unat (ck_sum d) = unat (ck_sum c) + (unat (ck_c0 c) + 256 * unat b)"
      using pair16_le [of "ck_c0 c" b] by (simp add: d_def unat_word_ariths pair16_unat)
    have "oc_same (unat (ck_sum d)) (le_sum (pre @ [b]))"
      using i True odd oc_same_add [of "ck_val c" "le_sum pre" "256 * unat b" "256 * unat b"]
      by (simp add: d ck_inv_def ck_val_def le_sum_snoc add.assoc)
    moreover have "ck_bound d (length (pre @ [b]))"
      using bnd d k pair16_le [of "ck_c0 c" b] by (simp add: ck_bound_def pair16_unat)
    ultimately have "ck_inv (ck_take (\<not> od) t d) ((pre @ [b]) @ take (ck_len d) t) \<and> ck_len (ck_take (\<not> od) t d) = ck_len d - length t"
      using odd i n by (intro ck_take_inv) (auto simp: d_def ck_inv_def)
    moreover have "ck_mbuf (od, bs) c = ck_take (\<not> od) t d" using True by (simp add: ck_mbuf_def Cons d_def)
    moreover have "(pre @ [b]) @ take (ck_len d) t = pre @ take (ck_len c) bs" using n by (cases "ck_len c") (simp_all add: d_def Cons)
    ultimately show ?thesis using Cons by (simp add: d_def)
  qed
qed

lemma ck_loop_inv: "ck_inv c pre \<Longrightarrow> ck_inv (ck_loop ms c) (pre @ take (ck_len c) (concat (map snd ms)))"
proof (induction ms arbitrary: c pre)
  case (Cons m ms)
  obtain od bs where m: "m = (od, bs)" by (cases m)
  show ?case
  proof (cases "ck_len c = 0")
    case False
    with ck_mbuf_inv [OF Cons.prems, of od bs] have s: "ck_inv (ck_mbuf m c) (pre @ take (ck_len c) bs)" "ck_len (ck_mbuf m c) = ck_len c - length bs"
      by (simp_all add: m)
    from Cons.IH [OF s(1)] s(2) show ?thesis using False by (simp add: m)
  qed (use Cons.prems in simp)
qed simp

lemma in_cksum_oc:
  assumes "len \<le> 65535"
  shows "in_cksum ms len = NOT (of_nat (oc_sum (take len (concat (map snd ms)))))"
proof -
  define c where "c = ck_loop ms \<lparr>ck_sum = 0, ck_len = len, ck_mid = False, ck_c0 = 0\<rparr>"
  define w where "w = take len (concat (map snd ms))"
  define s where "s = (if ck_mid c then ck_sum c + pair16 (ck_c0 c) 0 else ck_sum c)"
  have "ck_inv \<lparr>ck_sum = 0, ck_len = len, ck_mid = False, ck_c0 = 0\<rparr> []"
    using assms by (simp add: ck_inv_def ck_val_def ck_bound_def)
  from ck_loop_inv [OF this, of ms] have i: "ck_inv c w" by (simp add: c_def w_def)
  have "length w \<le> 65535" using assms by (simp add: w_def)
  then have "length w div 2 \<le> 32767" by linarith
  then have b: "unat (ck_sum c) \<le> 65535 * 33024" using i by (simp add: ck_inv_def ck_bound_def)
  have "unat s = ck_val c"
    using b byte_le [of "ck_c0 c"] by (auto simp: s_def ck_val_def unat_word_ariths pair16_unat)
  then have same: "oc_same (unat (ck_reduce s)) (oc_sum w)"
    using i reduce_same [of s] oc_sum_same [of w] by (metis ck_inv_def oc_same_sym oc_same_trans)
  then have e: "unat (ck_reduce s) = oc_sum w" using reduce_same [of s] oc_sum_same [of w] by (intro oc_same_unique) auto
  then have "(of_nat (oc_sum w) :: u16) = ucast (ck_reduce s)" by (metis of_nat_unat)
  moreover have "ucast (NOT x AND 0xffff) = NOT (ucast x :: u16)" for x :: u32
  proof -
    have m: "(0xffff :: u32) = mask 16" by (simp add: mask_eq_exp_minus_1)
    show ?thesis unfolding m by (rule bit_word_eqI) (auto simp: bit_simps)
  qed
  ultimately show ?thesis unfolding in_cksum_def Let_def c_def [symmetric] s_def [symmetric] w_def [symmetric] by simp
qed

text \<open>C38: The Internet checksum of a packet does not depend on how its bytes are spread over buffers nor on the alignment of
  the buffers: it is the one's complement of the one's complement sum of the 16-bit words of its first bytes, the last
  one padded with zero, for every length up to 65535.\<close>

theorem in_cksum_reference:
  assumes "len \<le> 65535"
  shows "in_cksum ms len = NOT (of_nat (oc_sum (take len (concat (map snd ms)))))"
  by (rule in_cksum_oc [OF assms])

text \<open>Five bytes in three buffers, one of them at an odd address.\<close>

theorem in_cksum_reference_witness:
  "in_cksum [(False, [0x45]), (True, [0x00, 0x00]), (False, [0x73, 0xff, 0xff])] 5 = NOT (of_nat (oc_sum [0x45, 0x00, 0x00, 0x73, 0xff])) \<and>
   oc_sum [0x45, 0x00, 0x00, 0x73, 0xff] = 0x7444"
  using in_cksum_reference [of 5 "[(False, [0x45]), (True, [0x00, 0x00]), (False, [0x73, 0xff, 0xff])]"] by (simp add: oc_add_def)

text \<open>The bytes of a word.\<close>

lemma bytes16: "unat (ucast (x :: u16) :: u8) + 256 * unat (ucast (drop_bit 8 x) :: u8) = unat x"
proof -
  have "unat x < 2 ^ LENGTH(16)" by (rule unsigned_less)
  then have "take_bit 8 (unat x div 256) = unat x div 256" by (simp add: take_bit_nat_eq_self_iff)
  then show ?thesis
    by (simp add: unsigned_ucast_eq unsigned_drop_bit_eq drop_bit_nat_def take_bit_nat_def)
qed

text \<open>A packet that carries its own checksum has checksum zero: when the checksum is computed with the field set to zero and then
  stored there, at an even offset, the checksum of the whole is 0, whatever buffers the packet is received in.\<close>

theorem in_cksum_verifies:
  assumes "even (length pre)" "len = length pre + 2 + length post" "len \<le> 65535"
    and "concat (map snd sent) = pre @ [0, 0] @ post"
    and "concat (map snd recv) = pre @ [ucast (in_cksum sent len), ucast (drop_bit 8 (in_cksum sent len))] @ post"
  shows "in_cksum recv len = 0"
proof -
  define s where "s = oc_sum (pre @ [0, 0] @ post)"
  define x where "x = in_cksum sent len"
  define new where "new = pre @ [ucast x, ucast (drop_bit 8 x)] @ post"
  have s: "s \<le> 65535" "oc_same s (le_sum pre + le_sum post)"
    using oc_sum_same [of "pre @ [0, 0] @ post"] le_sum_append [OF assms(1)] by (simp_all add: s_def)
  have x: "x = NOT (of_nat s)"
    using in_cksum_oc [of len sent] assms(2,3) unfolding x_def s_def assms(4) by simp
  have "unat x = 65535 - s"
  proof -
    have "NOT a = - 1 - a" for a :: u16 by (simp add: not_eq_complement)
    moreover have "unat (- 1 - a) = unat (- 1 :: u16) - unat a" for a :: u16 by (rule unat_sub) simp
    moreover have "unat (of_nat s :: u16) = s" using s(1) by (simp add: unat_of_nat take_bit_nat_eq_self)
    ultimately show ?thesis unfolding x by (simp add: unsigned_minus_1_eq_mask mask_eq_exp_minus_1)
  qed
  then have "unat x + s = 65535" using s(1) by simp
  moreover have "le_sum new = le_sum pre + le_sum post + unat x"
    unfolding new_def using le_sum_append [OF assms(1)] bytes16 [of x] by simp
  ultimately have "oc_same (le_sum new) 65535"
    using oc_same_add [OF oc_same_sym [OF s(2)] oc_same_refl [of "unat x"]] by (simp add: add.commute)
  then have "oc_same (oc_sum new) 65535" using oc_sum_same [of new] oc_same_trans by blast
  then have "oc_sum new = 65535" using oc_sum_same [of new] by (intro oc_same_unique) auto
  moreover have "take len new = new" using assms(2) by (simp add: new_def)
  ultimately show ?thesis
    using in_cksum_oc [OF assms(3), of recv] unfolding assms(5) x_def [symmetric] new_def [symmetric] by simp
qed

text \<open>Six bytes are sent in one buffer and received in two, with an odd cut.\<close>

theorem in_cksum_verifies_witness:
  "in_cksum [(False, [0x45, 0x00, 0x00, 0x00, 0x01, 0x02])] 6 = 0xfdb9 \<and>
   in_cksum [(True, [0x45, 0x00, 0xb9]), (False, [0xfd, 0x01, 0x02])] 6 = 0"
proof -
  have c: "in_cksum [(False, [0x45, 0x00, 0x00, 0x00, 0x01, 0x02])] 6 = 0xfdb9"
    using in_cksum_oc [of 6 "[(False, [0x45, 0x00, 0x00, 0x00, 0x01, 0x02])]"] by (simp add: oc_add_def)
  have "in_cksum [(True, [0x45, 0x00, 0xb9]), (False, [0xfd, 0x01, 0x02])] 6 = 0"
    by (rule in_cksum_verifies [of "[0x45, 0x00]" 6 "[0x01, 0x02]" "[(False, [0x45, 0x00, 0x00, 0x00, 0x01, 0x02])]"]) (simp_all add: c)
  with c show ?thesis by simp
qed

end
