(* ===== verification/SchedRR.thy ===== *)
theory SchedRR
  imports Sched
begin

text \<open>
  The deficit round robin scheduler of \<open>sys/netinet/ipfw/dn_sched_rr.c\<close>. The queues with
  packets are in a circular list threaded through the queues' private data; the instance holds
  the head and the tail of the list.
\<close>

section \<open>Data\<close>

record rr_queue =
  rq_status :: int
  rq_credit :: int
  rq_quantum :: int
  rq_next :: "qid option"

record rr_schk =
  rk_min_q :: int
  rk_max_q :: int
  rk_q_bytes :: int

record rr_si =
  rs_head :: "qid option"
  rs_tail :: "qid option"

record rr_env = dn_env +
  rrq :: "qid \<Rightarrow> rr_queue"
  rrs :: "siid \<Rightarrow> rr_si"
  rrk :: "schid \<Rightarrow> rr_schk"

definition DN_SCHED_RR :: u32 where "DN_SCHED_RR = 3"

definition upd_rq :: "qid \<Rightarrow> (rr_queue \<Rightarrow> rr_queue) \<Rightarrow> 'x rr_env_scheme \<Rightarrow> 'x rr_env_scheme" where
  "upd_rq q f e = e\<lparr>rrq := (rrq e)(q := f (rrq e q))\<rparr>"

definition upd_rs :: "siid \<Rightarrow> (rr_si \<Rightarrow> rr_si) \<Rightarrow> 'x rr_env_scheme \<Rightarrow> 'x rr_env_scheme" where
  "upd_rs i f e = e\<lparr>rrs := (rrs e)(i := f (rrs e i))\<rparr>"

section \<open>List operations\<close>

definition rr_append :: "qid \<Rightarrow> siid \<Rightarrow> 'x rr_env_scheme \<Rightarrow> 'x rr_env_scheme" where
  "rr_append q i e =
     (let e = upd_rq q (\<lambda>r. r\<lparr>rq_status := 1, rq_credit := rq_quantum r\<rparr>) e;
          e = (case rs_head (rrs e i) of
                 None \<Rightarrow> upd_rs i (\<lambda>s. s\<lparr>rs_head := Some q\<rparr>) e
               | Some h \<Rightarrow> upd_rq (the (rs_tail (rrs e i))) (\<lambda>r. r\<lparr>rq_next := Some q\<rparr>) e);
          e = upd_rs i (\<lambda>s. s\<lparr>rs_tail := Some q\<rparr>) e
      in upd_rq q (\<lambda>r. r\<lparr>rq_next := rs_head (rrs e i)\<rparr>) e)"

definition rr_remove_head :: "siid \<Rightarrow> 'x rr_env_scheme \<Rightarrow> 'x rr_env_scheme" where
  "rr_remove_head i e =
     (case rs_head (rrs e i) of
        None \<Rightarrow> e
      | Some h \<Rightarrow>
          let e = upd_rq h (\<lambda>r. r\<lparr>rq_status := 0\<rparr>) e
          in if rs_head (rrs e i) = rs_tail (rrs e i)
             then upd_rs i (\<lambda>s. s\<lparr>rs_head := None, rs_tail := None\<rparr>) e
             else
               let e = upd_rs i (\<lambda>s. s\<lparr>rs_head := rq_next (rrq e h)\<rparr>) e
               in upd_rq (the (rs_tail (rrs e i))) (\<lambda>r. r\<lparr>rq_next := rs_head (rrs e i)\<rparr>) e)"

text \<open>The search for the predecessor: it does not end if the queue is not on the circular list.\<close>

partial_function (option) rr_find_prev :: "qid \<Rightarrow> (qid \<Rightarrow> qid option) \<Rightarrow> qid option \<Rightarrow> qid option option" where
  "rr_find_prev q nxt prev =
     (case prev of
        None \<Rightarrow> Some None
      | Some p \<Rightarrow> if nxt p \<noteq> Some q then rr_find_prev q nxt (nxt p) else Some (Some p))"

definition remove_queue_q :: "qid \<Rightarrow> siid \<Rightarrow> 'x rr_env_scheme \<Rightarrow> 'x rr_env_scheme option" where
  "remove_queue_q q i e =
     (if rq_status (rrq e q) \<noteq> 1 then Some e
      else if Some q = rs_head (rrs e i) then Some (rr_remove_head i e)
      else
        case rr_find_prev q (\<lambda>p. rq_next (rrq e p)) (rs_head (rrs e i)) of
          None \<Rightarrow> None
        | Some None \<Rightarrow> Some e
        | Some (Some p) \<Rightarrow>
            let e = upd_rq p (\<lambda>r. r\<lparr>rq_next := rq_next (rrq e q)\<rparr>) e;
                e = (if Some q = rs_tail (rrs e i) then upd_rs i (\<lambda>s. s\<lparr>rs_tail := Some p\<rparr>) e else e)
            in Some (upd_rq q (\<lambda>r. r\<lparr>rq_status := 0\<rparr>) e))"

definition next_pointer :: "siid \<Rightarrow> 'x rr_env_scheme \<Rightarrow> 'x rr_env_scheme" where
  "next_pointer i e =
     (case rs_head (rrs e i) of
        None \<Rightarrow> e
      | Some h \<Rightarrow>
          upd_rs i (\<lambda>s. s\<lparr>rs_head := rq_next (rrq e h), rs_tail := rq_next (rrq e (the (rs_tail s)))\<rparr>) e)"

section \<open>Scheduler operations\<close>

definition rr_activate :: "siid \<Rightarrow> qid \<Rightarrow> 'x rr_env_scheme \<Rightarrow> 'x rr_env_scheme" where
  "rr_activate i q e = (if rq_status (rrq e q) = 1 then e else rr_append q i e)"

definition rr_enqueue :: "siid \<Rightarrow> qid \<Rightarrow> mbuf \<Rightarrow> 'x rr_env_scheme \<Rightarrow> nat \<times> 'x rr_env_scheme" where
  "rr_enqueue i q m e =
     (if \<not> is_head m (mq e q) then
        case dn_enqueue q m False e of
          (r, e) \<Rightarrow>
            if r \<noteq> 0 then (1, e)
            else if \<not> is_head m (mq e q) then (0, e)
            else (0, rr_activate i q e)
      else (0, rr_activate i q e))"

partial_function (option) rr_dequeue :: "siid \<Rightarrow> 'x rr_env_scheme \<Rightarrow> (mbuf option \<times> 'x rr_env_scheme) option" where
  "rr_dequeue i e =
     (case rs_head (rrs e i) of
        None \<Rightarrow> Some (None, e)
      | Some h \<Rightarrow>
          (case mq e h of
             [] \<Rightarrow> rr_dequeue i (rr_remove_head i e)
           | m # _ \<Rightarrow>
               let len = (word_of_int (m_len m) :: u64)
               in if word_of_int (rq_credit (rrq e h)) < len then
                    rr_dequeue i (next_pointer i
                      (upd_rq h (\<lambda>r. r\<lparr>rq_credit := s32 (rq_credit r + rq_quantum r)\<rparr>) e))
                  else
                    Some (dn_dequeue h (upd_rq h (\<lambda>r. r\<lparr>rq_credit := s32 (rq_credit r - sint len)\<rparr>) e))))"

definition rr_config :: "schid \<Rightarrow> 'x rr_env_scheme \<Rightarrow> nat \<times> 'x rr_env_scheme" where
  "rr_config k e = (0, e\<lparr>rrk := (rrk e)(k := \<lparr>rk_min_q = 64, rk_max_q = 2048, rk_q_bytes = 1500\<rparr>)\<rparr>)"

definition rr_new_sched :: "siid \<Rightarrow> 'x rr_env_scheme \<Rightarrow> nat \<times> 'x rr_env_scheme" where
  "rr_new_sched i e = (0, upd_rs i (\<lambda>s. s\<lparr>rs_head := None, rs_tail := None\<rparr>) e)"

definition rr_free_sched :: "siid \<Rightarrow> 'x rr_env_scheme \<Rightarrow> nat \<times> 'x rr_env_scheme" where
  "rr_free_sched i e = (0, e)"

definition rr_new_fsk :: "fsid \<Rightarrow> 'x rr_env_scheme \<Rightarrow> nat \<times> 'x rr_env_scheme" where
  "rr_new_fsk f e =
     (let k = rrk e (the (fsk_sched (fsks e f)));
          e = bound_par f 0 1 1 65536 e
      in (0, bound_par f 1 (rk_q_bytes k) (rk_min_q k) (rk_max_q k) e))"

definition rr_new_queue :: "qid \<Rightarrow> 'x rr_env_scheme \<Rightarrow> nat \<times> 'x rr_env_scheme" where
  "rr_new_queue q e =
     (let e = upd_q q (\<lambda>r. r\<lparr>q_ni := (q_ni r)\<lparr>fl_oid := (fl_oid (q_ni r))\<lparr>id_subtype := ucast DN_SCHED_RR\<rparr>\<rparr>\<rparr>) e;
          qn = s32 (q_par e q 0 * q_par e q 1);
          e = upd_rq q (\<lambda>r. r\<lparr>rq_quantum := qn, rq_credit := qn, rq_status := 0\<rparr>) e
      in (0, if mq e q \<noteq> [] then rr_append q (the (q_si (qs e q))) e else e))"

text \<open>The result of \<open>rr_free_queue\<close> in safe mode is the status: non-zero keeps the queue.\<close>

definition rr_free_queue :: "qid \<Rightarrow> bool \<Rightarrow> 'x rr_env_scheme \<Rightarrow> (int \<times> 'x rr_env_scheme) option" where
  "rr_free_queue q safe e =
     (if safe then Some (rq_status (rrq e q), e)
      else if rq_status (rrq e q) = 1
      then map_option (\<lambda>e. (0, e)) (remove_queue_q q (the (q_si (qs e q))) e)
      else Some (0, e))"

definition rr_desc :: "'x rr_env_scheme dn_alg" where
  "rr_desc = \<lparr>al_type = DN_SCHED_RR, al_name = ''RR'', al_flags = DN_MULTIQUEUE, al_q_datalen = 24,
     al_enqueue = (\<lambda>i q m e. Some (rr_enqueue i (the q) m e)), al_dequeue = rr_dequeue,
     al_config = Some rr_config, al_destroy = None, al_new_sched = Some rr_new_sched,
     al_free_sched = Some rr_free_sched, al_new_fsk = Some rr_new_fsk, al_free_fsk = None,
     al_new_queue = Some (\<lambda>q e. Some (rr_new_queue q e)),
     al_free_queue = Some rr_free_queue\<rparr>"

section \<open>The circular list\<close>

abbreviation rnext :: "'x rr_env_scheme \<Rightarrow> qid \<Rightarrow> qid" where
  "rnext e q \<equiv> the (rq_next (rrq e q))"

text \<open>\<open>rr_ring i xs e\<close>: the list of instance \<open>i\<close>, from the head, is \<open>xs\<close>.\<close>

definition rr_ring :: "siid \<Rightarrow> qid list \<Rightarrow> 'x rr_env_scheme \<Rightarrow> bool" where
  "rr_ring i xs e \<longleftrightarrow>
     (if xs = [] then rs_head (rrs e i) = None
      else rs_head (rrs e i) = Some (hd xs) \<and> rs_tail (rrs e i) = Some (last xs) \<and>
        circ (rnext e) (last xs) xs \<and> (\<forall>q\<in>set xs. rq_next (rrq e q) \<noteq> None))"

lemma upd_rr_simps [simp]:
  "rrq (upd_rq q f e) = (rrq e)(q := f (rrq e q))" "rrs (upd_rq q f e) = rrs e" "rrk (upd_rq q f e) = rrk e"
  "rrs (upd_rs i g e) = (rrs e)(i := g (rrs e i))" "rrq (upd_rs i g e) = rrq e" "rrk (upd_rs i g e) = rrk e"
  "qs (upd_rq q f e) = qs e" "qs (upd_rs i g e) = qs e" "sis (upd_rq q f e) = sis e" "sis (upd_rs i g e) = sis e"
  "fsks (upd_rq q f e) = fsks e" "fsks (upd_rs i g e) = fsks e" "freed (upd_rq q f e) = freed e"
  "freed (upd_rs i g e) = freed e"
  by (simp_all add: upd_rq_def upd_rs_def)

text \<open>Sizes of the list and the queue state do not depend on the order of the record updates.\<close>

lemma circ_append:
  assumes "circ nxt t xs" "q \<notin> set xs"
  shows "circ (nxt(t := q, q := hd xs)) q (xs @ [q])"
proof -
  obtain x xs' where x: "xs = x # xs'" using assms by (cases xs) (auto simp: circ_def)
  have "t \<in> set xs" using assms(1) by (auto simp: circ_def)
  then have qt: "q \<noteq> t" using assms(2) by auto
  have "t \<notin> set (butlast (x # xs'))"
    using assms(1) last_notin_butlast [of xs] by (simp add: circ_def x)
  moreover have "q \<notin> set (butlast (x # xs'))"
    using assms(2) unfolding x by (blast dest: in_set_butlastD)
  ultimately have "chain (nxt(t := q, q := hd xs)) x xs' \<longleftrightarrow> chain nxt x xs'"
    by (simp add: chain_upd)
  then show ?thesis using assms qt by (auto simp: circ_def chain_append x)
qed

lemma rr_append_ring:
  assumes r: "rr_ring i xs e" and q: "q \<notin> set xs"
  shows "rr_ring i (xs @ [q]) (rr_append q i e)"
proof (cases "xs = []")
  case True
  with r show ?thesis by (simp add: rr_ring_def rr_append_def circ_def Let_def)
next
  case False
  let ?e = "rr_append q i e"
  have h: "rs_head (rrs e i) = Some (hd xs)" "rs_tail (rrs e i) = Some (last xs)"
      "circ (rnext e) (last xs) xs" "\<forall>q\<in>set xs. rq_next (rrq e q) \<noteq> None"
    using r False by (simp_all add: rr_ring_def)
  have "last xs \<noteq> q" using q False last_in_set by metis
  then have n: "rnext ?e = (rnext e)(last xs := q, q := hd xs)"
    by (auto simp: rr_append_def h Let_def fun_eq_iff)
  have "circ (rnext ?e) q (xs @ [q])" unfolding n by (rule circ_append [OF h(3) q])
  moreover have "\<forall>p\<in>set (xs @ [q]). rq_next (rrq ?e p) \<noteq> None"
    using h(4) by (auto simp: rr_append_def h(1,2) Let_def)
  moreover have "rs_head (rrs ?e i) = Some (hd xs)" "rs_tail (rrs ?e i) = Some q"
    by (simp_all add: rr_append_def h Let_def)
  ultimately show ?thesis using False by (simp add: rr_ring_def)
qed

lemma rr_ring_cong:
  assumes "rr_ring i xs e" "rrs e' i = rrs e i" "\<And>q. q \<in> set xs \<Longrightarrow> rq_next (rrq e' q) = rq_next (rrq e q)"
  shows "rr_ring i xs e'"
proof (cases "xs = []")
  case False
  have "chain (rnext e') a ys = chain (rnext e) a ys" if "set (a # ys) \<subseteq> set xs" for a ys
    using that by (induction ys arbitrary: a) (auto simp: assms(3))
  then have "circ (rnext e') (last xs) xs = circ (rnext e) (last xs) xs"
    using False by (simp add: circ_def)
  with assms show ?thesis by (simp add: rr_ring_def)
qed (use assms in \<open>simp add: rr_ring_def\<close>)

lemma rr_remove_head_ring:
  assumes "rr_ring i (x # xs) e"
  shows "rr_ring i xs (rr_remove_head i e)"
    "rr_remove_head i e = e\<lparr>rrq := rrq (rr_remove_head i e), rrs := rrs (rr_remove_head i e)\<rparr>"
    "\<And>q. rq_credit (rrq (rr_remove_head i e) q) = rq_credit (rrq e q)"
    "\<And>q. rq_quantum (rrq (rr_remove_head i e) q) = rq_quantum (rrq e q)"
    "\<And>q. rq_status (rrq (rr_remove_head i e) q) = (if q = x then 0 else rq_status (rrq e q))"
proof -
  let ?e = "rr_remove_head i e"
  have h: "rs_head (rrs e i) = Some x" "rs_tail (rrs e i) = Some (last (x # xs))"
      "circ (rnext e) (last (x # xs)) (x # xs)" "\<forall>q\<in>set (x # xs). rq_next (rrq e q) \<noteq> None"
    using assms by (simp_all add: rr_ring_def)
  show "rr_ring i xs ?e"
  proof (cases "xs = []")
    case True
    with h show ?thesis by (simp add: rr_ring_def rr_remove_head_def Let_def)
  next
    case False
    then have ne: "x \<noteq> last xs" using h(3) by (auto simp: circ_def)
    have nx: "rq_next (rrq e x) = Some (hd xs)"
      using h(3,4) False by (cases xs) (auto simp: circ_def)
    have n: "rnext ?e = (rnext e)(last xs := hd xs)"
      using False ne nx by (auto simp: rr_remove_head_def h(1,2) Let_def fun_eq_iff)
    have "circ (rnext ?e) (last xs) xs"
      using circ_unlink(2) [of "rnext e" "last xs" "[]" x xs "last xs"] h(3) False ne nx
      by (simp add: n)
    moreover have "\<forall>q\<in>set xs. rq_next (rrq ?e q) \<noteq> None"
      using h(4) False ne nx by (auto simp: rr_remove_head_def h(1,2) Let_def)
    moreover have "rs_head (rrs ?e i) = Some (hd xs)" "rs_tail (rrs ?e i) = Some (last xs)"
      using False ne nx by (auto simp: rr_remove_head_def h(1,2) Let_def)
    ultimately show ?thesis using False by (simp add: rr_ring_def)
  qed
  show "?e = e\<lparr>rrq := rrq ?e, rrs := rrs ?e\<rparr>"
    by (simp add: rr_remove_head_def h(1) Let_def upd_rq_def upd_rs_def)
  show "\<And>q. rq_credit (rrq ?e q) = rq_credit (rrq e q)" "\<And>q. rq_quantum (rrq ?e q) = rq_quantum (rrq e q)"
    "\<And>q. rq_status (rrq ?e q) = (if q = x then 0 else rq_status (rrq e q))"
    by (simp_all add: rr_remove_head_def h(1) Let_def)
qed

lemma rr_next_pointer_ring:
  assumes "rr_ring i (x # xs) e"
  shows "rr_ring i (xs @ [x]) (next_pointer i e)"
    "next_pointer i e = e\<lparr>rrs := rrs (next_pointer i e)\<rparr>"
proof -
  let ?e = "next_pointer i e"
  have h: "rs_head (rrs e i) = Some x" "rs_tail (rrs e i) = Some (last (x # xs))"
      "circ (rnext e) (last (x # xs)) (x # xs)" "\<forall>q\<in>set (x # xs). rq_next (rrq e q) \<noteq> None"
    using assms by (simp_all add: rr_ring_def)
  have lt: "rq_next (rrq e (last (x # xs))) = Some x"
    using h(3,4) last_in_set [of "x # xs"] by (auto simp: circ_def)
  have hx: "rq_next (rrq e x) = Some (hd (xs @ [x]))"
    using h(3,4) by (cases xs) (auto simp: circ_def)
  have q: "rrq ?e = rrq e" by (simp add: next_pointer_def h(1))
  have "circ (rnext e) x (xs @ [x])"
  proof (cases "xs = []")
    case False
    with circ_rotate [of "rnext e" "last (x # xs)" "[x]" xs] h(3) show ?thesis by simp
  qed (use h(3) in simp)
  then show "rr_ring i (xs @ [x]) ?e"
    using h(4) by (simp add: rr_ring_def q) (simp add: next_pointer_def h(1,2) hx lt [simplified])
  show "?e = e\<lparr>rrs := rrs ?e\<rparr>" by (simp add: next_pointer_def h(1) upd_rs_def)
qed

section \<open>The invariant\<close>

text \<open>
  The list holds every queue of \<open>Q\<close> that has packets, the status says which queues are in it,
  and credits and packet sizes are in the range of the 32-bit arithmetic.
\<close>

definition rr_queue_ok :: "qid list \<Rightarrow> qid \<Rightarrow> rr_queue \<Rightarrow> mbuf list \<Rightarrow> bool" where
  "rr_queue_ok xs q r ms \<longleftrightarrow> (rq_status r = 1 \<longleftrightarrow> q \<in> set xs) \<and> (ms \<noteq> [] \<longrightarrow> q \<in> set xs) \<and>
     0 < rq_quantum r \<and> rq_quantum r < 2 ^ 28 \<and> 0 \<le> rq_credit r \<and> rq_credit r < 2 ^ 28 + 2 ^ 16 \<and>
     pkts_ok ms"

definition rr_good :: "qid set \<Rightarrow> siid \<Rightarrow> qid list \<Rightarrow> 'x rr_env_scheme \<Rightarrow> bool" where
  "rr_good Q i xs e \<longleftrightarrow> rr_ring i xs e \<and> set xs \<subseteq> Q \<and> (\<forall>q\<in>Q. rr_queue_ok xs q (rrq e q) (mq e q))"

definition rr_inv :: "qid set \<Rightarrow> siid \<Rightarrow> 'x rr_env_scheme \<Rightarrow> bool" where
  "rr_inv Q i e \<longleftrightarrow> (\<exists>xs. rr_good Q i xs e)"

lemma rr_ring_distinct: "rr_ring i xs e \<Longrightarrow> distinct xs"
  by (auto simp: rr_ring_def circ_def split: if_splits)

lemma queue_step_rr:
  assumes "queue_step q xs fr e e'"
  shows "rrq e' = rrq e" "rrs e' = rrs e" "rrk e' = rrk e"
proof -
  have "dn_env.more e' = dn_env.more e" using assms by (simp add: queue_step_def)
  then show "rrq e' = rrq e" "rrs e' = rrs e" "rrk e' = rrk e"
    by (cases e; cases e'; simp)+
qed

lemma rr_good_ring: "rr_good Q i xs e \<Longrightarrow> rr_ring i xs e" "rr_good Q i xs e \<Longrightarrow> set xs \<subseteq> Q"
  "rr_good Q i xs e \<Longrightarrow> q \<in> Q \<Longrightarrow> rr_queue_ok xs q (rrq e q) (mq e q)"
  by (simp_all add: rr_good_def)

lemma rr_queue_ok_mq:
  "rr_queue_ok xs q r ms \<Longrightarrow> (ms' \<noteq> [] \<Longrightarrow> q \<in> set xs) \<Longrightarrow> pkts_ok ms' \<Longrightarrow> rr_queue_ok xs q r ms'"
  by (auto simp: rr_queue_ok_def)

lemma rr_good_mq:
  assumes g: "rr_good Q i xs e" and r: "rrq e' = rrq e" "rrs e' = rrs e"
    and m: "\<And>q. q \<in> Q \<Longrightarrow> mq e' q \<noteq> [] \<Longrightarrow> q \<in> set xs" "\<And>q. q \<in> Q \<Longrightarrow> pkts_ok (mq e' q)"
  shows "rr_good Q i xs e'"
proof -
  have "rr_ring i xs e'" by (rule rr_ring_cong [OF rr_good_ring(1) [OF g]]) (simp_all add: r)
  moreover have "rr_queue_ok xs q (rrq e' q) (mq e' q)" if "q \<in> Q" for q
    unfolding r(1) by (rule rr_queue_ok_mq [OF rr_good_ring(3) [OF g that] m(1) [OF that] m(2) [OF that]])
  ultimately show ?thesis using rr_good_ring(2) [OF g] by (simp add: rr_good_def)
qed

lemma rr_append_fields:
  "rr_append q i e = e\<lparr>rrq := rrq (rr_append q i e), rrs := rrs (rr_append q i e)\<rparr>"
  "rq_status (rrq (rr_append q i e) p) = (if p = q then 1 else rq_status (rrq e p))"
  "rq_credit (rrq (rr_append q i e) p) = (if p = q then rq_quantum (rrq e q) else rq_credit (rrq e p))"
  "rq_quantum (rrq (rr_append q i e) p) = rq_quantum (rrq e p)"
  by (simp_all add: rr_append_def Let_def upd_rq_def upd_rs_def split: option.split)

lemma upd_rr_simps2:
  "qs (e\<lparr>rrq := a, rrs := b\<rparr>) = qs e" "freed (e\<lparr>rrq := a, rrs := b\<rparr>) = freed e"
  by simp_all

lemma rr_append_qs [simp]: "qs (rr_append q i e) = qs e" "freed (rr_append q i e) = freed e"
  by (subst rr_append_fields(1), simp)+

lemma rr_good_activate:
  assumes g: "rr_good Q i xs e'" and q: "q \<in> Q" and e: "rrq e = rrq e'" "rrs e = rrs e'"
    and m: "\<And>p. p \<in> Q \<Longrightarrow> p \<noteq> q \<Longrightarrow> mq e p \<noteq> [] \<Longrightarrow> p \<in> set xs" "\<And>p. p \<in> Q \<Longrightarrow> pkts_ok (mq e p)"
  shows "rr_inv Q i (rr_activate i q e)"
proof (cases "rq_status (rrq e q) = 1")
  case True
  then have "q \<in> set xs" using rr_good_ring(3) [OF g q] by (simp add: rr_queue_ok_def e)
  then have "rr_good Q i xs e" using rr_good_mq [OF g e _ m(2)] m(1) by blast
  with True show ?thesis by (auto simp: rr_activate_def rr_inv_def)
next
  case False
  then have qx: "q \<notin> set xs" using rr_good_ring(3) [OF g q] by (simp add: rr_queue_ok_def e)
  have "rr_ring i xs e" by (rule rr_ring_cong [OF rr_good_ring(1) [OF g]]) (simp_all add: e)
  from rr_append_ring [OF this qx] have "rr_ring i (xs @ [q]) (rr_append q i e)" .
  moreover have "rr_queue_ok (xs @ [q]) p (rrq (rr_append q i e) p) (mq (rr_append q i e) p)" if "p \<in> Q" for p
    using rr_good_ring(3) [OF g that] m(1) [OF that] m(2) [OF that]
    by (cases "p = q") (auto simp: rr_queue_ok_def rr_append_fields(2-4) e)
  ultimately have "rr_good Q i (xs @ [q]) (rr_append q i e)"
    using rr_good_ring(2) [OF g] q by (simp add: rr_good_def)
  with False show ?thesis by (auto simp: rr_activate_def rr_inv_def)
qed

lemma rr_enqueue_law:
  assumes inv: "rr_inv Q i e" and q: "q \<in> Q"
    and ok: "pkts_ok [m]" "\<not> is_head m (mq e q)" and r: "rr_enqueue i q m e = (r, e')"
  shows "rr_inv Q i e' \<and>
    (r = 0 \<and> mq e' q = mq e q @ [m] \<and> freed e' = freed e \<and> (\<forall>p. p \<noteq> q \<longrightarrow> mq e' p = mq e p) \<or>
     r = 1 \<and> (\<forall>p. mq e' p = mq e p) \<and> freed e' = freed e @ [m])"
proof -
  obtain xs where g: "rr_good Q i xs e" using inv by (auto simp: rr_inv_def)
  obtain d e1 where d: "dn_enqueue q m False e = (d, e1)" by fastforce
  have e': "r = (if d = 0 then 0 else 1)"
    "e' = (if d = 0 \<and> is_head m (mq e1 q) then rr_activate i q e1 else e1)"
    using r ok(2) by (auto simp: rr_enqueue_def d split: if_splits)
  have qs_act: "qs (rr_activate i q e1) = qs e1" "freed (rr_activate i q e1) = freed e1"
    by (simp_all add: rr_activate_def)
  have old: "pkts_ok (mq e p)" "mq e p \<noteq> [] \<Longrightarrow> p \<in> set xs" if "p \<in> Q" for p
    using rr_good_ring(3) [OF g that] by (simp_all add: rr_queue_ok_def)
  from dn_enqueue_step [OF d] show ?thesis
  proof
    assume a: "d = 0 \<and> queue_step q (mq e q @ [m]) [] e e1"
    note rr = queue_step_rr [OF conjunct2 [OF a]]
    have m1: "mq e1 q = mq e q @ [m]" "\<And>p. p \<noteq> q \<Longrightarrow> mq e1 p = mq e p" "freed e1 = freed e"
      using a by (auto simp: queue_step_def)
    have lens1: "pkts_ok (mq e1 p)" if "p \<in> Q" for p
      using old(1) [OF that] ok(1) m1(1) m1(2) [of p] by (cases "p = q") (auto simp: pkts_ok_def)
    have "rr_inv Q i e'"
    proof (cases "is_head m (mq e1 q)")
      case True
      have "rr_inv Q i (rr_activate i q e1)"
        by (rule rr_good_activate [OF g q rr(1,2) _ lens1]) (simp_all add: m1(2) old(2))
      with True a show ?thesis by (simp add: e')
    next
      case False
      then have "mq e q \<noteq> []" using m1(1) by (auto simp: is_head_def)
      then have "q \<in> set xs" using old(2) [OF q] by blast
      then have ne: "p \<in> set xs" if "p \<in> Q" "mq e1 p \<noteq> []" for p
        using that old(2) m1(2) [of p] by (cases "p = q") auto
      have "rr_good Q i xs e1" by (rule rr_good_mq [OF g rr(1,2) ne lens1])
      with False show ?thesis by (auto simp: e' rr_inv_def)
    qed
    with a m1 qs_act show ?thesis by (simp add: e')
  next
    assume a: "d = 1 \<and> queue_step q (mq e q) [m] e e1"
    note rr = queue_step_rr [OF conjunct2 [OF a]]
    have m1: "mq e1 p = mq e p" "freed e1 = freed e @ [m]" for p
      using a by (cases "p = q"; auto simp: queue_step_def)+
    have "rr_good Q i xs e1" by (rule rr_good_mq [OF g rr(1,2)]) (simp_all add: m1 old)
    then have "rr_inv Q i e1" by (auto simp: rr_inv_def)
    with a m1 show ?thesis by (simp add: e')
  qed
qed

text \<open>
  The loop of \<open>rr_dequeue\<close> ends: every turn either drops an empty queue from the list or
  brings the credit of the head closer to the size of its first packet.
\<close>

definition rr_deficit :: "'x rr_env_scheme \<Rightarrow> qid \<Rightarrow> nat" where
  "rr_deficit e q = Suc (case mq e q of [] \<Rightarrow> 0 | m # _ \<Rightarrow> nat (m_len m - rq_credit (rrq e q)))"

definition rr_measure :: "qid list \<Rightarrow> 'x rr_env_scheme \<Rightarrow> nat" where
  "rr_measure xs e = (\<Sum>q\<leftarrow>xs. rr_deficit e q)"

text \<open>Dropping an empty head.\<close>

lemma rr_good_remove:
  assumes g: "rr_good Q i (x # xs) e" and mt: "mq e x = []"
  shows "rr_good Q i xs (rr_remove_head i e)" "qs (rr_remove_head i e) = qs e"
    "freed (rr_remove_head i e) = freed e" "rr_measure xs (rr_remove_head i e) < rr_measure (x # xs) e"
proof -
  note r = rr_remove_head_ring [OF rr_good_ring(1) [OF g]]
  show q: "qs (rr_remove_head i e) = qs e" "freed (rr_remove_head i e) = freed e"
    by (subst r(2), simp)+
  have d: "x \<notin> set xs" using rr_ring_distinct [OF rr_good_ring(1) [OF g]] by simp
  have "rr_queue_ok xs p (rrq (rr_remove_head i e) p) (mq e p)" if "p \<in> Q" for p
    using rr_good_ring(3) [OF g that] d mt by (cases "p = x") (auto simp: rr_queue_ok_def r(3-5))
  with r(1) rr_good_ring(2) [OF g] show "rr_good Q i xs (rr_remove_head i e)"
    by (simp add: rr_good_def q)
  have "rr_deficit (rr_remove_head i e) p = rr_deficit e p" for p
    by (simp add: rr_deficit_def q r(3) split: list.split)
  then show "rr_measure xs (rr_remove_head i e) < rr_measure (x # xs) e"
    by (simp add: rr_measure_def rr_deficit_def [of e x])
qed

text \<open>Adding a quantum to a head whose packet is too big and moving to the next queue.\<close>

lemma rr_good_credit:
  assumes g: "rr_good Q i (x # xs) e" and m: "mq e x = m # ms" and big: "rq_credit (rrq e x) < m_len m"
    and e1: "e1 = next_pointer i (upd_rq x (\<lambda>r. r\<lparr>rq_credit := s32 (rq_credit r + rq_quantum r)\<rparr>) e)"
  shows "rr_good Q i (xs @ [x]) e1" "qs e1 = qs e" "freed e1 = freed e"
    "rr_measure (xs @ [x]) e1 < rr_measure (x # xs) e"
proof -
  let ?u = "upd_rq x (\<lambda>r. r\<lparr>rq_credit := s32 (rq_credit r + rq_quantum r)\<rparr>) e"
  have xQ: "x \<in> Q" using rr_good_ring(2) [OF g] by simp
  note ox = rr_good_ring(3) [OF g xQ, unfolded rr_queue_ok_def]
  have lm: "m_len m < 2 ^ 16" using ox m by (simp add: pkts_ok_def)
  have c: "s32 (rq_credit (rrq e x) + rq_quantum (rrq e x)) = rq_credit (rrq e x) + rq_quantum (rrq e x)"
    by (rule s32_id) (use ox in auto)
  have ring: "rr_ring i (x # xs) ?u"
    by (rule rr_ring_cong [OF rr_good_ring(1) [OF g]]) simp_all
  note n = rr_next_pointer_ring [OF ring]
  have f: "qs e1 = qs ?u" "freed e1 = freed ?u" "rrq e1 = rrq ?u"
    unfolding e1 by (subst n(2), simp)+
  then show "qs e1 = qs e" "freed e1 = freed e" by simp_all
  have "rr_queue_ok (xs @ [x]) p (rrq e1 p) (mq e p)" if "p \<in> Q" for p
    using rr_good_ring(3) [OF g that] ox lm big unfolding f(3)
    by (cases "p = x") (auto simp: rr_queue_ok_def c)
  with n(1) rr_good_ring(2) [OF g] show "rr_good Q i (xs @ [x]) e1"
    by (simp add: rr_good_def f(1) e1 [symmetric])
  have d: "x \<notin> set xs" using rr_ring_distinct [OF ring] by simp
  have "rr_deficit e1 p = rr_deficit e p" if "p \<in> set xs" for p
    using that d by (auto simp: rr_deficit_def f split: list.split)
  then have "(\<Sum>p\<leftarrow>xs. rr_deficit e1 p) = (\<Sum>p\<leftarrow>xs. rr_deficit e p)"
    by (metis (mono_tags, lifting) map_eq_conv)
  moreover have "rr_deficit e1 x < rr_deficit e x"
    using ox big by (simp add: rr_deficit_def f m c)
  ultimately show "rr_measure (xs @ [x]) e1 < rr_measure (x # xs) e"
    by (simp add: rr_measure_def)
qed

text \<open>Serving the head.\<close>

lemma rr_good_serve:
  assumes g: "rr_good Q i (x # xs) e" and m: "mq e x = m # ms" and small: "m_len m \<le> rq_credit (rrq e x)"
    and d: "dn_dequeue x (upd_rq x (\<lambda>r. r\<lparr>rq_credit := s32 (rq_credit r - sint (word_of_int (m_len m) :: u64))\<rparr>) e)
      = (p, e')"
  shows "rr_good Q i (x # xs) e' \<and> deq_outcome Q p e e'"
proof -
  let ?u = "upd_rq x (\<lambda>r. r\<lparr>rq_credit := s32 (rq_credit r - sint (word_of_int (m_len m) :: u64))\<rparr>) e"
  have xQ: "x \<in> Q" using rr_good_ring(2) [OF g] by simp
  note ox = rr_good_ring(3) [OF g xQ, unfolded rr_queue_ok_def]
  have lm: "0 \<le> m_len m" "m_len m < 2 ^ 16" using ox m by (simp_all add: pkts_ok_def)
  have l: "sint (word_of_int (m_len m) :: u64) = m_len m" by (rule sint_of_int64) (use lm in simp_all)
  have c: "s32 (rq_credit (rrq e x) - m_len m) = rq_credit (rrq e x) - m_len m"
    by (rule s32_id) (use ox lm small in auto)
  have gu: "rr_good Q i (x # xs) ?u"
  proof -
    have "rr_ring i (x # xs) ?u" by (rule rr_ring_cong [OF rr_good_ring(1) [OF g]]) simp_all
    moreover have "rr_queue_ok (x # xs) p (rrq ?u p) (mq ?u p)" if "p \<in> Q" for p
      using rr_good_ring(3) [OF g that] ox lm small by (cases "p = x") (auto simp: rr_queue_ok_def l c)
    ultimately show ?thesis using rr_good_ring(2) [OF g] by (simp add: rr_good_def)
  qed
  have st: "p = Some m" "queue_step x ms [] ?u e'"
    using dn_dequeue_step [OF d] m by auto
  have mq': "mq e' x = ms" "\<And>p. p \<noteq> x \<Longrightarrow> mq e' p = mq e p" "freed e' = freed e"
    using st(2) by (auto simp: queue_step_def)
  have "rr_good Q i (x # xs) e'"
  proof (rule rr_good_mq [OF gu queue_step_rr(1,2) [OF st(2)]])
    fix p assume p: "p \<in> Q"
    have o: "rr_queue_ok (x # xs) p (rrq e p) (mq e p)" by (rule rr_good_ring(3) [OF g p])
    show "p \<in> set (x # xs)" if "mq e' p \<noteq> []"
      using o that mq' by (cases "p = x") (auto simp: rr_queue_ok_def)
    show "pkts_ok (mq e' p)"
      using o m mq' by (cases "p = x") (auto simp: rr_queue_ok_def pkts_ok_def)
  qed
  then show ?thesis using st(1) m mq' xQ by (auto simp: deq_outcome_def)
qed

lemma rr_dequeue_good:
  "rr_good Q i xs e \<Longrightarrow> \<exists>p e' ys. rr_dequeue i e = Some (p, e') \<and> rr_good Q i ys e' \<and> deq_outcome Q p e e'"
proof (induction "rr_measure xs e" arbitrary: xs e rule: less_induct)
  case less
  note g = less.prems
  show ?case
  proof (cases xs)
    case Nil
    then have "rs_head (rrs e i) = None" using rr_good_ring(1) [OF g] by (simp add: rr_ring_def)
    then have "rr_dequeue i e = Some (None, e)" by (simp add: rr_dequeue.simps [of i e])
    moreover have "mq e q = []" if "q \<in> Q" for q
      using rr_good_ring(3) [OF g that] Nil by (auto simp: rr_queue_ok_def)
    ultimately show ?thesis using g by (auto simp: deq_outcome_def)
  next
    case (Cons x xs')
    note g' = g [unfolded Cons]
    have h: "rs_head (rrs e i) = Some x" using rr_good_ring(1) [OF g'] by (simp add: rr_ring_def)
    show ?thesis
    proof (cases "mq e x")
      case Nil
      note r = rr_good_remove [OF g' Nil]
      have "rr_dequeue i e = rr_dequeue i (rr_remove_head i e)"
        by (simp add: rr_dequeue.simps [of i e] h Nil)
      with less.hyps [OF _ r(1)] r(4) Cons obtain p e' ys where
        "rr_dequeue i e = Some (p, e')" "rr_good Q i ys e'" "deq_outcome Q p (rr_remove_head i e) e'" by auto
      then show ?thesis using deq_outcome_cong r(2,3) by blast
    next
      case m: (Cons m ms)
      have xQ: "x \<in> Q" using rr_good_ring(2) [OF g'] by simp
      have b: "0 \<le> m_len m" "m_len m < 2 ^ 16" "0 \<le> rq_credit (rrq e x)" "rq_credit (rrq e x) < 2 ^ 29"
        using rr_good_ring(3) [OF g' xQ] m by (auto simp: rr_queue_ok_def pkts_ok_def)
      then have cmp: "(word_of_int (rq_credit (rrq e x)) :: u64) < word_of_int (m_len m) \<longleftrightarrow>
          rq_credit (rrq e x) < m_len m" by (intro u64_of_int_less) auto
      show ?thesis
      proof (cases "rq_credit (rrq e x) < m_len m")
        case True
        let ?e = "next_pointer i (upd_rq x (\<lambda>r. r\<lparr>rq_credit := s32 (rq_credit r + rq_quantum r)\<rparr>) e)"
        note r = rr_good_credit [OF g' m True refl]
        have "rr_dequeue i e = rr_dequeue i ?e"
          by (subst rr_dequeue.simps) (simp add: h m Let_def cmp True)
        with less.hyps [OF _ r(1)] r(4) Cons obtain p e' ys where
          "rr_dequeue i e = Some (p, e')" "rr_good Q i ys e'" "deq_outcome Q p ?e e'" by auto
        then show ?thesis using deq_outcome_cong r(2,3) by blast
      next
        case False
        let ?u = "upd_rq x (\<lambda>r. r\<lparr>rq_credit := s32 (rq_credit r - sint (word_of_int (m_len m) :: u64))\<rparr>) e"
        obtain p e' where d: "dn_dequeue x ?u = (p, e')" by fastforce
        have "rr_dequeue i e = Some (p, e')"
          by (subst rr_dequeue.simps) (simp add: h m Let_def cmp False d)
        with rr_good_serve [OF g' m _ d] False show ?thesis by auto
      qed
    qed
  qed
qed

section \<open>Creating and removing queues\<close>

lemma rr_find_prev_chain:
  assumes "\<forall>x\<in>set (h # ys). nxt x \<noteq> None" "chain (\<lambda>x. the (nxt x)) h (ys @ [q])" "q \<notin> set ys"
  shows "rr_find_prev q nxt (Some h) = Some (Some (last (h # ys)))"
  using assms
proof (induction ys arbitrary: h)
  case Nil
  then show ?case by (auto simp: rr_find_prev.simps [of q nxt "Some h"])
next
  case (Cons y ys)
  then have n: "nxt h = Some y" "y \<noteq> q" by auto
  have "rr_find_prev q nxt (Some h) = rr_find_prev q nxt (Some y)"
    by (subst rr_find_prev.simps) (simp add: n)
  with Cons show ?case by auto
qed

lemma remove_queue_q_ring:
  assumes r: "rr_ring i xs e" and st: "rq_status (rrq e q) = 1" and q: "q \<in> set xs"
  shows "\<exists>e' ys. remove_queue_q q i e = Some e' \<and> rr_ring i ys e' \<and> set ys = set xs - {q} \<and> qs e' = qs e \<and>
    freed e' = freed e \<and> (\<forall>p. rq_credit (rrq e' p) = rq_credit (rrq e p) \<and>
      rq_quantum (rrq e' p) = rq_quantum (rrq e p) \<and>
      rq_status (rrq e' p) = (if p = q then 0 else rq_status (rrq e p)))"
proof (cases "q = hd xs")
  case True
  then obtain zs where xs: "xs = q # zs" using q by (cases xs) auto
  note h = rr_remove_head_ring [OF r [unfolded xs]]
  have "remove_queue_q q i e = Some (rr_remove_head i e)"
    using r by (simp add: remove_queue_q_def st rr_ring_def xs)
  moreover have "set zs = set xs - {q}" using rr_ring_distinct [OF r] by (auto simp: xs)
  moreover have "qs (rr_remove_head i e) = qs e" "freed (rr_remove_head i e) = freed e" by (subst h(2), simp)+
  ultimately show ?thesis using h(1,3-5) by blast
next
  case False
  obtain ys zs where xs: "xs = ys @ q # zs" using q by (meson split_list)
  with False have ne: "ys \<noteq> []" by auto
  then obtain h ys' where ys: "ys = h # ys'" by (cases ys) auto
  have c: "rs_head (rrs e i) = Some h" "rs_tail (rrs e i) = Some (last xs)"
      "circ (rnext e) (last xs) xs" "\<forall>q\<in>set xs. rq_next (rrq e q) \<noteq> None"
    using r by (simp_all add: rr_ring_def xs ys)
  define p where "p = last ys"
  have d: "distinct xs" by (rule rr_ring_distinct [OF r])
  have pin: "p \<in> set ys" using ne by (simp add: p_def)
  have hq: "h \<noteq> q" using d by (simp add: xs ys)
  have fp: "rr_find_prev q (\<lambda>p. rq_next (rrq e p)) (Some h) = Some (Some p)"
    unfolding p_def ys by (rule rr_find_prev_chain) (use c(3,4) d in \<open>auto simp: circ_def chain_append xs ys\<close>)
  define e' where "e' = upd_rq q (\<lambda>r. r\<lparr>rq_status := 0\<rparr>)
      (let e = upd_rq p (\<lambda>r. r\<lparr>rq_next := rq_next (rrq e q)\<rparr>) e
       in if Some q = rs_tail (rrs e i) then upd_rs i (\<lambda>s. s\<lparr>rs_tail := Some p\<rparr>) e else e)"
  have rem: "remove_queue_q q i e = Some e'"
    using hq by (simp add: remove_queue_q_def st c(1) fp e'_def Let_def)
  have n: "rnext e' = (rnext e)(p := rnext e q)" by (auto simp: e'_def Let_def fun_eq_iff)
  have ring: "circ (rnext e') (if q = last xs then p else last xs) (ys @ zs)"
  proof -
    have c3: "circ (rnext e) (last xs) (ys @ q # zs)" unfolding xs [symmetric] by (rule c(3))
    show ?thesis unfolding n by (rule circ_unlink(2) [OF c3]) (simp_all add: p_def ne)
  qed
  then have l: "last (ys @ zs) = (if q = last xs then p else last xs)" by (simp add: circ_def)
  have "rr_ring i (ys @ zs) e'"
    unfolding rr_ring_def l
    using ne ring c pin by (auto simp: e'_def Let_def xs ys)
  moreover have "set (ys @ zs) = set xs - {q}" using d by (auto simp: xs)
  ultimately show ?thesis using rem by (intro exI [of _ e'] exI [of _ "ys @ zs"]) (auto simp: e'_def Let_def)
qed

text \<open>A queue taken away: whatever its state, the rest of the instance is well formed.\<close>

lemma rr_free_queue_law:
  assumes inv: "rr_inv Q i e" and q: "q \<in> Q" and i: "q_si (qs e q) = Some i"
  shows "\<exists>e'. rr_free_queue q False e = Some (0, e') \<and> rr_inv (Q - {q}) i e' \<and> qs e' = qs e \<and> freed e' = freed e"
proof -
  obtain xs where g: "rr_good Q i xs e" using inv by (auto simp: rr_inv_def)
  note o = rr_good_ring(3) [OF g]
  show ?thesis
  proof (cases "rq_status (rrq e q) = 1")
    case True
    then have "q \<in> set xs" using o [OF q] by (simp add: rr_queue_ok_def)
    from remove_queue_q_ring [OF rr_good_ring(1) [OF g] True this] obtain e' ys where
      e': "remove_queue_q q i e = Some e'" "rr_ring i ys e'" "set ys = set xs - {q}" "qs e' = qs e" "freed e' = freed e"
        "\<forall>p. rq_credit (rrq e' p) = rq_credit (rrq e p) \<and> rq_quantum (rrq e' p) = rq_quantum (rrq e p) \<and>
          rq_status (rrq e' p) = (if p = q then 0 else rq_status (rrq e p))" by blast
    have "rr_queue_ok ys p (rrq e' p) (mq e' p)" if "p \<in> Q - {q}" for p
      using o [of p] that e'(3,4,6) by (auto simp: rr_queue_ok_def)
    then have "rr_good (Q - {q}) i ys e'"
      using e'(2,3) rr_good_ring(2) [OF g] by (auto simp: rr_good_def)
    with e' True i show ?thesis by (auto simp: rr_free_queue_def rr_inv_def)
  next
    case False
    then have qx: "q \<notin> set xs" using o [OF q] by (simp add: rr_queue_ok_def)
    have "rr_good (Q - {q}) i xs e"
      using rr_good_ring(1,2) [OF g] qx o by (auto simp: rr_good_def)
    with False show ?thesis by (auto simp: rr_free_queue_def rr_inv_def)
  qed
qed

text \<open>A new queue, possibly with packets already in it.\<close>

lemma rr_new_queue_law:
  assumes inv: "rr_inv Q i e" and q: "q \<notin> Q" and i: "q_si (qs e q) = Some i" and ms: "pkts_ok (mq e q)"
    and par: "0 < q_par e q 0 * q_par e q 1" "q_par e q 0 * q_par e q 1 < 2 ^ 28"
    and r: "rr_new_queue q e = (r, e')"
  shows "r = 0 \<and> rr_inv (insert q Q) i e' \<and> (\<forall>p. mq e' p = mq e p) \<and> freed e' = freed e"
proof -
  obtain xs where g: "rr_good Q i xs e" using inv by (auto simp: rr_inv_def)
  have qx: "q \<notin> set xs" using rr_good_ring(2) [OF g] q by auto
  define qn where "qn = q_par e q 0 * q_par e q (Suc 0)"
  have b: "s32 qn = qn" by (rule s32_id) (use par in \<open>simp_all add: qn_def\<close>)
  define e1 where "e1 = upd_q q (\<lambda>r. r\<lparr>q_ni := (q_ni r)\<lparr>fl_oid := (fl_oid (q_ni r))\<lparr>id_subtype := ucast DN_SCHED_RR\<rparr>\<rparr>\<rparr>) e"
  have rr1: "rrq e1 = rrq e" "rrs e1 = rrs e" "freed e1 = freed e" by (simp_all add: e1_def upd_q_def)
  have m1: "mq e1 p = mq e p" "q_si (qs e1 p) = q_si (qs e p)" "q_par e1 q n = q_par e q n" for p n
    by (simp_all add: e1_def q_par_def)
  define e2 where "e2 = upd_rq q (\<lambda>r. r\<lparr>rq_quantum := qn, rq_credit := qn, rq_status := 0\<rparr>) e1"
  have e': "r = 0" "e' = (if mq e q \<noteq> [] then rr_append q i e2 else e2)"
  proof -
    have "rr_new_queue q e = (0, if mq e q \<noteq> [] then rr_append q i e2 else e2)"
      unfolding rr_new_queue_def Let_def e1_def [symmetric] One_nat_def m1 qn_def [symmetric] b e2_def [symmetric]
      by (simp add: e2_def m1 i)
    with r show "r = 0" "e' = (if mq e q \<noteq> [] then rr_append q i e2 else e2)" by simp_all
  qed
  have m2: "mq e2 p = mq e p" "freed e2 = freed e" for p by (simp_all add: e2_def m1 rr1)
  have ring: "rr_ring i xs e2"
    by (rule rr_ring_cong [OF rr_good_ring(1) [OF g]]) (use qx in \<open>auto simp: e2_def rr1\<close>)
  have oq: "rr_queue_ok ys q (rrq e2 q) (mq e q) \<longleftrightarrow> q \<notin> set ys \<and> mq e q = []" for ys
    using par b ms by (auto simp: rr_queue_ok_def e2_def qn_def)
  have op: "rr_queue_ok xs p (rrq e2 p) (mq e p)" if "p \<in> Q" for p
    using rr_good_ring(3) [OF g that] that q by (auto simp: e2_def rr1)
  show ?thesis
  proof (cases "mq e q = []")
    case True
    then have "rr_good (insert q Q) i xs e2"
      using ring rr_good_ring(2) [OF g] op oq [of xs] qx by (auto simp: rr_good_def m2)
    with True m2 show ?thesis by (auto simp: e' rr_inv_def)
  next
    case False
    have "rr_queue_ok (xs @ [q]) p (rrq (rr_append q i e2) p) (mq e p)" if "p \<in> insert q Q" for p
    proof (cases "p = q")
      case True
      then show ?thesis using par ms by (simp add: rr_queue_ok_def rr_append_fields(2-4)) (simp add: e2_def qn_def)
    next
      case False
      with that op [of p] show ?thesis by (auto simp: rr_queue_ok_def rr_append_fields(2-4))
    qed
    then have "rr_good (insert q Q) i (xs @ [q]) (rr_append q i e2)"
      using rr_append_ring [OF ring qx] rr_good_ring(2) [OF g] by (auto simp: rr_good_def m2)
    with False m2 show ?thesis by (auto simp: e' rr_inv_def)
  qed
qed

section \<open>The contract\<close>

definition rr_deq :: "siid \<Rightarrow> 'x rr_env_scheme \<Rightarrow> mbuf option \<times> 'x rr_env_scheme" where
  "rr_deq i e = the (rr_dequeue i e)"

interpretation rr: wc_scheduler "rr_enqueue i" "rr_deq i" "rr_inv Q i" Q "\<lambda>_ q. q" "held_in Q" freed "new_pkt Q"
  for Q :: "qid set" and i :: siid
proof
  fix e e' :: "'x rr_env_scheme" and q m r p
  assume inv: "rr_inv Q i e"
  show "rr_inv Q i e' \<and> (r = 0 \<and> held_in Q e' = (held_in Q e)(q := held_in Q e q @ [m]) \<and> freed e' = freed e \<or>
      r \<noteq> 0 \<and> held_in Q e' = held_in Q e \<and> freed e' = freed e @ [m])"
    if "q \<in> Q" "new_pkt Q e m" "rr_enqueue i q m e = (r, e')"
  proof -
    have "pkts_ok [m]" "\<not> is_head m (mq e q)" using that(1,2) by (simp_all add: new_pkt_def)
    note law = rr_enqueue_law [OF inv that(1) this that(3)]
    show ?thesis using conjunct1 [OF law] enq_outcome_held [OF that(1) conjunct2 [OF law]] by (rule conjI)
  qed
  have deq: "rr_inv Q i e' \<and> freed e' = freed e \<and>
      (case p of None \<Rightarrow> held_in Q e' = held_in Q e
       | Some m \<Rightarrow> \<exists>q ms. held_in Q e q = m # ms \<and> held_in Q e' = (held_in Q e)(q := ms)) \<and>
      (p = None \<longrightarrow> (\<forall>q. held_in Q e q = []))"
    if d: "rr_deq i e = (p, e')" for p
  proof -
    obtain xs where "rr_good Q i xs e" using inv by (auto simp: rr_inv_def)
    from rr_dequeue_good [OF this] obtain p1 e1 ys where
      r: "rr_dequeue i e = Some (p1, e1)" "rr_good Q i ys e1" "deq_outcome Q p1 e e1" by blast
    then have "p1 = p" "e1 = e'" using d by (simp_all add: rr_deq_def)
    with r(2,3) deq_outcome_held show ?thesis by (auto simp: rr_inv_def)
  qed
  show "rr_inv Q i e' \<and> freed e' = freed e \<and>
      (case p of None \<Rightarrow> held_in Q e' = held_in Q e
       | Some m \<Rightarrow> \<exists>q ms. held_in Q e q = m # ms \<and> held_in Q e' = (held_in Q e)(q := ms))"
    if "rr_deq i e = (p, e')" using deq [OF that] by blast
  show "held_in Q e q = []" if "rr_deq i e = (None, e')" using deq [OF that] by blast
qed

section \<open>Properties\<close>

text \<open>An instance with two queues of quantum 100 and no packets.\<close>

definition wrr :: rr_env where
  "wrr = \<lparr>qs = qs wenv, fsks = fsks wenv, sis = sis wenv, schks = schks wenv, idle_queue = 2, idle_si = 1,
     curr_time = 0, io_pkt_drop = 0, rand = (\<lambda>_. 0), freed = [],
     rrq = (\<lambda>_. \<lparr>rq_status = 0, rq_credit = 100, rq_quantum = 100, rq_next = None\<rparr>),
     rrs = (\<lambda>_. \<lparr>rs_head = None, rs_tail = None\<rparr>), rrk = (\<lambda>_. \<lparr>rk_min_q = 64, rk_max_q = 2048, rk_q_bytes = 1500\<rparr>)\<rparr>"

lemma wrr_inv: "rr_inv {1, 2} 0 wrr"
  unfolding rr_inv_def
  by (rule exI [of _ "[]"])
    (simp add: rr_good_def rr_ring_def rr_queue_ok_def pkts_ok_def wrr_def wenv_def dn_zero_defs)

text \<open>C31: The deficit loop of \<open>rr_dequeue\<close> always ends, and it returns a packet whenever some queue of
  the instance has one: the head of one of the queues, with every other queue untouched.\<close>

theorem rr_dequeue_returns:
  assumes "rr_inv Q i e"
  shows "\<exists>p e'. rr_dequeue i e = Some (p, e') \<and> rr_inv Q i e' \<and> deq_outcome Q p e e' \<and>
    (p = None \<longleftrightarrow> (\<forall>q\<in>Q. mq e q = []))"
proof -
  obtain xs where "rr_good Q i xs e" using assms by (auto simp: rr_inv_def)
  from rr_dequeue_good [OF this] obtain p e' ys where
    r: "rr_dequeue i e = Some (p, e')" "rr_good Q i ys e'" "deq_outcome Q p e e'" by blast
  then have "p = None \<longleftrightarrow> (\<forall>q\<in>Q. mq e q = [])"
    by (cases p) (force simp: deq_outcome_def)+
  with r show ?thesis by (auto simp: rr_inv_def)
qed

lemma rr_dequeue_returns_witness: "\<exists>p e'. rr_dequeue 0 wrr = Some (p, e') \<and> rr_inv {1, 2} 0 e'"
  using rr_dequeue_returns [OF wrr_inv] by blast

text \<open>C9: Over any sequence of arrivals and requests the round robin scheduler keeps its invariant and
  each flow is served first-in first-out: per queue, what was held and accepted is what was
  delivered followed by what is still queued.\<close>

theorem rr_run_fifo:
  assumes "rr_inv Q i e"
    "scheduler.fine (rr_enqueue i) (rr_deq i) Q (new_pkt Q) xs e"
    "scheduler.run (rr_enqueue i) (rr_deq i) (\<lambda>_ q. q) xs e = (ins, outs, e')"
  shows "rr_inv Q i e' \<and> (\<exists>tr. map snd tr = outs \<and>
    (\<forall>q. held_in Q e q @ map snd (filter (\<lambda>x. fst x = q) ins) =
      map snd (filter (\<lambda>x. fst x = q) tr) @ held_in Q e' q))"
  using rr.run_fifo [OF assms] by (simp add: rr.of_class_def)

lemma rr_run_fifo_witness:
  "\<exists>ins outs e'. scheduler.run (rr_enqueue 0) (rr_deq 0) (\<lambda>_ q. q) [Some (1, wpkt 1 1500), None, None] wrr =
     (ins, outs, e') \<and> rr_inv {1, 2} 0 e'"
proof -
  obtain ins outs e' where r: "scheduler.run (rr_enqueue 0) (rr_deq 0) (\<lambda>_ q. q)
      [Some (1, wpkt 1 1500), None, None] wrr = (ins, outs, e')"
    by (metis prod_cases3)
  have "scheduler.fine (rr_enqueue 0) (rr_deq 0) {1, 2} (new_pkt {1, 2}) [Some (1, wpkt 1 1500), None, None] wrr"
    by (simp add: new_pkt_def pkts_ok_def is_head_def wpkt_def wrr_def wenv_def dn_zero_defs)
  from rr_run_fifo [OF wrr_inv this r] r show ?thesis by blast
qed

text \<open>Removing a queue from a round robin instance ends, in whatever state the queue is, and leaves the
  other queues of the instance correctly linked with all packets in place.\<close>

theorem rr_free_queue_correct:
  assumes "rr_inv Q i e" "q \<in> Q" "q_si (qs e q) = Some i"
  shows "\<exists>e'. rr_free_queue q False e = Some (0, e') \<and> rr_inv (Q - {q}) i e' \<and> qs e' = qs e \<and> freed e' = freed e"
  by (rule rr_free_queue_law [OF assms])

lemma rr_free_queue_correct_witness:
  "\<exists>e'. rr_free_queue 1 False wrr = Some (0, e') \<and> rr_inv ({1, 2} - {1}) 0 e'"
  using rr_free_queue_correct [OF wrr_inv, of 1] by (auto simp: wrr_def wenv_def dn_zero_defs)

end
