(* ===== verification/SchedPrio.thy ===== *)
theory SchedPrio
  imports Sched
begin

text \<open>
  The strict priority scheduler of \<open>sys/netinet/ipfw/dn_sched_prio.c\<close>: a bitmap of the
  backlogged priorities (a 64-bit \<open>unsigned long\<close>, with the bit operations of the Linux kernel)
  and one queue per priority; \<open>ffs\<close> takes an \<open>int\<close>, so it sees the low 32 bits only. An
  access outside the array or through a NULL pointer makes the result \<open>None\<close>.
\<close>

section \<open>Data and operations\<close>

record prio_si =
  ps_bitmap :: u64
  ps_array :: "nat \<Rightarrow> qid option"

record prio_env = dn_env +
  ps :: "siid \<Rightarrow> prio_si"

definition DN_SCHED_PRIO :: u32 where "DN_SCHED_PRIO = 5"

definition MAXPRIO :: int where "MAXPRIO = 64"

definition upd_ps :: "siid \<Rightarrow> (prio_si \<Rightarrow> prio_si) \<Rightarrow> 'x prio_env_scheme \<Rightarrow> 'x prio_env_scheme" where
  "upd_ps i f e = e\<lparr>ps := (ps e)(i := f (ps e i))\<rparr>"

definition ffs :: "u64 \<Rightarrow> nat" where
  "ffs w = (case find (bit w) [0..<32] of None \<Rightarrow> 0 | Some n \<Rightarrow> Suc n)"

definition prio_set :: "nat \<Rightarrow> qid \<Rightarrow> prio_si \<Rightarrow> prio_si" where
  "prio_set p q s = s\<lparr>ps_bitmap := set_bit p (ps_bitmap s), ps_array := (ps_array s)(p := Some q)\<rparr>"

definition prio_clear :: "nat \<Rightarrow> prio_si \<Rightarrow> prio_si" where
  "prio_clear p s = s\<lparr>ps_array := (ps_array s)(p := None), ps_bitmap := unset_bit p (ps_bitmap s)\<rparr>"

definition prio_enqueue :: "siid \<Rightarrow> qid \<Rightarrow> mbuf \<Rightarrow> 'x prio_env_scheme \<Rightarrow> nat \<times> 'x prio_env_scheme" where
  "prio_enqueue i q m e =
     (let prio = nat (q_par e q 0);
          (q, e) = (if \<not> bit (ps_bitmap (ps e i)) prio then (q, upd_ps i (prio_set prio q) e)
                    else (the (ps_array (ps e i) prio), e))
      in case dn_enqueue q m False e of (r, e) \<Rightarrow> (if r \<noteq> 0 then 1 else 0, e))"

definition prio_dequeue :: "siid \<Rightarrow> 'x prio_env_scheme \<Rightarrow> (mbuf option \<times> 'x prio_env_scheme) option" where
  "prio_dequeue i e =
     (if ps_bitmap (ps e i) = 0 then Some (None, e)
      else if ffs (ps_bitmap (ps e i)) = 0 then None
      else
        let prio = ffs (ps_bitmap (ps e i)) - 1
        in case ps_array (ps e i) prio of
             None \<Rightarrow> None
           | Some q \<Rightarrow>
               (case dn_dequeue q e of
                  (m, e) \<Rightarrow> Some (m, if mq e q = [] then upd_ps i (prio_clear prio) e else e)))"

definition prio_new_sched :: "siid \<Rightarrow> 'x prio_env_scheme \<Rightarrow> nat \<times> 'x prio_env_scheme" where
  "prio_new_sched i e = (0, upd_ps i (\<lambda>s. s\<lparr>ps_array := (\<lambda>_. None), ps_bitmap := 0\<rparr>) e)"

definition prio_new_fsk :: "fsid \<Rightarrow> 'x prio_env_scheme \<Rightarrow> nat \<times> 'x prio_env_scheme" where
  "prio_new_fsk f e = (0, bound_par f 0 0 0 (MAXPRIO - 1) e)"

text \<open>
  Moving the packets and their counts to the queue that already serves the priority: the first packet is written behind
  the last one of that queue. When that queue is empty its tail pointer is null, or left from a packet that is gone.
\<close>

definition prio_merge :: "qid \<Rightarrow> qid \<Rightarrow> 'x dn_env_scheme \<Rightarrow> 'x dn_env_scheme option" where
  "prio_merge oldq q e =
     (if mq e oldq = [] then None else
      let r = qs e q;
          e = upd_q oldq (\<lambda>o1. o1\<lparr>q_mq := q_mq o1 @ q_mq r,
                q_ni := (q_ni o1)\<lparr>fl_length := fl_length (q_ni o1) + fl_length (q_ni r),
                                  len_bytes := len_bytes (q_ni o1) + len_bytes (q_ni r)\<rparr>\<rparr>) e
      in Some (upd_q q (\<lambda>r. r\<lparr>q_mq := [], q_ni := (q_ni r)\<lparr>fl_length := 0, len_bytes := 0\<rparr>\<rparr>) e))"

definition prio_new_queue :: "qid \<Rightarrow> 'x prio_env_scheme \<Rightarrow> (nat \<times> 'x prio_env_scheme) option" where
  "prio_new_queue q e =
     (let i = the (q_si (qs e q));
          prio = nat (q_par e q 0);
          e = upd_q q (\<lambda>r. r\<lparr>q_ni := (q_ni r)\<lparr>fl_oid := (fl_oid (q_ni r))\<lparr>id_subtype := ucast DN_SCHED_PRIO\<rparr>\<rparr>\<rparr>) e
      in if mq e q = [] then Some (0, e)
         else if \<not> bit (ps_bitmap (ps e i)) prio then Some (0, upd_ps i (prio_set prio q) e)
         else if ps_array (ps e i) prio \<noteq> Some q then map_option (\<lambda>e. (0, e)) (prio_merge (the (ps_array (ps e i) prio)) q e)
         else Some (0, e))"

definition prio_free_queue :: "qid \<Rightarrow> bool \<Rightarrow> 'x prio_env_scheme \<Rightarrow> (int \<times> 'x prio_env_scheme) option" where
  "prio_free_queue q safe e =
     (let prio = nat (q_par e q 0); i = the (q_si (qs e q))
      in Some (0, if ps_array (ps e i) prio = Some q then upd_ps i (prio_clear prio) e else e))"

definition prio_desc :: "'x prio_env_scheme dn_alg" where
  "prio_desc = \<lparr>al_type = DN_SCHED_PRIO, al_name = ''PRIO'', al_flags = DN_MULTIQUEUE, al_q_datalen = 0,
     al_enqueue = (\<lambda>i q m e. Some (prio_enqueue i (the q) m e)), al_dequeue = prio_dequeue,
     al_config = None, al_destroy = None, al_new_sched = Some prio_new_sched, al_free_sched = None,
     al_new_fsk = Some prio_new_fsk, al_free_fsk = None, al_new_queue = Some prio_new_queue,
     al_free_queue = Some prio_free_queue\<rparr>"

section \<open>Invariant\<close>

text \<open>
  The bitmap is the domain of the array, every queue is in the slot of its priority, and every
  queue of \<open>Q\<close> with packets is in its slot. Priorities are below 32 (see \<open>prio_high_stuck\<close>).
\<close>

definition prio_of :: "'x dn_env_scheme \<Rightarrow> qid \<Rightarrow> nat" where
  "prio_of e q = nat (q_par e q 0)"

definition prio_inv :: "qid set \<Rightarrow> siid \<Rightarrow> 'x prio_env_scheme \<Rightarrow> bool" where
  "prio_inv Q i e \<longleftrightarrow>
     (\<forall>p. bit (ps_bitmap (ps e i)) p = (ps_array (ps e i) p \<noteq> None)) \<and>
     (\<forall>p q. ps_array (ps e i) p = Some q \<longrightarrow> p < 32 \<and> q \<in> Q \<and> prio_of e q = p) \<and>
     (\<forall>q\<in>Q. prio_of e q < 32 \<and> (mq e q \<noteq> [] \<longrightarrow> ps_array (ps e i) (prio_of e q) = Some q))"

definition prio_held :: "siid \<Rightarrow> 'x prio_env_scheme \<Rightarrow> nat \<Rightarrow> mbuf list" where
  "prio_held i e p = (case ps_array (ps e i) p of None \<Rightarrow> [] | Some q \<Rightarrow> mq e q)"

lemma upd_ps_simps [simp]:
  "ps (upd_ps i f e) = (ps e)(i := f (ps e i))" "qs (upd_ps i f e) = qs e" "fsks (upd_ps i f e) = fsks e"
  "sis (upd_ps i f e) = sis e" "freed (upd_ps i f e) = freed e"
  by (simp_all add: upd_ps_def)

lemma ffs_Suc:
  "ffs w = Suc n \<Longrightarrow> bit w n \<and> n < 32 \<and> (\<forall>k<n. \<not> bit w k)"
  by (auto simp: ffs_def find_Some_iff split: option.splits)

lemma ffs_0: "ffs w = 0 \<longleftrightarrow> (\<forall>k<32. \<not> bit w k)"
proof -
  have "find (bit w) [0..<32] = None \<longleftrightarrow> (\<forall>k<32. \<not> bit w k)" by (auto simp: find_None_iff)
  then show ?thesis by (cases "find (bit w) [0..<32]") (simp_all add: ffs_def)
qed

lemma queue_step_ps: "queue_step q xs fr e e' \<Longrightarrow> ps e' = ps e"
  by (cases e; cases e') (simp add: queue_step_def)

lemma queue_step_par: "queue_step q xs fr e e' \<Longrightarrow> q_par e' p n = q_par e p n"
  by (cases "p = q") (simp_all add: queue_step_def q_par_def)

lemma prio_set_bit: "p < 64 \<Longrightarrow> bit (set_bit p (w :: u64)) k \<longleftrightarrow> k = p \<or> bit w k"
  by (auto simp: bit_set_bit_iff)

lemma prio_unset_bit: "bit (unset_bit p (w :: u64)) k \<longleftrightarrow> k \<noteq> p \<and> bit w k"
  by (auto simp: bit_unset_bit_iff)

text \<open>An environment in which only the contents of the queues changed.\<close>

lemma prio_inv_mq:
  assumes inv: "prio_inv Q i e" and e: "ps e' = ps e" "\<And>q. q_par e' q 0 = q_par e q 0"
    and m: "\<And>q. q \<in> Q \<Longrightarrow> mq e' q \<noteq> [] \<Longrightarrow> ps_array (ps e i) (prio_of e q) = Some q"
  shows "prio_inv Q i e'"
proof -
  have p: "prio_of e' = prio_of e" by (simp add: fun_eq_iff prio_of_def e(2))
  show ?thesis using inv m unfolding prio_inv_def e(1) p by blast
qed

text \<open>Claiming a free priority for a queue.\<close>

lemma prio_invI:
  assumes "\<And>p. bit (ps_bitmap (ps e i)) p = (ps_array (ps e i) p \<noteq> None)"
    "\<And>p q. ps_array (ps e i) p = Some q \<Longrightarrow> p < 32 \<and> q \<in> Q \<and> prio_of e q = p"
    "\<And>q. q \<in> Q \<Longrightarrow> prio_of e q < 32"
    "\<And>q. q \<in> Q \<Longrightarrow> mq e q \<noteq> [] \<Longrightarrow> ps_array (ps e i) (prio_of e q) = Some q"
  shows "prio_inv Q i e"
  using assms unfolding prio_inv_def by blast

lemma prio_invD:
  assumes "prio_inv Q i e"
  shows "bit (ps_bitmap (ps e i)) p = (ps_array (ps e i) p \<noteq> None)"
    "ps_array (ps e i) p = Some q \<Longrightarrow> p < 32" "ps_array (ps e i) p = Some q \<Longrightarrow> q \<in> Q"
    "ps_array (ps e i) p = Some q \<Longrightarrow> prio_of e q = p" "q \<in> Q \<Longrightarrow> prio_of e q < 32"
    "q \<in> Q \<Longrightarrow> mq e q \<noteq> [] \<Longrightarrow> ps_array (ps e i) (prio_of e q) = Some q"
  using assms unfolding prio_inv_def by blast+

lemma prio_inv_set:
  assumes inv: "prio_inv Q i e" and q: "q \<in> Q" and free: "ps_array (ps e i) (prio_of e q) = None"
  shows "prio_inv Q i (upd_ps i (prio_set (prio_of e q) q) e)"
proof (rule prio_invI)
  let ?e = "upd_ps i (prio_set (prio_of e q) q) e"
  have pr: "prio_of ?e = prio_of e" by (simp add: fun_eq_iff prio_of_def q_par_def)
  have "prio_of e q < 32" by (rule prio_invD(5) [OF inv q])
  then have lt: "prio_of e q < 64" by simp
  have a: "ps_array (ps ?e i) p = (if p = prio_of e q then Some q else ps_array (ps e i) p)" for p
    by (simp add: prio_set_def)
  show "bit (ps_bitmap (ps ?e i)) p = (ps_array (ps ?e i) p \<noteq> None)" for p
    using prio_invD(1) [OF inv, of p] by (simp add: prio_set_def prio_set_bit [OF lt])
  show "p < 32 \<and> x \<in> Q \<and> prio_of ?e x = p" if "ps_array (ps ?e i) p = Some x" for p x
  proof (cases "p = prio_of e q")
    case True
    then have "x = q" using that a [of p] by simp
    then show ?thesis using True q \<open>prio_of e q < 32\<close> by (simp add: pr)
  next
    case False
    then have "ps_array (ps e i) p = Some x" using that a [of p] by simp
    then show ?thesis unfolding pr using prio_invD(2-4) [OF inv] by blast
  qed
  show "prio_of ?e x < 32" if "x \<in> Q" for x unfolding pr by (rule prio_invD(5) [OF inv that])
  show "ps_array (ps ?e i) (prio_of ?e x) = Some x" if "x \<in> Q" "mq ?e x \<noteq> []" for x
    using that prio_invD(6) [OF inv that(1)] free a [of "prio_of e x"] pr by (cases "prio_of e x = prio_of e q") simp_all
qed

lemma prio_inv_clear:
  assumes inv: "prio_inv Q i e" and x: "ps_array (ps e i) p = Some q" and mt: "mq e q = []"
  shows "prio_inv Q i (upd_ps i (prio_clear p) e)"
proof (rule prio_invI)
  let ?e = "upd_ps i (prio_clear p) e"
  have pr: "prio_of ?e = prio_of e" by (simp add: fun_eq_iff prio_of_def q_par_def)
  have a: "ps_array (ps ?e i) k = (if k = p then None else ps_array (ps e i) k)" for k
    by (simp add: prio_clear_def)
  show "bit (ps_bitmap (ps ?e i)) k = (ps_array (ps ?e i) k \<noteq> None)" for k
    using prio_invD(1) [OF inv, of k] by (simp add: prio_clear_def prio_unset_bit)
  show "k < 32 \<and> y \<in> Q \<and> prio_of ?e y = k" if "ps_array (ps ?e i) k = Some y" for k y
  proof -
    have "ps_array (ps e i) k = Some y" using that a [of k] by (simp split: if_splits)
    then show ?thesis unfolding pr using prio_invD(2-4) [OF inv] by blast
  qed
  show "prio_of ?e y < 32" if "y \<in> Q" for y unfolding pr by (rule prio_invD(5) [OF inv that])
  show "ps_array (ps ?e i) (prio_of ?e y) = Some y" if "y \<in> Q" "mq ?e y \<noteq> []" for y
    using that prio_invD(6) [OF inv that(1)] x mt a [of "prio_of e y"] pr by (cases "prio_of e y = p") auto
qed

lemma prio_enqueue_law:
  assumes inv: "prio_inv Q i e" and q: "q \<in> Q" and r: "prio_enqueue i q m e = (r, e')"
  shows "prio_inv Q i e' \<and>
    (r = 0 \<and> prio_held i e' = (prio_held i e)(prio_of e q := prio_held i e (prio_of e q) @ [m]) \<and> freed e' = freed e \<or>
     r \<noteq> 0 \<and> prio_held i e' = prio_held i e \<and> freed e' = freed e @ [m])"
proof -
  let ?p = "prio_of e q" and ?b = "bit (ps_bitmap (ps e i)) (prio_of e q)"
  note D = prio_invD [OF inv]
  define e1 where "e1 = (if ?b then e else upd_ps i (prio_set ?p q) e)"
  define x where "x = (if ?b then the (ps_array (ps e i) ?p) else q)"
  obtain d e2 where d: "dn_enqueue x m False e1 = (d, e2)" by fastforce
  have r': "r = (if d \<noteq> 0 then 1 else 0)" "e' = e2"
    using r d by (auto simp: prio_enqueue_def prio_of_def [symmetric] Let_def e1_def x_def split: if_splits)
  have inv1: "prio_inv Q i e1"
    using inv prio_inv_set [OF inv q] D(1) [of ?p] by (cases ?b) (simp_all add: e1_def)
  have e1: "qs e1 = qs e" "freed e1 = freed e" "prio_of e1 = prio_of e"
    by (simp_all add: e1_def prio_of_def q_par_def fun_eq_iff)
  have ax: "ps_array (ps e1 i) ?p = Some x"
    using D(1) [of ?p] by (cases ?b) (auto simp: e1_def x_def prio_set_def)
  have ar: "k \<noteq> ?p \<Longrightarrow> ps_array (ps e1 i) k = ps_array (ps e i) k" for k
    by (simp add: e1_def prio_set_def)
  have px: "prio_of e x = ?p" using prio_invD(4) [OF inv1 ax] by (simp add: e1)
  have held0: "prio_held i e1 k = prio_held i e k" for k
  proof (cases "k = ?p")
    case True
    show ?thesis
    proof (cases ?b)
      case True
      then show ?thesis by (simp add: e1_def)
    next
      case False
      then have "ps_array (ps e i) ?p = None" "x = q" using D(1) [of ?p] by (simp_all add: x_def)
      moreover from this have "mq e q = []" using D(6) [OF q] by auto
      ultimately show ?thesis using True ax by (simp add: prio_held_def e1)
    qed
  qed (simp add: prio_held_def ar e1 split: option.split)
  have hk: "prio_held i e2 k = prio_held i e1 k"
    if "k \<noteq> ?p" "ps e2 = ps e1" "\<And>y. y \<noteq> x \<Longrightarrow> mq e2 y = mq e1 y" for k
  proof (cases "ps_array (ps e1 i) k")
    case (Some y)
    then have "prio_of e y = k" using prio_invD(4) [OF inv1 Some] by (simp add: e1)
    then have "y \<noteq> x" using px that(1) by auto
    then show ?thesis using Some that(2,3) by (simp add: prio_held_def)
  qed (simp add: prio_held_def that(2))
  from dn_enqueue_step [OF d] show ?thesis
  proof
    assume a: "d = 0 \<and> queue_step x (mq e1 x @ [m]) [] e1 e2"
    note st = conjunct2 [OF a]
    have m2: "mq e2 x = mq e1 x @ [m]" "\<And>y. y \<noteq> x \<Longrightarrow> mq e2 y = mq e1 y" "freed e2 = freed e1"
      using st by (auto simp: queue_step_def)
    have "ps_array (ps e1 i) (prio_of e1 y) = Some y" if "y \<in> Q" "mq e2 y \<noteq> []" for y
    proof (cases "y = x")
      case False
      then show ?thesis using that m2(2) [of y] prio_invD(6) [OF inv1, of y] by simp
    qed (simp add: px ax e1)
    then have "prio_inv Q i e2"
      by (rule prio_inv_mq [OF inv1 queue_step_ps [OF st] queue_step_par [OF st]])
    moreover have "prio_held i e2 k = ((prio_held i e)(?p := prio_held i e ?p @ [m])) k" for k
    proof (cases "k = ?p")
      case True
      have "prio_held i e2 ?p = prio_held i e1 ?p @ [m]"
        using ax m2(1) by (simp add: prio_held_def queue_step_ps [OF st])
      then show ?thesis using True by (simp add: held0)
    next
      case False
      show ?thesis using hk [OF False queue_step_ps [OF st] m2(2)] held0 False by simp
    qed
    ultimately show ?thesis using a m2(3) e1(2) by (simp add: r' fun_eq_iff)
  next
    assume a: "d = 1 \<and> queue_step x (mq e1 x) [m] e1 e2"
    note st = conjunct2 [OF a]
    have m2: "mq e2 y = mq e1 y" "freed e2 = freed e1 @ [m]" for y
      using st by (cases "y = x"; auto simp: queue_step_def)+
    have "prio_inv Q i e2"
      by (rule prio_inv_mq [OF inv1 queue_step_ps [OF st] queue_step_par [OF st]])
        (rule prio_invD(6) [OF inv1], simp_all add: m2)
    moreover have "prio_held i e2 k = prio_held i e k" for k
      unfolding held0 [symmetric] by (simp add: prio_held_def m2 queue_step_ps [OF st] split: option.split)
    ultimately show ?thesis using a m2(2) e1(2) by (simp add: r' fun_eq_iff)
  qed
qed

lemma prio_dequeue_law:
  assumes inv: "prio_inv Q i e"
  shows "\<exists>p e'. prio_dequeue i e = Some (p, e') \<and> prio_inv Q i e' \<and> freed e' = freed e \<and>
    (case p of
       None \<Rightarrow> prio_held i e' = prio_held i e
     | Some m \<Rightarrow> \<exists>c ms. prio_held i e c = m # ms \<and> prio_held i e' = (prio_held i e)(c := ms) \<and>
         (\<forall>k<c. ps_array (ps e i) k = None))"
proof (cases "ps_bitmap (ps e i) = 0")
  case True
  with inv show ?thesis by (simp add: prio_dequeue_def)
next
  case False
  note D = prio_invD [OF inv]
  from False obtain k where k: "bit (ps_bitmap (ps e i)) k" by (auto simp: bit_eq_iff)
  then obtain y where "ps_array (ps e i) k = Some y" using D(1) by auto
  then have "k < 32" by (rule D(2))
  with k have "ffs (ps_bitmap (ps e i)) \<noteq> 0" by (auto simp: ffs_0)
  then obtain c where c: "ffs (ps_bitmap (ps e i)) = Suc c" by (cases "ffs (ps_bitmap (ps e i))") auto
  note f = ffs_Suc [OF c]
  from f obtain q where q: "ps_array (ps e i) c = Some q" using D(1) by auto
  have low: "\<forall>k<c. ps_array (ps e i) k = None" using f D(1) by auto
  obtain p e1 where d: "dn_dequeue q e = (p, e1)" by fastforce
  define e' where "e' = (if mq e1 q = [] then upd_ps i (prio_clear c) e1 else e1)"
  have eq: "prio_dequeue i e = Some (p, e')"
    using False by (simp add: prio_dequeue_def c q d e'_def)
  have pq: "prio_of e q = c" by (rule D(4) [OF q])
  have st: "p = None \<and> mq e q = [] \<and> e1 = e \<or> (\<exists>m ms. p = Some m \<and> mq e q = m # ms \<and> queue_step q ms [] e e1)"
    by (rule dn_dequeue_step [OF d])
  have e1: "ps e1 = ps e" "\<And>y. q_par e1 y 0 = q_par e y 0" "freed e1 = freed e"
      "\<And>y. y \<noteq> q \<Longrightarrow> mq e1 y = mq e y" "\<And>y. mq e1 y \<noteq> [] \<Longrightarrow> mq e y \<noteq> []"
  proof -
    have "(ps e1 = ps e \<and> (\<forall>y. q_par e1 y 0 = q_par e y 0)) \<and> freed e1 = freed e \<and>
        (\<forall>y. y \<noteq> q \<longrightarrow> mq e1 y = mq e y) \<and> (\<forall>y. mq e1 y \<noteq> [] \<longrightarrow> mq e y \<noteq> [])"
    proof (cases p)
      case None
      with st show ?thesis by auto
    next
      case (Some m)
      with st obtain ms where s: "mq e q = m # ms" "queue_step q ms [] e e1" by auto
      then have "mq e1 y = mq e y" if "y \<noteq> q" for y using that by (simp add: queue_step_def)
      moreover from this have "mq e1 y \<noteq> [] \<longrightarrow> mq e y \<noteq> []" for y using s(1) by (cases "y = q") auto
      moreover have "freed e1 = freed e" using s(2) by (simp add: queue_step_def)
      ultimately show ?thesis using queue_step_ps [OF s(2)] queue_step_par [OF s(2)] by blast
    qed
    then show "ps e1 = ps e" "\<And>y. q_par e1 y 0 = q_par e y 0" "freed e1 = freed e"
      "\<And>y. y \<noteq> q \<Longrightarrow> mq e1 y = mq e y" "\<And>y. mq e1 y \<noteq> [] \<Longrightarrow> mq e y \<noteq> []" by blast+
  qed
  have inv1: "prio_inv Q i e1" using prio_inv_mq [OF inv e1(1,2)] D(6) e1(5) by blast
  have q1: "ps_array (ps e1 i) c = Some q" using q e1(1) by simp
  have inv': "prio_inv Q i e'" using inv1 prio_inv_clear [OF inv1 q1] by (simp add: e'_def)
  have fr: "freed e' = freed e" using e1(3) by (simp add: e'_def)
  have h: "prio_held i e' k = (if k = c then mq e1 q else prio_held i e k)" for k
  proof (cases "k = c")
    case True
    then show ?thesis by (simp add: prio_held_def e'_def q1 prio_clear_def)
  next
    case False
    have "y \<noteq> q" if "ps_array (ps e i) k = Some y" for y using D(4) [OF that] pq False by auto
    then show ?thesis using False
      by (auto simp: prio_held_def e'_def e1(1,4) prio_clear_def split: option.split)
  qed
  show ?thesis
  proof (cases p)
    case None
    with st have "mq e q = []" "e1 = e" by auto
    then have "prio_held i e' = prio_held i e" using h q by (auto simp: prio_held_def fun_eq_iff)
    with eq inv' fr None show ?thesis by auto
  next
    case (Some m)
    with st obtain ms where "mq e q = m # ms" "mq e1 q = ms" by (auto simp: queue_step_def)
    then have "prio_held i e c = m # ms" "prio_held i e' = (prio_held i e)(c := ms)"
      using h q by (auto simp: prio_held_def fun_eq_iff)
    with eq inv' fr Some low show ?thesis by (intro exI [of _ p] exI [of _ e']) auto
  qed
qed

section \<open>The contract\<close>

definition prio_deq :: "siid \<Rightarrow> 'x prio_env_scheme \<Rightarrow> mbuf option \<times> 'x prio_env_scheme" where
  "prio_deq i e = the (prio_dequeue i e)"

text \<open>The scheduler interface without work conservation (see \<open>prio_drop_blocks\<close>).\<close>

interpretation prio: scheduler "prio_enqueue i" "prio_deq i" "prio_inv Q i" Q prio_of "prio_held i" freed "\<lambda>_ _. True"
  for Q :: "qid set" and i :: siid
proof
  fix e e' :: "'x prio_env_scheme" and q m r p
  assume inv: "prio_inv Q i e"
  show "prio_inv Q i e' \<and>
    (r = 0 \<and> prio_held i e' = (prio_held i e)(prio_of e q := prio_held i e (prio_of e q) @ [m]) \<and> freed e' = freed e \<or>
     r \<noteq> 0 \<and> prio_held i e' = prio_held i e \<and> freed e' = freed e @ [m])"
    if "q \<in> Q" "prio_enqueue i q m e = (r, e')"
    by (rule prio_enqueue_law [OF inv that])
  show "prio_inv Q i e' \<and> freed e' = freed e \<and>
      (case p of None \<Rightarrow> prio_held i e' = prio_held i e
       | Some m \<Rightarrow> \<exists>c ms. prio_held i e c = m # ms \<and> prio_held i e' = (prio_held i e)(c := ms))"
    if d: "prio_deq i e = (p, e')"
  proof -
    obtain p1 e1 where r: "prio_dequeue i e = Some (p1, e1)" "prio_inv Q i e1" "freed e1 = freed e"
      "case p1 of None \<Rightarrow> prio_held i e1 = prio_held i e
       | Some m \<Rightarrow> \<exists>c ms. prio_held i e c = m # ms \<and> prio_held i e1 = (prio_held i e)(c := ms) \<and>
           (\<forall>k<c. ps_array (ps e i) k = None)"
      using prio_dequeue_law [OF inv] by blast
    have e: "p1 = p" "e1 = e'" using r(1) d by (simp_all add: prio_deq_def)
    show ?thesis using r(2-4) unfolding e by (cases p) auto
  qed
qed

section \<open>Properties\<close>

definition wprio :: "u64 \<Rightarrow> prio_env" where
  "wprio bm = \<lparr>qs = (\<lambda>q. queue_zero\<lparr>q_fs := Some q, q_si := Some 0, q_mq := (if q = 3 then [wpkt 1 100] else [])\<rparr>),
     fsks = (\<lambda>f. fsk_zero\<lparr>fsk_fs := fs_zero\<lparr>qsize := 0, fs_par := (\<lambda>_. int f)\<rparr>\<rparr>),
     sis = (\<lambda>_. si_zero), schks = (\<lambda>_. schk_zero), idle_queue = 0, idle_si = 0, curr_time = 0,
     io_pkt_drop = 0, rand = (\<lambda>_. 0), freed = [],
     ps = (\<lambda>_. \<lparr>ps_bitmap = bm, ps_array = (\<lambda>p. if bit bm p then Some p else None)\<rparr>)\<rparr>"

lemma wprio_inv: "prio_inv {1, 3} 0 (wprio 8)"
proof -
  have "bit (8::u64) p \<longleftrightarrow> p = 3" for p
    using bit_push_bit_iff [of 3 "1::u64" p] by (auto simp: bit_1_iff push_bit_eq_mult)
  then show ?thesis
    by (auto simp: prio_inv_def wprio_def prio_of_def q_par_def dn_zero_defs)
qed

text \<open>
  Two ways in which the code departs from what it means to do. A packet dropped on an idle
  queue leaves the queue's bit set, so the next request finds an empty queue and returns nothing
  although another queue is backlogged; and with priorities of 32 and above \<open>ffs\<close> sees an empty
  bitmap while the bitmap is not zero, and the array is accessed out of bounds.
\<close>

lemma prio_drop_blocks:
  "\<exists>e e'. prio_enqueue 0 1 (wpkt 2 100) (wprio 8) = (1, e) \<and> prio_dequeue 0 e = Some (None, e') \<and>
     mq e' 3 = [wpkt 1 100]"
proof -
  let ?e1 = "upd_ps 0 (prio_set 1 1) (wprio 8)"
  have b: "\<not> bit (8::u64) 1" "bit (8::u64) 3" by (simp_all add: bit_numeral_rec)
  obtain r e where d: "dn_enqueue 1 (wpkt 2 100) False ?e1 = (r, e)" by fastforce
  have "fst (dn_enqueue 1 (wpkt 2 100) False ?e1) = 1"
    by (simp add: dn_enqueue_def must_drop_def Let_def wprio_def dn_zero_defs ni_arrive_def)
  with d have r: "r = 1" by simp
  with dn_enqueue_step [OF d] have st: "queue_step 1 (mq ?e1 1) [wpkt 2 100] ?e1 e" by auto
  have enq: "prio_enqueue 0 1 (wpkt 2 100) (wprio 8) = (1, e)"
    using d r b by (simp add: prio_enqueue_def Let_def q_par_def) (simp add: wprio_def dn_zero_defs)
  have q: "mq e 1 = []" "mq e 3 = [wpkt 1 100]"
    using st by (auto simp: queue_step_def wprio_def dn_zero_defs)
  have "ps e = ps ?e1" by (rule queue_step_ps [OF st])
  then have p: "ps_bitmap (ps e 0) = 10" "ps_array (ps e 0) 1 = Some 1"
    by (simp_all add: prio_set_def wprio_def set_bit_eq)
  have "ffs 10 = 2" by (simp add: ffs_def upt_rec bit_numeral_rec)
  with p q have "prio_dequeue 0 e = Some (None, upd_ps 0 (prio_clear 1) e)"
    by (simp add: prio_dequeue_def dn_dequeue_def)
  with enq q show ?thesis by auto
qed

lemma prio_high_stuck: "prio_dequeue 0 (wprio (2 ^ 40)) = None"
proof -
  have "\<not> bit (2 ^ 40 :: u64) k" if "k < 32" for k unfolding bit_exp_iff using that by simp
  then have "ffs (2 ^ 40) = 0" unfolding ffs_0 by blast
  then show ?thesis by (simp add: prio_dequeue_def wprio_def)
qed

text \<open>
  A queue with packets that is attached while the slot of its priority holds an empty queue (which a first packet dropped
  leaves behind) is appended through the tail pointer of that empty queue.
\<close>

lemma prio_new_queue_empty_slot:
  assumes "bit (ps_bitmap (ps e i)) (prio_of e q)" "ps_array (ps e i) (prio_of e q) = Some oldq" "oldq \<noteq> q"
    and "mq e oldq = []" "mq e q \<noteq> []" "q_si (qs e q) = Some i"
  shows "prio_new_queue q e = None"
  using assms by (simp add: prio_new_queue_def prio_merge_def prio_of_def Let_def q_par_def upd_q_def)

text \<open>C32: The priority scheduler is strict: with priorities below 32, a request never faults, and the
  packet it returns is the oldest of its priority, with no queue registered at any higher priority.\<close>

theorem prio_strict:
  assumes "prio_inv Q i e"
  shows "\<exists>p e'. prio_dequeue i e = Some (p, e') \<and> prio_inv Q i e' \<and> freed e' = freed e \<and>
    (case p of
       None \<Rightarrow> prio_held i e' = prio_held i e
     | Some m \<Rightarrow> \<exists>c ms. prio_held i e c = m # ms \<and> prio_held i e' = (prio_held i e)(c := ms) \<and>
         (\<forall>q\<in>Q. prio_of e q < c \<longrightarrow> mq e q = []))"
proof -
  obtain p e' where r: "prio_dequeue i e = Some (p, e')" "prio_inv Q i e'" "freed e' = freed e"
    "case p of None \<Rightarrow> prio_held i e' = prio_held i e
     | Some m \<Rightarrow> \<exists>c ms. prio_held i e c = m # ms \<and> prio_held i e' = (prio_held i e)(c := ms) \<and>
         (\<forall>k<c. ps_array (ps e i) k = None)"
    using prio_dequeue_law [OF assms] by blast
  have "mq e q = []" if "q \<in> Q" "ps_array (ps e i) (prio_of e q) = None" for q
    using prio_invD(6) [OF assms that(1)] that(2) by auto
  then show ?thesis using r
  proof (cases p)
    case (Some m)
    with r(4) obtain c ms where c: "prio_held i e c = m # ms" "prio_held i e' = (prio_held i e)(c := ms)"
      "\<forall>k<c. ps_array (ps e i) k = None" by auto
    then have "\<forall>q\<in>Q. prio_of e q < c \<longrightarrow> mq e q = []" using \<open>\<And>q. _ \<Longrightarrow> _ \<Longrightarrow> mq e q = []\<close> by blast
    with c(1,2) r(1-3) Some show ?thesis by auto
  qed auto
qed

lemma prio_strict_witness: "\<exists>p e'. prio_dequeue 0 (wprio 8) = Some (p, e') \<and> prio_inv {1, 3} 0 e'"
  using prio_strict [OF wprio_inv] by blast

end
