(* ===== verification/SchedWf2q.thy ===== *)
theory SchedWf2q
  imports Sched DnHeap "HOL-Library.Monad_Syntax"
begin

text \<open>
  The WF2Q+ scheduler of \<open>sys/netinet/ipfw/dn_sched_wf2q.c\<close>, on the binary heaps of theory
  \<open>DnHeap\<close>. An instance has three heaps that share the index field \<open>heap_pos\<close> of the queues:
  the eligible queues by finish time, the others with packets by start time, and the idle ones.
  \<open>None\<close> is a call that does not return: a \<open>panic\<close> of the heap, a division by zero or an access
  through NULL.
\<close>

section \<open>Data\<close>

record wf2qp_si =
  sch_heap :: "qid dn_heap"
  ne_heap :: "qid dn_heap"
  idle_heap :: "qid dn_heap"
  wf_V :: u64
  inv_wsum :: u32
  wsum :: u32

record wf2qp_queue =
  wq_S :: u64
  wq_F :: u64
  inv_w :: u32
  heap_pos :: int

text \<open>\<open>mem\<close>: whether the next allocations are going to succeed, one for each insertion.\<close>

record wf_env = dn_env +
  wsi :: "siid \<Rightarrow> wf2qp_si"
  wqq :: "qid \<Rightarrow> wf2qp_queue"
  mem :: "nat \<Rightarrow> bool"

datatype wheap = SCH | NEH | IDLE

fun wf_heap :: "wheap \<Rightarrow> wf2qp_si \<Rightarrow> qid dn_heap" where
  "wf_heap SCH s = sch_heap s"
| "wf_heap NEH s = ne_heap s"
| "wf_heap IDLE s = idle_heap s"

fun set_heap :: "wheap \<Rightarrow> qid dn_heap \<Rightarrow> wf2qp_si \<Rightarrow> wf2qp_si" where
  "set_heap SCH h s = s\<lparr>sch_heap := h\<rparr>"
| "set_heap NEH h s = s\<lparr>ne_heap := h\<rparr>"
| "set_heap IDLE h s = s\<lparr>idle_heap := h\<rparr>"

definition MAX64 :: "u64 \<Rightarrow> u64 \<Rightarrow> u64" where
  "MAX64 x y = (if 0 < sint (y - x) then y else x)"

definition ONE_FP :: nat where "ONE_FP = 2 ^ 28"

definition upd_wsi :: "siid \<Rightarrow> (wf2qp_si \<Rightarrow> wf2qp_si) \<Rightarrow> 'x wf_env_scheme \<Rightarrow> 'x wf_env_scheme" where
  "upd_wsi i f e = e\<lparr>wsi := (wsi e)(i := f (wsi e i))\<rparr>"

definition upd_wq :: "qid \<Rightarrow> (wf2qp_queue \<Rightarrow> wf2qp_queue) \<Rightarrow> 'x wf_env_scheme \<Rightarrow> 'x wf_env_scheme" where
  "upd_wq q f e = e\<lparr>wqq := (wqq e)(q := f (wqq e q))\<rparr>"

section \<open>Heap calls\<close>

definition hst_of :: "siid \<Rightarrow> wheap \<Rightarrow> 'x wf_env_scheme \<Rightarrow> qid hst" where
  "hst_of i w e = (wf_heap w (wsi e i), \<lambda>q. heap_pos (wqq e q))"

definition put_heap :: "siid \<Rightarrow> wheap \<Rightarrow> qid hst \<Rightarrow> 'x wf_env_scheme \<Rightarrow> 'x wf_env_scheme" where
  "put_heap i w st e = (upd_wsi i (set_heap w (fst st)) e)\<lparr>wqq := \<lambda>q. (wqq e q)\<lparr>heap_pos := snd st q\<rparr>\<rparr>"

text \<open>The callers ignore a failed insertion: the queue is then in no heap.\<close>

definition wf_insert :: "siid \<Rightarrow> wheap \<Rightarrow> u64 \<Rightarrow> qid \<Rightarrow> 'x wf_env_scheme \<Rightarrow> 'x wf_env_scheme" where
  "wf_insert i w k q e =
     (let e1 = e\<lparr>mem := \<lambda>n. mem e (Suc n)\<rparr>
      in case heap_insert (mem e 0) (hst_of i w e) k (Some q) of None \<Rightarrow> e1 | Some st \<Rightarrow> put_heap i w st e1)"

definition wf_extract :: "siid \<Rightarrow> wheap \<Rightarrow> qid option \<Rightarrow> 'x wf_env_scheme \<Rightarrow> 'x wf_env_scheme option" where
  "wf_extract i w ob e = map_option (\<lambda>st. put_heap i w st e) (heap_extract (hst_of i w e) ob)"

abbreviation wf_top :: "siid \<Rightarrow> wheap \<Rightarrow> 'x wf_env_scheme \<Rightarrow> qid" where
  "wf_top i w e \<equiv> he_object (HEAP_TOP (wf_heap w (wsi e i)))"

abbreviation wf_topkey :: "siid \<Rightarrow> wheap \<Rightarrow> 'x wf_env_scheme \<Rightarrow> u64" where
  "wf_topkey i w e \<equiv> he_key (HEAP_TOP (wf_heap w (wsi e i)))"

abbreviation wf_elements :: "siid \<Rightarrow> wheap \<Rightarrow> 'x wf_env_scheme \<Rightarrow> nat" where
  "wf_elements i w e \<equiv> h_elements (wf_heap w (wsi e i))"

text \<open>Adjusting the sum of the weights when a queue leaves.\<close>

definition drop_weight :: "siid \<Rightarrow> qid \<Rightarrow> 'x wf_env_scheme \<Rightarrow> 'x wf_env_scheme" where
  "drop_weight i q e =
     (let ws = wsum (wsi e i) - word_of_int (q_par e q 0)
      in upd_wsi i (\<lambda>s. s\<lparr>wsum := ws, inv_wsum := (if 0 < ws then of_nat ONE_FP div ws else inv_wsum s)\<rparr>) e)"

section \<open>Scheduler operations\<close>

function idle_check :: "siid \<Rightarrow> int \<Rightarrow> bool \<Rightarrow> 'x wf_env_scheme \<Rightarrow> 'x wf_env_scheme option" where
  "idle_check i n force e =
     (if 0 < n \<and> 0 < wf_elements i IDLE e \<and> (force \<or> DN_KEY_LT (wf_topkey i IDLE e) (wf_V (wsi e i))) then
        let q = wf_top i IDLE e in
        case wf_extract i IDLE None e of
          None \<Rightarrow> None
        | Some e \<Rightarrow>
            idle_check i (n - 1) force
              (drop_weight i q (upd_wq q (\<lambda>r. r\<lparr>wq_S := wq_F r + 1\<rparr>) e))
      else Some e)"
  by pat_completeness auto
termination by (relation "measure (\<lambda>(i, n, force, e). nat n)") auto

declare idle_check.simps [simp del]

text \<open>The part of \<open>wf2qp_enqueue\<close> for a queue that was idle.\<close>

definition wf_start_time :: "siid \<Rightarrow> qid \<Rightarrow> 'x wf_env_scheme \<Rightarrow> 'x wf_env_scheme option" where
  "wf_start_time i q e =
     (if DN_KEY_LT (wq_F (wqq e q)) (wq_S (wqq e q)) then
        let e = upd_wq q (\<lambda>r. r\<lparr>wq_S := wf_V (wsi e i)\<rparr>) e;
            ws = wsum (wsi e i) + word_of_int (q_par e q 0)
        in if ws = 0 then None
           else Some (upd_wsi i (\<lambda>s. s\<lparr>wsum := ws, inv_wsum := of_nat ONE_FP div ws\<rparr>) e)
      else do {
        e \<leftarrow> wf_extract i IDLE (Some q) e;
        Some (upd_wq q (\<lambda>r. r\<lparr>wq_S := MAX64 (wq_F r) (wf_V (wsi e i))\<rparr>) e)
      })"

definition wf_place :: "siid \<Rightarrow> qid \<Rightarrow> mbuf \<Rightarrow> 'x wf_env_scheme \<Rightarrow> 'x wf_env_scheme" where
  "wf_place i q m e =
     (let len = (word_of_int (m_len m) :: u64);
          e = upd_wq q (\<lambda>r. r\<lparr>wq_F := wq_S r + len * ucast (inv_w r)\<rparr>) e;
          e = (if wf_elements i NEH e = 0 \<and> wf_elements i SCH e = 0
               then upd_wsi i (\<lambda>s. s\<lparr>wf_V := MAX64 (wq_S (wqq e q)) (wf_V s)\<rparr>) e else e)
      in if DN_KEY_LT (wf_V (wsi e i)) (wq_S (wqq e q))
         then wf_insert i NEH (wq_S (wqq e q)) q e
         else wf_insert i SCH (wq_F (wqq e q)) q e)"

definition wf_start :: "siid \<Rightarrow> qid \<Rightarrow> mbuf \<Rightarrow> 'x wf_env_scheme \<Rightarrow> 'x wf_env_scheme option" where
  "wf_start i q m e = do { e \<leftarrow> wf_start_time i q e; Some (wf_place i q m e) }"

definition wf2qp_enqueue ::
  "siid \<Rightarrow> qid \<Rightarrow> mbuf \<Rightarrow> 'x wf_env_scheme \<Rightarrow> (nat \<times> 'x wf_env_scheme) option" where
  "wf2qp_enqueue i q m e =
     (if \<not> is_head m (mq e q) then
        case dn_enqueue q m False e of
          (r, e) \<Rightarrow>
            if r \<noteq> 0 then Some (1, e)
            else if \<not> is_head m (mq e q) then Some (0, e)
            else do { e \<leftarrow> wf_start i q m e; Some (0, e) }
      else do { e \<leftarrow> wf_start i q m e; Some (0, e) })"

text \<open>The first half of the loop of \<open>wf2qp_dequeue\<close>: bump V and move what became eligible.\<close>

lemma bubble_up_count: "bubble_up (h, pos) s = (h', pos') \<Longrightarrow> h_elements h' = h_elements h"
  using bubble_up_elements [of "h_elements h" h pos s]
  by (metis (no_types, lifting) case_prod_conv dn_heap.select_convs(2) dn_heap.surjective
      dn_heap.update_convs(2) prod.inject)

lemma move_hole_count: "move_hole mx (h, pos) f = ((h', pos'), f') \<Longrightarrow> h_elements h' = h_elements h"
proof (induction mx "(h, pos)" f arbitrary: h pos rule: move_hole.induct)
  case (1 mx h pos f)
  from "1.prems" show ?case
    by (subst (asm) move_hole.simps) (auto simp: Let_def split: if_splits dest: "1.hyps" [OF _ refl refl])
qed

lemma heap_extract_count:
  assumes "heap_extract (h, pos) None = Some (h', pos')" "0 < h_elements h"
  shows "h_elements h' < h_elements h"
proof -
  obtain h1 pos1 f where mv: "move_hole (h_elements h - 1) (h, RESET_OFFSET h 0 pos) 0 = ((h1, pos1), f)"
    by (metis surj_pair)
  have n: "h_elements h1 = h_elements h" by (rule move_hole_count [OF mv])
  show ?thesis
    using assms mv n by (auto simp: heap_extract_def heap_insert_def Let_def split: if_splits dest!: bubble_up_count)
qed

function wf_move_eligible :: "siid \<Rightarrow> 'x wf_env_scheme \<Rightarrow> 'x wf_env_scheme option" where
  "wf_move_eligible i e =
     (if 0 < wf_elements i NEH e \<and> DN_KEY_LEQ (wf_topkey i NEH e) (wf_V (wsi e i)) then
        let q = wf_top i NEH e in
        case wf_extract i NEH None e of
          None \<Rightarrow> None
        | Some e \<Rightarrow> wf_move_eligible i (wf_insert i SCH (wq_F (wqq e q)) q e)
      else Some e)"
  by pat_completeness auto
termination
proof (relation "measure (\<lambda>(i, e). wf_elements i NEH e)", simp, goal_cases)
  case (1 i e q e1)
  then obtain st where st: "heap_extract (hst_of i NEH e) None = Some st" "e1 = put_heap i NEH st e"
    by (auto simp: wf_extract_def)
  have "h_elements (fst st) < wf_elements i NEH e"
    using st(1) 1(1) heap_extract_count by (cases st) (auto simp: hst_of_def)
  moreover have "ne_heap (wsi (wf_insert i SCH k q e1) i) = ne_heap (wsi e1 i)" for k
    by (simp add: wf_insert_def put_heap_def upd_wsi_def Let_def split: option.split)
  moreover have "ne_heap (wsi e1 i) = fst st" by (simp add: st(2) put_heap_def upd_wsi_def)
  ultimately show ?case by simp
qed

declare wf_move_eligible.simps [simp del]

definition wf_advance :: "siid \<Rightarrow> 'x wf_env_scheme \<Rightarrow> 'x wf_env_scheme option" where
  "wf_advance i e =
     wf_move_eligible i
       (if wf_elements i SCH e = 0 \<and> 0 < wf_elements i NEH e
        then upd_wsi i (\<lambda>s. s\<lparr>wf_V := MAX64 (wf_V s) (wf_topkey i NEH e)\<rparr>) e else e)"

text \<open>The second half: serve the top queue and put it back where it belongs.\<close>

definition wf_requeue :: "siid \<Rightarrow> qid \<Rightarrow> 'x wf_env_scheme \<Rightarrow> 'x wf_env_scheme" where
  "wf_requeue i q e =
     (let e = upd_wq q (\<lambda>r. r\<lparr>wq_S := wq_F r\<rparr>) e
      in case mq e q of
           [] \<Rightarrow> wf_insert i IDLE (wq_F (wqq e q)) q e
         | m # _ \<Rightarrow>
             let e = upd_wq q (\<lambda>r. r\<lparr>wq_F := wq_F r + (word_of_int (m_len m) :: u64) * ucast (inv_w r)\<rparr>) e
             in if DN_KEY_LEQ (wq_S (wqq e q)) (wf_V (wsi e i))
                then wf_insert i SCH (wq_F (wqq e q)) q e
                else wf_insert i NEH (wq_S (wqq e q)) q e)"

definition wf_serve :: "siid \<Rightarrow> 'x wf_env_scheme \<Rightarrow> (mbuf \<times> 'x wf_env_scheme) option" where
  "wf_serve i e =
     (let q = wf_top i SCH e in
      case dn_dequeue q e of
        (None, _) \<Rightarrow> None
      | (Some m, e) \<Rightarrow> do {
          e \<leftarrow> wf_extract i SCH None e;
          Some (m, wf_requeue i q
            (upd_wsi i (\<lambda>s. s\<lparr>wf_V := wf_V s + (word_of_int (m_len m) :: u64) * ucast (inv_wsum s)\<rparr>) e))
        })"

definition wf2qp_dequeue :: "siid \<Rightarrow> 'x wf_env_scheme \<Rightarrow> (mbuf option \<times> 'x wf_env_scheme) option" where
  "wf2qp_dequeue i e =
     (if wf_elements i SCH e = 0 \<and> wf_elements i NEH e = 0 then do {
        e \<leftarrow> idle_check i 0x7fffffff True e;
        Some (None, upd_wsi i (\<lambda>s. s\<lparr>wf_V := 0, wsum := 0\<rparr>) e)
      } else do {
        e \<leftarrow> idle_check i 1 False e;
        e \<leftarrow> wf_advance i e;
        (m, e) \<leftarrow> wf_serve i e;
        e \<leftarrow> wf_advance i e;
        Some (Some m, e)
      })"

text \<open>\<open>ofs\<close> is \<open>offsetof(struct wf2qp_queue, heap_pos)\<close>; 12 is \<open>ENOMEM\<close>.\<close>

definition wf_heap_init :: "siid \<Rightarrow> wheap \<Rightarrow> int \<Rightarrow> 'x wf_env_scheme \<Rightarrow> bool \<times> 'x wf_env_scheme" where
  "wf_heap_init i w ofs e =
     (let e1 = e\<lparr>mem := \<lambda>n. mem e (Suc n)\<rparr>
      in case heap_init (mem e 0) (wf_heap w (wsi e i)) 16 ofs of
           None \<Rightarrow> (False, e1)
         | Some h \<Rightarrow> (True, upd_wsi i (set_heap w h) e1))"

definition wf_heap_free :: "siid \<Rightarrow> wheap \<Rightarrow> 'x wf_env_scheme \<Rightarrow> 'x wf_env_scheme" where
  "wf_heap_free i w e = upd_wsi i (\<lambda>s. set_heap w (heap_free (wf_heap w s)) s) e"

definition wf2qp_new_sched :: "int \<Rightarrow> siid \<Rightarrow> 'x wf_env_scheme \<Rightarrow> nat \<times> 'x wf_env_scheme" where
  "wf2qp_new_sched ofs i e =
     (let fail = (\<lambda>e. (12, wf_heap_free i IDLE (wf_heap_free i SCH (wf_heap_free i NEH e))));
          (a, e) = wf_heap_init i IDLE ofs e
      in if \<not> a then fail e
         else
           let (b, e) = wf_heap_init i SCH ofs e
           in if \<not> b then fail e
              else
                let (c, e) = wf_heap_init i NEH ofs e
                in if \<not> c then fail e else (0, e))"

definition wf2qp_free_sched :: "siid \<Rightarrow> 'x wf_env_scheme \<Rightarrow> nat \<times> 'x wf_env_scheme" where
  "wf2qp_free_sched i e = (0, wf_heap_free i IDLE (wf_heap_free i NEH (wf_heap_free i SCH e)))"

definition wf2qp_new_fsk :: "fsid \<Rightarrow> 'x wf_env_scheme \<Rightarrow> nat \<times> 'x wf_env_scheme" where
  "wf2qp_new_fsk f e = (0, bound_par f 0 1 1 100 e)"

definition wf2qp_new_queue :: "qid \<Rightarrow> 'x wf_env_scheme \<Rightarrow> (nat \<times> 'x wf_env_scheme) option" where
  "wf2qp_new_queue q e =
     (let e = upd_q q (\<lambda>r. r\<lparr>q_ni := (q_ni r)\<lparr>fl_oid := (fl_oid (q_ni r))\<lparr>id_subtype := ucast DN_SCHED_WF2QP\<rparr>\<rparr>\<rparr>) e;
          w = (word_of_int (q_par e q 0) :: u64)
      in if w = 0 then None
         else
           let e = upd_wq q (\<lambda>r. r\<lparr>wq_F := 0, wq_S := 1, inv_w := ucast (of_nat ONE_FP div w)\<rparr>) e
           in case mq e q of
                [] \<Rightarrow> Some (0, e)
              | m # _ \<Rightarrow> do { (r, e) \<leftarrow> wf2qp_enqueue (the (q_si (qs e q))) q m e; Some (0, e) })"

definition wf2qp_free_queue :: "qid \<Rightarrow> bool \<Rightarrow> 'x wf_env_scheme \<Rightarrow> (int \<times> 'x wf_env_scheme) option" where
  "wf2qp_free_queue q safe e =
     (let i = the (q_si (qs e q)) in
      if wq_F (wqq e q) + 1 \<le> wq_S (wqq e q) then Some (0, e)
      else if safe then Some (1, e)
      else do {
        let e = drop_weight i q e;
        e \<leftarrow> wf_extract i
          (if mq e q = [] then IDLE
           else if DN_KEY_LT (wf_V (wsi e i)) (wq_S (wqq e q)) then NEH else SCH) (Some q) e;
        Some (0, e)
      })"

definition wf2qp_desc :: "int \<Rightarrow> ('x wf_env_scheme) dn_alg" where
  "wf2qp_desc ofs =
    \<lparr>al_type = DN_SCHED_WF2QP, al_name = ''WF2Q+'', al_flags = DN_MULTIQUEUE, al_q_datalen = 24,
     al_enqueue = (\<lambda>i q. wf2qp_enqueue i (the q)), al_dequeue = wf2qp_dequeue,
     al_config = None, al_destroy = None, al_new_sched = Some (wf2qp_new_sched ofs),
     al_free_sched = Some wf2qp_free_sched, al_new_fsk = Some wf2qp_new_fsk, al_free_fsk = None,
     al_new_queue = Some wf2qp_new_queue, al_free_queue = Some wf2qp_free_queue\<rparr>"

section \<open>The heaps of an instance\<close>

text \<open>
  The three heaps keep their structure, no queue is in two of them, and so the shared index
  field of a queue always means the position in the heap the queue is in.
\<close>

definition hobj :: "siid \<Rightarrow> wheap \<Rightarrow> 'x wf_env_scheme \<Rightarrow> qid set" where
  "hobj i w e = heap_objects (wf_heap w (wsi e i))"

definition heaps_ok :: "siid \<Rightarrow> 'x wf_env_scheme \<Rightarrow> bool" where
  "heaps_ok i e \<longleftrightarrow> (\<forall>w. heap_shape (hst_of i w e) \<and> 0 < h_ofs (wf_heap w (wsi e i))) \<and>
     (\<forall>v w. v \<noteq> w \<longrightarrow> hobj i v e \<inter> hobj i w e = {})"

text \<open>Neither the outcomes of the allocations nor the sizes of the arrays changed.\<close>

definition mem_same :: "siid \<Rightarrow> 'x wf_env_scheme \<Rightarrow> 'x wf_env_scheme \<Rightarrow> bool" where
  "mem_same i e e' \<longleftrightarrow> mem e' = mem e \<and> (\<forall>w. h_size (wf_heap w (wsi e' i)) = h_size (wf_heap w (wsi e i)))"

text \<open>Only the heaps, the index fields and the allocator changed.\<close>

definition wf_same :: "siid \<Rightarrow> 'x wf_env_scheme \<Rightarrow> 'x wf_env_scheme \<Rightarrow> bool" where
  "wf_same i e e' \<longleftrightarrow> (\<exists>s p m. e' = e\<lparr>wsi := (wsi e)(i := s), wqq := p, mem := m\<rparr> \<and>
     wf_V s = wf_V (wsi e i) \<and> inv_wsum s = inv_wsum (wsi e i) \<and> wsum s = wsum (wsi e i) \<and>
     (\<forall>q. wq_S (p q) = wq_S (wqq e q) \<and> wq_F (p q) = wq_F (wqq e q) \<and> inv_w (p q) = inv_w (wqq e q)))"

lemma wf_same_fields:
  assumes "wf_same i e e'"
  shows "qs e' = qs e" "fsks e' = fsks e" "sis e' = sis e" "schks e' = schks e" "freed e' = freed e"
    "wf_V (wsi e' i) = wf_V (wsi e i)" "inv_wsum (wsi e' i) = inv_wsum (wsi e i)" "wsum (wsi e' i) = wsum (wsi e i)"
    "wq_S (wqq e' q) = wq_S (wqq e q)" "wq_F (wqq e' q) = wq_F (wqq e q)" "inv_w (wqq e' q) = inv_w (wqq e q)"
    "q_par e' q n = q_par e q n" "curr_time e' = curr_time e"
  using assms by (auto simp: wf_same_def q_par_def)

lemma set_heap_simps [simp]:
  "wf_heap w (set_heap w h s) = h" "v \<noteq> w \<Longrightarrow> wf_heap v (set_heap w h s) = wf_heap v s"
  "wf_V (set_heap w h s) = wf_V s" "inv_wsum (set_heap w h s) = inv_wsum s" "wsum (set_heap w h s) = wsum s"
  by (cases w; simp; cases v; simp)+

lemma put_heap_same: "wf_same i e (put_heap i w st e)"
  unfolding wf_same_def put_heap_def upd_wsi_def
  by (intro exI [of _ "set_heap w (fst st) (wsi e i)"] exI [of _ "\<lambda>q. (wqq e q)\<lparr>heap_pos := snd st q\<rparr>"]
      exI [of _ "mem e"]) simp

lemma put_heap_heap: "wf_heap v (wsi (put_heap i w st e) i) = (if v = w then fst st else wf_heap v (wsi e i))"
  by (auto simp: put_heap_def upd_wsi_def)

lemma put_heap_hst:
  "hst_of i v (put_heap i w st e) = (if v = w then st else (wf_heap v (wsi e i), snd st))"
  by (cases st) (auto simp: hst_of_def put_heap_heap, simp_all add: put_heap_def upd_wsi_def)

lemma put_heap_ok:
  assumes ok: "heaps_ok i e" and st: "heap_shape st" "0 < h_ofs (fst st)"
    and dj: "\<And>v. v \<noteq> w \<Longrightarrow> heap_objects (fst st) \<inter> hobj i v e = {}"
    and ps: "\<And>v x. v \<noteq> w \<Longrightarrow> x \<in> hobj i v e \<Longrightarrow> snd st x = heap_pos (wqq e x)"
  shows "heaps_ok i (put_heap i w st e)"
    "hobj i v (put_heap i w st e) = (if v = w then heap_objects (fst st) else hobj i v e)"
proof -
  show h: "hobj i v (put_heap i w st e) = (if v = w then heap_objects (fst st) else hobj i v e)" for v
    by (simp add: hobj_def put_heap_heap)
  have sh: "heap_shape (wf_heap v (wsi e i), snd st)" if v: "v \<noteq> w" for v
  proof -
    have o: "heap_shape (wf_heap v (wsi e i), \<lambda>q. heap_pos (wqq e q))"
      using ok by (simp add: heaps_ok_def hst_of_def)
    have "snd st (he_object (h_p (wf_heap v (wsi e i)) j)) = heap_pos (wqq e (he_object (h_p (wf_heap v (wsi e i)) j)))"
      if "j < wf_elements i v e" for j
      by (rule ps [OF v]) (use that in \<open>simp add: hobj_def heap_objects_def\<close>)
    then show ?thesis using o by (simp add: heap_shape_def index_ok_def)
  qed
  show "heaps_ok i (put_heap i w st e)"
    unfolding heaps_ok_def
  proof (intro conjI allI impI)
    fix v
    show "heap_shape (hst_of i v (put_heap i w st e))" using st sh by (simp add: put_heap_hst)
    show "0 < h_ofs (wf_heap v (wsi (put_heap i w st e) i))"
      using ok st by (simp add: put_heap_heap heaps_ok_def)
  next
    fix v u :: wheap assume "v \<noteq> u"
    then show "hobj i v (put_heap i w st e) \<inter> hobj i u (put_heap i w st e) = {}"
      using ok dj [of v] dj [of u] unfolding h by (auto simp: heaps_ok_def)
  qed
qed

lemma wf_insert_law:
  assumes ok: "heaps_ok i e" and new: "\<And>v. q \<notin> hobj i v e"
    and mem: "mem e 0 \<or> wf_elements i w e < h_size (wf_heap w (wsi e i))"
    and room: "wf_elements i w e < 2 ^ 31 - 16"
  shows "wf_same i e (wf_insert i w k q e)" "heaps_ok i (wf_insert i w k q e)"
    "hobj i v (wf_insert i w k q e) = (if v = w then insert q (hobj i w e) else hobj i v e)"
    "mem (wf_insert i w k q e) n = mem e (Suc n)"
    "heap_entries (wf_heap v (wsi (wf_insert i w k q e) i)) =
      (if v = w then add_mset \<lparr>he_key = k, he_object = q\<rparr> (heap_entries (wf_heap w (wsi e i)))
       else heap_entries (wf_heap v (wsi e i)))"
    "wf_elements i w e < h_size (wf_heap w (wsi e i)) \<Longrightarrow>
      h_size (wf_heap v (wsi (wf_insert i w k q e) i)) = h_size (wf_heap v (wsi e i))"
proof -
  define e1 where "e1 = e\<lparr>mem := \<lambda>n. mem e (Suc n)\<rparr>"
  define h where "h = wf_heap w (wsi e i)"
  define pos where "pos q = heap_pos (wqq e q)" for q
  have hst: "hst_of i w e = (h, pos)" by (simp add: hst_of_def h_def pos_def fun_eq_iff)
  have "heap_shape (hst_of i w e)" using ok by (simp add: heaps_ok_def)
  then have o: "heap_shape (h, pos)" "0 < h_ofs h" using ok by (simp_all only: hst) (simp add: heaps_ok_def h_def)
  have "\<exists>h' pos'. heap_insert (mem e 0) (h, pos) k (Some q) = Some (h', pos') \<and> (h_elements h < h_size h \<longrightarrow> h_size h' = h_size h)"
  proof (cases "h_elements h < h_size h")
    case True
    then show ?thesis using heap_insert_room by metis
  next
    case False
    then have "mem e 0" using mem by (simp add: h_def)
    then show ?thesis using False heap_insert_ok [of h pos] by (metis not_None_eq surj_pair)
  qed
  then obtain h' pos' where st: "heap_insert (mem e 0) (h, pos) k (Some q) = Some (h', pos')"
      and hs: "h_elements h < h_size h \<longrightarrow> h_size h' = h_size h" by blast
  have nq: "q \<notin> heap_objects h" using new [of w] by (simp add: hobj_def h_def)
  note sp = heap_insert_shape [OF o(1) _ _ st]
  have s: "heap_shape (h', pos')" "h_ofs h' = h_ofs h" "heap_objects h' = insert q (heap_objects h)"
    "heap_entries h' = add_mset \<lparr>he_key = k, he_object = q\<rparr> (heap_entries h)"
    "\<And>x. x \<noteq> q \<Longrightarrow> x \<notin> heap_objects h \<Longrightarrow> pos' x = pos x"
    using sp nq room by (simp_all add: h_def heap_objects_entries)
  have r: "wf_insert i w k q e = put_heap i w (h', pos') e1"
    using st by (simp add: wf_insert_def hst e1_def Let_def)
  have e1: "heaps_ok i e1" "hobj i v e1 = hobj i v e" "wqq e1 = wqq e" "wsi e1 = wsi e" for v
    using ok by (simp_all add: e1_def heaps_ok_def hst_of_def hobj_def)
  have d: "hobj i v e \<inter> heap_objects h = {}" if "v \<noteq> w" for v
    using ok that by (simp add: heaps_ok_def hobj_def h_def)
  have out: "heap_objects (fst (h', pos')) \<inter> hobj i v e1 = {}" if "v \<noteq> w" for v
    using d [OF that] new [of v] s(3) by (auto simp: e1)
  have ps: "snd (h', pos') x = heap_pos (wqq e1 x)" if "v \<noteq> w" "x \<in> hobj i v e1" for v x
  proof -
    have "x \<notin> heap_objects h" "x \<noteq> q" using d [OF that(1)] new [of v] that(2) by (auto simp: e1)
    then show ?thesis using s(5) by (simp add: e1 pos_def)
  qed
  have of': "0 < h_ofs (fst (h', pos'))" using o(2) s(2) by simp
  have pk: "heaps_ok i (put_heap i w (h', pos') e1)"
    "hobj i v (put_heap i w (h', pos') e1) = (if v = w then heap_objects (fst (h', pos')) else hobj i v e1)" for v
    by (rule put_heap_ok [OF e1(1) s(1) of' out ps]; assumption)+
  show "heaps_ok i (wf_insert i w k q e)" unfolding r by (rule pk)
  show "hobj i v (wf_insert i w k q e) = (if v = w then insert q (hobj i w e) else hobj i v e)"
    unfolding r pk(2) by (simp add: s e1 hobj_def h_def)
  show "mem (wf_insert i w k q e) n = mem e (Suc n)"
    unfolding r by (simp add: put_heap_def upd_wsi_def e1_def)
  show "wf_same i e (wf_insert i w k q e)"
    unfolding r wf_same_def put_heap_def upd_wsi_def e1_def
    by (intro exI [of _ "set_heap w h' (wsi e i)"] exI [of _ "\<lambda>q. (wqq e q)\<lparr>heap_pos := pos' q\<rparr>"]
      exI [of _ "\<lambda>n. mem e (Suc n)"]) simp
  show "heap_entries (wf_heap v (wsi (wf_insert i w k q e) i)) =
      (if v = w then add_mset \<lparr>he_key = k, he_object = q\<rparr> (heap_entries (wf_heap w (wsi e i)))
       else heap_entries (wf_heap v (wsi e i)))"
    unfolding r by (simp add: put_heap_heap s(4) h_def e1)
  show "h_size (wf_heap v (wsi (wf_insert i w k q e) i)) = h_size (wf_heap v (wsi e i))"
    if "wf_elements i w e < h_size (wf_heap w (wsi e i))"
    unfolding r using hs that by (simp add: put_heap_heap h_def e1)
qed

lemma wf_extract_law:
  assumes ok: "heaps_ok i e" and st: "start < wf_elements i w e"
    and ex: "heap_extract (hst_of i w e) ob = extract_at (hst_of i w e) start"
    and q: "q = he_object (h_p (wf_heap w (wsi e i)) start)"
  shows "\<exists>e'. wf_extract i w ob e = Some e' \<and> wf_same i e e' \<and> heaps_ok i e' \<and> mem_same i e e' \<and>
    (\<forall>v. hobj i v e' = (if v = w then hobj i w e - {q} else hobj i v e)) \<and>
    (\<forall>v. heap_entries (wf_heap v (wsi e' i)) \<subseteq># heap_entries (wf_heap v (wsi e i)))"
proof -
  define h where "h = wf_heap w (wsi e i)"
  define pos where "pos q = heap_pos (wqq e q)" for q
  have hst: "hst_of i w e = (h, pos)" by (simp add: hst_of_def h_def pos_def fun_eq_iff)
  have "heap_shape (hst_of i w e)" using ok by (simp add: heaps_ok_def)
  then have o: "heap_shape (h, pos)" "0 < h_ofs h" using ok by (simp_all only: hst) (simp add: heaps_ok_def h_def)
  obtain h' pos' where s: "extract_at (h, pos) start = Some (h', pos')"
    "heap_shape (h', pos')" "heap_entries h = add_mset (h_p h start) (heap_entries h')" "h_ofs h' = h_ofs h"
    "\<And>x. x \<notin> heap_objects h \<Longrightarrow> pos' x = pos x" "h_size h' = h_size h"
    using extract_at_shape [OF o(1), of start] st by (metis h_def)
  have m: "mset (map (\<lambda>i. he_object (h_p h i)) [0..<h_elements h]) = image_mset he_object (heap_entries h)"
    by (simp add: heap_entries_def image_mset.compositionality comp_def)
  have "distinct (map (\<lambda>i. he_object (h_p h i)) [0..<h_elements h])"
    using o by (simp add: heap_shape_def objects_distinct_mset)
  then have "count (image_mset he_object (heap_entries h)) q \<le> 1"
    unfolding m [symmetric] by (simp add: distinct_count_atmost_1)
  then have "q \<notin> heap_objects h'"
    using s(3) q by (simp add: heap_objects_entries h_def flip: set_image_mset not_in_iff)
  then have ob: "heap_objects h' = heap_objects h - {q}"
    using s(3) q by (auto simp: heap_objects_entries h_def)
  have d: "hobj i v e \<inter> heap_objects h = {}" if "v \<noteq> w" for v
    using ok that by (simp add: heaps_ok_def hobj_def h_def)
  have out: "heap_objects (fst (h', pos')) \<inter> hobj i v e = {}" if "v \<noteq> w" for v
    using d [OF that] ob by auto
  have ps: "snd (h', pos') x = heap_pos (wqq e x)" if "v \<noteq> w" "x \<in> hobj i v e" for v x
    using s(5) [of x] d [OF that(1)] that(2) by (auto simp: pos_def)
  have of': "0 < h_ofs (fst (h', pos'))" using o(2) s(4) by simp
  have pk: "heaps_ok i (put_heap i w (h', pos') e)"
    "hobj i v (put_heap i w (h', pos') e) = (if v = w then heap_objects (fst (h', pos')) else hobj i v e)" for v
    by (rule put_heap_ok [OF ok s(2) of' out ps]; assumption)+
  have "wf_extract i w ob e = Some (put_heap i w (h', pos') e)"
    using ex s(1) by (simp add: wf_extract_def hst)
  moreover have "mem_same i e (put_heap i w (h', pos') e)"
    unfolding mem_same_def using s(6) by (simp add: put_heap_heap h_def) (simp add: put_heap_def upd_wsi_def)
  moreover have "heap_entries (wf_heap v (wsi (put_heap i w (h', pos') e) i)) \<subseteq># heap_entries (wf_heap v (wsi e i))" for v
    using s(3) by (simp add: put_heap_heap h_def)
  ultimately show ?thesis
    using pk put_heap_same [of i e w "(h', pos')"] ob by (auto simp: hobj_def h_def)
qed

lemma wf_extract_top:
  assumes "heaps_ok i e" "0 < wf_elements i w e"
  shows "\<exists>e'. wf_extract i w None e = Some e' \<and> wf_same i e e' \<and> heaps_ok i e' \<and> mem_same i e e' \<and>
    (\<forall>v. hobj i v e' = (if v = w then hobj i w e - {wf_top i w e} else hobj i v e)) \<and>
    (\<forall>v. heap_entries (wf_heap v (wsi e' i)) \<subseteq># heap_entries (wf_heap v (wsi e i)))"
  by (rule wf_extract_law [OF assms]) (use assms in \<open>simp_all add: hst_of_def heap_extract_top HEAP_TOP_def\<close>)

lemma wf_extract_queue:
  assumes ok: "heaps_ok i e" and q: "q \<in> hobj i w e"
  shows "\<exists>e'. wf_extract i w (Some q) e = Some e' \<and> wf_same i e e' \<and> heaps_ok i e' \<and> mem_same i e e' \<and>
    (\<forall>v. hobj i v e' = (if v = w then hobj i w e - {q} else hobj i v e)) \<and>
    (\<forall>v. heap_entries (wf_heap v (wsi e' i)) \<subseteq># heap_entries (wf_heap v (wsi e i)))"
proof -
  obtain j where j: "j < wf_elements i w e" "q = he_object (h_p (wf_heap w (wsi e i)) j)"
    using q by (auto simp: hobj_def heap_objects_def)
  have "heap_shape (hst_of i w e)" and o: "0 < h_ofs (wf_heap w (wsi e i))" using ok by (simp_all add: heaps_ok_def)
  then have "heap_pos (wqq e q) = int j" using j by (simp add: heap_shape_def index_ok_def hst_of_def)
  then have "heap_extract (hst_of i w e) (Some q) = extract_at (hst_of i w e) j"
    using heap_extract_obj [of "wf_heap w (wsi e i)"] j o by (simp add: hst_of_def)
  from wf_extract_law [OF ok j(1) this j(2)] show ?thesis .
qed

lemma hobj_empty: "wf_elements i w e = 0 \<longleftrightarrow> hobj i w e = {}"
  by (auto simp: hobj_def heap_objects_def)

lemma top_in_heap: "0 < wf_elements i w e \<Longrightarrow> wf_top i w e \<in> hobj i w e"
  by (auto simp: hobj_def heap_objects_def HEAP_TOP_def)

lemma elements_card: "heaps_ok i e \<Longrightarrow> wf_elements i w e = card (hobj i w e)"
  by (simp add: hobj_def heap_objects_def heaps_ok_def heap_shape_def hst_of_def objects_distinct_def card_image)

section \<open>The invariant\<close>

text \<open>
  Which keys the heaps use, what is known of a queue that is not being worked on, and the sum of
  the weights. \<open>wf_core Q i X e\<close> leaves out the queues in \<open>X\<close>, for use inside the operations.
\<close>

fun key_of :: "wheap \<Rightarrow> wf2qp_queue \<Rightarrow> u64" where
  "key_of SCH r = wq_F r"
| "key_of NEH r = wq_S r"
| "key_of IDLE r = wq_F r"

definition owned :: "siid \<Rightarrow> 'x wf_env_scheme \<Rightarrow> qid set" where
  "owned i e = hobj i SCH e \<union> hobj i NEH e \<union> hobj i IDLE e"

definition wf_queue_ok :: "siid \<Rightarrow> 'x wf_env_scheme \<Rightarrow> qid \<Rightarrow> bool" where
  "wf_queue_ok i e q \<longleftrightarrow> (mq e q \<noteq> [] \<longleftrightarrow> q \<in> hobj i SCH e \<union> hobj i NEH e) \<and>
     (q \<in> owned i e \<longleftrightarrow> \<not> DN_KEY_LT (wq_F (wqq e q)) (wq_S (wqq e q)))"

definition wf_static :: "'x wf_env_scheme \<Rightarrow> qid \<Rightarrow> bool" where
  "wf_static e q \<longleftrightarrow> pkts_ok (mq e q) \<and> 1 \<le> q_par e q 0 \<and> q_par e q 0 \<le> 100 \<and> unat (inv_w (wqq e q)) \<le> ONE_FP"

definition wf_keys :: "siid \<Rightarrow> 'x wf_env_scheme \<Rightarrow> bool" where
  "wf_keys i e \<longleftrightarrow> (\<forall>w. \<forall>x\<in>#heap_entries (wf_heap w (wsi e i)). he_key x = key_of w (wqq e (he_object x)))"

text \<open>
  The memory for the queues of \<open>Q\<close>: every array has room for them (a new instance has room for 16), or the allocations
  that make the arrays larger succeed. The code ignores a failed insertion.
\<close>

definition wf_memory :: "qid set \<Rightarrow> siid \<Rightarrow> 'x wf_env_scheme \<Rightarrow> bool" where
  "wf_memory Q i e \<longleftrightarrow> (\<forall>n. mem e n) \<or> (\<forall>w. card Q \<le> h_size (wf_heap w (wsi e i)))"

definition wf_core :: "qid set \<Rightarrow> siid \<Rightarrow> qid set \<Rightarrow> 'x wf_env_scheme \<Rightarrow> bool" where
  "wf_core Q i X e \<longleftrightarrow> finite Q \<and> card Q < 2 ^ 25 \<and> wf_memory Q i e \<and> heaps_ok i e \<and> owned i e \<subseteq> Q \<and>
     wf_keys i e \<and> (\<forall>q\<in>Q. wf_static e q) \<and> (\<forall>q\<in>Q - X. wf_queue_ok i e q)"

definition weight_of :: "'x wf_env_scheme \<Rightarrow> qid set \<Rightarrow> int" where
  "weight_of e A = (\<Sum>q\<in>A. q_par e q 0)"

definition wf_all :: "qid set \<Rightarrow> siid \<Rightarrow> 'x wf_env_scheme \<Rightarrow> bool" where
  "wf_all Q i e \<longleftrightarrow> wf_core Q i {} e \<and> wsum (wsi e i) = word_of_int (weight_of e (owned i e))"

text \<open>The invariant between operations, without the condition on the memory, which the properties state.\<close>

definition wf_inv :: "qid set \<Rightarrow> siid \<Rightarrow> 'x wf_env_scheme \<Rightarrow> bool" where
  "wf_inv Q i e \<longleftrightarrow> finite Q \<and> card Q < 2 ^ 25 \<and> heaps_ok i e \<and> owned i e \<subseteq> Q \<and> wf_keys i e \<and>
     (\<forall>q\<in>Q. wf_static e q \<and> wf_queue_ok i e q) \<and> wsum (wsi e i) = word_of_int (weight_of e (owned i e))"

lemma wf_all_iff: "wf_all Q i e \<longleftrightarrow> wf_inv Q i e \<and> wf_memory Q i e"
  by (auto simp: wf_all_def wf_core_def wf_inv_def)

definition wf_frame :: "'x wf_env_scheme \<Rightarrow> 'x wf_env_scheme \<Rightarrow> bool" where
  "wf_frame e e' \<longleftrightarrow> qs e' = qs e \<and> fsks e' = fsks e \<and> sis e' = sis e \<and> schks e' = schks e \<and>
     freed e' = freed e \<and> curr_time e' = curr_time e"

lemma wf_same_refl: "wf_same i e e"
  unfolding wf_same_def by (intro exI [of _ "wsi e i"] exI [of _ "wqq e"] exI [of _ "mem e"]) simp

lemma wf_same_trans: "wf_same i e e1 \<Longrightarrow> wf_same i e1 e2 \<Longrightarrow> wf_same i e e2"
proof -
  assume "wf_same i e e1" "wf_same i e1 e2"
  then obtain s p m s2 p2 m2 where 1: "e1 = e\<lparr>wsi := (wsi e)(i := s), wqq := p, mem := m\<rparr>"
      "wf_V s = wf_V (wsi e i)" "inv_wsum s = inv_wsum (wsi e i)" "wsum s = wsum (wsi e i)"
      "\<And>q. wq_S (p q) = wq_S (wqq e q) \<and> wq_F (p q) = wq_F (wqq e q) \<and> inv_w (p q) = inv_w (wqq e q)"
    and 2: "e2 = e1\<lparr>wsi := (wsi e1)(i := s2), wqq := p2, mem := m2\<rparr>"
      "wf_V s2 = wf_V (wsi e1 i)" "inv_wsum s2 = inv_wsum (wsi e1 i)" "wsum s2 = wsum (wsi e1 i)"
      "\<And>q. wq_S (p2 q) = wq_S (wqq e1 q) \<and> wq_F (p2 q) = wq_F (wqq e1 q) \<and> inv_w (p2 q) = inv_w (wqq e1 q)"
    unfolding wf_same_def by blast
  then show ?thesis
    unfolding wf_same_def
    by (intro exI [of _ s2] exI [of _ p2] exI [of _ m2]) simp
qed

lemma wf_frame_refl [simp]: "wf_frame e e" by (simp add: wf_frame_def)

lemma wf_frame_trans: "wf_frame e e1 \<Longrightarrow> wf_frame e1 e2 \<Longrightarrow> wf_frame e e2"
  by (simp add: wf_frame_def)

lemma wf_same_frame: "wf_same i e e' \<Longrightarrow> wf_frame e e'"
  by (simp add: wf_frame_def wf_same_fields)

lemma wf_frame_par: "wf_frame e e' \<Longrightarrow> q_par e' q n = q_par e q n"
  by (simp add: wf_frame_def q_par_def)

lemma wf_frame_weight: "wf_frame e e' \<Longrightarrow> weight_of e' A = weight_of e A"
  by (simp add: weight_of_def wf_frame_par)

lemma owned_hobj: "hobj i w e \<subseteq> owned i e"
  by (cases w) (auto simp: owned_def)

lemma owned_iff: "q \<in> owned i e \<longleftrightarrow> (\<exists>w. q \<in> hobj i w e)"
proof
  show "\<exists>w. q \<in> hobj i w e \<Longrightarrow> q \<in> owned i e" using owned_hobj by blast
qed (auto simp: owned_def)

lemma not_owned: "q \<notin> owned i e \<Longrightarrow> q \<notin> hobj i w e"
  using owned_hobj by blast

lemma heaps_disjoint: "heaps_ok i e \<Longrightarrow> q \<in> hobj i w e \<Longrightarrow> q \<in> hobj i v e \<Longrightarrow> v = w"
  by (auto simp: heaps_ok_def)

text \<open>The steps that make up the operations.\<close>

lemma core_room: "wf_core Q i X e \<Longrightarrow> wf_elements i w e < 2 ^ 31 - 16"
proof -
  assume c: "wf_core Q i X e"
  then have "hobj i w e \<subseteq> Q" "finite Q" "card Q < 2 ^ 25" using owned_hobj [of i w e] by (auto simp: wf_core_def)
  then have "card (hobj i w e) < 2 ^ 25" using card_mono [of Q "hobj i w e"] by linarith
  then show ?thesis using elements_card [of i e w] c by (simp add: wf_core_def)
qed

lemma core_insert:
  assumes c: "wf_core Q i X e" and q: "q \<in> Q" "q \<in> X" "q \<notin> owned i e" and k: "k = key_of w (wqq e q)"
    and e': "e' = wf_insert i w k q e"
  shows "wf_core Q i X e'" "hobj i v e' = (if v = w then insert q (hobj i w e) else hobj i v e)"
    "owned i e' = insert q (owned i e)" "wf_same i e e'"
proof -
  have ok1: "heaps_ok i e" using c by (auto simp: wf_core_def)
  have rm: "wf_elements i v e < h_size (wf_heap v (wsi e i))" if "\<not> (\<forall>n. mem e n)" for v
  proof -
    have Q: "finite Q" "owned i e \<subseteq> Q" "card Q \<le> h_size (wf_heap v (wsi e i))"
      using c that by (auto simp: wf_core_def wf_memory_def)
    have "hobj i v e \<subset> Q" using Q(2) q owned_hobj [of i v e] by blast
    then have "card (hobj i v e) < card Q" using Q(1) by (simp add: psubset_card_mono)
    with Q(3) show ?thesis using elements_card [OF ok1] by simp
  qed
  then have ok: "heaps_ok i e" "mem e 0 \<or> wf_elements i w e < h_size (wf_heap w (wsi e i))" using ok1 by blast+
  note law = wf_insert_law [OF ok(1) not_owned [OF q(3)] ok(2) core_room [OF c], where k = k, folded e']
  show h: "hobj i v e' = (if v = w then insert q (hobj i w e) else hobj i v e)" for v by (rule law(3))
  show s: "wf_same i e e'" by (rule law(1))
  note f = wf_same_fields [OF s]
  show ow: "owned i e' = insert q (owned i e)" by (cases w) (auto simp: owned_def h)
  have "key_of v (wqq e' p) = key_of v (wqq e p)" for v p by (cases v) (simp_all add: f)
  then have ky: "wf_keys i e'"
    using c k by (auto simp: wf_core_def wf_keys_def law(5))
  have "wf_queue_ok i e' p" if "p \<in> Q - X" for p
    using c that q by (auto simp: wf_core_def wf_queue_ok_def h ow f)
  moreover have "wf_memory Q i e'"
  proof (cases "\<forall>n. mem e n")
    case True
    then show ?thesis by (simp add: wf_memory_def law(4))
  next
    case False
    then show ?thesis using c law(6) [OF rm [OF False]] by (auto simp: wf_core_def wf_memory_def)
  qed
  ultimately show "wf_core Q i X e'" using c ow q(1) ky law(2)
    by (simp add: wf_core_def wf_static_def f)
qed

lemma core_taken:
  assumes c: "wf_core Q i X e" and ex: "wf_same i e e'" "heaps_ok i e'" "mem_same i e e'"
    "\<forall>v. hobj i v e' = (if v = w then hobj i w e - {q} else hobj i v e)"
    "\<forall>v. heap_entries (wf_heap v (wsi e' i)) \<subseteq># heap_entries (wf_heap v (wsi e i))"
    and q: "q \<in> hobj i w e"
  shows "wf_core Q i (insert q X) e'" "owned i e' = owned i e - {q}" "q \<in> Q"
proof -
  note f = wf_same_fields [OF ex(1)]
  have ok: "heaps_ok i e" using c by (simp add: wf_core_def)
  show ow: "owned i e' = owned i e - {q}"
    using heaps_disjoint [OF ok q] q ex(4) by (cases w) (auto simp: owned_def)
  show "q \<in> Q" using c q owned_hobj [of i w e] by (auto simp: wf_core_def)
  have "key_of v (wqq e' p) = key_of v (wqq e p)" for v p by (cases v) (simp_all add: f)
  moreover have "x \<in># heap_entries (wf_heap v (wsi e i))" if "x \<in># heap_entries (wf_heap v (wsi e' i))" for v x
    using ex(5) that by (meson mset_subset_eqD)
  ultimately have ky: "wf_keys i e'"
    using c by (simp add: wf_core_def wf_keys_def)
  have "wf_queue_ok i e' p" if "p \<in> Q - insert q X" for p
    using c that ex(4) by (auto simp: wf_core_def wf_queue_ok_def ow f split: if_splits)
  moreover have "wf_memory Q i e'" using c ex(3) by (auto simp: wf_core_def wf_memory_def mem_same_def)
  ultimately show "wf_core Q i (insert q X) e'" using c ow ky ex
    by (auto simp: wf_core_def wf_static_def f)
qed

lemma core_upd_wq:
  assumes c: "wf_core Q i X e" and q: "q \<in> X" "q \<notin> owned i e"
    and f: "\<And>r. inv_w (f r) = inv_w r" "\<And>r. heap_pos (f r) = heap_pos r"
  shows "wf_core Q i X (upd_wq q f e)" "hobj i v (upd_wq q f e) = hobj i v e" "owned i (upd_wq q f e) = owned i e"
    "wf_frame e (upd_wq q f e)" "wsi (upd_wq q f e) = wsi e" "mem (upd_wq q f e) = mem e"
proof -
  show h: "hobj i v (upd_wq q f e) = hobj i v e" for v by (simp add: hobj_def upd_wq_def)
  show o: "owned i (upd_wq q f e) = owned i e" by (simp add: owned_def h)
  show "wf_frame e (upd_wq q f e)" by (simp add: wf_frame_def upd_wq_def)
  show s: "wsi (upd_wq q f e) = wsi e" "mem (upd_wq q f e) = mem e" by (simp_all add: upd_wq_def)
  have "heap_pos (wqq (upd_wq q f e) p) = heap_pos (wqq e p)" for p by (simp add: upd_wq_def f)
  then have "hst_of i w (upd_wq q f e) = hst_of i w e" for w by (simp add: hst_of_def s)
  then have ok: "heaps_ok i (upd_wq q f e)" using c by (simp add: wf_core_def heaps_ok_def h s)
  have "wf_queue_ok i (upd_wq q f e) p" if "p \<in> Q - X" for p
  proof -
    have "qs (upd_wq q f e) = qs e" "wqq (upd_wq q f e) p = wqq e p"
      using that q by (auto simp: upd_wq_def)
    then show ?thesis using c that by (simp add: wf_core_def wf_queue_ok_def h o)
  qed
  moreover have "wf_keys i (upd_wq q f e)"
    unfolding wf_keys_def s
  proof (intro allI ballI)
    fix w x assume x: "x \<in># heap_entries (wf_heap w (wsi e i))"
    then have "he_object x \<in> hobj i w e" by (simp add: hobj_def heap_objects_entries)
    then have "he_object x \<noteq> q" using not_owned [OF q(2)] by blast
    then show "he_key x = key_of w (wqq (upd_wq q f e) (he_object x))"
      using c x by (auto simp: wf_core_def wf_keys_def upd_wq_def)
  qed
  moreover have "wf_static (upd_wq q f e) p" if "p \<in> Q" for p
    using c that by (auto simp: wf_core_def wf_static_def upd_wq_def f q_par_def)
  ultimately show "wf_core Q i X (upd_wq q f e)"
    using c ok by (simp add: wf_core_def wf_memory_def o s)
qed

lemma core_upd_wsi:
  assumes c: "wf_core Q i X e" and f: "\<And>s w. wf_heap w (f s) = wf_heap w s"
  shows "wf_core Q i X (upd_wsi i f e)" "hobj i v (upd_wsi i f e) = hobj i v e" "owned i (upd_wsi i f e) = owned i e"
    "wf_frame e (upd_wsi i f e)" "wqq (upd_wsi i f e) = wqq e" "wsi (upd_wsi i f e) i = f (wsi e i)"
    "mem (upd_wsi i f e) = mem e" "wf_elements i v (upd_wsi i f e) = wf_elements i v e"
proof -
  show h: "hobj i v (upd_wsi i f e) = hobj i v e" for v by (simp add: hobj_def upd_wsi_def f)
  show o: "owned i (upd_wsi i f e) = owned i e" by (simp add: owned_def h)
  show "wf_frame e (upd_wsi i f e)" by (simp add: wf_frame_def upd_wsi_def)
  show s: "wqq (upd_wsi i f e) = wqq e" "wsi (upd_wsi i f e) i = f (wsi e i)" "mem (upd_wsi i f e) = mem e"
    by (simp_all add: upd_wsi_def)
  show "wf_elements i v (upd_wsi i f e) = wf_elements i v e" by (simp add: s f)
  have d: "qs (upd_wsi i f e) = qs e" "fsks (upd_wsi i f e) = fsks e" by (simp_all add: upd_wsi_def)
  show "wf_core Q i X (upd_wsi i f e)"
    using c by (simp add: wf_core_def wf_memory_def heaps_ok_def h o s d f hst_of_def wf_keys_def wf_queue_ok_def wf_static_def q_par_def)
qed

lemma core_close: "wf_core Q i {q} e \<Longrightarrow> wf_queue_ok i e q \<Longrightarrow> wf_core Q i {} e"
  by (auto simp: wf_core_def)

lemma core_open: "wf_core Q i {} e \<Longrightarrow> wf_core Q i X e"
  by (auto simp: wf_core_def)

section \<open>What the operations do\<close>

lemma DN_KEY_LT_add:
  fixes d :: u64
  assumes "unat d < 2 ^ 63"
  shows "\<not> DN_KEY_LT (s + d) s" "0 < unat d \<Longrightarrow> DN_KEY_LT s (s + d)"
proof -
  have w: "in_window s s" "in_window s (s + d)" "koff s s = 0" "koff s (s + d) = unat d"
    using assms by (simp_all add: in_window_def koff_def)
  show "\<not> DN_KEY_LT (s + d) s" "0 < unat d \<Longrightarrow> DN_KEY_LT s (s + d)"
    using DN_KEY_LT_window [OF w(2,1)] DN_KEY_LT_window [OF w(1,2)] w(3,4) by auto
qed

lemma finish_time_later:
  assumes "wf_static e q" "m \<in> set (mq e q)"
  shows "\<not> DN_KEY_LT (s + (word_of_int (m_len m) :: u64) * ucast (inv_w (wqq e q))) s"
proof (rule DN_KEY_LT_add)
  let ?l = "word_of_int (m_len m) :: u64" and ?w = "ucast (inv_w (wqq e q)) :: u64"
  have "0 \<le> m_len m" "m_len m < 2 ^ 16" using assms by (auto simp: wf_static_def pkts_ok_def)
  then have l: "unat ?l < 2 ^ 16" using uint_of_int64 [of "m_len m"] by (simp add: unat_eq_nat_uint)
  have "unat ?w = unat (inv_w (wqq e q))"
    using unsigned_less [of "inv_w (wqq e q)", where 'a = nat] by (simp add: unsigned_ucast_eq take_bit_nat_eq_self)
  then have w: "unat ?w \<le> 2 ^ 28" using assms by (simp add: wf_static_def ONE_FP_def)
  have "unat ?l * unat ?w \<le> 2 ^ 16 * 2 ^ 28" using l w by (intro mult_le_mono) auto
  moreover have "unat (?l * ?w) \<le> unat ?l * unat ?w" by (simp add: unat_word_ariths)
  ultimately show "unat (?l * ?w) < 2 ^ 63" by simp
qed

lemma drop_weight_core:
  assumes "wf_core Q i X e"
  shows "wf_core Q i X (drop_weight i q e)" "hobj i v (drop_weight i q e) = hobj i v e"
    "owned i (drop_weight i q e) = owned i e" "wf_frame e (drop_weight i q e)" "wqq (drop_weight i q e) = wqq e"
    "wsum (wsi (drop_weight i q e) i) = wsum (wsi e i) - word_of_int (q_par e q 0)"
    "wf_V (wsi (drop_weight i q e) i) = wf_V (wsi e i)"
proof -
  have h: "wf_heap w (s\<lparr>wsum := a, inv_wsum := b s\<rparr>) = wf_heap w s" for w s a and b :: "wf2qp_si \<Rightarrow> u32"
    by (cases w) simp_all
  note u = core_upd_wsi [OF assms h]
  show "wf_core Q i X (drop_weight i q e)" "hobj i v (drop_weight i q e) = hobj i v e"
    "owned i (drop_weight i q e) = owned i e" "wf_frame e (drop_weight i q e)" "wqq (drop_weight i q e) = wqq e"
    "wsum (wsi (drop_weight i q e) i) = wsum (wsi e i) - word_of_int (q_par e q 0)"
    "wf_V (wsi (drop_weight i q e) i) = wf_V (wsi e i)"
    unfolding drop_weight_def Let_def by (rule u | simp add: upd_wsi_def)+
qed

lemma weight_remove: "finite A \<Longrightarrow> q \<in> A \<Longrightarrow> weight_of e (A - {q}) = weight_of e A - q_par e q 0"
  by (simp add: weight_of_def sum.remove)

lemma weight_insert: "finite A \<Longrightarrow> q \<notin> A \<Longrightarrow> weight_of e (insert q A) = weight_of e A + q_par e q 0"
  by (simp add: weight_of_def)

lemma core_finite: "wf_core Q i X e \<Longrightarrow> finite (owned i e)"
  by (auto simp: wf_core_def intro: finite_subset)

text \<open>The sum of the weights never wraps to zero.\<close>

lemma weight_nonzero:
  assumes c: "wf_core Q i X e" and q: "q \<in> Q"
  shows "(word_of_int (weight_of e (insert q (owned i e))) :: u32) \<noteq> 0"
proof -
  let ?A = "insert q (owned i e)"
  have A: "?A \<subseteq> Q" "finite ?A" and b: "card Q < 2 ^ 25" "finite Q" and
    p: "\<And>x. x \<in> Q \<Longrightarrow> 1 \<le> q_par e x 0 \<and> q_par e x 0 \<le> 100"
    using c q core_finite [OF c] by (auto simp: wf_core_def wf_static_def)
  have "weight_of e ?A \<le> 100 * int (card ?A)"
  proof -
    have "\<And>x. x \<in> ?A \<Longrightarrow> q_par e x 0 \<le> 100" using p A(1) by blast
    from sum_bounded_above [of ?A "\<lambda>x. q_par e x 0", OF this] show ?thesis by (simp add: weight_of_def mult.commute)
  qed
  moreover have "card ?A \<le> card Q" using A b by (intro card_mono)
  ultimately have hi: "weight_of e ?A < 2 ^ 32" using b by simp
  have "q_par e q 0 \<le> weight_of e ?A"
    unfolding weight_of_def by (rule member_le_sum) (use A p in force)+
  then have lo: "0 < weight_of e ?A" using p [OF q] by simp
  have "uint (word_of_int (weight_of e ?A) :: u32) = weight_of e ?A"
    using uint_of_int32 hi lo by simp
  with lo show ?thesis by auto
qed

text \<open>Draining one idle queue.\<close>

lemma idle_step:
  assumes inv: "wf_all Q i e" and ne: "0 < wf_elements i IDLE e" and q: "q = wf_top i IDLE e"
  shows "\<exists>e1. wf_extract i IDLE None e = Some e1 \<and>
    (\<forall>e2. e2 = drop_weight i q (upd_wq q (\<lambda>r. r\<lparr>wq_S := wq_F r + 1\<rparr>) e1) \<longrightarrow>
      wf_all Q i e2 \<and> wf_frame e e2 \<and> wf_V (wsi e2 i) = wf_V (wsi e i) \<and>
      (\<forall>v. hobj i v e2 = (if v = IDLE then hobj i v e - {q} else hobj i v e)))"
proof -
  have c: "wf_core Q i {} e" and w: "wsum (wsi e i) = word_of_int (weight_of e (owned i e))"
    using inv by (simp_all add: wf_all_def)
  have ok: "heaps_ok i e" using c by (simp add: wf_core_def)
  have qi: "q \<in> hobj i IDLE e" unfolding q by (rule top_in_heap [OF ne])
  obtain e1 where e1: "wf_extract i IDLE None e = Some e1" "wf_same i e e1" "heaps_ok i e1" "mem_same i e e1"
    "\<forall>v. hobj i v e1 = (if v = IDLE then hobj i IDLE e - {q} else hobj i v e)"
    "\<forall>v. heap_entries (wf_heap v (wsi e1 i)) \<subseteq># heap_entries (wf_heap v (wsi e i))"
    using wf_extract_top [OF ok ne] q by blast
  note t = core_taken [OF c e1(2-6) qi]
  note f1 = wf_same_fields [OF e1(2)]
  define e2 where "e2 = upd_wq q (\<lambda>r. r\<lparr>wq_S := wq_F r + 1\<rparr>) e1"
  define e3 where "e3 = drop_weight i q e2"
  have no: "q \<notin> owned i e1" using t(2) by simp
  have u: "wf_core Q i {q} e2" "\<And>v. hobj i v e2 = hobj i v e1" "owned i e2 = owned i e1" "wf_frame e1 e2" "wsi e2 = wsi e1"
    unfolding e2_def using core_upd_wq [OF t(1) insertI1 no, of "\<lambda>r. r\<lparr>wq_S := wq_F r + 1\<rparr>"] by simp_all
  note d = drop_weight_core [OF u(1), where q = q, folded e3_def]
  have fr: "wf_frame e e3" using wf_same_frame [OF e1(2)] u(4) d(4) by (blast intro: wf_frame_trans)
  have "q \<notin> hobj i SCH e \<union> hobj i NEH e" using heaps_disjoint [OF ok qi] by auto
  then have "mq e q = []" using c t(3) by (auto simp: wf_core_def wf_queue_ok_def)
  moreover have "qs e3 = qs e" using fr by (simp add: wf_frame_def)
  moreover have "DN_KEY_LT (wq_F (wqq e3 q)) (wq_S (wqq e3 q))"
    using DN_KEY_LT_add(2) [of "1 :: u64"] by (simp add: d e2_def upd_wq_def)
  ultimately have "wf_queue_ok i e3 q"
    using no \<open>q \<notin> hobj i SCH e \<union> hobj i NEH e\<close> e1(5) by (simp add: wf_queue_ok_def d u)
  then have c3: "wf_core Q i {} e3" using core_close d(1) by blast
  have "wsum (wsi e3 i) = word_of_int (weight_of e (owned i e) - q_par e q 0)"
    using w by (simp add: d u f1 wf_frame_par [OF u(4)])
  then have "wf_all Q i e3"
    using c3 weight_remove [OF core_finite [OF c], of q e] owned_hobj [of i IDLE e] qi
    by (auto simp: wf_all_def wf_frame_weight [OF fr] d(3) u(3) t(2))
  moreover have "wf_V (wsi e3 i) = wf_V (wsi e i)" by (simp add: d u f1)
  moreover have "hobj i v e3 = (if v = IDLE then hobj i v e - {q} else hobj i v e)" for v
    using e1(5) by (simp add: d u)
  ultimately show ?thesis using e1(1) fr unfolding e3_def e2_def by blast
qed

lemma idle_check_law:
  assumes "wf_all Q i e"
  shows "\<exists>e'. idle_check i n force e = Some e' \<and> wf_all Q i e' \<and> wf_frame e e' \<and> wf_V (wsi e' i) = wf_V (wsi e i) \<and>
    hobj i SCH e' = hobj i SCH e \<and> hobj i NEH e' = hobj i NEH e \<and>
    (force \<longrightarrow> int (card (hobj i IDLE e)) \<le> n \<longrightarrow> hobj i IDLE e' = {})"
  using assms
proof (induction i n force e rule: idle_check.induct)
  case (1 i n force e)
  have fin: "finite (hobj i IDLE e)"
    by (simp add: hobj_def heap_objects_def)
  show ?case
  proof (cases "0 < n \<and> 0 < wf_elements i IDLE e \<and> (force \<or> DN_KEY_LT (wf_topkey i IDLE e) (wf_V (wsi e i)))")
    case True
    define q where "q = wf_top i IDLE e"
    have ne: "0 < wf_elements i IDLE e" using True by simp
    obtain e1 where e1: "wf_extract i IDLE None e = Some e1" and st: "\<forall>e2. e2 =
        drop_weight i q (upd_wq q (\<lambda>r. r\<lparr>wq_S := wq_F r + 1\<rparr>) e1) \<longrightarrow> wf_all Q i e2 \<and> wf_frame e e2 \<and>
        wf_V (wsi e2 i) = wf_V (wsi e i) \<and> (\<forall>v. hobj i v e2 = (if v = IDLE then hobj i v e - {q} else hobj i v e))"
      using idle_step [OF "1.prems" ne q_def] by blast
    define e2 where "e2 = drop_weight i q (upd_wq q (\<lambda>r. r\<lparr>wq_S := wq_F r + 1\<rparr>) e1)"
    note e2 = e2_def st [rule_format, OF e2_def]
    have hv: "hobj i v e2 = (if v = IDLE then hobj i v e - {q} else hobj i v e)" for v using e2 by blast
    have qi: "q \<in> hobj i IDLE e" unfolding q_def using True by (intro top_in_heap) auto
    have "card (hobj i IDLE e2) < card (hobj i IDLE e)"
      using card_Diff1_less [OF fin qi] by (simp add: hv)
    then have n: "int (card (hobj i IDLE e)) \<le> n \<longrightarrow> int (card (hobj i IDLE e2)) \<le> n - 1" by simp
    obtain e' where "idle_check i (n - 1) force e2 = Some e'" "wf_all Q i e'" "wf_frame e2 e'"
      "wf_V (wsi e' i) = wf_V (wsi e2 i)" "hobj i SCH e' = hobj i SCH e2" "hobj i NEH e' = hobj i NEH e2"
      "force \<longrightarrow> int (card (hobj i IDLE e2)) \<le> n - 1 \<longrightarrow> hobj i IDLE e' = {}"
      using "1.IH" [OF True q_def e1, folded e2(1), OF conjunct1 [OF e2(2)]] by blast
    moreover have "idle_check i n force e = idle_check i (n - 1) force e2"
      using True e1 by (subst idle_check.simps) (simp add: e2(1) q_def Let_def)
    ultimately show ?thesis using e2(2) n hv wf_frame_trans [of e e2 e'] by auto
  next
    case False
    then have "idle_check i n force e = Some e" by (subst idle_check.simps) (simp only: if_False)
    moreover have "force \<longrightarrow> int (card (hobj i IDLE e)) \<le> n \<longrightarrow> hobj i IDLE e = {}"
    proof (intro impI)
      assume f: force and n: "int (card (hobj i IDLE e)) \<le> n"
      show "hobj i IDLE e = {}"
      proof (cases "0 < n")
        case True
        with f False have "wf_elements i IDLE e = 0" by simp
        then show ?thesis by (simp only: hobj_empty)
      next
        case False
        with n have "card (hobj i IDLE e) = 0" by linarith
        with fin show ?thesis by simp
      qed
    qed
    ultimately show ?thesis using "1.prems" by simp
  qed
qed

text \<open>Moving the queues that became eligible.\<close>

definition wf_ready :: "siid \<Rightarrow> 'x wf_env_scheme \<Rightarrow> qid set" where
  "wf_ready i e = hobj i SCH e \<union> hobj i NEH e"

lemma move_step:
  assumes inv: "wf_all Q i e" and ne: "0 < wf_elements i NEH e" and q: "q = wf_top i NEH e"
  shows "\<exists>e1. wf_extract i NEH None e = Some e1 \<and>
    (\<forall>e2. e2 = wf_insert i SCH (wq_F (wqq e1 q)) q e1 \<longrightarrow>
      wf_all Q i e2 \<and> wf_same i e e2 \<and> wf_ready i e2 = wf_ready i e \<and> hobj i SCH e2 = insert q (hobj i SCH e))"
proof -
  have c: "wf_core Q i {} e" and w: "wsum (wsi e i) = word_of_int (weight_of e (owned i e))"
    using inv by (simp_all add: wf_all_def)
  have ok: "heaps_ok i e" using c by (simp add: wf_core_def)
  have qi: "q \<in> hobj i NEH e" unfolding q by (rule top_in_heap [OF ne])
  obtain e1 where e1: "wf_extract i NEH None e = Some e1" "wf_same i e e1" "heaps_ok i e1" "mem_same i e e1"
    "\<forall>v. hobj i v e1 = (if v = NEH then hobj i NEH e - {q} else hobj i v e)"
    "\<forall>v. heap_entries (wf_heap v (wsi e1 i)) \<subseteq># heap_entries (wf_heap v (wsi e i))"
    using wf_extract_top [OF ok ne] q by blast
  note t = core_taken [OF c e1(2-6) qi]
  define e2 where "e2 = wf_insert i SCH (wq_F (wqq e1 q)) q e1"
  have no: "q \<notin> owned i e1" using t(2) by simp
  note k = core_insert [OF t(1,3) insertI1 no, where w = SCH, simplified, OF refl e2_def]
  have sm: "wf_same i e e2" using e1(2) k(4) by (rule wf_same_trans)
  note f = wf_same_fields [OF sm]
  have ow: "owned i e2 = owned i e" using k(3) t(2) qi owned_hobj [of i NEH e] by auto
  have h: "hobj i SCH e2 = insert q (hobj i SCH e)" "hobj i NEH e2 = hobj i NEH e - {q}" using k(2) e1(5) by simp_all
  have "wf_queue_ok i e2 q"
    using c t(3) qi by (simp add: wf_core_def wf_queue_ok_def f ow h)
  then have "wf_core Q i {} e2" using core_close k(1) by blast
  then have "wf_all Q i e2" using w by (simp add: wf_all_def f ow wf_frame_weight [OF wf_same_frame [OF sm]])
  moreover have "wf_ready i e2 = wf_ready i e" using h qi by (auto simp: wf_ready_def)
  ultimately show ?thesis using e1(1) sm h(1) unfolding e2_def by blast
qed

lemma wf_move_eligible_law:
  assumes "wf_all Q i e"
  shows "\<exists>e'. wf_move_eligible i e = Some e' \<and> wf_all Q i e' \<and> wf_same i e e' \<and> wf_ready i e' = wf_ready i e \<and>
    hobj i SCH e \<subseteq> hobj i SCH e' \<and>
    (0 < wf_elements i NEH e \<and> DN_KEY_LEQ (wf_topkey i NEH e) (wf_V (wsi e i)) \<longrightarrow> hobj i SCH e' \<noteq> {})"
  using assms
proof (induction i e rule: wf_move_eligible.induct)
  case (1 i e)
  show ?case
  proof (cases "0 < wf_elements i NEH e \<and> DN_KEY_LEQ (wf_topkey i NEH e) (wf_V (wsi e i))")
    case True
    define q where "q = wf_top i NEH e"
    have ne: "0 < wf_elements i NEH e" using True by simp
    obtain e1 where e1: "wf_extract i NEH None e = Some e1" and st: "\<forall>e2. e2 = wf_insert i SCH (wq_F (wqq e1 q)) q e1 \<longrightarrow>
      wf_all Q i e2 \<and> wf_same i e e2 \<and> wf_ready i e2 = wf_ready i e \<and> hobj i SCH e2 = insert q (hobj i SCH e)"
      using move_step [OF "1.prems" ne q_def] by blast
    define e2 where "e2 = wf_insert i SCH (wq_F (wqq e1 q)) q e1"
    have s: "wf_all Q i e2" "wf_same i e e2" "wf_ready i e2 = wf_ready i e" "hobj i SCH e2 = insert q (hobj i SCH e)"
      using st [rule_format, OF e2_def] by auto
    obtain e' where "wf_move_eligible i e2 = Some e'" "wf_all Q i e'" "wf_same i e2 e'" "wf_ready i e' = wf_ready i e2"
      "hobj i SCH e2 \<subseteq> hobj i SCH e'"
      using "1.IH" [OF True q_def e1, folded e2_def, OF s(1)] by blast
    moreover have "wf_move_eligible i e = wf_move_eligible i e2"
      using True e1 by (subst wf_move_eligible.simps) (simp add: e2_def q_def Let_def)
    ultimately show ?thesis using s wf_same_trans [OF s(2)] by auto
  next
    case False
    then have "wf_move_eligible i e = Some e" by (subst wf_move_eligible.simps) (simp only: if_False)
    with False "1.prems" show ?thesis by (auto simp: wf_same_refl)
  qed
qed

lemma MAX64_LEQ: "DN_KEY_LEQ y (MAX64 x y)"
  by (simp add: DN_KEY_LEQ_def MAX64_def)

lemma heap_set_V: "wf_heap w (s\<lparr>wf_V := v\<rparr>) = wf_heap w s"
  by (cases w) simp_all

lemma wf_all_set_V: "wf_all Q i e \<Longrightarrow> wf_all Q i (upd_wsi i (\<lambda>s. s\<lparr>wf_V := f s\<rparr>) e)"
  using core_upd_wsi [where f = "\<lambda>s. s\<lparr>wf_V := f s\<rparr>", of Q i "{}" e]
  by (simp add: wf_all_def heap_set_V wf_frame_weight)

text \<open>After it, some queue is eligible if any has packets.\<close>

lemma wf_advance_law:
  assumes inv: "wf_all Q i e"
  shows "\<exists>e'. wf_advance i e = Some e' \<and> wf_all Q i e' \<and> wf_frame e e' \<and> wf_ready i e' = wf_ready i e \<and>
    (wf_ready i e \<noteq> {} \<longrightarrow> hobj i SCH e' \<noteq> {})"
proof (cases "wf_elements i SCH e = 0 \<and> 0 < wf_elements i NEH e")
  case True
  define e1 where "e1 = upd_wsi i (\<lambda>s. s\<lparr>wf_V := MAX64 (wf_V s) (wf_topkey i NEH e)\<rparr>) e"
  have i1: "wf_all Q i e1" unfolding e1_def by (rule wf_all_set_V [OF inv])
  have w: "wf_heap v (wsi e1 i) = wf_heap v (wsi e i)" "wf_frame e e1" for v
    by (simp_all add: e1_def upd_wsi_def heap_set_V wf_frame_def)
  have "DN_KEY_LEQ (wf_topkey i NEH e1) (wf_V (wsi e1 i))"
    unfolding w by (simp add: e1_def upd_wsi_def MAX64_LEQ)
  with wf_move_eligible_law [OF i1] True obtain e' where
    "wf_move_eligible i e1 = Some e'" "wf_all Q i e'" "wf_same i e1 e'" "wf_ready i e' = wf_ready i e1" "hobj i SCH e' \<noteq> {}"
    unfolding w by blast
  moreover have "wf_advance i e = wf_move_eligible i e1" using True by (simp add: wf_advance_def e1_def)
  moreover have "wf_ready i e1 = wf_ready i e" by (simp add: wf_ready_def hobj_def w)
  ultimately show ?thesis using wf_frame_trans [OF w(2) wf_same_frame] by auto
next
  case False
  have a: "wf_advance i e = wf_move_eligible i e" using False by (auto simp: wf_advance_def)
  have r: "hobj i SCH e \<noteq> {}" if "wf_ready i e \<noteq> {}"
    using False that hobj_empty [of SCH e i] hobj_empty [of NEH e i] by (auto simp: wf_ready_def)
  obtain e' where "wf_move_eligible i e = Some e'" "wf_all Q i e'" "wf_same i e e'" "wf_ready i e' = wf_ready i e"
      "hobj i SCH e \<subseteq> hobj i SCH e'"
    using wf_move_eligible_law [OF inv] by metis
  then show ?thesis using a r wf_same_frame [of i e e'] by auto
qed

text \<open>A step on one queue seen from the instance: everything outside dummynet's objects is kept.\<close>

lemma core_queue_step:
  assumes c: "wf_core Q i X e" and st: "queue_step q xs fr e e'" and ok: "pkts_ok xs" and q: "q \<in> Q"
  shows "wf_core Q i (insert q X) e'" "wsi e' = wsi e" "wqq e' = wqq e" "hobj i v e' = hobj i v e"
    "owned i e' = owned i e" "q_par e' p n = q_par e p n"
proof -
  have m: "dn_env.more e' = dn_env.more e" and f: "fsks e' = fsks e" "mq e' q = xs" "q_fs (qs e' q) = q_fs (qs e q)"
    and o: "\<And>p. p \<noteq> q \<Longrightarrow> qs e' p = qs e p" using st by (auto simp: queue_step_def)
  show w: "wsi e' = wsi e" "wqq e' = wqq e" and "hobj i v e' = hobj i v e" "owned i e' = owned i e"
    using m by (cases e; cases e'; simp add: owned_def hobj_def)+
  have mem: "mem e' = mem e" using m by (cases e; cases e'; simp)
  show par: "q_par e' p n = q_par e p n" for p n
    using f o by (cases "p = q") (simp_all add: q_par_def)
  have h: "hobj i v e' = hobj i v e" for v by (simp add: hobj_def w)
  then have ow: "owned i e' = owned i e" by (simp add: owned_def)
  have "wf_queue_ok i e' p" if "p \<in> Q - insert q X" for p
    using c that o by (auto simp: wf_core_def wf_queue_ok_def h ow w)
  moreover have "wf_static e' p" if "p \<in> Q" for p
    using c that o ok f by (cases "p = q") (auto simp: wf_core_def wf_static_def par w)
  ultimately show "wf_core Q i (insert q X) e'"
    using c by (simp add: wf_core_def wf_memory_def ow mem heaps_ok_def h hst_of_def w wf_keys_def)
qed

text \<open>Putting the served queue back, in whatever heap.\<close>

lemma wf_requeue_law:
  assumes c: "wf_core Q i {q} e" and q: "q \<in> Q" "q \<notin> owned i e" and e': "e' = wf_requeue i q e"
  shows "wf_core Q i {} e'" "owned i e' = insert q (owned i e)" "wf_frame e e'" "wsum (wsi e' i) = wsum (wsi e i)"
proof -
  define e1 where "e1 = upd_wq q (\<lambda>r. r\<lparr>wq_S := wq_F r\<rparr>) e"
  have u1: "wf_core Q i {q} e1" "owned i e1 = owned i e" "wf_frame e e1" "wsi e1 = wsi e"
    unfolding e1_def using core_upd_wq [OF c insertI1 q(2), of "\<lambda>r. r\<lparr>wq_S := wq_F r\<rparr>"] by simp_all
  have no1: "q \<notin> owned i e1" using q(2) u1(2) by simp
  have "wf_core Q i {} e' \<and> owned i e' = insert q (owned i e) \<and> wf_frame e e' \<and> wsum (wsi e' i) = wsum (wsi e i)"
  proof (cases "mq e1 q")
    case Nil
    have r: "e' = wf_insert i IDLE (wq_F (wqq e1 q)) q e1" by (simp add: e' wf_requeue_def Nil Let_def flip: e1_def)
    note k = core_insert [OF u1(1) q(1) insertI1 no1, where w = IDLE, simplified, OF refl r]
    note f = wf_same_fields [OF k(4)]
    have no: "q \<notin> hobj i SCH e1" "q \<notin> hobj i NEH e1" using not_owned [OF no1] by auto
    have "wf_queue_ok i e' q"
      using no by (simp add: wf_queue_ok_def f Nil k(2,3)) (simp add: e1_def upd_wq_def DN_KEY_LT_def)
    then show ?thesis
      using core_close [OF k(1)] k(3) wf_frame_trans [OF u1(3) wf_same_frame [OF k(4)]] u1 by (simp add: f)
  next
    case (Cons m ms)
    define f where "f r = r\<lparr>wq_F := wq_F r + (word_of_int (m_len m) :: u64) * ucast (inv_w r)\<rparr>" for r :: wf2qp_queue
    define e2 where "e2 = upd_wq q f e1"
    have u2: "wf_core Q i {q} e2" "owned i e2 = owned i e1" "wf_frame e1 e2" "wsi e2 = wsi e1"
      unfolding e2_def using core_upd_wq [OF u1(1) insertI1 no1, of f] by (simp_all add: f_def)
    have no2: "q \<notin> owned i e2" using no1 u2(2) by simp
    define w where "w = (if DN_KEY_LEQ (wq_S (wqq e2 q)) (wf_V (wsi e2 i)) then SCH else NEH)"
    have r: "e' = wf_insert i w (key_of w (wqq e2 q)) q e2"
      by (simp add: e' wf_requeue_def Cons Let_def w_def flip: e1_def f_def e2_def)
    note k = core_insert [OF u2(1) q(1) insertI1 no2 refl r]
    note g = wf_same_fields [OF k(4)]
    have m2: "mq e2 q = m # ms" using Cons u2(3) by (simp add: wf_frame_def)
    have "wf_static e1 q" using u1(1) q(1) by (simp add: wf_core_def)
    from finish_time_later [OF this, of m "wq_S (wqq e1 q)"]
    have "\<not> DN_KEY_LT (wq_F (wqq e2 q)) (wq_S (wqq e2 q))"
      by (simp add: Cons e2_def upd_wq_def f_def) (simp add: e1_def upd_wq_def)
    then have "wf_queue_ok i e' q"
      using m2 by (simp add: wf_queue_ok_def g k(2,3) w_def)
    then show ?thesis
      using core_close [OF k(1)] k(3) wf_frame_trans [OF wf_frame_trans [OF u1(3) u2(3)] wf_same_frame [OF k(4)]] u1 u2
      by (simp add: g)
  qed
  then show "wf_core Q i {} e'" "owned i e' = insert q (owned i e)" "wf_frame e e'" "wsum (wsi e' i) = wsum (wsi e i)"
    by auto
qed

lemma wf_serve_law:
  assumes inv: "wf_all Q i e" and ne: "hobj i SCH e \<noteq> {}"
  shows "\<exists>m e' q ms. wf_serve i e = Some (m, e') \<and> wf_all Q i e' \<and> q = wf_top i SCH e \<and> q \<in> Q \<and> mq e q = m # ms \<and>
    mq e' q = ms \<and> (\<forall>p. p \<noteq> q \<longrightarrow> mq e' p = mq e p) \<and> freed e' = freed e"
proof -
  have c: "wf_core Q i {} e" and w: "wsum (wsi e i) = word_of_int (weight_of e (owned i e))"
    using inv by (simp_all add: wf_all_def)
  define q where "q = wf_top i SCH e"
  have el: "0 < wf_elements i SCH e" using ne hobj_empty [of SCH e i] by auto
  have qi: "q \<in> hobj i SCH e" unfolding q_def by (rule top_in_heap [OF el])
  then have qQ: "q \<in> Q" using c owned_hobj [of i SCH e] by (auto simp: wf_core_def)
  then obtain m ms where mq: "mq e q = m # ms" using c qi by (cases "mq e q") (auto simp: wf_core_def wf_queue_ok_def)
  obtain e1 where d: "dn_dequeue q e = (Some m, e1)" "queue_step q ms [] e e1"
    using dn_dequeue_step [of q e] mq by (cases "dn_dequeue q e") auto
  have "pkts_ok ms" using c qQ mq by (auto simp: wf_core_def wf_static_def pkts_ok_def)
  note s1 = core_queue_step [OF c d(2) this qQ]
  have ok1: "heaps_ok i e1" and el1: "0 < wf_elements i SCH e1" and t1: "wf_top i SCH e1 = q"
    using s1(1) el by (simp_all add: wf_core_def s1(2) q_def)
  obtain e2 where e2: "wf_extract i SCH None e1 = Some e2" "wf_same i e1 e2" "heaps_ok i e2" "mem_same i e1 e2"
    "\<forall>v. hobj i v e2 = (if v = SCH then hobj i SCH e1 - {q} else hobj i v e1)"
    "\<forall>v. heap_entries (wf_heap v (wsi e2 i)) \<subseteq># heap_entries (wf_heap v (wsi e1 i))"
    using wf_extract_top [OF ok1 el1] t1 by metis
  have qi1: "q \<in> hobj i SCH e1" using qi by (simp add: s1)
  note t = core_taken [OF s1(1) e2(2-6) qi1, simplified]
  define f where "f s = s\<lparr>wf_V := wf_V s + (word_of_int (m_len m) :: u64) * ucast (inv_wsum s)\<rparr>" for s :: wf2qp_si
  define e3 where "e3 = upd_wsi i f e2"
  have hf: "\<And>s w. wf_heap w (f s) = wf_heap w s" by (simp add: f_def heap_set_V)
  note u = core_upd_wsi [OF t(1) hf, folded e3_def]
  define e4 where "e4 = wf_requeue i q e3"
  have no: "q \<notin> owned i e3" by (simp add: u(3) t(2))
  note r = wf_requeue_law [OF u(1) qQ no e4_def]
  have fr: "wf_frame e1 e4" using wf_same_frame [OF e2(2)] u(4) r(3) by (blast intro: wf_frame_trans)
  have ow: "owned i e4 = owned i e" using r(2) qi owned_hobj [of i SCH e] by (auto simp: u(3) t(2) s1(5))
  have "weight_of e4 A = weight_of e A" for A
    by (simp add: wf_frame_weight [OF fr]) (simp add: weight_of_def s1(6))
  then have "wf_all Q i e4"
    using r(1,4) w by (simp add: wf_all_def ow u(6) f_def wf_same_fields [OF e2(2)] s1(2))
  moreover have "wf_serve i e = Some (m, e4)"
    unfolding wf_serve_def Let_def q_def [symmetric] d(1) by (simp add: e2(1) e4_def e3_def f_def [abs_def])
  moreover have "mq e4 p = mq e1 p" "freed e4 = freed e1" for p using fr by (simp_all add: wf_frame_def)
  ultimately show ?thesis using d(2) qQ mq q_def by (auto simp: queue_step_def)
qed

text \<open>The whole dequeue.\<close>

lemma wf_ready_queues: "wf_all Q i e \<Longrightarrow> wf_ready i e = {q\<in>Q. mq e q \<noteq> []}"
  using owned_hobj [of i SCH e] owned_hobj [of i NEH e]
  by (auto simp: wf_all_def wf_core_def wf_queue_ok_def wf_ready_def)

lemma wf_all_reset:
  assumes inv: "wf_all Q i e" and "owned i e = {}"
  shows "wf_all Q i (upd_wsi i (\<lambda>s. s\<lparr>wf_V := 0, wsum := 0\<rparr>) e)"
proof -
  have h: "wf_heap w (s\<lparr>wf_V := 0, wsum := 0\<rparr>) = wf_heap w s" for s w by (cases w) simp_all
  from core_upd_wsi [OF _ h, of Q i "{}" e] assms show ?thesis
    by (simp add: wf_all_def weight_of_def)
qed

lemma wf2qp_dequeue_law:
  assumes inv: "wf_all Q i e"
  shows "\<exists>p e'. wf2qp_dequeue i e = Some (p, e') \<and> wf_all Q i e' \<and> deq_outcome Q p e e'"
proof (cases "wf_ready i e = {}")
  case True
  then have h: "wf_elements i SCH e = 0" "wf_elements i NEH e = 0"
    using hobj_empty [of SCH e i] hobj_empty [of NEH e i] by (auto simp: wf_ready_def)
  have core: "wf_core Q i {} e" using inv by (simp add: wf_all_def)
  have "hobj i IDLE e \<subseteq> Q" "finite Q" "card Q < 2 ^ 25"
    using core owned_hobj [of i IDLE e] by (auto simp: wf_core_def)
  then have "int (card (hobj i IDLE e)) \<le> 0x7fffffff" using card_mono [of Q "hobj i IDLE e"] by simp
  then obtain e1 where e1: "idle_check i 0x7fffffff True e = Some e1" "wf_all Q i e1" "wf_frame e e1"
    "hobj i SCH e1 = {}" "hobj i NEH e1 = {}" "hobj i IDLE e1 = {}"
    using idle_check_law [OF inv, of "0x7fffffff" True] True by (auto simp: wf_ready_def)
  define e2 where "e2 = upd_wsi i (\<lambda>s. s\<lparr>wf_V := 0, wsum := 0\<rparr>) e1"
  have "wf_all Q i e2" unfolding e2_def using e1 by (intro wf_all_reset) (auto simp: owned_def)
  moreover have "wf2qp_dequeue i e = Some (None, e2)"
    unfolding wf2qp_dequeue_def e2_def by (simp only: h e1(1)) simp
  moreover have "qs e2 = qs e" "freed e2 = freed e" using e1(3) by (simp_all add: e2_def upd_wsi_def wf_frame_def)
  moreover have "\<forall>q\<in>Q. mq e q = []" using True wf_ready_queues [OF inv] by auto
  ultimately show ?thesis by (auto simp: deq_outcome_def)
next
  case False
  then have h: "\<not> (wf_elements i SCH e = 0 \<and> wf_elements i NEH e = 0)"
    using hobj_empty [of SCH e i] hobj_empty [of NEH e i] by (auto simp: wf_ready_def)
  obtain e1 where e1: "idle_check i 1 False e = Some e1" "wf_all Q i e1" "wf_frame e e1" "wf_ready i e1 = wf_ready i e"
    using idle_check_law [OF inv, of 1 False] by (auto simp: wf_ready_def)
  obtain e2 where e2: "wf_advance i e1 = Some e2" "wf_all Q i e2" "wf_frame e1 e2" "hobj i SCH e2 \<noteq> {}"
    using wf_advance_law [OF e1(2)] False e1(4) by auto
  obtain m e3 q ms where e3: "wf_serve i e2 = Some (m, e3)" "wf_all Q i e3" "q \<in> Q" "mq e2 q = m # ms" "mq e3 q = ms"
    "\<forall>p. p \<noteq> q \<longrightarrow> mq e3 p = mq e2 p" "freed e3 = freed e2"
    using wf_serve_law [OF e2(2,4)] by blast
  obtain e4 where e4: "wf_advance i e3 = Some e4" "wf_all Q i e4" "wf_frame e3 e4"
    using wf_advance_law [OF e3(2)] by blast
  have "wf2qp_dequeue i e = Some (Some m, e4)"
    unfolding wf2qp_dequeue_def by (simp only: h if_False) (simp add: e1(1) e2(1) e3(1) e4(1))
  moreover have "deq_outcome Q (Some m) e e4"
    using e1(3) e2(3) e3(3-7) e4(3) by (auto simp: deq_outcome_def wf_frame_def)
  ultimately show ?thesis using e4(2) by blast
qed

text \<open>The whole enqueue.\<close>

lemma wf_start_time_law:
  assumes c: "wf_core Q i {q} e" and q: "q \<in> Q" "q \<notin> hobj i SCH e" "q \<notin> hobj i NEH e"
    and ow: "q \<in> owned i e \<longleftrightarrow> \<not> DN_KEY_LT (wq_F (wqq e q)) (wq_S (wqq e q))"
    and w: "wsum (wsi e i) = word_of_int (weight_of e (owned i e))"
  shows "\<exists>e'. wf_start_time i q e = Some e' \<and> wf_core Q i {q} e' \<and> owned i e' = owned i e - {q} \<and> wf_frame e e' \<and>
    wsum (wsi e' i) = word_of_int (weight_of e (insert q (owned i e)))"
proof (cases "DN_KEY_LT (wq_F (wqq e q)) (wq_S (wqq e q))")
  case True
  then have no: "q \<notin> owned i e" using ow by simp
  define e1 where "e1 = upd_wq q (\<lambda>r. r\<lparr>wq_S := wf_V (wsi e i)\<rparr>) e"
  have u: "wf_core Q i {q} e1" "owned i e1 = owned i e" "wf_frame e e1" "wsi e1 = wsi e"
    unfolding e1_def using core_upd_wq [OF c insertI1 no, of "\<lambda>r. r\<lparr>wq_S := wf_V (wsi e i)\<rparr>"] by simp_all
  let ?W = "weight_of e (insert q (owned i e))"
  define ws where "ws = wsum (wsi e1 i) + word_of_int (q_par e1 q 0)"
  have ws: "ws = word_of_int ?W"
    using w weight_insert [OF core_finite [OF c] no, of e] by (simp add: ws_def u(4) wf_frame_par [OF u(3)])
  have "ws \<noteq> 0" unfolding ws by (rule weight_nonzero [OF c q(1)])
  define f where "f s = s\<lparr>wsum := ws, inv_wsum := of_nat ONE_FP div ws\<rparr>" for s :: wf2qp_si
  have hf: "\<And>s w. wf_heap w (f s) = wf_heap w s" by (case_tac w) (simp_all add: f_def)
  note v = core_upd_wsi [OF u(1) hf]
  have "wf_start_time i q e = Some (upd_wsi i f e1)"
    unfolding wf_start_time_def Let_def e1_def [symmetric] ws_def [symmetric] using True \<open>ws \<noteq> 0\<close>
    by (simp add: f_def [abs_def])
  moreover have "owned i (upd_wsi i f e1) = owned i e - {q}" using v(3) u(2) no by simp
  moreover have "wsum (wsi (upd_wsi i f e1) i) = word_of_int ?W" by (simp add: v(6)) (simp add: f_def ws)
  ultimately show ?thesis using v(1) wf_frame_trans [OF u(3) v(4)] by blast
next
  case False
  then have qi: "q \<in> hobj i IDLE e" using ow q by (auto simp: owned_def)
  have ok: "heaps_ok i e" using c by (simp add: wf_core_def)
  obtain e1 where e1: "wf_extract i IDLE (Some q) e = Some e1" "wf_same i e e1" "heaps_ok i e1" "mem_same i e e1"
    "\<forall>v. hobj i v e1 = (if v = IDLE then hobj i IDLE e - {q} else hobj i v e)"
    "\<forall>v. heap_entries (wf_heap v (wsi e1 i)) \<subseteq># heap_entries (wf_heap v (wsi e i))"
    using wf_extract_queue [OF ok qi] by blast
  note t = core_taken [OF c e1(2-6) qi, simplified]
  have no: "q \<notin> owned i e1" by (simp add: t(2))
  define f where "f r = r\<lparr>wq_S := MAX64 (wq_F r) (wf_V (wsi e1 i))\<rparr>" for r :: wf2qp_queue
  have u: "wf_core Q i {q} (upd_wq q f e1)" "owned i (upd_wq q f e1) = owned i e1" "wf_frame e1 (upd_wq q f e1)"
    "wsi (upd_wq q f e1) = wsi e1"
    using core_upd_wq [OF t(1) insertI1 no, of f] by (simp_all add: f_def)
  have "wf_start_time i q e = Some (upd_wq q f e1)"
    using False e1(1) by (simp add: wf_start_time_def f_def [abs_def])
  moreover have "insert q (owned i e) = owned i e" using qi owned_hobj [of i IDLE e] by auto
  ultimately show ?thesis
    using u t(2) wf_frame_trans [OF wf_same_frame [OF e1(2)] u(3)] w by (simp add: wf_same_fields [OF e1(2)])
qed

lemma wf_place_law:
  assumes c: "wf_core Q i {q} e" and q: "q \<in> Q" "q \<notin> owned i e" and mq: "mq e q = m # ms" and e': "e' = wf_place i q m e"
  shows "wf_core Q i {} e' \<and> owned i e' = insert q (owned i e) \<and> wf_frame e e' \<and> wsum (wsi e' i) = wsum (wsi e i)"
proof -
  define f where "f r = r\<lparr>wq_F := wq_S r + (word_of_int (m_len m) :: u64) * ucast (inv_w r)\<rparr>" for r :: wf2qp_queue
  define e1 where "e1 = upd_wq q f e"
  have u: "wf_core Q i {q} e1" "owned i e1 = owned i e" "wf_frame e e1" "wsi e1 = wsi e"
    unfolding e1_def using core_upd_wq [OF c insertI1 q(2), of f] by (simp_all add: f_def)
  define e2 where "e2 = (if wf_elements i NEH e1 = 0 \<and> wf_elements i SCH e1 = 0
      then upd_wsi i (\<lambda>s. s\<lparr>wf_V := MAX64 (wq_S (wqq e1 q)) (wf_V s)\<rparr>) e1 else e1)"
  have v: "wf_core Q i {q} e2" "owned i e2 = owned i e1" "wf_frame e1 e2" "wqq e2 = wqq e1" "wsum (wsi e2 i) = wsum (wsi e1 i)"
    unfolding e2_def using core_upd_wsi [OF u(1), of "\<lambda>s. s\<lparr>wf_V := MAX64 (wq_S (wqq e1 q)) (wf_V s)\<rparr>"] u(1)
    by (simp_all add: heap_set_V)
  have fr: "wf_frame e e2" by (rule wf_frame_trans [OF u(3) v(3)])
  have no: "q \<notin> owned i e2" by (simp add: v(2) u(2) q(2))
  define w where "w = (if DN_KEY_LT (wf_V (wsi e2 i)) (wq_S (wqq e2 q)) then NEH else SCH)"
  have r: "e' = wf_insert i w (key_of w (wqq e2 q)) q e2"
    unfolding e' wf_place_def Let_def f_def [abs_def, symmetric] e1_def [symmetric] e2_def [symmetric]
    by (simp add: w_def)
  note k = core_insert [OF v(1) q(1) insertI1 no refl r]
  note g = wf_same_fields [OF k(4)]
  have "wf_static e q" using c q(1) by (simp add: wf_core_def)
  from finish_time_later [OF this, of m "wq_S (wqq e q)"]
  have "\<not> DN_KEY_LT (wq_F (wqq e2 q)) (wq_S (wqq e2 q))"
    by (simp add: mq v(4) e1_def upd_wq_def f_def)
  moreover have "mq e2 q = m # ms" using mq fr by (simp add: wf_frame_def)
  ultimately have "wf_queue_ok i e' q" by (simp add: wf_queue_ok_def g k(2,3) w_def)
  then show ?thesis
    using core_close [OF k(1)] k(3) wf_frame_trans [OF fr wf_same_frame [OF k(4)]] u v by (simp add: g)
qed

lemma wf2qp_enqueue_law:
  assumes inv: "wf_all Q i e" and q: "q \<in> Q" and m: "new_pkt Q e m"
  shows "\<exists>r e'. wf2qp_enqueue i q m e = Some (r, e') \<and> wf_all Q i e' \<and>
    (r = 0 \<and> mq e' q = mq e q @ [m] \<and> freed e' = freed e \<and> (\<forall>p. p \<noteq> q \<longrightarrow> mq e' p = mq e p) \<or>
     r = 1 \<and> (\<forall>p. mq e' p = mq e p) \<and> freed e' = freed e @ [m])"
proof -
  have c: "wf_core Q i {} e" and w: "wsum (wsi e i) = word_of_int (weight_of e (owned i e))"
    using inv by (simp_all add: wf_all_def)
  have nh: "\<not> is_head m (mq e q)" and pk: "pkts_ok [m]" "pkts_ok (mq e q)"
    using m q c by (auto simp: new_pkt_def wf_core_def wf_static_def)
  have ok: "wf_queue_ok i e q" using c q by (simp add: wf_core_def)
  obtain r e1 where d: "dn_enqueue q m False e = (r, e1)" by fastforce
  have same: "wf_all Q i e'" if st: "queue_step q xs fr e e'" "pkts_ok xs" "xs = [] \<longleftrightarrow> mq e q = []" for xs fr e'
  proof -
    note s = core_queue_step [OF c st(1,2) q]
    have "mq e' q = xs" using st(1) by (simp add: queue_step_def)
    then have "wf_queue_ok i e' q" using ok st(3) by (simp add: wf_queue_ok_def s)
    then show ?thesis
      using core_close [of Q i q e'] s w by (simp add: wf_all_def weight_of_def)
  qed
  consider "r = 1" "queue_step q (mq e q) [m] e e1" | "r = 0" "queue_step q (mq e q @ [m]) [] e e1"
    using dn_enqueue_step [OF d] by auto
  then show ?thesis
  proof cases
    case 1
    have "wf2qp_enqueue i q m e = Some (1, e1)" using nh d 1 by (simp add: wf2qp_enqueue_def)
    moreover have "mq e1 p = mq e p" for p using 1 by (cases "p = q") (auto simp: queue_step_def)
    ultimately show ?thesis using same [OF 1(2) pk(2)] 1(2) by (auto simp: queue_step_def)
  next
    case 2
    have m1: "mq e1 q = mq e q @ [m]" "freed e1 = freed e" "\<forall>p. p \<noteq> q \<longrightarrow> mq e1 p = mq e p"
      using 2(2) by (auto simp: queue_step_def)
    have pk1: "pkts_ok (mq e q @ [m])" using pk by (auto simp: pkts_ok_def)
    show ?thesis
    proof (cases "mq e q")
      case (Cons x xs)
      then have "\<not> is_head m (mq e1 q)" using nh m1 by (simp add: is_head_def)
      then have "wf2qp_enqueue i q m e = Some (0, e1)" using nh d 2 by (simp add: wf2qp_enqueue_def)
      then show ?thesis using same [OF 2(2) pk1] Cons m1 by auto
    next
      case Nil
      note s = core_queue_step [OF c 2(2) pk1 q]
      have no: "q \<notin> hobj i SCH e1" "q \<notin> hobj i NEH e1" using ok Nil by (auto simp: wf_queue_ok_def s)
      have w1: "wsum (wsi e1 i) = word_of_int (weight_of e1 (owned i e1))"
        using w by (simp add: s weight_of_def)
      have "q \<in> owned i e1 \<longleftrightarrow> \<not> DN_KEY_LT (wq_F (wqq e1 q)) (wq_S (wqq e1 q))"
        using ok by (simp add: wf_queue_ok_def s)
      from wf_start_time_law [OF s(1) q no this w1] obtain e2 where
        e2: "wf_start_time i q e1 = Some e2" "wf_core Q i {q} e2" "owned i e2 = owned i e1 - {q}" "wf_frame e1 e2"
          "wsum (wsi e2 i) = word_of_int (weight_of e1 (insert q (owned i e1)))" by blast
      define e3 where "e3 = wf_place i q m e2"
      have m2: "mq e2 q = [m]" "q \<notin> owned i e2" using m1 Nil e2(3,4) by (auto simp: wf_frame_def)
      have p: "wf_core Q i {} e3" "owned i e3 = insert q (owned i e2)" "wf_frame e2 e3" "wsum (wsi e3 i) = wsum (wsi e2 i)"
        using wf_place_law [OF e2(2) q m2(2,1) e3_def] by auto
      have fr: "wf_frame e1 e3" using wf_frame_trans e2(4) p(3) .
      have "wf_all Q i e3"
        using p(1,2,4) e2(3,5) by (simp add: wf_all_def wf_frame_weight [OF fr])
      moreover have "is_head m (mq e1 q)" using m1 Nil by (simp add: is_head_def)
      then have "wf2qp_enqueue i q m e = Some (0, e3)"
        using nh d 2 e2(1) by (simp add: wf2qp_enqueue_def wf_start_def e3_def)
      moreover have "mq e3 p = mq e1 p" "freed e3 = freed e1" for p using fr by (simp_all add: wf_frame_def)
      ultimately show ?thesis using m1 by auto
    qed
  qed
qed

section \<open>The contract\<close>

definition wf_enq :: "siid \<Rightarrow> qid \<Rightarrow> mbuf \<Rightarrow> 'x wf_env_scheme \<Rightarrow> nat \<times> 'x wf_env_scheme" where
  "wf_enq i q m e = the (wf2qp_enqueue i q m e)"

definition wf_deq :: "siid \<Rightarrow> 'x wf_env_scheme \<Rightarrow> mbuf option \<times> 'x wf_env_scheme" where
  "wf_deq i e = the (wf2qp_dequeue i e)"

interpretation wf: wc_scheduler "wf_enq i" "wf_deq i" "wf_all Q i" Q "\<lambda>_ q. q" "held_in Q" freed "new_pkt Q"
  for Q :: "qid set" and i :: siid
proof
  fix e e' :: "'x wf_env_scheme" and q m r p
  assume inv: "wf_all Q i e"
  show "wf_all Q i e' \<and> (r = 0 \<and> held_in Q e' = (held_in Q e)(q := held_in Q e q @ [m]) \<and> freed e' = freed e \<or>
      r \<noteq> 0 \<and> held_in Q e' = held_in Q e \<and> freed e' = freed e @ [m])"
    if a: "q \<in> Q" "new_pkt Q e m" "wf_enq i q m e = (r, e')"
  proof -
    obtain r1 e1 where l: "wf2qp_enqueue i q m e = Some (r1, e1)" "wf_all Q i e1"
      "r1 = 0 \<and> mq e1 q = mq e q @ [m] \<and> freed e1 = freed e \<and> (\<forall>p. p \<noteq> q \<longrightarrow> mq e1 p = mq e p) \<or>
       r1 = 1 \<and> (\<forall>p. mq e1 p = mq e p) \<and> freed e1 = freed e @ [m]"
      using wf2qp_enqueue_law [OF inv a(1,2)] by blast
    then have "r1 = r" "e1 = e'" using a(3) by (simp_all add: wf_enq_def)
    then show ?thesis using l(2) enq_outcome_held [OF a(1) l(3)] by simp
  qed
  have deq: "wf_all Q i e' \<and> freed e' = freed e \<and>
      (case p of None \<Rightarrow> held_in Q e' = held_in Q e
       | Some m \<Rightarrow> \<exists>q ms. held_in Q e q = m # ms \<and> held_in Q e' = (held_in Q e)(q := ms)) \<and>
      (p = None \<longrightarrow> (\<forall>q. held_in Q e q = []))"
    if d: "wf_deq i e = (p, e')" for p
  proof -
    obtain p1 e1 where r: "wf2qp_dequeue i e = Some (p1, e1)" "wf_all Q i e1" "deq_outcome Q p1 e e1"
      using wf2qp_dequeue_law [OF inv] by blast
    then have "p1 = p" "e1 = e'" using d by (simp_all add: wf_deq_def)
    with r(2,3) deq_outcome_held show ?thesis by auto
  qed
  show "wf_all Q i e' \<and> freed e' = freed e \<and>
      (case p of None \<Rightarrow> held_in Q e' = held_in Q e
       | Some m \<Rightarrow> \<exists>q ms. held_in Q e q = m # ms \<and> held_in Q e' = (held_in Q e)(q := ms))"
    if "wf_deq i e = (p, e')" using deq [OF that] by blast
  show "held_in Q e q = []" if "wf_deq i e = (None, e')" using deq [OF that] by blast
qed

text \<open>
  Without memory a queue is lost: it is put into no heap, and nothing tells the caller. The next packet for a queue
  lost on its way to the idle heap then makes the code panic: the queue is looked up in a heap it is not in.
\<close>

lemma wf_insert_lost:
  assumes "\<not> mem e 0" "wf_elements i w e = h_size (wf_heap w (wsi e i))" "wf_elements i w e < 2 ^ 31"
  shows "wf_insert i w k q e = e\<lparr>mem := \<lambda>n. mem e (Suc n)\<rparr>"
proof -
  have "unat (word_of_nat (wf_elements i w e + 16) :: u32) = wf_elements i w e + 16"
    by (subst unsigned_of_nat) (use assms(3) in \<open>simp add: take_bit_nat_eq_self\<close>)
  then have "heap_insert (mem e 0) (hst_of i w e) k (Some q) = None"
    using assms(1,2) by (simp add: hst_of_def heap_insert_None_iff heap_resize_def)
  then show ?thesis by (simp add: wf_insert_def)
qed

lemma lost_queue_panics:
  assumes "\<not> DN_KEY_LT (wq_F (wqq e q)) (wq_S (wqq e q))" "heap_pos (wqq e q) < 0" "0 < h_ofs (wf_heap IDLE (wsi e i))"
    and "0 < wf_elements i IDLE e"
  shows "wf_start_time i q e = None"
  using assms by (simp add: wf_start_time_def wf_extract_def heap_extract_def hst_of_def)

text \<open>
  The check in \<open>wf2qp_free_queue\<close> compares the time stamps without wrap-around: a queue whose finish
  time is the last value of the counter passes for one that is in no heap, and stays in its heap.
\<close>

lemma wf2qp_free_queue_wraps:
  "wq_F (wqq e q) = - 1 \<Longrightarrow> wf2qp_free_queue q safe e = Some (0, e)"
  by (simp add: wf2qp_free_queue_def)

section \<open>Properties\<close>

text \<open>
  An instance with two queues of weights 1 and no packets; its heaps have the size that \<open>wf2qp_new_sched\<close> gives them,
  and no allocation succeeds.
\<close>

definition wwf :: wf_env where
  "wwf = \<lparr>qs = qs wenv, fsks = (\<lambda>_. (fsks wenv 0)\<lparr>fsk_fs := (fsk_fs (fsks wenv 0))\<lparr>fs_par := \<lambda>_. 1\<rparr>\<rparr>),
     sis = sis wenv, schks = schks wenv, idle_queue = 2, idle_si = 1,
     curr_time = 0, io_pkt_drop = 0, rand = (\<lambda>_. 0), freed = [],
     wsi = (\<lambda>_. \<lparr>sch_heap = heap0\<lparr>h_size := 31\<rparr>, ne_heap = heap0\<lparr>h_size := 31\<rparr>, idle_heap = heap0\<lparr>h_size := 31\<rparr>,
       wf_V = 0, inv_wsum = 0, wsum = 0\<rparr>),
     wqq = (\<lambda>_. \<lparr>wq_S = 1, wq_F = 0, inv_w = 2 ^ 28, heap_pos = 0\<rparr>), mem = (\<lambda>_. False)\<rparr>"

lemma wwf_memory: "wf_memory {1, 2} 0 wwf"
  unfolding wf_memory_def by (rule disjI2, rule allI, rename_tac w, case_tac w) (simp_all add: wwf_def)

lemma wwf_inv: "wf_inv {1, 2} 0 wwf"
proof -
  have w: "wf_heap w (wsi wwf 0) = heap0\<lparr>h_size := 31\<rparr>" for w by (cases w) (simp_all add: wwf_def)
  have h: "hobj 0 w wwf = {}" for w by (simp add: hobj_def heap_objects_def w heap0_def)
  have s: "heap_shape (hst_of 0 w wwf)" for w
    by (simp add: hst_of_def w heap0_def heap_shape_def objects_distinct_def index_ok_def)
  show ?thesis
    by (auto simp: wf_inv_def heaps_ok_def owned_def h s w wf_keys_def heap_entries_def wf_static_def
        wf_queue_ok_def weight_of_def)
      (simp_all add: wwf_def wenv_def dn_zero_defs heap0_def pkts_ok_def q_par_def ONE_FP_def DN_KEY_LT_def)
qed

lemma wwf_new_pkt: "new_pkt {1, 2} wwf (wpkt 1 1500)"
  by (simp add: new_pkt_def pkts_ok_def is_head_def wpkt_def wwf_def wenv_def dn_zero_defs)

text \<open>C6: Handing a packet to a WF2Q+ instance always returns, as long as the arrays of its heaps have room for the queues
  or the allocations that make them larger succeed (\<open>wf_memory\<close>, which is kept): the heap never panics and the
  division by the sum of the weights never faults. Either the packet is appended to its queue or it is dropped, the
  other queues are untouched, and the sum of the weights is again that of the queues in the three heaps. (Without
  the memory a queue can be lost from its heap, and the next packet for it makes the code panic.)\<close>

theorem wf2qp_enqueue_total:
  assumes "wf_inv Q i e" "wf_memory Q i e" "q \<in> Q" "new_pkt Q e m"
  shows "\<exists>r e'. wf2qp_enqueue i q m e = Some (r, e') \<and> wf_inv Q i e' \<and> wf_memory Q i e' \<and>
    (r = 0 \<and> mq e' q = mq e q @ [m] \<and> freed e' = freed e \<and> (\<forall>p. p \<noteq> q \<longrightarrow> mq e' p = mq e p) \<or>
     r = 1 \<and> (\<forall>p. mq e' p = mq e p) \<and> freed e' = freed e @ [m]) \<and>
    wsum (wsi e' i) = word_of_int (weight_of e' (owned i e'))"
proof -
  have "wf_all Q i e" using assms(1,2) by (simp add: wf_all_iff)
  from wf2qp_enqueue_law [OF this assms(3,4)] show ?thesis by (auto simp: wf_all_iff wf_inv_def)
qed

lemma wf2qp_enqueue_total_witness:
  "\<exists>r e'. wf2qp_enqueue 0 1 (wpkt 1 1500) wwf = Some (r, e') \<and> wf_inv {1, 2} 0 e'"
  using wf2qp_enqueue_total [OF wwf_inv wwf_memory _ wwf_new_pkt, of 1] by blast

text \<open>C5: A request to a WF2Q+ instance always returns, without a heap panic and without reading from an empty
  heap, and it returns a packet whenever some queue has one: the head of one of the queues; as long as the arrays
  of its heaps have room for the queues or the allocations that make them larger succeed (\<open>wf_memory\<close>, which is kept).\<close>

theorem wf2qp_dequeue_returns:
  assumes "wf_inv Q i e" "wf_memory Q i e"
  shows "\<exists>p e'. wf2qp_dequeue i e = Some (p, e') \<and> wf_inv Q i e' \<and> wf_memory Q i e' \<and> deq_outcome Q p e e' \<and>
    (p = None \<longleftrightarrow> (\<forall>q\<in>Q. mq e q = []))"
proof -
  have "wf_all Q i e" using assms by (simp add: wf_all_iff)
  then obtain p e' where r: "wf2qp_dequeue i e = Some (p, e')" "wf_all Q i e'" "deq_outcome Q p e e'"
    using wf2qp_dequeue_law by blast
  then have "p = None \<longleftrightarrow> (\<forall>q\<in>Q. mq e q = [])" by (cases p) (force simp: deq_outcome_def)+
  with r show ?thesis unfolding wf_all_iff by blast
qed

lemma wf2qp_dequeue_returns_witness: "\<exists>p e'. wf2qp_dequeue 0 wwf = Some (p, e') \<and> wf_inv {1, 2} 0 e'"
  using wf2qp_dequeue_returns [OF wwf_inv wwf_memory] by blast

text \<open>C30: Over any sequence of arrivals and requests the WF2Q+ scheduler keeps its invariant, each queue is
  served first-in first-out and no packet is lost or duplicated. As in the other properties of WF2Q+, the arrays of the
  heaps have room for the queues when the run starts, or the allocations that make them larger succeed (\<open>wf_memory\<close>).\<close>

theorem wf2qp_run_fifo:
  assumes "wf_inv Q i e" "wf_memory Q i e"
    "scheduler.fine (wf_enq i) (wf_deq i) Q (new_pkt Q) xs e"
    "scheduler.run (wf_enq i) (wf_deq i) (\<lambda>_ q. q) xs e = (ins, outs, e')"
  shows "wf_inv Q i e' \<and> wf_memory Q i e' \<and> (\<exists>tr. map snd tr = outs \<and>
    (\<forall>q. held_in Q e q @ map snd (filter (\<lambda>x. fst x = q) ins) =
      map snd (filter (\<lambda>x. fst x = q) tr) @ held_in Q e' q))"
proof -
  have "wf_all Q i e" using assms(1,2) by (simp add: wf_all_iff)
  from wf.run_fifo [OF this assms(3,4)] show ?thesis by (simp add: wf.of_class_def wf_all_iff)
qed

lemma wf2qp_run_fifo_witness:
  "\<exists>ins outs e'. scheduler.run (wf_enq 0) (wf_deq 0) (\<lambda>_ q. q) [Some (1, wpkt 1 1500), None, None] wwf =
     (ins, outs, e') \<and> wf_inv {1, 2} 0 e'"
proof -
  obtain ins outs e' where r: "scheduler.run (wf_enq 0) (wf_deq 0) (\<lambda>_ q. q)
      [Some (1, wpkt 1 1500), None, None] wwf = (ins, outs, e')"
    by (metis prod_cases3)
  have "scheduler.fine (wf_enq 0) (wf_deq 0) {1, 2} (new_pkt {1, 2}) [Some (1, wpkt 1 1500), None, None] wwf"
    using wwf_new_pkt by simp
  from wf2qp_run_fifo [OF wwf_inv wwf_memory this r] r show ?thesis by blast
qed

end
