(* ===== verification/SchedQfq.thy ===== *)
theory SchedQfq
  imports Sched "HOL-Library.Monad_Syntax"
begin

text \<open>
  The QFQ scheduler of \<open>sys/netinet/ipfw/dn_sched_qfq.c\<close> (compiled without \<open>QFQ_DEBUG\<close>, \<open>unsigned
  long\<close> of 64 bits, with the bitmap macros of the file). The queues with packets are in groups; a
  group is a circular array of 32 slots, each a list of queues linked through \<open>next\<close>, and four
  bitmaps say which groups are eligible or ready. Pointers into the array of groups are indexes.
  A result \<open>None\<close> is an access through NULL or outside the array, or a shift by more than the width.
\<close>

section \<open>Constants and bitmaps\<close>

type_synonym bitmap = u64

definition QFQ_MAX_SLOTS :: nat where "QFQ_MAX_SLOTS = 32"
definition QFQ_MAX_INDEX :: nat where "QFQ_MAX_INDEX = 19"
definition QFQ_MAX_WSHIFT :: nat where "QFQ_MAX_WSHIFT = 16"
definition QFQ_MAX_WEIGHT :: nat where "QFQ_MAX_WEIGHT = 2 ^ QFQ_MAX_WSHIFT"
definition QFQ_MAX_WSUM :: nat where "QFQ_MAX_WSUM = 2 * QFQ_MAX_WEIGHT"
definition QFQ_FRAC_BITS :: nat where "QFQ_FRAC_BITS = 30"
definition QFQ_ONE_FP :: u64 where "QFQ_ONE_FP = push_bit QFQ_FRAC_BITS 1"
definition IWSUM :: u64 where "IWSUM = of_nat (2 ^ QFQ_FRAC_BITS div QFQ_MAX_WSUM)"
definition QFQ_MTU_SHIFT :: nat where "QFQ_MTU_SHIFT = 11"
definition QFQ_MIN_SLOT_SHIFT :: nat where
  "QFQ_MIN_SLOT_SHIFT = QFQ_FRAC_BITS + QFQ_MTU_SHIFT - QFQ_MAX_INDEX"
definition DN_SCHED_QFQ :: u32 where "DN_SCHED_QFQ = 4"

lemmas qfq_consts = QFQ_MAX_SLOTS_def QFQ_MAX_INDEX_def QFQ_MAX_WSHIFT_def QFQ_MAX_WEIGHT_def
  QFQ_MAX_WSUM_def QFQ_FRAC_BITS_def QFQ_ONE_FP_def IWSUM_def QFQ_MTU_SHIFT_def QFQ_MIN_SLOT_SHIFT_def

text \<open>The states of a group, indexes of its bitmap: eligible or ineligible, ready or blocked.\<close>

definition ER :: nat where "ER = 0"
definition IR :: nat where "IR = 1"
definition EB :: nat where "EB = 2"
definition IB :: nat where "IB = 3"

lemmas qfq_state_defs = ER_def IR_def EB_def IB_def

text \<open>\<open>fls\<close> of the file and \<open>ffs\<close> of the C library, both on an \<open>int\<close>: a longer word is cut.\<close>

function fls_loop :: "u32 \<Rightarrow> nat \<Rightarrow> nat" where
  "fls_loop n i = (if 0 < n then fls_loop (drop_bit 1 n) (i + 1) else i)"
  by pat_completeness auto
termination
  by (relation "measure (\<lambda>(n, i). unat n)") (simp_all add: drop_bit_eq_div unat_div word_less_nat_alt)

declare fls_loop.simps [simp del]

definition fls :: "u32 \<Rightarrow> nat" where "fls n = fls_loop n 0"

definition fls_long :: "u64 \<Rightarrow> int" where "fls_long w = int (fls (ucast w)) - 1"

definition ffs :: "u32 \<Rightarrow> nat" where
  "ffs w = (case find (bit w) [0..<32] of None \<Rightarrow> 0 | Some n \<Rightarrow> Suc n)"

text \<open>\<open>1 << ix\<close> is an \<open>int\<close>: it is extended with its sign.\<close>

definition int_bit :: "nat \<Rightarrow> bitmap option" where
  "int_bit ix = (if ix < 32 then Some (scast (push_bit ix (1 :: u32))) else None)"

definition bm_set :: "nat \<Rightarrow> bitmap \<Rightarrow> bitmap option" where
  "bm_set ix p = map_option (\<lambda>b. p OR b) (int_bit ix)"

definition bm_clear :: "nat \<Rightarrow> bitmap \<Rightarrow> bitmap option" where
  "bm_clear ix p = map_option (\<lambda>b. p AND NOT b) (int_bit ix)"

section \<open>Data\<close>

record qfq_class =
  qc_S :: u64
  qc_F :: u64
  qc_next :: "qid option"
  qc_grp :: "nat option"
  qc_inv_w :: u32
  qc_lmax :: u32

record qfq_group =
  qg_S :: u64
  qg_F :: u64
  slot_shift :: nat
  qg_index :: nat
  front :: u32
  full_slots :: bitmap
  slots :: "nat \<Rightarrow> qid option"

record qfq_sched =
  qf_V :: u64
  qf_wsum :: u32
  bitmaps :: "nat \<Rightarrow> bitmap"
  groups :: "nat \<Rightarrow> qfq_group"

record qfq_env = dn_env +
  qfs :: "siid \<Rightarrow> qfq_sched"
  qcl :: "qid \<Rightarrow> qfq_class"

definition upd_qf :: "siid \<Rightarrow> (qfq_sched \<Rightarrow> qfq_sched) \<Rightarrow> 'x qfq_env_scheme \<Rightarrow> 'x qfq_env_scheme" where
  "upd_qf i f e = e\<lparr>qfs := (qfs e)(i := f (qfs e i))\<rparr>"

definition upd_qc :: "qid \<Rightarrow> (qfq_class \<Rightarrow> qfq_class) \<Rightarrow> 'x qfq_env_scheme \<Rightarrow> 'x qfq_env_scheme" where
  "upd_qc c f e = e\<lparr>qcl := (qcl e)(c := f (qcl e c))\<rparr>"

definition upd_qg :: "nat \<Rightarrow> (qfq_group \<Rightarrow> qfq_group) \<Rightarrow> qfq_sched \<Rightarrow> qfq_sched" where
  "upd_qg g f q = q\<lparr>groups := (groups q)(g := f (groups q g))\<rparr>"

definition upd_bm :: "nat \<Rightarrow> (bitmap \<Rightarrow> bitmap) \<Rightarrow> qfq_sched \<Rightarrow> qfq_sched" where
  "upd_bm s f q = q\<lparr>bitmaps := (bitmaps q)(s := f (bitmaps q s))\<rparr>"

section \<open>Support functions\<close>

definition qfq_gt :: "u64 \<Rightarrow> u64 \<Rightarrow> bool" where
  "qfq_gt a b \<longleftrightarrow> 0 < sint (a - b)"

definition qfq_round_down :: "u64 \<Rightarrow> nat \<Rightarrow> u64" where
  "qfq_round_down ts shift = ts AND NOT (push_bit shift 1 - 1)"

definition qfq_ffs :: "bitmap \<Rightarrow> nat option" where
  "qfq_ffs bm =
     (let n = ffs (ucast bm) in if n = 0 \<or> QFQ_MAX_INDEX < n - 1 then None else Some (n - 1))"

definition qfq_calc_index :: "u32 \<Rightarrow> u32 \<Rightarrow> int" where
  "qfq_calc_index inv_w maxlen =
     (let slot_size = (ucast maxlen :: u64) * ucast inv_w;
          size_map = drop_bit QFQ_MIN_SLOT_SHIFT slot_size
      in if size_map = 0 then 0
         else
           let index = fls_long size_map + 1;
               index = index - of_bool (slot_size - push_bit (nat (index + int QFQ_MIN_SLOT_SHIFT - 1)) 1 = 0)
           in if index < 0 then 0 else index)"

definition mask_from :: "bitmap \<Rightarrow> nat \<Rightarrow> bitmap" where
  "mask_from bm from = bm AND NOT (push_bit from 1 - 1)"

definition qfq_calc_state :: "qfq_sched \<Rightarrow> nat \<Rightarrow> nat option" where
  "qfq_calc_state q g =
     (let grp = groups q g;
          state = of_bool (qfq_gt (qg_S grp) (qf_V q)) :: nat;
          mask = mask_from (bitmaps q ER) (qg_index grp)
      in if mask \<noteq> 0 then do {
           nxt \<leftarrow> qfq_ffs mask;
           Some (if qfq_gt (qg_F grp) (qg_F (groups q nxt)) then state OR EB else state)
         } else Some state)"

definition qfq_move_groups :: "bitmap \<Rightarrow> nat \<Rightarrow> nat \<Rightarrow> qfq_sched \<Rightarrow> qfq_sched" where
  "qfq_move_groups msk src dst q =
     (let q = upd_bm dst (\<lambda>b. b OR (bitmaps q src AND msk)) q
      in upd_bm src (\<lambda>b. b AND NOT msk) q)"

definition qfq_unblock_groups :: "nat \<Rightarrow> u64 \<Rightarrow> qfq_sched \<Rightarrow> qfq_sched option" where
  "qfq_unblock_groups index old_finish q =
     (let mask = mask_from (bitmaps q ER) (index + 1);
          moved = (let mask = push_bit index 1 - 1
                   in qfq_move_groups mask IB IR (qfq_move_groups mask EB ER q))
      in if mask \<noteq> 0 then do {
           nxt \<leftarrow> qfq_ffs mask;
           Some (if \<not> qfq_gt (qg_F (groups q nxt)) old_finish then q else moved)
         } else Some moved)"

definition qfq_make_eligible :: "u64 \<Rightarrow> qfq_sched \<Rightarrow> qfq_sched option" where
  "qfq_make_eligible old_V q =
     (let vslot = drop_bit QFQ_MIN_SLOT_SHIFT (qf_V q);
          old_vslot = drop_bit QFQ_MIN_SLOT_SHIFT old_V
      in if vslot \<noteq> old_vslot then
           let n = fls_long (vslot XOR old_vslot)
           in if n < 0 then None
              else let mask = push_bit (nat n) 2 - 1
                   in Some (qfq_move_groups mask IB EB (qfq_move_groups mask IR ER q))
         else Some q)"

section \<open>The slots of a group\<close>

definition qfq_slot_insert :: "siid \<Rightarrow> nat \<Rightarrow> qid \<Rightarrow> u64 \<Rightarrow> 'x qfq_env_scheme \<Rightarrow> 'x qfq_env_scheme option" where
  "qfq_slot_insert i g c roundedS e =
     (let grp = groups (qfs e i) g;
          slot = drop_bit (slot_shift grp) (roundedS - qg_S grp);
          j = unat ((ucast (front grp) + slot) mod of_nat QFQ_MAX_SLOTS);
          e = upd_qc c (\<lambda>r. r\<lparr>qc_next := slots grp j\<rparr>) e
      in do {
        full \<leftarrow> bm_set (unat slot) (full_slots grp);
        Some (upd_qf i (upd_qg g (\<lambda>r. r\<lparr>slots := (slots r)(j := Some c), full_slots := full\<rparr>)) e)
      })"

definition qfq_front_slot_remove :: "siid \<Rightarrow> nat \<Rightarrow> 'x qfq_env_scheme \<Rightarrow> 'x qfq_env_scheme option" where
  "qfq_front_slot_remove i g e =
     (let grp = groups (qfs e i) g; j = unat (front grp)
      in case slots grp j of
           None \<Rightarrow> None
         | Some c \<Rightarrow> do {
             let h = qc_next (qcl e c);
             full \<leftarrow> (if h = None then bm_clear 0 (full_slots grp) else Some (full_slots grp));
             Some (upd_qf i (upd_qg g (\<lambda>r. r\<lparr>slots := (slots r)(j := h), full_slots := full\<rparr>)) e)
           })"

definition qfq_slot_scan :: "qfq_group \<Rightarrow> qid option \<times> qfq_group" where
  "qfq_slot_scan grp =
     (if full_slots grp = 0 then (None, grp)
      else
        let i = int (ffs (ucast (full_slots grp))) - 1;
            grp = (if 0 < i
                   then grp\<lparr>front := (front grp + of_int i) mod of_nat QFQ_MAX_SLOTS,
                            full_slots := drop_bit (nat i) (full_slots grp)\<rparr>
                   else grp)
        in (slots grp (unat (front grp)), grp))"

definition qfq_slot_rotate :: "u64 \<Rightarrow> qfq_group \<Rightarrow> qfq_group option" where
  "qfq_slot_rotate roundedS grp =
     (let i = (ucast (drop_bit (slot_shift grp) (qg_S grp - roundedS)) :: u32)
      in if 64 \<le> unat i then None
         else Some (grp\<lparr>full_slots := push_bit (unat i) (full_slots grp),
                        front := (front grp - i) mod of_nat QFQ_MAX_SLOTS\<rparr>))"

definition qfq_update_eligible :: "u64 \<Rightarrow> qfq_sched \<Rightarrow> qfq_sched option" where
  "qfq_update_eligible old_V q =
     (let ineligible = bitmaps q IR OR bitmaps q IB
      in if ineligible \<noteq> 0 then do {
           q \<leftarrow> (if bitmaps q ER = 0 then do {
                   g \<leftarrow> qfq_ffs ineligible;
                   Some (if qfq_gt (qg_S (groups q g)) (qf_V q) then q\<lparr>qf_V := qg_S (groups q g)\<rparr> else q)
                 } else Some q);
           qfq_make_eligible old_V q
         } else Some q)"

section \<open>Scheduler operations\<close>

definition qfq_new_queue :: "qid \<Rightarrow> 'x qfq_env_scheme \<Rightarrow> nat \<times> 'x qfq_env_scheme" where
  "qfq_new_queue c e =
     (let i = the (q_si (qs e c));
          w = (word_of_int (q_par e c 0) :: u32);
          e = upd_qc c (\<lambda>r. r\<lparr>qc_lmax := word_of_int (q_par e c 1)\<rparr>) e;
          w = (if w = 0 \<or> of_nat QFQ_MAX_WEIGHT < w then 1 else w);
          e = upd_qc c (\<lambda>r. r\<lparr>qc_inv_w := ucast (QFQ_ONE_FP div ucast w)\<rparr>) e;
          w = (ucast (QFQ_ONE_FP div ucast (qc_inv_w (qcl e c))) :: u32)
      in if of_nat QFQ_MAX_WSUM < qf_wsum (qfs e i) + w then (22, e)
         else
           let g = qfq_calc_index (qc_inv_w (qcl e c)) (qc_lmax (qcl e c));
               e = upd_qc c (\<lambda>r. r\<lparr>qc_grp := Some (nat g)\<rparr>) e
           in (0, upd_qf i (\<lambda>q. q\<lparr>qf_wsum := qf_wsum q + w\<rparr>) e))"

definition qfq_free_queue :: "qid \<Rightarrow> bool \<Rightarrow> 'x qfq_env_scheme \<Rightarrow> int \<times> 'x qfq_env_scheme" where
  "qfq_free_queue c safe e =
     (let i = the (q_si (qs e c)); w = qc_inv_w (qcl e c) in
      if w \<noteq> 0 then
        (0, upd_qc c (\<lambda>r. r\<lparr>qc_inv_w := 0\<rparr>)
              (upd_qf i (\<lambda>q. q\<lparr>qf_wsum := qf_wsum q - ucast (QFQ_ONE_FP div ucast w)\<rparr>) e))
      else (0, e))"

text \<open>\<open>qfq_update_class\<close>: whether the group needs an update too.\<close>

definition pkt_len :: "mbuf \<Rightarrow> u64" where "pkt_len m = word_of_int (m_len m)"

definition qfq_update_class :: "siid \<Rightarrow> nat \<Rightarrow> qid \<Rightarrow> 'x qfq_env_scheme \<Rightarrow> (bool \<times> 'x qfq_env_scheme) option" where
  "qfq_update_class i g c e =
     (let e = upd_qc c (\<lambda>r. r\<lparr>qc_S := qc_F r\<rparr>) e
      in case mq e c of
           [] \<Rightarrow> do { e \<leftarrow> qfq_front_slot_remove i g e; Some (True, e) }
         | m # _ \<Rightarrow>
             let len = (word_of_int (m_len m) :: u32);
                 e = upd_qc c (\<lambda>r. r\<lparr>qc_F := qc_S r + ucast len * ucast (qc_inv_w r)\<rparr>) e;
                 roundedS = qfq_round_down (qc_S (qcl e c)) (slot_shift (groups (qfs e i) g))
             in if roundedS = qg_S (groups (qfs e i) g) then Some (False, e)
                else do {
                  e \<leftarrow> qfq_front_slot_remove i g e;
                  e \<leftarrow> qfq_slot_insert i g c roundedS e;
                  Some (True, e)
                })"

text \<open>The part of \<open>qfq_dequeue\<close> after an update of the class: the group moves to its new state.\<close>

definition qfq_group_served :: "nat \<Rightarrow> u64 \<Rightarrow> u64 \<Rightarrow> qfq_sched \<Rightarrow> qfq_sched option" where
  "qfq_group_served g roundedS old_F q =
     (if qg_S (groups q g) = roundedS then Some q
      else do {
        let q = upd_qg g (\<lambda>r. r\<lparr>qg_S := roundedS, qg_F := roundedS + push_bit (slot_shift r) 2\<rparr>) q;
        b \<leftarrow> bm_clear (qg_index (groups q g)) (bitmaps q ER);
        let q = upd_bm ER (\<lambda>_. b) q;
        s \<leftarrow> qfq_calc_state q g;
        b \<leftarrow> bm_set (qg_index (groups q g)) (bitmaps q s);
        qfq_unblock_groups (qg_index (groups q g)) old_F (upd_bm s (\<lambda>_. b) q)
      })"

definition qfq_update_group :: "siid \<Rightarrow> nat \<Rightarrow> 'x qfq_env_scheme \<Rightarrow> 'x qfq_env_scheme option" where
  "qfq_update_group i g e =
     (let q = qfs e i;
          old_F = qg_F (groups q g);
          (cl, grp) = qfq_slot_scan (groups q g);
          q = upd_qg g (\<lambda>_. grp) q
      in do {
        q \<leftarrow> (case cl of
                None \<Rightarrow> do {
                  b \<leftarrow> bm_clear (qg_index grp) (bitmaps q ER);
                  qfq_unblock_groups (qg_index grp) old_F (upd_bm ER (\<lambda>_. b) q)
                }
              | Some c \<Rightarrow> qfq_group_served g (qfq_round_down (qc_S (qcl e c)) (slot_shift grp)) old_F q);
        Some (upd_qf i (\<lambda>_. q) e)
      })"

definition qfq_dequeue :: "siid \<Rightarrow> 'x qfq_env_scheme \<Rightarrow> (mbuf option \<times> 'x qfq_env_scheme) option" where
  "qfq_dequeue i e =
     (if bitmaps (qfs e i) ER = 0 then Some (None, e)
      else do {
        g \<leftarrow> qfq_ffs (bitmaps (qfs e i) ER);
        let grp = groups (qfs e i) g;
        c \<leftarrow> slots grp (unat (front grp));
        (case dn_dequeue c e of
           (None, e) \<Rightarrow> Some (None, e)
         | (Some m, e) \<Rightarrow> do {
             let old_V = qf_V (qfs e i);
             let e = upd_qf i (\<lambda>q. q\<lparr>qf_V := qf_V q + pkt_len m * IWSUM\<rparr>) e;
             (upd, e) \<leftarrow> qfq_update_class i g c e;
             e \<leftarrow> (if upd then qfq_update_group i g e else Some e);
             q \<leftarrow> qfq_update_eligible old_V (qfs e i);
             Some (Some m, upd_qf i (\<lambda>_. q) e)
           })
      })"

definition qfq_update_start :: "siid \<Rightarrow> nat \<Rightarrow> qid \<Rightarrow> 'x qfq_env_scheme \<Rightarrow> 'x qfq_env_scheme option" where
  "qfq_update_start i g c e =
     (let q = qfs e i;
          sh = slot_shift (groups q g);
          F = qc_F (qcl e c);
          roundedF = qfq_round_down F sh;
          limit = qfq_round_down (qf_V q) sh + push_bit sh 1;
          set_S = (\<lambda>S. upd_qc c (\<lambda>r. r\<lparr>qc_S := S\<rparr>) e)
      in if \<not> qfq_gt F (qf_V q) \<or> qfq_gt roundedF limit then
           let mask = mask_from (bitmaps q ER) (qg_index (groups q g))
           in if mask \<noteq> 0 then do {
                nxt \<leftarrow> qfq_ffs mask;
                Some (if qfq_gt roundedF (qg_F (groups q nxt)) then set_S (qg_F (groups q nxt))
                      else set_S (qf_V q))
              } else Some (set_S (qf_V q))
         else Some (set_S F))"

text \<open>The part of \<open>qfq_enqueue\<close> for the group of a queue that was idle.\<close>

definition qfq_start_group :: "nat \<Rightarrow> u64 \<Rightarrow> u64 \<Rightarrow> qfq_sched \<Rightarrow> qfq_sched option" where
  "qfq_start_group g S roundedS q =
     (let grp = groups q g in
      if full_slots grp \<noteq> 0 \<and> \<not> qfq_gt (qg_S grp) S then Some q
      else do {
        q \<leftarrow> (if full_slots grp \<noteq> 0 then do {
                grp' \<leftarrow> qfq_slot_rotate roundedS grp;
                let q = upd_qg g (\<lambda>_. grp') q;
                b \<leftarrow> bm_clear (qg_index grp) (bitmaps q IR);
                let q = upd_bm IR (\<lambda>_. b) q;
                b \<leftarrow> bm_clear (qg_index grp) (bitmaps q IB);
                Some (upd_bm IB (\<lambda>_. b) q)
              } else Some (if bitmaps q ER = 0 \<and> qfq_gt roundedS (qf_V q) then q\<lparr>qf_V := roundedS\<rparr> else q));
        let q = upd_qg g (\<lambda>r. r\<lparr>qg_S := roundedS, qg_F := roundedS + push_bit (slot_shift r) 2\<rparr>) q;
        s \<leftarrow> qfq_calc_state q g;
        b \<leftarrow> bm_set (qg_index grp) (bitmaps q s);
        Some (upd_bm s (\<lambda>_. b) q)
      })"

definition qfq_activate :: "siid \<Rightarrow> qid \<Rightarrow> mbuf \<Rightarrow> 'x qfq_env_scheme \<Rightarrow> 'x qfq_env_scheme option" where
  "qfq_activate i c m e = do {
     g \<leftarrow> qc_grp (qcl e c);
     if QFQ_MAX_INDEX < g then None
     else do {
       e \<leftarrow> qfq_update_start i g c e;
       let e = upd_qc c (\<lambda>r. r\<lparr>qc_F := qc_S r + pkt_len m * ucast (qc_inv_w r)\<rparr>) e;
       let roundedS = qfq_round_down (qc_S (qcl e c)) (slot_shift (groups (qfs e i) g));
       q \<leftarrow> qfq_start_group g (qc_S (qcl e c)) roundedS (qfs e i);
       qfq_slot_insert i g c roundedS (upd_qf i (\<lambda>_. q) e)
     }
   }"

definition qfq_enqueue ::
  "siid \<Rightarrow> qid \<Rightarrow> mbuf \<Rightarrow> 'x qfq_env_scheme \<Rightarrow> (nat \<times> 'x qfq_env_scheme) option" where
  "qfq_enqueue i c m e =
     (if \<not> is_head m (mq e c) then
        case dn_enqueue c m False e of
          (r, e) \<Rightarrow>
            if r \<noteq> 0 then Some (1, e)
            else if \<not> is_head m (mq e c) then Some (0, e)
            else do { e \<leftarrow> qfq_activate i c m e; Some (0, e) }
      else do { e \<leftarrow> qfq_activate i c m e; Some (0, e) })"

definition qfq_new_fsk :: "fsid \<Rightarrow> 'x qfq_env_scheme \<Rightarrow> nat \<times> 'x qfq_env_scheme" where
  "qfq_new_fsk f e = (0, bound_par f 1 1500 1 2000 (bound_par f 0 1 1 (int QFQ_MAX_WEIGHT) e))"

definition qfq_new_sched :: "siid \<Rightarrow> 'x qfq_env_scheme \<Rightarrow> nat \<times> 'x qfq_env_scheme" where
  "qfq_new_sched i e =
     (0, foldl (\<lambda>e g. upd_qf i (upd_qg g (\<lambda>r. r\<lparr>qg_index := g,
          slot_shift := QFQ_MTU_SHIFT + QFQ_FRAC_BITS - (QFQ_MAX_INDEX - g)\<rparr>)) e) e [0..<Suc QFQ_MAX_INDEX])"

definition qfq_desc :: "'x qfq_env_scheme dn_alg" where
  "qfq_desc =
    \<lparr>al_type = DN_SCHED_QFQ, al_name = ''QFQ'', al_flags = DN_MULTIQUEUE, al_q_datalen = 40,
     al_enqueue = (\<lambda>i c. qfq_enqueue i (the c)), al_dequeue = qfq_dequeue,
     al_config = None, al_destroy = None, al_new_sched = Some qfq_new_sched,
     al_free_sched = None, al_new_fsk = Some qfq_new_fsk, al_free_fsk = None,
     al_new_queue = Some (\<lambda>c e. Some (qfq_new_queue c e)),
     al_free_queue = Some (\<lambda>c safe e. Some (qfq_free_queue c safe e))\<rparr>"

end
