(* ===== verification/QfqTime.thy ===== *)
theory QfqTime
  imports SchedQfq
begin

text \<open>
  The arithmetic of QFQ: bits of the group bitmaps, \<open>ffs\<close> and \<open>fls\<close>, timestamps rounded to the
  slots of a group and their distance from the virtual time, counted in slots.
\<close>

section \<open>Bits\<close>

lemma int_bit_eq: "ix < 31 \<Longrightarrow> int_bit ix = Some (push_bit ix 1)"
proof -
  assume ix: "ix < 31"
  have "(scast (push_bit ix (1 :: u32)) :: u64) = push_bit ix 1"
    by (rule bit_word_eqI) (use ix in \<open>auto simp: bit_signed_iff bit_exp_iff min_def split: if_splits\<close>)
  with ix show ?thesis by (simp add: int_bit_def)
qed

lemma bm_set_eq: "ix < 31 \<Longrightarrow> bm_set ix p = Some (Bit_Operations.set_bit ix p)"
  by (simp add: bm_set_def int_bit_eq set_bit_eq_or)

lemma bm_clear_eq: "ix < 31 \<Longrightarrow> bm_clear ix p = Some (unset_bit ix p)"
  by (simp add: bm_clear_def int_bit_eq unset_bit_eq_and_not)

lemma low_ones: "push_bit k 1 - 1 = (mask k :: 'a::len word)"
  by (simp add: mask_eq_exp_minus_1)

lemma bit_mask_from: "from < 64 \<Longrightarrow> bit (mask_from bm from) j \<longleftrightarrow> bit bm j \<and> from \<le> j"
  using bit_imp_le_length [of bm j] unfolding mask_from_def low_ones by (auto simp: bit_simps)

text \<open>\<open>ffs\<close> finds the lowest set bit, \<open>fls\<close> the highest.\<close>

lemma int_ffs_0 [simp]: "ffs 0 = 0"
  by (auto simp: ffs_def find_Some_iff split: option.split)

lemma int_ffs_Suc:
  assumes "w \<noteq> 0"
  shows "\<exists>n. ffs w = Suc n \<and> bit w n \<and> (\<forall>j<n. \<not> bit w j)"
proof (cases "find (bit w) [0..<32]")
  case None
  then have "\<not> bit w j" for j using bit_imp_le_length [of w j] by (auto simp: find_None_iff)
  then have "w = 0" by (simp add: bit_eq_iff)
  with assms show ?thesis by simp
next
  case (Some n)
  then obtain k where k: "k < 32" "n = k" "bit w k" "\<forall>j<k. \<not> bit w j" by (auto simp: find_Some_iff)
  with Some show ?thesis by (simp add: ffs_def)
qed

lemma qfq_ffs_least:
  assumes "bm \<noteq> 0" "\<And>j. bit bm j \<Longrightarrow> j \<le> 19"
  shows "\<exists>n. qfq_ffs bm = Some n \<and> bit bm n \<and> n \<le> 19 \<and> (\<forall>j. bit bm j \<longrightarrow> n \<le> j)"
proof -
  have low: "bit (ucast bm :: u32) j \<longleftrightarrow> bit bm j" for j
    using assms(2) [of j] by (auto simp: bit_ucast_iff)
  obtain k where "bit bm k" using assms(1) by (auto simp: bit_eq_iff)
  then have "(ucast bm :: u32) \<noteq> 0" using low [of k] by auto
  then obtain n where n: "ffs (ucast bm) = Suc n" "bit bm n" "\<forall>j<n. \<not> bit bm j"
    using int_ffs_Suc low by metis
  moreover have "n \<le> 19" using assms(2) n(2) .
  ultimately show ?thesis by (auto simp: qfq_ffs_def QFQ_MAX_INDEX_def not_less [symmetric])
qed

lemma fls_loop_high:
  assumes "n \<noteq> 0"
  shows "\<exists>k. fls_loop n i = i + k + 1 \<and> bit n k \<and> (\<forall>j>k. \<not> bit n j)"
  using assms
proof (induction n i rule: fls_loop.induct)
  case (1 n i)
  have pos: "0 < n" using "1.prems" by (simp add: word_neq_0_conv)
  have st: "fls_loop n i = fls_loop (drop_bit 1 n) (i + 1)" using pos by (subst fls_loop.simps) simp
  show ?case
  proof (cases "drop_bit 1 n = 0")
    case True
    then have no: "\<not> bit n (Suc j)" for j using bit_drop_bit_eq [of 1 n] by (simp add: fun_eq_iff)
    then have "bit n 0" using "1.prems" by (metis bit_eq_iff bit_0_eq not0_implies_Suc bot_apply bot_bool_def)
    moreover have "fls_loop n i = i + 0 + 1" unfolding st True by (subst fls_loop.simps) simp
    moreover have "\<forall>j>0. \<not> bit n j" using no by (metis gr0_implies_Suc)
    ultimately show ?thesis by blast
  next
    case False
    from "1.IH" [OF pos this] obtain k where
      k: "fls_loop (drop_bit 1 n) (i + 1) = i + 1 + k + 1" "bit (drop_bit 1 n) k" "\<forall>j>k. \<not> bit (drop_bit 1 n) j" by blast
    have "\<not> bit n j" if "Suc k < j" for j
      using k(3) [rule_format, of "j - 1"] that by (simp add: bit_drop_bit_eq)
    moreover have "bit n (Suc k)" using k(2) by (simp add: bit_drop_bit_eq)
    ultimately show ?thesis using k(1) st by (intro exI [of _ "Suc k"]) simp
  qed
qed

lemma fls_long_high:
  assumes "(ucast w :: u32) \<noteq> 0"
  shows "\<exists>k<32. fls_long w = int k \<and> bit w k \<and> (\<forall>j>k. j < 32 \<longrightarrow> \<not> bit w j)"
proof -
  obtain k where k: "fls_loop (ucast w) 0 = 0 + k + 1" "bit (ucast w :: u32) k" "\<forall>j>k. \<not> bit (ucast w :: u32) j"
    using fls_loop_high [OF assms] by blast
  moreover have "k < 32" using bit_imp_le_length [OF k(2)] by simp
  ultimately show ?thesis by (auto simp: fls_long_def fls_def bit_ucast_iff)
qed

section \<open>Rounded timestamps\<close>

lemma unat_round_down: "k < 64 \<Longrightarrow> unat (qfq_round_down x k) = unat x - unat x mod 2 ^ k"
proof -
  assume k: "k < 64"
  have "unat (qfq_round_down x k) = unat (push_bit k (drop_bit k x))"
  proof -
    have "qfq_round_down x k = push_bit k (drop_bit k x)"
      unfolding qfq_round_down_def low_ones by (rule bit_word_eqI) (auto simp: bit_simps)
    then show ?thesis by (rule arg_cong)
  qed
  also have "\<dots> = take_bit 64 (push_bit k (unat x div 2 ^ k))"
  proof -
    have "take_bit 64 (unat x) = unat x" by (rule take_bit_nat_eq_self) (use unsigned_less [of x] in simp)
    then show ?thesis by (simp add: unsigned_push_bit_eq unsigned_drop_bit_eq flip: drop_bit_eq_div)
  qed
  also have "\<dots> = 2 ^ k * (unat x div 2 ^ k)"
  proof -
    have "unat x div 2 ^ k * 2 ^ k \<le> unat x" by (rule div_times_less_eq_dividend)
    also have "unat x < 2 ^ 64" using unsigned_less [of x] by simp
    finally show ?thesis by (simp only: push_bit_eq_mult take_bit_nat_eq_self_iff mult.commute [of "2 ^ k"])
  qed
  finally show ?thesis by (simp add: minus_mod_eq_mult_div)
qed

lemma round_down_split: "k < 64 \<Longrightarrow> x = qfq_round_down x k + of_nat (unat x mod 2 ^ k)"
proof -
  assume k: "k < 64"
  have "(of_nat (unat (qfq_round_down x k) + unat x mod 2 ^ k) :: u64) = of_nat (unat x)"
    by (simp only: unat_round_down [OF k] le_add_diff_inverse2 [OF mod_less_eq_dividend])
  then show ?thesis by simp
qed

lemma round_down_unat: "k < 64 \<Longrightarrow> qfq_round_down x k = of_nat (unat x div 2 ^ k * 2 ^ k)"
proof -
  assume k: "k < 64"
  have "(of_nat (unat (qfq_round_down x k)) :: u64) = of_nat (unat x div 2 ^ k * 2 ^ k)"
    by (simp only: unat_round_down [OF k] minus_mod_eq_div_mult)
  then show ?thesis by simp
qed

lemma unat_add_of_nat_mod:
  "k \<le> 64 \<Longrightarrow> unat (x + of_nat d :: u64) mod 2 ^ k = (unat x + d) mod 2 ^ k"
proof -
  assume k: "k \<le> 64"
  have "unat (x + of_nat d) = (unat x + d) mod 2 ^ 64"
    by (simp add: unat_word_ariths unsigned_of_nat take_bit_eq_mod mod_simps)
  moreover have "(2::nat) ^ k dvd 2 ^ 64" by (rule le_imp_power_dvd [OF k])
  ultimately show ?thesis by (simp only: mod_mod_cancel)
qed

text \<open>Moving a timestamp on by \<open>d\<close> crosses \<open>qfq_cross k x d\<close> slot boundaries.\<close>

definition qfq_cross :: "nat \<Rightarrow> u64 \<Rightarrow> nat \<Rightarrow> nat" where
  "qfq_cross k x d = (unat x mod 2 ^ k + d) div 2 ^ k"

lemma round_down_add:
  assumes k: "k < 64"
  shows "qfq_round_down (x + of_nat d) k = qfq_round_down x k + of_nat (qfq_cross k x d * 2 ^ k)"
proof -
  define r where "r = unat x mod 2 ^ k"
  have "qfq_round_down (x + of_nat d) k + of_nat ((r + d) mod 2 ^ k) = x + of_nat d"
    using round_down_split [OF k, of "x + of_nat d"] unat_add_of_nat_mod [of k x d] k
    by (simp add: r_def mod_simps)
  also have "\<dots> = qfq_round_down x k + of_nat (r + d)"
    using round_down_split [OF k, of x] by (simp add: r_def)
  also have "\<dots> = qfq_round_down x k + of_nat (qfq_cross k x d * 2 ^ k) + of_nat ((r + d) mod 2 ^ k)"
    unfolding qfq_cross_def r_def [symmetric] add.assoc of_nat_add [symmetric] by (simp only: div_mult_mod_eq)
  finally show ?thesis by simp
qed


section \<open>Distance in slots from the virtual time\<close>

text \<open>
  \<open>at_gap k V S n\<close>: the start time \<open>S\<close> of a group with slots of \<open>2 ^ k\<close> is \<open>n\<close> slots before the
  first slot boundary after the virtual time \<open>V\<close>. So \<open>n = 0\<close> says that the group is not eligible.
\<close>

definition at_gap :: "nat \<Rightarrow> u64 \<Rightarrow> u64 \<Rightarrow> nat \<Rightarrow> bool" where
  "at_gap k V S n \<longleftrightarrow> S + of_nat (n * 2 ^ k) = qfq_round_down V k + 2 ^ k"

lemma at_gap_add:
  "k < 64 \<Longrightarrow> at_gap k V S n \<Longrightarrow> at_gap k (V + of_nat d) S (n + qfq_cross k V d)"
  by (simp add: at_gap_def round_down_add algebra_simps)

lemma at_gap_shift: "at_gap k V S n \<Longrightarrow> i \<le> n \<Longrightarrow> at_gap k V (S + of_nat (i * 2 ^ k)) (n - i)"
  by (simp add: at_gap_def of_nat_diff algebra_simps)

lemma at_gap_back: "at_gap k V (S + of_nat (i * 2 ^ k)) n \<Longrightarrow> at_gap k V S (n + i)"
  by (simp add: at_gap_def algebra_simps)

lemma of_nat_u64_eq: "a < 2 ^ 64 \<Longrightarrow> b < 2 ^ 64 \<Longrightarrow> (of_nat a :: u64) = of_nat b \<Longrightarrow> a = b"
  by (drule arg_cong [of _ _ unat]) (simp add: unsigned_of_nat take_bit_nat_eq_self)

lemma at_gap_unique:
  assumes "at_gap k V S n" "at_gap k V S m" "n * 2 ^ k < 2 ^ 64" "m * 2 ^ k < 2 ^ 64"
  shows "n = m"
proof -
  have "(of_nat (n * 2 ^ k) :: u64) = of_nat (m * 2 ^ k)" using assms(1,2) unfolding at_gap_def by (metis add_left_imp_eq)
  from of_nat_u64_eq [OF assms(3,4) this] show ?thesis by simp
qed

lemma sint_neg_of_nat: "a < 2 ^ 63 \<Longrightarrow> sint (- of_nat a :: u64) = - int a"
  using sint_of_int64 [of "- int a"] by simp

lemma at_gap_gt:
  assumes g: "at_gap k V S n" and k: "k \<le> 41" and n: "n \<le> 2 ^ 20"
  shows "qfq_gt S V \<longleftrightarrow> n = 0"
proof -
  define r where "r = unat V mod 2 ^ k"
  have r: "r < 2 ^ k" by (simp add: r_def)
  have k41: "(2::nat) ^ k \<le> 2 ^ 41" by (rule power_increasing [OF k]) simp
  have "V = qfq_round_down V k + of_nat r" using round_down_split [of k V] k by (simp add: r_def)
  then have e: "S + of_nat (n * 2 ^ k + r) = V + of_nat (2 ^ k)"
    using g unfolding at_gap_def of_nat_add by (metis (no_types, lifting) add.assoc add.commute of_nat_numeral of_nat_power)
  show ?thesis
  proof (cases "n = 0")
    case True
    then have "S - V = of_nat (2 ^ k - r)" using e r by (simp add: of_nat_diff algebra_simps)
    moreover have "unat (of_nat (2 ^ k - r) :: u64) = 2 ^ k - r" using k41 by (simp add: unsigned_of_nat take_bit_nat_eq_self)
    ultimately have "sint (S - V) = int (2 ^ k - r)" using k41 by (simp add: sint_u64)
    with True r show ?thesis by (simp add: qfq_gt_def)
  next
    case False
    define a where "a = n * 2 ^ k + r - 2 ^ k"
    have nk: "2 ^ k \<le> n * 2 ^ k" using False by simp
    have "n * 2 ^ k \<le> 2 ^ 20 * 2 ^ 41" using n k41 by (rule mult_le_mono)
    then have a: "a < 2 ^ 62" using r k41 unfolding a_def by simp
    have "(of_nat a :: u64) = of_nat (n * 2 ^ k + r) - of_nat (2 ^ k)"
      unfolding a_def using nk by (intro of_nat_diff trans_le_add1)
    moreover have "s - v = - (x - c)" if "s + x = v + c" for s v x c :: u64
      using that by (simp add: algebra_simps)
    ultimately have "S - V = - of_nat a" using e by metis
    moreover have "sint (- of_nat a :: u64) = - int a" using a by (intro sint_neg_of_nat) simp
    ultimately show ?thesis using False by (simp add: qfq_gt_def)
  qed
qed

text \<open>The executable form: the distance of an aligned start time.\<close>

definition slots_behind :: "nat \<Rightarrow> u64 \<Rightarrow> u64 \<Rightarrow> nat" where
  "slots_behind k V S = unat (qfq_round_down V k + 2 ^ k - S) div 2 ^ k"

lemma at_gap_slots: "at_gap k V S n \<Longrightarrow> n * 2 ^ k < 2 ^ 64 \<Longrightarrow> slots_behind k V S = n"
proof -
  assume a: "at_gap k V S n" "n * 2 ^ k < 2 ^ 64"
  then have "qfq_round_down V k + 2 ^ k - S = of_nat (n * 2 ^ k)" by (simp add: at_gap_def algebra_simps)
  moreover have "unat (of_nat (n * 2 ^ k) :: u64) = n * 2 ^ k" using a(2) by (simp add: unsigned_of_nat take_bit_nat_eq_self del: of_nat_mult)
  ultimately show ?thesis by (simp add: slots_behind_def)
qed


lemma round_down_idem: "k < 64 \<Longrightarrow> qfq_round_down (qfq_round_down x k) k = qfq_round_down x k"
  unfolding qfq_round_down_def by (simp add: and.assoc)

lemma qfq_cross_le: "qfq_cross k x d \<le> d div 2 ^ k + 1"
proof -
  have "unat x mod 2 ^ k \<le> 2 ^ k" by (rule mod_le_divisor) simp
  then have "unat x mod 2 ^ k + d \<le> 2 ^ k + d" by simp
  then have "(unat x mod 2 ^ k + d) div 2 ^ k \<le> (2 ^ k + d) div 2 ^ k" by (rule div_le_mono)
  also have "\<dots> = d div 2 ^ k + 1" by (subst div_add_self1) simp_all
  finally show ?thesis by (simp add: qfq_cross_def)
qed

lemma qfq_cross_mono: "d \<le> d' \<Longrightarrow> qfq_cross k x d \<le> qfq_cross k x d'"
  by (simp add: qfq_cross_def div_le_mono)

text \<open>The start times a queue can get, all at most one slot after the virtual time.\<close>

lemma at_gap_self: "k < 64 \<Longrightarrow> at_gap k V (qfq_round_down V k) 1"
  by (simp add: at_gap_def)

lemma at_gap_fresh:
  assumes k: "k \<le> 41" and F: "qfq_gt F V" "\<not> qfq_gt (qfq_round_down F k) (qfq_round_down V k + 2 ^ k)"
  shows "\<exists>n\<le>1. at_gap k V (qfq_round_down F k) n"
proof -
  define d where "d = unat (F - V)"
  define r where "r = unat V mod 2 ^ k"
  define j where "j = qfq_cross k V d"
  have FV: "F = V + of_nat d" by (simp add: d_def)
  have d: "d < 2 ^ 63" using F(1) unfolding qfq_gt_def sint_u64 d_def [symmetric] by (auto split: if_splits)
      (use unsigned_less [of "F - V", where 'a = nat] in \<open>simp add: d_def\<close>)
  have rF: "qfq_round_down F k = qfq_round_down V k + of_nat (j * 2 ^ k)"
    unfolding FV j_def using k by (intro round_down_add) simp
  have k41: "(2::nat) ^ k \<le> 2 ^ 41" by (rule power_increasing [OF k]) simp
  have "j \<le> 1"
  proof (rule ccontr)
    assume j: "\<not> j \<le> 1"
    define a where "a = (j - 1) * 2 ^ k"
    have "j * 2 ^ k \<le> r + d" unfolding j_def qfq_cross_def r_def by (rule div_times_less_eq_dividend)
    moreover have "r < 2 ^ k" by (simp add: r_def)
    ultimately have a: "a < 2 ^ 63" "0 < a" using d j unfolding a_def by (auto simp: diff_mult_distrib)
    have "(of_nat a :: u64) = of_nat (j * 2 ^ k) - of_nat (2 ^ k)"
      unfolding a_def diff_mult_distrib using j by (subst of_nat_diff) auto
    then have "qfq_round_down F k - (qfq_round_down V k + 2 ^ k) = of_nat a" by (simp add: rF)
    then have "qfq_gt (qfq_round_down F k) (qfq_round_down V k + 2 ^ k)"
      using a by (simp add: qfq_gt_def sint_u64 unsigned_of_nat take_bit_nat_eq_self)
    with F(2) show False by simp
  qed
  moreover have "at_gap k V (qfq_round_down F k) (1 - j)"
    using at_gap_shift [OF at_gap_self, of k j V] k \<open>j \<le> 1\<close> by (simp add: rF)
  ultimately show ?thesis by (intro exI [of _ "1 - j"]) simp
qed

lemma at_gap_exists:
  assumes k: "k < 64"
  shows "\<exists>n. at_gap k V (qfq_round_down S k) n \<and> n * 2 ^ k < 2 ^ 64"
proof -
  define a b M where "a = unat V div 2 ^ k" and "b = unat S div 2 ^ k" and "M = (2::nat) ^ (64 - k)"
  have MM: "M * 2 ^ k = 2 ^ 64" using k by (simp add: M_def flip: power_add)
  have "unat S < M * 2 ^ k" using unsigned_less [of S] by (simp add: MM)
  then have b: "b < M" by (simp add: b_def less_mult_imp_div_less)
  define n where "n = (a + 1 + M - b) mod M"
  have "n < M" by (simp add: n_def M_def)
  then have lt: "n * 2 ^ k < 2 ^ 64" using mult_strict_right_mono [of n M "2 ^ k"] by (simp add: MM)
  have "(of_nat (x mod M * 2 ^ k) :: u64) = of_nat (x * 2 ^ k)" for x
  proof -
    have "x * 2 ^ k = x mod M * 2 ^ k + x div M * (M * 2 ^ k)"
      by (metis add_mult_distrib div_mult_mod_eq add.commute mult.assoc)
    then have "x * 2 ^ k = x mod M * 2 ^ k + x div M * 2 ^ 64" by (simp only: MM)
    then have "(of_nat (x * 2 ^ k) :: u64) = of_nat (x mod M * 2 ^ k + x div M * 2 ^ 64)" by (rule arg_cong)
    also have "\<dots> = of_nat (x mod M * 2 ^ k) + of_nat (x div M) * of_nat (2 ^ 64)" by (simp only: of_nat_add of_nat_mult)
    also have "(of_nat (2 ^ 64) :: u64) = 0" by simp
    finally show ?thesis by simp
  qed
  then have "(of_nat (b * 2 ^ k) :: u64) + of_nat (n * 2 ^ k) = of_nat (b * 2 ^ k) + of_nat ((a + 1 + M - b) * 2 ^ k)"
    by (simp only: n_def)
  also have "\<dots> = of_nat ((b + (a + 1 + M - b)) * 2 ^ k)" by (simp only: of_nat_add [symmetric] add_mult_distrib)
  also have "b + (a + 1 + M - b) = a + 1 + M" using b by simp
  also have "(of_nat ((a + 1 + M) * 2 ^ k) :: u64) = of_nat (a * 2 ^ k) + of_nat (2 ^ k) + of_nat (M * 2 ^ k)"
    by (simp only: of_nat_add [symmetric] add_mult_distrib mult_1)
  also have "(of_nat (M * 2 ^ k) :: u64) = 0" unfolding MM by simp
  finally have "at_gap k V (qfq_round_down S k) n"
    unfolding at_gap_def round_down_unat [OF k] a_def b_def by simp
  with lt show ?thesis by blast
qed

lemma at_gap_bounded:
  assumes "k < 64" "slots_behind k V (qfq_round_down S k) \<le> m"
  shows "\<exists>n\<le>m. at_gap k V (qfq_round_down S k) n"
proof -
  obtain n where "at_gap k V (qfq_round_down S k) n" "n * 2 ^ k < 2 ^ 64" using at_gap_exists [OF assms(1)] by blast
  with at_gap_slots assms(2) show ?thesis by blast
qed

text \<open>The order of two start times behind the same boundary.\<close>

lemma gap_order:
  assumes a: "at_gap k V S n" "at_gap k V (qfq_round_down S' k) m" and k: "k \<le> 41" and nm: "n \<le> 30" "m \<le> 30"
  shows "qfq_gt S S' \<longleftrightarrow> n < m"
proof -
  define r where "r = unat S' mod 2 ^ k"
  have r: "r < 2 ^ k" by (simp add: r_def)
  have k41: "(2::nat) ^ k \<le> 2 ^ 41" by (rule power_increasing [OF k]) simp
  have S': "S' = qfq_round_down S' k + of_nat r" using round_down_split [of k S'] k by (simp add: r_def)
  have e: "S + of_nat (n * 2 ^ k) = qfq_round_down S' k + of_nat (m * 2 ^ k)" using a by (simp add: at_gap_def)
  have b: "n * 2 ^ k \<le> 30 * 2 ^ 41" "m * 2 ^ k \<le> 30 * 2 ^ 41" using nm k41 by (simp_all only: mult_le_mono)
  show ?thesis
  proof (cases "n < m")
    case True
    define d where "d = m * 2 ^ k - n * 2 ^ k - r"
    have "Suc n * 2 ^ k \<le> m * 2 ^ k" using True by (intro mult_le_mono1) simp
    then have m: "m * 2 ^ k = d + r + n * 2 ^ k" and d: "0 < d" "d < 2 ^ 63" using r b by (simp_all add: d_def)
    have "S - S' = of_nat d"
      using e S' unfolding m of_nat_add by (metis (no_types, lifting) add.assoc add.commute add_diff_cancel add_right_imp_eq)
    then show ?thesis using d True by (simp add: qfq_gt_def sint_u64 unsigned_of_nat take_bit_nat_eq_self)
  next
    case False
    define d where "d = n * 2 ^ k - m * 2 ^ k + r"
    have "m * 2 ^ k \<le> n * 2 ^ k" using False by (intro mult_le_mono1) simp
    then have m: "n * 2 ^ k + r = d + m * 2 ^ k" unfolding d_def by linarith
    have d: "d < 2 ^ 63" using r b k41 by (simp add: d_def)
    have "S + of_nat (n * 2 ^ k + r) = S' + of_nat (m * 2 ^ k)"
      using e S' unfolding of_nat_add by (metis (no_types, lifting) add.assoc add.commute)
    then have "S + of_nat d = S'" unfolding m of_nat_add by (metis add.assoc add_right_cancel)
    then have "S - S' = - of_nat d" by (simp add: algebra_simps)
    moreover have "sint (- of_nat d :: u64) = - int d" using d by (intro sint_neg_of_nat) simp
    ultimately show ?thesis using False by (simp add: qfq_gt_def)
  qed
qed

lemma gt_two_slots:
  assumes k: "k \<le> 41"
  shows "qfq_gt (qfq_round_down S k + push_bit k 2) S" "\<not> qfq_gt S (S + push_bit k 2)"
proof -
  define r where "r = unat S mod 2 ^ k"
  have r: "r < 2 ^ k" by (simp add: r_def)
  have k41: "(2::nat) ^ k \<le> 2 ^ 41" by (rule power_increasing [OF k]) simp
  have S: "S = qfq_round_down S k + of_nat r" using round_down_split [of k S] k by (simp add: r_def)
  have two: "(push_bit k 2 :: u64) = of_nat (2 * 2 ^ k)" by (simp add: push_bit_eq_mult)
  have "(of_nat (2 * 2 ^ k - r) :: u64) = of_nat (2 * 2 ^ k) - of_nat r" using r by (intro of_nat_diff) simp
  then have "qfq_round_down S k + push_bit k 2 - S = of_nat (2 * 2 ^ k - r)"
    unfolding two using S by (metis add.commute add_diff_cancel_left diff_add_eq)
  moreover have "2 * 2 ^ k - r < 2 ^ 63" "0 < 2 * 2 ^ k - r" using r k41 by simp_all
  ultimately show "qfq_gt (qfq_round_down S k + push_bit k 2) S"
    by (simp add: qfq_gt_def sint_u64 unsigned_of_nat take_bit_nat_eq_self del: of_nat_diff)
  have "S - (S + push_bit k 2) = - of_nat (2 * 2 ^ k)" unfolding two by simp
  moreover have "sint (- of_nat (2 * 2 ^ k) :: u64) = - int (2 * 2 ^ k)"
    using k41 by (intro sint_neg_of_nat) simp
  ultimately show "\<not> qfq_gt S (S + push_bit k 2)" by (simp add: qfq_gt_def)
qed

section \<open>The groups whose slot boundary was crossed\<close>

lemma nat_cross:
  fixes a d :: nat
  assumes "d < 2 ^ 53" "k \<le> 41" "a < 2 ^ 54"
  shows "(a + d) mod 2 ^ 54 div 2 ^ k = a div 2 ^ k \<longleftrightarrow> (a mod 2 ^ k + d) div 2 ^ k = 0"
proof -
  have k: "(2::nat) ^ k \<le> 2 ^ 41" by (rule power_increasing [OF assms(2)]) simp
  define r where "r = a mod 2 ^ k"
  define t where "t = a div 2 ^ k"
  have a: "a = t * 2 ^ k + r" unfolding t_def r_def by (rule div_mult_mod_eq [symmetric])
  have r: "r < 2 ^ k" by (simp add: r_def)
  have dv: "(2::nat) ^ 54 = 2 ^ (54 - k) * 2 ^ k" using assms(2) by (simp flip: power_add)
  have "t < 2 ^ (54 - k)" using assms(3) unfolding t_def dv by (simp add: less_mult_imp_div_less)
  then have t: "t * 2 ^ k + 2 ^ k \<le> 2 ^ 54"
    unfolding dv using mult_le_mono1 [of "Suc t" "2 ^ (54 - k)" "2 ^ k"] by simp
  show ?thesis
  proof (cases "r + d < 2 ^ k")
    case True
    then have "a + d < 2 ^ 54" using t a by simp
    moreover have "(a + d) div 2 ^ k = t" using True a by (simp add: add.assoc)
    ultimately show ?thesis using True by (simp add: r_def [symmetric] t_def [symmetric])
  next
    case False
    then have nz: "(r + d) div 2 ^ k \<noteq> 0" by (simp add: div_eq_0_iff)
    have "(a + d) mod 2 ^ 54 div 2 ^ k \<noteq> t"
    proof (cases "a + d < 2 ^ 54")
      case True
      have "(a + d) div 2 ^ k = t + (r + d) div 2 ^ k" using a by (simp add: add.assoc)
      with nz True show ?thesis by simp
    next
      case 2: False
      then have "(a + d) mod 2 ^ 54 = a + d - 2 ^ 54" using assms(1,3) by (simp add: mod_if)
      moreover have "a + d - 2 ^ 54 < t * 2 ^ k" using assms(1) k a r 2 by simp
      ultimately show ?thesis by (metis div_times_less_eq_dividend not_less)
    qed
    with nz show ?thesis by (simp add: r_def [symmetric] t_def [symmetric])
  qed
qed


lemma bit_mod_div: "bit (n mod 2 ^ m div 2 ^ k :: nat) b \<longleftrightarrow> k + b < m \<and> bit n (k + b)"
  by (simp add: bit_drop_bit_eq bit_take_bit_iff flip: take_bit_eq_mod drop_bit_eq_div)

text \<open>The test of \<open>qfq_make_eligible\<close>: group \<open>g\<close> is in the mask iff the slot number of \<open>V\<close> at its resolution changed.\<close>

lemma slot_bits_differ:
  assumes g: "g \<le> 19" and d: "d < 2 ^ 53"
  shows "(\<exists>b. g \<le> b \<and> b < 32 \<and> bit (drop_bit 22 (V + of_nat d) XOR drop_bit 22 V) b) \<longleftrightarrow> 0 < qfq_cross (22 + g) V d"
proof -
  define a where "a = unat V mod 2 ^ 54"
  have a': "unat (V + of_nat d) mod 2 ^ 54 = (a + d) mod 2 ^ 54"
    by (subst unat_add_of_nat_mod) (simp_all add: a_def mod_simps)
  have bits: "bit (drop_bit 22 x :: u64) b \<longleftrightarrow> bit (unat x mod 2 ^ 54 div 2 ^ (22 + g)) (b - g)"
    if "g \<le> b" "b < 32" for x :: u64 and b
    using that unfolding bit_mod_div by (simp add: bit_drop_bit_eq bit_unsigned_iff)
  have lt: "bit (n mod 2 ^ 54 div 2 ^ (22 + g) :: nat) b \<Longrightarrow> b + g < 32" for n b
    unfolding bit_mod_div by simp
  have "(\<exists>b. g \<le> b \<and> b < 32 \<and> bit (drop_bit 22 (V + of_nat d) XOR drop_bit 22 V) b) \<longleftrightarrow>
      (\<exists>b. bit ((a + d) mod 2 ^ 54 div 2 ^ (22 + g)) b \<noteq> bit (a div 2 ^ (22 + g)) b)" (is "?L \<longleftrightarrow> ?R")
  proof
    assume ?L
    then obtain b where b: "g \<le> b" "b < 32" "bit (drop_bit 22 (V + of_nat d)) b \<noteq> bit (drop_bit 22 V) b"
      by (auto simp: bit_xor_iff)
    then show ?R unfolding bits [OF b(1,2)] a' by (auto simp: a_def)
  next
    assume ?R
    then obtain b where b: "bit ((a + d) mod 2 ^ 54 div 2 ^ (22 + g)) b \<noteq> bit (a div 2 ^ (22 + g)) b" ..
    have g32: "b + g < 32" using b lt [of "a + d" b] lt [of "unat V" b] by (auto simp: a_def)
    have "bit (drop_bit 22 (V + of_nat d)) (b + g) \<noteq> bit (drop_bit 22 V) (b + g)"
      unfolding bits [OF le_add2 g32] a' a_def [symmetric] using b by simp
    then show ?L using g32 by (intro exI [of _ "b + g"]) (simp add: bit_xor_iff)
  qed
  also have "?R \<longleftrightarrow> (a + d) mod 2 ^ 54 div 2 ^ (22 + g) \<noteq> a div 2 ^ (22 + g)"
    by (auto simp: bit_eq_iff)
  also have "\<dots> \<longleftrightarrow> (a mod 2 ^ (22 + g) + d) div 2 ^ (22 + g) \<noteq> 0"
    using nat_cross [OF d, of "22 + g" a] g by (simp add: a_def)
  also have "a mod 2 ^ (22 + g) = unat V mod 2 ^ (22 + g)"
    unfolding a_def using g by (intro mod_mod_cancel le_imp_power_dvd) simp
  finally show ?thesis by (simp add: qfq_cross_def)
qed


lemma slots_differ:
  assumes "d < 2 ^ 53"
  shows "drop_bit 22 (V + of_nat d) \<noteq> drop_bit 22 V \<longleftrightarrow> 0 < qfq_cross 22 V d" (is "?L \<longleftrightarrow> ?R")
proof
  assume ?R
  then have "\<exists>b. 0 \<le> b \<and> b < 32 \<and> bit (drop_bit 22 (V + of_nat d) XOR drop_bit 22 V) b"
    using slot_bits_differ [of 0 d V] assms by simp
  then show ?L by auto
next
  assume l: ?L
  show ?R
  proof (rule ccontr)
    assume "\<not> ?R"
    then have e: "qfq_round_down (V + of_nat d) 22 = qfq_round_down V 22" by (simp add: round_down_add)
    have "drop_bit 22 (qfq_round_down x 22) = drop_bit 22 x" for x
      unfolding qfq_round_down_def low_ones by (rule bit_word_eqI) (auto simp: bit_simps dest: bit_imp_le_length)
    with e l show False by metis
  qed
qed

lemma crossed_mask:
  assumes d: "d < 2 ^ 53" and ne: "drop_bit 22 (V + of_nat d) \<noteq> drop_bit 22 V"
  shows "\<exists>n<32. fls_long (drop_bit 22 (V + of_nat d) XOR drop_bit 22 V) = int n \<and>
    (\<forall>g\<le>19. bit (push_bit n 2 - 1 :: bitmap) g \<longleftrightarrow> 0 < qfq_cross (22 + g) V d)"
proof -
  let ?x = "drop_bit 22 (V + of_nat d) XOR drop_bit 22 V"
  have "\<exists>b. 0 \<le> b \<and> b < 32 \<and> bit ?x b"
    using slot_bits_differ [of 0 d V] slots_differ [OF d] d ne by simp
  then have "(ucast ?x :: u32) \<noteq> 0" by (auto simp: bit_eq_iff bit_ucast_iff)
  from fls_long_high [OF this] obtain n where n: "n < 32" "fls_long ?x = int n" "bit ?x n"
    "\<forall>j>n. j < 32 \<longrightarrow> \<not> bit ?x j" by auto
  have "push_bit n 2 - 1 = (mask (Suc n) :: bitmap)"
    unfolding low_ones [symmetric] by (simp add: push_bit_eq_mult)
  then have "bit (push_bit n 2 - 1 :: bitmap) g \<longleftrightarrow> g \<le> n" for g
    using n(1) by (auto simp: bit_mask_iff)
  moreover have "g \<le> n \<longleftrightarrow> (\<exists>b. g \<le> b \<and> b < 32 \<and> bit ?x b)" for g
  proof
    assume "\<exists>b. g \<le> b \<and> b < 32 \<and> bit ?x b"
    then obtain b where "g \<le> b" "b < 32" "bit ?x b" by blast
    with n(4) show "g \<le> n" by (cases "b \<le> n") auto
  qed (use n in blast)
  ultimately show ?thesis using n(1,2) slot_bits_differ [OF _ d] by auto
qed

section \<open>The index of the group of a queue\<close>

text \<open>The index is the least one whose slots are as long as the longest packet, in scaled time.\<close>

lemma unat_pow64: "n < 64 \<Longrightarrow> unat (2 ^ n :: u64) = 2 ^ n"
proof -
  assume "n < 64"
  then have "(2::nat) ^ n < 2 ^ 64" by (intro power_strict_increasing) simp_all
  then have "take_bit 64 ((2::nat) ^ n) = 2 ^ n" by (rule take_bit_nat_eq_self)
  then have "unat (of_nat (2 ^ n) :: u64) = 2 ^ n" unfolding unsigned_of_nat by simp
  then show ?thesis by simp
qed

lemma highest_bit_bounds:
  fixes n :: nat
  assumes "bit n k" "\<And>j. k < j \<Longrightarrow> \<not> bit n j"
  shows "2 ^ k \<le> n" "n < 2 ^ Suc k"
proof -
  have "drop_bit k n = 1"
  proof (rule bit_eqI)
    fix j show "bit (drop_bit k n) j = bit 1 j"
      using assms(1) assms(2) [of "k + j"] by (cases j) (simp_all add: bit_drop_bit_eq bit_1_iff)
  qed
  then have q: "n div 2 ^ k = 1" by (simp add: drop_bit_eq_div)
  have n: "n = 2 ^ k + n mod 2 ^ k" using div_mult_mod_eq [of n "2 ^ k"] unfolding q by simp
  have "n mod 2 ^ k < 2 ^ k" by simp
  with n show "n < 2 ^ Suc k" unfolding power_Suc mult_2 by linarith
  show "2 ^ k \<le> n" by (subst n) simp
qed

lemma calc_index_least:
  assumes w: "unat inv_w \<le> 2 ^ 30" and l: "unat maxlen < 2 ^ 11"
  shows "\<exists>g. qfq_calc_index inv_w maxlen = int g \<and> g \<le> 19 \<and>
    unat maxlen * unat inv_w \<le> 2 ^ (22 + g) \<and> (\<forall>h<g. 2 ^ (22 + h) < unat maxlen * unat inv_w)"
proof -
  define x where "x = unat maxlen * unat inv_w"
  define sz where "sz = (ucast maxlen :: u64) * ucast inv_w"
  have x: "x < 2 ^ 41"
  proof -
    have "x \<le> (2 ^ 11 - 1) * 2 ^ 30" unfolding x_def using w l by (intro mult_le_mono) auto
    then show ?thesis by simp
  qed
  have "sz = of_nat x" by (simp add: sz_def x_def)
  then have sz: "unat sz = x" using x by (simp add: unsigned_of_nat take_bit_nat_eq_self)
  define m where "m = drop_bit 22 sz"
  have um: "unat m = x div 2 ^ 22" unfolding m_def drop_bit_eq_div unat_div sz by simp
  have bm: "bit m j \<longleftrightarrow> bit (x div 2 ^ 22) j" for j
    using bit_imp_le_length [of m j] unfolding um [symmetric] bit_unsigned_iff by auto
  have m19: "x div 2 ^ 22 < 2 ^ 19" using x by (simp add: less_mult_imp_div_less)
  show ?thesis
  proof (cases "m = 0")
    case True
    then have "x < 2 ^ 22" using um by (simp add: div_eq_0_iff)
    moreover have "qfq_calc_index inv_w maxlen = 0"
      using True by (simp add: qfq_calc_index_def sz_def [symmetric] m_def Let_def QFQ_MIN_SLOT_SHIFT_def qfq_consts)
    ultimately show ?thesis unfolding x_def [symmetric] by (intro exI [of _ 0]) simp
  next
    case False
    have j19: "j < 19" if "bit (x div 2 ^ 22) j" for j
    proof (rule ccontr)
      assume "\<not> j < 19"
      then have "(2::nat) ^ 19 \<le> 2 ^ j" by (intro power_increasing) simp_all
      then have "x div 2 ^ 22 < 2 ^ j" using m19 by simp
      then have "x div 2 ^ 22 div 2 ^ j = 0" by simp
      with that show False by (simp add: bit_iff_odd)
    qed
    obtain j where "bit m j" using False by (auto simp: bit_eq_iff)
    then have "(ucast m :: u32) \<noteq> 0"
      using j19 [of j] by (auto simp: bit_eq_iff bit_ucast_iff bm intro!: exI [of _ j])
    from fls_long_high [OF this] obtain k where k: "fls_long m = int k" "bit m k" "\<forall>j>k. j < 32 \<longrightarrow> \<not> bit m j" by blast
    have k19: "k < 19" using k(2) j19 by (simp add: bm)
    have nb: "\<not> bit (x div 2 ^ 22) j" if "k < j" for j
      using k(3) that j19 [of j] by (auto simp: bm)
    have bd: "2 ^ k \<le> x div 2 ^ 22" "x div 2 ^ 22 < 2 ^ Suc k"
      by (rule highest_bit_bounds; use k(2) nb in \<open>simp add: bm\<close>)+
    have lo: "2 ^ (22 + k) \<le> x"
      using mult_le_mono1 [OF bd(1), of "2 ^ 22"] div_times_less_eq_dividend [of x "2 ^ 22"] by (simp add: power_add)
    have hi: "x < 2 ^ (22 + Suc k)"
      using bd(2) by (simp add: power_add div_less_iff_less_mult mult.commute)
    define eq where "eq \<longleftrightarrow> sz - push_bit (k + 22) 1 = 0"
    have eq: "eq \<longleftrightarrow> x = 2 ^ (22 + k)"
    proof -
      have "eq \<longleftrightarrow> sz = 2 ^ (22 + k)" by (simp add: eq_def add.commute)
      also have "\<dots> \<longleftrightarrow> unat sz = unat (2 ^ (22 + k) :: u64)" by (rule word_unat_eq_iff)
      also have "unat (2 ^ (22 + k) :: u64) = 2 ^ (22 + k)" using k19 by (intro unat_pow64) simp
      finally show ?thesis by (simp only: sz)
    qed
    have "qfq_calc_index inv_w maxlen = (let n = int k + 1 - of_bool eq in if n < 0 then 0 else n)"
      using False unfolding qfq_calc_index_def sz_def [symmetric] Let_def
      by (simp add: m_def [symmetric] k(1) eq_def QFQ_MIN_SLOT_SHIFT_def qfq_consts nat_add_distrib add.commute)
    then have idx: "qfq_calc_index inv_w maxlen = int (if eq then k else k + 1)" by simp
    have below: "2 ^ (22 + h) < x" if "h < (if eq then k else k + 1)" for h
    proof -
      have le: "(2::nat) ^ (22 + h) \<le> 2 ^ (22 + k)" using that by (intro power_increasing) (auto split: if_splits)
      have lt: "(2::nat) ^ (22 + h) < 2 ^ (22 + k)" if "h < k" using that by (intro power_strict_increasing) simp_all
      show ?thesis
      proof (cases eq)
        case True
        then show ?thesis using lt that eq by simp
      next
        case False
        then have "2 ^ (22 + k) < x" using lo eq by linarith
        with le show ?thesis by (rule le_less_trans)
      qed
    qed
    have "x \<le> 2 ^ (22 + (if eq then k else k + 1))" using eq hi by simp
    with idx k19 below show ?thesis unfolding x_def [symmetric] by (intro exI [of _ "if eq then k else k + 1"]) auto
  qed
qed

end
