(* ===== verification/QfqSlots.thy ===== *)
theory QfqSlots
  imports QfqTime
begin

text \<open>
  The slots of a QFQ group as lists of queues: what inserting, removing at the front, scanning
  and rotating do to the list at each distance from the front slot.
\<close>

text \<open>
  \<open>ring_rep nxt gr L\<close>: the slot \<open>p\<close> places after the front slot of \<open>gr\<close> holds the list \<open>L p\<close>,
  linked by \<open>nxt\<close>, and the bitmap says which lists are not empty. Slot 31 is not used: its bit is
  the sign of an \<open>int\<close>.
\<close>

definition ring_rep :: "(qid \<Rightarrow> qid option) \<Rightarrow> qfq_group \<Rightarrow> (nat \<Rightarrow> qid list) \<Rightarrow> bool" where
  "ring_rep nxt gr L \<longleftrightarrow> unat (front gr) < 32 \<and>
     (\<forall>p<32. pkt_chain nxt (slots gr ((unat (front gr) + p) mod 32)) (L p)) \<and>
     (\<forall>p. bit (full_slots gr) p \<longleftrightarrow> L p \<noteq> []) \<and> (\<forall>p\<ge>31. L p = [])"

lemma ring_repD:
  assumes "ring_rep nxt gr L"
  shows "unat (front gr) < 32" "p < 32 \<Longrightarrow> pkt_chain nxt (slots gr ((unat (front gr) + p) mod 32)) (L p)"
    "bit (full_slots gr) p \<longleftrightarrow> L p \<noteq> []" "L p \<noteq> [] \<Longrightarrow> p \<le> 30"
proof -
  show "L p \<noteq> [] \<Longrightarrow> p \<le> 30" using assms by (cases "31 \<le> p") (auto simp: ring_rep_def)
qed (use assms in \<open>auto simp: ring_rep_def\<close>)

lemma slot_inj_le: "(f + p) mod 32 = (f + q) mod 32 \<Longrightarrow> p \<le> q \<Longrightarrow> q < 32 \<Longrightarrow> p = q" for f p q :: nat
proof -
  assume a: "(f + p) mod 32 = (f + q) mod 32" "p \<le> q" "q < 32"
  then have "32 dvd (f + q) - (f + p)" using mod_eq_dvd_iff_nat [of "f + p" "f + q" 32] by simp
  then have "32 dvd q - p" by simp
  with a(2,3) show "p = q" using nat_dvd_not_less [of "q - p" 32] by (cases "p = q") auto
qed

lemma slot_inj: "p < 32 \<Longrightarrow> q < 32 \<Longrightarrow> (f + p) mod 32 = (f + q) mod 32 \<longleftrightarrow> p = q" for f p q :: nat
  using slot_inj_le [of f p q] slot_inj_le [of f q p] by (cases "p \<le> q") auto

lemma pkt_chain_Cons_iff: "pkt_chain nxt p xs \<Longrightarrow> p = None \<longleftrightarrow> xs = []"
  by (cases xs) auto

lemma pkt_chain_fun_cong: "(\<And>x. x \<in> set xs \<Longrightarrow> nxt' x = nxt x) \<Longrightarrow> pkt_chain nxt' p xs = pkt_chain nxt p xs"
  by (induction xs arbitrary: p) auto

lemma ring_rep_cong:
  assumes "ring_rep nxt gr L" "\<And>p x. x \<in> set (L p) \<Longrightarrow> nxt' x = nxt x"
    "front gr' = front gr" "full_slots gr' = full_slots gr" "slots gr' = slots gr"
  shows "ring_rep nxt' gr' L"
  using assms pkt_chain_fun_cong [of "L _" nxt' nxt] by (auto simp: ring_rep_def)

lemma ring_empty: "ring_rep nxt gr L \<Longrightarrow> full_slots gr = 0 \<longleftrightarrow> (\<forall>p. L p = [])"
proof
  assume "ring_rep nxt gr L" "\<forall>p. L p = []"
  then have "\<not> bit (full_slots gr) p" for p by (simp add: ring_rep_def)
  then show "full_slots gr = 0" by (simp add: bit_eq_iff)
next
  assume "ring_rep nxt gr L" "full_slots gr = 0"
  then show "\<forall>p. L p = []" by (metis bit_0_eq bot_apply bot_bool_def ring_repD(3))
qed

lemma ring_front:
  assumes "ring_rep nxt gr L"
  shows "pkt_chain nxt (slots gr (unat (front gr))) (L 0)"
  using ring_repD(2) [OF assms, of 0] ring_repD(1) [OF assms] by simp

lemma ring_remove:
  assumes r: "ring_rep nxt gr L" and c: "L 0 = c # cs"
  shows "slots gr (unat (front gr)) = Some c" "nxt c = None \<longleftrightarrow> cs = []"
    "ring_rep nxt (gr\<lparr>slots := (slots gr)(unat (front gr) := nxt c),
       full_slots := (if cs = [] then unset_bit 0 (full_slots gr) else full_slots gr)\<rparr>) (L(0 := cs))"
proof -
  have ch: "slots gr (unat (front gr)) = Some c" "pkt_chain nxt (nxt c) cs" using ring_front [OF r] c by auto
  then show "slots gr (unat (front gr)) = Some c" "nxt c = None \<longleftrightarrow> cs = []"
    using pkt_chain_Cons_iff by auto
  have "pkt_chain nxt (((slots gr)(unat (front gr) := nxt c)) ((unat (front gr) + p) mod 32)) ((L(0 := cs)) p)"
    if p: "p < 32" for p
  proof (cases "p = 0")
    case True
    then show ?thesis using ch(2) ring_repD(1) [OF r] by simp
  next
    case False
    then have "(unat (front gr) + p) mod 32 \<noteq> unat (front gr)"
      using slot_inj [of p 0 "unat (front gr)"] p ring_repD(1) [OF r] by simp
    then show ?thesis using False ring_repD(2) [OF r p] by simp
  qed
  then show "ring_rep nxt (gr\<lparr>slots := (slots gr)(unat (front gr) := nxt c),
       full_slots := (if cs = [] then unset_bit 0 (full_slots gr) else full_slots gr)\<rparr>) (L(0 := cs))"
    using r c by (auto simp: ring_rep_def bit_unset_bit_iff)
qed

lemma ring_insert:
  assumes r: "ring_rep nxt gr L" and p: "p \<le> 30" and new: "\<And>s. c \<notin> set (L s)"
  defines "j \<equiv> (unat (front gr) + p) mod 32"
  shows "ring_rep (nxt(c := slots gr j))
    (gr\<lparr>slots := (slots gr)(j := Some c), full_slots := Bit_Operations.set_bit p (full_slots gr)\<rparr>) (L(p := c # L p))"
proof -
  have p32: "p < 32" using p by simp
  have "pkt_chain (nxt(c := slots gr j)) (((slots gr)(j := Some c)) ((unat (front gr) + s) mod 32)) ((L(p := c # L p)) s)"
    if s: "s < 32" for s
    using ring_repD(2) [OF r s] new slot_inj [OF s p32, of "unat (front gr)"]
    by (auto simp: j_def pkt_chain_upd)
  then show ?thesis
    using r p by (auto simp: ring_rep_def bit_set_bit_iff possible_bit_def)
qed

text \<open>Scanning moves the front to the first slot in use.\<close>

lemma ring_scan:
  assumes r: "ring_rep nxt gr L" and ne: "L s \<noteq> []"
  shows "\<exists>i gr' x xs. L i = x # xs \<and> (\<forall>p<i. L p = []) \<and> qfq_slot_scan gr = (Some x, gr') \<and>
    ring_rep nxt gr' (\<lambda>p. L (p + i)) \<and> (\<exists>f b. gr' = gr\<lparr>front := f, full_slots := b\<rparr>)"
proof -
  note d = ring_repD [OF r]
  have low: "bit (ucast (full_slots gr) :: u32) j \<longleftrightarrow> L j \<noteq> []" for j
    using d(3,4) [of j] by (auto simp: bit_ucast_iff)
  have "bit (full_slots gr) s" "bit (ucast (full_slots gr) :: u32) s" using ne low d(3) by simp_all
  then have nz: "full_slots gr \<noteq> 0" "(ucast (full_slots gr) :: u32) \<noteq> 0" by auto
  obtain i where i: "ffs (ucast (full_slots gr)) = Suc i" "L i \<noteq> []" "\<forall>j<i. L j = []"
    using int_ffs_Suc [OF nz(2)] low by auto
  have i30: "i \<le> 30" using d(4) [OF i(2)] .
  obtain x xs where x: "L i = x # xs" using i(2) by (cases "L i") auto
  define f where "f = (if i = 0 then front gr else (front gr + of_nat i) mod 32)"
  define gr' where "gr' = gr\<lparr>front := f, full_slots := drop_bit i (full_slots gr)\<rparr>"
  have f: "unat f = (unat (front gr) + i) mod 32"
  proof (cases "i = 0")
    case False
    have "unat (front gr + of_nat i) = unat (front gr) + i"
      using d(1) i30 by (simp add: unat_word_ariths unsigned_of_nat take_bit_nat_eq_self)
    then show ?thesis using False by (simp add: f_def unat_mod)
  qed (use d(1) in \<open>simp add: f_def\<close>)
  have sc: "qfq_slot_scan gr = (slots gr (unat f), gr')"
    using nz(1) i(1) by (cases "i = 0") (simp_all add: qfq_slot_scan_def f_def gr'_def QFQ_MAX_SLOTS_def)
  have ch: "pkt_chain nxt (slots gr ((unat f + p) mod 32)) (L (p + i))" if "p < 32" for p
  proof (cases "p + i < 32")
    case True
    then show ?thesis using d(2) [OF True] by (simp add: f mod_simps algebra_simps)
  next
    case False
    then have "L (p + i) = []" using d(4) by force
    moreover define w where "w = p + i - 32"
    have w: "w < i" "p + i = w + 32" using False that by (simp_all add: w_def)
    then have "pkt_chain nxt (slots gr ((unat (front gr) + w) mod 32)) []"
      using d(2) [of w] i(3) i30 by simp
    moreover have "(unat f + p) mod 32 = (unat (front gr) + w) mod 32"
      by (simp add: f mod_simps add.assoc) (use w in \<open>simp add: add.commute [of i p] flip: add.assoc\<close>)
    ultimately show ?thesis by simp
  qed
  have r': "ring_rep nxt gr' (\<lambda>p. L (p + i))"
    using ch f d(3,4) by (auto simp: ring_rep_def gr'_def bit_drop_bit_eq add.commute) fastforce
  have "slots gr (unat f) = Some x" using ring_front [OF r'] x by (simp add: gr'_def)
  then have "qfq_slot_scan gr = (Some x, gr')" using sc by simp
  then show ?thesis
    using x i(3) r' by (intro exI [of _ i] exI [of _ gr'] exI [of _ x] exI [of _ xs] conjI) (auto simp: gr'_def)
qed

lemma scan_empty: "full_slots gr = 0 \<Longrightarrow> qfq_slot_scan gr = (None, gr)"
  by (simp add: qfq_slot_scan_def)

text \<open>Rotating makes room for \<open>i\<close> earlier slots.\<close>

lemma ring_rotate:
  assumes r: "ring_rep nxt gr L" and i: "i \<le> 30" and room: "\<And>p. L p \<noteq> [] \<Longrightarrow> p + i \<le> 30"
    and S: "unat (ucast (drop_bit (slot_shift gr) (qg_S gr - roundedS)) :: u32) = i"
  shows "\<exists>gr'. qfq_slot_rotate roundedS gr = Some gr' \<and> ring_rep nxt gr' (\<lambda>p. if p < i then [] else L (p - i)) \<and>
    (\<exists>f b. gr' = gr\<lparr>front := f, full_slots := b\<rparr>)"
proof -
  note d = ring_repD [OF r]
  define w where "w = (ucast (drop_bit (slot_shift gr) (qg_S gr - roundedS)) :: u32)"
  have w: "w = of_nat i" using S by (metis w_def of_nat_unat ucast_id)
  define f where "f = (front gr - w) mod 32"
  define gr' where "gr' = gr\<lparr>full_slots := push_bit i (full_slots gr), front := f\<rparr>"
  have sc: "qfq_slot_rotate roundedS gr = Some gr'"
    using i S by (simp add: qfq_slot_rotate_def gr'_def f_def w_def [symmetric] Let_def QFQ_MAX_SLOTS_def)
  have f: "(unat f + i) mod 32 = unat (front gr)"
  proof -
    have "unat (x + of_nat i :: u32) = (unat x + i) mod 2 ^ 32" for x
      by (simp add: unat_word_ariths unsigned_of_nat take_bit_eq_mod mod_simps)
    from this [of "front gr - w"] have "unat (front gr) = (unat (front gr - w) + i) mod 2 ^ 32" by (simp add: w)
    then have "unat (front gr) mod 32 = (unat (front gr - w) + i) mod 2 ^ 32 mod 32" by simp
    also have "\<dots> = (unat (front gr - w) + i) mod 32" by (rule mod_mod_cancel) simp
    finally show ?thesis using d(1) by (simp add: f_def unat_mod mod_simps)
  qed
  have ch: "pkt_chain nxt (slots gr ((unat f + p) mod 32)) (if p < i then [] else L (p - i))" if p: "p < 32" for p
  proof (cases "p < i")
    case True
    define s where "s = p + 32 - i"
    have s: "s < 32" "s + i = p + 32" "30 < s + i" using True i p by (simp_all add: s_def)
    then have "L s = []" using room [of s] by fastforce
    moreover have "(unat (front gr) + s) mod 32 = (unat f + p) mod 32"
    proof -
      have "(unat (front gr) + s) mod 32 = (unat f + i + s) mod 32" by (simp add: f [symmetric] mod_simps)
      also have "unat f + i + s = unat f + p + 32" using s(2) by simp
      finally show ?thesis by simp
    qed
    ultimately show ?thesis using d(2) [OF s(1)] True by simp
  next
    case False
    have "(unat (front gr) + (p - i)) mod 32 = (unat f + p) mod 32"
    proof -
      have "(unat (front gr) + (p - i)) mod 32 = (unat f + i + (p - i)) mod 32" by (simp only: f [symmetric] mod_simps)
      also have "unat f + i + (p - i) = unat f + p" using False by simp
      finally show ?thesis .
    qed
    then show ?thesis using False d(2) [of "p - i"] p by simp
  qed
  have "unat f < 32" by (simp add: f_def unat_mod)
  then have "ring_rep nxt gr' (\<lambda>p. if p < i then [] else L (p - i))"
    using ch d(3) room by (auto simp: ring_rep_def gr'_def bit_push_bit_iff possible_bit_def) fastforce+
  with sc show ?thesis by (intro exI [of _ gr'] exI [of _ f] exI [of _ "push_bit i (full_slots gr)"] conjI) (auto simp: gr'_def)
qed

end
