(* ===== verification/QfqGroups.thy ===== *)
theory QfqGroups
  imports QfqSlots
begin

text \<open>
  The groups of a QFQ instance as a state machine: every group with packets is in exactly one of
  the four states, and the bitmaps are this function from groups to states. What the operations
  on the bitmaps do to it, and the invariants that make the scheduler work-conserving.
\<close>

section \<open>States and bitmaps\<close>

lemma state_facts [simp]:
  "ER < 4" "IR < 4" "EB < 4" "IB < 4" "ER \<noteq> IR" "ER \<noteq> EB" "ER \<noteq> IB" "IR \<noteq> ER" "IR \<noteq> EB" "IR \<noteq> IB"
  "EB \<noteq> ER" "EB \<noteq> IR" "EB \<noteq> IB" "IB \<noteq> ER" "IB \<noteq> IR" "IB \<noteq> EB"
  by (simp_all add: qfq_state_defs)

definition bm_rep :: "(nat \<Rightarrow> nat option) \<Rightarrow> (nat \<Rightarrow> bitmap) \<Rightarrow> bool" where
  "bm_rep st b \<longleftrightarrow> (\<forall>s<4. \<forall>g. bit (b s) g \<longleftrightarrow> st g = Some s) \<and> dom st \<subseteq> {..19} \<and> ran st \<subseteq> {..<4}"

definition moved :: "bitmap \<Rightarrow> nat \<Rightarrow> nat \<Rightarrow> (nat \<Rightarrow> nat option) \<Rightarrow> nat \<Rightarrow> nat option" where
  "moved msk src dst st = (\<lambda>g. if bit msk g \<and> st g = Some src then Some dst else st g)"

lemma bm_repD:
  assumes "bm_rep st b"
  shows "s < 4 \<Longrightarrow> bit (b s) g \<longleftrightarrow> st g = Some s" "st g = Some s \<Longrightarrow> g \<le> 19" "st g = Some s \<Longrightarrow> s < 4"
  using assms by (auto simp: bm_rep_def dom_def ran_def)

lemma bm_rep_empty: "bm_rep st b \<Longrightarrow> s < 4 \<Longrightarrow> b s = 0 \<longleftrightarrow> (\<forall>g. st g \<noteq> Some s)"
proof
  assume r: "bm_rep st b" "s < 4" and "\<forall>g. st g \<noteq> Some s"
  then have "\<not> bit (b s) g" for g using bm_repD(1) [OF r] by simp
  then show "b s = 0" by (simp add: bit_eq_iff)
next
  assume r: "bm_rep st b" "s < 4" and "b s = 0"
  then show "\<forall>g. st g \<noteq> Some s" using bm_repD(1) [OF r] by (metis bit_0_eq bot_apply bot_bool_def)
qed

lemma move_rep:
  assumes r: "bm_rep st (bitmaps q)" and s: "src < 4" "dst < 4" "src \<noteq> dst"
  shows "\<exists>b. qfq_move_groups msk src dst q = q\<lparr>bitmaps := b\<rparr> \<and> bm_rep (moved msk src dst st) b"
proof -
  define b where "b = (bitmaps q)(dst := bitmaps q dst OR (bitmaps q src AND msk), src := bitmaps q src AND NOT msk)"
  have q: "qfq_move_groups msk src dst q = q\<lparr>bitmaps := b\<rparr>"
    using s(3) by (simp add: qfq_move_groups_def upd_bm_def b_def Let_def)
  note d = bm_repD [OF r]
  have "bit (b t) g \<longleftrightarrow> moved msk src dst st g = Some t" if t: "t < 4" for t g
    using d(1) [OF t, of g] d(1) [OF s(1), of g] d(1) [OF s(2), of g] d(2) [of g src] s(3)
    by (auto simp: b_def moved_def bit_or_iff bit_and_iff bit_not_iff possible_bit_def)
  moreover have "dom (moved msk src dst st) \<subseteq> {..19}" using d(2) by (auto simp: moved_def dom_def split: if_splits)
  moreover have "ran (moved msk src dst st) \<subseteq> {..<4}" using d(3) s by (auto simp: moved_def ran_def split: if_splits)
  ultimately show ?thesis using q by (auto simp: bm_rep_def)
qed

lemma move2_rep:
  assumes r: "bm_rep st (bitmaps q)" and s: "s1 < 4" "d1 < 4" "s1 \<noteq> d1" "s2 < 4" "d2 < 4" "s2 \<noteq> d2"
  shows "\<exists>b. qfq_move_groups msk s2 d2 (qfq_move_groups msk s1 d1 q) = q\<lparr>bitmaps := b\<rparr> \<and>
    bm_rep (moved msk s2 d2 (moved msk s1 d1 st)) b"
proof -
  obtain b1 where b1: "qfq_move_groups msk s1 d1 q = q\<lparr>bitmaps := b1\<rparr>" "bm_rep (moved msk s1 d1 st) b1"
    using move_rep [OF r s(1-3)] by blast
  then have "bm_rep (moved msk s1 d1 st) (bitmaps (q\<lparr>bitmaps := b1\<rparr>))" by simp
  from move_rep [OF this s(4-6)] obtain b2 where
    "qfq_move_groups msk s2 d2 (q\<lparr>bitmaps := b1\<rparr>) = q\<lparr>bitmaps := b1, bitmaps := b2\<rparr>"
    "bm_rep (moved msk s2 d2 (moved msk s1 d1 st)) b2" by blast
  then show ?thesis unfolding b1(1) by (intro exI [of _ b2]) simp
qed

lemma bm_set_rep:
  assumes r: "bm_rep st b" and g: "g \<le> 19" "s < 4" "st g = None \<or> st g = Some s"
  shows "\<exists>c. bm_set g (b s) = Some c \<and> bm_rep (st(g := Some s)) (b(s := c))"
proof -
  have "bm_set g (b s) = Some (Bit_Operations.set_bit g (b s))" using g by (intro bm_set_eq) simp
  moreover have "bm_rep (st(g := Some s)) (b(s := Bit_Operations.set_bit g (b s)))"
    using r g by (auto simp: bm_rep_def bit_set_bit_iff possible_bit_def ran_def dom_def)
  ultimately show ?thesis by blast
qed

lemma bm_clear_rep:
  assumes r: "bm_rep st b" and g: "g \<le> 19" "s < 4"
  shows "\<exists>c. bm_clear g (b s) = Some c \<and> bm_rep (if st g = Some s then st(g := None) else st) (b(s := c))"
proof -
  have "bm_clear g (b s) = Some (unset_bit g (b s))" using g by (intro bm_clear_eq) simp
  moreover have "bm_rep (if st g = Some s then st(g := None) else st) (b(s := unset_bit g (b s)))"
    using r g by (auto simp: bm_rep_def bit_unset_bit_iff ran_def dom_def)
  ultimately show ?thesis by blast
qed

lemma mask_from_ffs:
  assumes r: "bm_rep st b" and ne: "mask_from (b ER) k \<noteq> 0" and k: "k < 64"
  shows "\<exists>n. qfq_ffs (mask_from (b ER) k) = Some n \<and> st n = Some ER \<and> k \<le> n \<and> (\<forall>h\<ge>k. st h = Some ER \<longrightarrow> n \<le> h)"
proof -
  have bt: "bit (mask_from (b ER) k) h \<longleftrightarrow> st h = Some ER \<and> k \<le> h" for h
    using bm_repD(1) [OF r, of ER] k by (simp add: bit_mask_from ER_def)
  with qfq_ffs_least [OF ne] bm_repD(2) [OF r] show ?thesis by blast
qed

lemma calc_state_law:
  assumes r: "bm_rep st (bitmaps q)" and g: "g \<le> 19" "qg_index (groups q g) = g"
  shows "\<exists>s<4. qfq_calc_state q g = Some s \<and> (odd s \<longleftrightarrow> qfq_gt (qg_S (groups q g)) (qf_V q)) \<and>
    (2 \<le> s \<longleftrightarrow> (\<exists>n. st n = Some ER \<and> g \<le> n \<and> (\<forall>h\<ge>g. st h = Some ER \<longrightarrow> n \<le> h) \<and>
       qfq_gt (qg_F (groups q g)) (qg_F (groups q n))))"
proof (cases "mask_from (bitmaps q ER) g = 0")
  case True
  then have "\<not> bit (mask_from (bitmaps q ER) g) h" for h by simp
  then have "\<not> (st h = Some ER \<and> g \<le> h)" for h
    using g bm_repD(1) [OF r, of ER] by (simp add: bit_mask_from ER_def)
  with True g(2) show ?thesis
    by (intro exI [of _ "of_bool (qfq_gt (qg_S (groups q g)) (qf_V q))"]) (auto simp: qfq_calc_state_def)
next
  case False
  obtain n where n: "qfq_ffs (mask_from (bitmaps q ER) g) = Some n" "st n = Some ER" "g \<le> n"
    "\<forall>h\<ge>g. st h = Some ER \<longrightarrow> n \<le> h" using mask_from_ffs [OF r False] g(1) by auto
  have uniq: "m = n" if "st m = Some ER" "g \<le> m" "\<forall>h\<ge>g. st h = Some ER \<longrightarrow> m \<le> h" for m
    using n that by (meson le_antisym)
  define gt where "gt \<longleftrightarrow> qfq_gt (qg_S (groups q g)) (qf_V q)"
  define bl where "bl \<longleftrightarrow> qfq_gt (qg_F (groups q g)) (qg_F (groups q n))"
  have c: "qfq_calc_state q g = Some (of_bool gt + 2 * of_bool bl)"
    using False g(2) n(1) by (cases bl; cases gt; simp add: qfq_calc_state_def Let_def gt_def bl_def EB_def)
  have "(\<exists>n. st n = Some ER \<and> g \<le> n \<and> (\<forall>h\<ge>g. st h = Some ER \<longrightarrow> n \<le> h) \<and>
      qfq_gt (qg_F (groups q g)) (qg_F (groups q n))) \<longleftrightarrow> bl"
    using n(2-4) uniq unfolding bl_def by blast
  with c show ?thesis
    by (intro exI [of _ "of_bool gt + 2 * of_bool bl"]) (simp add: gt_def [symmetric] of_bool_def)
qed

section \<open>Blocked and ready groups\<close>

text \<open>A blocked group is below an eligible ready one; when a group has packets some group is eligible and ready.\<close>

definition qfq_blocked_ok :: "(nat \<Rightarrow> nat option) \<Rightarrow> bool" where
  "qfq_blocked_ok st \<longleftrightarrow> (\<forall>g. st g = Some EB \<or> st g = Some IB \<longrightarrow> (\<exists>h>g. st h = Some ER))"

definition qfq_work_ok :: "(nat \<Rightarrow> nat option) \<Rightarrow> bool" where
  "qfq_work_ok st \<longleftrightarrow> (\<forall>g. st g \<noteq> None \<longrightarrow> (\<exists>h. st h = Some ER))"

definition unblocked :: "nat \<Rightarrow> (nat \<Rightarrow> nat option) \<Rightarrow> nat \<Rightarrow> nat option" where
  "unblocked k st = (\<lambda>g. if g < k \<and> st g = Some EB then Some ER else if g < k \<and> st g = Some IB then Some IR else st g)"

lemma unblock_law:
  assumes r: "bm_rep st (bitmaps q)" and k: "k \<le> 19"
  shows "\<exists>b st'. qfq_unblock_groups k old_F q = Some (q\<lparr>bitmaps := b\<rparr>) \<and> bm_rep st' b \<and>
    (st' = st \<and> (\<exists>h>k. st h = Some ER) \<or> st' = unblocked k st)"
proof -
  define mv where "mv = qfq_move_groups (push_bit k 1 - 1) IB IR (qfq_move_groups (push_bit k 1 - 1) EB ER q)"
  obtain b2 where b2: "mv = q\<lparr>bitmaps := b2\<rparr>"
    "bm_rep (moved (push_bit k 1 - 1) IB IR (moved (push_bit k 1 - 1) EB ER st)) b2"
    using move2_rep [OF r, of EB ER IB IR] unfolding mv_def by auto
  have "moved (push_bit k 1 - 1) IB IR (moved (push_bit k 1 - 1) EB ER st) = unblocked k st"
  proof (rule ext)
    fix g
    have "bit (push_bit k 1 - 1 :: bitmap) g \<longleftrightarrow> g < k" unfolding low_ones using k by (auto simp: bit_mask_iff)
    then show "moved (push_bit k 1 - 1) IB IR (moved (push_bit k 1 - 1) EB ER st) g = unblocked k st g"
      by (simp add: moved_def unblocked_def)
  qed
  with b2 have mv: "mv = q\<lparr>bitmaps := b2\<rparr>" "bm_rep (unblocked k st) b2" by simp_all
  show ?thesis
  proof (cases "mask_from (bitmaps q ER) (Suc k) = 0")
    case True
    then have "qfq_unblock_groups k old_F q = Some mv" by (simp add: qfq_unblock_groups_def Let_def mv_def)
    then have "qfq_unblock_groups k old_F q = Some (q\<lparr>bitmaps := b2\<rparr>)" using mv(1) by simp
    with mv(2) show ?thesis by blast
  next
    case False
    obtain n where n: "qfq_ffs (mask_from (bitmaps q ER) (Suc k)) = Some n" "st n = Some ER" "Suc k \<le> n"
      using mask_from_ffs [OF r False] k by auto
    then have u: "qfq_unblock_groups k old_F q = Some (if \<not> qfq_gt (qg_F (groups q n)) old_F then q else mv)"
      using False by (simp add: qfq_unblock_groups_def Let_def mv_def)
    have h: "\<exists>h>k. st h = Some ER" using n(2,3) by (intro exI [of _ n]) simp
    show ?thesis
    proof (cases "qfq_gt (qg_F (groups q n)) old_F")
      case True
      then have "qfq_unblock_groups k old_F q = Some (q\<lparr>bitmaps := b2\<rparr>)" using u mv(1) by simp
      with mv(2) show ?thesis by blast
    next
      case no: False
      then have "qfq_unblock_groups k old_F q = Some (q\<lparr>bitmaps := bitmaps q\<rparr>)" using u by simp
      with r h show ?thesis by blast
    qed
  qed
qed

text \<open>The groups whose slot boundary is crossed become eligible.\<close>

definition crossed :: "u64 \<Rightarrow> nat \<Rightarrow> (nat \<Rightarrow> nat option) \<Rightarrow> nat \<Rightarrow> nat option" where
  "crossed V d st = (\<lambda>g. if 0 < qfq_cross (22 + g) V d then
     (if st g = Some IR then Some ER else if st g = Some IB then Some EB else st g) else st g)"

lemma cross_lower:
  assumes "0 < qfq_cross k V d" "j \<le> k" 
  shows "0 < qfq_cross j V d"
proof -
  have dv: "(2::nat) ^ j dvd 2 ^ k" by (rule le_imp_power_dvd [OF assms(2)])
  have "2 ^ k \<le> unat V mod 2 ^ k + d" using assms(1) by (simp add: qfq_cross_def div_greater_zero_iff)
  moreover define r where "r = unat V mod 2 ^ k"
  moreover have "r < 2 ^ k" by (simp add: r_def)
  moreover have rj: "unat V mod 2 ^ j = r mod 2 ^ j" unfolding r_def using dv by (simp add: mod_mod_cancel)
  ultimately have d: "2 ^ k - r \<le> d" "r < 2 ^ k" by simp_all
  have "2 ^ j dvd 2 ^ k - (r - r mod 2 ^ j)"
    by (rule dvd_diff_nat [OF dv]) (simp add: minus_mod_eq_mult_div)
  moreover have "0 < 2 ^ k - (r - r mod 2 ^ j)" using d(2) by simp
  ultimately have "2 ^ j \<le> 2 ^ k - (r - r mod 2 ^ j)" by (rule dvd_imp_le)
  then have "2 ^ j \<le> r mod 2 ^ j + d" using d mod_less_eq_dividend [of r "2 ^ j"] by linarith
  then show ?thesis by (simp add: qfq_cross_def rj div_greater_zero_iff)
qed

lemma make_eligible_law:
  assumes r: "bm_rep st (bitmaps q)" and V: "qf_V q = V + of_nat d" and d: "d < 2 ^ 53"
  shows "\<exists>b. qfq_make_eligible V q = Some (q\<lparr>bitmaps := b\<rparr>) \<and> bm_rep (crossed V d st) b"
proof (cases "drop_bit 22 (V + of_nat d) = drop_bit 22 V")
  case True
  then have "\<not> 0 < qfq_cross 22 V d" using slots_differ [OF d, of V] by simp
  then have "\<not> 0 < qfq_cross (22 + g) V d" for g using cross_lower [of "22 + g" V d 22] by auto
  then have "crossed V d st = st" by (simp add: crossed_def)
  moreover have "qfq_make_eligible V q = Some (q\<lparr>bitmaps := bitmaps q\<rparr>)"
    using True by (simp add: qfq_make_eligible_def V QFQ_MIN_SLOT_SHIFT_def qfq_consts)
  ultimately show ?thesis using r by metis
next
  case False
  obtain n where n: "fls_long (drop_bit 22 (V + of_nat d) XOR drop_bit 22 V) = int n"
    "\<forall>g\<le>19. bit (push_bit n 2 - 1 :: bitmap) g \<longleftrightarrow> 0 < qfq_cross (22 + g) V d"
    using crossed_mask [OF d False] by blast
  define msk :: bitmap where "msk = push_bit n 2 - 1"
  obtain b2 where
    b2: "qfq_move_groups msk IB EB (qfq_move_groups msk IR ER q) = q\<lparr>bitmaps := b2\<rparr>"
      "bm_rep (moved msk IB EB (moved msk IR ER st)) b2"
    using move2_rep [OF r, of IR ER IB EB] by auto
  have "moved msk IB EB (moved msk IR ER st) g = crossed V d st g" for g
  proof (cases "g \<le> 19")
    case True
    then have "bit msk g \<longleftrightarrow> 0 < qfq_cross (22 + g) V d" using n(2) by (simp only: msk_def)
    then show ?thesis by (auto simp: moved_def crossed_def qfq_state_defs)
  next
    case no: False
    then have "st g = None" using bm_repD(2) [OF r, of g] by (cases "st g") auto
    then show ?thesis by (simp add: moved_def crossed_def)
  qed
  then have "moved msk IB EB (moved msk IR ER st) = crossed V d st" ..
  moreover have "qfq_make_eligible V q = Some (q\<lparr>bitmaps := b2\<rparr>)"
    using False n(1) by (simp add: qfq_make_eligible_def V QFQ_MIN_SLOT_SHIFT_def qfq_consts Let_def
        msk_def [symmetric] b2(1) [symmetric])
  ultimately show ?thesis using b2(2) by metis
qed


section \<open>Timestamps of the groups\<close>

text \<open>
  The static fields of a group and the timestamps of one in state \<open>s\<close>: \<open>n\<close> slots behind the
  boundary after \<open>V\<close>, ineligible exactly when \<open>n = 0\<close>, no queue after that boundary.
\<close>

definition grp_static :: "nat \<Rightarrow> qfq_group \<Rightarrow> bool" where
  "grp_static g gr \<longleftrightarrow> qg_index gr = g \<and> slot_shift gr = 22 + g"

definition grp_at :: "nat \<Rightarrow> u64 \<Rightarrow> nat \<Rightarrow> qfq_group \<Rightarrow> bool" where
  "grp_at g V n gr \<longleftrightarrow> bit (full_slots gr) 0 \<and> qg_F gr = qg_S gr + push_bit (22 + g) 2 \<and> at_gap (22 + g) V (qg_S gr) n \<and>
     (\<forall>p. bit (full_slots gr) p \<longrightarrow> p \<le> n)"

definition grp_ok :: "u64 \<Rightarrow> nat \<Rightarrow> qfq_group \<Rightarrow> nat option \<Rightarrow> bool" where
  "grp_ok V g gr s \<longleftrightarrow> grp_static g gr \<and>
     (case s of None \<Rightarrow> full_slots gr = 0 | Some t \<Rightarrow> \<exists>n\<le>2 ^ 20. grp_at g V n gr \<and> (odd t \<longleftrightarrow> n = 0))"

text \<open>The same between the change of \<open>V\<close> by \<open>d\<close> and the move of the groups that became eligible.\<close>

definition grp_pre :: "u64 \<Rightarrow> nat \<Rightarrow> nat \<Rightarrow> qfq_group \<Rightarrow> nat option \<Rightarrow> bool" where
  "grp_pre V d g gr s \<longleftrightarrow> grp_static g gr \<and>
     (case s of None \<Rightarrow> full_slots gr = 0
      | Some t \<Rightarrow> \<exists>n\<le>2 ^ 18. grp_at g V n gr \<and> (odd t \<longrightarrow> n = 0) \<and> (even t \<longrightarrow> 0 < n + qfq_cross (22 + g) V d))"

lemma cross_bound: "d \<le> 2 ^ 41 \<Longrightarrow> qfq_cross (22 + g) V d \<le> 2 ^ 19 + 1"
proof -
  assume d: "d \<le> 2 ^ 41"
  have "d div 2 ^ (22 + g) \<le> d div 2 ^ 22" by (intro div_le_mono2 power_increasing) simp_all
  also have "\<dots> \<le> 2 ^ 41 div 2 ^ 22" using d by (rule div_le_mono)
  finally show ?thesis using qfq_cross_le [of "22 + g" V d] by simp
qed

lemma grp_at_add:
  "g \<le> 19 \<Longrightarrow> grp_at g V n gr \<Longrightarrow> grp_at g (V + of_nat d) (n + qfq_cross (22 + g) V d) gr"
  by (auto simp: grp_at_def at_gap_add)

lemma state_odd [simp]: "odd IR" "odd IB" "even ER" "even EB"
  by (simp_all add: qfq_state_defs)

lemma state_cases: "s < 4 \<Longrightarrow> s = ER \<or> s = IR \<or> s = EB \<or> s = IB"
  by (auto simp: qfq_state_defs)

lemma crossed_ok:
  assumes g: "g \<le> 19" and pre: "grp_pre V d g gr (st g)" and d: "d \<le> 2 ^ 41" and lt: "\<And>s. st g = Some s \<Longrightarrow> s < 4"
  shows "grp_ok (V + of_nat d) g gr (crossed V d st g)"
proof (cases "st g")
  case None
  with pre show ?thesis by (simp add: grp_pre_def grp_ok_def crossed_def)
next
  case (Some t)
  then obtain n where n: "n \<le> 2 ^ 18" "grp_at g V n gr" "odd t \<longrightarrow> n = 0" "even t \<longrightarrow> 0 < n + qfq_cross (22 + g) V d"
    "grp_static g gr" using pre by (auto simp: grp_pre_def)
  define c where "c = qfq_cross (22 + g) V d"
  have le: "n + c \<le> 2 ^ 20" using n(1) cross_bound [OF d, of g V] by (simp add: c_def)
  note at = grp_at_add [OF g n(2), of d, folded c_def]
  obtain u where u: "crossed V d st g = Some u" "odd u \<longleftrightarrow> n + c = 0"
    using Some n(3,4) state_cases [OF lt [OF Some]] unfolding c_def by (cases "c = 0") (auto simp: crossed_def c_def)
  show ?thesis using u le at n(5) by (auto simp: grp_ok_def)
qed

lemma crossed_dom: "crossed V d st g = None \<longleftrightarrow> st g = None"
  by (auto simp: crossed_def)

lemma crossed_blocked:
  assumes "qfq_blocked_ok st"
  shows "qfq_blocked_ok (crossed V d st)"
  unfolding qfq_blocked_ok_def
proof (intro allI impI)
  fix g assume "crossed V d st g = Some EB \<or> crossed V d st g = Some IB"
  then have "st g = Some EB \<or> st g = Some IB" by (auto simp: crossed_def split: if_splits)
  then obtain h where "h > g" "st h = Some ER" using assms by (auto simp: qfq_blocked_ok_def)
  then show "\<exists>h>g. crossed V d st h = Some ER" by (intro exI [of _ h]) (simp add: crossed_def)
qed

text \<open>The next boundary of a group that is not eligible.\<close>

lemma next_boundary:
  assumes "at_gap k V S 0" "k < 64"
  shows "\<exists>d. S = V + of_nat d \<and> d \<le> 2 ^ k \<and> qfq_cross k V d = 1"
proof -
  define r where "r = unat V mod 2 ^ k"
  have r: "r < 2 ^ k" by (simp add: r_def)
  have "V = qfq_round_down V k + of_nat r" using round_down_split [OF assms(2), of V] by (simp add: r_def)
  moreover have "S = qfq_round_down V k + of_nat (2 ^ k)" using assms(1) by (simp add: at_gap_def)
  moreover have "(of_nat (2 ^ k) :: u64) = of_nat r + of_nat (2 ^ k - r)"
    using r by (simp flip: of_nat_add)
  ultimately have "S = V + of_nat (2 ^ k - r)" by (metis add.assoc)
  moreover have "qfq_cross k V (2 ^ k - r) = 1" using r by (simp add: qfq_cross_def r_def [symmetric])
  ultimately show ?thesis by (intro exI [of _ "2 ^ k - r"]) simp
qed


lemma or_zero_iff: "(a OR b = (0 :: u64)) \<longleftrightarrow> a = 0 \<and> b = 0"
  by (auto simp: bit_eq_iff bit_or_iff)

definition groups_ok :: "qfq_sched \<Rightarrow> (nat \<Rightarrow> nat option) \<Rightarrow> bool" where
  "groups_ok q st \<longleftrightarrow> bm_rep st (bitmaps q) \<and> (\<forall>g\<le>19. grp_ok (qf_V q) g (groups q g) (st g)) \<and>
     qfq_blocked_ok st \<and> qfq_work_ok st"

lemma make_eligible_ok:
  assumes r: "bm_rep st (bitmaps q)" and V: "qf_V q = V + of_nat d" and d: "d \<le> 2 ^ 41"
    and pre: "\<And>g. g \<le> 19 \<Longrightarrow> grp_pre V d g (groups q g) (st g)" and bl: "qfq_blocked_ok st"
    and er: "\<exists>g. st g = Some ER \<or> st g = Some IR \<and> 0 < qfq_cross (22 + g) V d"
  shows "\<exists>b. qfq_make_eligible V q = Some (q\<lparr>bitmaps := b\<rparr>) \<and> groups_ok (q\<lparr>bitmaps := b\<rparr>) (crossed V d st)"
proof -
  obtain b where b: "qfq_make_eligible V q = Some (q\<lparr>bitmaps := b\<rparr>)" "bm_rep (crossed V d st) b"
    using make_eligible_law [OF r V] d by auto
  have "grp_ok (qf_V q) g (groups q g) (crossed V d st g)" if "g \<le> 19" for g
    unfolding V using that d pre [OF that] bm_repD(3) [OF r] by (intro crossed_ok) auto
  moreover obtain g where "st g = Some ER \<or> st g = Some IR \<and> 0 < qfq_cross (22 + g) V d" using er by blast
  then have "crossed V d st g = Some ER" by (auto simp: crossed_def)
  ultimately have "groups_ok (q\<lparr>bitmaps := b\<rparr>) (crossed V d st)"
    using b(2) crossed_blocked [OF bl] by (auto simp: groups_ok_def qfq_work_ok_def)
  with b(1) show ?thesis by blast
qed

text \<open>
  \<open>qfq_update_eligible\<close> after \<open>V\<close> moved on by \<open>d\<close>: the groups are again in the right states, and if
  any has packets one is eligible and ready, with \<open>V\<close> moved to the start of the first one if needed.
\<close>

lemma update_eligible_law:
  assumes r: "bm_rep st (bitmaps q)" and V: "qf_V q = V + of_nat d" and d: "d \<le> 2 ^ 30"
    and pre: "\<And>g. g \<le> 19 \<Longrightarrow> grp_pre V d g (groups q g) (st g)" and bl: "qfq_blocked_ok st"
  shows "\<exists>v b st'. qfq_update_eligible V q = Some (q\<lparr>qf_V := v, bitmaps := b\<rparr>) \<and>
    groups_ok (q\<lparr>qf_V := v, bitmaps := b\<rparr>) st' \<and> (\<forall>g. st' g = None \<longleftrightarrow> st g = None)"
proof -
  have d41: "d \<le> 2 ^ 41" using d by simp
  note em = bm_rep_empty [OF r]
  have inel: "bitmaps q IR OR bitmaps q IB = 0 \<longleftrightarrow> (\<forall>g. st g \<noteq> Some IR \<and> st g \<noteq> Some IB)"
    by (auto simp: or_zero_iff em)
  have cross_even: "crossed V d st g = st g" if "st g \<noteq> Some IR" "st g \<noteq> Some IB" for g
    using that by (simp add: crossed_def)
  note fin = exI [of _ "qf_V q"]
  consider (none) "bitmaps q IR OR bitmaps q IB = 0" | (er) "bitmaps q IR OR bitmaps q IB \<noteq> 0" "bitmaps q ER \<noteq> 0"
    | (jump) "bitmaps q IR OR bitmaps q IB \<noteq> 0" "bitmaps q ER = 0" by blast
  then show ?thesis
  proof cases
    case none
    then have "crossed V d st = st" using inel cross_even by (simp add: fun_eq_iff)
    then have "grp_ok (qf_V q) g (groups q g) (st g)" if "g \<le> 19" for g
      using crossed_ok [where V = V and st = st and d = d and g = g, OF that pre [OF that] d41 bm_repD(3) [OF r]] by (simp add: V)
    moreover have "qfq_work_ok st"
      unfolding qfq_work_ok_def
    proof (intro allI impI)
      fix g assume "st g \<noteq> None"
      then obtain s where s: "st g = Some s" by blast
      with none inel state_cases [OF bm_repD(3) [OF r s]] have "s = ER \<or> s = EB" by auto
      with s bl show "\<exists>h. st h = Some ER" by (auto simp: qfq_blocked_ok_def)
    qed
    moreover have "qfq_update_eligible V q = Some q" using none by (simp add: qfq_update_eligible_def)
    ultimately show ?thesis
      using r bl by (intro exI [of _ "qf_V q"] exI [of _ "bitmaps q"] exI [of _ st]) (simp add: groups_ok_def)
  next
    case er
    then obtain g where "st g = Some ER" using em by auto
    from make_eligible_ok [OF r V d41 pre bl] this obtain b where
      b: "qfq_make_eligible V q = Some (q\<lparr>bitmaps := b\<rparr>)" "groups_ok (q\<lparr>bitmaps := b\<rparr>) (crossed V d st)" by blast
    moreover have "qfq_update_eligible V q = qfq_make_eligible V q"
      using er by (simp add: qfq_update_eligible_def Let_def)
    ultimately show ?thesis
      by (intro exI [of _ "qf_V q"] exI [of _ b] exI [of _ "crossed V d st"]) (simp add: crossed_dom)
  next
    case jump
    have no: "st g \<noteq> Some ER" for g using jump(2) em by simp
    then have nb: "st g \<noteq> Some EB" "st g \<noteq> Some IB" for g using bl by (auto simp: qfq_blocked_ok_def)
    have ineq: "bit (bitmaps q IR OR bitmaps q IB) g \<longleftrightarrow> st g = Some IR" for g
      using bm_repD(1) [OF r, of IR g] bm_repD(1) [OF r, of IB g] nb by (simp add: bit_or_iff)
    obtain g where g: "qfq_ffs (bitmaps q IR OR bitmaps q IB) = Some g" "st g = Some IR" "g \<le> 19"
      using qfq_ffs_least [OF jump(1)] ineq bm_repD(2) [OF r] by metis
    obtain gr where gr: "groups q g = gr" by simp
    have at: "at_gap (22 + g) V (qg_S gr) 0" using pre [OF g(3)] g(2) gr by (auto simp: grp_pre_def grp_at_def)
    have bound: "qfq_cross (22 + g) V d \<le> 2 ^ 20" using cross_bound [OF d41, of g V] by simp
    have gt: "qfq_gt (qg_S gr) (qf_V q) \<longleftrightarrow> qfq_cross (22 + g) V d = 0"
      unfolding V using at_gap_gt [OF at_gap_add [OF _ at, of d] _ ] bound g(3) by simp
    have st: "qfq_update_eligible V q = qfq_make_eligible V (if qfq_gt (qg_S gr) (qf_V q) then q\<lparr>qf_V := qg_S gr\<rparr> else q)"
      using jump g(1) gr by (simp add: qfq_update_eligible_def Let_def)
    show ?thesis
    proof (cases "qfq_gt (qg_S gr) (qf_V q)")
      case False
      then have "0 < qfq_cross (22 + g) V d" using gt by simp
      with make_eligible_ok [OF r V d41 pre bl] g(2) obtain b where
        "qfq_make_eligible V q = Some (q\<lparr>bitmaps := b\<rparr>)" "groups_ok (q\<lparr>bitmaps := b\<rparr>) (crossed V d st)" by blast
      with st False show ?thesis
        by (intro exI [of _ "qf_V q"] exI [of _ b] exI [of _ "crossed V d st"]) (simp add: crossed_dom)
    next
      case True
      define q1 where "q1 = q\<lparr>qf_V := qg_S gr\<rparr>"
      obtain d1 where d1: "qg_S gr = V + of_nat d1" "d1 \<le> 2 ^ (22 + g)" "qfq_cross (22 + g) V d1 = 1"
        using next_boundary [OF at] g(3) by auto
      have "(2::nat) ^ (22 + g) \<le> 2 ^ 41" using g(3) by (intro power_increasing) simp_all
      then have d1': "d1 \<le> 2 ^ 41" using d1(2) by simp
      have V1: "qf_V q1 = V + of_nat d1" and r1: "bm_rep st (bitmaps q1)" using r d1(1) by (simp_all add: q1_def)
      have "grp_pre V d1 h (groups q1 h) (st h)" if "h \<le> 19" for h
      proof (cases "st h")
        case None
        with pre [OF that] show ?thesis by (simp add: grp_pre_def q1_def)
      next
        case (Some t)
        then have "t = IR" using state_cases [OF bm_repD(3) [OF r Some]] no nb by auto
        with Some pre [OF that] show ?thesis by (simp add: grp_pre_def q1_def)
      qed
      from make_eligible_ok [OF r1 V1 d1' this bl] g(2) d1(3) obtain b where
        "qfq_make_eligible V q1 = Some (q1\<lparr>bitmaps := b\<rparr>)" "groups_ok (q1\<lparr>bitmaps := b\<rparr>) (crossed V d1 st)" by force
      with st True show ?thesis
        by (intro exI [of _ "qg_S gr"] exI [of _ b] exI [of _ "crossed V d1 st"]) (simp add: crossed_dom q1_def)
    qed
  qed
qed

end
