(* ===== verification/QfqOk.thy ===== *)
theory QfqOk
  imports QfqGroups
begin

text \<open>
  The invariant of a QFQ instance and its preservation by \<open>qfq_enqueue\<close> and \<open>qfq_dequeue\<close>, under the
  condition that the groups are not too far behind the virtual time. A request then always returns,
  with a packet whenever a queue has one.
\<close>

section \<open>The environment\<close>

lemma upd_qfq_simps [simp]:
  "qfs (upd_qf i f e) = (qfs e)(i := f (qfs e i))" "qcl (upd_qf i f e) = qcl e" "qs (upd_qf i f e) = qs e"
  "freed (upd_qf i f e) = freed e" "fsks (upd_qf i f e) = fsks e"
  "qcl (upd_qc c h e) = (qcl e)(c := h (qcl e c))" "qfs (upd_qc c h e) = qfs e" "qs (upd_qc c h e) = qs e"
  "freed (upd_qc c h e) = freed e" "fsks (upd_qc c h e) = fsks e"
  by (simp_all add: upd_qf_def upd_qc_def)

lemma upd_qg_simps [simp]:
  "groups (upd_qg g f q) = (groups q)(g := f (groups q g))" "bitmaps (upd_qg g f q) = bitmaps q"
  "qf_V (upd_qg g f q) = qf_V q" "qf_wsum (upd_qg g f q) = qf_wsum q"
  "groups (upd_bm s h q) = groups q" "bitmaps (upd_bm s h q) = (bitmaps q)(s := h (bitmaps q s))"
  "qf_V (upd_bm s h q) = qf_V q" "qf_wsum (upd_bm s h q) = qf_wsum q"
  by (simp_all add: upd_qg_def upd_bm_def)

abbreviation qnext :: "'x qfq_env_scheme \<Rightarrow> qid \<Rightarrow> qid option" where
  "qnext e \<equiv> \<lambda>c. qc_next (qcl e c)"

abbreviation qgroup :: "siid \<Rightarrow> 'x qfq_env_scheme \<Rightarrow> nat \<Rightarrow> qfq_group" where
  "qgroup i e g \<equiv> groups (qfs e i) g"

lemma queue_step_qfq:
  assumes "queue_step q xs fr e e'"
  shows "qfs e' = qfs e" "qcl e' = qcl e"
  using assms unfolding queue_step_def by (cases e; cases e'; simp)+

section \<open>Slot operations in the environment\<close>

lemma slot_number:
  assumes "p \<le> 30" "k \<le> 41"
  shows "drop_bit k (of_nat (p * 2 ^ k) :: u64) = of_nat p" "p * 2 ^ k < 2 ^ 64"
proof -
  have "(2::nat) ^ k \<le> 2 ^ 41" by (rule power_increasing [OF assms(2)]) simp
  then have "p * 2 ^ k \<le> 30 * 2 ^ 41" by (rule mult_le_mono [OF assms(1)])
  then show lt: "p * 2 ^ k < 2 ^ 64" by simp
  then have "unat (of_nat (p * 2 ^ k) :: u64) = p * 2 ^ k"
    by (simp add: unsigned_of_nat take_bit_nat_eq_self del: of_nat_mult)
  moreover have "unat (of_nat p :: u64) = p" using assms(1) by (simp add: unsigned_of_nat take_bit_nat_eq_self)
  ultimately show "drop_bit k (of_nat (p * 2 ^ k) :: u64) = of_nat p"
    unfolding word_unat_eq_iff drop_bit_eq_div unat_div using assms(2) by (simp add: unat_pow64)
qed

lemma slot_insert_law:
  assumes r: "ring_rep (qnext e) (qgroup i e g) Lg" and sh: "slot_shift (qgroup i e g) = 22 + g" "g \<le> 19"
    and p: "p \<le> 30" and S: "roundedS = qg_S (qgroup i e g) + of_nat (p * 2 ^ (22 + g))"
    and new: "\<And>s. c \<notin> set (Lg s)"
  shows "\<exists>nx a gr'. qfq_slot_insert i g c roundedS e =
      Some (upd_qf i (upd_qg g (\<lambda>_. gr')) (upd_qc c (\<lambda>r. r\<lparr>qc_next := nx\<rparr>) e)) \<and>
    ring_rep ((qnext e)(c := nx)) gr' (Lg(p := c # Lg p)) \<and>
    gr' = (qgroup i e g)\<lparr>slots := a, full_slots := Bit_Operations.set_bit p (full_slots (qgroup i e g))\<rparr>"
proof -
  define gr where "gr = qgroup i e g"
  define j where "j = (unat (front gr) + p) mod 32"
  define gr' where "gr' = gr\<lparr>slots := (slots gr)(j := Some c), full_slots := Bit_Operations.set_bit p (full_slots gr)\<rparr>"
  have slot: "drop_bit (slot_shift gr) (roundedS - qg_S gr) = of_nat p"
    using slot_number(1) [OF p, of "22 + g"] sh S by (simp add: gr_def)
  have up: "unat (of_nat p :: u64) = p" using p by (simp add: unsigned_of_nat take_bit_nat_eq_self)
  have fr: "unat (front gr) < 32" using ring_repD(1) [OF r] by (simp add: gr_def)
  have "unat ((ucast (front gr) + of_nat p) mod 32 :: u64) = j"
  proof -
    have "unat (ucast (front gr) + of_nat p :: u64) = unat (front gr) + p"
      using fr p up by (simp add: unat_word_ariths unsigned_ucast_eq take_bit_nat_eq_self)
    then show ?thesis by (simp add: j_def unat_mod)
  qed
  then have "qfq_slot_insert i g c roundedS e =
      Some (upd_qf i (upd_qg g (\<lambda>_. gr')) (upd_qc c (\<lambda>r. r\<lparr>qc_next := slots gr j\<rparr>) e))"
    using p up by (simp add: qfq_slot_insert_def Let_def gr_def [symmetric] slot QFQ_MAX_SLOTS_def bm_set_eq)
      (simp add: upd_qf_def upd_qg_def gr'_def gr_def fun_eq_iff upd_qc_def)
  moreover have "ring_rep ((qnext e)(c := slots gr j)) gr' (Lg(p := c # Lg p))"
    using ring_insert [OF r p new] by (simp add: gr'_def j_def gr_def)
  ultimately show ?thesis unfolding gr_def [symmetric]
    by (intro exI [of _ "slots gr j"] exI [of _ "(slots gr)(j := Some c)"] exI [of _ gr'] conjI) (auto simp: gr'_def)
qed

lemma front_remove_law:
  assumes r: "ring_rep (qnext e) (qgroup i e g) Lg" and c: "Lg 0 = c # cs"
  shows "\<exists>a b gr'. qfq_front_slot_remove i g e = Some (upd_qf i (upd_qg g (\<lambda>_. gr')) e) \<and>
    ring_rep (qnext e) gr' (Lg(0 := cs)) \<and> gr' = (qgroup i e g)\<lparr>slots := a, full_slots := b\<rparr>"
proof -
  define gr where "gr = qgroup i e g"
  note rm = ring_remove [OF r c, folded gr_def]
  define b where "b = (if cs = [] then unset_bit 0 (full_slots gr) else full_slots gr)"
  define gr' where "gr' = gr\<lparr>slots := (slots gr)(unat (front gr) := qnext e c), full_slots := b\<rparr>"
  have "qfq_front_slot_remove i g e = Some (upd_qf i (upd_qg g (\<lambda>_. gr')) e)"
    using rm(1,2) by (auto simp: qfq_front_slot_remove_def Let_def gr_def [symmetric] bm_clear_eq b_def gr'_def)
      (simp_all add: upd_qf_def upd_qg_def gr'_def gr_def)
  moreover have "ring_rep (qnext e) gr' (Lg(0 := cs))" using rm(3) by (simp add: gr'_def b_def)
  ultimately show ?thesis unfolding gr_def [symmetric]
    by (intro exI [of _ "(slots gr)(unat (front gr) := qnext e c)"] exI [of _ b] exI [of _ gr'] conjI) (auto simp: gr'_def)
qed


section \<open>Updating the group that was served\<close>

lemma blocked_after:
  assumes bl: "qfq_blocked_ok st" and g: "st g = Some ER"
    and s: "s = Some EB \<or> s = Some IB \<Longrightarrow> \<exists>h>g. st h = Some ER"
    and st': "st' = st(g := s) \<and> (\<exists>h>g. st h = Some ER) \<or> st' = unblocked g (st(g := s))"
  shows "qfq_blocked_ok st'"
  unfolding qfq_blocked_ok_def
proof (intro allI impI)
  fix a assume a: "st' a = Some EB \<or> st' a = Some IB"
  then have sa: "(st(g := s)) a = Some EB \<or> (st(g := s)) a = Some IB"
    using st' by (auto simp: unblocked_def split: if_splits)
  have er: "st' h = Some ER" if "h > g" "st h = Some ER" for h
    using st' that by (auto simp: unblocked_def)
  show "\<exists>h>a. st' h = Some ER"
  proof (cases "a = g")
    case True
    with sa s er show ?thesis by auto
  next
    case False
    then obtain h where h: "h > a" "st h = Some ER" using sa bl by (auto simp: qfq_blocked_ok_def)
    consider "h > g" | "h \<le> g" by linarith
    then show ?thesis
    proof cases
      case 1
      with h er show ?thesis by blast
    next
      case 2
      then have "a < g" using h(1) by simp
      with a st' have "\<exists>h>g. st h = Some ER" by (auto simp: unblocked_def split: if_splits)
      with er \<open>a < g\<close> show ?thesis by (meson less_trans)
    qed
  qed
qed

lemma grp_pre_unblocked:
  "grp_pre V d h gr (st h) \<Longrightarrow> grp_pre V d h gr (unblocked g st h)"
  by (auto simp: grp_pre_def unblocked_def)

text \<open>The served group moves \<open>i\<close> slots on, to the state the new start time and the eligible groups give it.\<close>

lemma group_served_law:
  assumes r: "bm_rep st (bitmaps q)" and g: "st g = Some ER" "g \<le> 19" and bl: "qfq_blocked_ok st"
    and gs: "grp_static g (groups q g)" and V: "qf_V q = V + of_nat d" and d: "d \<le> 2 ^ 30"
    and at: "at_gap (22 + g) V (qg_S (groups q g)) n" and n: "n \<le> 2 ^ 18" and i: "0 < i" "i \<le> n" "i \<le> 30"
    and full: "bit (full_slots (groups q g)) 0" "\<And>p. bit (full_slots (groups q g)) p \<Longrightarrow> p + i \<le> n"
  defines "S' \<equiv> qg_S (groups q g) + of_nat (i * 2 ^ (22 + g))"
  shows "\<exists>b st' gr'. qfq_group_served g S' old_F q = Some (q\<lparr>bitmaps := b, groups := (groups q)(g := gr')\<rparr>) \<and>
    bm_rep st' b \<and> qfq_blocked_ok st' \<and> grp_pre V d g gr' (st' g) \<and>
    gr' = (groups q g)\<lparr>qg_S := S', qg_F := S' + push_bit (22 + g) 2\<rparr> \<and>
    (\<forall>h. h \<noteq> g \<longrightarrow> st' h = st h \<or> st' h = unblocked g st h)"
proof -
  let ?k = "22 + g"
  have S': "S' \<noteq> qg_S (groups q g)"
  proof
    assume "S' = qg_S (groups q g)"
    then have "(of_nat (i * 2 ^ ?k) :: u64) = of_nat 0" by (simp add: S'_def)
    from of_nat_u64_eq [OF _ _ this] slot_number(2) [of i ?k] i n g(2) show False by simp
  qed
  define gr' where "gr' = (groups q g)\<lparr>qg_S := S', qg_F := S' + push_bit ?k 2\<rparr>"
  define q1 where "q1 = q\<lparr>groups := (groups q)(g := gr')\<rparr>"
  obtain b1 where b1: "bm_clear g (bitmaps q ER) = Some b1" "bm_rep (st(g := None)) ((bitmaps q)(ER := b1))"
    using bm_clear_rep [OF r g(2), of ER] g(1) by auto
  define q2 where "q2 = q1\<lparr>bitmaps := (bitmaps q)(ER := b1)\<rparr>"
  have r2: "bm_rep (st(g := None)) (bitmaps q2)" "qg_index (groups q2 g) = g"
    using b1(2) gs by (simp_all add: q2_def q1_def gr'_def grp_static_def)
  obtain s where s: "s < 4" "qfq_calc_state q2 g = Some s" "odd s \<longleftrightarrow> qfq_gt (qg_S (groups q2 g)) (qf_V q2)"
    and blk: "2 \<le> s \<Longrightarrow> \<exists>h. (st(g := None)) h = Some ER \<and> g \<le> h"
    using calc_state_law [OF r2(1) g(2) r2(2)] by blast
  have odd: "odd s \<longleftrightarrow> qfq_gt S' (qf_V q)" using s(3) by (simp add: q2_def q1_def gr'_def)
  have ready: "\<exists>h>g. st h = Some ER" if s2: "2 \<le> s"
  proof -
    obtain h where h: "(st(g := None)) h = Some ER" "g \<le> h" using blk [OF s2] by blast
    then have "h \<noteq> g" by auto
    with h show ?thesis by (intro exI [of _ h]) auto
  qed
  obtain b2 where b2: "bm_set g (bitmaps q2 s) = Some b2" "bm_rep (st(g := Some s)) ((bitmaps q2)(s := b2))"
    using bm_set_rep [OF r2(1) g(2) s(1)] by auto
  define q3 where "q3 = q2\<lparr>bitmaps := (bitmaps q2)(s := b2)\<rparr>"
  have "bm_rep (st(g := Some s)) (bitmaps q3)" using b2(2) by (simp add: q3_def)
  moreover have "(\<exists>h>g. (st(g := Some s)) h = Some ER) \<longleftrightarrow> (\<exists>h>g. st h = Some ER)" by (metis fun_upd_other less_irrefl)
  ultimately obtain b3 st' where
    b3: "qfq_unblock_groups g old_F q3 = Some (q3\<lparr>bitmaps := b3\<rparr>)" "bm_rep st' b3"
      "st' = st(g := Some s) \<and> (\<exists>h>g. st h = Some ER) \<or> st' = unblocked g (st(g := Some s))"
    using unblock_law [OF _ g(2), of "st(g := Some s)" q3] by blast
  have "qfq_group_served g S' old_F q = Some (q3\<lparr>bitmaps := b3\<rparr>)"
  proof -
    have e1: "upd_qg g (\<lambda>r. r\<lparr>qg_S := S', qg_F := S' + push_bit (slot_shift r) 2\<rparr>) q = q1"
      using gs by (simp add: upd_qg_def q1_def gr'_def grp_static_def)
    have e2: "upd_bm ER (\<lambda>_. b1) q1 = q2" "upd_bm s (\<lambda>_. b2) q2 = q3"
      by (simp_all add: upd_bm_def q2_def q1_def q3_def)
    have e3: "qg_index (groups q1 g) = g" "bitmaps q1 = bitmaps q" using gs by (simp_all add: q1_def gr'_def grp_static_def)
    show ?thesis
      using S' unfolding qfq_group_served_def Let_def e1 by (simp add: e3 b1(1) e2 s(2) b2(1) r2(2) b3(1) del: upd_qg_simps)
  qed
  moreover have "q3\<lparr>bitmaps := b3\<rparr> = q\<lparr>bitmaps := b3, groups := (groups q)(g := gr')\<rparr>"
    by (simp add: q3_def q2_def q1_def)
  moreover have "qfq_blocked_ok st'"
  proof (rule blocked_after [OF bl g(1) _ b3(3)])
    assume "Some s = Some EB \<or> Some s = Some IB"
    then show "\<exists>h>g. st h = Some ER" using ready by (auto simp: EB_def IB_def)
  qed
  moreover have "grp_pre V d g gr' (st' g)"
  proof -
    have at': "at_gap ?k V S' (n - i)" unfolding S'_def by (rule at_gap_shift [OF at i(2)])
    have "qfq_cross ?k V d \<le> 2 ^ 19 + 1" using d by (intro cross_bound) simp
    then have "qfq_gt S' (qf_V q) \<longleftrightarrow> n - i + qfq_cross ?k V d = 0"
      unfolding V using g(2) n by (intro at_gap_gt [OF at_gap_add [OF _ at']]) simp_all
    then have p: "grp_pre V d g gr' (Some s)"
      using at' gs n full odd by (auto simp: grp_pre_def grp_at_def grp_static_def gr'_def
          intro!: exI [of _ "n - i"] dest: full(2))
    then show ?thesis
      using b3(3) grp_pre_unblocked [of V d g gr' "st(g := Some s)" g] by auto
  qed
  moreover have "st' h = st h \<or> st' h = unblocked g st h" if "h \<noteq> g" for h
    using b3(3) that by (auto simp: unblocked_def)
  ultimately show ?thesis using b3(2) unfolding gr'_def by metis
qed


definition group_update :: "siid \<Rightarrow> nat \<Rightarrow> u64 \<Rightarrow> nat \<Rightarrow> (nat \<Rightarrow> nat option) \<Rightarrow> (nat \<Rightarrow> qid list) \<Rightarrow>
    'x qfq_env_scheme \<Rightarrow> qfq_sched \<Rightarrow> (nat \<Rightarrow> nat option) \<Rightarrow> nat \<Rightarrow> bool" where
  "group_update i g V d st Lg e q' st' j \<longleftrightarrow>
     qf_V q' = qf_V (qfs e i) \<and> qf_wsum q' = qf_wsum (qfs e i) \<and> bm_rep st' (bitmaps q') \<and> qfq_blocked_ok st' \<and>
     grp_pre V d g (groups q' g) (st' g) \<and>
     (\<forall>h. h \<noteq> g \<longrightarrow> groups q' h = qgroup i e h \<and> (st' h = st h \<or> st' h = unblocked g st h)) \<and>
     ring_rep (qnext e) (groups q' g) (\<lambda>p. Lg (p + j)) \<and>
     (\<forall>p. Lg p \<noteq> [] \<longrightarrow> j \<le> p \<and> qg_S (groups q' g) = qg_S (qgroup i e g) + of_nat (j * 2 ^ (22 + g)))"

lemma update_group_law:
  assumes r: "bm_rep st (bitmaps (qfs e i))" and g: "st g = Some ER" "g \<le> 19" and bl: "qfq_blocked_ok st"
    and V: "qf_V (qfs e i) = V + of_nat d" and d: "d \<le> 2 ^ 30"
    and ring: "ring_rep (qnext e) (qgroup i e g) Lg" and gs: "grp_static g (qgroup i e g)"
    and F: "qg_F (qgroup i e g) = qg_S (qgroup i e g) + push_bit (22 + g) 2"
    and at: "at_gap (22 + g) V (qg_S (qgroup i e g)) n" and n: "0 < n" "n \<le> 2 ^ 18"
    and pos: "\<And>p. Lg p \<noteq> [] \<Longrightarrow> p \<le> n"
    and S: "\<And>p c. c \<in> set (Lg p) \<Longrightarrow>
      qfq_round_down (qc_S (qcl e c)) (22 + g) = qg_S (qgroup i e g) + of_nat (p * 2 ^ (22 + g))"
  shows "\<exists>q' st' j. qfq_update_group i g e = Some (upd_qf i (\<lambda>_. q') e) \<and> group_update i g V d st Lg e q' st' j"
proof (cases "\<exists>p. Lg p \<noteq> []")
  case False
  define q where "q = qfs e i"
  have f0: "full_slots (groups q g) = 0" using ring_empty [OF ring] False by (simp add: q_def)
  obtain b1 where b1: "bm_clear g (bitmaps q ER) = Some b1" "bm_rep (st(g := None)) ((bitmaps q)(ER := b1))"
    using bm_clear_rep [OF r g(2), of ER] g(1) by (auto simp: q_def)
  define q1 where "q1 = upd_bm ER (\<lambda>_. b1) q"
  have r1: "bm_rep (st(g := None)) (bitmaps q1)" using b1(2) by (simp add: q1_def)
  have ex: "(\<exists>h>g. (st(g := None)) h = Some ER) \<longleftrightarrow> (\<exists>h>g. st h = Some ER)" by (metis fun_upd_other less_irrefl)
  obtain b st' where b: "qfq_unblock_groups g (qg_F (groups q g)) q1 = Some (q1\<lparr>bitmaps := b\<rparr>)" "bm_rep st' b"
    "st' = st(g := None) \<and> (\<exists>h>g. st h = Some ER) \<or> st' = unblocked g (st(g := None))"
    using unblock_law [OF r1 g(2)] unfolding ex by blast
  have same: "upd_qg g (\<lambda>_. groups q g) q = q" by (simp add: upd_qg_def)
  have "qfq_update_group i g e = Some (upd_qf i (\<lambda>_. q1\<lparr>bitmaps := b\<rparr>) e)"
    using gs b1(1) b(1) by (simp add: qfq_update_group_def q_def [symmetric] scan_empty [OF f0] Let_def grp_static_def q1_def same)
  moreover have "qfq_blocked_ok st'" by (rule blocked_after [OF bl g(1) _ b(3)]) simp
  moreover have "st' g = None" using b(3) by (auto simp: unblocked_def)
  moreover have "st' h = st h \<or> st' h = unblocked g st h" if "h \<noteq> g" for h
    using b(3) that by (auto simp: unblocked_def)
  moreover have "ring_rep (qnext e) (qgroup i e g) (\<lambda>p. [])" using ring False by (simp add: ring_rep_def)
  ultimately show ?thesis
    using b(2) gs f0 False
    by (intro exI [of _ "q1\<lparr>bitmaps := b\<rparr>"] exI [of _ st'] exI [of _ 0])
      (simp add: group_update_def q1_def q_def grp_pre_def upd_bm_def)
next
  case True
  then obtain p0 where "Lg p0 \<noteq> []" by blast
  from ring_scan [OF ring this] obtain j gr2 x xs f b where sc: "Lg j = x # xs" "\<forall>p<j. Lg p = []"
    "qfq_slot_scan (qgroup i e g) = (Some x, gr2)" "ring_rep (qnext e) gr2 (\<lambda>p. Lg (p + j))"
    "gr2 = (qgroup i e g)\<lparr>front := f, full_slots := b\<rparr>" by blast
  define q where "q = upd_qg g (\<lambda>_. gr2) (qfs e i)"
  have jn: "j \<le> n" using pos [of j] sc(1) by simp
  have j30: "j \<le> 30" using ring_repD(4) [OF ring, of j] sc(1) by simp
  have first: "j \<le> p" if "Lg p \<noteq> []" for p using sc(2) that by (meson not_le)
  have qg: "groups q g = gr2" and r': "bm_rep st (bitmaps q)" and V': "qf_V q = V + of_nat d" using r V by (simp_all add: q_def)
  have gs2: "grp_static g gr2" and at2: "at_gap (22 + g) V (qg_S gr2) n" using gs at by (simp_all add: sc(5) grp_static_def)
  have full2: "bit (full_slots gr2) 0" "bit (full_slots gr2) p \<Longrightarrow> p + j \<le> n" for p
    using ring_repD(3) [OF sc(4)] sc(1) pos by auto
  have Sx: "qfq_round_down (qc_S (qcl e x)) (slot_shift gr2) = qg_S gr2 + of_nat (j * 2 ^ (22 + g))"
    using S [of x j] sc(1) gs2 by (simp add: sc(5) grp_static_def)
  have up: "qfq_update_group i g e = do {
      q \<leftarrow> qfq_group_served g (qg_S gr2 + of_nat (j * 2 ^ (22 + g))) (qg_F (qgroup i e g)) q;
      Some (upd_qf i (\<lambda>_. q) e) }"
    unfolding qfq_update_group_def Let_def sc(3) using Sx by (simp add: q_def)
  show ?thesis
  proof (cases "j = 0")
    case True
    have "qfq_update_group i g e = Some (upd_qf i (\<lambda>_. q) e)"
      using True by (simp add: up qfq_group_served_def qg)
    moreover have "grp_pre V d g gr2 (st g)"
      using g gs2 full2 at2 n F True by (auto simp: grp_pre_def grp_at_def sc(5) intro!: exI [of _ n])
    ultimately show ?thesis
      using sc(4) r' bl qg True by (intro exI [of _ q] exI [of _ st] exI [of _ 0]) (simp add: group_update_def q_def sc(5))
  next
    case False
    obtain b' st' gr' where l: "qfq_group_served g (qg_S gr2 + of_nat (j * 2 ^ (22 + g))) (qg_F (qgroup i e g)) q =
        Some (q\<lparr>bitmaps := b', groups := (groups q)(g := gr')\<rparr>)" "bm_rep st' b'" "qfq_blocked_ok st'"
        "grp_pre V d g gr' (st' g)"
        "gr' = gr2\<lparr>qg_S := qg_S gr2 + of_nat (j * 2 ^ (22 + g)),
           qg_F := qg_S gr2 + of_nat (j * 2 ^ (22 + g)) + push_bit (22 + g) 2\<rparr>"
        "\<forall>h. h \<noteq> g \<longrightarrow> st' h = st h \<or> st' h = unblocked g st h"
      using group_served_law [where q = q and st = st and g = g and V = V and d = d and n = n and i = j and
        old_F = "qg_F (qgroup i e g)", OF r' g bl, unfolded qg, OF gs2 V' d at2 n(2) _ jn j30 full2] False by blast
    have "ring_rep (qnext e) gr' (\<lambda>p. Lg (p + j))" by (rule ring_rep_cong [OF sc(4)]) (simp_all add: l(5))
    moreover have "qg_S gr2 = qg_S (qgroup i e g)" by (simp add: sc(5))
    ultimately show ?thesis
      using l(2-4,6) first unfolding up l(1)
      by (intro exI [of _ "q\<lparr>bitmaps := b', groups := (groups q)(g := gr')\<rparr>"] exI [of _ st'] exI [of _ j])
        (simp add: group_update_def q_def, simp add: l(5))
  qed
qed


section \<open>The invariant\<close>

text \<open>
  A queue's class: its group and packets whose length times the inverse weight fits in a slot of
  the group, as \<open>qfq_new_queue\<close> arranges for packets of at most \<open>lmax\<close> bytes.
\<close>

definition class_ok :: "'x qfq_env_scheme \<Rightarrow> qid \<Rightarrow> bool" where
  "class_ok e c \<longleftrightarrow> (\<exists>g\<le>19. qc_grp (qcl e c) = Some g \<and> (\<forall>m\<in>set (mq e c). 0 \<le> m_len m \<and> m_len m < 2 ^ 16 \<and>
     nat (m_len m) * unat (qc_inv_w (qcl e c)) \<le> 2 ^ (22 + g)))"

definition listed :: "qid set \<Rightarrow> siid \<Rightarrow> (nat \<Rightarrow> nat \<Rightarrow> qid list) \<Rightarrow> 'x qfq_env_scheme \<Rightarrow> bool" where
  "listed Q i L e \<longleftrightarrow> (\<forall>g\<le>19. ring_rep (qnext e) (qgroup i e g) (L g) \<and> (\<forall>p. distinct (L g p) \<and>
     (\<forall>c\<in>set (L g p). c \<in> Q \<and> qc_grp (qcl e c) = Some g \<and>
        qfq_round_down (qc_S (qcl e c)) (22 + g) = qg_S (qgroup i e g) + of_nat (p * 2 ^ (22 + g)))))"

definition in_slots :: "(nat \<Rightarrow> nat \<Rightarrow> qid list) \<Rightarrow> qid \<Rightarrow> bool" where
  "in_slots L c \<longleftrightarrow> (\<exists>g\<le>19. \<exists>p. c \<in> set (L g p))"

definition backlog_ok :: "(nat \<Rightarrow> nat \<Rightarrow> qid list) \<Rightarrow> 'x qfq_env_scheme \<Rightarrow> qid \<Rightarrow> bool" where
  "backlog_ok L e c \<longleftrightarrow> (in_slots L c \<longleftrightarrow> mq e c \<noteq> []) \<and> (\<forall>m ms. mq e c = m # ms \<longrightarrow>
     qc_F (qcl e c) = qc_S (qcl e c) + of_nat (nat (m_len m) * unat (qc_inv_w (qcl e c))))"

definition qfq_rep :: "qid set \<Rightarrow> siid \<Rightarrow> (nat \<Rightarrow> nat option) \<Rightarrow> (nat \<Rightarrow> nat \<Rightarrow> qid list) \<Rightarrow> 'x qfq_env_scheme \<Rightarrow> bool" where
  "qfq_rep Q i st L e \<longleftrightarrow> groups_ok (qfs e i) st \<and> listed Q i L e \<and> (\<forall>c\<in>Q. class_ok e c \<and> backlog_ok L e c)"

definition qfq_inv :: "qid set \<Rightarrow> siid \<Rightarrow> 'x qfq_env_scheme \<Rightarrow> bool" where
  "qfq_inv Q i e \<longleftrightarrow> (\<exists>st L. qfq_rep Q i st L e)"

text \<open>
  The condition on the groups: none is more than \<open>2 ^ 18\<close> slots behind the virtual time, so that comparisons of time
  stamps do not wrap. This says nothing of the 32 slots of a group.
\<close>

definition qfq_timely :: "siid \<Rightarrow> 'x qfq_env_scheme \<Rightarrow> bool" where
  "qfq_timely i e \<longleftrightarrow> (\<forall>g\<in>{0..<20}. full_slots (qgroup i e g) \<noteq> 0 \<longrightarrow>
     slots_behind (22 + g) (qf_V (qfs e i)) (qg_S (qgroup i e g)) \<le> 2 ^ 18)"

lemma groups_okD:
  assumes "groups_ok q st"
  shows "bm_rep st (bitmaps q)" "g \<le> 19 \<Longrightarrow> grp_ok (qf_V q) g (groups q g) (st g)" "qfq_blocked_ok st" "qfq_work_ok st"
    "g \<le> 19 \<Longrightarrow> grp_static g (groups q g)"
  using assms by (auto simp: groups_ok_def grp_ok_def)

lemma listedD:
  assumes "listed Q i L e" "g \<le> 19"
  shows "ring_rep (qnext e) (qgroup i e g) (L g)" "distinct (L g p)"
    "c \<in> set (L g p) \<Longrightarrow> c \<in> Q" "c \<in> set (L g p) \<Longrightarrow> qc_grp (qcl e c) = Some g"
    "c \<in> set (L g p) \<Longrightarrow> qfq_round_down (qc_S (qcl e c)) (22 + g) = qg_S (qgroup i e g) + of_nat (p * 2 ^ (22 + g))"
  using assms by (auto simp: listed_def)

lemma listed_unique:
  assumes l: "listed Q i L e" and g: "g \<le> 19" "h \<le> 19" and c: "c \<in> set (L g p)" "c \<in> set (L h r)"
  shows "g = h \<and> p = r"
proof
  show gh: "g = h" using listedD(4) [OF l g(1) c(1)] listedD(4) [OF l g(2) c(2)] by simp
  have p: "p \<le> 30" "r \<le> 30"
    using ring_repD(4) [OF listedD(1) [OF l g(1)], of p] ring_repD(4) [OF listedD(1) [OF l g(2)], of r] c by fastforce+
  have "(of_nat (p * 2 ^ (22 + g)) :: u64) = of_nat (r * 2 ^ (22 + g))"
    using listedD(5) [OF l g(1) c(1)] listedD(5) [OF l g(2) c(2)] gh by simp
  from of_nat_u64_eq [OF _ _ this] show "p = r"
    using slot_number(2) [OF p(1), of "22 + g"] slot_number(2) [OF p(2), of "22 + g"] g by simp
qed

text \<open>A group that is timely, with its distance.\<close>

lemma grp_distance:
  assumes ok: "groups_ok (qfs e i) st" and t: "qfq_timely i e" and g: "g \<le> 19" and s: "st g = Some s"
  shows "\<exists>n\<le>2 ^ 18. grp_at g (qf_V (qfs e i)) n (qgroup i e g) \<and> (odd s \<longleftrightarrow> n = 0) \<and>
    slots_behind (22 + g) (qf_V (qfs e i)) (qg_S (qgroup i e g)) = n"
proof -
  obtain n where n: "n \<le> 2 ^ 20" "grp_at g (qf_V (qfs e i)) n (qgroup i e g)" "odd s \<longleftrightarrow> n = 0"
    using groups_okD(2) [OF ok g] s by (auto simp: grp_ok_def)
  have "full_slots (qgroup i e g) \<noteq> 0" using n(2) by (auto simp: grp_at_def)
  then have le: "slots_behind (22 + g) (qf_V (qfs e i)) (qg_S (qgroup i e g)) \<le> 2 ^ 18"
    using t g by (auto simp: qfq_timely_def)
  have "(2::nat) ^ (22 + g) \<le> 2 ^ 41" using g by (intro power_increasing) simp_all
  then have "n * 2 ^ (22 + g) \<le> 2 ^ 20 * 2 ^ 41" using n(1) by (intro mult_le_mono)
  then have "slots_behind (22 + g) (qf_V (qfs e i)) (qg_S (qgroup i e g)) = n"
    using n(2) by (intro at_gap_slots) (auto simp: grp_at_def)
  with n le show ?thesis by auto
qed

lemma grp_pre_start:
  assumes ok: "groups_ok (qfs e i) st" and t: "qfq_timely i e" and g: "g \<le> 19"
  shows "grp_pre (qf_V (qfs e i)) d g (qgroup i e g) (st g)"
proof (cases "st g")
  case None
  with groups_okD(2) [OF ok g] show ?thesis by (simp add: grp_ok_def grp_pre_def)
next
  case (Some s)
  from grp_distance [OF ok t g Some] Some groups_okD(5) [OF ok g] show ?thesis by (auto simp: grp_pre_def)
qed


section \<open>Updating the class that was served\<close>

lemma scaled_len:
  assumes "0 \<le> l" "l < 2 ^ 16"
  shows "(ucast (word_of_int l :: u32) :: u64) * ucast (w :: u32) = of_nat (nat l * unat w)"
    "(word_of_int l :: u64) * ucast w = of_nat (nat l * unat w)"
proof -
  obtain n where n: "l = int n" using assms(1) nonneg_int_cases by blast
  have lt: "n < 2 ^ 16" using assms(2) by (simp add: n)
  have w: "(ucast w :: u64) = of_nat (unat w)" by simp
  have "(ucast (of_nat n :: u32) :: u64) = of_nat (unat (of_nat n :: u32))" by simp
  also have "unat (of_nat n :: u32) = n" using lt by (simp add: unsigned_of_nat take_bit_nat_eq_self)
  finally have u: "(ucast (word_of_int l :: u32) :: u64) = of_nat n" by (simp add: n)
  show "(ucast (word_of_int l :: u32) :: u64) * ucast w = of_nat (nat l * unat w)" unfolding u w by (simp add: n)
  show "(word_of_int l :: u64) * ucast w = of_nat (nat l * unat w)" unfolding w by (simp add: n)
qed

definition class_updated :: "qid set \<Rightarrow> siid \<Rightarrow> nat \<Rightarrow> qid \<Rightarrow> (nat \<Rightarrow> nat \<Rightarrow> qid list) \<Rightarrow> 'x qfq_env_scheme \<Rightarrow>
    (nat \<Rightarrow> qid list) \<Rightarrow> 'x qfq_env_scheme \<Rightarrow> bool" where
  "class_updated Q i g c L e Lg e' \<longleftrightarrow>
     listed Q i (L(g := Lg)) e' \<and> (\<forall>p x. x \<noteq> c \<longrightarrow> (x \<in> set (Lg p) \<longleftrightarrow> x \<in> set (L g p))) \<and>
     ((\<exists>p. c \<in> set (Lg p)) \<longleftrightarrow> mq e c \<noteq> []) \<and> (\<forall>p. Lg p \<noteq> [] \<longrightarrow> L g p \<noteq> [] \<or> p \<le> 1) \<and>
     (\<exists>a b. qfs e' = (qfs e)(i := upd_qg g (\<lambda>r. r\<lparr>slots := a, full_slots := b\<rparr>) (qfs e i))) \<and>
     qs e' = qs e \<and> freed e' = freed e \<and> (\<forall>x. x \<noteq> c \<longrightarrow> qcl e' x = qcl e x) \<and>
     qc_grp (qcl e' c) = qc_grp (qcl e c) \<and> qc_inv_w (qcl e' c) = qc_inv_w (qcl e c) \<and>
     (\<forall>m ms. mq e c = m # ms \<longrightarrow>
        qc_F (qcl e' c) = qc_S (qcl e' c) + of_nat (nat (m_len m) * unat (qc_inv_w (qcl e c))))"

text \<open>Changing the list of one group and one queue's data keeps the rest of the lists.\<close>

lemma listed_change:
  assumes l: "listed Q i L e" and g: "g \<le> 19" and c: "c \<in> Q" "qc_grp (qcl e' c) = Some g"
    and oth: "\<And>x. x \<noteq> c \<Longrightarrow> qcl e' x = qcl e x" "\<And>h. h \<noteq> g \<Longrightarrow> qgroup i e' h = qgroup i e h"
    and S: "\<And>p. L g p \<noteq> [] \<Longrightarrow> qg_S (qgroup i e g) = qg_S (qgroup i e' g) + of_nat (s * 2 ^ (22 + g))"
    and ring: "ring_rep (qnext e') (qgroup i e' g) Lg" and dist: "\<And>p. distinct (Lg p)"
    and sub: "\<And>p x. x \<in> set (Lg p) \<Longrightarrow> x \<noteq> c \<Longrightarrow> s \<le> p \<and> x \<in> set (L g (p - s))"
    and Sc: "\<And>p. c \<in> set (Lg p) \<Longrightarrow>
      qfq_round_down (qc_S (qcl e' c)) (22 + g) = qg_S (qgroup i e' g) + of_nat (p * 2 ^ (22 + g))"
    and new: "\<And>h p. h \<noteq> g \<Longrightarrow> h \<le> 19 \<Longrightarrow> c \<notin> set (L h p)"
  shows "listed Q i (L(g := Lg)) e'"
  unfolding listed_def
proof (intro allI impI conjI ballI)
  fix h assume h: "h \<le> (19::nat)"
  show "ring_rep (qnext e') (qgroup i e' h) ((L(g := Lg)) h)"
  proof (cases "h = g")
    case False
    have "qnext e' x = qnext e x" if "x \<in> set (L h p)" for p x
      using new [OF False h, of p] oth(1) that by (metis (full_types))
    with ring_rep_cong [OF listedD(1) [OF l h]] False oth(2) show ?thesis by (metis fun_upd_other)
  qed (use ring in simp)
  fix p
  show "distinct ((L(g := Lg)) h p)" using dist listedD(2) [OF l h] by simp
  fix x assume x: "x \<in> set ((L(g := Lg)) h p)"
  have "x \<in> Q \<and> qc_grp (qcl e' x) = Some h \<and>
      qfq_round_down (qc_S (qcl e' x)) (22 + h) = qg_S (qgroup i e' h) + of_nat (p * 2 ^ (22 + h))"
  proof (cases "x = c")
    case True
    then have "h = g" using new [of h p] h x by (cases "h = g") auto
    with True x c Sc show ?thesis by simp
  next
    case nc: False
    show ?thesis
    proof (cases "h = g")
      case True
      then have xl: "s \<le> p" "x \<in> set (L h (p - s))" using x sub nc by auto
      then have Sg: "qg_S (qgroup i e h) = qg_S (qgroup i e' h) + of_nat (s * 2 ^ (22 + h))" using S [of "p - s"] True by force
      have "of_nat (p * 2 ^ (22 + h)) = (of_nat (s * 2 ^ (22 + h)) :: u64) + of_nat ((p - s) * 2 ^ (22 + h))"
        unfolding of_nat_add [symmetric] add_mult_distrib [symmetric] using xl(1) by simp
      moreover have "qcl e' x = qcl e x" by (rule oth(1) [OF nc])
      ultimately show ?thesis using listedD(3-5) [OF l h xl(2)] Sg by (simp only: add.assoc)
    next
      case False
      with x listedD(3-5) [OF l h, of x p] nc oth show ?thesis by simp
    qed
  qed
  then show "x \<in> Q" "qc_grp (qcl e' x) = Some h"
    "qfq_round_down (qc_S (qcl e' x)) (22 + h) = qg_S (qgroup i e' h) + of_nat (p * 2 ^ (22 + h))" by auto
qed

lemma listed_update:
  assumes l: "listed Q i L e" and g: "g \<le> 19" and c: "c \<in> Q" "qc_grp (qcl e' c) = Some g"
    and qfs: "qfs e' i = upd_qg g (\<lambda>_. gr') (qfs e i)" and S: "qg_S gr' = qg_S (qgroup i e g)"
    and oth: "\<And>x. x \<noteq> c \<Longrightarrow> qcl e' x = qcl e x"
    and ring: "ring_rep (qnext e') gr' Lg" and dist: "\<And>p. distinct (Lg p)"
    and sub: "\<And>p x. x \<in> set (Lg p) \<Longrightarrow> x \<noteq> c \<Longrightarrow> x \<in> set (L g p)"
    and Sc: "\<And>p. c \<in> set (Lg p) \<Longrightarrow>
      qfq_round_down (qc_S (qcl e' c)) (22 + g) = qg_S gr' + of_nat (p * 2 ^ (22 + g))"
    and new: "\<And>h p. h \<noteq> g \<Longrightarrow> h \<le> 19 \<Longrightarrow> c \<notin> set (L h p)"
  shows "listed Q i (L(g := Lg)) e'"
  by (rule listed_change [OF l g c oth, where s = 0]) (use qfs S ring dist sub Sc new in simp_all)

lemma front_facts:
  assumes l: "listed Q i L e" and g: "g \<le> 19" and c: "L g 0 = c # cs"
  shows "c \<in> Q" "qc_grp (qcl e c) = Some g" "qfq_round_down (qc_S (qcl e c)) (22 + g) = qg_S (qgroup i e g)"
    "h \<le> 19 \<Longrightarrow> h \<noteq> g \<or> p \<noteq> 0 \<Longrightarrow> c \<notin> set (L h p)" "c \<notin> set cs" "distinct cs"
    "ring_rep (qnext e) (qgroup i e g) (L g)"
proof -
  have cL: "c \<in> set (L g 0)" using c by simp
  show "c \<in> Q" "qc_grp (qcl e c) = Some g" using listedD(3,4) [OF l g cL] by auto
  show "qfq_round_down (qc_S (qcl e c)) (22 + g) = qg_S (qgroup i e g)" using listedD(5) [OF l g cL] by simp
  show "c \<notin> set (L h p)" if "h \<le> 19" "h \<noteq> g \<or> p \<noteq> 0"
    using listed_unique [OF l that(1) g _ cL, of p] that(2) by blast
  show "c \<notin> set cs" "distinct cs" using listedD(2) [OF l g, of 0] c by auto
  show "ring_rep (qnext e) (qgroup i e g) (L g)" by (rule listedD(1) [OF l g])
qed

text \<open>The queue is now empty: it leaves its slot.\<close>

lemma update_class_empty:
  assumes l: "listed Q i L e" and g: "g \<le> 19" and c: "L g 0 = c # cs" and Nil: "mq e c = []"
  shows "\<exists>e'. qfq_update_class i g c e = Some (True, e') \<and> class_updated Q i g c L e ((L g)(0 := cs)) e'"
proof -
  note ff = front_facts [OF l g c]
  note cQ = ff(1,2) and Sc = ff(3) and only = ff(4) and cs = ff(5,6) and ring = ff(7)
  define e1 where "e1 = upd_qc c (\<lambda>r. r\<lparr>qc_S := qc_F r\<rparr>) e"
  have n1: "qnext e1 = qnext e" "qfs e1 = qfs e" by (auto simp: e1_def)
  obtain a b gr' where f: "qfq_front_slot_remove i g e1 = Some (upd_qf i (upd_qg g (\<lambda>_. gr')) e1)"
    "ring_rep (qnext e) gr' ((L g)(0 := cs))" "gr' = (qgroup i e g)\<lparr>slots := a, full_slots := b\<rparr>"
    using front_remove_law [of e1 i g "L g" c cs] ring c n1 by auto
  define e' where "e' = upd_qf i (upd_qg g (\<lambda>_. gr')) e1"
  have u: "qfq_update_class i g c e = Some (True, e')"
    using f(1) Nil by (simp add: qfq_update_class_def e1_def [symmetric] e'_def) (simp add: e1_def)
  have n': "qnext e' = qnext e" by (simp add: e'_def n1)
  have gone: "c \<notin> set (((L g)(0 := cs)) p)" for p using cs only [OF g] by simp
  have d: "distinct (((L g)(0 := cs)) p)" for p using cs listedD(2) [OF l g] by simp
  have li: "listed Q i (L(g := (L g)(0 := cs))) e'"
  proof (rule listed_update [OF l g cQ(1), where e' = e' and gr' = gr'])
    show "ring_rep (qnext e') gr' ((L g)(0 := cs))" using f(2) by (simp only: n')
    show "x \<in> set (L g p)" if "x \<in> set (((L g)(0 := cs)) p)" for p x using that c by (auto split: if_splits)
  qed (use f(3) cQ only d gone in \<open>auto simp: e'_def e1_def\<close>)
  have q: "qfs e' = (qfs e)(i := upd_qg g (\<lambda>r. r\<lparr>slots := a, full_slots := b\<rparr>) (qfs e i))"
    by (simp add: e'_def e1_def upd_qg_def f(3))
  have "class_updated Q i g c L e ((L g)(0 := cs)) e'"
    using li q c cs only [OF g] Nil by (auto simp: class_updated_def e'_def e1_def split: if_splits)
  with u show ?thesis by blast
qed

text \<open>The new times of a queue with more packets, and its new slot.\<close>

definition next_times :: "qid \<Rightarrow> nat \<Rightarrow> 'x qfq_env_scheme \<Rightarrow> 'x qfq_env_scheme" where
  "next_times c y e = upd_qc c (\<lambda>r. r\<lparr>qc_S := qc_F (qcl e c), qc_F := qc_F (qcl e c) + of_nat y\<rparr>) e"

lemma next_times_simps [simp]:
  "qcl (next_times c y e) x =
     (if x = c then (qcl e c)\<lparr>qc_S := qc_F (qcl e c), qc_F := qc_F (qcl e c) + of_nat y\<rparr> else qcl e x)"
  "qs (next_times c y e) = qs e" "freed (next_times c y e) = freed e" "qfs (next_times c y e) = qfs e"
  by (auto simp: next_times_def)

lemma next_times_next: "qnext (next_times c y e) = qnext e"
  by (auto simp: next_times_def)

lemma update_class_steps:
  assumes gs: "grp_static g (qgroup i e g)" and Cons: "mq e c = m # ms" and ml: "0 \<le> m_len m" "m_len m < 2 ^ 16"
    and y: "y = nat (m_len m) * unat (qc_inv_w (qcl e c))" and R: "R = qfq_round_down (qc_F (qcl e c)) (22 + g)"
  shows "qfq_update_class i g c e = (if R = qg_S (qgroup i e g) then Some (False, next_times c y e)
    else do { e \<leftarrow> qfq_front_slot_remove i g (next_times c y e); e \<leftarrow> qfq_slot_insert i g c R e; Some (True, e) })"
  using gs Cons unfolding qfq_update_class_def Let_def
  by (simp add: scaled_len [OF ml] R grp_static_def next_times_def y upd_qc_def)

lemma next_slot:
  assumes l: "listed Q i L e" and g: "g \<le> 19" and c: "L g 0 = c # cs"
    and F: "qc_F (qcl e c) = qc_S (qcl e c) + of_nat x" "x \<le> 2 ^ (22 + g)"
  shows "\<exists>j\<le>1. qfq_round_down (qc_F (qcl e c)) (22 + g) = qg_S (qgroup i e g) + of_nat (j * 2 ^ (22 + g)) \<and>
    (qfq_round_down (qc_F (qcl e c)) (22 + g) = qg_S (qgroup i e g) \<longleftrightarrow> j = 0)"
proof -
  let ?k = "22 + g"
  note Sc = front_facts(3) [OF l g c]
  define roundedS where "roundedS = qfq_round_down (qc_F (qcl e c)) ?k"
  define j where "j = qfq_cross ?k (qc_S (qcl e c)) x"
  have rS: "roundedS = qg_S (qgroup i e g) + of_nat (j * 2 ^ ?k)"
    using g unfolding roundedS_def F(1) j_def by (subst round_down_add) (simp_all add: Sc)
  have j1: "j \<le> 1"
  proof -
    have "unat (qc_S (qcl e c)) mod 2 ^ ?k < 2 ^ ?k" by simp
    then have "unat (qc_S (qcl e c)) mod 2 ^ ?k + x < 2 * 2 ^ ?k" using F(2) by linarith
    then have "j < 2" unfolding j_def qfq_cross_def by (rule less_mult_imp_div_less)
    then show ?thesis by simp
  qed
  have one: "roundedS = qg_S (qgroup i e g) \<longleftrightarrow> j = 0"
  proof -
    have "roundedS = qg_S (qgroup i e g) \<longleftrightarrow> (of_nat (j * 2 ^ ?k) :: u64) = of_nat 0" by (simp add: rS)
    also have "\<dots> \<longleftrightarrow> j = 0"
      using of_nat_u64_eq [of "j * 2 ^ ?k" 0] slot_number(2) [of j ?k] j1 g by auto
    finally show ?thesis .
  qed
  show ?thesis unfolding roundedS_def [symmetric] by (intro exI [of _ j] conjI j1 rS one)
qed

text \<open>The new start time is in the same slot.\<close>

lemma same_slot_updated:
  assumes l: "listed Q i L e" and g: "g \<le> 19" and c: "L g 0 = c # cs" and Cons: "mq e c = m # ms"
    and y: "y = nat (m_len m) * unat (qc_inv_w (qcl e c))"
    and R: "qfq_round_down (qc_F (qcl e c)) (22 + g) = qg_S (qgroup i e g)"
  shows "class_updated Q i g c L e (L g) (next_times c y e)"
proof -
  let ?k = "22 + g" and ?e1 = "next_times c y e"
  note ff = front_facts [OF l g c]
  note cQ = ff(1,2) and only = ff(4) and ring = ff(7)
  have cl1: "qc_grp (qcl ?e1 c) = Some g" "\<And>x. x \<noteq> c \<Longrightarrow> qcl ?e1 x = qcl e x" using cQ by simp_all
  have gr: "qfs ?e1 i = upd_qg g (\<lambda>_. qgroup i e g) (qfs e i)" by (simp add: upd_qg_def)
  have "listed Q i (L(g := L g)) ?e1"
  proof (rule listed_update [OF l g cQ(1) cl1(1) gr refl cl1(2)])
    show "ring_rep (qnext ?e1) (qgroup i e g) (L g)" by (simp only: next_times_next ring)
    show "qfq_round_down (qc_S (qcl ?e1 c)) ?k = qg_S (qgroup i e g) + of_nat (p * 2 ^ ?k)" if "c \<in> set (L g p)" for p
      using only [OF g, of p] that R by (cases "p = 0") simp_all
  qed (use listedD(2) [OF l g] only in auto)
  moreover have "\<exists>a b. qfs ?e1 = (qfs e)(i := upd_qg g (\<lambda>r. r\<lparr>slots := a, full_slots := b\<rparr>) (qfs e i))"
    by (intro exI [of _ "slots (qgroup i e g)"] exI [of _ "full_slots (qgroup i e g)"]) (simp add: upd_qg_def)
  moreover have "\<exists>p. c \<in> set (L g p)" using c by (intro exI [of _ 0]) simp
  ultimately show ?thesis using Cons cQ unfolding class_updated_def by (auto simp: y)
qed

text \<open>It is in the next slot: the queue moves there.\<close>

lemma update_class_next:
  assumes l: "listed Q i L e" and g: "g \<le> 19" and c: "L g 0 = c # cs" and gs: "grp_static g (qgroup i e g)"
    and Cons: "mq e c = m # ms" and y_def: "y = nat (m_len m) * unat (qc_inv_w (qcl e c))"
    and rS: "qfq_round_down (qc_F (qcl e c)) (22 + g) = qg_S (qgroup i e g) + of_nat (1 * 2 ^ (22 + g))"
  shows "\<exists>e2 e3 Lg. qfq_front_slot_remove i g (next_times c y e) = Some e2 \<and>
    qfq_slot_insert i g c (qfq_round_down (qc_F (qcl e c)) (22 + g)) e2 = Some e3 \<and> class_updated Q i g c L e Lg e3"
proof -
  let ?k = "22 + g"
  note ff = front_facts [OF l g c]
  note cQ = ff(1,2) and Sc = ff(3) and only = ff(4) and cs = ff(5,6) and ring = ff(7)
  define e1 where "e1 = next_times c y e"
  define roundedS where "roundedS = qfq_round_down (qc_F (qcl e c)) ?k"
  have n1: "qnext e1 = qnext e" "qfs e1 = qfs e" unfolding e1_def by (rule next_times_next next_times_simps)+
  have "ring_rep (qnext e1) (qgroup i e1 g) (L g)" using ring by (simp only: n1)
  from front_remove_law [OF this c] obtain a b gr2 where f: "qfq_front_slot_remove i g e1 = Some (upd_qf i (upd_qg g (\<lambda>_. gr2)) e1)"
    "ring_rep (qnext e1) gr2 ((L g)(0 := cs))" "gr2 = (qgroup i e g)\<lparr>slots := a, full_slots := b\<rparr>"
    unfolding n1 by blast
  define e2 where "e2 = upd_qf i (upd_qg g (\<lambda>_. gr2)) e1"
  have e2: "qgroup i e2 g = gr2" "qnext e2 = qnext e1" by (simp_all add: e2_def)
  define L2 where "L2 = (L g)(0 := cs)"
  have no: "c \<notin> set (L2 p)" for p using cs only [OF g] by (simp add: L2_def)
  have r2: "ring_rep (qnext e2) (qgroup i e2 g) L2" using f(2) by (simp only: e2 L2_def)
  have sh2: "slot_shift (qgroup i e2 g) = ?k" using gs by (simp add: e2 f(3) grp_static_def)
  have rS2: "roundedS = qg_S (qgroup i e2 g) + of_nat (1 * 2 ^ ?k)" using rS by (simp add: e2 f(3) roundedS_def)
  obtain nx a3 gr3 where ins: "qfq_slot_insert i g c roundedS e2 =
      Some (upd_qf i (upd_qg g (\<lambda>_. gr3)) (upd_qc c (\<lambda>r. r\<lparr>qc_next := nx\<rparr>) e2))"
      "ring_rep ((qnext e2)(c := nx)) gr3 (L2(1 := c # L2 1))"
      "gr3 = gr2\<lparr>slots := a3, full_slots := Bit_Operations.set_bit 1 (full_slots gr2)\<rparr>"
    using slot_insert_law [OF r2 sh2 g _ rS2 no] unfolding e2 by auto
  define e3 where "e3 = upd_qf i (upd_qg g (\<lambda>_. gr3)) (upd_qc c (\<lambda>r. r\<lparr>qc_next := nx\<rparr>) e2)"
  have n3: "qnext e3 = (qnext e2)(c := nx)" by (auto simp: e3_def)
  have q3: "qfs e3 = (qfs e)(i := upd_qg g (\<lambda>_. gr3) (qfs e i))"
    by (simp add: e3_def e2_def n1 upd_qg_def)
  have cl3: "qc_grp (qcl e3 c) = Some g" "qc_inv_w (qcl e3 c) = qc_inv_w (qcl e c)"
    "qc_S (qcl e3 c) = qc_F (qcl e c)" "qc_F (qcl e3 c) = qc_F (qcl e c) + of_nat y"
    "\<And>x. x \<noteq> c \<Longrightarrow> qcl e3 x = qcl e x" "qs e3 = qs e" "freed e3 = freed e"
    using cQ by (simp_all add: e3_def e2_def e1_def)
  define L3 where "L3 = L2(1 := c # L2 1)"
  have "listed Q i (L(g := L3)) e3"
  proof (rule listed_update [OF l g cQ(1) cl3(1), where gr' = gr3])
    show "ring_rep (qnext e3) gr3 L3" using ins(2) by (simp only: n3 L3_def)
    show "distinct (L3 p)" for p using no [of 1] cs listedD(2) [OF l g] by (simp add: L3_def L2_def)
    show "x \<in> set (L g p)" if "x \<in> set (L3 p)" "x \<noteq> c" for p x
      using that c by (auto simp: L3_def L2_def split: if_splits)
    show "qfq_round_down (qc_S (qcl e3 c)) ?k = qg_S gr3 + of_nat (p * 2 ^ ?k)" if "c \<in> set (L3 p)" for p
    proof -
      have "p = 1" using that no by (auto simp: L3_def split: if_splits)
      then show ?thesis using rS by (simp add: cl3 ins(3) f(3) roundedS_def)
    qed
  qed (use q3 cl3 only ins(3) f(3) in auto)
  moreover have "qfs e3 = (qfs e)(i := upd_qg g (\<lambda>r. r\<lparr>slots := slots gr3, full_slots := full_slots gr3\<rparr>) (qfs e i))"
    by (simp add: q3 upd_qg_def ins(3) f(3))
  moreover have "x \<in> set (L3 p) \<longleftrightarrow> x \<in> set (L g p)" if "x \<noteq> c" for p x
    using that c by (auto simp: L3_def L2_def)
  moreover have "c \<in> set (L3 1)" "L3 p \<noteq> [] \<Longrightarrow> L g p \<noteq> [] \<or> p \<le> 1" for p
    by (auto simp: L3_def L2_def split: if_splits)
  ultimately have "class_updated Q i g c L e L3 e3"
    unfolding class_updated_def cl3 using Cons cQ cl3(5) by (auto simp: y_def)
  then show ?thesis
    using f(1) ins(1) unfolding e1_def [symmetric] roundedS_def [symmetric] e2_def [symmetric] e3_def [symmetric] by blast
qed

lemma update_class_law:
  assumes l: "listed Q i L e" and g: "g \<le> 19" and c: "L g 0 = c # cs" and gs: "grp_static g (qgroup i e g)"
    and F: "qc_F (qcl e c) = qc_S (qcl e c) + of_nat x" "x \<le> 2 ^ (22 + g)"
    and len: "\<forall>m\<in>set (mq e c). 0 \<le> m_len m \<and> m_len m < 2 ^ 16"
  shows "\<exists>u e' Lg. qfq_update_class i g c e = Some (u, e') \<and> class_updated Q i g c L e Lg e' \<and>
    (\<not> u \<longrightarrow> Lg = L g \<and> qfs e' = qfs e)"
proof (cases "mq e c")
  case Nil
  from update_class_empty [OF l g c Nil] show ?thesis by blast
next
  case (Cons m ms)
  have ml: "0 \<le> m_len m" "m_len m < 2 ^ 16" using len Cons by auto
  define y where "y = nat (m_len m) * unat (qc_inv_w (qcl e c))"
  note st = update_class_steps [OF gs Cons ml y_def refl]
  obtain j where j: "j \<le> 1" "qfq_round_down (qc_F (qcl e c)) (22 + g) = qg_S (qgroup i e g) + of_nat (j * 2 ^ (22 + g))"
    "qfq_round_down (qc_F (qcl e c)) (22 + g) = qg_S (qgroup i e g) \<longleftrightarrow> j = 0" using next_slot [OF l g c F] by blast
  show ?thesis
  proof (cases "j = 0")
    case True
    then have R: "qfq_round_down (qc_F (qcl e c)) (22 + g) = qg_S (qgroup i e g)" using j(3) by blast
    from same_slot_updated [OF l g c Cons y_def R] show ?thesis
      unfolding st using R by (intro exI [of _ False] exI [of _ "next_times c y e"] exI [of _ "L g"]) simp
  next
    case False
    then have "j = 1" using j(1) by simp
    from update_class_next [OF l g c gs Cons y_def j(2) [unfolded this]] obtain e2 e3 Lg where
      n: "qfq_front_slot_remove i g (next_times c y e) = Some e2" "class_updated Q i g c L e Lg e3"
        "qfq_slot_insert i g c (qfq_round_down (qc_F (qcl e c)) (22 + g)) e2 = Some e3" by blast
    then show ?thesis
      unfolding st using False j(3) by (intro exI [of _ True] exI [of _ e3] exI [of _ Lg]) simp
  qed
qed


section \<open>Dequeue\<close>

lemma listed_cong:
  assumes "listed Q i L e" "qcl e' = qcl e" "\<And>g. g \<le> 19 \<Longrightarrow> qgroup i e' g = qgroup i e g"
  shows "listed Q i L e'"
  using assms by (simp add: listed_def)

lemma listed_shift:
  assumes l: "listed Q i (L(g := Lg)) e" and g: "g \<le> 19" and u: "group_update i g V d st Lg e q' st' j"
    and e': "qcl e' = qcl e" "groups (qfs e' i) = groups q'"
  shows "listed Q i (L(g := \<lambda>p. Lg (p + j))) e'"
  unfolding listed_def
proof (intro allI impI conjI ballI)
  fix h assume h: "h \<le> (19::nat)"
  note ld = listedD [OF l h]
  have gr: "h \<noteq> g \<Longrightarrow> qgroup i e' h = qgroup i e h" using u by (simp add: group_update_def e'(2))
  show "ring_rep (qnext e') (qgroup i e' h) ((L(g := \<lambda>p. Lg (p + j))) h)"
    using u ld(1) gr by (cases "h = g") (simp_all add: group_update_def e')
  fix p
  show "distinct ((L(g := \<lambda>p. Lg (p + j))) h p)" using ld(2) [of "p + j"] ld(2) [of p] by (auto split: if_splits)
  fix x assume x: "x \<in> set ((L(g := \<lambda>p. Lg (p + j))) h p)"
  have "x \<in> Q \<and> qc_grp (qcl e x) = Some h \<and>
      qfq_round_down (qc_S (qcl e x)) (22 + h) = qg_S (qgroup i e' h) + of_nat (p * 2 ^ (22 + h))"
  proof (cases "h = g")
    case True
    then have xl: "x \<in> set ((L(g := Lg)) h (p + j))" using x by simp
    then have "Lg (p + j) \<noteq> []" using True by auto
    then have "qg_S (qgroup i e' h) = qg_S (qgroup i e h) + of_nat (j * 2 ^ (22 + h))"
      using u True by (auto simp: group_update_def e'(2))
    with ld(3-5) [OF xl] show ?thesis by (simp add: algebra_simps)
  next
    case False
    with x ld(3-5) [of x p] gr show ?thesis by simp
  qed
  then show "x \<in> Q" "qc_grp (qcl e' x) = Some h"
    "qfq_round_down (qc_S (qcl e' x)) (22 + h) = qg_S (qgroup i e' h) + of_nat (p * 2 ^ (22 + h))"
    by (simp_all add: e'(1))
qed

lemma listed_shift_member:
  assumes "group_update i g V d st Lg e q' st' j"
  shows "(\<exists>p. x \<in> set (Lg (p + j))) \<longleftrightarrow> (\<exists>p. x \<in> set (Lg p))"
proof
  assume "\<exists>p. x \<in> set (Lg p)"
  then obtain p where p: "x \<in> set (Lg p)" ..
  then have "Lg p \<noteq> []" by auto
  then have "j \<le> p" using assms by (auto simp: group_update_def)
  with p show "\<exists>p. x \<in> set (Lg (p + j))" by (intro exI [of _ "p - j"]) simp
qed blast

lemma qfq_idle:
  assumes rep: "qfq_rep Q i st L e" and er: "bitmaps (qfs e i) ER = 0"
  shows "st g = None" "c \<in> Q \<Longrightarrow> mq e c = []" "g \<le> 19 \<Longrightarrow> full_slots (qgroup i e g) = 0"
proof -
  have ok: "groups_ok (qfs e i) st" and l: "listed Q i L e" using rep by (auto simp: qfq_rep_def)
  show n: "st g = None" for g
    using bm_rep_empty [OF groups_okD(1) [OF ok], of ER] er groups_okD(4) [OF ok] by (auto simp: qfq_work_ok_def)
  show f: "full_slots (qgroup i e g) = 0" if "g \<le> 19" for g
    using groups_okD(2) [OF ok that] n [of g] by (simp add: grp_ok_def)
  show "mq e c = []" if "c \<in> Q"
  proof (rule ccontr)
    assume ne: "mq e c \<noteq> []"
    have "backlog_ok L e c" using rep that by (simp add: qfq_rep_def)
    with ne obtain g p where "g \<le> 19" "c \<in> set (L g p)" by (auto simp: backlog_ok_def in_slots_def)
    then show False using ring_empty [OF listedD(1) [OF l]] f by fastforce
  qed
qed

text \<open>The group chosen: the lowest eligible one, and the queue at its front, with a packet.\<close>

lemma qfq_choose:
  assumes rep: "qfq_rep Q i st L e" and er: "bitmaps (qfs e i) ER \<noteq> 0"
  shows "\<exists>g c cs m ms. qfq_ffs (bitmaps (qfs e i) ER) = Some g \<and> g \<le> 19 \<and> st g = Some ER \<and> L g 0 = c # cs \<and>
    slots (qgroup i e g) (unat (front (qgroup i e g))) = Some c \<and> c \<in> Q \<and> mq e c = m # ms"
proof -
  have ok: "groups_ok (qfs e i) st" and l: "listed Q i L e" using rep by (auto simp: qfq_rep_def)
  note r = groups_okD(1) [OF ok]
  have "bit (bitmaps (qfs e i) ER) j \<longleftrightarrow> st j = Some ER" for j using bm_repD(1) [OF r] by simp
  then obtain g where g: "qfq_ffs (bitmaps (qfs e i) ER) = Some g" "st g = Some ER" "g \<le> 19"
    using qfq_ffs_least [OF er] bm_repD(2) [OF r] by metis
  have "bit (full_slots (qgroup i e g)) 0"
    using groups_okD(2) [OF ok g(3)] g(2) by (auto simp: grp_ok_def grp_at_def)
  then obtain c cs where c: "L g 0 = c # cs"
    using ring_repD(3) [OF listedD(1) [OF l g(3)], of 0] by (auto simp: neq_Nil_conv)
  have sl: "slots (qgroup i e g) (unat (front (qgroup i e g))) = Some c"
    using ring_remove(1) [OF listedD(1) [OF l g(3)] c] .
  have cQ: "c \<in> Q" using listedD(3) [OF l g(3), of c 0] c by simp
  have "backlog_ok L e c" using rep cQ by (simp add: qfq_rep_def)
  moreover have "c \<in> set (L g 0)" using c by simp
  ultimately have "mq e c \<noteq> []" using g(3) unfolding backlog_ok_def in_slots_def by metis
  with g c sl cQ show ?thesis by (auto simp: neq_Nil_conv)
qed


definition V_step :: "mbuf \<Rightarrow> nat" where "V_step m = nat (m_len m) * 8192"

lemma V_step: "0 \<le> m_len m \<Longrightarrow> m_len m < 2 ^ 16 \<Longrightarrow> pkt_len m * IWSUM = of_nat (V_step m) \<and> V_step m \<le> 2 ^ 30"
proof -
  assume l: "0 \<le> m_len m" "m_len m < 2 ^ 16"
  then obtain n where n: "m_len m = int n" using nonneg_int_cases by blast
  then show ?thesis using l by (simp add: V_step_def pkt_len_def IWSUM_def qfq_consts)
qed

text \<open>The class and group updates of a request, for the group \<open>g\<close> and its queue \<open>c\<close> that lost a packet.\<close>

lemma serve_law:
  assumes ok: "groups_ok (qfs e i) st" and l: "listed Q i L e" and t: "qfq_timely i e" and d: "d \<le> 2 ^ 30"
    and g: "g \<le> 19" "st g = Some ER" and c: "L g 0 = c # cs"
    and F: "qc_F (qcl e c) = qc_S (qcl e c) + of_nat x" "x \<le> 2 ^ (22 + g)"
    and len: "\<forall>m\<in>set (mq e c). 0 \<le> m_len m \<and> m_len m < 2 ^ 16"
  defines "e1 \<equiv> upd_qf i (\<lambda>q. q\<lparr>qf_V := qf_V q + of_nat d\<rparr>) e"
  shows "\<exists>u e2 e3 Lg st' j. qfq_update_class i g c e1 = Some (u, e2) \<and> class_updated Q i g c L e1 Lg e2 \<and>
    (if u then qfq_update_group i g e2 else Some e2) = Some e3 \<and>
    qfs e3 = (qfs e2)(i := qfs e3 i) \<and> qcl e3 = qcl e2 \<and> qs e3 = qs e2 \<and> freed e3 = freed e2 \<and>
    group_update i g (qf_V (qfs e i)) d st Lg e2 (qfs e3 i) st' j"
proof -
  have l1: "listed Q i L e1" by (rule listed_cong [OF l]) (simp_all add: e1_def)
  have gs1: "grp_static g (qgroup i e1 g)" using groups_okD(5) [OF ok g(1)] by (simp add: e1_def)
  obtain u e2 Lg where u: "qfq_update_class i g c e1 = Some (u, e2)" "class_updated Q i g c L e1 Lg e2"
    "\<not> u \<longrightarrow> Lg = L g \<and> qfs e2 = qfs e1"
    using update_class_law [OF l1 g(1) c gs1 _ F(2)] F(1) len by (auto simp: e1_def)
  obtain n where n: "n \<le> 2 ^ 18" "grp_at g (qf_V (qfs e i)) n (qgroup i e g)" "0 < n"
    using grp_distance [OF ok t g] by auto
  obtain a b where q2: "qfs e2 = (qfs e1)(i := upd_qg g (\<lambda>r. r\<lparr>slots := a, full_slots := b\<rparr>) (qfs e1 i))"
    using u(2) by (auto simp: class_updated_def)
  define q where "q = qfs e2 i"
  have q: "qf_V q = qf_V (qfs e i) + of_nat d" "bm_rep st (bitmaps q)"
    using groups_okD(1) [OF ok] by (simp_all add: q_def q2 e1_def)
  have gr2: "groups q g = (qgroup i e g)\<lparr>slots := a, full_slots := b\<rparr>" by (simp add: q_def q2 e1_def)
  have l2: "listed Q i (L(g := Lg)) e2" using u(2) by (simp add: class_updated_def)
  have S: "qfq_round_down (qc_S (qcl e2 c)) (22 + g) = qg_S (qgroup i e2 g) + of_nat (p * 2 ^ (22 + g))"
    if "c \<in> set (Lg p)" for p c using listedD(5) [OF l2 g(1), of c p] that by simp
  have ring: "ring_rep (qnext e2) (groups q g) Lg" using listedD(1) [OF l2 g(1)] by (simp add: q_def)
  have pos: "p \<le> n" if "Lg p \<noteq> []" for p
  proof -
    have "L g p \<noteq> [] \<or> p \<le> 1" using u(2) that by (simp add: class_updated_def)
    then show ?thesis
      using n(2,3) ring_repD(3) [OF listedD(1) [OF l g(1)], of p] by (auto simp: grp_at_def)
  qed
  have at: "at_gap (22 + g) (qf_V (qfs e i)) (qg_S (groups q g)) n" "qg_F (groups q g) = qg_S (groups q g) + push_bit (22 + g) 2"
    using n(2) by (simp_all add: gr2 grp_at_def)
  have gs: "grp_static g (groups q g)" using groups_okD(5) [OF ok g(1)] by (simp add: gr2 grp_static_def)
  show ?thesis
  proof (cases u)
    case True
    obtain q' st' j where "qfq_update_group i g e2 = Some (upd_qf i (\<lambda>_. q') e2)"
      "group_update i g (qf_V (qfs e i)) d st Lg e2 q' st' j"
      using update_group_law [OF q(2) [unfolded q_def] g(2,1) groups_okD(3) [OF ok] q(1) [unfolded q_def] d
          ring [unfolded q_def] gs [unfolded q_def] at(2) [unfolded q_def] at(1) [unfolded q_def] n(3,1) pos S] by blast
    with u(1,2) True show ?thesis
      by (intro exI [of _ u] exI [of _ e2] exI [of _ "upd_qf i (\<lambda>_. q') e2"] exI [of _ Lg] exI [of _ st'] exI [of _ j]) simp
  next
    case False
    then have same: "Lg = L g" "qfs e2 = qfs e1" using u(3) by auto
    have "grp_pre (qf_V (qfs e i)) d g (groups q g) (st g)"
      using grp_pre_start [OF ok t g(1), of d] same by (simp add: q_def e1_def)
    then have "group_update i g (qf_V (qfs e i)) d st Lg e2 (qfs e2 i) st 0"
      using q ring groups_okD(3) [OF ok] by (simp add: group_update_def q_def [symmetric])
    with u(1,2) False show ?thesis
      by (intro exI [of _ u] exI [of _ e2] exI [of _ e2] exI [of _ Lg] exI [of _ st] exI [of _ 0]) simp
  qed
qed


lemma served_rep:
  assumes rep: "qfq_rep Q i st L e" and g: "g \<le> 19" and c: "L g 0 = c # cs" and m: "mq e c = m # ms" "mq e1 c = ms"
    "\<And>x. x \<noteq> c \<Longrightarrow> mq e1 x = mq e x" "qcl e1 = qcl e"
    and cu: "class_updated Q i g c L e1 Lg e2" and gu: "group_update i g V d st Lg e2 q' st' j"
    and e': "qcl e' = qcl e2" "qs e' = qs e2" "groups (qfs e' i) = groups q'" "groups_ok (qfs e' i) st''"
  shows "qfq_rep Q i st'' (L(g := \<lambda>p. Lg (p + j))) e'"
proof -
  have l: "listed Q i L e" and cls: "\<And>c. c \<in> Q \<Longrightarrow> class_ok e c \<and> backlog_ok L e c" using rep by (auto simp: qfq_rep_def)
  let ?L = "L(g := \<lambda>p. Lg (p + j))"
  note u = cu [unfolded class_updated_def]
  have only: "c \<notin> set (L h p)" if "h \<le> 19" "h \<noteq> g" for h p
    using listed_unique [OF l that(1) g, of c p 0] that(2) c by auto
  have in_iff: "in_slots ?L x \<longleftrightarrow> (\<exists>h\<le>19. h \<noteq> g \<and> (\<exists>p. x \<in> set (L h p))) \<or> (\<exists>p. x \<in> set (Lg p))" for x
    unfolding listed_shift_member [OF gu, of x, symmetric] in_slots_def using g by auto
  have inc: "in_slots ?L c \<longleftrightarrow> ms \<noteq> []" using u only m(2) unfolding in_iff by auto
  have ino: "in_slots ?L x \<longleftrightarrow> in_slots L x" if "x \<noteq> c" for x
    unfolding in_iff unfolding in_slots_def using u that g by metis
  have "class_ok e' x \<and> backlog_ok ?L e' x" if x: "x \<in> Q" for x
  proof (cases "x = c")
    case False
    then have "qcl e' x = qcl e x" "mq e' x = mq e x" using u m(3,4) e'(1,2) by auto
    with cls [OF x] ino [OF False] show ?thesis by (simp add: class_ok_def backlog_ok_def)
  next
    case True
    have "qc_grp (qcl e' c) = qc_grp (qcl e c)" "qc_inv_w (qcl e' c) = qc_inv_w (qcl e c)" "mq e' c = ms"
      using u m e' by auto
    with cls [OF x] True inc u m(1,2,4) e'(1) show ?thesis by (auto simp: class_ok_def backlog_ok_def)
  qed
  moreover have "listed Q i ?L e'" by (rule listed_shift [OF _ g gu e'(1,3)]) (use u in simp)
  ultimately show ?thesis using e'(4) by (simp add: qfq_rep_def)
qed

lemma dequeue_steps:
  assumes "bitmaps (qfs e i) ER \<noteq> 0" "qfq_ffs (bitmaps (qfs e i) ER) = Some g"
    "slots (qgroup i e g) (unat (front (qgroup i e g))) = Some c" "dn_dequeue c e = (Some m, e0)"
    "qfq_update_class i g c (upd_qf i (\<lambda>q. q\<lparr>qf_V := qf_V q + pkt_len m * IWSUM\<rparr>) e0) = Some (u, e2)"
    "(if u then qfq_update_group i g e2 else Some e2) = Some e3"
    "qfq_update_eligible (qf_V (qfs e0 i)) (qfs e3 i) = Some q"
  shows "qfq_dequeue i e = Some (Some m, upd_qf i (\<lambda>_. q) e3)"
  using assms(1) by (simp add: qfq_dequeue_def assms(2-7))

text \<open>A request returns. It takes the head of a queue whenever one has a packet, and keeps the invariant.\<close>

lemma dequeue_some:
  assumes rep: "qfq_rep Q i st L e" and t: "qfq_timely i e" and er: "bitmaps (qfs e i) ER \<noteq> 0"
  shows "\<exists>c m ms e' st' L'. qfq_dequeue i e = Some (Some m, e') \<and> qfq_rep Q i st' L' e' \<and> c \<in> Q \<and>
    mq e c = m # ms \<and> mq e' c = ms \<and> (\<forall>x. x \<noteq> c \<longrightarrow> mq e' x = mq e x) \<and> freed e' = freed e"
proof -
  have ok: "groups_ok (qfs e i) st" and l: "listed Q i L e" and cls: "\<And>c. c \<in> Q \<Longrightarrow> class_ok e c \<and> backlog_ok L e c"
    using rep by (auto simp: qfq_rep_def)
  obtain g c cs m ms where ch: "qfq_ffs (bitmaps (qfs e i) ER) = Some g" "g \<le> 19" "st g = Some ER" "L g 0 = c # cs"
    "slots (qgroup i e g) (unat (front (qgroup i e g))) = Some c" "c \<in> Q" "mq e c = m # ms"
    using qfq_choose [OF rep er] by blast
  obtain e0 where dq: "dn_dequeue c e = (Some m, e0)" "queue_step c ms [] e e0"
    using dn_dequeue_step [of c e] ch(7) by (metis list.distinct(1) list.inject prod.exhaust)
  note q0 = queue_step_qfq [OF dq(2)]
  have m0: "mq e0 c = ms" "\<And>x. x \<noteq> c \<Longrightarrow> mq e0 x = mq e x" "freed e0 = freed e"
    using dq(2) by (auto simp: queue_step_def)
  have cg: "qc_grp (qcl e c) = Some g" using listedD(4) [OF l ch(2), of c 0] ch(4) by simp
  then have len: "\<forall>m\<in>set (mq e c). 0 \<le> m_len m \<and> m_len m < 2 ^ 16 \<and>
      nat (m_len m) * unat (qc_inv_w (qcl e c)) \<le> 2 ^ (22 + g)"
    using cls [OF ch(6)] by (auto simp: class_ok_def)
  have vs: "pkt_len m * IWSUM = of_nat (V_step m)" "V_step m \<le> 2 ^ 30" using V_step [of m] len ch(7) by auto
  define x where "x = nat (m_len m) * unat (qc_inv_w (qcl e c))"
  have F: "qc_F (qcl e0 c) = qc_S (qcl e0 c) + of_nat x" "x \<le> 2 ^ (22 + g)"
    using cls [OF ch(6)] len ch(7) by (auto simp: backlog_ok_def x_def q0)
  have l0: "listed Q i L e0" by (rule listed_cong [OF l]) (simp_all add: q0)
  have t0: "qfq_timely i e0" using t by (simp add: qfq_timely_def q0)
  have len0: "\<forall>m\<in>set (mq e0 c). 0 \<le> m_len m \<and> m_len m < 2 ^ 16" using len ch(7) m0(1) by simp
  define e1 where "e1 = upd_qf i (\<lambda>q. q\<lparr>qf_V := qf_V q + of_nat (V_step m)\<rparr>) e0"
  obtain u e2 e3 Lg st' j where sv: "qfq_update_class i g c e1 = Some (u, e2)" "class_updated Q i g c L e1 Lg e2"
    "(if u then qfq_update_group i g e2 else Some e2) = Some e3" "qfs e3 = (qfs e2)(i := qfs e3 i)"
    "qcl e3 = qcl e2" "qs e3 = qs e2" "freed e3 = freed e2"
    "group_update i g (qf_V (qfs e0 i)) (V_step m) st Lg e2 (qfs e3 i) st' j"
    using serve_law [OF ok [folded q0(1)] l0 t0 vs(2) ch(2,3,4) F len0, folded e1_def] by blast
  note gu = sv(8) [unfolded group_update_def] and cu = sv(2) [unfolded class_updated_def]
  define q where "q = qfs e3 i"
  have pre: "grp_pre (qf_V (qfs e i)) (V_step m) h (groups q h) (st' h)" if h: "h \<le> 19" for h
  proof (cases "h = g")
    case False
    have "qgroup i e2 h = qgroup i e h" using cu False by (auto simp: e1_def q0)
    then have "grp_pre (qf_V (qfs e i)) (V_step m) h (groups q h) (st h)"
      using grp_pre_start [OF ok t h] gu False by (simp add: q_def)
    then show ?thesis using gu False grp_pre_unblocked [of _ _ h "groups q h" st g] by auto
  qed (use gu in \<open>simp add: q_def q0\<close>)
  have V2: "qf_V (qfs e2 i) = qf_V (qfs e i) + of_nat (V_step m)" using cu by (auto simp: e1_def q0)
  obtain v b st'' where el: "qfq_update_eligible (qf_V (qfs e i)) q = Some (q\<lparr>qf_V := v, bitmaps := b\<rparr>)"
    "groups_ok (q\<lparr>qf_V := v, bitmaps := b\<rparr>) st''"
    using update_eligible_law [of st' q "qf_V (qfs e i)" "V_step m"] gu pre vs(2) V2 by (auto simp: q_def)
  define e' where "e' = upd_qf i (\<lambda>_. q\<lparr>qf_V := v, bitmaps := b\<rparr>) e3"
  have "qfq_dequeue i e = Some (Some m, e')"
    unfolding e'_def
    by (rule dequeue_steps [OF er ch(1,5) dq(1)]) (use sv(1,3) el(1) in \<open>simp_all add: vs(1) e1_def q0(1) q_def\<close>)
  moreover have "qfq_rep Q i st'' (L(g := \<lambda>p. Lg (p + j))) e'"
    by (rule served_rep [OF rep ch(2,4,7) _ _ _ sv(2,8)]) (use el(2) in \<open>simp_all add: m0 q0 e1_def e'_def sv(5-7) q_def\<close>)
  moreover have "mq e' c = ms" "\<forall>x. x \<noteq> c \<longrightarrow> mq e' x = mq e x" "freed e' = freed e"
    using m0 cu by (simp_all add: e'_def sv(5-7) e1_def)
  ultimately show ?thesis using ch(6,7) by blast
qed

lemma qfq_dequeue_law:
  assumes inv: "qfq_inv Q i e" and t: "qfq_timely i e"
  shows "\<exists>p e'. qfq_dequeue i e = Some (p, e') \<and> qfq_inv Q i e' \<and> deq_outcome Q p e e'"
proof -
  obtain st L where rep: "qfq_rep Q i st L e" using inv by (auto simp: qfq_inv_def)
  show ?thesis
  proof (cases "bitmaps (qfs e i) ER = 0")
    case True
    then have "qfq_dequeue i e = Some (None, e)" by (simp add: qfq_dequeue_def)
    moreover have "deq_outcome Q None e e" using qfq_idle(2) [OF rep True] by (simp add: deq_outcome_def)
    ultimately show ?thesis using inv by blast
  next
    case False
    from dequeue_some [OF rep t this] obtain c m ms e' st' L' where d: "qfq_dequeue i e = Some (Some m, e')"
      "qfq_rep Q i st' L' e'" "c \<in> Q" "mq e c = m # ms" "mq e' c = ms" "\<forall>x. x \<noteq> c \<longrightarrow> mq e' x = mq e x" "freed e' = freed e"
      by blast
    moreover have "qfq_inv Q i e'" using d(2) by (auto simp: qfq_inv_def)
    moreover have "deq_outcome Q (Some m) e e'" using d by (auto simp: deq_outcome_def)
    ultimately show ?thesis by blast
  qed
qed

end
