(* ===== verification/QfqEnq.thy ===== *)
theory QfqEnq
  imports QfqOk
begin

text \<open>
  Enqueueing in QFQ: the start time given to a queue that was idle, the change of its group, and
  the insertion in a slot. The result is that the invariant of theory \<open>QfqOk\<close> is kept.
\<close>

section \<open>The start time\<close>

text \<open>
  The start time \<open>S\<close> a queue of group \<open>g\<close> may get: \<open>n\<close> slots behind the boundary after \<open>V\<close>, and
  more than one slot behind only when it is the finish time of the first eligible group above.
\<close>

definition start_at :: "nat \<Rightarrow> (nat \<Rightarrow> nat option) \<Rightarrow> qfq_sched \<Rightarrow> u64 \<Rightarrow> nat \<Rightarrow> bool" where
  "start_at g st q S n \<longleftrightarrow> n \<le> 30 \<and> at_gap (22 + g) (qf_V q) (qfq_round_down S (22 + g)) n \<and>
     (2 \<le> n \<longrightarrow> (\<exists>h\<ge>g. st h = Some ER \<and> (\<forall>x\<ge>g. st x = Some ER \<longrightarrow> h \<le> x) \<and> S = qg_F (groups q h)))"

text \<open>
  The condition under which a queue may become busy, executable: its start time, and that of its group if the group has
  queues, are less than 31 slots behind the virtual time. This is the window of the slots of the group, which the source
  takes for granted (the comment marked XXX in \<open>qfq_slot_insert\<close>).
\<close>

definition qfq_start_ok :: "siid \<Rightarrow> qid \<Rightarrow> 'x qfq_env_scheme \<Rightarrow> bool" where
  "qfq_start_ok i c e \<longleftrightarrow> (case qc_grp (qcl e c) of None \<Rightarrow> False | Some g \<Rightarrow>
     (full_slots (qgroup i e g) \<noteq> 0 \<longrightarrow> slots_behind (22 + g) (qf_V (qfs e i)) (qg_S (qgroup i e g)) \<le> 30) \<and>
     (case qfq_update_start i g c e of None \<Rightarrow> False | Some e' \<Rightarrow>
        slots_behind (22 + g) (qf_V (qfs e i)) (qfq_round_down (qc_S (qcl e' c)) (22 + g)) \<le> 30))"

lemma at_gap_small:
  assumes "at_gap k V S n" "at_gap k V S m" "n \<le> 30" "m \<le> 30" "k \<le> 41"
  shows "n = m"
  using at_gap_unique [OF assms(1,2)] slot_number(2) [OF assms(3,5)] slot_number(2) [OF assms(4,5)] by simp

lemma update_start_law:
  assumes r: "bm_rep st (bitmaps (qfs e i))" and g: "g \<le> 19" "grp_static g (qgroup i e g)" "qc_grp (qcl e c) = Some g"
    and ok: "qfq_start_ok i c e"
  shows "\<exists>S n. qfq_update_start i g c e = Some (upd_qc c (\<lambda>r. r\<lparr>qc_S := S\<rparr>) e) \<and> start_at g st (qfs e i) S n"
proof -
  define q where "q = qfs e i"
  define F where "F = qc_F (qcl e c)"
  let ?k = "22 + g"
  have sh: "slot_shift (groups q g) = ?k" "qg_index (groups q g) = g" using g(2) by (simp_all add: q_def grp_static_def)
  have one: "(push_bit ?k 1 :: u64) = 2 ^ ?k" by simp
  note def = qfq_update_start_def [of i g c e, folded q_def F_def, unfolded Let_def sh]
  have bnd: "\<exists>n\<le>30. at_gap ?k (qf_V q) (qfq_round_down S ?k) n"
    if "qfq_update_start i g c e = Some (upd_qc c (\<lambda>r. r\<lparr>qc_S := S\<rparr>) e)" for S
    using ok g(1,3) that by (intro at_gap_bounded) (simp_all add: qfq_start_ok_def q_def)
  have small: "\<exists>n. start_at g st q S n"
    if a: "\<exists>m\<le>1. at_gap ?k (qf_V q) (qfq_round_down S ?k) m" for S
  proof -
    obtain m where m: "m \<le> 1" "at_gap ?k (qf_V q) (qfq_round_down S ?k) m" using a by blast
    then show ?thesis by (intro exI [of _ m]) (simp add: start_at_def)
  qed
  show ?thesis
  proof (cases "\<not> qfq_gt F (qf_V q) \<or> qfq_gt (qfq_round_down F ?k) (qfq_round_down (qf_V q) ?k + push_bit ?k 1)")
    case False
    then have u: "qfq_update_start i g c e = Some (upd_qc c (\<lambda>r. r\<lparr>qc_S := F\<rparr>) e)" by (simp add: def)
    have "\<exists>m\<le>1. at_gap ?k (qf_V q) (qfq_round_down F ?k) m" using False g(1) one by (intro at_gap_fresh) auto
    from small [OF this] u show ?thesis unfolding q_def [symmetric] by blast
  next
    case True
    show ?thesis
    proof (cases "\<exists>h. mask_from (bitmaps q ER) g \<noteq> 0 \<and> qfq_ffs (mask_from (bitmaps q ER) g) = Some h \<and>
        qfq_gt (qfq_round_down F ?k) (qg_F (groups q h))")
      case False
      have "qfq_update_start i g c e = Some (upd_qc c (\<lambda>r. r\<lparr>qc_S := qf_V q\<rparr>) e)"
      proof (cases "mask_from (bitmaps q ER) g = 0")
        case ne: False
        obtain h where "qfq_ffs (mask_from (bitmaps q ER) g) = Some h"
          using mask_from_ffs [OF r [folded q_def] ne] g(1) by auto
        with ne False True show ?thesis by (simp add: def)
      qed (use True in \<open>simp add: def\<close>)
      moreover have "\<exists>m\<le>1. at_gap ?k (qf_V q) (qfq_round_down (qf_V q) ?k) m" using at_gap_self g(1) by (intro exI [of _ 1]) simp
      ultimately show ?thesis using small unfolding q_def [symmetric] by blast
    next
      case blk: True
      then obtain h where h: "mask_from (bitmaps q ER) g \<noteq> 0" "qfq_ffs (mask_from (bitmaps q ER) g) = Some h"
        "qfq_gt (qfq_round_down F ?k) (qg_F (groups q h))" by blast
      have u: "qfq_update_start i g c e = Some (upd_qc c (\<lambda>r. r\<lparr>qc_S := qg_F (groups q h)\<rparr>) e)"
        using True h by (simp add: def)
      obtain n where n: "n \<le> 30" "at_gap ?k (qf_V q) (qfq_round_down (qg_F (groups q h)) ?k) n" using bnd [OF u] by blast
      have "st h = Some ER \<and> g \<le> h \<and> (\<forall>x\<ge>g. st x = Some ER \<longrightarrow> h \<le> x)"
        using mask_from_ffs [OF r [folded q_def] h(1)] g(1) h(2) by auto
      then have "start_at g st q (qg_F (groups q h)) n" using n by (auto simp: start_at_def)
      with u show ?thesis unfolding q_def by blast
    qed
  qed
qed

section \<open>The group\<close>

text \<open>What the change of the group prepares: the slot \<open>p\<close> of the queue, the lists moved on by \<open>s\<close> slots.\<close>

definition group_started :: "nat \<Rightarrow> qfq_sched \<Rightarrow> (nat \<Rightarrow> qid list) \<Rightarrow> (qid \<Rightarrow> qid option) \<Rightarrow> u64 \<Rightarrow>
    qfq_sched \<Rightarrow> (nat \<Rightarrow> nat option) \<Rightarrow> nat \<Rightarrow> nat \<Rightarrow> bool" where
  "group_started g q Lg nxt S q' st' p s \<longleftrightarrow>
     ring_rep nxt (groups q' g) (\<lambda>x. if x < s then [] else Lg (x - s)) \<and> grp_static g (groups q' g) \<and>
     p \<le> 30 \<and> qfq_round_down S (22 + g) = qg_S (groups q' g) + of_nat (p * 2 ^ (22 + g)) \<and>
     ((\<exists>x. Lg x \<noteq> []) \<longrightarrow> qg_S (groups q g) = qg_S (groups q' g) + of_nat (s * 2 ^ (22 + g))) \<and>
     (\<forall>h. h \<noteq> g \<longrightarrow> groups q' h = groups q h) \<and> qf_wsum q' = qf_wsum q \<and>
     (\<forall>a. groups_ok (upd_qg g (\<lambda>r. r\<lparr>slots := a, full_slots := Bit_Operations.set_bit p (full_slots r)\<rparr>) q') st')"

text \<open>First case: the queue starts after the group, which is left alone.\<close>

lemma start_group_same:
  assumes ok: "groups_ok q st" and g: "g \<le> 19" and ring: "ring_rep nxt (groups q g) Lg"
    and t: "st g = Some t" "n \<le> 30" "grp_at g (qf_V q) n (groups q g)" "odd t \<longleftrightarrow> n = 0"
    and s: "start_at g st q S m" and le: "m \<le> n"
  shows "qfq_start_group g S (qfq_round_down S (22 + g)) q = Some q \<and> group_started g q Lg nxt S q st (n - m) 0"
proof -
  let ?k = "22 + g"
  have at: "at_gap ?k (qf_V q) (qg_S (groups q g)) n" "at_gap ?k (qf_V q) (qfq_round_down S ?k) m" "m \<le> 30"
    using t(3) s by (auto simp: grp_at_def start_at_def)
  have ngt: "\<not> qfq_gt (qg_S (groups q g)) S" using gap_order [OF at(1,2) _ t(2) at(3)] le g by simp
  have full: "full_slots (groups q g) \<noteq> 0" using t(3) by (auto simp: grp_at_def)
  have "qfq_start_group g S (qfq_round_down S ?k) q = Some q"
    using full ngt by (simp add: qfq_start_group_def Let_def)
  moreover have "qfq_round_down S ?k = qg_S (groups q g) + of_nat ((n - m) * 2 ^ ?k)"
  proof -
    have "of_nat (n * 2 ^ ?k) = (of_nat ((n - m) * 2 ^ ?k) :: u64) + of_nat (m * 2 ^ ?k)"
      unfolding of_nat_add [symmetric] add_mult_distrib [symmetric] using le by simp
    moreover have "qfq_round_down S ?k + of_nat (m * 2 ^ ?k) = qg_S (groups q g) + of_nat (n * 2 ^ ?k)"
      using at(1,2) unfolding at_gap_def by simp
    ultimately show ?thesis by (simp only: add.assoc [symmetric] add_right_cancel)
  qed
  moreover have "groups_ok (upd_qg g (\<lambda>r. r\<lparr>slots := a, full_slots := Bit_Operations.set_bit (n - m) (full_slots r)\<rparr>) q) st" for a
  proof -
    have "grp_ok (qf_V q) g ((groups q g)\<lparr>slots := a, full_slots := Bit_Operations.set_bit (n - m) (full_slots (groups q g))\<rparr>) (Some t)"
      using t groups_okD(5) [OF ok g]
      by (auto simp: grp_ok_def grp_static_def grp_at_def bit_set_bit_iff intro!: exI [of _ n])
    then show ?thesis using ok t(1) by (simp add: groups_ok_def)
  qed
  ultimately show ?thesis using ring t(2) groups_okD(5) [OF ok g] by (simp add: group_started_def)
qed


text \<open>The new state of the group, once its start time is the slot of the queue.\<close>

lemma start_group_state:
  assumes r: "bm_rep st (bitmaps q)" and g: "g \<le> 19" "grp_static g (groups q g)"
    and G: "qg_S (groups q g) = qfq_round_down S (22 + g)" "qg_F (groups q g) = qfq_round_down S (22 + g) + push_bit (22 + g) 2"
    and at: "at_gap (22 + g) (qf_V q) (qfq_round_down S (22 + g)) n" "n \<le> 30"
    and bits: "\<And>x. bit (full_slots (groups q g)) x \<Longrightarrow> x \<le> n"
    and oth: "\<And>h. h \<le> 19 \<Longrightarrow> h \<noteq> g \<Longrightarrow> grp_ok (qf_V q) h (groups q h) (st h)"
    and sg: "st g = None \<or> st g = Some EB \<and> 0 < n \<and>
      (\<exists>h\<ge>g. st h = Some ER \<and> (\<forall>x\<ge>g. st x = Some ER \<longrightarrow> h \<le> x) \<and> S = qg_F (groups q h))"
    and bl: "qfq_blocked_ok st" and work: "(\<exists>h. st h = Some ER) \<or> 0 < n \<and> (\<forall>h. st h = None)"
  shows "\<exists>t b. qfq_calc_state q g = Some t \<and> bm_set g (bitmaps q t) = Some b \<and>
    (\<forall>a. groups_ok (upd_qg g (\<lambda>r. r\<lparr>slots := a, full_slots := Bit_Operations.set_bit 0 (full_slots r)\<rparr>)
       (upd_bm t (\<lambda>_. b) q)) (st(g := Some t)))"
proof -
  let ?k = "22 + g"
  have ix: "qg_index (groups q g) = g" using g(2) by (simp add: grp_static_def)
  obtain t where t: "t < 4" "qfq_calc_state q g = Some t" "odd t \<longleftrightarrow> qfq_gt (qg_S (groups q g)) (qf_V q)"
    and blk: "2 \<le> t \<longleftrightarrow> (\<exists>n. st n = Some ER \<and> g \<le> n \<and> (\<forall>h\<ge>g. st h = Some ER \<longrightarrow> n \<le> h) \<and>
       qfq_gt (qg_F (groups q g)) (qg_F (groups q n)))"
    using calc_state_law [OF r g(1) ix] by blast
  have odd: "odd t \<longleftrightarrow> n = 0" unfolding t(3) G(1) using at g(1) by (intro at_gap_gt) auto
  have nER: "st g \<noteq> Some ER" using sg by auto
  have ready: "\<exists>h>g. st h = Some ER" if "2 \<le> t"
    using blk that nER by (metis le_neq_implies_less)
  have same: "st g = Some t" if EB: "st g = Some EB"
  proof -
    obtain h where h: "h \<ge> g" "st h = Some ER" "\<forall>x\<ge>g. st x = Some ER \<longrightarrow> h \<le> x" "S = qg_F (groups q h)"
      using sg EB by auto
    have gt: "qfq_gt (qg_F (groups q g)) S" unfolding G(2) using g(1) by (intro gt_two_slots) simp
    then have "2 \<le> t" using blk h by blast
    moreover have "even t" using odd sg EB by simp
    ultimately have "t = EB" using state_cases [OF t(1)] by (auto simp: qfq_state_defs)
    with EB show ?thesis by simp
  qed
  obtain b where b: "bm_set g (bitmaps q t) = Some b" "bm_rep (st(g := Some t)) ((bitmaps q)(t := b))"
    using bm_set_rep [OF r g(1) t(1)] sg same by auto
  have "groups_ok (upd_qg g (\<lambda>r. r\<lparr>slots := a, full_slots := Bit_Operations.set_bit 0 (full_slots r)\<rparr>)
       (upd_bm t (\<lambda>_. b) q)) (st(g := Some t))" (is "groups_ok ?q ?st") for a
  proof -
    have "grp_ok (qf_V q) h (groups ?q h) (?st h)" if h: "h \<le> 19" for h
    proof (cases "h = g")
      case True
      have "grp_at g (qf_V q) n (groups ?q g)"
        using G at(1) bits by (auto simp: grp_at_def bit_set_bit_iff)
      with True odd g(2) at(2) show ?thesis by (auto simp: grp_ok_def grp_static_def intro!: exI [of _ n])
    qed (use oth [OF h] in simp)
    moreover have "qfq_blocked_ok ?st"
      unfolding qfq_blocked_ok_def
    proof (intro allI impI)
      fix x assume x: "?st x = Some EB \<or> ?st x = Some IB"
      have "\<exists>h>x. st h = Some ER"
      proof (cases "x = g")
        case True
        then have "2 \<le> t" using x by (auto simp: EB_def IB_def)
        with ready True show ?thesis by simp
      qed (use x bl in \<open>auto simp: qfq_blocked_ok_def\<close>)
      then obtain h where "h > x" "st h = Some ER" by blast
      then show "\<exists>h>x. ?st h = Some ER" using nER by (intro exI [of _ h]) auto
    qed
    moreover have "qfq_work_ok ?st"
    proof -
      have "\<exists>h. ?st h = Some ER"
      proof (cases "\<exists>h. st h = Some ER")
        case True
        then obtain h where h: "st h = Some ER" ..
        with nER have "?st h = Some ER" by auto
        then show ?thesis ..
      next
        case False
        then have "even t" "\<not> 2 \<le> t" using work odd ready by auto
        then have "t = ER" using state_cases [OF t(1)] by (auto simp: qfq_state_defs)
        then show ?thesis by (intro exI [of _ g]) simp
      qed
      then show ?thesis by (simp add: qfq_work_ok_def)
    qed
    ultimately show ?thesis using b(2) by (simp add: groups_ok_def)
  qed
  with t(2) b(1) show ?thesis by blast
qed


definition set_times :: "nat \<Rightarrow> u64 \<Rightarrow> qfq_sched \<Rightarrow> qfq_sched" where
  "set_times g R q = upd_qg g (\<lambda>r. r\<lparr>qg_S := R, qg_F := R + push_bit (22 + g) 2\<rparr>) q"

lemma set_times_simps [simp]:
  "bitmaps (set_times g R q) = bitmaps q" "qf_V (set_times g R q) = qf_V q" "qf_wsum (set_times g R q) = qf_wsum q"
  "groups (set_times g R q) = (groups q)(g := (groups q g)\<lparr>qg_S := R, qg_F := R + push_bit (22 + g) 2\<rparr>)"
  by (simp_all add: set_times_def)

text \<open>Second case: the group was empty. \<open>V\<close> may jump when nothing is eligible.\<close>

lemma start_group_empty:
  assumes ok: "groups_ok q st" and g: "g \<le> 19" and ring: "ring_rep nxt (groups q g) Lg" and none: "st g = None"
    and s: "start_at g st q S n"
  shows "\<exists>q' st'. qfq_start_group g S (qfq_round_down S (22 + g)) q = Some q' \<and> group_started g q Lg nxt S q' st' 0 0"
proof -
  let ?k = "22 + g" and ?R = "qfq_round_down S (22 + g)"
  have f0: "full_slots (groups q g) = 0" using groups_okD(2) [OF ok g] none by (simp add: grp_ok_def)
  have gs: "grp_static g (groups q g)" by (rule groups_okD(5) [OF ok g])
  have at: "at_gap ?k (qf_V q) ?R n" "n \<le> 30" using s by (auto simp: start_at_def)
  define jump where "jump \<longleftrightarrow> bitmaps q ER = 0 \<and> qfq_gt ?R (qf_V q)"
  define q1 where "q1 = (if jump then q\<lparr>qf_V := ?R\<rparr> else q)"
  define q2 where "q2 = set_times g ?R q1"
  have q1: "bitmaps q1 = bitmaps q" "groups q1 = groups q" "qf_wsum q1 = qf_wsum q" "qf_V q1 = (if jump then ?R else qf_V q)"
    by (simp_all add: q1_def)
  have idle: "st h = None" if "bitmaps q ER = 0" for h
    using bm_rep_empty [OF groups_okD(1) [OF ok], of ER] groups_okD(4) [OF ok] that by (auto simp: qfq_work_ok_def)
  define m where "m = (if jump then 1 else n)"
  have "at_gap ?k ?R ?R 1" using at_gap_self [of ?k ?R] g by (simp add: round_down_idem)
  then have atm: "at_gap ?k (qf_V q2) ?R m" "m \<le> 30" using at by (simp_all add: q2_def q1 m_def)
  have pos: "0 < m" if "bitmaps q ER = 0"
    using at_gap_gt [OF at(1)] at(2) g that by (cases "n = 0") (auto simp: m_def jump_def)
  have work: "(\<exists>h. st h = Some ER) \<or> 0 < m \<and> (\<forall>h. st h = None)"
    using idle pos bm_rep_empty [OF groups_okD(1) [OF ok], of ER] by auto
  have r2: "bm_rep st (bitmaps q2)" and G: "qg_S (groups q2 g) = ?R" "qg_F (groups q2 g) = ?R + push_bit ?k 2"
    "grp_static g (groups q2 g)" and bits: "bit (full_slots (groups q2 g)) x \<Longrightarrow> x \<le> m" for x
    using groups_okD(1) [OF ok] gs f0 by (simp_all add: q2_def q1 grp_static_def)
  have oth: "grp_ok (qf_V q2) h (groups q2 h) (st h)" if h: "h \<le> 19" "h \<noteq> g" for h
  proof (cases jump)
    case True
    then have "st h = None" using idle by (simp add: jump_def)
    with groups_okD(2) [OF ok h(1)] h(2) show ?thesis by (simp add: q2_def q1 grp_ok_def)
  qed (use groups_okD(2) [OF ok h(1)] h(2) in \<open>simp add: q2_def q1\<close>)
  have sg: "st g = None \<or> st g = Some EB \<and> 0 < m \<and>
      (\<exists>h\<ge>g. st h = Some ER \<and> (\<forall>x\<ge>g. st x = Some ER \<longrightarrow> h \<le> x) \<and> S = qg_F (groups q2 h))" using none by simp
  obtain t b where tb: "qfq_calc_state q2 g = Some t" "bm_set g (bitmaps q2 t) = Some b"
    "\<And>a. groups_ok (upd_qg g (\<lambda>r. r\<lparr>slots := a, full_slots := Bit_Operations.set_bit 0 (full_slots r)\<rparr>)
       (upd_bm t (\<lambda>_. b) q2)) (st(g := Some t))"
    using start_group_state [OF r2 g G(3,1,2) atm bits oth sg groups_okD(3) [OF ok] work] by blast
  have tb2: "bm_set g (bitmaps q1 t) = Some b" using tb(2) by (simp add: q2_def)
  have e2: "upd_qg g (\<lambda>r. r\<lparr>qg_S := ?R, qg_F := ?R + push_bit (slot_shift r) 2\<rparr>) q1 = q2"
    using gs by (simp add: q2_def set_times_def upd_qg_def q1 grp_static_def)
  have "qfq_start_group g S ?R q = Some (upd_bm t (\<lambda>_. b) q2)"
    using f0 gs unfolding qfq_start_group_def Let_def jump_def [symmetric] q1_def [symmetric]
    by (simp add: e2 tb(1) tb2 grp_static_def)
  moreover have "group_started g q Lg nxt S (upd_bm t (\<lambda>_. b) q2) (st(g := Some t)) 0 0"
  proof -
    have L0: "Lg = (\<lambda>x. [])" using ring_empty [OF ring] f0 by auto
    have "ring_rep nxt (groups q2 g) (\<lambda>x. [])" by (rule ring_rep_cong [OF ring [unfolded L0]]) (simp_all add: q2_def q1)
    then show ?thesis using tb(3) G(1,3) by (simp add: group_started_def L0 q2_def q1)
  qed
  ultimately show ?thesis by blast
qed

text \<open>Third case: the group starts earlier than before; its slots are rotated.\<close>

lemma start_group_rotate:
  assumes ok: "groups_ok q st" and g: "g \<le> 19" and ring: "ring_rep nxt (groups q g) Lg"
    and t: "st g = Some t" "n \<le> 30" "grp_at g (qf_V q) n (groups q g)" "odd t \<longleftrightarrow> n = 0"
    and s: "start_at g st q S m" and lt: "n < m"
  shows "\<exists>q' st'. qfq_start_group g S (qfq_round_down S (22 + g)) q = Some q' \<and>
    group_started g q Lg nxt S q' st' 0 (m - n)"
proof -
  let ?k = "22 + g" and ?R = "qfq_round_down S (22 + g)"
  have gs: "grp_static g (groups q g)" by (rule groups_okD(5) [OF ok g])
  note r = groups_okD(1) [OF ok]
  have at: "at_gap ?k (qf_V q) (qg_S (groups q g)) n" "at_gap ?k (qf_V q) ?R m" "m \<le> 30"
    using t(3) s by (auto simp: grp_at_def start_at_def)
  have gt: "qfq_gt (qg_S (groups q g)) S" using gap_order [OF at(1,2) _ t(2) at(3)] lt g by simp
  have full: "full_slots (groups q g) \<noteq> 0" using t(3) by (auto simp: grp_at_def)
  have S: "qg_S (groups q g) = ?R + of_nat ((m - n) * 2 ^ ?k)"
  proof -
    have "of_nat (m * 2 ^ ?k) = (of_nat ((m - n) * 2 ^ ?k) :: u64) + of_nat (n * 2 ^ ?k)"
      unfolding of_nat_add [symmetric] add_mult_distrib [symmetric] using lt by simp
    moreover have "qg_S (groups q g) + of_nat (n * 2 ^ ?k) = ?R + of_nat (m * 2 ^ ?k)"
      using at(1,2) unfolding at_gap_def by simp
    ultimately show ?thesis by (simp only: add.assoc [symmetric] add_right_cancel)
  qed
  have i: "unat (ucast (drop_bit (slot_shift (groups q g)) (qg_S (groups q g) - ?R)) :: u32) = m - n"
    using slot_number(1) [of "m - n" ?k] at(3) g gs by (simp add: S grp_static_def unsigned_of_nat take_bit_nat_eq_self)
  have room: "x + (m - n) \<le> 30" if "Lg x \<noteq> []" for x
    using t(3) ring_repD(3) [OF ring, of x] that at(3) lt by (fastforce simp: grp_at_def)
  obtain gr f b0 where gr: "qfq_slot_rotate ?R (groups q g) = Some gr"
    "ring_rep nxt gr (\<lambda>p. if p < m - n then [] else Lg (p - (m - n)))" "gr = (groups q g)\<lparr>front := f, full_slots := b0\<rparr>"
  proof -
    have "m - n \<le> 30" using at(3) by simp
    from ring_rotate [OF ring this room i] that show ?thesis by blast
  qed
  obtain b1 where b1: "bm_clear g (bitmaps q IR) = Some b1"
    "bm_rep (if st g = Some IR then st(g := None) else st) ((bitmaps q)(IR := b1))" using bm_clear_rep [OF r g, of IR] by auto
  obtain b2 where b2: "bm_clear g (bitmaps q IB) = Some b2"
    "bm_rep (if st g = Some IR \<or> st g = Some IB then st(g := None) else st) ((bitmaps q)(IR := b1, IB := b2))"
    using bm_clear_rep [OF b1(2) g, of IB] by (auto split: if_splits)
  define st1 where "st1 = (if st g = Some IR \<or> st g = Some IB then st(g := None) else st)"
  define q1 where "q1 = (upd_qg g (\<lambda>_. gr) q)\<lparr>bitmaps := (bitmaps q)(IR := b1, IB := b2)\<rparr>"
  define q2 where "q2 = set_times g ?R q1"
  have q1: "qf_V q1 = qf_V q" "qf_wsum q1 = qf_wsum q" "groups q1 = (groups q)(g := gr)"
    "bitmaps q1 = (bitmaps q)(IR := b1, IB := b2)" by (simp_all add: q1_def)
  have r2: "bm_rep st1 (bitmaps q2)" and G: "qg_S (groups q2 g) = ?R" "qg_F (groups q2 g) = ?R + push_bit ?k 2"
    "grp_static g (groups q2 g)" and atm: "at_gap ?k (qf_V q2) ?R m"
    using b2(2) gs at(2) by (simp_all add: q2_def q1 st1_def grp_static_def gr(3))
  have bits: "x \<le> m" if "bit (full_slots (groups q2 g)) x" for x
  proof -
    have "Lg (x - (m - n)) \<noteq> []" "\<not> x < m - n" using ring_repD(3) [OF gr(2), of x] that by (auto simp: q2_def q1 split: if_splits)
    then have "x - (m - n) \<le> n" using t(3) ring_repD(3) [OF ring, of "x - (m - n)"] by (simp add: grp_at_def)
    then show ?thesis using lt by linarith
  qed
  have ER: "st g \<noteq> Some ER"
  proof
    assume a: "st g = Some ER"
    then have "0 < n" using t(1,4) by auto
    then obtain h where h: "h \<ge> g" "\<forall>x\<ge>g. st x = Some ER \<longrightarrow> h \<le> x" "S = qg_F (groups q h)"
      using s lt by (auto simp: start_at_def)
    then have "h = g" using a by (metis le_antisym le_refl)
    then have "S = qg_S (groups q g) + push_bit ?k 2" using h(3) t(3) by (simp add: grp_at_def)
    with gt gt_two_slots(2) [of ?k "qg_S (groups q g)"] g show False by simp
  qed
  have keep: "st1 h = st h" if "h \<noteq> g" for h using that by (simp add: st1_def)
  have er1: "st1 h = Some ER \<longleftrightarrow> st h = Some ER" for h using ER by (cases "h = g") (auto simp: st1_def)
  have sg: "st1 g = None \<or> st1 g = Some EB \<and> 0 < m \<and>
      (\<exists>h\<ge>g. st1 h = Some ER \<and> (\<forall>x\<ge>g. st1 x = Some ER \<longrightarrow> h \<le> x) \<and> S = qg_F (groups q2 h))"
  proof (cases "st g = Some EB")
    case True
    then have "0 < n" using t(1,4) by auto
    then obtain h where h: "h \<ge> g" "st h = Some ER" "\<forall>x\<ge>g. st x = Some ER \<longrightarrow> h \<le> x" "S = qg_F (groups q h)"
      using s lt by (auto simp: start_at_def)
    moreover have "h \<noteq> g" using h(2) ER by auto
    ultimately have "\<exists>h\<ge>g. st1 h = Some ER \<and> (\<forall>x\<ge>g. st1 x = Some ER \<longrightarrow> h \<le> x) \<and> S = qg_F (groups q2 h)"
      unfolding er1 by (intro exI [of _ h]) (simp add: q2_def q1)
    then show ?thesis using True lt by (simp add: st1_def)
  next
    case False
    then have "t = IR \<or> t = IB" using ER t(1) state_cases [OF bm_repD(3) [OF r t(1)]] by auto
    then show ?thesis using t(1) by (auto simp: st1_def)
  qed
  have bl: "qfq_blocked_ok st1"
    using groups_okD(3) [OF ok] er1 unfolding qfq_blocked_ok_def st1_def by (auto split: if_splits)
  have work: "(\<exists>h. st1 h = Some ER) \<or> 0 < m \<and> (\<forall>h. st1 h = None)"
    using groups_okD(4) [OF ok] t(1) unfolding er1 by (auto simp: qfq_work_ok_def)
  have oth: "grp_ok (qf_V q2) h (groups q2 h) (st1 h)" if "h \<le> 19" "h \<noteq> g" for h
    using groups_okD(2) [OF ok that(1)] that keep by (simp add: q2_def q1)
  obtain u b where tb: "qfq_calc_state q2 g = Some u" "bm_set g (bitmaps q2 u) = Some b"
    "\<And>a. groups_ok (upd_qg g (\<lambda>r. r\<lparr>slots := a, full_slots := Bit_Operations.set_bit 0 (full_slots r)\<rparr>)
       (upd_bm u (\<lambda>_. b) q2)) (st1(g := Some u))"
    using start_group_state [OF r2 g G(3,1,2) atm at(3) bits oth sg bl work] by blast
  have e1: "upd_bm IB (\<lambda>_. b2) (upd_bm IR (\<lambda>_. b1) (upd_qg g (\<lambda>_. gr) q)) = q1" by (simp add: q1_def upd_bm_def)
  have tb2: "bm_set g (bitmaps q1 u) = Some b" using tb(2) by (simp add: q2_def)
  have e2: "upd_qg g (\<lambda>r. r\<lparr>qg_S := ?R, qg_F := ?R + push_bit (slot_shift r) 2\<rparr>) q1 = q2"
    using gs by (simp add: q2_def set_times_def upd_qg_def q1 grp_static_def gr(3))
  have "qfq_start_group g S ?R q = Some (upd_bm u (\<lambda>_. b) q2)"
    using full gt gs b1(1) b2(1) unfolding qfq_start_group_def Let_def
    by (simp add: gr(1) grp_static_def e1 [simplified] e2 tb(1) tb2)
  moreover have "group_started g q Lg nxt S (upd_bm u (\<lambda>_. b) q2) (st1(g := Some u)) 0 (m - n)"
    using tb(3) G(1,3) S ring_rep_cong [OF gr(2), of nxt "groups q2 g"]
    by (simp add: group_started_def q2_def q1)
  ultimately show ?thesis by blast
qed


section \<open>Enqueue\<close>

lemma start_group_law:
  assumes ok: "groups_ok (qfs e i) st" and t: "qfq_timely i e" and g: "g \<le> 19"
    and near: "full_slots (qgroup i e g) \<noteq> 0 \<Longrightarrow> slots_behind (22 + g) (qf_V (qfs e i)) (qg_S (qgroup i e g)) \<le> 30"
    and ring: "ring_rep nxt (qgroup i e g) Lg" and s: "start_at g st (qfs e i) S n"
  shows "\<exists>q' st' p s. qfq_start_group g S (qfq_round_down S (22 + g)) (qfs e i) = Some q' \<and>
    group_started g (qfs e i) Lg nxt S q' st' p s"
proof (cases "st g")
  case None
  from start_group_empty [OF ok g ring None s] show ?thesis by blast
next
  case (Some u)
  obtain k where gd: "grp_at g (qf_V (qfs e i)) k (qgroup i e g)" "odd u \<longleftrightarrow> k = 0"
      "slots_behind (22 + g) (qf_V (qfs e i)) (qg_S (qgroup i e g)) = k"
    using grp_distance [OF ok t g Some] by (elim exE conjE) (rule that)
  have "full_slots (qgroup i e g) \<noteq> 0" using gd(1) by (auto simp: grp_at_def)
  then have "k \<le> 30" using near gd(3) by simp
  note k = this gd(1,2)
  show ?thesis
  proof (cases "n \<le> k")
    case True
    from start_group_same [OF ok g ring Some k s True] show ?thesis by blast
  next
    case False
    then have "k < n" by simp
    from start_group_rotate [OF ok g ring Some k s this] show ?thesis by blast
  qed
qed

lemma activate_law:
  assumes ok: "groups_ok (qfs e i) st" and l: "listed Q i L e" and t: "qfq_timely i e"
    and c: "c \<in> Q" "\<not> in_slots L c" and g: "qc_grp (qcl e c) = Some g" "g \<le> 19" and so: "qfq_start_ok i c e"
    and len: "0 \<le> m_len m" "m_len m < 2 ^ 16"
  shows "\<exists>e' st' L'. qfq_activate i c m e = Some e' \<and> groups_ok (qfs e' i) st' \<and> listed Q i L' e' \<and>
    (\<forall>x. in_slots L' x \<longleftrightarrow> x = c \<or> in_slots L x) \<and> qs e' = qs e \<and> freed e' = freed e \<and>
    (\<forall>x. x \<noteq> c \<longrightarrow> qcl e' x = qcl e x) \<and> qc_grp (qcl e' c) = Some g \<and> qc_inv_w (qcl e' c) = qc_inv_w (qcl e c) \<and>
    qc_F (qcl e' c) = qc_S (qcl e' c) + of_nat (nat (m_len m) * unat (qc_inv_w (qcl e c)))"
proof -
  let ?k = "22 + g"
  define q where "q = qfs e i"
  have gs: "grp_static g (groups q g)" using groups_okD(5) [OF ok g(2)] by (simp add: q_def)
  obtain S n where S: "qfq_update_start i g c e = Some (upd_qc c (\<lambda>r. r\<lparr>qc_S := S\<rparr>) e)" "start_at g st q S n"
    using update_start_law [OF groups_okD(1) [OF ok] g(2) _ g(1) so] gs by (auto simp: q_def)
  have near: "full_slots (qgroup i e g) \<noteq> 0 \<Longrightarrow> slots_behind ?k (qf_V (qfs e i)) (qg_S (qgroup i e g)) \<le> 30"
    using so g(1) by (simp add: qfq_start_ok_def)
  define F where "F = S + of_nat (nat (m_len m) * unat (qc_inv_w (qcl e c)))"
  define e1 where "e1 = upd_qc c (\<lambda>r. r\<lparr>qc_S := S, qc_F := F\<rparr>) e"
  have n1: "qnext e1 = qnext e" by (auto simp: e1_def)
  define R where "R = qfq_round_down S ?k"
  obtain q' st' p s where st: "qfq_start_group g S R q = Some q'" "group_started g q (L g) (qnext e1) S q' st' p s"
    using start_group_law [OF ok t g(2) near listedD(1) [OF l g(2)] S(2) [unfolded q_def]] unfolding n1 q_def R_def by blast
  note gst = st(2) [unfolded group_started_def]
  define e2 where "e2 = upd_qf i (\<lambda>_. q') e1"
  define L2 where "L2 = (\<lambda>x. if x < s then [] else L g (x - s))"
  have fresh: "c \<notin> set (L h x)" if "h \<le> 19" for h x using c(2) that by (auto simp: in_slots_def)
  have r2: "ring_rep (qnext e2) (qgroup i e2 g) L2" "slot_shift (qgroup i e2 g) = ?k" "p \<le> 30"
    "R = qg_S (qgroup i e2 g) + of_nat (p * 2 ^ ?k)" "c \<notin> set (L2 x)" for x
    using gst fresh [OF g(2)] by (auto simp: e2_def L2_def grp_static_def R_def)
  obtain nx a gr' where ins: "qfq_slot_insert i g c R e2 =
      Some (upd_qf i (upd_qg g (\<lambda>_. gr')) (upd_qc c (\<lambda>r. r\<lparr>qc_next := nx\<rparr>) e2))"
    "ring_rep ((qnext e2)(c := nx)) gr' (L2(p := c # L2 p))"
    "gr' = (qgroup i e2 g)\<lparr>slots := a, full_slots := Bit_Operations.set_bit p (full_slots (qgroup i e2 g))\<rparr>"
    using slot_insert_law [OF r2(1,2) g(2) r2(3-5)] by blast
  define e3 where "e3 = upd_qf i (upd_qg g (\<lambda>_. gr')) (upd_qc c (\<lambda>r. r\<lparr>qc_next := nx\<rparr>) e2)"
  define L3 where "L3 = L2(p := c # L2 p)"
  have q3: "qfs e3 i = upd_qg g (\<lambda>_. gr') q'" by (simp add: e3_def e2_def)
  have cl3: "qc_grp (qcl e3 c) = Some g" "qc_inv_w (qcl e3 c) = qc_inv_w (qcl e c)" "qc_S (qcl e3 c) = S"
    "qc_F (qcl e3 c) = F" "\<And>x. x \<noteq> c \<Longrightarrow> qcl e3 x = qcl e x" "qs e3 = qs e" "freed e3 = freed e"
    using g(1) by (simp_all add: e3_def e2_def e1_def)
  have n3: "qnext e3 = (qnext e2)(c := nx)" by (auto simp: e3_def)
  have "qfq_activate i c m e = Some e3"
  proof -
    have "upd_qc c (\<lambda>r. r\<lparr>qc_F := qc_S r + pkt_len m * ucast (qc_inv_w r)\<rparr>) (upd_qc c (\<lambda>r. r\<lparr>qc_S := S\<rparr>) e) = e1"
      by (simp add: upd_qc_def e1_def F_def pkt_len_def scaled_len(2) [OF len])
    moreover have "qfs e1 i = q" "qc_S (qcl e1 c) = S" by (simp_all add: e1_def q_def)
    ultimately show ?thesis
      using g gs S(1) st(1) ins(1)
      by (simp add: qfq_activate_def QFQ_MAX_INDEX_def Let_def grp_static_def q_def [symmetric] R_def [symmetric] e2_def [symmetric] e3_def)
  qed
  moreover have "groups_ok (qfs e3 i) st'"
  proof -
    have "upd_qg g (\<lambda>_. gr') q' = upd_qg g (\<lambda>r. r\<lparr>slots := a, full_slots := Bit_Operations.set_bit p (full_slots r)\<rparr>) q'"
      by (simp add: upd_qg_def ins(3) e2_def)
    then show ?thesis using gst by (simp add: q3)
  qed
  moreover have "listed Q i (L(g := L3)) e3"
  proof (rule listed_change [OF l g(2) c(1) cl3(1,5), where s = s])
    show "qgroup i e3 h = qgroup i e h" if "h \<noteq> g" for h using that gst by (simp add: q3 q_def)
    show "qg_S (qgroup i e g) = qg_S (qgroup i e3 g) + of_nat (s * 2 ^ ?k)" if "L g x \<noteq> []" for x
      using that gst by (auto simp: q3 ins(3) e2_def q_def)
    show "ring_rep (qnext e3) (qgroup i e3 g) L3" using ins(2) by (simp add: q3 n3 L3_def)
    show "distinct (L3 x)" for x using r2(5) [of x] r2(5) [of p] listedD(2) [OF l g(2)] by (simp add: L3_def L2_def)
    show "s \<le> x \<and> y \<in> set (L g (x - s))" if "y \<in> set (L3 x)" "y \<noteq> c" for x y
      using that by (auto simp: L3_def L2_def split: if_splits)
    show "qfq_round_down (qc_S (qcl e3 c)) ?k = qg_S (qgroup i e3 g) + of_nat (x * 2 ^ ?k)" if "c \<in> set (L3 x)" for x
    proof -
      have "x = p" using that r2(5) by (auto simp: L3_def split: if_splits)
      then show ?thesis using r2(4) by (simp add: cl3 q3 ins(3) R_def)
    qed
  qed (use fresh in auto)
  moreover have "in_slots (L(g := L3)) x \<longleftrightarrow> x = c \<or> in_slots L x" for x
  proof -
    have "(\<exists>y. x \<in> set (L2 y)) \<longleftrightarrow> (\<exists>y. x \<in> set (L g y))"
    proof
      assume "\<exists>y. x \<in> set (L g y)"
      then obtain y where "x \<in> set (L g y)" ..
      then show "\<exists>y. x \<in> set (L2 y)" by (intro exI [of _ "y + s"]) (simp add: L2_def)
    qed (auto simp: L2_def split: if_splits)
    moreover have "(\<exists>y. x \<in> set (L3 y)) \<longleftrightarrow> x = c \<or> (\<exists>y. x \<in> set (L2 y))" by (auto simp: L3_def)
    ultimately show ?thesis using g(2) unfolding in_slots_def by (metis fun_upd_apply)
  qed
  ultimately show ?thesis using cl3 unfolding F_def by metis
qed


text \<open>
  The condition on an arrival for queue \<open>c\<close>: a new packet whose length times the inverse weight fits
  in a slot of the group, and a queue that may become busy when it is idle.
\<close>

definition qfq_arrival :: "qid set \<Rightarrow> siid \<Rightarrow> qid \<Rightarrow> mbuf \<Rightarrow> 'x qfq_env_scheme \<Rightarrow> bool" where
  "qfq_arrival Q i c m e \<longleftrightarrow> c \<in> Q \<and> new_pkt Q e m \<and> (mq e c = [] \<longrightarrow> qfq_timely i e \<and> qfq_start_ok i c e) \<and>
     nat (m_len m) * unat (qc_inv_w (qcl e c)) \<le> 2 ^ (22 + the (qc_grp (qcl e c)))"

lemma start_ok_cong: "qfs e' = qfs e \<Longrightarrow> qcl e' = qcl e \<Longrightarrow> qfq_start_ok i c e' = qfq_start_ok i c e"
  by (cases "qc_grp (qcl e c)"; cases "qfq_ffs (mask_from (bitmaps (qfs e i) ER) (qg_index (qgroup i e (the (qc_grp (qcl e c))))))")
    (simp_all add: qfq_start_ok_def qfq_update_start_def Let_def upd_qc_def)

text \<open>A packet appended to a queue that has others, or dropped, leaves the classes alone.\<close>

lemma appended_rep:
  assumes rep: "qfq_rep Q i st L e" and m: "qfs e' = qfs e" "qcl e' = qcl e" "\<And>p. p \<noteq> c \<Longrightarrow> mq e' p = mq e p"
    and c: "mq e' c = mq e c @ xs" "xs = [] \<or> mq e c \<noteq> []" "\<And>x. x \<in> set xs \<Longrightarrow> 0 \<le> m_len x \<and> m_len x < 2 ^ 16 \<and>
      nat (m_len x) * unat (qc_inv_w (qcl e c)) \<le> 2 ^ (22 + the (qc_grp (qcl e c)))"
  shows "qfq_rep Q i st L e'"
proof -
  have "class_ok e' x \<and> backlog_ok L e' x" if "x \<in> Q" for x
  proof (cases "x = c")
    case True
    have "class_ok e c" "backlog_ok L e c" using rep that True by (auto simp: qfq_rep_def)
    then show ?thesis
      using True c m(2) by (auto simp: class_ok_def backlog_ok_def append_eq_Cons_conv)
  next
    case False
    have "class_ok e x" "backlog_ok L e x" using rep that by (auto simp: qfq_rep_def)
    then show ?thesis using m(2) m(3) [OF False] by (simp add: class_ok_def backlog_ok_def)
  qed
  moreover have "listed Q i L e'" using listed_cong [of Q i L e e'] rep m by (simp add: qfq_rep_def)
  ultimately show ?thesis using rep m(1) by (simp add: qfq_rep_def)
qed

lemma activated_rep:
  assumes rep: "qfq_rep Q i st L e" and t: "qfq_timely i e1" and c: "c \<in> Q" and so: "qfq_start_ok i c e1"
    and m: "mq e c = []" "mq e1 c = [m]" "\<And>x. x \<noteq> c \<Longrightarrow> mq e1 x = mq e x" "qfs e1 = qfs e" "qcl e1 = qcl e"
    and len: "0 \<le> m_len m" "m_len m < 2 ^ 16"
      "nat (m_len m) * unat (qc_inv_w (qcl e c)) \<le> 2 ^ (22 + the (qc_grp (qcl e c)))"
  shows "\<exists>e' st' L'. qfq_activate i c m e1 = Some e' \<and> qfq_rep Q i st' L' e' \<and> qs e' = qs e1 \<and> freed e' = freed e1"
proof -
  have ok: "groups_ok (qfs e1 i) st" and l: "listed Q i L e1" and cls: "\<And>x. x \<in> Q \<Longrightarrow> class_ok e x \<and> backlog_ok L e x"
    using rep listed_cong [of Q i L e e1] m(4,5) by (auto simp: qfq_rep_def)
  obtain g where g: "qc_grp (qcl e1 c) = Some g" "g \<le> 19" using cls [OF c] m(5) by (auto simp: class_ok_def)
  have no: "\<not> in_slots L c" using cls [OF c] m(1) by (simp add: backlog_ok_def)
  obtain e' st' L' where a: "qfq_activate i c m e1 = Some e'" "groups_ok (qfs e' i) st'" "listed Q i L' e'"
    "\<forall>x. in_slots L' x \<longleftrightarrow> x = c \<or> in_slots L x" "qs e' = qs e1" "freed e' = freed e1"
    "\<forall>x. x \<noteq> c \<longrightarrow> qcl e' x = qcl e1 x" "qc_grp (qcl e' c) = Some g" "qc_inv_w (qcl e' c) = qc_inv_w (qcl e1 c)"
    "qc_F (qcl e' c) = qc_S (qcl e' c) + of_nat (nat (m_len m) * unat (qc_inv_w (qcl e1 c)))"
    using activate_law [OF ok l t c no g so len(1,2)] by blast
  have "class_ok e' x \<and> backlog_ok L' e' x" if x: "x \<in> Q" for x
  proof (cases "x = c")
    case True
    then show ?thesis using a g len m by (auto simp: class_ok_def backlog_ok_def)
  next
    case False
    then have "qcl e' x = qcl e x" "mq e' x = mq e x" using a m by auto
    with cls [OF x] a(4) False show ?thesis by (simp add: class_ok_def backlog_ok_def)
  qed
  then have "qfq_rep Q i st' L' e'" using a(2,3) by (simp add: qfq_rep_def)
  with a(1,5,6) show ?thesis by blast
qed

lemma qfq_enqueue_law:
  assumes inv: "qfq_inv Q i e" and a: "qfq_arrival Q i c m e"
  shows "\<exists>r e'. qfq_enqueue i c m e = Some (r, e') \<and> qfq_inv Q i e' \<and>
    (r = 0 \<and> mq e' c = mq e c @ [m] \<and> freed e' = freed e \<and> (\<forall>x. x \<noteq> c \<longrightarrow> mq e' x = mq e x) \<or>
     r = 1 \<and> (\<forall>x. mq e' x = mq e x) \<and> freed e' = freed e @ [m])"
proof -
  obtain st L where rep: "qfq_rep Q i st L e" using inv by (auto simp: qfq_inv_def)
  have c: "c \<in> Q" and nh: "\<not> is_head m (mq e c)" and len: "0 \<le> m_len m" "m_len m < 2 ^ 16"
      "nat (m_len m) * unat (qc_inv_w (qcl e c)) \<le> 2 ^ (22 + the (qc_grp (qcl e c)))"
    using a by (auto simp: qfq_arrival_def new_pkt_def pkts_ok_def)
  obtain r e1 where d: "dn_enqueue c m False e = (r, e1)" by fastforce
  from dn_enqueue_step [OF d] show ?thesis
  proof
    assume s: "r = 1 \<and> queue_step c (mq e c) [m] e e1"
    then have m1: "mq e1 x = mq e x" "freed e1 = freed e @ [m]" for x by (auto simp: queue_step_def)
    have "qfq_rep Q i st L e1"
      using queue_step_qfq [OF conjunct2 [OF s]] by (intro appended_rep [OF rep, where c = c and xs = "[]"]) (simp_all add: m1)
    moreover have "qfq_enqueue i c m e = Some (1, e1)" using s nh by (simp add: qfq_enqueue_def d)
    ultimately show ?thesis using m1 by (auto simp: qfq_inv_def)
  next
    assume s: "r = 0 \<and> queue_step c (mq e c @ [m]) [] e e1"
    note q1 = queue_step_qfq [OF conjunct2 [OF s]]
    have m1: "mq e1 c = mq e c @ [m]" "\<And>x. x \<noteq> c \<Longrightarrow> mq e1 x = mq e x" "freed e1 = freed e"
      using s by (auto simp: queue_step_def)
    show ?thesis
    proof (cases "mq e c")
      case Cons
      then have "qfq_enqueue i c m e = Some (0, e1)" using s nh m1(1) by (simp add: qfq_enqueue_def d is_head_def)
      moreover have "qfq_rep Q i st L e1"
        using q1 m1 Cons len by (intro appended_rep [OF rep, where c = c and xs = "[m]"]) simp_all
      ultimately show ?thesis using m1 by (auto simp: qfq_inv_def)
    next
      case Nil
      have t: "qfq_timely i e1" "qfq_start_ok i c e1"
        using a Nil q1 start_ok_cong [of e1 e] by (simp_all add: qfq_arrival_def qfq_timely_def)
      obtain e' st' L' where e': "qfq_activate i c m e1 = Some e'" "qfq_rep Q i st' L' e'" "qs e' = qs e1" "freed e' = freed e1"
        using activated_rep [OF rep t(1) c t(2) Nil _ m1(2) _ _ len] q1 m1(1) Nil by auto
      have "qfq_enqueue i c m e = Some (0, e')" using s nh m1(1) Nil e'(1) by (simp add: qfq_enqueue_def d is_head_def)
      then show ?thesis using e' m1 by (auto simp: qfq_inv_def)
    qed
  qed
qed

end
