(* ===== verification/QfqRun.thy ===== *)
theory QfqRun
  imports QfqEnq
begin

text \<open>
  The life of a QFQ instance: its creation, queues that come and go, arrivals and requests, as a step
  relation. The invariant of theory \<open>QfqOk\<close> and the account of the weights hold in every state reached,
  and each queue is served first-in first-out.
\<close>

section \<open>Creation of an instance\<close>

definition qfq_blank :: "qfq_sched \<Rightarrow> bool" where
  "qfq_blank q \<longleftrightarrow> qf_wsum q = 0 \<and> (\<forall>s<4. bitmaps q s = 0) \<and>
     (\<forall>g\<le>19. front (groups q g) = 0 \<and> full_slots (groups q g) = 0 \<and> (\<forall>j<32. slots (groups q g) j = None))"

lemma new_sched_fold:
  "qfs (foldl (\<lambda>e g. upd_qf i (upd_qg g (\<lambda>r. r\<lparr>qg_index := g, slot_shift := f g\<rparr>)) e) e xs) i =
     (qfs e i)\<lparr>groups := (\<lambda>g. if g \<in> set xs then (groups (qfs e i) g)\<lparr>qg_index := g, slot_shift := f g\<rparr> else groups (qfs e i) g)\<rparr>"
  by (induction xs rule: rev_induct) (simp_all add: upd_qg_def fun_eq_iff)

lemma ring_blank:
  assumes "front gr = 0" "full_slots gr = 0" "\<And>j. j < 32 \<Longrightarrow> slots gr j = None"
  shows "ring_rep nxt gr (\<lambda>p. [])"
  using assms by (simp add: ring_rep_def)

lemma new_sched_inv:
  assumes "qfq_blank (qfs e i)" and n: "qfq_new_sched i e = (r, e')"
  shows "r = 0 \<and> qfq_inv {} i e' \<and> qf_wsum (qfs e' i) = 0"
proof -
  define f where "f = (\<lambda>g. QFQ_MTU_SHIFT + QFQ_FRAC_BITS - (QFQ_MAX_INDEX - g))"
  have e': "r = 0" "qfs e' i = (qfs e i)\<lparr>groups := (\<lambda>g. if g \<in> set [0..<Suc QFQ_MAX_INDEX]
      then (groups (qfs e i) g)\<lparr>qg_index := g, slot_shift := f g\<rparr> else groups (qfs e i) g)\<rparr>"
    using n new_sched_fold [of i f e "[0..<Suc QFQ_MAX_INDEX]"] unfolding qfq_new_sched_def f_def by auto
  have g: "qgroup i e' g = (qgroup i e g)\<lparr>qg_index := g, slot_shift := f g\<rparr>" if "g \<le> 19" for g
    using that by (simp add: e'(2) qfq_consts)
  have "f g = 22 + g" if "g \<le> 19" for g using that by (simp add: f_def qfq_consts)
  then have "groups_ok (qfs e' i) (\<lambda>_. None)"
    using assms(1) g by (simp add: groups_ok_def grp_ok_def grp_static_def bm_rep_def qfq_blocked_ok_def qfq_work_ok_def
        qfq_blank_def e'(2))
  moreover have "listed {} i (\<lambda>_ _. []) e'"
    using assms(1) g by (simp add: listed_def qfq_blank_def ring_blank)
  ultimately show ?thesis using assms(1) e' by (auto simp: qfq_inv_def qfq_rep_def qfq_blank_def)
qed

section \<open>Queues that come and go\<close>

definition qfq_weight :: "'x qfq_env_scheme \<Rightarrow> qid \<Rightarrow> nat" where
  "qfq_weight e c = unat (QFQ_ONE_FP div ucast (qc_inv_w (qcl e c)))"

text \<open>
  The account of the weights, and packets of \<open>lmax\<close> bytes fit in one slot of the group of their queue.
\<close>

definition qfq_account :: "qid set \<Rightarrow> siid \<Rightarrow> 'x qfq_env_scheme \<Rightarrow> bool" where
  "qfq_account Q i e \<longleftrightarrow> finite Q \<and> unat (qf_wsum (qfs e i)) = (\<Sum>c\<in>Q. qfq_weight e c) \<and>
     (\<Sum>c\<in>Q. qfq_weight e c) \<le> QFQ_MAX_WSUM \<and>
     (\<forall>c\<in>Q. unat (qc_lmax (qcl e c)) * unat (qc_inv_w (qcl e c)) \<le> 2 ^ (22 + the (qc_grp (qcl e c))))"

definition qfq_ok :: "qid set \<Rightarrow> siid \<Rightarrow> 'x qfq_env_scheme \<Rightarrow> bool" where
  "qfq_ok Q i e \<longleftrightarrow> qfq_inv Q i e \<and> qfq_account Q i e"

text \<open>The weight used: the inverse of the rounded inverse of a weight between 1 and \<open>QFQ_MAX_WEIGHT\<close>.\<close>

lemma inverse_weight:
  fixes w :: u32
  assumes w: "w \<noteq> 0" "w \<le> of_nat QFQ_MAX_WEIGHT"
  defines "v \<equiv> (ucast (QFQ_ONE_FP div ucast w) :: u32)"
  shows "unat v = 2 ^ 30 div unat w" "2 ^ 14 \<le> unat v" "unat v \<le> 2 ^ 30"
    "unat (ucast (QFQ_ONE_FP div ucast v) :: u32) = unat (QFQ_ONE_FP div ucast v :: u64)"
    "unat (QFQ_ONE_FP div ucast v :: u64) \<le> QFQ_MAX_WEIGHT"
proof -
  have one: "unat QFQ_ONE_FP = 2 ^ 30" by (simp add: qfq_consts)
  have uw: "1 \<le> unat w" "unat w \<le> 2 ^ 16"
    using w by (simp_all add: qfq_consts word_le_nat_alt unat_gt_0 Suc_le_eq)
  have up: "unat (ucast w :: u64) = unat w" for w :: u32
    using unsigned_less [of w, where ?'a = nat] by (simp add: unsigned_ucast_eq take_bit_nat_eq_self)
  have down: "unat (ucast x :: u32) = unat x" if "unat x \<le> 2 ^ 30" for x :: u64
    using that by (simp add: unsigned_ucast_eq take_bit_nat_eq_self)
  have d1: "unat (QFQ_ONE_FP div ucast w) = 2 ^ 30 div unat w" by (simp only: unat_div one up)
  then show v: "unat v = 2 ^ 30 div unat w" unfolding v_def by (subst down) simp_all
  show "unat v \<le> 2 ^ 30" unfolding v by (rule div_le_dividend)
  have "2 ^ 30 div 2 ^ 16 \<le> 2 ^ 30 div unat w" using uw by (intro div_le_mono2) simp_all
  then show lo: "2 ^ 14 \<le> unat v" unfolding v by simp
  have d2: "unat (QFQ_ONE_FP div ucast v :: u64) = 2 ^ 30 div unat v" by (simp only: unat_div one up)
  have "2 ^ 30 div unat v \<le> 2 ^ 30 div 2 ^ 14" using lo by (intro div_le_mono2) simp_all
  then show le: "unat (QFQ_ONE_FP div ucast v :: u64) \<le> QFQ_MAX_WEIGHT" unfolding d2 by (simp add: qfq_consts)
  show "unat (ucast (QFQ_ONE_FP div ucast v) :: u32) = unat (QFQ_ONE_FP div ucast v :: u64)"
    unfolding d2 [symmetric] by (rule down) (use le in \<open>simp add: qfq_consts\<close>)
qed


lemma rep_frame:
  assumes rep: "qfq_rep Q i st L e" and c: "\<And>x. x \<in> R \<Longrightarrow> qcl e' x = qcl e x \<and> mq e' x = mq e x" and R: "R \<subseteq> Q"
    and idle: "\<And>x. x \<in> Q \<Longrightarrow> x \<notin> R \<Longrightarrow> mq e x = []"
    and q: "bitmaps (qfs e' i) = bitmaps (qfs e i)" "groups (qfs e' i) = groups (qfs e i)" "qf_V (qfs e' i) = qf_V (qfs e i)"
  shows "qfq_rep R i st L e'"
proof -
  have ok: "groups_ok (qfs e i) st" and l: "listed Q i L e" and cls: "\<And>x. x \<in> Q \<Longrightarrow> class_ok e x \<and> backlog_ok L e x"
    using rep by (auto simp: qfq_rep_def)
  have inR: "x \<in> R" if "g \<le> 19" "x \<in> set (L g p)" for g p x
  proof -
    have "x \<in> Q" "in_slots L x" using listedD(3) [OF l that] that by (auto simp: in_slots_def)
    then show ?thesis using cls [of x] idle [of x] by (auto simp: backlog_ok_def)
  qed
  have "listed R i L e'"
    unfolding listed_def
  proof (intro allI impI conjI ballI)
    fix g assume g: "g \<le> (19::nat)"
    show "ring_rep (qnext e') (qgroup i e' g) (L g)"
      by (rule ring_rep_cong [OF listedD(1) [OF l g]]) (use c inR [OF g] q in auto)
    fix p show "distinct (L g p)" by (rule listedD(2) [OF l g])
    fix x assume x: "x \<in> set (L g p)"
    note ld = listedD(3-5) [OF l g x] and xr = inR [OF g x]
    show "x \<in> R" by (rule xr)
    show "qc_grp (qcl e' x) = Some g" using ld xr c by simp
    show "qfq_round_down (qc_S (qcl e' x)) (22 + g) = qg_S (qgroup i e' g) + of_nat (p * 2 ^ (22 + g))"
      using ld(3) xr c q by simp
  qed
  moreover have "class_ok e' x \<and> backlog_ok L e' x" if "x \<in> R" for x
    using cls [of x] c [OF that] R that by (auto simp: class_ok_def backlog_ok_def)
  moreover have "groups_ok (qfs e' i) st" using ok q by (simp add: groups_ok_def)
  ultimately show ?thesis by (simp add: qfq_rep_def)
qed

lemma rep_insert:
  assumes rep: "qfq_rep Q i st L e" and c: "c \<notin> Q" "mq e c = []" "qc_grp (qcl e c) = Some g" "g \<le> 19"
  shows "qfq_rep (insert c Q) i st L e"
proof -
  have l: "listed Q i L e" using rep by (simp add: qfq_rep_def)
  have "\<not> in_slots L c" using listedD(3) [OF l] c(1) by (auto simp: in_slots_def)
  then have "class_ok e c \<and> backlog_ok L e c" using c by (simp add: class_ok_def backlog_ok_def)
  then show ?thesis using rep by (auto simp: qfq_rep_def listed_def)
qed

lemma account_frame:
  assumes "qfq_account Q i e" "\<And>x. x \<in> Q \<Longrightarrow> qc_inv_w (qcl e' x) = qc_inv_w (qcl e x) \<and>
      qc_lmax (qcl e' x) = qc_lmax (qcl e x) \<and> qc_grp (qcl e' x) = qc_grp (qcl e x)"
    "qf_wsum (qfs e' i) = qf_wsum (qfs e i)"
  shows "qfq_account Q i e'"
proof -
  have "(\<Sum>c\<in>Q. qfq_weight e' c) = (\<Sum>c\<in>Q. qfq_weight e c)" using assms(2) by (intro sum.cong) (simp_all add: qfq_weight_def)
  then show ?thesis using assms by (simp add: qfq_account_def)
qed

lemma wsum_check:
  fixes s w :: u32
  assumes "unat s \<le> QFQ_MAX_WSUM" "unat w \<le> QFQ_MAX_WEIGHT"
  shows "unat (s + w) = unat s + unat w" "of_nat QFQ_MAX_WSUM < s + w \<longleftrightarrow> QFQ_MAX_WSUM < unat s + unat w"
proof -
  show "unat (s + w) = unat s + unat w" using assms by (intro unat_add_lem [THEN iffD1]) (simp add: qfq_consts)
  then show "of_nat QFQ_MAX_WSUM < s + w \<longleftrightarrow> QFQ_MAX_WSUM < unat s + unat w" by (simp add: word_less_nat_alt qfq_consts)
qed

lemma new_queue_law:
  assumes ok: "qfq_ok Q i e" and c: "c \<notin> Q" "mq e c = []" "q_si (qs e c) = Some i"
    and par: "0 \<le> q_par e c 1" "q_par e c 1 \<le> 2000" and n: "qfq_new_queue c e = (r, e')"
  shows "(r = 0 \<and> qfq_ok (insert c Q) i e' \<or> r = 22 \<and> qfq_ok Q i e') \<and> qs e' = qs e \<and> freed e' = freed e \<and> fsks e' = fsks e"
proof -
  obtain st L where rep: "qfq_rep Q i st L e" using ok by (auto simp: qfq_ok_def qfq_inv_def)
  have acc: "qfq_account Q i e" using ok by (simp add: qfq_ok_def)
  define l where "l = (word_of_int (q_par e c 1) :: u32)"
  define w0 where "w0 = (word_of_int (q_par e c 0) :: u32)"
  define w where "w = (if w0 = 0 \<or> of_nat QFQ_MAX_WEIGHT < w0 then 1 else w0)"
  define v where "v = (ucast (QFQ_ONE_FP div ucast w) :: u32)"
  define wt where "wt = (ucast (QFQ_ONE_FP div ucast v) :: u32)"
  have "w \<noteq> 0" "w \<le> of_nat QFQ_MAX_WEIGHT" by (auto simp: w_def qfq_consts not_less)
  note iw = inverse_weight [OF this, folded v_def, folded wt_def]
  define e1 where "e1 = upd_qc c (\<lambda>r. r\<lparr>qc_lmax := l, qc_inv_w := v\<rparr>) e"
  have new: "qfq_new_queue c e = (if of_nat QFQ_MAX_WSUM < qf_wsum (qfs e i) + wt then (22, e1)
      else (0, upd_qf i (\<lambda>q. q\<lparr>qf_wsum := qf_wsum q + wt\<rparr>)
        (upd_qc c (\<lambda>r. r\<lparr>qc_grp := Some (nat (qfq_calc_index v l))\<rparr>) e1)))"
    using c(3) by (simp add: qfq_new_queue_def Let_def e1_def upd_qc_def l_def w0_def w_def v_def wt_def)
  have s: "unat (qf_wsum (qfs e i)) = (\<Sum>c\<in>Q. qfq_weight e c)" "unat (qf_wsum (qfs e i)) \<le> QFQ_MAX_WSUM" "finite Q"
    using acc by (simp_all add: qfq_account_def)
  have wt: "unat wt \<le> QFQ_MAX_WEIGHT" using iw(4,5) by simp
  note chk = wsum_check [OF s(2) wt]
  have idle: "qfq_rep Q i st L f" "qfq_account Q i f"
    if "\<And>x. x \<noteq> c \<Longrightarrow> qcl f x = qcl e x" "qs f = qs e" "qfs f = qfs e" for f :: "'a qfq_env_scheme"
    using that c(1) by (intro rep_frame [OF rep] account_frame [OF acc]; force)+
  show ?thesis
  proof (cases "of_nat QFQ_MAX_WSUM < qf_wsum (qfs e i) + wt")
    case True
    then have "r = 22" "e' = e1" using n new by simp_all
    moreover have "qfq_ok Q i e1" using idle [of e1] by (auto simp: e1_def qfq_ok_def qfq_inv_def)
    ultimately show ?thesis by (simp add: e1_def)
  next
    case False
    define f where "f = upd_qc c (\<lambda>r. r\<lparr>qc_grp := Some (nat (qfq_calc_index v l))\<rparr>) e1"
    have e': "r = 0" "e' = upd_qf i (\<lambda>q. q\<lparr>qf_wsum := qf_wsum q + wt\<rparr>) f" using n new False by (simp_all add: f_def)
    obtain n where "q_par e c 1 = int n" using par(1) nonneg_int_cases by blast
    then have l: "unat l < 2 ^ 11" using par(2) by (simp add: l_def unsigned_of_nat take_bit_nat_eq_self)
    obtain g where g: "qfq_calc_index v l = int g" "g \<le> 19" "unat l * unat v \<le> 2 ^ (22 + g)"
      using calc_index_least [OF iw(3) l] by blast
    have fc: "qcl f c = (qcl e c)\<lparr>qc_lmax := l, qc_inv_w := v, qc_grp := Some g\<rparr>" by (simp add: f_def e1_def g(1))
    have ff: "qcl f x = qcl e x" "qs f = qs e" "qfs f = qfs e" "freed f = freed e" "fsks f = fsks e" if "x \<noteq> c" for x
      using that by (simp_all add: f_def e1_def)
    have "\<exists>x. x \<noteq> c" using infinite_UNIV_nat by (metis n_not_Suc_n)
    then have fq: "qs f = qs e" "qfs f = qfs e" "freed f = freed e" "fsks f = fsks e" using ff(2-5) by blast+
    have "qfq_rep (insert c Q) i st L f"
      by (rule rep_insert [OF idle(1) [OF ff(1) fq(1,2)] c(1)]) (use fc fq c(2) g(2) in simp_all)
    then have "qfq_rep (insert c Q) i st L e'" by (rule rep_frame) (use e'(2) in simp_all)
    moreover have "qfq_account (insert c Q) i e'"
    proof -
      have a: "qfq_account Q i f" using idle(2) ff(1) fq by blast
      have wf: "qfq_weight e' c = unat wt" "\<And>x. x \<in> Q \<Longrightarrow> qfq_weight e' x = qfq_weight f x"
        using iw(4) by (simp_all add: qfq_weight_def e'(2) fc wt_def)
      have sum: "(\<Sum>x\<in>insert c Q. qfq_weight e' x) = unat wt + (\<Sum>x\<in>Q. qfq_weight f x)"
        using s(3) c(1) wf by simp
      have "unat (qf_wsum (qfs f i)) = (\<Sum>x\<in>Q. qfq_weight f x)" using a by (simp add: qfq_account_def)
      then have "unat (qf_wsum (qfs e' i)) = (\<Sum>x\<in>insert c Q. qfq_weight e' x)"
        "(\<Sum>x\<in>insert c Q. qfq_weight e' x) \<le> QFQ_MAX_WSUM"
        unfolding sum using False unfolding chk(2) by (simp_all add: e'(2) fq chk(1))
      then show ?thesis using a g(3) unfolding qfq_account_def by (simp add: e'(2) fc)
    qed
    ultimately show ?thesis using e' fq by (auto simp: qfq_ok_def qfq_inv_def)
  qed
qed

lemma free_queue_law:
  assumes ok: "qfq_ok Q i e" and c: "c \<in> Q" "mq e c = []" "q_si (qs e c) = Some i" and n: "qfq_free_queue c safe e = (r, e')"
  shows "r = 0 \<and> qfq_ok (Q - {c}) i e' \<and> qs e' = qs e \<and> freed e' = freed e \<and> fsks e' = fsks e"
proof -
  obtain st L where rep: "qfq_rep Q i st L e" using ok by (auto simp: qfq_ok_def qfq_inv_def)
  have acc: "qfq_account Q i e" using ok by (simp add: qfq_ok_def)
  define v where "v = qc_inv_w (qcl e c)"
  define wt where "wt = (ucast (QFQ_ONE_FP div ucast v) :: u32)"
  define f where "f = upd_qf i (\<lambda>q. q\<lparr>qf_wsum := qf_wsum q - wt\<rparr>) e"
  have z: "(0 :: u64) = QFQ_ONE_FP div 0" by simp
  have e': "r = 0" "qcl e' x = (if x = c then (qcl e c)\<lparr>qc_inv_w := 0\<rparr> else qcl e x)" "qs e' = qs e" "freed e' = freed e"
    "fsks e' = fsks e" "qfs e' i = (qfs e i)\<lparr>qf_wsum := qf_wsum (qfs e i) - wt\<rparr>" for x
    using n c(3) by (auto simp: qfq_free_queue_def Let_def v_def wt_def split: if_splits)
  have "qfq_rep (Q - {c}) i st L e'" by (rule rep_frame [OF rep]) (use c(2) in \<open>auto simp: e'\<close>)
  moreover have "qfq_account (Q - {c}) i e'"
  proof -
    have s: "unat (qf_wsum (qfs e i)) = (\<Sum>c\<in>Q. qfq_weight e c)" "unat (qf_wsum (qfs e i)) \<le> QFQ_MAX_WSUM" "finite Q"
      using acc by (simp_all add: qfq_account_def)
    have sum: "(\<Sum>x\<in>Q. qfq_weight e x) = qfq_weight e c + (\<Sum>x\<in>Q - {c}. qfq_weight e x)" by (rule sum.remove [OF s(3) c(1)])
    have "qfq_weight e c \<le> QFQ_MAX_WSUM" using s sum by simp
    then have wt: "unat wt = qfq_weight e c"
      by (simp add: wt_def v_def qfq_weight_def unsigned_ucast_eq take_bit_nat_eq_self qfq_consts)
    have "wt \<le> qf_wsum (qfs e i)" using s(1) sum wt by (simp add: word_le_nat_alt)
    then have w: "unat (qf_wsum (qfs e i) - wt) = (\<Sum>x\<in>Q - {c}. qfq_weight e x)"
      using s(1) sum wt by (simp add: unat_sub)
    have same: "(\<Sum>x\<in>Q - {c}. qfq_weight e' x) = (\<Sum>x\<in>Q - {c}. qfq_weight e x)"
      by (intro sum.cong) (auto simp: qfq_weight_def e')
    show ?thesis using acc w s(1,2) sum unfolding qfq_account_def same by (auto simp: e')
  qed
  ultimately show ?thesis using e' by (auto simp: qfq_ok_def qfq_inv_def)
qed


section \<open>What arrivals and requests leave alone\<close>

definition qfq_frame :: "siid \<Rightarrow> 'x qfq_env_scheme \<Rightarrow> 'x qfq_env_scheme \<Rightarrow> bool" where
  "qfq_frame i e e' \<longleftrightarrow> qf_wsum (qfs e' i) = qf_wsum (qfs e i) \<and> (\<forall>x. qc_inv_w (qcl e' x) = qc_inv_w (qcl e x) \<and>
     qc_lmax (qcl e' x) = qc_lmax (qcl e x) \<and> qc_grp (qcl e' x) = qc_grp (qcl e x))"

lemma frame_account: "qfq_account Q i e \<Longrightarrow> qfq_frame i e e' \<Longrightarrow> qfq_account Q i e'"
  by (rule account_frame) (auto simp: qfq_frame_def)

lemma qfq_frame_refl: "qfq_frame i e e"
  by (simp add: qfq_frame_def)

lemma qfq_frame_trans: "qfq_frame i a b \<Longrightarrow> qfq_frame i b c \<Longrightarrow> qfq_frame i a c"
  by (simp add: qfq_frame_def)

lemma qfq_frame_qf: "qf_wsum q = qf_wsum (qfs e i) \<Longrightarrow> qfq_frame i e (upd_qf i (\<lambda>_. q) e)"
  by (simp add: qfq_frame_def)

lemma move_wsum [simp]: "qf_wsum (qfq_move_groups k a b q) = qf_wsum q"
  by (simp add: qfq_move_groups_def Let_def)

lemma unblock_wsum: "qfq_unblock_groups g F q = Some q' \<Longrightarrow> qf_wsum q' = qf_wsum q"
  by (auto simp: qfq_unblock_groups_def Let_def bind_eq_Some_conv split: if_splits)

lemma eligible_wsum: "qfq_update_eligible V q = Some q' \<Longrightarrow> qf_wsum q' = qf_wsum q"
  by (auto simp: qfq_update_eligible_def qfq_make_eligible_def Let_def bind_eq_Some_conv split: if_splits)

lemma served_wsum: "qfq_group_served g R F q = Some q' \<Longrightarrow> qf_wsum q' = qf_wsum q"
  by (auto simp: qfq_group_served_def Let_def bind_eq_Some_conv dest: unblock_wsum split: if_splits)

lemma start_wsum: "qfq_start_group g S R q = Some q' \<Longrightarrow> qf_wsum q' = qf_wsum q"
  by (auto simp: qfq_start_group_def Let_def bind_eq_Some_conv split: if_splits)

lemma insert_frame: "qfq_slot_insert i g c R e = Some e' \<Longrightarrow> qfq_frame i e e'"
  by (auto simp: qfq_slot_insert_def Let_def bind_eq_Some_conv qfq_frame_def)

lemma remove_frame: "qfq_front_slot_remove i g e = Some e' \<Longrightarrow> qfq_frame i e e'"
  by (auto simp: qfq_front_slot_remove_def Let_def bind_eq_Some_conv qfq_frame_def split: option.splits)

lemma update_group_frame: "qfq_update_group i g e = Some e' \<Longrightarrow> qfq_frame i e e'"
  by (auto simp: qfq_update_group_def Let_def bind_eq_Some_conv split: prod.splits option.splits
      dest!: unblock_wsum served_wsum intro!: qfq_frame_qf)

lemma update_class_frame:
  assumes "qfq_update_class i g c e = Some (u, e')"
  shows "qfq_frame i e e'"
proof -
  have a: "qfq_frame i e (upd_qc c (\<lambda>r. r\<lparr>qc_S := qc_F r\<rparr>) e)" by (simp add: qfq_frame_def)
  have b: "qfq_frame i e (upd_qc c (\<lambda>r. r\<lparr>qc_F := qc_S r + x * ucast (qc_inv_w r)\<rparr>) (upd_qc c (\<lambda>r. r\<lparr>qc_S := qc_F r\<rparr>) e))" for x
    by (simp add: qfq_frame_def)
  show ?thesis
    using assms a b
    by (auto simp: qfq_update_class_def Let_def bind_eq_Some_conv split: list.splits if_splits dest!: remove_frame insert_frame)
      (blast intro: qfq_frame_trans)+
qed

lemma update_start_frame: "qfq_update_start i g c e = Some e' \<Longrightarrow> qfq_frame i e e'"
  by (auto simp: qfq_update_start_def Let_def bind_eq_Some_conv qfq_frame_def split: if_splits)

lemma activate_frame:
  assumes "qfq_activate i c m e = Some e'"
  shows "qfq_frame i e e'"
proof -
  obtain g e1 q where a: "qfq_update_start i g c e = Some e1"
    "qfq_start_group g (qc_S (qcl (upd_qc c (\<lambda>r. r\<lparr>qc_F := qc_S r + pkt_len m * ucast (qc_inv_w r)\<rparr>) e1) c))
      (qfq_round_down (qc_S (qcl e1 c)) (slot_shift (groups (qfs e1 i) g))) (qfs e1 i) = Some q"
    "qfq_slot_insert i g c (qfq_round_down (qc_S (qcl e1 c)) (slot_shift (groups (qfs e1 i) g)))
      (upd_qf i (\<lambda>_. q) (upd_qc c (\<lambda>r. r\<lparr>qc_F := qc_S r + pkt_len m * ucast (qc_inv_w r)\<rparr>) e1)) = Some e'"
    using assms by (auto simp: qfq_activate_def Let_def bind_eq_Some_conv split: if_splits)
  have "qfq_frame i e1 (upd_qf i (\<lambda>_. q) (upd_qc c (\<lambda>r. r\<lparr>qc_F := qc_S r + pkt_len m * ucast (qc_inv_w r)\<rparr>) e1))"
    using start_wsum [OF a(2)] by (simp add: qfq_frame_def)
  with update_start_frame [OF a(1)] insert_frame [OF a(3)] show ?thesis by (blast intro: qfq_frame_trans)
qed

lemma queue_step_frame: "queue_step c xs fr e e' \<Longrightarrow> qfq_frame i e e'"
  using queue_step_qfq [of c xs fr e e'] by (simp add: qfq_frame_def)

lemma enqueue_frame:
  assumes "qfq_enqueue i c m e = Some (r, e')"
  shows "qfq_frame i e e'"
proof -
  obtain r1 e1 where d: "dn_enqueue c m False e = (r1, e1)" by fastforce
  have "qfq_frame i e e1" using dn_enqueue_step [OF d] queue_step_frame by blast
  then show ?thesis
    using assms by (auto simp: qfq_enqueue_def d bind_eq_Some_conv split: if_splits dest!: activate_frame intro: qfq_frame_trans)
qed

lemma dequeue_frame:
  assumes "qfq_dequeue i e = Some (p, e')"
  shows "qfq_frame i e e'"
proof (cases "bitmaps (qfs e i) ER = 0")
  case True
  then show ?thesis using assms qfq_frame_refl [of i e] by (simp add: qfq_dequeue_def)
next
  case False
  obtain g c where gc: "qfq_ffs (bitmaps (qfs e i) ER) = Some g" "slots (qgroup i e g) (unat (front (qgroup i e g))) = Some c"
    using assms False by (auto simp: qfq_dequeue_def Let_def bind_eq_Some_conv)
  obtain x e0 where d: "dn_dequeue c e = (x, e0)" by fastforce
  have f0: "qfq_frame i e e0"
    using dn_dequeue_step [OF d] by (auto intro: queue_step_frame qfq_frame_refl)
  show ?thesis
  proof (cases x)
    case None
    then show ?thesis using assms False f0 by (simp add: qfq_dequeue_def gc d)
  next
    case (Some m)
    let ?e1 = "upd_qf i (\<lambda>q. q\<lparr>qf_V := qf_V q + pkt_len m * IWSUM\<rparr>) e0"
    obtain u e2 e3 q where s: "qfq_update_class i g c ?e1 = Some (u, e2)"
      "(if u then qfq_update_group i g e2 else Some e2) = Some e3"
      "qfq_update_eligible (qf_V (qfs e0 i)) (qfs e3 i) = Some q" "e' = upd_qf i (\<lambda>_. q) e3"
      using assms False by (auto simp: qfq_dequeue_def gc d Some bind_eq_Some_conv)
    have "qfq_frame i e0 ?e1" by (simp add: qfq_frame_def)
    moreover have "qfq_frame i e2 e3" using s(2) update_group_frame qfq_frame_refl by (cases u) auto
    ultimately show ?thesis
      using f0 update_class_frame [OF s(1)] qfq_frame_qf [OF eligible_wsum [OF s(3)]] unfolding s(4)
      by (blast intro: qfq_frame_trans)
  qed
qed


section \<open>The life of an instance\<close>

text \<open>An event, with the result of the function called.\<close>

datatype qfq_event = NewQueue qid nat | FreeQueue qid | Arrival qid mbuf nat | Request "mbuf option"

inductive qfq_step ::
  "siid \<Rightarrow> qid set \<Rightarrow> 'x qfq_env_scheme \<Rightarrow> qfq_event \<Rightarrow> qid set \<Rightarrow> 'x qfq_env_scheme \<Rightarrow> bool" for i :: siid
where
  new_queue: "c \<notin> Q \<Longrightarrow> mq e c = [] \<Longrightarrow> q_si (qs e c) = Some i \<Longrightarrow> 0 \<le> q_par e c 1 \<Longrightarrow> q_par e c 1 \<le> 2000 \<Longrightarrow>
    qfq_new_queue c e = (r, e') \<Longrightarrow> qfq_step i Q e (NewQueue c r) (if r = 0 then insert c Q else Q) e'"
| free_queue: "c \<in> Q \<Longrightarrow> mq e c = [] \<Longrightarrow> q_si (qs e c) = Some i \<Longrightarrow> qfq_free_queue c safe e = (r, e') \<Longrightarrow>
    qfq_step i Q e (FreeQueue c) (Q - {c}) e'"
| arrival: "c \<in> Q \<Longrightarrow> new_pkt Q e m \<Longrightarrow> m_len m \<le> uint (qc_lmax (qcl e c)) \<Longrightarrow>
    (mq e c = [] \<Longrightarrow> qfq_timely i e \<and> qfq_start_ok i c e) \<Longrightarrow> qfq_enqueue i c m e = Some (r, e') \<Longrightarrow>
    qfq_step i Q e (Arrival c m r) Q e'"
| request: "qfq_timely i e \<Longrightarrow> qfq_dequeue i e = Some (p, e') \<Longrightarrow> qfq_step i Q e (Request p) Q e'"

inductive qfq_run ::
  "siid \<Rightarrow> qid set \<Rightarrow> 'x qfq_env_scheme \<Rightarrow> qfq_event list \<Rightarrow> qid set \<Rightarrow> 'x qfq_env_scheme \<Rightarrow> bool" for i :: siid
where
  stop: "qfq_run i Q e [] Q e"
| more: "qfq_step i Q e ev Q1 e1 \<Longrightarrow> qfq_run i Q1 e1 evs Q2 e2 \<Longrightarrow> qfq_run i Q e (ev # evs) Q2 e2"

lemma arrival_fits:
  assumes ok: "qfq_ok Q i e" and "c \<in> Q" "new_pkt Q e m" "m_len m \<le> uint (qc_lmax (qcl e c))"
    "mq e c = [] \<Longrightarrow> qfq_timely i e \<and> qfq_start_ok i c e"
  shows "qfq_arrival Q i c m e"
proof -
  have "nat (m_len m) \<le> unat (qc_lmax (qcl e c))" using assms(4) by (simp add: nat_le_iff)
  then have "nat (m_len m) * unat (qc_inv_w (qcl e c)) \<le> unat (qc_lmax (qcl e c)) * unat (qc_inv_w (qcl e c))"
    by (rule mult_le_mono1)
  also have "\<dots> \<le> 2 ^ (22 + the (qc_grp (qcl e c)))" using ok assms(2) by (simp add: qfq_ok_def qfq_account_def)
  finally show ?thesis using assms(2-5) by (simp add: qfq_arrival_def)
qed

text \<open>The packets accepted for a queue and those delivered.\<close>

primrec accepted :: "qid \<Rightarrow> qfq_event list \<Rightarrow> mbuf list" where
  "accepted c [] = []"
| "accepted c (ev # evs) = (case ev of Arrival q m r \<Rightarrow> if q = c \<and> r = 0 then [m] else [] | _ \<Rightarrow> []) @ accepted c evs"

primrec delivered :: "qfq_event list \<Rightarrow> mbuf list" where
  "delivered [] = []"
| "delivered (ev # evs) = (case ev of Request (Some m) \<Rightarrow> [m] | _ \<Rightarrow> []) @ delivered evs"

primrec dropped :: "qfq_event list \<Rightarrow> mbuf list" where
  "dropped [] = []"
| "dropped (ev # evs) = (case ev of Arrival q m r \<Rightarrow> if r \<noteq> 0 then [m] else [] | _ \<Rightarrow> []) @ dropped evs"

text \<open>One step: the invariant, the packets of each queue and the packets released.\<close>

definition step_effect :: "qfq_event \<Rightarrow> 'x qfq_env_scheme \<Rightarrow> 'x qfq_env_scheme \<Rightarrow> bool" where
  "step_effect ev e e' \<longleftrightarrow> freed e' = freed e @ dropped [ev] \<and>
     (\<exists>src. map snd src = delivered [ev] \<and>
       (\<forall>c. mq e c @ accepted c [ev] = map snd (filter (\<lambda>x. fst x = c) src) @ mq e' c))"

lemma step_law:
  assumes "qfq_step i Q e ev Q' e'" "qfq_ok Q i e"
  shows "qfq_ok Q' i e' \<and> step_effect ev e e'"
  using assms(1)
proof (cases rule: qfq_step.cases)
  case (new_queue c r)
  from new_queue_law [OF assms(2) new_queue(3-8)] show ?thesis
    unfolding new_queue(1,2) by (auto simp: step_effect_def)
next
  case (free_queue c safe r)
  from free_queue_law [OF assms(2) free_queue(3-6)] show ?thesis
    unfolding free_queue(1,2) by (auto simp: step_effect_def)
next
  case (arrival c m r)
  have inv: "qfq_inv Q i e" and acc: "qfq_account Q i e" using assms(2) by (auto simp: qfq_ok_def)
  from qfq_enqueue_law [OF inv arrival_fits [OF assms(2) arrival(3-6)]] arrival(7)
  have "qfq_inv Q i e'" and r: "r = 0 \<and> mq e' c = mq e c @ [m] \<and> freed e' = freed e \<and> (\<forall>x. x \<noteq> c \<longrightarrow> mq e' x = mq e x) \<or>
     r = 1 \<and> (\<forall>x. mq e' x = mq e x) \<and> freed e' = freed e @ [m]" by auto
  moreover have "qfq_account Q i e'"
    by (rule frame_account [OF acc enqueue_frame [OF arrival(7)]])
  ultimately show ?thesis unfolding arrival(1,2) by (auto simp: qfq_ok_def step_effect_def)
next
  case (request p)
  have inv: "qfq_inv Q i e" and acc: "qfq_account Q i e" using assms(2) by (auto simp: qfq_ok_def)
  from qfq_dequeue_law [OF inv request(3)] request(4) have d: "qfq_inv Q i e'" "deq_outcome Q p e e'" by auto
  have "qfq_account Q i e'" by (rule frame_account [OF acc dequeue_frame [OF request(4)]])
  moreover have "step_effect (Request p) e e'"
  proof (cases p)
    case None
    with d(2) show ?thesis by (simp add: step_effect_def deq_outcome_def)
  next
    case (Some m)
    with d(2) obtain c ms where "freed e' = freed e" "mq e c = m # ms" "mq e' c = ms" "\<forall>x. x \<noteq> c \<longrightarrow> mq e' x = mq e x"
      by (auto simp: deq_outcome_def)
    then show ?thesis using Some by (auto simp: step_effect_def intro!: exI [of _ "[(c, m)]"])
  qed
  ultimately show ?thesis using d(1) request(1,2) by (simp add: qfq_ok_def)
qed

lemma run_law:
  assumes "qfq_run i Q e evs Q' e'" "qfq_ok Q i e"
  shows "qfq_ok Q' i e' \<and> freed e' = freed e @ dropped evs \<and> (\<exists>src. map snd src = delivered evs \<and>
    (\<forall>c. mq e c @ accepted c evs = map snd (filter (\<lambda>x. fst x = c) src) @ mq e' c))"
  using assms
proof (induction rule: qfq_run.induct)
  case (more Q e ev Q1 e1 evs Q2 e2)
  have s: "qfq_ok Q1 i e1" "step_effect ev e e1" using step_law [OF more.hyps(1) more.prems] by auto
  obtain s2 where s2: "qfq_ok Q2 i e2" "freed e2 = freed e1 @ dropped evs" "map snd s2 = delivered evs"
    "\<And>c. mq e1 c @ accepted c evs = map snd (filter (\<lambda>x. fst x = c) s2) @ mq e2 c" using more.IH [OF s(1)] by blast
  obtain s1 where s1: "freed e1 = freed e @ dropped [ev]" "map snd s1 = delivered [ev]"
    "\<And>c. mq e c @ accepted c [ev] = map snd (filter (\<lambda>x. fst x = c) s1) @ mq e1 c" using s(2) by (auto simp: step_effect_def)
  have "mq e c @ accepted c (ev # evs) = map snd (filter (\<lambda>x. fst x = c) (s1 @ s2)) @ mq e2 c" for c
  proof -
    have "mq e c @ accepted c (ev # evs) = (mq e c @ accepted c [ev]) @ accepted c evs" by simp
    also have "\<dots> = map snd (filter (\<lambda>x. fst x = c) s1) @ (mq e1 c @ accepted c evs)" by (simp only: s1(3) append_assoc)
    finally show ?thesis by (simp only: s2(4)) simp
  qed
  moreover have "map snd (s1 @ s2) = delivered (ev # evs)" "freed e2 = freed e @ dropped (ev # evs)"
    using s1(1,2) s2(2,3) by simp_all
  ultimately show ?case using s2(1) by blast
qed (auto intro: exI [of _ "[]"])

end
