(* ===== verification/SchedQfqOk.thy ===== *)
theory SchedQfqOk
  imports QfqRun
begin

text \<open>
  The properties of the QFQ scheduler: a request returns and never refuses while a packet is held, an
  arrival is appended or dropped, over the life of an instance from its creation the sum of the weights
  stays within its limit and every queue is first-in first-out, and \<open>qfq_calc_index\<close> is the least group
  for a flow. What the source takes for granted is a condition here: no group is more than \<open>2 ^ 18\<close> slots behind
  the virtual time when a request comes (\<open>qfq_timely\<close>), the group and the start time of a queue that becomes busy are
  inside the window of slots (\<open>qfq_start_ok\<close>), and no packet is longer than the \<open>lmax\<close> of its flow. None of them is shown
  to hold in all lives of an instance. What happens outside the window is shown too.
\<close>

section \<open>A concrete instance\<close>

text \<open>An instance just allocated, with a queue 7 of the greatest weight and packets of up to 200 bytes.\<close>

definition wqf :: qfq_env where
  "wqf = \<lparr>qs = qs wenv, fsks = (\<lambda>_. (fsks wenv 0)\<lparr>fsk_fs := (fsk_fs (fsks wenv 0))\<lparr>fs_par := \<lambda>n. if n = 0 then 65536 else 200\<rparr>\<rparr>),
     sis = sis wenv, schks = schks wenv, idle_queue = 2, idle_si = 1, curr_time = 0, io_pkt_drop = 0, rand = (\<lambda>_. 0), freed = [],
     qfs = (\<lambda>_. \<lparr>qf_V = 0, qf_wsum = 0, bitmaps = \<lambda>_. 0,
       groups = \<lambda>_. \<lparr>qg_S = 0, qg_F = 0, slot_shift = 0, qg_index = 0, front = 0, full_slots = 0, slots = \<lambda>_. None\<rparr>\<rparr>),
     qcl = (\<lambda>_. \<lparr>qc_S = 0, qc_F = 0, qc_next = None, qc_grp = None, qc_inv_w = 0, qc_lmax = 0\<rparr>)\<rparr>"

lemma wqf_blank: "qfq_blank (qfs wqf 0)"
  by (simp add: qfq_blank_def wqf_def)

lemma new_sched_qs:
  assumes "qfq_new_sched i e = (r, e')"
  shows "qs e' = qs e" "fsks e' = fsks e" "qcl e' = qcl e" "freed e' = freed e"
proof -
  have "qs (foldl (\<lambda>e g. upd_qf i (h g) e) e xs) = qs e \<and> fsks (foldl (\<lambda>e g. upd_qf i (h g) e) e xs) = fsks e \<and>
      qcl (foldl (\<lambda>e g. upd_qf i (h g) e) e xs) = qcl e \<and> freed (foldl (\<lambda>e g. upd_qf i (h g) e) e xs) = freed e" for h xs
    by (induction xs rule: rev_induct) simp_all
  from this [of "\<lambda>g. upd_qg g (\<lambda>r. r\<lparr>qg_index := g, slot_shift := QFQ_MTU_SHIFT + QFQ_FRAC_BITS - (QFQ_MAX_INDEX - g)\<rparr>)" "[0..<Suc QFQ_MAX_INDEX]"]
  show "qs e' = qs e" "fsks e' = fsks e" "qcl e' = qcl e" "freed e' = freed e"
    using assms unfolding qfq_new_sched_def by auto
qed

definition wqf0 :: qfq_env where "wqf0 = snd (qfq_new_sched 0 wqf)"

lemma wqf0: "qfq_new_sched 0 wqf = (0, wqf0)"
  by (simp add: wqf0_def qfq_new_sched_def)

lemma wqf0_inv: "qfq_ok {} 0 wqf0"
  using new_sched_inv [OF wqf_blank wqf0] by (simp add: qfq_ok_def qfq_account_def)

lemma wqf0_data:
  "qs wqf0 = qs wqf" "fsks wqf0 = fsks wqf" "qcl wqf0 = qcl wqf" "freed wqf0 = []"
  "g \<le> 19 \<Longrightarrow> groups (qfs wqf0 0) g = (groups (qfs wqf 0) g)\<lparr>qg_index := g, slot_shift := 22 + g\<rparr>"
  "bitmaps (qfs wqf0 0) = (\<lambda>_. 0)" "qf_V (qfs wqf0 0) = 0" "qf_wsum (qfs wqf0 0) = 0"
  using new_sched_qs [OF wqf0] new_sched_fold [of 0 "\<lambda>g. QFQ_MTU_SHIFT + QFQ_FRAC_BITS - (QFQ_MAX_INDEX - g)" wqf "[0..<Suc QFQ_MAX_INDEX]"]
  by (simp_all add: wqf0_def qfq_new_sched_def) (auto simp: wqf_def qfq_consts)

definition wqf1 :: qfq_env where "wqf1 = snd (qfq_new_queue 7 wqf0)"

lemma wqf1: "qfq_new_queue 7 wqf0 = (0, wqf1)"
  and wqf1_class: "qcl wqf1 7 = \<lparr>qc_S = 0, qc_F = 0, qc_next = None, qc_grp = Some 0, qc_inv_w = 2 ^ 14, qc_lmax = 200\<rparr>"
  and wqf1_env: "qs wqf1 = qs wqf" "freed wqf1 = []" "fsks wqf1 = fsks wqf"
  and wqf1_sched: "groups (qfs wqf1 0) = groups (qfs wqf0 0)" "bitmaps (qfs wqf1 0) = (\<lambda>_. 0)" "qf_V (qfs wqf1 0) = 0"
  by (simp_all add: wqf1_def qfq_new_queue_def Let_def wqf0_data wqf_def wenv_def dn_zero_defs q_par_def qfq_consts qfq_calc_index_def)

lemma wqf1_ok: "qfq_ok {7} 0 wqf1"
  using new_queue_law [OF wqf0_inv _ _ _ _ _ wqf1] by (simp add: wqf0_data wqf_def wenv_def dn_zero_defs q_par_def)

lemma wqf1_timely: "qfq_timely 0 wqf1"
  by (auto simp: qfq_timely_def wqf1_sched wqf0_data wqf_def)

lemma wqf1_start: "qfq_start_ok 0 7 wqf1"
  by (simp add: qfq_start_ok_def wqf1_class qfq_update_start_def wqf1_sched wqf0_data mask_from_def Let_def
    qfq_gt_def slots_behind_def qfq_round_down_def) (simp add: wqf_def)

lemma wqf1_new: "new_pkt {7} wqf1 (wpkt 5 200)"
  by (simp add: new_pkt_def pkts_ok_def wpkt_def is_head_def wqf1_env wqf_def wenv_def dn_zero_defs)

definition wqf2 :: qfq_env where "wqf2 = snd (the (qfq_enqueue 0 7 (wpkt 5 200) wqf1))"

lemma wqf2: "qfq_enqueue 0 7 (wpkt 5 200) wqf1 = Some (0, wqf2)"
  and wqf2_sched: "g \<le> 19 \<Longrightarrow> full_slots (groups (qfs wqf2 0) g) = (if g = 0 then 1 else 0)"
    "qg_S (groups (qfs wqf2 0) 0) = 0" "qf_V (qfs wqf2 0) = 0" "mq wqf2 7 = [wpkt 5 200]"
proof -
  obtain r e1 where d: "dn_enqueue 7 (wpkt 5 200) False wqf1 = (r, e1)" by fastforce
  have r: "r = 0"
    using d by (auto simp: dn_enqueue_def must_drop_def Let_def wqf1_env wqf_def wenv_def dn_zero_defs ni_arrive_def wpkt_def)
  have q: "queue_step 7 [wpkt 5 200] [] wqf1 e1"
    using dn_enqueue_step [OF d] by (simp add: r wqf1_env wqf_def wenv_def dn_zero_defs)
  note e1 = queue_step_qfq [OF q]
  have a: "\<exists>e2. qfq_activate 0 7 (wpkt 5 200) e1 = Some e2 \<and>
      (\<forall>g\<le>19. full_slots (groups (qfs e2 0) g) = (if g = 0 then 1 else 0)) \<and>
      qg_S (groups (qfs e2 0) 0) = 0 \<and> qf_V (qfs e2 0) = 0 \<and> qs e2 = qs e1"
    by (simp add: qfq_activate_def e1 wqf1_class wqf1_sched wqf0_data QFQ_MAX_INDEX_def Let_def qfq_update_start_def
        mask_from_def qfq_gt_def qfq_round_down_def qfq_start_group_def wqf_def qfq_calc_state_def bm_set_def int_bit_def
        qfq_slot_insert_def)
  then obtain e2 where e2: "qfq_activate 0 7 (wpkt 5 200) e1 = Some e2" "\<forall>g\<le>19. full_slots (groups (qfs e2 0) g) = (if g = 0 then 1 else 0)"
      "qg_S (groups (qfs e2 0) 0) = 0" "qf_V (qfs e2 0) = 0" "qs e2 = qs e1" by blast
  have m: "mq wqf1 7 = []" "mq e1 7 = [wpkt 5 200]" using q by (simp_all add: queue_step_def wqf1_env wqf_def wenv_def dn_zero_defs)
  have "qfq_enqueue 0 7 (wpkt 5 200) wqf1 = Some (0, e2)"
    using e2(1) by (simp add: qfq_enqueue_def d r m is_head_def)
  moreover from this have "wqf2 = e2" by (simp add: wqf2_def)
  ultimately show "qfq_enqueue 0 7 (wpkt 5 200) wqf1 = Some (0, wqf2)"
    "g \<le> 19 \<Longrightarrow> full_slots (groups (qfs wqf2 0) g) = (if g = 0 then 1 else 0)"
    "qg_S (groups (qfs wqf2 0) 0) = 0" "qf_V (qfs wqf2 0) = 0" "mq wqf2 7 = [wpkt 5 200]"
    using e2 m by simp_all
qed

lemma wqf2_timely: "qfq_timely 0 wqf2"
  unfolding qfq_timely_def
proof
  fix g assume "g \<in> {0..<20::nat}"
  then show "full_slots (groups (qfs wqf2 0) g) \<noteq> 0 \<longrightarrow>
      slots_behind (22 + g) (qf_V (qfs wqf2 0)) (qg_S (groups (qfs wqf2 0) g)) \<le> 2 ^ 18"
    using wqf2_sched(2,3) by (auto simp: wqf2_sched(1) slots_behind_def qfq_round_down_def)
qed

lemma wqf2_ok: "qfq_ok {7} 0 wqf2"
proof -
  have "qfq_step 0 {7} wqf1 (Arrival 7 (wpkt 5 200) 0) {7} wqf2"
    by (rule qfq_step.arrival [OF _ wqf1_new _ _ wqf2]) (simp_all add: wpkt_def wqf1_class wqf1_timely wqf1_start)
  from step_law [OF this wqf1_ok] show ?thesis by simp
qed

section \<open>Outside the conditions\<close>

text \<open>
  Outside the window of slots the insertion shifts by 32 or more, which C leaves undefined: the call does not return.
  This is the case the comment in \<open>qfq_slot_insert\<close> marks.
\<close>

lemma slot_outside:
  assumes "32 \<le> unat (drop_bit (slot_shift (qgroup i e g)) (roundedS - qg_S (qgroup i e g)))"
  shows "qfq_slot_insert i g c roundedS e = None"
  using assms by (simp add: qfq_slot_insert_def Let_def bm_set_def int_bit_def upd_qc_def)

text \<open>The bit of slot 31 is the sign of the \<open>int\<close> shifted: marking the slot marks 33 bits.\<close>

lemma int_bit_31: "int_bit 31 = Some 0xFFFFFFFF80000000"
  by (simp add: int_bit_def)

text \<open>
  A queue refused for the sum of the weights has no group, but its weight is set; deleting it takes from
  the sum a weight that was not added.
\<close>

lemma refused_weight_subtracted:
  assumes n: "qfq_new_queue c e = (22, e1)" and i: "q_si (qs e c) = Some i" and f: "qfq_free_queue c safe e1 = (r, e2)"
  shows "qc_grp (qcl e1 c) = qc_grp (qcl e c) \<and> qf_wsum (qfs e1 i) = qf_wsum (qfs e i) \<and>
    qf_wsum (qfs e2 i) \<noteq> qf_wsum (qfs e i)"
proof -
  define w0 where "w0 = (word_of_int (q_par e c 0) :: u32)"
  define w where "w = (if w0 = 0 \<or> of_nat QFQ_MAX_WEIGHT < w0 then 1 else w0)"
  define v where "v = (ucast (QFQ_ONE_FP div ucast w) :: u32)"
  have "w \<noteq> 0" "w \<le> of_nat QFQ_MAX_WEIGHT" by (auto simp: w_def qfq_consts not_less)
  note iw = inverse_weight [OF this, folded v_def]
  have v0: "v \<noteq> 0" using iw(2) by auto
  have e1: "qc_inv_w (qcl e1 c) = v" "qc_grp (qcl e1 c) = qc_grp (qcl e c)" "qfs e1 = qfs e" "qs e1 = qs e"
    using n by (auto simp: qfq_new_queue_def Let_def v_def w_def w0_def q_par_def split: if_splits)
  have "unat QFQ_ONE_FP = 2 ^ 30" by (simp add: qfq_consts)
  moreover have "unat (ucast v :: u64) = unat v"
    using iw(3) by (simp add: unsigned_ucast_eq take_bit_nat_eq_self)
  ultimately have "unat (QFQ_ONE_FP div ucast v :: u64) = 2 ^ 30 div unat v" by (simp only: unat_div)
  moreover have "0 < 2 ^ 30 div unat v" using iw(2,3) by (simp add: div_greater_zero_iff)
  ultimately have "(ucast (QFQ_ONE_FP div ucast v) :: u32) \<noteq> 0" using iw(4) by auto
  moreover have "qf_wsum (qfs e2 i) = qf_wsum (qfs e i) - ucast (QFQ_ONE_FP div ucast v)"
    using f v0 i by (auto simp: qfq_free_queue_def Let_def e1 split: if_splits)
  ultimately show ?thesis using e1 by simp
qed

section \<open>Properties\<close>

text \<open>C7: A request to a QFQ instance returns, from every state of the invariant in which no group is more than
  \<open>2 ^ 18\<close> slots behind the virtual time (so that comparisons of time stamps do not wrap; the groups may be far outside the window
  of their 32 slots): no slot, group or queue is accessed through NULL or out of bounds and no bit scan fails. It
  gives a packet whenever some queue has one, the head of one of the queues, and keeps the invariant of the groups,
  slots and bitmaps.\<close>

theorem qfq_dequeue_returns:
  assumes "qfq_ok Q i e" "qfq_timely i e"
  shows "\<exists>p e'. qfq_dequeue i e = Some (p, e') \<and> qfq_ok Q i e' \<and> deq_outcome Q p e e' \<and>
    (p = None \<longleftrightarrow> (\<forall>c\<in>Q. mq e c = []))"
proof -
  have inv: "qfq_inv Q i e" using assms(1) by (simp add: qfq_ok_def)
  obtain p e' where r: "qfq_dequeue i e = Some (p, e')" "deq_outcome Q p e e'"
    using qfq_dequeue_law [OF inv assms(2)] by blast
  then have "p = None \<longleftrightarrow> (\<forall>c\<in>Q. mq e c = [])" by (cases p) (force simp: deq_outcome_def)+
  moreover have "qfq_ok Q i e'" using step_law [OF qfq_step.request [OF assms(2) r(1)] assms(1)] by simp
  ultimately show ?thesis using r by blast
qed

lemma qfq_dequeue_returns_witness:
  "\<exists>p e'. qfq_dequeue 0 wqf2 = Some (p, e') \<and> qfq_ok {7} 0 e' \<and> p \<noteq> None \<and> mq wqf2 7 = [wpkt 5 200]"
  using qfq_dequeue_returns [OF wqf2_ok wqf2_timely] wqf2_sched(4) by auto

text \<open>C8: Handing a new packet of at most \<open>lmax\<close> bytes to a queue of a QFQ instance returns: the packet is
  appended to its queue, or it is dropped and released, the other queues are untouched and the invariant
  of the groups, slots and bitmaps is kept, whether the queue was idle or not and whether its group was empty, ahead or
  had to be rotated. When the queue was idle, no group may be more than \<open>2 ^ 18\<close> slots behind the virtual time, and
  the group of the queue and the start time the queue gets may not be more than 30 slots behind it (\<open>qfq_start_ok\<close>): the
  window of slots that the source takes for granted and does not check. Nothing is asked when the queue was busy.\<close>

theorem qfq_enqueue_total:
  assumes "qfq_ok Q i e" "c \<in> Q" "new_pkt Q e m" "m_len m \<le> uint (qc_lmax (qcl e c))"
    "mq e c = [] \<Longrightarrow> qfq_timely i e \<and> qfq_start_ok i c e"
  shows "\<exists>r e'. qfq_enqueue i c m e = Some (r, e') \<and> qfq_ok Q i e' \<and>
    (r = 0 \<and> mq e' c = mq e c @ [m] \<and> freed e' = freed e \<and> (\<forall>x. x \<noteq> c \<longrightarrow> mq e' x = mq e x) \<or>
     r = 1 \<and> (\<forall>x. mq e' x = mq e x) \<and> freed e' = freed e @ [m])"
proof -
  have inv: "qfq_inv Q i e" using assms(1) by (simp add: qfq_ok_def)
  obtain r e' where r: "qfq_enqueue i c m e = Some (r, e')"
    "r = 0 \<and> mq e' c = mq e c @ [m] \<and> freed e' = freed e \<and> (\<forall>x. x \<noteq> c \<longrightarrow> mq e' x = mq e x) \<or>
     r = 1 \<and> (\<forall>x. mq e' x = mq e x) \<and> freed e' = freed e @ [m]"
    using qfq_enqueue_law [OF inv arrival_fits [OF assms]] by blast
  have "qfq_ok Q i e'" using step_law [OF qfq_step.arrival [OF assms(2-5) r(1)] assms(1)] by simp
  with r show ?thesis by blast
qed

lemma qfq_enqueue_total_witness:
  "\<exists>r e'. qfq_enqueue 0 7 (wpkt 5 200) wqf1 = Some (r, e') \<and> qfq_ok {7} 0 e'"
  using qfq_enqueue_total [OF wqf1_ok _ wqf1_new] wqf1_timely wqf1_start by (auto simp: wpkt_def wqf1_class)

text \<open>For every sequence of calls to a QFQ instance from its creation on (queues created, refused for the sum of the
  weights and deleted, packets arriving and requested) whose calls satisfy the conditions of \<open>qfq_step\<close>, its invariant
  holds, the sum of the weights is that of its queues and at most \<open>QFQ_MAX_WSUM\<close>, each queue is served first-in
  first-out, and exactly the packets refused are released. The conditions, which are not shown to follow from
  one another: a queue is new and empty when it is created, its \<open>lmax\<close> is at most the 2000 bytes of \<open>qfq_new_fsk\<close>; only empty
  queues are deleted; packets are new and not longer than the \<open>lmax\<close> of their queue; a request comes when no group is more
  than \<open>2 ^ 18\<close> slots behind the virtual time; and so does a packet for an idle queue, whose group and start time are then in
  the window of slots (\<open>qfq_start_ok\<close>).\<close>

theorem qfq_life_fifo:
  assumes "qfq_blank (qfs e i)" "qfq_new_sched i e = (r, e0)" "qfq_run i {} e0 evs Q e'"
  shows "qfq_ok Q i e' \<and> unat (qf_wsum (qfs e' i)) = (\<Sum>c\<in>Q. qfq_weight e' c) \<and> unat (qf_wsum (qfs e' i)) \<le> QFQ_MAX_WSUM \<and>
    freed e' = freed e @ dropped evs \<and> (\<exists>src. map snd src = delivered evs \<and>
      (\<forall>c. mq e c @ accepted c evs = map snd (filter (\<lambda>x. fst x = c) src) @ mq e' c))"
proof -
  have "qfq_ok {} i e0" using new_sched_inv [OF assms(1,2)] by (simp add: qfq_ok_def qfq_account_def)
  from run_law [OF assms(3) this] new_sched_qs [OF assms(2)] show ?thesis by (simp add: qfq_ok_def qfq_account_def)
qed

lemma qfq_life_fifo_witness:
  "\<exists>p e'. qfq_run 0 {} wqf0 [NewQueue 7 0, Arrival 7 (wpkt 5 200) 0, Request p] {7} e' \<and> qfq_ok {7} 0 e' \<and>
     freed e' = []"
proof -
  obtain p e' where d: "qfq_dequeue 0 wqf2 = Some (p, e')"
    using qfq_dequeue_law [of "{7}" 0 wqf2] wqf2_ok wqf2_timely by (auto simp: qfq_ok_def)
  have "qfq_step 0 {} wqf0 (NewQueue 7 0) {7} wqf1"
    using qfq_step.new_queue [OF _ _ _ _ _ wqf1, of "{}" 0] by (simp add: wqf0_data wqf_def wenv_def dn_zero_defs q_par_def)
  moreover have "qfq_step 0 {7} wqf1 (Arrival 7 (wpkt 5 200) 0) {7} wqf2"
    by (rule qfq_step.arrival [OF _ wqf1_new _ _ wqf2]) (simp_all add: wpkt_def wqf1_class wqf1_timely wqf1_start)
  moreover have "qfq_step 0 {7} wqf2 (Request p) {7} e'" by (rule qfq_step.request [OF wqf2_timely d])
  ultimately have run: "qfq_run 0 {} wqf0 [NewQueue 7 0, Arrival 7 (wpkt 5 200) 0, Request p] {7} e'"
    by (blast intro: qfq_run.intros)
  have "freed wqf = []" by (simp add: wqf_def)
  with qfq_life_fifo [OF wqf_blank wqf0 run] run show ?thesis by auto
qed

text \<open>C29: \<open>qfq_calc_index\<close> finds the least group whose slots hold a packet of the greatest length, for every
  inverse weight and every length below the limit of 2048 bytes: the number is one of the 20 groups, the scaled
  length fits in a slot of that group and in no slot of a smaller one.\<close>

theorem qfq_calc_index_least:
  assumes "unat inv_w \<le> 2 ^ 30" "unat maxlen < 2 ^ 11"
  shows "\<exists>g. qfq_calc_index inv_w maxlen = int g \<and> g \<le> QFQ_MAX_INDEX \<and>
    unat maxlen * unat inv_w \<le> 2 ^ (QFQ_MIN_SLOT_SHIFT + g) \<and>
    (\<forall>h<g. 2 ^ (QFQ_MIN_SLOT_SHIFT + h) < unat maxlen * unat inv_w)"
  using calc_index_least [OF assms] by (simp add: qfq_consts)

lemma qfq_calc_index_least_witness:
  "\<exists>g. qfq_calc_index 1073741824 1500 = int g \<and> g \<le> QFQ_MAX_INDEX"
  using qfq_calc_index_least [of 1073741824 1500] by auto

end
