(* ===== verification/Spec2Isabelle.thy ===== *)
theory Spec2Isabelle
  imports DnHeap DnHash DnConfOk DnGetOk DnGlueOk DnInput FwLife InCksum SchedFifo SchedRR SchedPrio SchedWf2q SchedQfqOk
begin

text \<open>
  A verification library for dummynet, the traffic shaper of this repository, as it is in
  \<open>src/sys/netinet/ipfw\<close> (the files \<open>dn_heap.c\<close>, \<open>dn_sched_*.c\<close>, \<open>ip_dummynet.c\<close>, \<open>ip_dn_io.c\<close>,
  \<open>ip_dn_glue.c\<close> and their headers), for the rules of the packet filter \<open>ipfw\<close> and their chain (\<open>ip_fw_sockopt.c\<close>), and
  for the checksum \<open>src/sys/netinet/in_cksum.c\<close>.

  The program. The packet filter hands a packet to \<open>dummynet_io\<close>. The rule names a flowset; a flowset is
  attached to a scheduler, which has a link and a scheduling algorithm. The packet goes to a queue of the
  flowset and to an instance of the scheduler, both found by the masked flow identifier and created when they
  are missing. An instance whose bandwidth is used up waits in the event heap for the tick in which its credit
  is paid back; the packets that were served wait in its delay line, which is in the event heap too. The timer
  \<open>dummynet_task\<close> adjusts the clock, serves the due events, drains idle objects and sends the packets. Requests
  from userland configure, delete and flush the objects in batches.

  How the code is modelled. A structure is a record, an address a number, the objects are maps from addresses to
  records; 64-bit and 32-bit unsigned integers are words, signed ones integers that are wrapped explicitly
  (\<open>s32\<close>, \<open>s64\<close>). A function that changes state takes and returns the state; \<open>None\<close> is a call that does not
  return: a panic, an access through NULL, a division by zero, an endless loop. Allocation is an argument (a
  stream of outcomes), and so are random numbers and the cycle counter. Loops whose end is not evident are
  \<open>partial_function\<close>s, so that a theorem that says a call returns says that its loops end; no fuel is used.

  Theories, from the bottom.

    \<^item> \<open>Prelude\<close>: names for the integer types, the wrap-around comparison of keys and the window in which it is
      a linear order, machine arithmetic, list lemmas.
    \<^item> \<open>DnHeap\<close>: the binary heap of \<open>dn_heap.c\<close>, an array with the index fields of its objects. Every operation
      keeps the order, the bounds and the index fields; insertion and extraction act on the multiset of entries
      as specified; extracting until empty sorts; a scan may remove what it likes.
    \<^item> \<open>DnHash\<close>: the hash table of \<open>dn_heap.c\<close>, buckets of circular lists. Lookups, insertions and removals
      refine operations on lists and terminate; keys stay found until they are removed; scans count exactly.
    \<^item> \<open>DnTypes\<close>, \<open>FlowId\<close>: the data of \<open>ip_dn_private.h\<close> and \<open>ip_dummynet.h\<close>, and masks, comparison and hash of flow
      identifiers. Matching identifiers have the same hash; packets in the same queue are in the same instance.
    \<^item> \<open>DnQueue\<close>: queues of packets, RED and the statistics (\<open>dn_enqueue\<close>, \<open>dn_dequeue\<close>). Counters stay exact,
      sizes bounded, the average between its old value and the queue size.
    \<^item> \<open>Sched\<close>: the descriptor of an algorithm (\<open>dn_sched.h\<close>), and the locales \<open>scheduler\<close> and \<open>wc_scheduler\<close>, the contract
      under which every class of packets is served first-in first-out with no loss over any run.
    \<^item> \<open>SchedFifo\<close>, \<open>SchedRR\<close>, \<open>SchedPrio\<close>, \<open>SchedWf2q\<close>: the four algorithms, each with its invariant, its termination
      and an interpretation of the contract; strictness of priorities. WF2Q+ puts its queues into heaps whose arrays
      grow: the invariant \<open>wf_inv\<close> says nothing about memory, and \<open>wf_memory\<close>, a condition of the properties, that the arrays
      have room for the queues or that allocations succeed. \<open>wf_insert_lost\<close> and \<open>lost_queue_panics\<close> show what happens without.
    \<^item> \<open>SchedQfq\<close>: the fifth algorithm, QFQ, as it is in \<open>dn_sched_qfq.c\<close>. \<open>QfqTime\<close> holds the arithmetic of wrapping
      virtual times, slots and bit scans, \<open>QfqSlots\<close> the circular arrays of slot lists, \<open>QfqGroups\<close> the four bitmaps as
      a state of each group and the moves between them, \<open>QfqOk\<close> and \<open>QfqEnq\<close> the invariant and its preservation by
      requests and arrivals, \<open>QfqRun\<close> the life of an instance as a step relation, \<open>SchedQfqOk\<close> the properties: requests
      return and are work conserving, queues are first-in first-out, the account of the weights is exact.
    \<^item> \<open>DnObj\<close>, \<open>DnTab\<close>: the life of instances, queues, flowsets and schedulers (\<open>ip_dummynet.c\<close>), with tables of lists
      that \<open>DnTab\<close> shows to agree with the pointer table of \<open>DnHash\<close>.
    \<^item> \<open>DnConf\<close>, \<open>DnConfOk\<close>: configuration (\<open>config_*\<close>, \<open>dummynet_flush\<close>, \<open>do_config\<close>, \<open>ip_dn_ctl\<close>, the registration
      of algorithms). Batches run in order up to the first error; the RED table is decreasing and in bounds; a
      flowset configured is found, attached and within the limits; registration can be undone.
    \<^item> \<open>DnGet\<close>, \<open>DnGetOk\<close>: the export of the objects to userland (\<open>copy_*\<close>, \<open>compute_space\<close>, \<open>dummynet_get\<close>), with the
      states the lock finds at each attempt as an argument, and unloading. As many bytes of an object are copied as its
      header says. What is given back can be taken apart and fits; with the headers that the objects are made with they are
      there whole; a request for all flowsets is complete.
    \<^item> \<open>DnGlue\<close>, \<open>DnGlueGet\<close>, \<open>DnGlueOk\<close>: the socket interface of FreeBSD 7.2 and 8 (\<open>ip_dn_glue.c\<close>): the old
      structures, the conversion of their requests into batches of messages, and the export in the old layout. A
      request of a known size is exactly a batch run in order; what is exported can be read back; the flags survive.
    \<^item> \<open>DnIo\<close>: the data path (\<open>ip_dn_io.c\<close>): tags, delay lines, \<open>serve_sched\<close>, the clock, the timer, sending,
      \<open>dummynet_io\<close>. The clock follows the time elapsed; a delay line sends exactly its due prefix.
    \<^item> \<open>DnServe\<close>: the locale \<open>packet_source\<close>, what an algorithm must provide; then serving an instance returns,
      delivers the delay line and what consecutive calls of the algorithm return (\<open>takes\<close>) in order, and leaves no packet
      without an event. For FIFO, an instance of the locale, this is the order of the queue.
    \<^item> \<open>DnEvents\<close>: the invariant of the data path. The heap holds exactly one event for every instance that waits
      for credit and for every delay line that is not empty, and an instance that waits for none holds no packet.
      Every event keeps it, and the loop over the due events ends. As in \<open>DnServe\<close> and \<open>DnInput\<close> the properties have
      the locale as a hypothesis, so that they hold for every algorithm that is shown to be an instance.
    \<^item> \<open>DnInput\<close>: the locale \<open>packet_sched\<close>, what an algorithm must do with a packet; then a packet that comes in is
      never lost, also when it has to wait, when its tag finds no memory, and when there is no flowset or no scheduler;
      packets that cannot be handled are released and reported.

    \<^item> \<open>FwRule\<close>, \<open>FwChain\<close>, \<open>FwChainOk\<close>, \<open>FwDelOk\<close>: the rules of the packet filter and their chain (\<open>ip_fw_sockopt.c\<close>),
      an array in the order of rule numbers with a binary search. Additions keep the order; deletions with the
      optimised search are the filter of the whole chain.
    \<^item> \<open>FwCheck\<close>, \<open>FwCheckOk\<close>: the check of a rule from userland, the conversion between the layouts of FreeBSD 7.2 and 8,
      the socket option. A rule is accepted exactly when its words are well-formed instructions with
      one action at the end; the conversion can be undone.
    \<^item> \<open>FwList\<close>: the listing in both layouts (\<open>ipfw_getrules\<close>, \<open>IP_FW_GET\<close>) with the dynamic rules (\<open>ip_fw_dynamic.c\<close>).
    \<^item> \<open>FwLife\<close>: the step relation of the operations on the chain; its invariant; a listing in the present layout is a
      snapshot; one in the old layout need not return.
    \<^item> \<open>InCksum\<close>: the Internet checksum over a chain of buffers equals the one's complement sum of the words of the data.

  Bounds. The theorems on the event loop assume that times are within \<open>2 ^ 62\<close> ticks of the clock, bandwidths
  and delays below \<open>2 ^ 31\<close> (their type in the code), no more than \<open>2 ^ 20\<close> ticks a second, packets below \<open>2 ^ 16\<close>
  bytes, an instance that waits served less than \<open>2 ^ 30\<close> ticks ago, profiles whose samples are in bounds and add less
  than \<open>2 ^ 19\<close> bits to a packet, and an event heap with room for two events per instance, or memory to make it larger: the
  code ignores a failed insertion, and the event is then lost (\<open>event_lost\<close>). They are proved for every algorithm that
  keeps the contracts of the two locales, which is shown for FIFO. For QFQ a request comes
  when no group is more than \<open>2 ^ 18\<close> slots behind the virtual time (\<open>qfq_timely\<close>), so that time stamps do not wrap; so does
  an arrival for an idle queue, whose group and start time must then be inside the window of slots (\<open>qfq_start_ok\<close>), and
  which has at most \<open>lmax\<close> bytes. Both conditions are executable; the design of the algorithm intends them, and the code
  nowhere checks them. They are not shown to hold in all lives of an instance.

  Variants. The configuration with sysctl emulation of the user space port and the variant for Linux 2.4 are not
  taken; with and without a cycle counter both are (field \<open>tsc\<close>).

  Not modelled. Locks and the callout. Outside dummynet: the interpreter of the rules of the packet filter, its state,
  tables and hooks, the radix tree, the kernel glue, the command line program and the tests.
\<close>

section \<open>What configuration may rely on\<close>

text \<open>
  Attaching a flowset lets an algorithm change the parameters of the flowset only; the five algorithms keep to
  that, so that what \<open>DnConfOk\<close> proves of \<open>config_fs\<close> holds with each of them.
\<close>

lemma bound_par_conf:
  "fs_conf (fsks (bound_par f n d lo hi e) j) = fs_conf (fsks e j)" "schks (bound_par f n d lo hi e) = schks e"
  by (simp_all add: bound_par_def fs_conf_def)

lemma keeps_conf_fifo: "keeps_conf (\<lambda>_. fifo_desc qa sz)"
  by (simp add: keeps_conf_def fifo_desc_def)

lemma keeps_conf_rr: "keeps_conf (\<lambda>_. rr_desc)"
  by (simp add: keeps_conf_def rr_desc_def rr_new_fsk_def Let_def bound_par_conf)

lemma keeps_conf_prio: "keeps_conf (\<lambda>_. prio_desc)"
  by (simp add: keeps_conf_def prio_desc_def prio_new_fsk_def bound_par_conf)

lemma keeps_conf_wf2qp: "keeps_conf (\<lambda>_. wf2qp_desc ofs)"
  by (simp add: keeps_conf_def wf2qp_desc_def wf2qp_new_fsk_def bound_par_conf)

lemma keeps_conf_qfq: "keeps_conf (\<lambda>_. qfq_desc)"
  by (simp add: keeps_conf_def qfq_desc_def qfq_new_fsk_def bound_par_conf)

end
